(* ===== verification/EGPrelude.thy ===== *)
theory EGPrelude
  imports Main "HOL-Library.Word"
begin

text \<open>
  Shared vocabulary of the development: the error values that stand for the exceptions and
  failed checks of the C++ code, the error monad in which every fallible operation of the model
  is written, and the list and monad lemmas the component theories use.
\<close>

section \<open>Errors\<close>

text \<open>
  \<open>VERIFY_RTE\<close> and \<open>THROW_RTE\<close> throw \<open>std::runtime_error\<close>; \<open>THROW_INVOCATION_EXCEPTION\<close> and
  \<open>THROW_NAMERESOLUTION_EXCEPTION\<close> throw the two exception classes of the invocation compiler;
  a failed \<open>ASSERT\<close> stops the program. \<open>OutOfFuel\<close> is the value of a loop or recursion of the
  model whose fuel is spent: a run of the C++ code that does not end gives it for every fuel.
  \<open>UndefinedBehaviour\<close> is reached where the C++ code uses an iterator or pointer that is no
  longer valid.
\<close>

datatype eg_error =
    RuntimeError string
  | InvocationException string
  | NameResolutionException string
  | AssertFailed
  | ArchiveError
  | UndefinedBehaviour
  | OutOfFuel

type_synonym 'a result = "eg_error + 'a"

section \<open>The error monad\<close>

definition bindR :: "'a result \<Rightarrow> ('a \<Rightarrow> 'b result) \<Rightarrow> 'b result" where
  "bindR m f = (case m of Inl e \<Rightarrow> Inl e | Inr x \<Rightarrow> f x)"

definition verify :: "bool \<Rightarrow> unit result" where
  "verify b = (if b then Inr () else Inl (RuntimeError ''verify''))"

definition asserting :: "bool \<Rightarrow> unit result" where
  "asserting b = (if b then Inr () else Inl AssertFailed)"

definition of_option :: "eg_error \<Rightarrow> 'a option \<Rightarrow> 'a result" where
  "of_option e v = (case v of None \<Rightarrow> Inl e | Some x \<Rightarrow> Inr x)"

fun mapR :: "('a \<Rightarrow> 'b result) \<Rightarrow> 'a list \<Rightarrow> 'b list result" where
  "mapR f [] = Inr []"
| "mapR f (x # xs) = bindR (f x) (\<lambda>y. bindR (mapR f xs) (\<lambda>ys. Inr (y # ys)))"

fun foldR :: "('a \<Rightarrow> 's \<Rightarrow> 's result) \<Rightarrow> 'a list \<Rightarrow> 's \<Rightarrow> 's result" where
  "foldR f [] s = Inr s"
| "foldR f (x # xs) s = bindR (f x s) (\<lambda>s'. foldR f xs s')"

lemma bindR_Inr [simp]: "bindR (Inr x) f = f x"
  by (simp add: bindR_def)

lemma bindR_Inl [simp]: "bindR (Inl e) f = Inl e"
  by (simp add: bindR_def)

lemma bindR_eq_Inr: "bindR m f = Inr y \<longleftrightarrow> (\<exists>x. m = Inr x \<and> f x = Inr y)"
  by (cases m) auto

lemma bindR_eq_Inl: "bindR m f = Inl e \<longleftrightarrow> m = Inl e \<or> (\<exists>x. m = Inr x \<and> f x = Inl e)"
  by (cases m) auto

lemma bindR_cong [fundef_cong]:
  "m = m' \<Longrightarrow> (\<And>x. m' = Inr x \<Longrightarrow> f x = f' x) \<Longrightarrow> bindR m f = bindR m' f'"
  by (cases m') (auto simp: bindR_def)

lemma bindR_assoc: "bindR (bindR m f) g = bindR m (\<lambda>x. bindR (f x) g)"
  by (cases m) auto

lemma verify_eq_Inr [simp]: "verify b = Inr u \<longleftrightarrow> b"
  by (auto simp: verify_def)

lemma verify_True [simp]: "verify True = Inr ()"
  by (simp add: verify_def)

lemma verify_False [simp]: "verify False = Inl (RuntimeError ''verify'')"
  by (simp add: verify_def)

lemma asserting_eq_Inr [simp]: "asserting b = Inr u \<longleftrightarrow> b"
  by (auto simp: asserting_def)

lemma asserting_True [simp]: "asserting True = Inr ()"
  by (simp add: asserting_def)

lemma asserting_False [simp]: "asserting False = Inl AssertFailed"
  by (simp add: asserting_def)

lemma of_option_eq_Inr [simp]: "of_option e v = Inr x \<longleftrightarrow> v = Some x"
  by (auto simp: of_option_def split: option.splits)

lemma of_option_Some [simp]: "of_option e (Some x) = Inr x"
  by (simp add: of_option_def)

lemma of_option_None [simp]: "of_option e None = Inl e"
  by (simp add: of_option_def)

lemma mapR_cong [fundef_cong]:
  "xs = ys \<Longrightarrow> (\<And>x. x \<in> set ys \<Longrightarrow> f x = g x) \<Longrightarrow> mapR f xs = mapR g ys"
  by (induction ys arbitrary: xs) auto

lemma foldR_cong [fundef_cong]:
  "xs = ys \<Longrightarrow> s = s' \<Longrightarrow> (\<And>x s. x \<in> set ys \<Longrightarrow> f x s = g x s) \<Longrightarrow> foldR f xs s = foldR g ys s'"
proof (induction ys arbitrary: xs s s')
  case (Cons y ys)
  have "foldR f ys = foldR g ys"
    using Cons by (intro ext) simp
  then show ?case using Cons.prems by simp
qed simp

lemma mapR_length: "mapR f xs = Inr ys \<Longrightarrow> length ys = length xs"
  by (induction xs arbitrary: ys) (auto simp: bindR_eq_Inr)

lemma mapR_Inr_conv: "mapR f xs = Inr ys \<longleftrightarrow> list_all2 (\<lambda>x y. f x = Inr y) xs ys"
  by (induction xs arbitrary: ys) (auto simp: bindR_eq_Inr list_all2_Cons1)

lemma mapR_total: "(\<And>x. x \<in> set xs \<Longrightarrow> \<exists>y. f x = Inr y) \<Longrightarrow> \<exists>ys. mapR f xs = Inr ys"
proof (induction xs)
  case (Cons x xs)
  then obtain y ys where "f x = Inr y" "mapR f xs = Inr ys" by fastforce
  then show ?case by simp
qed simp

lemma foldR_append: "foldR f (xs @ ys) s = bindR (foldR f xs s) (foldR f ys)"
  by (induction xs arbitrary: s) (auto simp: bindR_def split: sum.splits)

lemma foldR_visits: "foldR f xs s = Inr s' \<Longrightarrow> x \<in> set xs \<Longrightarrow> \<exists>t t'. f x t = Inr t'"
  by (induction xs arbitrary: s) (auto simp: bindR_eq_Inr)

lemma foldR_total:
  assumes "P s" and "\<And>x t. x \<in> set xs \<Longrightarrow> P t \<Longrightarrow> \<exists>t'. f x t = Inr t' \<and> P t'"
  shows "\<exists>s'. foldR f xs s = Inr s' \<and> P s'"
  using assms
proof (induction xs arbitrary: s)
  case (Cons x xs)
  then obtain t where "f x s = Inr t" "P t" by (meson list.set_intros(1))
  with Cons.IH [of t] Cons.prems(2) show ?case by simp
qed simp

lemma foldR_invariant:
  assumes "foldR f xs s = Inr s'" and "P s"
    and "\<And>x t t'. x \<in> set xs \<Longrightarrow> P t \<Longrightarrow> f x t = Inr t' \<Longrightarrow> P t'"
  shows "P s'"
  using assms by (induction xs arbitrary: s) (auto simp: bindR_eq_Inr)

section \<open>Lists\<close>

text \<open>\<open>uniquify_without_reorder\<close> of \<open>eg_compiler/derivation.hpp\<close>: the loop keeps the set of the
  values seen so far and appends each value on its first occurrence.\<close>

fun uniquify_loop :: "'a list \<Rightarrow> 'a list \<Rightarrow> 'a set \<Rightarrow> 'a list" where
  "uniquify_loop [] result uniq = result"
| "uniquify_loop (v # ids) result uniq =
     (if v \<in> uniq then uniquify_loop ids result uniq
      else uniquify_loop ids (result @ [v]) (insert v uniq))"

definition uniquify_without_reorder :: "'a list \<Rightarrow> 'a list" where
  "uniquify_without_reorder ids = uniquify_loop ids [] {}"

lemma uniquify_loop_set: "uniq = set result \<Longrightarrow> set (uniquify_loop ids result uniq) = set result \<union> set ids"
  by (induction ids result uniq rule: uniquify_loop.induct) auto

lemma uniquify_loop_distinct:
  "uniq = set result \<Longrightarrow> distinct result \<Longrightarrow> distinct (uniquify_loop ids result uniq)"
  by (induction ids result uniq rule: uniquify_loop.induct) auto

lemma uniquify_loop_append: "uniquify_loop ids result uniq = result @ uniquify_loop ids [] uniq"
proof (induction ids arbitrary: result uniq)
  case (Cons v ids)
  show ?case
    using Cons [of "result @ [v]" "insert v uniq"] Cons [of "[v]" "insert v uniq"] Cons [of result uniq]
    by simp
qed simp

lemma uniquify_set [simp]: "set (uniquify_without_reorder ids) = set ids"
  by (simp add: uniquify_without_reorder_def uniquify_loop_set)

lemma uniquify_distinct [simp]: "distinct (uniquify_without_reorder ids)"
  by (simp add: uniquify_without_reorder_def uniquify_loop_distinct)

lemma uniquify_loop_id: "distinct ids \<Longrightarrow> set ids \<inter> uniq = {} \<Longrightarrow> uniquify_loop ids [] uniq = ids"
proof (induction ids arbitrary: uniq)
  case (Cons v ids)
  then show ?case
    using uniquify_loop_append [of ids "[v]" "insert v uniq"] by simp
qed simp

lemma uniquify_id: "distinct ids \<Longrightarrow> uniquify_without_reorder ids = ids"
  by (simp add: uniquify_without_reorder_def uniquify_loop_id)

lemma uniquify_Nil [simp]: "uniquify_without_reorder [] = []"
  by (simp add: uniquify_without_reorder_def)

text \<open>Reading an array cell: \<open>None\<close> where the C++ index would be out of range.\<close>

definition nth_opt :: "'a list \<Rightarrow> nat \<Rightarrow> 'a option" where
  "nth_opt xs i = (if i < length xs then Some (xs ! i) else None)"

lemma nth_opt_Some: "nth_opt xs i = Some x \<longleftrightarrow> i < length xs \<and> xs ! i = x"
  by (simp add: nth_opt_def)

lemma nth_opt_less [simp]: "i < length xs \<Longrightarrow> nth_opt xs i = Some (xs ! i)"
  by (simp add: nth_opt_def)

end
