(* ===== verification/EGCommon.thy ===== *)
theory EGCommon
  imports EGPrelude
begin

text \<open>
  The types of \<open>api/eg/common.hpp\<close> every component shares: instance numbers, type identifiers and
  time stamps, the action states, the operation identifiers with their numeric values, and
  references with their comparison operators. \<open>eg::TypeID\<close> is a 32 bit signed integer that the code
  compares, negates and uses as an index but never adds to, so it is an \<open>int\<close>; instance numbers,
  on which the code does arithmetic, are \<open>32 word\<close>.
\<close>

type_synonym Instance = "32 word"
type_synonym TypeID = int
type_synonym TimeStamp = "32 word"

datatype ActionState = action_stopped | action_running | action_paused | TOTAL_ACTION_STATES

fun getActionState :: "ActionState \<Rightarrow> string" where
  "getActionState action_running = ''::eg::action_running''"
| "getActionState action_paused = ''::eg::action_paused''"
| "getActionState action_stopped = ''::eg::action_stopped''"
| "getActionState TOTAL_ACTION_STATES = ''''"

definition INVALID_TIMESTAMP :: TimeStamp where
  "INVALID_TIMESTAMP = 0"

section \<open>Operation identifiers\<close>

datatype OperationID =
    id_Imp_NoParams | id_Imp_Params | id_Start | id_Stop | id_Pause | id_Resume
  | id_Wait | id_Get | id_Done | id_Range | id_Raw | HIGHEST_OPERATION_TYPE

definition min_TypeID :: TypeID where
  "min_TypeID = - 2147483648"

fun OperationID_value :: "OperationID \<Rightarrow> TypeID" where
  "OperationID_value id_Imp_NoParams = min_TypeID"
| "OperationID_value id_Imp_Params = min_TypeID + 1"
| "OperationID_value id_Start = min_TypeID + 2"
| "OperationID_value id_Stop = min_TypeID + 3"
| "OperationID_value id_Pause = min_TypeID + 4"
| "OperationID_value id_Resume = min_TypeID + 5"
| "OperationID_value id_Wait = min_TypeID + 6"
| "OperationID_value id_Get = min_TypeID + 7"
| "OperationID_value id_Done = min_TypeID + 8"
| "OperationID_value id_Range = min_TypeID + 9"
| "OperationID_value id_Raw = min_TypeID + 10"
| "OperationID_value HIGHEST_OPERATION_TYPE = min_TypeID + 11"

datatype ExplicitOperationID =
    id_exp_Read | id_exp_Write | id_exp_Call | id_exp_Start | id_exp_Stop | id_exp_Pause
  | id_exp_Resume | id_exp_WaitAction | id_exp_WaitDimension | id_exp_GetAction
  | id_exp_GetDimension | id_exp_Done | id_exp_Range | id_exp_Raw
  | HIGHEST_EXPLICIT_OPERATION_TYPE

definition isOperationImplicit :: "OperationID \<Rightarrow> bool" where
  "isOperationImplicit operationType \<longleftrightarrow> operationType = id_Imp_NoParams \<or> operationType = id_Imp_Params"

definition isOperationType :: "TypeID \<Rightarrow> bool" where
  "isOperationType i \<longleftrightarrow> i < OperationID_value HIGHEST_OPERATION_TYPE"

fun isOperationEnumeration :: "OperationID \<Rightarrow> bool" where
  "isOperationEnumeration id_Range = True"
| "isOperationEnumeration id_Raw = True"
| "isOperationEnumeration _ = False"

definition all_operation_ids :: "OperationID list" where
  "all_operation_ids = [id_Imp_NoParams, id_Imp_Params, id_Start, id_Stop, id_Pause, id_Resume,
     id_Wait, id_Get, id_Done, id_Range, id_Raw]"

text \<open>\<open>static_cast< OperationID >( typeID )\<close> of a value of the enumeration.\<close>

definition OperationID_of :: "TypeID \<Rightarrow> OperationID option" where
  "OperationID_of i = find (\<lambda>x. OperationID_value x = i) all_operation_ids"

lemma OperationID_of_value: "x \<noteq> HIGHEST_OPERATION_TYPE \<Longrightarrow> OperationID_of (OperationID_value x) = Some x"
  by (cases x) (simp_all add: OperationID_of_def all_operation_ids_def)

lemma OperationID_value_inject [simp]: "OperationID_value x = OperationID_value y \<longleftrightarrow> x = y"
  by (cases x; cases y) simp_all

lemma isOperationType_value: "isOperationType (OperationID_value x) \<longleftrightarrow> x \<noteq> HIGHEST_OPERATION_TYPE"
  by (cases x) (simp_all add: isOperationType_def)

lemma isOperationType_negative: "isOperationType i \<Longrightarrow> i < 0"
  by (simp add: isOperationType_def min_TypeID_def)

lemma OperationID_of_complete:
  assumes "min_TypeID \<le> i" and "isOperationType i"
  shows "\<exists>x. OperationID_of i = Some x \<and> OperationID_value x = i"
proof -
  from assms have "\<exists>x \<in> set all_operation_ids. OperationID_value x = i"
    unfolding isOperationType_def all_operation_ids_def by (simp add: min_TypeID_def) arith
  then have "OperationID_of i \<noteq> None"
    by (auto simp: OperationID_of_def find_None_iff)
  then obtain x where "OperationID_of i = Some x" by auto
  then show ?thesis by (auto simp: OperationID_of_def find_Some_iff)
qed

section \<open>References\<close>

record TypeInstance =
  inst :: Instance
  tid :: TypeID

record reference = TypeInstance +
  timestamp :: TimeStamp

definition TypeInstance_eq :: "'a TypeInstance_scheme \<Rightarrow> 'a TypeInstance_scheme \<Rightarrow> bool" where
  "TypeInstance_eq a b \<longleftrightarrow> inst a = inst b \<and> tid a = tid b"

definition TypeInstance_less :: "'a TypeInstance_scheme \<Rightarrow> 'a TypeInstance_scheme \<Rightarrow> bool" where
  "TypeInstance_less a b \<longleftrightarrow>
     (if inst a \<noteq> inst b then inst a < inst b
      else if tid a \<noteq> tid b then tid a < tid b
      else False)"

definition reference_eq :: "reference \<Rightarrow> reference \<Rightarrow> bool" where
  "reference_eq a b \<longleftrightarrow>
     (timestamp a = INVALID_TIMESTAMP \<and> timestamp b = INVALID_TIMESTAMP) \<or>
     (inst a = inst b \<and> tid a = tid b \<and> timestamp a = timestamp b)"

definition reference_less :: "reference \<Rightarrow> reference \<Rightarrow> bool" where
  "reference_less a b \<longleftrightarrow>
     (if inst a \<noteq> inst b then inst a < inst b
      else if tid a \<noteq> tid b then tid a < tid b
      else if timestamp a \<noteq> timestamp b then timestamp a < timestamp b
      else False)"

definition mk_ref :: "Instance \<Rightarrow> TypeID \<Rightarrow> TimeStamp \<Rightarrow> reference" where
  "mk_ref i t ts = \<lparr>inst = i, tid = t, timestamp = ts\<rparr>"

lemma mk_ref_sel [simp]:
  "inst (mk_ref i t ts) = i" "tid (mk_ref i t ts) = t" "timestamp (mk_ref i t ts) = ts"
  by (simp_all add: mk_ref_def)

lemma reference_eqI: "inst a = inst b \<Longrightarrow> tid a = tid b \<Longrightarrow> timestamp a = timestamp b \<Longrightarrow> a = (b :: reference)"
  by (cases a; cases b) simp

lemma reference_less_irrefl [simp]: "\<not> reference_less a a"
  by (simp add: reference_less_def)

lemma reference_less_trans: "reference_less a b \<Longrightarrow> reference_less b c \<Longrightarrow> reference_less a c"
  by (auto simp: reference_less_def split: if_splits)

lemma reference_less_total: "reference_less a b \<or> a = b \<or> reference_less b a"
  by (auto simp: reference_less_def intro!: reference_eqI)

lemma reference_less_asym: "reference_less a b \<Longrightarrow> \<not> reference_less b a"
  using reference_less_trans [of a b a] by auto

lemma reference_eq_valid:
  "timestamp a \<noteq> INVALID_TIMESTAMP \<or> timestamp b \<noteq> INVALID_TIMESTAMP \<Longrightarrow> reference_eq a b \<longleftrightarrow> a = b"
  by (auto simp: reference_eq_def intro: reference_eqI)

lemma reference_eq_equivalence:
  "reference_eq a a" "reference_eq a b \<Longrightarrow> reference_eq b a"
  "reference_eq a b \<Longrightarrow> reference_eq b c \<Longrightarrow> reference_eq a c"
  by (auto simp: reference_eq_def)

section \<open>The properties\<close>

text \<open>\<open>operator<\<close> on references is a strict total order of their three members, and \<open>operator==\<close>
  is coarser than that order only on null references: two references with a valid timestamp are equal
  exactly when neither is less, and two null references that differ in instance or type are equal
  for \<open>==\<close> while one of them is less.\<close>

theorem reference_comparisons:
  "(reference_less a b \<longleftrightarrow> a \<noteq> b \<and> \<not> reference_less b a) \<and>
   (reference_eq a b \<longleftrightarrow> a = b \<or> timestamp a = INVALID_TIMESTAMP \<and> timestamp b = INVALID_TIMESTAMP) \<and>
   (\<not> (timestamp a = INVALID_TIMESTAMP \<and> timestamp b = INVALID_TIMESTAMP) \<longrightarrow>
     (reference_eq a b \<longleftrightarrow> \<not> reference_less a b \<and> \<not> reference_less b a)) \<and>
   (timestamp a = INVALID_TIMESTAMP \<and> timestamp b = INVALID_TIMESTAMP \<and> a \<noteq> b \<longrightarrow>
     reference_eq a b \<and> (reference_less a b \<or> reference_less b a))"
proof -
  have ex: "a = b \<longleftrightarrow> inst a = inst b \<and> tid a = tid b \<and> timestamp a = timestamp b"
    by (auto intro: reference_eqI)
  have less: "reference_less a b \<longleftrightarrow> a \<noteq> b \<and> \<not> reference_less b a"
    using reference_less_total [of a b] reference_less_asym [of a b] reference_less_irrefl [of a] by auto
  have eq: "reference_eq a b \<longleftrightarrow> a = b \<or> timestamp a = INVALID_TIMESTAMP \<and> timestamp b = INVALID_TIMESTAMP"
    unfolding ex reference_eq_def by blast
  show ?thesis using less eq reference_less_irrefl [of a] by (cases "a = b") simp_all
qed

theorem reference_comparisons_witness:
  "reference_eq (mk_ref 1 2 INVALID_TIMESTAMP) (mk_ref 3 2 INVALID_TIMESTAMP) \<and>
   reference_less (mk_ref 1 2 INVALID_TIMESTAMP) (mk_ref 3 2 INVALID_TIMESTAMP)"
  using reference_comparisons [of "mk_ref 1 2 INVALID_TIMESTAMP" "mk_ref 3 2 INVALID_TIMESTAMP"]
  by (auto simp: reference_less_def mk_ref_def)

end
