(* ===== verification/SlotAllocators.thy ===== *)
theory SlotAllocators
  imports EGPrelude
begin

text \<open>
  The instance allocators of \<open>api/eg/allocator.hpp\<close>: \<open>Bitmask32Allocator\<close>, \<open>Bitmask64Allocator\<close>
  and \<open>RingAllocator\<close>. Each hands out the instance numbers below its template argument \<open>Size\<close>.
  The locale \<open>slot_allocator\<close> states the contract the generated starter and stopper code relies on;
  the three allocators interpret it. Instance numbers are \<open>nat\<close> here: all of them are below \<open>Size\<close>,
  which fits the 32 bits of \<open>eg::Instance\<close>, and no operation does arithmetic that could pass it.
\<close>

unbundle bit_operations_syntax

section \<open>The bitmask allocators\<close>

text \<open>\<open>std::bitset< Size >\<close> is the list of its bits, index 0 first; \<open>set\<close> and \<open>reset\<close> of a position
  that is not below \<open>Size\<close> throw \<open>std::out_of_range\<close>.\<close>

record bitmask_allocator =
  ba_size :: nat
  ba_bits :: "bool list"

definition bitset_put :: "bool \<Rightarrow> nat \<Rightarrow> bool list \<Rightarrow> bool list result" where
  "bitset_put b i bs = (if i < length bs then Inr (bs[i := b]) else Inl (RuntimeError ''out_of_range''))"

definition to_ulong :: "bool list \<Rightarrow> 32 word" where
  "to_ulong bs = horner_sum of_bool 2 bs"

definition to_ullong :: "bool list \<Rightarrow> 64 word" where
  "to_ullong bs = horner_sum of_bool 2 bs"

text \<open>The intrinsic \<open>_BitScanForward( &index, mask )\<close> on a 32 bit mask: the lowest set bit, if any.\<close>

definition BitScanForward :: "32 word \<Rightarrow> nat option" where
  "BitScanForward m = find (bit m) [0..<32]"

definition Bitmask_construct :: "nat \<Rightarrow> bitmask_allocator" where
  "Bitmask_construct n = \<lparr>ba_size = n, ba_bits = replicate n True\<rparr>"

definition Bitmask32_nextFree :: "bitmask_allocator \<Rightarrow> nat" where
  "Bitmask32_nextFree a =
     (case BitScanForward (to_ulong (ba_bits a)) of Some index \<Rightarrow> index | None \<Rightarrow> ba_size a)"

text \<open>The 64 bit mask is converted to the 32 bit parameter of the intrinsic, which keeps its low half.\<close>

definition Bitmask64_nextFree :: "bitmask_allocator \<Rightarrow> nat" where
  "Bitmask64_nextFree a =
     (let m = to_ullong (ba_bits a)
      in case BitScanForward (ucast m) of
           Some index \<Rightarrow> index
         | None \<Rightarrow>
             (case BitScanForward (ucast (drop_bit 32 m)) of
                Some index \<Rightarrow> index + 32
              | None \<Rightarrow> ba_size a))"

definition Bitmask_allocate :: "nat \<Rightarrow> bitmask_allocator \<Rightarrow> bitmask_allocator result" where
  "Bitmask_allocate i a = bindR (bitset_put False i (ba_bits a)) (\<lambda>bs. Inr (a\<lparr>ba_bits := bs\<rparr>))"

definition Bitmask_free :: "nat \<Rightarrow> bitmask_allocator \<Rightarrow> bitmask_allocator result" where
  "Bitmask_free i a = bindR (bitset_put True i (ba_bits a)) (\<lambda>bs. Inr (a\<lparr>ba_bits := bs\<rparr>))"

definition Bitmask_empty :: "bitmask_allocator \<Rightarrow> bool" where
  "Bitmask_empty a = list_all id (ba_bits a)"

definition Bitmask_full :: "bitmask_allocator \<Rightarrow> bool" where
  "Bitmask_full a = (\<not> list_ex id (ba_bits a))"

section \<open>The ring allocator\<close>

record ring_allocator =
  ra_size :: nat
  ra_head :: nat
  ra_tail :: nat
  ra_full :: bool
  ra_ring :: "nat list"

definition Ring_construct :: "nat \<Rightarrow> ring_allocator" where
  "Ring_construct n = \<lparr>ra_size = n, ra_head = 0, ra_tail = 0, ra_full = False, ra_ring = [0..<n]\<rparr>"

definition ring_next :: "nat \<Rightarrow> nat \<Rightarrow> nat" where
  "ring_next n i = (if i = n - 1 then 0 else Suc i)"

definition Ring_nextFree :: "ring_allocator \<Rightarrow> nat" where
  "Ring_nextFree a =
     (if \<not> ra_full a then ra_ring a ! ring_next (ra_size a) (ra_head a) else ra_size a)"

definition Ring_allocate :: "nat \<Rightarrow> ring_allocator \<Rightarrow> ring_allocator result" where
  "Ring_allocate i a =
     (let a1 = a\<lparr>ra_head := ring_next (ra_size a) (ra_head a)\<rparr>
      in Inr (if ra_head a1 = ra_tail a1 then a1\<lparr>ra_full := True\<rparr> else a1))"

definition Ring_free :: "nat \<Rightarrow> ring_allocator \<Rightarrow> ring_allocator result" where
  "Ring_free i a =
     (let a1 = (if ra_full a then a\<lparr>ra_full := False\<rparr> else a);
          a2 = a1\<lparr>ra_tail := ring_next (ra_size a1) (ra_tail a1)\<rparr>
      in Inr (a2\<lparr>ra_ring := (ra_ring a2)[ra_tail a2 := i]\<rparr>))"

definition Ring_empty :: "ring_allocator \<Rightarrow> bool" where
  "Ring_empty a = (\<not> ra_full a \<and> ra_head a = ra_tail a)"

definition Ring_full :: "ring_allocator \<Rightarrow> bool" where
  "Ring_full a = ra_full a"

section \<open>The contract\<close>

text \<open>How an allocator is used: an acquisition takes \<open>nextFree\<close> unless it is \<open>Size\<close>, a release gives
  back an instance that is held. The run keeps the set of instances that are held.\<close>

datatype slot_op = Acquire | Release nat

fun slot_run :: "('a \<Rightarrow> nat) \<Rightarrow> ('a \<Rightarrow> nat) \<Rightarrow> (nat \<Rightarrow> 'a \<Rightarrow> 'a result) \<Rightarrow> (nat \<Rightarrow> 'a \<Rightarrow> 'a result) \<Rightarrow>
    slot_op list \<Rightarrow> 'a \<Rightarrow> nat list \<Rightarrow> ('a \<times> nat list) result" where
  "slot_run sz nxt alloc rel [] a held = Inr (a, held)"
| "slot_run sz nxt alloc rel (Acquire # ops) a held =
     (if nxt a = sz a then slot_run sz nxt alloc rel ops a held
      else bindR (alloc (nxt a) a) (\<lambda>a'. slot_run sz nxt alloc rel ops a' (nxt a # held)))"
| "slot_run sz nxt alloc rel (Release i # ops) a held =
     (if i \<in> set held then bindR (rel i a) (\<lambda>a'. slot_run sz nxt alloc rel ops a' (remove1 i held))
      else slot_run sz nxt alloc rel ops a held)"

locale slot_allocator =
  fixes sz :: "'a \<Rightarrow> nat"
    and nxt :: "'a \<Rightarrow> nat"
    and alloc :: "nat \<Rightarrow> 'a \<Rightarrow> 'a result"
    and rel :: "nat \<Rightarrow> 'a \<Rightarrow> 'a result"
    and isempty :: "'a \<Rightarrow> bool"
    and isfull :: "'a \<Rightarrow> bool"
    and invar :: "'a \<Rightarrow> bool"
    and slots :: "'a \<Rightarrow> nat set"
  assumes slots_bound: "invar a \<Longrightarrow> slots a \<subseteq> {..<sz a}"
    and nxt_free: "invar a \<Longrightarrow> slots a \<noteq> {} \<Longrightarrow> nxt a \<in> slots a"
    and nxt_full: "invar a \<Longrightarrow> slots a = {} \<Longrightarrow> nxt a = sz a"
    and alloc_law: "invar a \<Longrightarrow> slots a \<noteq> {} \<Longrightarrow>
      \<exists>a'. alloc (nxt a) a = Inr a' \<and> invar a' \<and> sz a' = sz a \<and> slots a' = slots a - {nxt a}"
    and rel_law: "invar a \<Longrightarrow> i < sz a \<Longrightarrow> i \<notin> slots a \<Longrightarrow>
      \<exists>a'. rel i a = Inr a' \<and> invar a' \<and> sz a' = sz a \<and> slots a' = insert i (slots a)"
    and isempty_law: "invar a \<Longrightarrow> isempty a \<longleftrightarrow> slots a = {..<sz a}"
    and isfull_law: "invar a \<Longrightarrow> isfull a \<longleftrightarrow> slots a = {}"
begin

lemma nxt_neq_sz: "invar a \<Longrightarrow> nxt a = sz a \<longleftrightarrow> slots a = {}"
  using slots_bound nxt_free nxt_full by fastforce

lemma run_partition:
  assumes "invar a" and "distinct held" and "set held = {..<sz a} - slots a"
  shows "\<exists>a' held'. slot_run sz nxt alloc rel ops a held = Inr (a', held') \<and> invar a' \<and>
    sz a' = sz a \<and> distinct held' \<and> set held' = {..<sz a} - slots a'"
  using assms
proof (induction ops arbitrary: a held)
  case Nil
  then show ?case by auto
next
  case (Cons x ops)
  show ?case
  proof (cases x)
    case Acquire
    show ?thesis
    proof (cases "slots a = {}")
      case True
      then show ?thesis using Cons Acquire by (simp add: nxt_full)
    next
      case False
      from alloc_law [OF Cons.prems(1) False] obtain a' where a': "alloc (nxt a) a = Inr a'" "invar a'"
        "sz a' = sz a" "slots a' = slots a - {nxt a}" by blast
      have n: "nxt a \<in> slots a" "nxt a < sz a"
        using nxt_free [OF Cons.prems(1) False] slots_bound [OF Cons.prems(1)] by auto
      have "set (nxt a # held) = {..<sz a'} - slots a'" "distinct (nxt a # held)"
        using Cons.prems a' n by auto
      from Cons.IH [OF a'(2) this(2) this(1)] show ?thesis
        using Acquire a' False by (simp add: nxt_neq_sz Cons.prems)
    qed
  next
    case (Release i)
    show ?thesis
    proof (cases "i \<in> set held")
      case True
      then have i: "i < sz a" "i \<notin> slots a" using Cons.prems by auto
      from rel_law [OF Cons.prems(1) i] obtain a' where a': "rel i a = Inr a'" "invar a'"
        "sz a' = sz a" "slots a' = insert i (slots a)" by blast
      have "set (remove1 i held) = {..<sz a'} - slots a'" "distinct (remove1 i held)"
        using Cons.prems a' by (auto simp: set_remove1_eq)
      from Cons.IH [OF a'(2) this(2) this(1)] show ?thesis
        using Release True a' by simp
    next
      case False
      then show ?thesis using Cons.IH [OF Cons.prems] Release by simp
    qed
  qed
qed

lemma run_from_empty:
  assumes "invar a" and "isempty a"
  obtains a' held where "slot_run sz nxt alloc rel ops a [] = Inr (a', held)" and "invar a'"
    and "sz a' = sz a" and "distinct held" and "set held = {..<sz a} - slots a'"
  using run_partition [of a "[]" ops] assms isempty_law by auto

lemma run_acquire_fresh:
  assumes "invar a" and "isempty a" and "slot_run sz nxt alloc rel ops a [] = Inr (a', held)"
    and "nxt a' \<noteq> sz a'"
  shows "nxt a' \<notin> set held \<and> nxt a' < sz a"
proof -
  from run_from_empty [OF assms(1,2), of ops] assms(3)
  have "invar a'" "sz a' = sz a" "set held = {..<sz a} - slots a'" by auto
  with nxt_free nxt_neq_sz assms(4) slots_bound show ?thesis by fastforce
qed

lemma run_full_iff:
  assumes "invar a" and "isempty a" and "slot_run sz nxt alloc rel ops a [] = Inr (a', held)"
  shows "isfull a' \<longleftrightarrow> length held = sz a"
proof -
  from run_from_empty [OF assms(1,2), of ops] assms(3)
  have *: "invar a'" "sz a' = sz a" "distinct held" "set held = {..<sz a} - slots a'" by auto
  then have "slots a' = {} \<longleftrightarrow> set held = {..<sz a}" using slots_bound [of a'] by auto
  also have "\<dots> \<longleftrightarrow> card (set held) = sz a"
    using *(4) by (metis Diff_subset card_lessThan card_subset_eq finite_lessThan)
  finally show ?thesis using * distinct_card [of held] by (simp add: isfull_law)
qed

lemma run_exclusive:
  assumes "invar a" and "isempty a"
  shows "\<exists>a' held. slot_run sz nxt alloc rel ops a [] = Inr (a', held) \<and> distinct held \<and>
    set held \<subseteq> {..<sz a} \<and> (isfull a' \<longleftrightarrow> length held = sz a) \<and>
    (if isfull a' then nxt a' = sz a else nxt a' < sz a \<and> nxt a' \<notin> set held)"
proof -
  obtain a' held where r: "slot_run sz nxt alloc rel ops a [] = Inr (a', held)" "invar a'"
    "sz a' = sz a" "distinct held" "set held = {..<sz a} - slots a'"
    by (rule run_from_empty [OF assms])
  have "isfull a' \<longleftrightarrow> nxt a' = sz a'" using isfull_law [OF r(2)] nxt_neq_sz [OF r(2)] by simp
  moreover note run_full_iff [OF assms r(1)] run_acquire_fresh [OF assms r(1)]
  moreover have "set held \<subseteq> {..<sz a}" using r(5) by blast
  ultimately show ?thesis using r(1,3,4) by metis
qed

end

section \<open>The bitmask allocators meet the contract\<close>

definition bitmask_invar :: "nat \<Rightarrow> bitmask_allocator \<Rightarrow> bool" where
  "bitmask_invar w a \<longleftrightarrow> length (ba_bits a) = ba_size a \<and> ba_size a \<le> w"

definition bitmask_slots :: "bitmask_allocator \<Rightarrow> nat set" where
  "bitmask_slots a = {i. i < length (ba_bits a) \<and> ba_bits a ! i}"

lemma bit_to_ulong: "bit (to_ulong bs) i \<longleftrightarrow> i < 32 \<and> i < length bs \<and> bs ! i"
  by (auto simp: to_ulong_def bit_horner_sum_bit_word_iff)

lemma bit_to_ullong: "bit (to_ullong bs) i \<longleftrightarrow> i < 64 \<and> i < length bs \<and> bs ! i"
  by (auto simp: to_ullong_def bit_horner_sum_bit_word_iff)

lemma BitScanForward_Some: "BitScanForward m = Some i \<Longrightarrow> i < 32 \<and> bit m i"
  unfolding BitScanForward_def by (auto simp: find_Some_iff)

lemma BitScanForward_None: "BitScanForward m = None \<Longrightarrow> i < 32 \<Longrightarrow> \<not> bit m i"
  unfolding BitScanForward_def by (auto simp: find_None_iff)

lemma Bitmask_put_law:
  assumes "bitmask_invar w a" and "i < ba_size a"
  shows "bitset_put b i (ba_bits a) = Inr ((ba_bits a)[i := b])"
    and "bitmask_invar w (a\<lparr>ba_bits := (ba_bits a)[i := b]\<rparr>)"
    and "bitmask_slots (a\<lparr>ba_bits := (ba_bits a)[i := b]\<rparr>) =
      (if b then insert i (bitmask_slots a) else bitmask_slots a - {i})"
  using assms by (auto simp: bitset_put_def bitmask_invar_def bitmask_slots_def nth_list_update)

lemma Bitmask_empty_slots: "bitmask_invar w a \<Longrightarrow> Bitmask_empty a \<longleftrightarrow> bitmask_slots a = {..<ba_size a}"
  by (auto simp: Bitmask_empty_def bitmask_slots_def bitmask_invar_def list_all_length)

lemma Bitmask_full_slots: "bitmask_invar w a \<Longrightarrow> Bitmask_full a \<longleftrightarrow> bitmask_slots a = {}"
  by (auto simp: Bitmask_full_def bitmask_slots_def bitmask_invar_def list_ex_length)

lemma Bitmask32_nextFree_free:
  assumes "bitmask_invar 32 a" and "bitmask_slots a \<noteq> {}"
  shows "Bitmask32_nextFree a \<in> bitmask_slots a"
proof (cases "BitScanForward (to_ulong (ba_bits a))")
  case None
  obtain j where "j < ba_size a" "ba_bits a ! j" "j < 32"
    using assms by (auto simp: bitmask_slots_def bitmask_invar_def)
  with BitScanForward_None [OF None, of j] assms(1) show ?thesis
    by (auto simp: bitmask_invar_def bit_to_ulong)
next
  case (Some i)
  with BitScanForward_Some [OF Some] show ?thesis
    by (simp add: Bitmask32_nextFree_def bitmask_slots_def bit_to_ulong)
qed

lemma Bitmask32_nextFree_full:
  assumes "bitmask_invar 32 a" and "bitmask_slots a = {}"
  shows "Bitmask32_nextFree a = ba_size a"
  using assms BitScanForward_Some [of "to_ulong (ba_bits a)"]
  by (auto simp: Bitmask32_nextFree_def bitmask_slots_def bit_to_ulong split: option.splits)

lemma Bitmask64_nextFree_free:
  assumes inv: "bitmask_invar 64 a" and ne: "bitmask_slots a \<noteq> {}"
  shows "Bitmask64_nextFree a \<in> bitmask_slots a"
proof -
  let ?m = "to_ullong (ba_bits a)"
  let ?lo = "ucast ?m :: 32 word" and ?hi = "ucast (drop_bit 32 ?m) :: 32 word"
  have lo: "bit ?lo i \<longleftrightarrow> i < 32 \<and> i \<in> bitmask_slots a" for i
    by (auto simp: bit_ucast_iff bit_to_ullong bitmask_slots_def)
  have hi: "bit ?hi i \<longleftrightarrow> i < 32 \<and> i + 32 \<in> bitmask_slots a" for i
    by (auto simp: bit_ucast_iff bit_drop_bit_eq bit_to_ullong bitmask_slots_def add.commute)
  show ?thesis
  proof (cases "BitScanForward ?lo")
    case (Some i)
    then show ?thesis using BitScanForward_Some [OF Some] lo
      by (simp add: Bitmask64_nextFree_def)
  next
    case nlo: None
    obtain j where j: "j \<in> bitmask_slots a" using ne by blast
    have "j < 64" using j inv by (auto simp: bitmask_slots_def bitmask_invar_def)
    moreover have "\<not> j < 32" using BitScanForward_None [OF nlo, of j] lo j by auto
    ultimately have "bit ?hi (j - 32)" using hi j by auto
    then have "BitScanForward ?hi \<noteq> None"
      using BitScanForward_None [of ?hi "j - 32"] hi by auto
    then obtain i where i: "BitScanForward ?hi = Some i" by auto
    with BitScanForward_Some [OF i] hi nlo show ?thesis
      by (simp add: Bitmask64_nextFree_def)
  qed
qed

lemma Bitmask64_nextFree_full:
  assumes "bitmask_invar 64 a" and "bitmask_slots a = {}"
  shows "Bitmask64_nextFree a = ba_size a"
proof -
  have "\<not> bit (to_ullong (ba_bits a)) i" for i
    using assms by (auto simp: bitmask_slots_def bit_to_ullong)
  then have "BitScanForward (ucast (to_ullong (ba_bits a))) = None"
    and "BitScanForward (ucast (drop_bit 32 (to_ullong (ba_bits a)))) = None"
    by (auto simp: BitScanForward_def find_None_iff bit_ucast_iff bit_drop_bit_eq)
  then show ?thesis by (simp add: Bitmask64_nextFree_def)
qed

interpretation bm32: slot_allocator ba_size Bitmask32_nextFree Bitmask_allocate Bitmask_free
    Bitmask_empty Bitmask_full "bitmask_invar 32" bitmask_slots
proof unfold_locales
  fix a assume a: "bitmask_invar 32 a"
  show "bitmask_slots a \<subseteq> {..<ba_size a}" using a by (auto simp: bitmask_slots_def bitmask_invar_def)
  then show "bitmask_slots a \<noteq> {} \<Longrightarrow> \<exists>a'. Bitmask_allocate (Bitmask32_nextFree a) a = Inr a' \<and>
      bitmask_invar 32 a' \<and> ba_size a' = ba_size a \<and> bitmask_slots a' = bitmask_slots a - {Bitmask32_nextFree a}"
    using Bitmask32_nextFree_free [OF a] Bitmask_put_law [OF a, of "Bitmask32_nextFree a" False]
    by (auto simp: Bitmask_allocate_def)
  show "\<And>i. i < ba_size a \<Longrightarrow> i \<notin> bitmask_slots a \<Longrightarrow> \<exists>a'. Bitmask_free i a = Inr a' \<and>
      bitmask_invar 32 a' \<and> ba_size a' = ba_size a \<and> bitmask_slots a' = insert i (bitmask_slots a)"
    using Bitmask_put_law [OF a, of _ True] by (auto simp: Bitmask_free_def)
qed (simp_all add: Bitmask32_nextFree_free Bitmask32_nextFree_full Bitmask_empty_slots Bitmask_full_slots)

interpretation bm64: slot_allocator ba_size Bitmask64_nextFree Bitmask_allocate Bitmask_free
    Bitmask_empty Bitmask_full "bitmask_invar 64" bitmask_slots
proof unfold_locales
  fix a assume a: "bitmask_invar 64 a"
  show "bitmask_slots a \<subseteq> {..<ba_size a}" using a by (auto simp: bitmask_slots_def bitmask_invar_def)
  then show "bitmask_slots a \<noteq> {} \<Longrightarrow> \<exists>a'. Bitmask_allocate (Bitmask64_nextFree a) a = Inr a' \<and>
      bitmask_invar 64 a' \<and> ba_size a' = ba_size a \<and> bitmask_slots a' = bitmask_slots a - {Bitmask64_nextFree a}"
    using Bitmask64_nextFree_free [OF a] Bitmask_put_law [OF a, of "Bitmask64_nextFree a" False]
    by (auto simp: Bitmask_allocate_def)
  show "\<And>i. i < ba_size a \<Longrightarrow> i \<notin> bitmask_slots a \<Longrightarrow> \<exists>a'. Bitmask_free i a = Inr a' \<and>
      bitmask_invar 64 a' \<and> ba_size a' = ba_size a \<and> bitmask_slots a' = insert i (bitmask_slots a)"
    using Bitmask_put_law [OF a, of _ True] by (auto simp: Bitmask_free_def)
qed (simp_all add: Bitmask64_nextFree_free Bitmask64_nextFree_full Bitmask_empty_slots Bitmask_full_slots)

section \<open>The ring allocator meets the contract\<close>

text \<open>The free instances are the ring cells after the head up to and including the tail; when head and
  tail meet, the flag tells a full allocator from an empty one.\<close>

definition ring_count :: "ring_allocator \<Rightarrow> nat" where
  "ring_count a =
     (if ra_full a then 0
      else if ra_head a < ra_tail a then ra_tail a - ra_head a
      else ra_size a - (ra_head a - ra_tail a))"

definition ring_list :: "ring_allocator \<Rightarrow> nat list" where
  "ring_list a = map (\<lambda>k. ra_ring a ! ((ra_head a + 1 + k) mod ra_size a)) [0..<ring_count a]"

definition ring_slots :: "ring_allocator \<Rightarrow> nat set" where
  "ring_slots a = set (ring_list a)"

definition ring_invar :: "ring_allocator \<Rightarrow> bool" where
  "ring_invar a \<longleftrightarrow> 0 < ra_size a \<and> length (ra_ring a) = ra_size a \<and> ra_head a < ra_size a \<and>
     ra_tail a < ra_size a \<and> (ra_full a \<longrightarrow> ra_head a = ra_tail a) \<and>
     distinct (ring_list a) \<and> set (ring_list a) \<subseteq> {..<ra_size a}"

lemma ring_next_mod: "i < n \<Longrightarrow> ring_next n i = Suc i mod n"
  by (auto simp: ring_next_def mod_Suc)

lemma length_ring_list [simp]: "length (ring_list a) = ring_count a"
  by (simp add: ring_list_def)

lemma ring_tail_eq: "ring_invar a \<Longrightarrow> (ra_head a + ring_count a) mod ra_size a = ra_tail a"
  by (auto simp: ring_invar_def ring_count_def)

lemma ring_count_le: "ring_invar a \<Longrightarrow> ring_count a \<le> ra_size a"
  by (auto simp: ring_invar_def ring_count_def)

lemma ring_full_count: "ring_invar a \<Longrightarrow> ra_full a \<longleftrightarrow> ring_count a = 0"
  by (auto simp: ring_invar_def ring_count_def)

lemma ring_empty_count: "ring_invar a \<Longrightarrow> Ring_empty a \<longleftrightarrow> ring_count a = ra_size a"
  by (auto simp: ring_invar_def ring_count_def Ring_empty_def)

lemma ring_slots_card: "ring_invar a \<Longrightarrow> card (ring_slots a) = ring_count a"
  using distinct_card [of "ring_list a"] by (simp add: ring_slots_def ring_invar_def)

lemma ring_slots_empty: "ring_invar a \<Longrightarrow> ring_slots a = {} \<longleftrightarrow> ring_count a = 0"
  by (simp add: ring_slots_def ring_list_def)

lemma ring_slots_all: "ring_invar a \<Longrightarrow> ring_slots a = {..<ra_size a} \<longleftrightarrow> ring_count a = ra_size a"
proof -
  assume inv: "ring_invar a" 
  show "ring_slots a = {..<ra_size a} \<longleftrightarrow> ring_count a = ra_size a"
    using ring_slots_card [OF inv] card_subset_eq [of "{..<ra_size a}" "ring_slots a"] inv
    by (metis card_lessThan finite_lessThan ring_invar_def ring_slots_def)
qed

lemma ring_nextFree_hd: "ring_invar a \<Longrightarrow> 0 < ring_count a \<Longrightarrow> Ring_nextFree a = hd (ring_list a)"
  using ring_full_count [of a]
  by (simp add: Ring_nextFree_def ring_list_def hd_map ring_next_mod ring_invar_def)

lemma ring_allocate_law:
  assumes inv: "ring_invar a" and pos: "0 < ring_count a"
  obtains a' where "Ring_allocate i a = Inr a'" and "ra_size a' = ra_size a"
    and "ring_list a' = tl (ring_list a)" and "ring_invar a'"
proof -
  let ?h = "Suc (ra_head a) mod ra_size a"
  define a' where "a' = a\<lparr>ra_head := ?h, ra_full := (?h = ra_tail a)\<rparr>"
  have nf: "\<not> ra_full a" using inv pos ring_full_count by auto
  have al: "Ring_allocate i a = Inr a'"
    using inv nf by (auto simp: Ring_allocate_def a'_def ring_invar_def ring_next_mod Let_def)
  have c: "ring_count a' = ring_count a - 1"
    using inv nf unfolding ring_invar_def ring_count_def a'_def
    by (auto simp: mod_Suc)
  have l: "ring_list a' = tl (ring_list a)"
  proof -
    have "tl (ring_list a) = map (\<lambda>k. ra_ring a ! ((ra_head a + 1 + Suc k) mod ra_size a)) [0..<ring_count a - 1]"
      by (rule nth_equalityI) (auto simp: ring_list_def nth_tl)
    also have "\<dots> = ring_list a'"
      unfolding ring_list_def c
      using mod_add_left_eq [of "Suc (ra_head a)" "ra_size a" "Suc _"] by (simp add: a'_def)
    finally show ?thesis by simp
  qed
  have "set (tl (ring_list a)) \<subseteq> set (ring_list a)"
    by (cases "ring_list a") auto
  then have "ring_invar a'"
    using inv l unfolding ring_invar_def by (auto simp: a'_def distinct_tl)
  with al l that show ?thesis by (auto simp: a'_def)
qed

lemma ring_free_law:
  assumes inv: "ring_invar a" and i: "i < ra_size a" "i \<notin> ring_slots a"
  obtains a' where "Ring_free i a = Inr a'" and "ra_size a' = ra_size a"
    and "ring_list a' = ring_list a @ [i]" and "ring_invar a'"
proof -
  let ?t = "Suc (ra_tail a) mod ra_size a"
  define a' where "a' = a\<lparr>ra_full := False, ra_tail := ?t, ra_ring := (ra_ring a)[?t := i]\<rparr>"
  have lt: "ring_count a < ra_size a"
  proof (rule ccontr)
    assume "\<not> ring_count a < ra_size a"
    then have "ring_slots a = {..<ra_size a}" using ring_count_le [OF inv] ring_slots_all [OF inv] by simp
    with i show False by simp
  qed
  have fr: "Ring_free i a = Inr a'"
    using inv by (auto simp: Ring_free_def a'_def ring_invar_def ring_next_mod Let_def)
  have c: "ring_count a' = Suc (ring_count a)"
    using inv lt unfolding ring_invar_def ring_count_def a'_def by (auto simp: mod_Suc)
  have t: "?t = (ra_head a + 1 + ring_count a) mod ra_size a"
    using ring_tail_eq [OF inv] by (metis add.commute add.left_commute mod_Suc_eq plus_1_eq_Suc)
  have keep: "(ra_head a + 1 + k) mod ra_size a \<noteq> ?t" if "k < ring_count a" for k
  proof
    assume "(ra_head a + 1 + k) mod ra_size a = ?t"
    then have "(ra_head a + 1 + k) mod ra_size a = (ra_head a + 1 + ring_count a) mod ra_size a" using t by simp
    then have "ra_size a dvd ring_count a - k"
      using that by (metis add_diff_cancel_left mod_eq_dvd_iff_nat less_imp_le nat_add_left_cancel_le)
    then show False using that lt by (auto dest: dvd_imp_le)
  qed
  have el: "ra_ring a' ! ((ra_head a + 1 + k) mod ra_size a) = ra_ring a ! ((ra_head a + 1 + k) mod ra_size a)"
    if "k < ring_count a" for k
    using keep [OF that] by (simp add: a'_def)
  have "ra_ring a' ! ((ra_head a + 1 + ring_count a) mod ra_size a) = i"
    using inv unfolding t [symmetric] by (simp add: a'_def ring_invar_def)
  with el have l: "ring_list a' = ring_list a @ [i]"
    unfolding ring_list_def c by (simp add: a'_def)
  have "ring_invar a'"
    using inv l i unfolding ring_invar_def by (auto simp: a'_def ring_slots_def)
  with fr l that show ?thesis by (auto simp: a'_def)
qed

interpretation ring: slot_allocator ra_size Ring_nextFree Ring_allocate Ring_free Ring_empty Ring_full
    ring_invar ring_slots
proof unfold_locales
  fix a assume a: "ring_invar a"
  show "ring_slots a \<subseteq> {..<ra_size a}" using a by (auto simp: ring_slots_def ring_invar_def)
  show "ring_slots a \<noteq> {} \<Longrightarrow> Ring_nextFree a \<in> ring_slots a"
    using ring_nextFree_hd [OF a] ring_slots_empty [OF a] hd_in_set [of "ring_list a"]
    by (metis length_ring_list list.size(3) neq0_conv ring_slots_def)
  show "ring_slots a = {} \<Longrightarrow> Ring_nextFree a = ra_size a"
    using ring_slots_empty [OF a] ring_full_count [OF a] by (simp add: Ring_nextFree_def)
  show "Ring_empty a \<longleftrightarrow> ring_slots a = {..<ra_size a}"
    using ring_slots_all [OF a] ring_empty_count [OF a] by simp
  show "Ring_full a \<longleftrightarrow> ring_slots a = {}"
    using ring_slots_empty [OF a] ring_full_count [OF a] by (simp add: Ring_full_def)
  show "\<exists>a'. Ring_allocate (Ring_nextFree a) a = Inr a' \<and> ring_invar a' \<and> ra_size a' = ra_size a \<and>
      ring_slots a' = ring_slots a - {Ring_nextFree a}" if ne: "ring_slots a \<noteq> {}"
  proof -
    have pos: "0 < ring_count a" using ne ring_slots_empty [OF a] by simp
    have "distinct (ring_list a)" "ring_list a \<noteq> []" using a pos by (auto simp: ring_invar_def ring_list_def)
    then have "set (tl (ring_list a)) = set (ring_list a) - {hd (ring_list a)}"
      by (cases "ring_list a") auto
    then show ?thesis
      using ring_allocate_law [OF a pos, of "Ring_nextFree a"] ring_nextFree_hd [OF a pos]
      by (metis ring_slots_def)
  qed
  show "\<exists>a'. Ring_free i a = Inr a' \<and> ring_invar a' \<and> ra_size a' = ra_size a \<and>
      ring_slots a' = insert i (ring_slots a)" if "i < ra_size a" "i \<notin> ring_slots a" for i
    using ring_free_law [OF a that] by (metis ring_slots_def set_append list.set empty_set set_simps Un_insert_right sup_bot.right_neutral)
qed

text \<open>The ring hands the instances out in the order of its list, which is a queue.\<close>

lemma ring_acquire_all:
  "ring_invar a \<Longrightarrow> k \<le> ring_count a \<Longrightarrow>
   \<exists>a'. slot_run ra_size Ring_nextFree Ring_allocate Ring_free (replicate k Acquire) a held =
       Inr (a', rev (take k (ring_list a)) @ held)"
proof (induction k arbitrary: a held)
  case (Suc k)
  then have pos: "0 < ring_count a" by simp
  then obtain x xs where l: "ring_list a = x # xs" by (cases "ring_list a") (auto simp flip: length_ring_list)
  from ring_allocate_law [OF Suc.prems(1) pos, of x] obtain a' where
    a': "Ring_allocate x a = Inr a'" "ring_list a' = xs" "ring_invar a'" using l by auto
  have "k \<le> ring_count a'" using Suc.prems(2) a'(2) l by (simp flip: length_ring_list)
  from Suc.IH [OF a'(3) this, of "x # held"] show ?case
    using a' l ring_nextFree_hd [OF Suc.prems(1) pos] pos ring.nxt_neq_sz [OF Suc.prems(1)]
      ring_slots_empty [OF Suc.prems(1)] by auto
qed auto

section \<open>The properties\<close>

lemma Bitmask_construct_invar: "n \<le> w \<Longrightarrow> bitmask_invar w (Bitmask_construct n)"
  by (simp add: bitmask_invar_def Bitmask_construct_def)

lemma Bitmask_construct_empty: "Bitmask_empty (Bitmask_construct n)"
  by (simp add: Bitmask_empty_def Bitmask_construct_def list_all_iff)

lemma Bitmask_construct_size [simp]: "ba_size (Bitmask_construct n) = n"
  by (simp add: Bitmask_construct_def)

lemma Ring_construct_list: "0 < n \<Longrightarrow> ring_list (Ring_construct n) = [1..<n] @ [0]"
  by (rule nth_equalityI) (auto simp: ring_list_def ring_count_def Ring_construct_def nth_append mod_Suc)

lemma Ring_construct_invar: "0 < n \<Longrightarrow> ring_invar (Ring_construct n)"
  using Ring_construct_list [of n] by (auto simp: ring_invar_def Ring_construct_def)

lemma Ring_construct_empty: "Ring_empty (Ring_construct n)"
  by (simp add: Ring_empty_def Ring_construct_def)

lemma Ring_construct_size [simp]: "ra_size (Ring_construct n) = n"
  by (simp add: Ring_construct_def)

text \<open>A \<open>Bitmask32Allocator\<close> of at most 32 instances, under every sequence of acquisitions and
  releases from its construction: no operation throws, the instances that are held are distinct and
  below \<open>Size\<close>, the allocator is full exactly when all are held, and otherwise \<open>nextFree\<close> is an
  instance below \<open>Size\<close> that is not held.\<close>

theorem Bitmask32_allocates_exclusively:
  assumes "n \<le> 32"
  shows "\<exists>a held. slot_run ba_size Bitmask32_nextFree Bitmask_allocate Bitmask_free ops (Bitmask_construct n) [] = Inr (a, held) \<and>
    distinct held \<and> set held \<subseteq> {..<n} \<and> (Bitmask_full a \<longleftrightarrow> length held = n) \<and>
    (if Bitmask_full a then Bitmask32_nextFree a = n else Bitmask32_nextFree a < n \<and> Bitmask32_nextFree a \<notin> set held)"
  using bm32.run_exclusive [OF Bitmask_construct_invar [OF assms] Bitmask_construct_empty, of ops] unfolding Bitmask_construct_size .

theorem Bitmask32_allocates_exclusively_witness:
  "\<exists>a held. slot_run ba_size Bitmask32_nextFree Bitmask_allocate Bitmask_free [Acquire, Acquire, Release 0, Acquire] (Bitmask_construct 2) [] = Inr (a, held) \<and>
    distinct held \<and> set held \<subseteq> {..<2} \<and> (Bitmask_full a \<longleftrightarrow> length held = 2) \<and>
    (if Bitmask_full a then Bitmask32_nextFree a = 2 else Bitmask32_nextFree a < 2 \<and> Bitmask32_nextFree a \<notin> set held)"
  by (rule Bitmask32_allocates_exclusively) simp

text \<open>The same for a \<open>Bitmask64Allocator\<close> of at most 64 instances, whose \<open>nextFree\<close> scans the two
  halves of the mask.\<close>

theorem Bitmask64_allocates_exclusively:
  assumes "n \<le> 64"
  shows "\<exists>a held. slot_run ba_size Bitmask64_nextFree Bitmask_allocate Bitmask_free ops (Bitmask_construct n) [] = Inr (a, held) \<and>
    distinct held \<and> set held \<subseteq> {..<n} \<and> (Bitmask_full a \<longleftrightarrow> length held = n) \<and>
    (if Bitmask_full a then Bitmask64_nextFree a = n else Bitmask64_nextFree a < n \<and> Bitmask64_nextFree a \<notin> set held)"
  using bm64.run_exclusive [OF Bitmask_construct_invar [OF assms] Bitmask_construct_empty, of ops] unfolding Bitmask_construct_size .

theorem Bitmask64_allocates_exclusively_witness:
  "\<exists>a held. slot_run ba_size Bitmask64_nextFree Bitmask_allocate Bitmask_free [Acquire, Release 0] (Bitmask_construct 40) [] = Inr (a, held) \<and>
    distinct held \<and> set held \<subseteq> {..<40} \<and> (Bitmask_full a \<longleftrightarrow> length held = 40) \<and>
    (if Bitmask_full a then Bitmask64_nextFree a = 40 else Bitmask64_nextFree a < 40 \<and> Bitmask64_nextFree a \<notin> set held)"
  by (rule Bitmask64_allocates_exclusively) simp

text \<open>The same for a \<open>RingAllocator\<close> of any positive size, whose head, tail and full flag do not
  show which cells of the ring are live without the history.\<close>

theorem Ring_allocates_exclusively:
  assumes "0 < n"
  shows "\<exists>a held. slot_run ra_size Ring_nextFree Ring_allocate Ring_free ops (Ring_construct n) [] = Inr (a, held) \<and>
    distinct held \<and> set held \<subseteq> {..<n} \<and> (Ring_full a \<longleftrightarrow> length held = n) \<and>
    (if Ring_full a then Ring_nextFree a = n else Ring_nextFree a < n \<and> Ring_nextFree a \<notin> set held)"
  using ring.run_exclusive [OF Ring_construct_invar [OF assms] Ring_construct_empty, of ops] unfolding Ring_construct_size .

theorem Ring_allocates_exclusively_witness:
  "\<exists>a held. slot_run ra_size Ring_nextFree Ring_allocate Ring_free [Acquire, Acquire, Release 1, Acquire] (Ring_construct 3) [] = Inr (a, held) \<and>
    distinct held \<and> set held \<subseteq> {..<3} \<and> (Ring_full a \<longleftrightarrow> length held = 3) \<and>
    (if Ring_full a then Ring_nextFree a = 3 else Ring_nextFree a < 3 \<and> Ring_nextFree a \<notin> set held)"
  by (rule Ring_allocates_exclusively) simp

text \<open>A ring allocator reuses instances in the order of their release: an instance given back is
  handed out again after every instance that was free before it, and in that order.\<close>

theorem Ring_reuses_in_release_order:
  assumes "ring_invar a" and "i < ra_size a" and "i \<notin> ring_slots a"
  shows "\<exists>a' a''. Ring_free i a = Inr a' \<and>
    slot_run ra_size Ring_nextFree Ring_allocate Ring_free (replicate (Suc (ring_count a)) Acquire) a' held =
      Inr (a'', i # rev (ring_list a) @ held)"
proof -
  from ring_free_law [OF assms] obtain a' where a': "Ring_free i a = Inr a'"
    "ring_list a' = ring_list a @ [i]" "ring_invar a'" by metis
  then have "ring_count a' = Suc (ring_count a)" by (simp flip: length_ring_list)
  with ring_acquire_all [OF a'(3), of "Suc (ring_count a)" held] a' show ?thesis by auto
qed

theorem Ring_reuses_in_release_order_witness:
  "\<exists>a' a''. Ring_free 1 \<lparr>ra_size = 3, ra_head = 1, ra_tail = 0, ra_full = False, ra_ring = [0, 1, 2]\<rparr> = Inr a' \<and>
    slot_run ra_size Ring_nextFree Ring_allocate Ring_free
      (replicate (Suc (ring_count \<lparr>ra_size = 3, ra_head = 1, ra_tail = 0, ra_full = False, ra_ring = [0, 1, 2]\<rparr>)) Acquire) a' [1] =
      Inr (a'', 1 # rev (ring_list \<lparr>ra_size = 3, ra_head = 1, ra_tail = 0, ra_full = False, ra_ring = [0, 1, 2]\<rparr>) @ [1])"
  by (rule Ring_reuses_in_release_order) (simp_all add: ring_slots_def ring_list_def ring_count_def ring_invar_def upt_rec)

end
