(* ===== verification/EGObjects.thy ===== *)
theory EGObjects
  imports EGCommon
begin

text \<open>
  The program database: the array of indexed objects of the master file, with the interface
  elements (\<open>eg_compiler/interface.hpp\<close>), the concrete elements and the inheritance nodes
  (\<open>eg_compiler/concrete.hpp\<close>). A pointer to an indexed object is its index in the array, the null
  pointer is \<open>None\<close>, and \<open>dynamic_cast\<close> is a test of the object's constructor. The operations of
  \<open>src/eg/concrete.cpp\<close> that the analyses and the invocation compiler use are modelled here: the
  paths to the root and the domain sizes.
\<close>

type_synonym idx = nat

section \<open>Interface elements\<close>

datatype RootType =
    eInterfaceRoot | eFile | eFileRoot | eMegaRoot | eCoordinator | eHostName | eProjectName | eSubFolder
  | TOTAL_ROOT_TYPES

text \<open>The class of an interface element; \<open>Root\<close> derives from \<open>Object\<close>, every class from
  \<open>Abstract\<close> on derives from \<open>Context\<close>.\<close>

datatype interface_class =
    Opaque | Dimension | Include | Using | Export
  | Abstract | Event | Function | Action | Object | Link | Root RootType

record interface_element =
  if_class :: interface_class
  if_identifier :: string
  if_parent :: "idx option"
  if_children :: "idx list"
  if_baseContexts :: "idx list"
  if_size :: nat
  if_contextTypes :: "idx list"
  if_canonicalType :: string

fun is_Context :: "interface_class \<Rightarrow> bool" where
  "is_Context Opaque = False"
| "is_Context Dimension = False"
| "is_Context Include = False"
| "is_Context Using = False"
| "is_Context Export = False"
| "is_Context Abstract = True"
| "is_Context Event = True"
| "is_Context Function = True"
| "is_Context Action = True"
| "is_Context Object = True"
| "is_Context Link = True"
| "is_Context (Root _) = True"

fun is_Object :: "interface_class \<Rightarrow> bool" where
  "is_Object Object = True"
| "is_Object (Root _) = True"
| "is_Object _ = False"

section \<open>Concrete elements and inheritance nodes\<close>

datatype GeneratedType =
    eActionStopCycle | eActionReference | eActionState | eActionAllocator | eLinkReference
  | eLinkReferenceCount

datatype concrete_class =
    ConcreteAction
  | Dimension_User "idx option"
  | Dimension_Generated GeneratedType "idx option" "idx option"

record concrete_element =
  ce_class :: concrete_class
  ce_parent :: "idx option"
  ce_element :: "idx option"
  ce_children :: "idx list"

record inheritance_node =
  in_rootConcreteAction :: idx
  in_context :: idx
  in_parent :: "idx option"
  in_children :: "idx list"
  in_actions :: "idx list"
  in_dimensions :: "idx list"

datatype indexed_object =
    InterfaceElement interface_element
  | ConcreteElement concrete_element
  | InheritanceNode inheritance_node
  | OtherObject

type_synonym database = "indexed_object list"

section \<open>Casts\<close>

definition interface_at :: "database \<Rightarrow> idx \<Rightarrow> interface_element option" where
  "interface_at db i = (case nth_opt db i of Some (InterfaceElement e) \<Rightarrow> Some e | _ \<Rightarrow> None)"

definition context_at :: "database \<Rightarrow> idx \<Rightarrow> interface_element option" where
  "context_at db i =
     (case interface_at db i of
        Some e \<Rightarrow> if is_Context (if_class e) then Some e else None
      | None \<Rightarrow> None)"

definition dimension_at :: "database \<Rightarrow> idx \<Rightarrow> interface_element option" where
  "dimension_at db i =
     (case interface_at db i of
        Some e \<Rightarrow> if if_class e = Dimension then Some e else None
      | None \<Rightarrow> None)"

definition is_Link :: "database \<Rightarrow> idx \<Rightarrow> bool" where
  "is_Link db i = (case interface_at db i of Some e \<Rightarrow> if_class e = Link | None \<Rightarrow> False)"

definition getBaseContexts :: "database \<Rightarrow> idx \<Rightarrow> idx list" where
  "getBaseContexts db i = (case interface_at db i of Some e \<Rightarrow> if_baseContexts e | None \<Rightarrow> [])"

definition concrete_at :: "database \<Rightarrow> idx \<Rightarrow> concrete_element option" where
  "concrete_at db i = (case nth_opt db i of Some (ConcreteElement e) \<Rightarrow> Some e | _ \<Rightarrow> None)"

definition inheritance_at :: "database \<Rightarrow> idx \<Rightarrow> inheritance_node option" where
  "inheritance_at db i = (case nth_opt db i of Some (InheritanceNode n) \<Rightarrow> Some n | _ \<Rightarrow> None)"

definition is_action :: "database \<Rightarrow> idx \<Rightarrow> bool" where
  "is_action db i = (case concrete_at db i of Some e \<Rightarrow> ce_class e = ConcreteAction | None \<Rightarrow> False)"

definition user_dimension_at :: "database \<Rightarrow> idx \<Rightarrow> concrete_element option" where
  "user_dimension_at db i =
     (case concrete_at db i of
        Some e \<Rightarrow> (case ce_class e of Dimension_User _ \<Rightarrow> Some e | _ \<Rightarrow> None)
      | None \<Rightarrow> None)"

text \<open>A typed pointer is never followed to an object of another class, so a failing cast here is
  undefined behaviour.\<close>

definition conc :: "database \<Rightarrow> idx \<Rightarrow> concrete_element result" where
  "conc db i = of_option UndefinedBehaviour (concrete_at db i)"

definition parent_of :: "database \<Rightarrow> idx \<Rightarrow> idx option" where
  "parent_of db i = (case concrete_at db i of Some e \<Rightarrow> ce_parent e | None \<Rightarrow> None)"

definition isMember :: "database \<Rightarrow> idx \<Rightarrow> idx \<Rightarrow> bool" where
  "isMember db a e = (case concrete_at db a of Some c \<Rightarrow> e \<in> set (ce_children c) | None \<Rightarrow> False)"

text \<open>\<open>Action::getContext\<close>.\<close>

definition getContext :: "database \<Rightarrow> idx \<Rightarrow> idx option" where
  "getContext db i =
     (case concrete_at db i of
        Some e \<Rightarrow>
          (case ce_element e of
             Some x \<Rightarrow> if context_at db x \<noteq> None then Some x else None
           | None \<Rightarrow> None)
      | None \<Rightarrow> None)"

text \<open>\<open>Dimension_User::getContextTypes\<close> and \<open>Dimension_User::isEGType\<close>.\<close>

definition getContextTypes :: "database \<Rightarrow> idx \<Rightarrow> idx list" where
  "getContextTypes db i =
     (case user_dimension_at db i of
        Some e \<Rightarrow>
          (case ce_element e of
             Some x \<Rightarrow> (case dimension_at db x of Some d \<Rightarrow> if_contextTypes d | None \<Rightarrow> [])
           | None \<Rightarrow> [])
      | None \<Rightarrow> [])"

definition isEGType :: "database \<Rightarrow> idx \<Rightarrow> bool" where
  "isEGType db i \<longleftrightarrow> getContextTypes db i \<noteq> []"

section \<open>Paths to the root\<close>

text \<open>The loop \<open>while( p ) { list.push_front( p ); p = p->getParent(); }\<close>.\<close>

fun push_ancestors :: "nat \<Rightarrow> database \<Rightarrow> idx option \<Rightarrow> idx list \<Rightarrow> idx list result" where
  "push_ancestors 0 db p acc = Inl OutOfFuel"
| "push_ancestors (Suc n) db None acc = Inr acc"
| "push_ancestors (Suc n) db (Some i) acc =
     bindR (conc db i) (\<lambda>e. push_ancestors n db (ce_parent e) (i # acc))"

definition ancestors :: "database \<Rightarrow> idx option \<Rightarrow> idx list result" where
  "ancestors db p = push_ancestors (Suc (Suc (length db))) db p []"

text \<open>\<open>concrete::getPath\<close>: the do-while loop walks from the node to \<open>pFrom\<close>, which is left out.\<close>

fun getPath_loop :: "nat \<Rightarrow> database \<Rightarrow> idx option \<Rightarrow> idx option \<Rightarrow> idx list \<Rightarrow> idx list result" where
  "getPath_loop 0 db p from path = Inl OutOfFuel"
| "getPath_loop (Suc n) db None from path = Inl (RuntimeError ''verify'')"
| "getPath_loop (Suc n) db (Some i) from path =
     bindR (conc db i)
       (\<lambda>e. if ce_parent e \<noteq> from then getPath_loop n db (ce_parent e) from (path @ [i])
            else Inr (path @ [i]))"

definition getPath :: "database \<Rightarrow> idx option \<Rightarrow> idx option \<Rightarrow> idx list result" where
  "getPath db node from = bindR (getPath_loop (Suc (length db)) db node from []) (\<lambda>p. Inr (rev p))"

section \<open>Domain sizes\<close>

text \<open>The conversion of a \<open>std::size_t\<close> to \<open>int\<close>, and the product of two \<open>int\<close>s, whose overflow is
  undefined.\<close>

definition int_of_size_t :: "nat \<Rightarrow> int" where
  "int_of_size_t n = sint (word_of_nat n :: 32 word)"

definition mul_int :: "int \<Rightarrow> int \<Rightarrow> int result" where
  "mul_int a b =
     (if - 2147483648 \<le> a * b \<and> a * b < 2147483648 then Inr (a * b) else Inl UndefinedBehaviour)"

definition getLocalDomainSize :: "database \<Rightarrow> idx \<Rightarrow> int result" where
  "getLocalDomainSize db i =
     (case getContext db i of
        None \<Rightarrow> Inl (RuntimeError ''verify'')
      | Some x \<Rightarrow>
          (case context_at db x of
             None \<Rightarrow> Inl (RuntimeError ''verify'')
           | Some c \<Rightarrow> Inr (int_of_size_t (if_size c))))"

text \<open>\<open>m_totalDomainSize\<close> is a \<open>mutable\<close> cache with 0 for a value that is not computed yet.\<close>

type_synonym domain_cache = "idx \<Rightarrow> int"

fun getTotalDomainSize :: "nat \<Rightarrow> database \<Rightarrow> idx \<Rightarrow> domain_cache \<Rightarrow> (int \<times> domain_cache) result" where
  "getTotalDomainSize 0 db i cache = Inl OutOfFuel"
| "getTotalDomainSize (Suc n) db i cache =
     (if cache i = 0 then
        (case parent_of db i of
           Some p \<Rightarrow>
             (if is_action db p then
                bindR (getTotalDomainSize n db p cache) (\<lambda>(t, cache').
                bindR (getLocalDomainSize db i) (\<lambda>l.
                bindR (mul_int t l) (\<lambda>v. Inr (v, cache'(i := v)))))
              else Inl (RuntimeError ''verify''))
         | None \<Rightarrow> bindR (getLocalDomainSize db i) (\<lambda>l. Inr (l, cache(i := l))))
      else Inr (cache i, cache))"

text \<open>\<open>getObjectDomainFactor\<close>: the product of the local sizes from the action up to, and without,
  the object it belongs to.\<close>

fun domainFactor_loop :: "nat \<Rightarrow> database \<Rightarrow> idx option \<Rightarrow> idx \<Rightarrow> int \<Rightarrow> int result" where
  "domainFactor_loop 0 db p obj acc = Inl OutOfFuel"
| "domainFactor_loop (Suc n) db None obj acc = Inl (RuntimeError ''verify'')"
| "domainFactor_loop (Suc n) db (Some i) obj acc =
     (if i = obj then Inr acc
      else if \<not> is_action db i then Inl (RuntimeError ''verify'')
      else bindR (getLocalDomainSize db i) (\<lambda>l.
           bindR (mul_int acc l) (\<lambda>acc'.
           domainFactor_loop n db (parent_of db i) obj acc')))"

definition getObjectDomainFactor :: "database \<Rightarrow> idx \<Rightarrow> idx option \<Rightarrow> int result" where
  "getObjectDomainFactor db i obj =
     (case obj of None \<Rightarrow> Inl (RuntimeError ''verify'')
      | Some root \<Rightarrow> domainFactor_loop (Suc (length db)) db (Some i) root 1)"

text \<open>\<open>Action::hasUserDimensions\<close>: the first user dimension ends the loop.\<close>

fun hasUserDimensions_loop :: "database \<Rightarrow> idx list \<Rightarrow> bool result" where
  "hasUserDimensions_loop db [] = Inr False"
| "hasUserDimensions_loop db (x # xs) =
     bindR (conc db x) (\<lambda>e.
       case ce_class e of
         ConcreteAction \<Rightarrow> hasUserDimensions_loop db xs
       | Dimension_Generated _ _ _ \<Rightarrow> hasUserDimensions_loop db xs
       | Dimension_User _ \<Rightarrow> Inr True)"

definition hasUserDimensions :: "database \<Rightarrow> idx \<Rightarrow> bool result" where
  "hasUserDimensions db i = bindR (conc db i) (\<lambda>e. hasUserDimensions_loop db (ce_children e))"

section \<open>Well-formed databases\<close>

text \<open>
  A session constructs a concrete element after its parent (\<open>collateOverrides\<close> in
  \<open>interface_session.cpp\<close>) and appends every constructed object to the array, so the index of a parent
  is below that of its children, and only actions have children. The size of a context is a positive
  \<open>int\<close>.
\<close>

definition wf_concrete :: "database \<Rightarrow> bool" where
  "wf_concrete db \<longleftrightarrow>
     (\<forall>i < length db.
        case db ! i of
          ConcreteElement e \<Rightarrow>
            (case ce_parent e of None \<Rightarrow> True | Some p \<Rightarrow> p < i \<and> is_action db p) \<and>
            (ce_class e = ConcreteAction \<longrightarrow>
               (case getLocalDomainSize db i of Inl _ \<Rightarrow> False | Inr l \<Rightarrow> 0 < l))
        | _ \<Rightarrow> True)"

lemma concrete_at_Some: "concrete_at db i = Some e \<longleftrightarrow> i < length db \<and> db ! i = ConcreteElement e"
  by (auto simp: concrete_at_def nth_opt_def split: indexed_object.splits)

lemma conc_eq_Inr [simp]: "conc db i = Inr e \<longleftrightarrow> concrete_at db i = Some e"
  by (simp add: conc_def)

lemma is_action_concrete: "is_action db i \<Longrightarrow> \<exists>e. concrete_at db i = Some e"
  by (auto simp: is_action_def split: option.splits)

lemma is_action_less: "is_action db i \<Longrightarrow> i < length db"
  by (auto simp: is_action_def concrete_at_Some split: option.splits)

lemma wf_concrete_parent:
  "wf_concrete db \<Longrightarrow> concrete_at db i = Some e \<Longrightarrow> ce_parent e = Some p \<Longrightarrow> p < i \<and> is_action db p"
  by (fastforce simp: wf_concrete_def concrete_at_Some)

lemma wf_parent_of: "wf_concrete db \<Longrightarrow> parent_of db i = Some p \<Longrightarrow> p < i \<and> is_action db p"
  by (auto simp: parent_of_def dest: wf_concrete_parent split: option.splits)

lemma wf_local_size: "wf_concrete db \<Longrightarrow> is_action db i \<Longrightarrow> \<exists>l. getLocalDomainSize db i = Inr l \<and> 0 < l"
proof -
  assume wf: "wf_concrete db" and a: "is_action db i"
  then obtain e where "i < length db" "db ! i = ConcreteElement e" "ce_class e = ConcreteAction"
    by (auto simp: is_action_def concrete_at_Some split: option.splits)
  with wf show ?thesis
    by (cases "getLocalDomainSize db i") (fastforce simp: wf_concrete_def)+
qed

subsection \<open>The path from the root\<close>

function root_path :: "database \<Rightarrow> idx \<Rightarrow> idx list" where
  "root_path db i =
     (case parent_of db i of
        None \<Rightarrow> [i]
      | Some p \<Rightarrow> if p < i then root_path db p @ [i] else [i])"
  by pat_completeness auto
termination
  by (relation "measure snd") auto

declare root_path.simps [simp del]

lemma root_path_None: "parent_of db i = None \<Longrightarrow> root_path db i = [i]"
  by (subst root_path.simps) simp

lemma root_path_Some: "wf_concrete db \<Longrightarrow> parent_of db i = Some p \<Longrightarrow> root_path db i = root_path db p @ [i]"
  by (subst root_path.simps) (auto dest: wf_parent_of)

lemma root_path_not_Nil [simp]: "root_path db i \<noteq> []"
  by (subst root_path.simps) (auto split: option.splits)

lemma last_root_path [simp]: "last (root_path db i) = i"
  by (subst root_path.simps) (auto split: option.splits)

lemma root_path_self [simp]: "i \<in> set (root_path db i)"
  using last_in_set [of "root_path db i"] by simp

lemma root_path_le: "j \<in> set (root_path db i) \<Longrightarrow> j \<le> i"
proof (induction db i rule: root_path.induct)
  case (1 db i)
  show ?case
  proof (cases "parent_of db i")
    case None
    with 1 show ?thesis by (simp add: root_path_None)
  next
    case (Some p)
    with 1 show ?thesis
      by (cases "p < i") (fastforce simp: root_path.simps [of db i])+
  qed
qed

lemma distinct_root_path [simp]: "distinct (root_path db i)"
proof (induction db i rule: root_path.induct)
  case (1 db i)
  show ?case
  proof (cases "parent_of db i")
    case None
    then show ?thesis by (simp add: root_path_None)
  next
    case (Some p)
    with 1 show ?thesis
      by (cases "p < i") (auto simp: root_path.simps [of db i] dest: root_path_le)
  qed
qed

text \<open>The path of an ancestor is an initial segment.\<close>

lemma root_path_split: "c \<in> set (root_path db i) \<Longrightarrow> \<exists>ys. root_path db i = root_path db c @ ys"
proof (induction db i rule: root_path.induct)
  case (1 db i)
  show ?case
  proof (cases "c = i")
    case True
    then show ?thesis by simp
  next
    case False
    with "1.prems" obtain p where p: "parent_of db i = Some p" "p < i"
      by (subst (asm) root_path.simps) (auto split: option.splits if_splits)
    then have eq: "root_path db i = root_path db p @ [i]" by (simp add: root_path.simps [of db i])
    with "1.prems" False have "c \<in> set (root_path db p)" by simp
    from "1.IH" [OF p this] show ?thesis using eq by auto
  qed
qed

lemma root_path_prefix_last:
  assumes "root_path db i = xs @ ys" and "xs \<noteq> []"
  shows "xs = root_path db (last xs)"
proof -
  have "last xs \<in> set (root_path db i)" using assms by simp
  from root_path_split [OF this] obtain zs where zs: "root_path db i = root_path db (last xs) @ zs" by blast
  let ?p = "root_path db (last xs)"
  have "length xs = length ?p"
  proof -
    have "root_path db i ! (length xs - 1) = last xs"
      using assms by (simp add: nth_append last_conv_nth)
    moreover have "root_path db i ! (length ?p - 1) = last xs"
      unfolding zs using last_conv_nth [of ?p] by (simp add: nth_append)
    moreover have "length xs - 1 < length (root_path db i)"
      unfolding assms(1) using assms(2) by (cases xs) auto
    moreover have "length ?p - 1 < length (root_path db i)"
      unfolding zs using root_path_not_Nil [of db "last xs"] by (cases ?p) (auto simp del: root_path_not_Nil)
    ultimately have "length xs - 1 = length ?p - 1"
      using nth_eq_iff_index_eq [OF distinct_root_path] by metis
    moreover have "0 < length xs" "0 < length ?p" using assms(2) by simp_all
    ultimately show ?thesis by linarith
  qed
  with assms(1) zs show ?thesis by simp
qed

lemma root_path_concrete:
  assumes wf: "wf_concrete db"
  shows "concrete_at db i = Some e \<Longrightarrow> j \<in> set (root_path db i) \<Longrightarrow> \<exists>e'. concrete_at db j = Some e'"
proof (induction i arbitrary: e rule: less_induct)
  case (less i)
  show ?case
  proof (cases "parent_of db i")
    case None
    with less.prems show ?thesis by (simp add: root_path_None)
  next
    case (Some p)
    from wf_parent_of [OF wf this] obtain e' where "p < i" "concrete_at db p = Some e'"
      using is_action_concrete by blast
    with less Some show ?thesis by (auto simp: root_path_Some [OF wf])
  qed
qed

lemma root_path_actions:
  assumes wf: "wf_concrete db"
  shows "j \<in> set (root_path db i) \<Longrightarrow> j \<noteq> i \<Longrightarrow> is_action db j"
proof (induction i rule: less_induct)
  case (less i)
  show ?case
  proof (cases "parent_of db i")
    case None
    with less.prems show ?thesis by (simp add: root_path_None)
  next
    case (Some p)
    with less wf_parent_of [OF wf Some] show ?thesis
      by (cases "j = p") (auto simp: root_path_Some [OF wf])
  qed
qed

lemma push_ancestors_root_path:
  assumes wf: "wf_concrete db"
  shows "concrete_at db i = Some e \<Longrightarrow> i + 1 < n \<Longrightarrow>
    push_ancestors n db (Some i) acc = Inr (root_path db i @ acc)"
proof (induction i arbitrary: e n acc rule: less_induct)
  case (less i)
  obtain m where m: "n = Suc m" using less.prems by (cases n) auto
  show ?case
  proof (cases "ce_parent e")
    case None
    with less.prems m show ?thesis by (cases m) (auto simp: conc_def root_path_None parent_of_def)
  next
    case (Some p)
    from wf_concrete_parent [OF wf less.prems(1) Some] obtain e' where
      "p < i" "concrete_at db p = Some e'" using is_action_concrete by blast
    moreover have "parent_of db i = Some p" using Some less.prems by (simp add: parent_of_def)
    ultimately show ?thesis
      using less.IH [of p e' m "i # acc"] less.prems m Some
      by (simp add: conc_def root_path_Some [OF wf])
  qed
qed

lemma ancestors_root_path:
  assumes "wf_concrete db" and "concrete_at db i = Some e"
  shows "ancestors db (Some i) = Inr (root_path db i)"
  using push_ancestors_root_path [OF assms, of "Suc (Suc (length db))" "[]"] assms
  by (simp add: ancestors_def concrete_at_Some)

subsection \<open>The total domain size is a product\<close>

definition local_size :: "database \<Rightarrow> idx \<Rightarrow> int" where
  "local_size db i = (case getLocalDomainSize db i of Inl _ \<Rightarrow> 0 | Inr l \<Rightarrow> l)"

definition total_size :: "database \<Rightarrow> idx \<Rightarrow> int" where
  "total_size db i = prod_list (map (local_size db) (root_path db i))"

definition cache_valid :: "database \<Rightarrow> domain_cache \<Rightarrow> bool" where
  "cache_valid db cache \<longleftrightarrow> (\<forall>i. cache i = 0 \<or> cache i = total_size db i)"

lemma local_size_pos: "wf_concrete db \<Longrightarrow> is_action db i \<Longrightarrow> 0 < local_size db i"
  by (auto simp: local_size_def dest: wf_local_size)

lemma getLocalDomainSize_local: "wf_concrete db \<Longrightarrow> is_action db i \<Longrightarrow> getLocalDomainSize db i = Inr (local_size db i)"
  by (auto simp: local_size_def dest: wf_local_size)

lemma total_size_Some: "wf_concrete db \<Longrightarrow> parent_of db i = Some p \<Longrightarrow> total_size db i = total_size db p * local_size db i"
  by (simp add: total_size_def root_path_Some)

lemma total_size_None: "parent_of db i = None \<Longrightarrow> total_size db i = local_size db i"
  by (simp add: total_size_def root_path_None)

lemma total_size_pos: "wf_concrete db \<Longrightarrow> is_action db i \<Longrightarrow> 0 < total_size db i"
proof (induction i rule: less_induct)
  case (less i)
  show ?case
  proof (cases "parent_of db i")
    case None
    with less show ?thesis by (simp add: total_size_None local_size_pos)
  next
    case (Some p)
    with less wf_parent_of [OF less.prems(1) Some] show ?thesis
      by (simp add: total_size_Some local_size_pos)
  qed
qed

lemma total_size_parent_le:
  assumes "wf_concrete db" and "is_action db i" and "parent_of db i = Some p"
  shows "total_size db p \<le> total_size db i"
proof -
  have "0 < total_size db p" "1 \<le> local_size db i"
    using assms total_size_pos wf_parent_of local_size_pos by (auto simp: int_one_le_iff_zero_less)
  then show ?thesis
    using mult_left_mono [of 1 "local_size db i" "total_size db p"] assms by (simp add: total_size_Some)
qed

lemma mul_int_in_range: "0 \<le> a * b \<Longrightarrow> a * b < 2147483648 \<Longrightarrow> mul_int a b = Inr (a * b)"
  by (simp add: mul_int_def)

lemma getTotalDomainSize_product:
  assumes wf: "wf_concrete db" 
  shows "is_action db i \<Longrightarrow> cache_valid db cache \<Longrightarrow> total_size db i < 2147483648 \<Longrightarrow> i < n \<Longrightarrow>
    \<exists>cache'. getTotalDomainSize n db i cache = Inr (total_size db i, cache') \<and> cache_valid db cache'"
proof (induction i arbitrary: n cache rule: less_induct)
  case (less i)
  obtain m where m: "n = Suc m" using less.prems by (cases n) auto
  note [simp] = getLocalDomainSize_local [OF wf less.prems(1)]
  show ?case
  proof (cases "cache i = 0")
    case False
    then have "cache i = total_size db i" using less.prems by (auto simp: cache_valid_def)
    with False less.prems m show ?thesis by simp
  next
    case True
    show ?thesis
    proof (cases "parent_of db i")
      case None
      with True less.prems m show ?thesis
        by (auto simp: total_size_None cache_valid_def)
    next
      case (Some p)
      note p = wf_parent_of [OF wf Some]
      have "total_size db p < 2147483648"
        using total_size_parent_le [OF wf less.prems(1) Some] less.prems by simp
      with less.IH [of p cache m] p less.prems m obtain c' where
        c': "getTotalDomainSize m db p cache = Inr (total_size db p, c')" "cache_valid db c'" by auto
      have "mul_int (total_size db p) (local_size db i) = Inr (total_size db i)"
        using total_size_pos [OF wf less.prems(1)] less.prems(3) Some wf
        by (simp add: mul_int_in_range total_size_Some)
      with True Some p c' m show ?thesis by (auto simp: cache_valid_def)
    qed
  qed
qed

section \<open>A small database\<close>

text \<open>A root with an action of ten instances that holds an action of four instances and a dimension
  that refers to it, with their concrete elements.\<close>

definition sample_db :: database where
  "sample_db =
    [OtherObject,
     InterfaceElement \<lparr>if_class = Root eMegaRoot, if_identifier = ''root'', if_parent = None, if_children = [2],
       if_baseContexts = [], if_size = 1, if_contextTypes = [], if_canonicalType = []\<rparr>,
     InterfaceElement \<lparr>if_class = Action, if_identifier = ''A'', if_parent = Some 1, if_children = [3, 4],
       if_baseContexts = [], if_size = 10, if_contextTypes = [], if_canonicalType = []\<rparr>,
     InterfaceElement \<lparr>if_class = Action, if_identifier = ''B'', if_parent = Some 2, if_children = [],
       if_baseContexts = [], if_size = 4, if_contextTypes = [], if_canonicalType = []\<rparr>,
     InterfaceElement \<lparr>if_class = Dimension, if_identifier = ''d'', if_parent = Some 2, if_children = [],
       if_baseContexts = [], if_size = 0, if_contextTypes = [3], if_canonicalType = ''A.B''\<rparr>,
     ConcreteElement \<lparr>ce_class = ConcreteAction, ce_parent = None, ce_element = Some 1, ce_children = [6]\<rparr>,
     ConcreteElement \<lparr>ce_class = ConcreteAction, ce_parent = Some 5, ce_element = Some 2, ce_children = [7, 8]\<rparr>,
     ConcreteElement \<lparr>ce_class = ConcreteAction, ce_parent = Some 6, ce_element = Some 3, ce_children = []\<rparr>,
     ConcreteElement \<lparr>ce_class = Dimension_User None, ce_parent = Some 6, ce_element = Some 4, ce_children = []\<rparr>]"

lemma sample_db_facts:
  "wf_concrete sample_db" "is_action sample_db 5" "is_action sample_db 6" "is_action sample_db 7"
  "root_path sample_db 7 = [5, 6, 7]" "root_path sample_db 8 = [5, 6, 8]"
  "total_size sample_db 7 = 40" "local_size sample_db 7 = 4"
  by code_simp+

section \<open>The properties\<close>

text \<open>\<open>Action::getTotalDomainSize\<close>, with the cache \<open>m_totalDomainSize\<close> that every call leaves behind,
  is the product of the local domain sizes from the root to the action, as long as that product is an
  \<open>int\<close>; the cache stays valid for every action.\<close>

theorem getTotalDomainSize_is_product:
  assumes "wf_concrete db" and "is_action db i" and "cache_valid db cache" and "total_size db i < 2147483648"
  shows "\<exists>cache'. getTotalDomainSize (length db) db i cache =
      Inr (prod_list (map (local_size db) (root_path db i)), cache') \<and> cache_valid db cache'"
  using getTotalDomainSize_product [OF assms is_action_less [OF assms(2)]] by (simp add: total_size_def)

theorem getTotalDomainSize_is_product_witness:
  "\<exists>cache'. getTotalDomainSize (length sample_db) sample_db 7 (\<lambda>_. 0) =
      Inr (prod_list (map (local_size sample_db) (root_path sample_db 7)), cache') \<and> cache_valid sample_db cache'"
  by (rule getTotalDomainSize_is_product) (simp_all add: sample_db_facts cache_valid_def)

end
