(* ===== verification/Instructions.thy ===== *)
theory Instructions
  imports EGObjects
begin

text \<open>
  The instruction trees of \<open>eg_compiler/instruction.hpp\<close> and \<open>src/eg/instruction.cpp\<close>: the variables,
  the instruction and operation classes, and the passes over a tree that the invocation compiler
  runs, \<open>eliminate\<close>, \<open>secondStageElimination\<close>, \<open>getOperations\<close>, \<open>setReturnTypes\<close> and \<open>setMaxRanges\<close>.

  A variable carries the address at which it was allocated: variables are compared by address.
  An instruction is owned by its parent and its address is only used to select operations in
  \<open>secondStageElimination\<close>, so instructions are trees.
\<close>

section \<open>Variables and instructions\<close>

datatype variable =
    InstanceVariable nat "variable option" idx
  | ReferenceVariable nat "variable option" "idx list"
  | DimensionReferenceVariable nat "variable option" "idx list"
  | ContextVariable nat "variable option" "idx list"

fun v_addr :: "variable \<Rightarrow> nat" where
  "v_addr (InstanceVariable a p t) = a"
| "v_addr (ReferenceVariable a p ts) = a"
| "v_addr (DimensionReferenceVariable a p ts) = a"
| "v_addr (ContextVariable a p ts) = a"

fun v_parent :: "variable \<Rightarrow> variable option" where
  "v_parent (InstanceVariable a p t) = p"
| "v_parent (ReferenceVariable a p ts) = p"
| "v_parent (DimensionReferenceVariable a p ts) = p"
| "v_parent (ContextVariable a p ts) = p"

text \<open>\<open>InstanceVariable::getConcreteType\<close>; the members that are read through it have this class.\<close>

fun v_concreteType :: "variable \<Rightarrow> idx result" where
  "v_concreteType (InstanceVariable a p t) = Inr t"
| "v_concreteType _ = Inl UndefinedBehaviour"

datatype RangeType = eRaw | eRange | TOTAL_RANGE_TYPES

datatype instr_op =
    RootInstruction variable int
  | ParentDerivationInstruction variable variable
  | ChildDerivationInstruction variable variable
  | EnumDerivationInstruction variable variable
  | EnumerationInstruction variable "idx list" int
  | FailureInstruction
  | EliminationInstruction
  | PruneInstruction
  | DimensionReferenceReadInstruction variable variable idx
  | MonomorphicReferenceInstruction variable variable
  | PolymorphicReferenceBranchInstruction variable
  | PolymorphicCaseInstruction variable variable
  | CallOperation variable idx idx
  | StartOperation variable idx idx
  | StopOperation variable idx idx
  | PauseOperation variable idx idx
  | ResumeOperation variable idx idx
  | DoneOperation variable idx idx
  | WaitActionOperation variable idx idx
  | WaitDimensionOperation variable idx idx
  | GetActionOperation variable idx idx
  | GetDimensionOperation variable idx idx
  | ReadOperation variable idx idx
  | WriteOperation variable idx idx
  | WriteLinkOperation variable idx idx idx
  | RangeOperation variable idx idx RangeType

datatype instruction = Instr (opof: instr_op) (children: "instruction list")

fun is_Operation :: "instr_op \<Rightarrow> bool" where
  "is_Operation (CallOperation _ _ _) = True"
| "is_Operation (StartOperation _ _ _) = True"
| "is_Operation (StopOperation _ _ _) = True"
| "is_Operation (PauseOperation _ _ _) = True"
| "is_Operation (ResumeOperation _ _ _) = True"
| "is_Operation (DoneOperation _ _ _) = True"
| "is_Operation (WaitActionOperation _ _ _) = True"
| "is_Operation (WaitDimensionOperation _ _ _) = True"
| "is_Operation (GetActionOperation _ _ _) = True"
| "is_Operation (GetDimensionOperation _ _ _) = True"
| "is_Operation (ReadOperation _ _ _) = True"
| "is_Operation (WriteOperation _ _ _) = True"
| "is_Operation (WriteLinkOperation _ _ _ _) = True"
| "is_Operation (RangeOperation _ _ _ _) = True"
| "is_Operation _ = False"

section \<open>Elimination\<close>

datatype Elimination = eSuccess | eFailure | eAmbiguous

text \<open>\<open>elimination\<close> after a child that failed, and after any other child.\<close>

definition after_failure :: "Elimination \<Rightarrow> Elimination" where
  "after_failure e = (if e \<noteq> eAmbiguous then eFailure else e)"

fun after_child :: "Elimination \<Rightarrow> Elimination \<Rightarrow> Elimination" where
  "after_child e eSuccess = e"
| "after_child e eFailure = after_failure e"
| "after_child e eAmbiguous = eAmbiguous"

definition successes :: "(Elimination \<times> instruction) list \<Rightarrow> instruction list" where
  "successes rs = map snd (filter (\<lambda>r. fst r = eSuccess) rs)"

definition ambiguities :: "(Elimination \<times> instruction) list \<Rightarrow> instruction list" where
  "ambiguities rs = map snd (filter (\<lambda>r. fst r = eAmbiguous) rs)"

text \<open>The two branches of the loop over \<open>m_children\<close> that replace a child, with the results of its
  nested instructions: the child that takes the place of an elimination, and the new elimination
  value.\<close>

definition resolve_elimination :: "Elimination \<Rightarrow> (Elimination \<times> instruction) list \<Rightarrow> Elimination \<times> instruction" where
  "resolve_elimination e rs =
     (if ambiguities rs \<noteq> [] \<or> 1 < length (successes rs)
      then (eAmbiguous, Instr EliminationInstruction (ambiguities rs @ successes rs))
      else case successes rs of
             [] \<Rightarrow> (after_failure e, Instr EliminationInstruction [])
           | x # _ \<Rightarrow> (e, x))"

lemma size_in_list: "n \<in> set nested \<Longrightarrow> size (n :: instruction) \<le> size_list size nested"
  by (simp add: size_list_estimation')

text \<open>
  \<open>eliminate\<close> and \<open>secondStageElimination\<close> have the same loop. The second one takes the candidate
  operations and fails at an operation that is not one of them. An operation is a candidate when its
  interface and concrete types are chosen, so operations that are equal are candidates together and
  the comparison of addresses is the comparison of the operations.
\<close>

definition not_candidate :: "instr_op list option \<Rightarrow> instr_op \<Rightarrow> bool" where
  "not_candidate cands op =
     (case cands of None \<Rightarrow> False | Some ops \<Rightarrow> is_Operation op \<and> op \<notin> set ops)"

function elimination_pass :: "instr_op list option \<Rightarrow> instruction \<Rightarrow> (Elimination \<times> instruction) result"
  and elimination_loop :: "instr_op list option \<Rightarrow> Elimination \<Rightarrow> instruction list \<Rightarrow> instruction list \<Rightarrow>
        (Elimination \<times> instruction list) result"
where
  "elimination_pass cands (Instr op cs) =
     (if not_candidate cands op then Inr (eFailure, Instr op cs)
      else bindR (elimination_loop cands eSuccess [] cs) (\<lambda>(e, cs'). Inr (e, Instr op cs')))"
| "elimination_loop cands e prior [] = Inr (e, prior)"
| "elimination_loop cands e prior (Instr op nested # rest) =
     (if op = EliminationInstruction then
        bindR (mapR (\<lambda>n. bindR (verify (opof n \<noteq> EliminationInstruction)) (\<lambda>_. elimination_pass cands n)) nested)
          (\<lambda>rs. case resolve_elimination e rs of
                  (e', c) \<Rightarrow> elimination_loop cands e' (prior @ [c]) rest)
      else if op = FailureInstruction then
        elimination_loop cands (after_failure e) (prior @ [Instr op nested]) rest
      else if op = PruneInstruction then
        bindR (mapR (\<lambda>n. bindR (verify (opof n \<noteq> PruneInstruction)) (\<lambda>_.
                  bindR (elimination_pass cands n) (\<lambda>r.
                    if fst r = eAmbiguous then Inl (RuntimeError ''Unreachable'') else Inr r))) nested)
          (\<lambda>rs. if successes rs \<noteq> []
                 then bindR (verify (prior = [] \<and> rest = [])) (\<lambda>_. Inr (e, successes rs))
                 else elimination_loop cands eFailure (prior @ [Instr PruneInstruction []]) rest)
      else
        bindR (elimination_pass cands (Instr op nested))
          (\<lambda>(r, c). elimination_loop cands (after_child e r) (prior @ [c]) rest))"
  by pat_completeness auto
termination
  by (relation "measure (\<lambda>x. case x of Inl (c, t) \<Rightarrow> 2 * size t | Inr (c, e, b, cs) \<Rightarrow> Suc (2 * size_list size cs))")
    (auto dest: size_in_list)

definition eliminate :: "instruction \<Rightarrow> (Elimination \<times> instruction) result" where
  "eliminate t = elimination_pass None t"

definition secondStageElimination :: "instr_op list \<Rightarrow> instruction \<Rightarrow> (Elimination \<times> instruction) result" where
  "secondStageElimination candidateOperations t = elimination_pass (Some candidateOperations) t"

section \<open>The passes over the finished tree\<close>

text \<open>\<open>getOperations\<close> appends the operations in the order of the tree and does not look below one.\<close>

fun getOperations :: "instruction \<Rightarrow> instr_op list" where
  "getOperations (Instr op cs) =
     concat (map (\<lambda>c. if is_Operation (opof c) then [opof c] else getOperations c) cs)"

fun setReturnTypes :: "idx list \<Rightarrow> instruction \<Rightarrow> int \<times> instruction" where
  "setReturnTypes targets (Instr op cs) =
     (case op of
        EnumerationInstruction ctx rts m \<Rightarrow>
          (int (length (getOperations (Instr op cs))), Instr (EnumerationInstruction ctx targets m) cs)
      | _ \<Rightarrow>
          (let rs = map (setReturnTypes targets) cs
           in (foldl max 1 (map fst rs), Instr op (map snd rs))))"

fun setMaxRanges :: "int \<Rightarrow> instruction \<Rightarrow> instruction" where
  "setMaxRanges n (Instr op cs) =
     (case op of
        EnumerationInstruction ctx rts m \<Rightarrow> Instr (EnumerationInstruction ctx rts n) cs
      | RootInstruction ctx m \<Rightarrow> Instr (RootInstruction ctx n) (map (setMaxRanges n) cs)
      | _ \<Rightarrow> Instr op (map (setMaxRanges n) cs))"

section \<open>What an operation says of its types\<close>

text \<open>\<open>getReturnTypes\<close>: the write operations return the context of the variable's type, whose pointer
  is null when the concrete element has no context; every other operation returns its interface
  element.\<close>

fun op_getReturnTypes :: "database \<Rightarrow> instr_op \<Rightarrow> idx option list result" where
  "op_getReturnTypes db (CallOperation v i t) = Inr [Some i]"
| "op_getReturnTypes db (StartOperation v i t) = Inr [Some i]"
| "op_getReturnTypes db (StopOperation v i t) = Inr [Some i]"
| "op_getReturnTypes db (PauseOperation v i t) = Inr [Some i]"
| "op_getReturnTypes db (ResumeOperation v i t) = Inr [Some i]"
| "op_getReturnTypes db (DoneOperation v i t) = Inr [Some i]"
| "op_getReturnTypes db (WaitActionOperation v i t) = Inr [Some i]"
| "op_getReturnTypes db (WaitDimensionOperation v i t) = Inr [Some i]"
| "op_getReturnTypes db (GetActionOperation v i t) = Inr [Some i]"
| "op_getReturnTypes db (GetDimensionOperation v i t) = Inr [Some i]"
| "op_getReturnTypes db (ReadOperation v i t) = Inr [Some i]"
| "op_getReturnTypes db (WriteOperation v i t) =
     bindR (v_concreteType v) (\<lambda>a. Inr [getContext db a])"
| "op_getReturnTypes db (WriteLinkOperation v i t g) =
     bindR (v_concreteType v) (\<lambda>a. Inr [getContext db a])"
| "op_getReturnTypes db (RangeOperation v i t r) = Inr [Some i]"
| "op_getReturnTypes db _ = Inr []"

fun op_getParameterTypes :: "instr_op \<Rightarrow> idx list" where
  "op_getParameterTypes (WriteOperation v i t) = [i]"
| "op_getParameterTypes (WriteLinkOperation v i t g) = [i]"
| "op_getParameterTypes _ = []"

fun op_getExplicitOperationType :: "instr_op \<Rightarrow> ExplicitOperationID result" where
  "op_getExplicitOperationType (CallOperation v i t) = Inr id_exp_Call"
| "op_getExplicitOperationType (StartOperation v i t) = Inr id_exp_Start"
| "op_getExplicitOperationType (StopOperation v i t) = Inr id_exp_Stop"
| "op_getExplicitOperationType (PauseOperation v i t) = Inr id_exp_Pause"
| "op_getExplicitOperationType (ResumeOperation v i t) = Inr id_exp_Resume"
| "op_getExplicitOperationType (DoneOperation v i t) = Inr id_exp_Done"
| "op_getExplicitOperationType (WaitActionOperation v i t) = Inr id_exp_WaitAction"
| "op_getExplicitOperationType (WaitDimensionOperation v i t) = Inr id_exp_WaitDimension"
| "op_getExplicitOperationType (GetActionOperation v i t) = Inr id_exp_GetAction"
| "op_getExplicitOperationType (GetDimensionOperation v i t) = Inr id_exp_GetDimension"
| "op_getExplicitOperationType (ReadOperation v i t) = Inr id_exp_Read"
| "op_getExplicitOperationType (WriteOperation v i t) = Inr id_exp_Write"
| "op_getExplicitOperationType (WriteLinkOperation v i t g) = Inr id_exp_Write"
| "op_getExplicitOperationType (RangeOperation v i t r) =
     (case r of
        eRaw \<Rightarrow> Inr id_exp_Raw
      | eRange \<Rightarrow> Inr id_exp_Range
      | TOTAL_RANGE_TYPES \<Rightarrow> Inl (RuntimeError ''Invalid range type''))"
| "op_getExplicitOperationType _ = Inl UndefinedBehaviour"

end
