(* ===== verification/Elimination.thy ===== *)
theory Elimination
  imports Instructions "HOL-Library.Sublist"
begin

text \<open>
  What elimination computes. A tree with eliminations stands for the set of trees that choose one
  alternative at each of them; \<open>alternatives\<close> is that set. On trees in which no failure stands
  directly below an elimination, \<open>eliminate\<close> succeeds exactly when there is one alternative, and its
  result is that alternative. The executable instructions a success leaves hold no failure, no
  elimination and no prune instruction.
\<close>

section \<open>Reading the loop\<close>

definition is_marker :: "instr_op \<Rightarrow> bool" where
  "is_marker op \<longleftrightarrow> op = FailureInstruction \<or> op = EliminationInstruction \<or> op = PruneInstruction"

fun clean :: "instruction \<Rightarrow> bool" where
  "clean (Instr op cs) \<longleftrightarrow> \<not> is_marker op \<and> (\<forall>c \<in> set cs. clean c)"

text \<open>The instructions below an elimination or prune instruction are no markers themselves.\<close>

fun guarded :: "instruction \<Rightarrow> bool" where
  "guarded (Instr op cs) \<longleftrightarrow>
     (op = EliminationInstruction \<or> op = PruneInstruction \<longrightarrow> (\<forall>c \<in> set cs. \<not> is_marker (opof c))) \<and>
     (\<forall>c \<in> set cs. guarded c)"

fun prune_free :: "instruction \<Rightarrow> bool" where
  "prune_free (Instr op cs) \<longleftrightarrow> op \<noteq> PruneInstruction \<and> (\<forall>c \<in> set cs. prune_free c)"

text \<open>The trees that choose one alternative at every elimination, with no failure and, in the second
  stage, with no operation other than the candidates.\<close>

fun alternatives :: "instr_op list option \<Rightarrow> instruction \<Rightarrow> instruction list" where
  "alternatives cands (Instr op cs) =
     (if op = FailureInstruction \<or> not_candidate cands op then []
      else if op = EliminationInstruction then concat (map (alternatives cands) cs)
      else map (Instr op) (product_lists (map (alternatives cands) cs)))"

lemma elimination_pass_opof: "elimination_pass cands t = Inr (r, t') \<Longrightarrow> opof t' = opof t"
  by (cases t) (auto simp: bindR_eq_Inr split: if_splits)

lemma after_child_success [simp]: "after_child e r = eSuccess \<longleftrightarrow> e = eSuccess \<and> r = eSuccess"
  by (cases r) (auto simp: after_failure_def)

lemma after_failure_success [simp]: "after_failure e \<noteq> eSuccess"
  by (simp add: after_failure_def)

lemma resolve_elimination_success:
  "resolve_elimination e rs = (eSuccess, c) \<Longrightarrow> e = eSuccess \<and> successes rs = [c] \<and> ambiguities rs = []"
  by (auto simp: resolve_elimination_def split: if_splits list.splits)

lemma in_successes: "c \<in> set (successes rs) \<longleftrightarrow> (eSuccess, c) \<in> set rs"
  by (force simp: successes_def)

lemma in_ambiguities: "c \<in> set (ambiguities rs) \<longleftrightarrow> (eAmbiguous, c) \<in> set rs"
  by (force simp: ambiguities_def)

lemma elimination_loop_e:
  "elimination_loop cands e prior cs = Inr (eSuccess, cs') \<Longrightarrow> e = eSuccess"
proof (induction cs arbitrary: e prior)
  case (Cons c cs)
  show ?case
  proof (cases c)
    case (Instr op ns)
    show ?thesis
    proof (cases "op = EliminationInstruction")
      case True
      with Cons.prems Instr obtain rs where
        "(case resolve_elimination e rs of (e', d) \<Rightarrow> elimination_loop cands e' (prior @ [d]) cs) = Inr (eSuccess, cs')"
        by (auto simp: bindR_eq_Inr)
      then show ?thesis
        by (cases "resolve_elimination e rs") (auto dest!: Cons.IH resolve_elimination_success)
    next
      case False
      with Cons.prems Instr show ?thesis
        by (auto simp: bindR_eq_Inr split: if_splits dest!: Cons.IH)
    qed
  qed
qed simp

text \<open>The nested results of an elimination or prune instruction.\<close>

lemma mapR_nested:
  assumes "mapR (\<lambda>n. bindR (verify (P n)) (\<lambda>_. f n)) ns = Inr rs"
  shows "list_all2 (\<lambda>n r. P n \<and> f n = Inr r) ns rs"
  using assms by (simp add: mapR_Inr_conv bindR_eq_Inr)

lemma mapR_nested_prune:
  assumes "mapR (\<lambda>n. bindR (verify (P n)) (\<lambda>_. bindR (f n) (\<lambda>r. if Q r then Inl err else Inr r))) ns = Inr rs"
  shows "list_all2 (\<lambda>n r. P n \<and> f n = Inr r \<and> \<not> Q r) ns rs"
  using assms by (auto simp: mapR_Inr_conv bindR_eq_Inr elim!: list_all2_mono split: if_splits)

lemma list_all2_in2: "list_all2 P xs ys \<Longrightarrow> y \<in> set ys \<Longrightarrow> \<exists>x \<in> set xs. P x y"
  by (metis in_set_conv_nth list_all2_conv_all_nth)

lemma list_all2_in1: "list_all2 P xs ys \<Longrightarrow> x \<in> set xs \<Longrightarrow> \<exists>y \<in> set ys. P x y"
  by (metis in_set_conv_nth list_all2_conv_all_nth)

section \<open>A success is executable\<close>

lemma elimination_clean:
  "elimination_pass cands t = Inr (eSuccess, t') \<Longrightarrow> guarded t \<Longrightarrow> \<not> is_marker (opof t) \<Longrightarrow> clean t'"
  "elimination_loop cands e prior cs = Inr (eSuccess, cs') \<Longrightarrow> (\<forall>c \<in> set prior. clean c) \<Longrightarrow>
   (\<forall>c \<in> set cs. guarded c) \<Longrightarrow> (\<forall>c \<in> set cs'. clean c)"
proof (induction cands t and cands e prior cs arbitrary: t' and cs' rule: elimination_pass_elimination_loop.induct)
  case (1 cands op cs)
  then show ?case by (auto simp: bindR_eq_Inr split: if_splits)
next
  case (2 cands e prior)
  then show ?case by simp
next
  case (3 cands e prior op nested rest)
  note prems = "3.prems"
  have g: "guarded (Instr op nested)" and grest: "\<forall>c \<in> set rest. guarded c"
    using prems(3) by auto
  consider (elim) "op = EliminationInstruction" | (fail) "op = FailureInstruction"
    | (prune) "op = PruneInstruction" | (other) "\<not> is_marker op"
    by (auto simp: is_marker_def)
  then show ?case
  proof cases
    case elim
    from prems(1) elim obtain rs where
      rs: "list_all2 (\<lambda>n r. opof n \<noteq> EliminationInstruction \<and> elimination_pass cands n = Inr r) nested rs"
      and cont: "(case resolve_elimination e rs of (e', c) \<Rightarrow> elimination_loop cands e' (prior @ [c]) rest) = Inr (eSuccess, cs')"
      by (auto simp: bindR_eq_Inr dest!: mapR_nested)
    obtain e' c where res: "resolve_elimination e rs = (e', c)" by (cases "resolve_elimination e rs")
    with cont have loop: "elimination_loop cands e' (prior @ [c]) rest = Inr (eSuccess, cs')" by simp
    from elimination_loop_e [OF loop] res have "resolve_elimination e rs = (eSuccess, c)" by simp
    from resolve_elimination_success [OF this] have "c \<in> set (successes rs)" by simp
    then have "(eSuccess, c) \<in> set rs" by (simp add: in_successes)
    from list_all2_in2 [OF rs this] obtain n where
      n: "n \<in> set nested" "elimination_pass cands n = Inr (eSuccess, c)" "opof n \<noteq> EliminationInstruction" by auto
    then have cc: "clean c" using "3.IH"(1) [OF elim n(1) _ n(2)] g elim by (auto simp: verify_def)
    have mp: "mapR (\<lambda>n. bindR (verify (opof n \<noteq> EliminationInstruction)) (\<lambda>_. elimination_pass cands n)) nested = Inr rs"
      using rs by (simp add: mapR_Inr_conv bindR_eq_Inr)
    from prems(2) cc have "\<forall>a \<in> set (prior @ [c]). clean a" by simp
    then show ?thesis by (rule "3.IH"(2) [OF elim mp res [symmetric] loop _ grest])
  next
    case fail
    with prems(1) elimination_loop_e show ?thesis by fastforce
  next
    case prune
    let ?f = "\<lambda>n. bindR (verify (opof n \<noteq> PruneInstruction)) (\<lambda>_. bindR (elimination_pass cands n)
       (\<lambda>r. if fst r = eAmbiguous then Inl (RuntimeError ''Unreachable'') else Inr r))"
    from prems(1) prune obtain rs where map: "mapR ?f nested = Inr rs"
      and cont: "(if successes rs \<noteq> [] then bindR (verify (prior = [] \<and> rest = [])) (\<lambda>_. Inr (e, successes rs))
        else elimination_loop cands eFailure (prior @ [Instr PruneInstruction []]) rest) = Inr (eSuccess, cs')"
      by (auto simp: bindR_eq_Inr)
    from mapR_nested_prune [OF map] have
      rs: "list_all2 (\<lambda>n r. opof n \<noteq> PruneInstruction \<and> elimination_pass cands n = Inr r \<and> fst r \<noteq> eAmbiguous) nested rs" .
    show ?thesis
    proof (cases "successes rs = []")
      case True
      with cont elimination_loop_e show ?thesis by fastforce
    next
      case False
      with cont have cs': "cs' = successes rs" by (auto simp: bindR_eq_Inr)
      have "clean c" if "c \<in> set cs'" for c
      proof -
        from that have "(eSuccess, c) \<in> set rs" by (simp add: cs' in_successes)
        from list_all2_in2 [OF rs this] obtain n where
          n: "n \<in> set nested" "elimination_pass cands n = Inr (eSuccess, c)" "opof n \<noteq> PruneInstruction" by auto
        then show ?thesis using "3.IH"(4) [OF _ _ prune n(1) _ n(2)] g prune by (auto simp: verify_def)
      qed
      then show ?thesis by simp
    qed
  next
    case other
    from prems(1) other obtain r c where
      p: "elimination_pass cands (Instr op nested) = Inr (r, c)"
      and loop: "elimination_loop cands (after_child e r) (prior @ [c]) rest = Inr (eSuccess, cs')"
      by (auto simp: bindR_eq_Inr is_marker_def simp del: elimination_pass.simps)
    from elimination_loop_e [OF loop] have r: "r = eSuccess" by simp
    have ops: "op \<noteq> EliminationInstruction" "op \<noteq> FailureInstruction" "op \<noteq> PruneInstruction"
      using other by (auto simp: is_marker_def)
    have "clean c" using "3.IH"(6) [OF ops p [unfolded r] g] other by simp
    with prems(2) have "\<forall>a \<in> set (prior @ [c]). clean a" by simp
    then show ?thesis by (rule "3.IH"(7) [OF ops p refl loop _ grest])
  qed
qed

section \<open>A pass decides the number of alternatives\<close>

definition decided :: "instr_op list option \<Rightarrow> instruction \<Rightarrow> Elimination \<times> instruction \<Rightarrow> bool" where
  "decided cands n r \<longleftrightarrow>
     (fst r = eSuccess \<longrightarrow> alternatives cands n = [snd r]) \<and> (fst r = eFailure \<longrightarrow> alternatives cands n = [])"

lemma not_candidate_marker [simp]: "is_marker op \<Longrightarrow> \<not> not_candidate cands op"
  by (cases cands) (auto simp: is_marker_def not_candidate_def)

lemma successes_simps [simp]:
  "successes [] = []"
  "successes (r # rs) = (if fst r = eSuccess then snd r # successes rs else successes rs)"
  by (simp_all add: successes_def)

lemma ambiguities_simps [simp]:
  "ambiguities [] = []"
  "ambiguities (r # rs) = (if fst r = eAmbiguous then snd r # ambiguities rs else ambiguities rs)"
  by (simp_all add: ambiguities_def)

lemma decided_concat:
  "list_all2 (decided cands) ns rs \<Longrightarrow> ambiguities rs = [] \<Longrightarrow> concat (map (alternatives cands) ns) = successes rs"
proof (induction ns rs rule: list_all2_induct)
  case (Cons n ns r rs)
  then show ?case by (cases "fst r") (auto simp: decided_def)
qed simp

lemma product_lists_single: "list_all2 (\<lambda>c d. f c = [d]) cs ds \<Longrightarrow> product_lists (map f cs) = [ds]"
  by (induction cs ds rule: list_all2_induct) auto

lemma product_lists_empty: "c \<in> set cs \<Longrightarrow> f c = [] \<Longrightarrow> product_lists (map f cs) = []"
  by (induction cs) auto

lemma resolve_elimination_decided:
  assumes "list_all2 (decided cands) ns rs" "resolve_elimination e rs = (e', c)"
  shows "e' = eSuccess \<Longrightarrow> concat (map (alternatives cands) ns) = [c]"
    and "e' = eFailure \<Longrightarrow> e = eFailure \<or> concat (map (alternatives cands) ns) = []"
  using assms decided_concat [OF assms(1)]
  by (auto simp: resolve_elimination_def after_failure_def split: if_splits list.splits)

lemma after_child_failure: "after_child e r = eFailure \<Longrightarrow> e = eFailure \<or> r = eFailure"
  by (cases r) (auto simp: after_failure_def)

lemma elimination_decided:
  "elimination_pass cands t = Inr r \<Longrightarrow> guarded t \<Longrightarrow> prune_free t \<Longrightarrow> \<not> is_marker (opof t) \<Longrightarrow>
   decided cands t r"
  "elimination_loop cands e prior cs = Inr (e', cs') \<Longrightarrow> (\<forall>c \<in> set cs. guarded c \<and> prune_free c) \<Longrightarrow>
   (e' = eSuccess \<longrightarrow> (\<exists>ds. cs' = prior @ ds \<and> list_all2 (\<lambda>c d. alternatives cands c = [d]) cs ds)) \<and>
   (e' = eFailure \<longrightarrow> e = eFailure \<or> (\<exists>c \<in> set cs. alternatives cands c = []))"
proof (induction cands t and cands e prior cs arbitrary: r and e' cs' rule: elimination_pass_elimination_loop.induct)
  case (1 cands op cs)
  show ?case
  proof (cases "not_candidate cands op")
    case True
    with 1 show ?thesis by (auto simp: decided_def)
  next
    case False
    with "1.prems"(1) obtain e' cs' where l: "elimination_loop cands eSuccess [] cs = Inr (e', cs')"
      and r: "r = (e', Instr op cs')" by (auto simp: bindR_eq_Inr)
    note IH = "1.IH" [OF False l]
    have alt: "alternatives cands (Instr op cs) = map (Instr op) (product_lists (map (alternatives cands) cs))"
      using "1.prems" False by (simp add: is_marker_def)
    show ?thesis
    proof (cases e')
      case eSuccess
      with IH "1.prems" have "list_all2 (\<lambda>c d. alternatives cands c = [d]) cs cs'" by auto
      with eSuccess alt show ?thesis by (simp add: decided_def r product_lists_single)
    next
      case eFailure
      with IH "1.prems" obtain c where "c \<in> set cs" "alternatives cands c = []" by auto
      with eFailure alt show ?thesis by (simp add: decided_def r product_lists_empty)
    qed (simp add: decided_def r)
  qed
next
  case (2 cands e prior)
  then show ?case by simp
next
  case (3 cands e prior op nested rest)
  note prems = "3.prems"
  have g: "guarded (Instr op nested)" "prune_free (Instr op nested)"
    and grest: "\<forall>c \<in> set rest. guarded c \<and> prune_free c"
    using prems(2) by auto
  consider (elim) "op = EliminationInstruction" | (fail) "op = FailureInstruction" | (other) "\<not> is_marker op"
    using g by (auto simp: is_marker_def)
  then show ?case
  proof cases
    case elim
    let ?f = "\<lambda>n. bindR (verify (opof n \<noteq> EliminationInstruction)) (\<lambda>_. elimination_pass cands n)"
    from prems(1) elim obtain rs where map: "mapR ?f nested = Inr rs"
      and cont: "(case resolve_elimination e rs of (e', c) \<Rightarrow> elimination_loop cands e' (prior @ [c]) rest) = Inr (e', cs')"
      by (auto simp: bindR_eq_Inr)
    obtain e2 c where res: "resolve_elimination e rs = (e2, c)" by (cases "resolve_elimination e rs")
    with cont have loop: "elimination_loop cands e2 (prior @ [c]) rest = Inr (e', cs')" by simp
    have "list_all2 (decided cands) nested rs"
      using mapR_nested [OF map]
    proof (rule list.rel_mono_strong)
      fix n q assume "n \<in> set nested" "opof n \<noteq> EliminationInstruction \<and> elimination_pass cands n = Inr q"
      then show "decided cands n q" using "3.IH"(1) [OF elim] g elim by (auto simp: verify_def)
    qed
    note dec = resolve_elimination_decided [OF this res]
    have alt: "alternatives cands (Instr op nested) = concat (map (alternatives cands) nested)"
      using elim by (simp add: is_marker_def)
    from "3.IH"(2) [OF elim map res [symmetric] loop grest] show ?thesis
      using dec alt elimination_loop_e loop by fastforce
  next
    case fail
    from fail prems(1) have loop: "elimination_loop cands (after_failure e) (prior @ [Instr op nested]) rest = Inr (e', cs')" by simp
    have "e' \<noteq> eSuccess" using elimination_loop_e loop after_failure_success by blast
    then show ?thesis by (simp add: fail)
  next
    case other
    then have ops: "op \<noteq> EliminationInstruction" "op \<noteq> FailureInstruction" "op \<noteq> PruneInstruction"
      by (auto simp: is_marker_def)
    from prems(1) ops obtain r c where
      p: "elimination_pass cands (Instr op nested) = Inr (r, c)"
      and loop: "elimination_loop cands (after_child e r) (prior @ [c]) rest = Inr (e', cs')"
      by (auto simp: bindR_eq_Inr simp del: elimination_pass.simps)
    have d: "decided cands (Instr op nested) (r, c)" using "3.IH"(6) [OF ops p g] other by simp
    from "3.IH"(7) [OF ops p refl loop grest] show ?thesis
      using d elimination_loop_e loop after_child_failure [of e r] by (fastforce simp: decided_def)
  qed
qed

text \<open>A pass over a guarded tree without prune instructions raises no exception.\<close>

lemma elimination_total:
  "guarded t \<Longrightarrow> prune_free t \<Longrightarrow> \<exists>r. elimination_pass cands t = Inr r"
  "(\<forall>c \<in> set cs. guarded c \<and> prune_free c) \<Longrightarrow> \<exists>r. elimination_loop cands e prior cs = Inr r"
proof (induction cands t and cands e prior cs rule: elimination_pass_elimination_loop.induct)
  case (1 cands op cs)
  then show ?case by (cases "not_candidate cands op") fastforce+
next
  case (2 cands e prior)
  then show ?case by simp
next
  case (3 cands e prior op nested rest)
  have g: "guarded (Instr op nested)" "prune_free (Instr op nested)"
    and grest: "\<forall>c \<in> set rest. guarded c \<and> prune_free c"
    using "3.prems" by auto
  show ?case
  proof (cases "op = EliminationInstruction")
    case True
    let ?f = "\<lambda>n. bindR (verify (opof n \<noteq> EliminationInstruction)) (\<lambda>_. elimination_pass cands n)"
    have "\<exists>rs. mapR ?f nested = Inr rs"
    proof (rule mapR_total)
      fix n assume n: "n \<in> set nested"
      with g True have "opof n \<noteq> EliminationInstruction" "guarded n" "prune_free n" by (auto simp: is_marker_def)
      with "3.IH"(1) [OF True n] show "\<exists>y. ?f n = Inr y" by (simp add: verify_def)
    qed
    then obtain rs where rs: "mapR ?f nested = Inr rs" ..
    obtain e' c where res: "resolve_elimination e rs = (e', c)" by (cases "resolve_elimination e rs")
    from "3.IH"(2) [OF True rs res [symmetric] grest] rs res True show ?thesis by simp
  next
    case ne: False
    show ?thesis
    proof (cases "op = FailureInstruction")
      case True
      with "3.IH"(3) [OF ne True grest] show ?thesis by simp
    next
      case nf: False
      have np: "op \<noteq> PruneInstruction" using g by simp
      from "3.IH"(6) [OF ne nf np g] obtain r c where "elimination_pass cands (Instr op nested) = Inr (r, c)" by auto
      moreover from "3.IH"(7) [OF ne nf np this refl grest] obtain q where
        "elimination_loop cands (after_child e r) (prior @ [c]) rest = Inr q" by auto
      ultimately show ?thesis using ne nf np by (simp del: elimination_pass.simps)
    qed
  qed
qed

text \<open>The alternatives of the second stage have candidate operations only.\<close>

lemma in_product_lists: "ds \<in> set (product_lists xss) \<Longrightarrow> list_all2 (\<lambda>d xs. d \<in> set xs) ds xss"
  by (induction xss arbitrary: ds) auto

lemma alternatives_operations:
  "t' \<in> set (alternatives (Some ops) t) \<Longrightarrow> is_Operation (opof t') \<longrightarrow> opof t' \<in> set ops"
  "t' \<in> set (alternatives (Some ops) t) \<Longrightarrow> set (getOperations t') \<subseteq> set ops"
proof (induction t arbitrary: t')
  case (Instr op cs)
  {
    case 1
    then show ?case using Instr(1) by (auto simp: not_candidate_def split: if_splits)
  next
    case 2
    show ?case
    proof (cases "op = EliminationInstruction")
      case True
      with 2 Instr(2) show ?thesis by (auto split: if_splits)
    next
      case False
      with 2 obtain ds where t': "t' = Instr op ds" and "ds \<in> set (product_lists (map (alternatives (Some ops)) cs))"
        by (auto split: if_splits)
      then have all: "list_all2 (\<lambda>d c. d \<in> set (alternatives (Some ops) c)) ds cs"
        using in_product_lists by (fastforce simp: list.rel_map)
      have "(is_Operation (opof d) \<longrightarrow> opof d \<in> set ops) \<and> set (getOperations d) \<subseteq> set ops" if "d \<in> set ds" for d
        using list_all2_in1 [OF all that] Instr by blast
      then show ?thesis by (fastforce simp: t' split: if_splits)
    qed
  }
qed

section \<open>Chains\<close>

text \<open>In a tree whose branching is all elimination, ambiguity is two alternatives or more.\<close>

fun linear :: "instruction \<Rightarrow> bool" where
  "linear (Instr op cs) \<longleftrightarrow> (is_marker op \<or> length cs \<le> 1) \<and> (\<forall>c \<in> set cs. linear c)"

definition ambiguous_ok :: "instr_op list option \<Rightarrow> instruction \<Rightarrow> Elimination \<times> instruction \<Rightarrow> bool" where
  "ambiguous_ok cands n r \<longleftrightarrow>
     (fst r = eAmbiguous \<longrightarrow> 2 \<le> length (alternatives cands n)) \<and>
     (fst r = eSuccess \<longrightarrow> 1 \<le> length (alternatives cands n))"

lemma ambiguous_concat:
  "list_all2 (ambiguous_ok cands) ns rs \<Longrightarrow>
   2 * length (ambiguities rs) + length (successes rs) \<le> length (concat (map (alternatives cands) ns))"
proof (induction ns rs rule: list_all2_induct)
  case (Cons n ns r rs)
  then show ?case by (cases "fst r") (auto simp: ambiguous_ok_def)
qed simp

lemma resolve_elimination_ambiguous:
  assumes "resolve_elimination e rs = (eAmbiguous, c)" "e \<noteq> eAmbiguous"
  shows "2 \<le> 2 * length (ambiguities rs) + length (successes rs)"
  using assms by (auto simp: resolve_elimination_def after_failure_def neq_Nil_conv split: if_splits list.splits)

lemma elimination_ambiguous:
  "elimination_pass cands t = Inr r \<Longrightarrow> guarded t \<Longrightarrow> prune_free t \<Longrightarrow> linear t \<Longrightarrow> \<not> is_marker (opof t) \<Longrightarrow>
   ambiguous_ok cands t r"
  "elimination_loop cands e prior cs = Inr (eAmbiguous, cs') \<Longrightarrow> e \<noteq> eAmbiguous \<Longrightarrow> length cs \<le> 1 \<Longrightarrow>
   (\<forall>c \<in> set cs. guarded c \<and> prune_free c \<and> linear c) \<Longrightarrow>
   \<exists>c. cs = [c] \<and> 2 \<le> length (alternatives cands c)"
proof (induction cands t and cands e prior cs arbitrary: r and cs' rule: elimination_pass_elimination_loop.induct)
  case (1 cands op cs)
  have "1 \<le> length (alternatives cands (Instr op cs))" if "fst r = eSuccess"
    using elimination_decided(1) [OF "1.prems"(1-3,5)] that by (simp add: decided_def)
  moreover have "2 \<le> length (alternatives cands (Instr op cs))" if a: "fst r = eAmbiguous"
  proof -
    from "1.prems"(1) a have nc: "\<not> not_candidate cands op" by (auto split: if_splits)
    with "1.prems"(1) a obtain cs' where "elimination_loop cands eSuccess [] cs = Inr (eAmbiguous, cs')"
      by (auto simp: bindR_eq_Inr)
    from "1.IH" [OF nc this] "1.prems" obtain c where "cs = [c]" "2 \<le> length (alternatives cands c)"
      by auto
    then show ?thesis using nc "1.prems" by (simp add: is_marker_def map_concat comp_def)
  qed
  ultimately show ?case by (simp add: ambiguous_ok_def)
next
  case (2 cands e prior)
  then show ?case by simp
next
  case (3 cands e prior op nested rest)
  note prems = "3.prems"
  have g: "guarded (Instr op nested)" "prune_free (Instr op nested)" "linear (Instr op nested)" and rest: "rest = []"
    using prems(3,4) by auto
  consider (elim) "op = EliminationInstruction" | (fail) "op = FailureInstruction" | (other) "\<not> is_marker op"
    using g by (auto simp: is_marker_def)
  then show ?case
  proof cases
    case elim
    let ?f = "\<lambda>n. bindR (verify (opof n \<noteq> EliminationInstruction)) (\<lambda>_. elimination_pass cands n)"
    from prems(1) elim rest obtain rs where map: "mapR ?f nested = Inr rs"
      and cont: "(case resolve_elimination e rs of (e', c) \<Rightarrow> elimination_loop cands e' (prior @ [c]) rest) = Inr (eAmbiguous, cs')"
      by (auto simp: bindR_eq_Inr)
    then obtain c where res: "resolve_elimination e rs = (eAmbiguous, c)"
      using rest by (cases "resolve_elimination e rs") auto
    have "list_all2 (ambiguous_ok cands) nested rs"
      using mapR_nested [OF map]
    proof (rule list.rel_mono_strong)
      fix n q assume "n \<in> set nested" "opof n \<noteq> EliminationInstruction \<and> elimination_pass cands n = Inr q"
      then show "ambiguous_ok cands n q" using "3.IH"(1) [OF elim] g elim by (auto simp: verify_def)
    qed
    from ambiguous_concat [OF this] resolve_elimination_ambiguous [OF res prems(2)] elim rest
    show ?thesis by (simp add: is_marker_def)
  next
    case fail
    with prems(1,2) rest show ?thesis by (simp add: after_failure_def)
  next
    case other
    then have ops: "op \<noteq> EliminationInstruction" "op \<noteq> FailureInstruction" "op \<noteq> PruneInstruction"
      by (auto simp: is_marker_def)
    from prems(1) ops obtain r c where
      p: "elimination_pass cands (Instr op nested) = Inr (r, c)" and r: "after_child e r = eAmbiguous"
      by (auto simp: bindR_eq_Inr rest simp del: elimination_pass.simps)
    with prems(2) have "r = eAmbiguous" by (cases r) (auto simp: after_failure_def)
    with "3.IH"(6) [OF ops p g] other rest show ?thesis by (simp add: ambiguous_ok_def del: alternatives.simps)
  qed
qed

section \<open>The properties\<close>

text \<open>A tree of the shape that the invocation compiler builds: below the monomorphic reference, one
  alternative derives the parent and the other fails on its way down.\<close>

definition sample_context :: variable where
  "sample_context = ContextVariable 0 None [3]"

definition sample_instance :: variable where
  "sample_instance = InstanceVariable 1 (Some sample_context) 3"

definition sample_parent :: variable where
  "sample_parent = InstanceVariable 2 (Some sample_instance) 2"

definition sample_tree :: "instruction list \<Rightarrow> instruction" where
  "sample_tree alts =
     Instr (RootInstruction sample_context 0)
       [Instr (MonomorphicReferenceInstruction sample_context sample_instance)
         [Instr EliminationInstruction alts]]"

definition sample_stop :: instruction where
  "sample_stop = Instr (ParentDerivationInstruction sample_instance sample_parent)
     [Instr (StopOperation sample_parent 5 2) []]"

definition sample_failed :: instruction where
  "sample_failed = Instr (ParentDerivationInstruction sample_instance sample_parent)
     [Instr FailureInstruction [Instr (StopOperation sample_parent 5 4) []]]"

lemmas sample_defs = sample_context_def sample_instance_def sample_parent_def sample_tree_def
  sample_stop_def sample_failed_def

text \<open>C1. \<open>Instruction::eliminate\<close> on a tree without prune instructions, in which no failure and no elimination
  stands directly below an elimination and which does not begin with a failure or an elimination: it raises no
  exception; \<open>eSuccess\<close> comes with the one tree that chooses an alternative everywhere without meeting a
  failure, and that tree holds no failure, elimination or prune instruction; \<open>eFailure\<close> is returned only
  when there is no such tree. The trees of the visitor for enumerations have prune instructions, and the
  visitor for the other operations may put a failure directly below an elimination: see
  \<open>eliminate_keeps_failure\<close>.\<close>

theorem eliminate_decides:
  assumes "guarded t" "prune_free t" "\<not> is_marker (opof t)"
  shows "\<exists>e t'. eliminate t = Inr (e, t') \<and>
    (e = eSuccess \<longrightarrow> alternatives None t = [t'] \<and> clean t') \<and>
    (e = eFailure \<longrightarrow> alternatives None t = [])"
proof -
  from elimination_total(1) [OF assms(1,2)] obtain e t' where p: "elimination_pass None t = Inr (e, t')"
    by fastforce
  from elimination_decided(1) [OF p assms] elimination_clean(1) [of None t t'] p assms show ?thesis
    by (auto simp: eliminate_def decided_def)
qed

theorem eliminate_decides_witness:
  "\<exists>e t'. eliminate (sample_tree [sample_stop, sample_failed]) = Inr (e, t') \<and>
    (e = eSuccess \<longrightarrow> alternatives None (sample_tree [sample_stop, sample_failed]) = [t'] \<and> clean t') \<and>
    (e = eFailure \<longrightarrow> alternatives None (sample_tree [sample_stop, sample_failed]) = [])"
  by (rule eliminate_decides) (simp_all add: sample_defs is_marker_def)

text \<open>C2. On the trees of C1 whose only branching is by elimination the result of \<open>eliminate\<close> counts the
  alternatives exactly: success for one, failure for none, ambiguity for two or more. With a failure directly
  below an elimination the count is lost: see \<open>eliminate_failure_ambiguous\<close>.\<close>

theorem eliminate_counts_alternatives:
  assumes "guarded t" "prune_free t" "linear t" "\<not> is_marker (opof t)"
  shows "\<exists>e t'. eliminate t = Inr (e, t') \<and>
    e = (if length (alternatives None t) = 0 then eFailure
         else if length (alternatives None t) = 1 then eSuccess else eAmbiguous)"
proof -
  from elimination_total(1) [OF assms(1,2)] obtain e t' where p: "elimination_pass None t = Inr (e, t')"
    by fastforce
  from elimination_decided(1) [OF p assms(1,2,4)] elimination_ambiguous(1) [OF p assms] show ?thesis
    by (cases e) (auto simp: eliminate_def decided_def ambiguous_ok_def p)
qed

theorem eliminate_counts_alternatives_witness:
  "\<exists>e t'. eliminate (sample_tree [sample_stop, sample_stop]) = Inr (e, t') \<and>
    e = (if length (alternatives None (sample_tree [sample_stop, sample_stop])) = 0 then eFailure
         else if length (alternatives None (sample_tree [sample_stop, sample_stop])) = 1 then eSuccess
         else eAmbiguous)"
  by (rule eliminate_counts_alternatives) (simp_all add: sample_defs is_marker_def)

text \<open>C40. \<open>secondStageElimination\<close> with candidate operations, on the trees of C1: it raises no exception, succeeds
  with the one tree whose operations are all candidates, and fails only when no tree has this property. As in
  the first stage a failure directly below an elimination is not seen, so trees with one are excluded.\<close>

theorem secondStageElimination_decides:
  assumes "guarded t" "prune_free t" "\<not> is_marker (opof t)"
  shows "\<exists>e t'. secondStageElimination ops t = Inr (e, t') \<and>
    (e = eSuccess \<longrightarrow> alternatives (Some ops) t = [t'] \<and> clean t' \<and> set (getOperations t') \<subseteq> set ops) \<and>
    (e = eFailure \<longrightarrow> alternatives (Some ops) t = [])"
proof -
  from elimination_total(1) [OF assms(1,2)] obtain e t' where p: "elimination_pass (Some ops) t = Inr (e, t')"
    by fastforce
  from elimination_decided(1) [OF p assms] elimination_clean(1) [of "Some ops" t t'] p assms
    alternatives_operations(2) [of t' ops t] show ?thesis
    by (auto simp: secondStageElimination_def decided_def)
qed

theorem secondStageElimination_decides_witness:
  "\<exists>e t'. secondStageElimination [StopOperation sample_parent 5 2] (sample_tree [sample_stop, sample_failed]) = Inr (e, t') \<and>
    (e = eSuccess \<longrightarrow>
      alternatives (Some [StopOperation sample_parent 5 2]) (sample_tree [sample_stop, sample_failed]) = [t'] \<and>
      clean t' \<and> set (getOperations t') \<subseteq> set [StopOperation sample_parent 5 2]) \<and>
    (e = eFailure \<longrightarrow>
      alternatives (Some [StopOperation sample_parent 5 2]) (sample_tree [sample_stop, sample_failed]) = [])"
  by (rule secondStageElimination_decides) (simp_all add: sample_defs is_marker_def)

text \<open>A failure directly below an elimination is not seen: \<open>eliminate\<close> tests its own children for
  failure instructions and never the nested instruction itself. Here every alternative fails, the
  result is a success, and the tree that is left to execute begins with the failure.\<close>

theorem eliminate_keeps_failure:
  "eliminate (sample_tree [Instr FailureInstruction [Instr (StopOperation v i c) []], sample_failed]) =
     Inr (eSuccess, Instr (RootInstruction sample_context 0)
       [Instr (MonomorphicReferenceInstruction sample_context sample_instance)
         [Instr FailureInstruction [Instr (StopOperation v i c) []]]]) \<and>
   alternatives None (sample_tree [Instr FailureInstruction [Instr (StopOperation v i c) []], sample_failed]) = []"
  by (simp add: eliminate_def sample_defs not_candidate_def resolve_elimination_def after_failure_def verify_def)

text \<open>With one alternative that works beside a failed one, the derivation is unique and the code
  reports it as ambiguous when the failure stands directly below the elimination.\<close>

theorem eliminate_failure_ambiguous:
  "map_sum id fst (eliminate (sample_tree [Instr FailureInstruction [Instr (StopOperation v i c) []], sample_stop])) = Inr eAmbiguous \<and>
   length (alternatives None (sample_tree [Instr FailureInstruction [Instr (StopOperation v i c) []], sample_stop])) = 1"
  by (simp add: eliminate_def sample_defs not_candidate_def resolve_elimination_def after_failure_def verify_def)

end
