(* ===== verification/InstructionEval.thy ===== *)
theory InstructionEval
  imports Instructions
begin

text \<open>
  Evaluation of an invocation solution at run time: the \<open>RuntimeEvaluator\<close> of
  \<open>eg_compiler/instruction.hpp\<close> with its variable values, the \<open>evaluate\<close> member of every instruction
  class in \<open>src/eg/instruction.cpp\<close>, and \<open>EGRuntimeImpl\<close> of \<open>src/eg_runtime/eg_runtime.cpp\<close> as the
  evaluator. A call on the component interop is recorded as a value. The member
  \<open>dereferenceDimension\<close> is virtual, and is a parameter of the evaluation.
\<close>

section \<open>The evaluator\<close>

record SubRange =
  runtimeType :: TypeID
  sr_begin :: Instance
  sr_end :: Instance

record RangeDescription =
  rd_ranges :: "SubRange list"
  rd_raw :: bool

datatype interop_call =
    doRead reference TypeID
  | doWrite reference TypeID
  | doCall reference TypeID
  | doStart reference TypeID
  | doStop reference
  | doPause reference
  | doResume reference
  | doDone reference
  | doWaitAction reference
  | doWaitDimension reference TypeID
  | doGetAction reference
  | doGetDimension reference TypeID
  | doRange RangeDescription

record evaluator =
  m_variables :: "nat \<rightharpoonup> reference"
  calls :: "interop_call list"

definition initialise :: "evaluator \<Rightarrow> evaluator" where
  "initialise ev = ev\<lparr>m_variables := Map.empty\<rparr>"

definition setVarValue :: "variable \<Rightarrow> reference \<Rightarrow> evaluator \<Rightarrow> evaluator result" where
  "setVarValue v r ev =
     bindR (verify (m_variables ev (v_addr v) = None))
       (\<lambda>_. Inr (ev\<lparr>m_variables := (m_variables ev)(v_addr v \<mapsto> r)\<rparr>))"

definition getVarValue :: "variable \<Rightarrow> evaluator \<Rightarrow> reference result" where
  "getVarValue v ev = of_option (RuntimeError ''verify'') (m_variables ev (v_addr v))"

definition interop :: "interop_call \<Rightarrow> evaluator \<Rightarrow> evaluator result" where
  "interop c ev = Inr (ev\<lparr>calls := calls ev @ [c]\<rparr>)"

text \<open>\<open>EGRuntimeImpl::dereferenceDimension\<close> gives back the reference it is called with.\<close>

definition EGRuntime_dereferenceDimension :: "reference \<Rightarrow> TypeID \<Rightarrow> reference result" where
  "EGRuntime_dereferenceDimension action dimensionType = Inr action"

text \<open>The index of an object as a \<open>TypeID\<close>: both are 32 bit signed integers.\<close>

definition getIndex :: "idx \<Rightarrow> TypeID" where
  "getIndex i = int i"

section \<open>The members of the instruction classes\<close>

text \<open>The division is of unsigned 32 bit integers.\<close>

definition ParentDerivation_evaluate :: "database \<Rightarrow> variable \<Rightarrow> variable \<Rightarrow> evaluator \<Rightarrow> evaluator result" where
  "ParentDerivation_evaluate db m_pFrom m_pTo ev =
     bindR (getVarValue m_pFrom ev) (\<lambda>from.
     bindR (v_concreteType m_pFrom) (\<lambda>tf.
     bindR (getLocalDomainSize db tf) (\<lambda>n.
     bindR (v_concreteType m_pTo) (\<lambda>tt.
       if (word_of_int n :: Instance) = 0 then Inl UndefinedBehaviour
       else setVarValue m_pTo (mk_ref (inst from div word_of_int n) (getIndex tt) (timestamp from)) ev))))"

definition ChildDerivation_evaluate :: "variable \<Rightarrow> variable \<Rightarrow> evaluator \<Rightarrow> evaluator result" where
  "ChildDerivation_evaluate m_pFrom m_pTo ev =
     bindR (getVarValue m_pFrom ev) (\<lambda>from.
     bindR (v_concreteType m_pTo) (\<lambda>tt.
       setVarValue m_pTo (mk_ref (inst from) (getIndex tt) (timestamp from)) ev))"

definition DimensionReferenceRead_evaluate :: "(reference \<Rightarrow> TypeID \<Rightarrow> reference result) \<Rightarrow>
    variable \<Rightarrow> variable \<Rightarrow> idx \<Rightarrow> evaluator \<Rightarrow> evaluator result" where
  "DimensionReferenceRead_evaluate deref m_pInstance m_pReference m_pDimension ev =
     bindR (getVarValue m_pInstance ev) (\<lambda>actionRef.
     bindR (deref actionRef (getIndex m_pDimension)) (\<lambda>r. setVarValue m_pReference r ev))"

definition MonomorphicReference_evaluate :: "variable \<Rightarrow> variable \<Rightarrow> evaluator \<Rightarrow> evaluator result" where
  "MonomorphicReference_evaluate m_pFrom m_pInstance ev =
     bindR (getVarValue m_pFrom ev) (\<lambda>r. setVarValue m_pInstance r ev)"

definition PolymorphicCase_evaluate :: "variable \<Rightarrow> variable \<Rightarrow> evaluator \<Rightarrow> evaluator result" where
  "PolymorphicCase_evaluate m_pReference m_pTo ev =
     bindR (getVarValue m_pReference ev) (\<lambda>r. setVarValue m_pTo r ev)"

text \<open>The operations: one call on the evaluator each.\<close>

fun Operation_evaluate :: "instr_op \<Rightarrow> evaluator \<Rightarrow> evaluator result" where
  "Operation_evaluate (CallOperation v i t) ev =
     bindR (getVarValue v ev) (\<lambda>r. interop (doCall r (getIndex t)) ev)"
| "Operation_evaluate (StartOperation v i t) ev =
     bindR (getVarValue v ev) (\<lambda>r. interop (doStart r (getIndex t)) ev)"
| "Operation_evaluate (StopOperation v i t) ev = bindR (getVarValue v ev) (\<lambda>r. interop (doStop r) ev)"
| "Operation_evaluate (PauseOperation v i t) ev = bindR (getVarValue v ev) (\<lambda>r. interop (doPause r) ev)"
| "Operation_evaluate (ResumeOperation v i t) ev = bindR (getVarValue v ev) (\<lambda>r. interop (doResume r) ev)"
| "Operation_evaluate (DoneOperation v i t) ev = bindR (getVarValue v ev) (\<lambda>r. interop (doDone r) ev)"
| "Operation_evaluate (WaitActionOperation v i t) ev =
     bindR (getVarValue v ev) (\<lambda>r. interop (doWaitAction r) ev)"
| "Operation_evaluate (WaitDimensionOperation v i t) ev =
     bindR (getVarValue v ev) (\<lambda>r. interop (doWaitDimension r (getIndex t)) ev)"
| "Operation_evaluate (GetActionOperation v i t) ev =
     bindR (getVarValue v ev) (\<lambda>r. interop (doGetAction r) ev)"
| "Operation_evaluate (GetDimensionOperation v i t) ev =
     bindR (getVarValue v ev) (\<lambda>r. interop (doGetDimension r (getIndex t)) ev)"
| "Operation_evaluate (ReadOperation v i t) ev =
     bindR (getVarValue v ev) (\<lambda>r. interop (doRead r (getIndex t)) ev)"
| "Operation_evaluate (WriteOperation v i t) ev =
     bindR (getVarValue v ev) (\<lambda>r. interop (doWrite r (getIndex t)) ev)"
| "Operation_evaluate (WriteLinkOperation v i t g) ev = Inl (RuntimeError ''TODO WriteLinkOperation emulation'')"
| "Operation_evaluate (RangeOperation v i t r) ev = Inl (RuntimeError ''Unreachable'')"
| "Operation_evaluate _ ev = Inl UndefinedBehaviour"

subsection \<open>Enumerations\<close>

text \<open>The loop from the target to the enumerated action, whose \<open>std::int32_t\<close> product may not overflow.\<close>

fun enum_multiplier :: "nat \<Rightarrow> database \<Rightarrow> idx \<Rightarrow> idx option \<Rightarrow> int \<Rightarrow> int result" where
  "enum_multiplier 0 db enum p acc = Inl OutOfFuel"
| "enum_multiplier (Suc n) db enum None acc = Inl AssertFailed"
| "enum_multiplier (Suc n) db enum (Some i) acc =
     (if i = enum then Inr acc
      else bindR (getLocalDomainSize db i) (\<lambda>l.
           bindR (mul_int acc l) (\<lambda>acc'.
             enum_multiplier n db enum
               (case parent_of db i of
                  None \<Rightarrow> None
                | Some p \<Rightarrow> if is_action db p then Some p else None) acc')))"

fun RangeOperation_parts :: "instr_op \<Rightarrow> (idx \<times> RangeType) result" where
  "RangeOperation_parts (RangeOperation v i t r) = Inr (t, r)"
| "RangeOperation_parts _ = Inl AssertFailed"

definition enum_subrange :: "database \<Rightarrow> idx \<Rightarrow> Instance \<Rightarrow> instr_op \<Rightarrow> SubRange result" where
  "enum_subrange db enum c op =
     bindR (RangeOperation_parts op) (\<lambda>(t, r).
     bindR (enum_multiplier (Suc (Suc (length db))) db enum (Some t) 1) (\<lambda>m.
       Inr \<lparr>runtimeType = getIndex t, sr_begin = c * word_of_int m, sr_end = (c + 1) * word_of_int m\<rparr>))"

definition Enumeration_evaluate :: "database \<Rightarrow> variable \<Rightarrow> idx list \<Rightarrow> instr_op list \<Rightarrow> evaluator \<Rightarrow> evaluator result" where
  "Enumeration_evaluate db m_pContext m_returnTypes operations ev =
     bindR (asserting (m_returnTypes \<noteq> [])) (\<lambda>_.
     bindR (v_concreteType m_pContext) (\<lambda>enum.
     bindR (asserting (operations \<noteq> [])) (\<lambda>_.
     bindR (RangeOperation_parts (hd operations)) (\<lambda>(t, r).
     bindR (case r of eRaw \<Rightarrow> Inr True | eRange \<Rightarrow> Inr False
            | TOTAL_RANGE_TYPES \<Rightarrow> Inl (RuntimeError ''Unknown range type'')) (\<lambda>raw.
     bindR (mapR (\<lambda>op. bindR (getVarValue m_pContext ev) (\<lambda>c. enum_subrange db enum (inst c) op)) operations) (\<lambda>ranges.
       interop (doRange \<lparr>rd_ranges = ranges, rd_raw = raw\<rparr>) ev))))))"

section \<open>Evaluation of a tree\<close>

fun evaluate :: "database \<Rightarrow> (reference \<Rightarrow> TypeID \<Rightarrow> reference result) \<Rightarrow> instruction \<Rightarrow> evaluator \<Rightarrow> evaluator result"
  and evaluate_branch :: "database \<Rightarrow> (reference \<Rightarrow> TypeID \<Rightarrow> reference result) \<Rightarrow> reference \<Rightarrow>
    instruction list \<Rightarrow> evaluator \<Rightarrow> evaluator result"
  and evaluate_front :: "database \<Rightarrow> (reference \<Rightarrow> TypeID \<Rightarrow> reference result) \<Rightarrow>
    instruction list \<Rightarrow> evaluator \<Rightarrow> evaluator result"
where
  "evaluate db deref (Instr op cs) ev =
     (case op of
        RootInstruction v m \<Rightarrow> evaluate_front db deref cs ev
      | ParentDerivationInstruction f t \<Rightarrow>
          bindR (asserting (length cs = 1)) (\<lambda>_.
          bindR (ParentDerivation_evaluate db f t ev) (evaluate_front db deref cs))
      | ChildDerivationInstruction f t \<Rightarrow>
          bindR (asserting (length cs = 1)) (\<lambda>_.
          bindR (ChildDerivation_evaluate f t ev) (evaluate_front db deref cs))
      | EnumDerivationInstruction f t \<Rightarrow> Inl (RuntimeError ''Unreachable'')
      | EnumerationInstruction v rts m \<Rightarrow> Enumeration_evaluate db v rts (getOperations (Instr op cs)) ev
      | FailureInstruction \<Rightarrow> Inl (RuntimeError ''Unreachable'')
      | EliminationInstruction \<Rightarrow> Inl (RuntimeError ''Unreachable'')
      | PruneInstruction \<Rightarrow> Inl (RuntimeError ''Unreachable'')
      | DimensionReferenceReadInstruction i r d \<Rightarrow>
          bindR (DimensionReferenceRead_evaluate deref i r d ev) (evaluate_front db deref cs)
      | MonomorphicReferenceInstruction f i \<Rightarrow>
          bindR (MonomorphicReference_evaluate f i ev) (evaluate_front db deref cs)
      | PolymorphicReferenceBranchInstruction f \<Rightarrow>
          bindR (getVarValue f ev) (\<lambda>r. evaluate_branch db deref r cs ev)
      | PolymorphicCaseInstruction r t \<Rightarrow>
          bindR (PolymorphicCase_evaluate r t ev) (evaluate_front db deref cs)
      | _ \<Rightarrow> Operation_evaluate op ev)"
| "evaluate_branch db deref r [] ev = Inl (RuntimeError ''Error handling needed here...'')"
| "evaluate_branch db deref r (Instr op cs # rest) ev =
     (case op of
        PolymorphicCaseInstruction ref to \<Rightarrow>
          bindR (v_concreteType to) (\<lambda>t.
            if getIndex t = tid r then evaluate db deref (Instr op cs) ev
            else evaluate_branch db deref r rest ev)
      | _ \<Rightarrow> Inl AssertFailed)"
| "evaluate_front db deref [] ev = Inl AssertFailed"
| "evaluate_front db deref (c # rest) ev =
     (if rest = [] then evaluate db deref c ev else Inl AssertFailed)"

text \<open>\<open>InvocationSolution::evaluate\<close>.\<close>

fun context_variable :: "instruction \<Rightarrow> variable result" where
  "context_variable (Instr (RootInstruction v m) cs) = Inr v"
| "context_variable _ = Inl UndefinedBehaviour"

definition Solution_evaluate :: "database \<Rightarrow> (reference \<Rightarrow> TypeID \<Rightarrow> reference result) \<Rightarrow> instruction \<Rightarrow>
    reference \<Rightarrow> evaluator \<Rightarrow> evaluator result" where
  "Solution_evaluate db deref root ctx ev =
     bindR (context_variable root) (\<lambda>v.
     bindR (setVarValue v ctx (initialise ev)) (\<lambda>ev'. evaluate db deref root ev'))"

section \<open>Executable trees\<close>

text \<open>A variable of a class that has a concrete type, which is an action.\<close>

definition instance_var :: "database \<Rightarrow> variable \<Rightarrow> bool" where
  "instance_var db v \<longleftrightarrow> (case v_concreteType v of Inl _ \<Rightarrow> False | Inr t \<Rightarrow> is_action db t)"

text \<open>The product of the local sizes below an ancestor \<open>a\<close>, on the path from it to \<open>t\<close>.\<close>

definition span_size :: "database \<Rightarrow> idx \<Rightarrow> idx \<Rightarrow> int" where
  "span_size db a t = prod_list (map (local_size db) (drop (length (root_path db a)) (root_path db t)))"

fun range_ok :: "database \<Rightarrow> idx \<Rightarrow> instr_op \<Rightarrow> bool" where
  "range_ok db enum (RangeOperation v i t r) \<longleftrightarrow>
     is_action db t \<and> enum \<in> set (root_path db t) \<and> span_size db enum t < 2147483648 \<and> r \<noteq> TOTAL_RANGE_TYPES"
| "range_ok db enum _ \<longleftrightarrow> False"

fun var_of_operation :: "instr_op \<Rightarrow> variable option" where
  "var_of_operation (CallOperation v i t) = Some v"
| "var_of_operation (StartOperation v i t) = Some v"
| "var_of_operation (StopOperation v i t) = Some v"
| "var_of_operation (PauseOperation v i t) = Some v"
| "var_of_operation (ResumeOperation v i t) = Some v"
| "var_of_operation (DoneOperation v i t) = Some v"
| "var_of_operation (WaitActionOperation v i t) = Some v"
| "var_of_operation (WaitDimensionOperation v i t) = Some v"
| "var_of_operation (GetActionOperation v i t) = Some v"
| "var_of_operation (GetDimensionOperation v i t) = Some v"
| "var_of_operation (ReadOperation v i t) = Some v"
| "var_of_operation (WriteOperation v i t) = Some v"
| "var_of_operation _ = None"

fun is_case :: "instr_op \<Rightarrow> bool" where
  "is_case (PolymorphicCaseInstruction r t) \<longleftrightarrow> (case v_concreteType t of Inl _ \<Rightarrow> False | Inr _ \<Rightarrow> True)"
| "is_case _ \<longleftrightarrow> False"

text \<open>Every variable is assigned once on a path before it is read, in the scope \<open>S\<close> of the addresses
  that are assigned already.\<close>

fun exec_ok :: "database \<Rightarrow> nat set \<Rightarrow> instruction \<Rightarrow> bool" where
  "exec_ok db S (Instr op cs) \<longleftrightarrow>
     (case op of
        RootInstruction v m \<Rightarrow> length cs = 1 \<and> (\<forall>c \<in> set cs. exec_ok db S c)
      | ParentDerivationInstruction f t \<Rightarrow>
          length cs = 1 \<and> v_addr f \<in> S \<and> v_addr t \<notin> S \<and> instance_var db f \<and> instance_var db t \<and>
          (\<forall>c \<in> set cs. exec_ok db (insert (v_addr t) S) c)
      | ChildDerivationInstruction f t \<Rightarrow>
          length cs = 1 \<and> v_addr f \<in> S \<and> v_addr t \<notin> S \<and> instance_var db t \<and>
          (\<forall>c \<in> set cs. exec_ok db (insert (v_addr t) S) c)
      | EnumerationInstruction v rts m \<Rightarrow>
          v_addr v \<in> S \<and> rts \<noteq> [] \<and> getOperations (Instr op cs) \<noteq> [] \<and>
          (case v_concreteType v of Inl _ \<Rightarrow> False
           | Inr e \<Rightarrow> is_action db e \<and> (\<forall>p \<in> set (getOperations (Instr op cs)). range_ok db e p))
      | DimensionReferenceReadInstruction i r d \<Rightarrow>
          length cs = 1 \<and> v_addr i \<in> S \<and> v_addr r \<notin> S \<and> (\<forall>c \<in> set cs. exec_ok db (insert (v_addr r) S) c)
      | MonomorphicReferenceInstruction f i \<Rightarrow>
          length cs = 1 \<and> v_addr f \<in> S \<and> v_addr i \<notin> S \<and> (\<forall>c \<in> set cs. exec_ok db (insert (v_addr i) S) c)
      | PolymorphicReferenceBranchInstruction f \<Rightarrow>
          v_addr f \<in> S \<and> (\<forall>c \<in> set cs. is_case (opof c) \<and> exec_ok db S c)
      | PolymorphicCaseInstruction r t \<Rightarrow>
          length cs = 1 \<and> v_addr r \<in> S \<and> v_addr t \<notin> S \<and> (\<forall>c \<in> set cs. exec_ok db (insert (v_addr t) S) c)
      | _ \<Rightarrow> (case var_of_operation op of None \<Rightarrow> False | Some v \<Rightarrow> v_addr v \<in> S))"

lemma setVarValue_fresh:
  "v_addr v \<notin> dom (m_variables ev) \<Longrightarrow>
   setVarValue v r ev = Inr (ev\<lparr>m_variables := (m_variables ev)(v_addr v \<mapsto> r)\<rparr>)"
  by (simp add: setVarValue_def domIff)

lemma getVarValue_dom: "v_addr v \<in> dom (m_variables ev) \<Longrightarrow> getVarValue v ev = Inr (the (m_variables ev (v_addr v)))"
  by (auto simp: getVarValue_def)

lemma getLocalDomainSize_range: "getLocalDomainSize db i = Inr l \<Longrightarrow> - 2147483648 \<le> l \<and> l < 2147483648"
  by (auto simp: getLocalDomainSize_def int_of_size_t_def split: option.splits)
    (use sint_range_size [where 'a = 32] in \<open>auto simp: word_size\<close>)

lemma local_size_range: "local_size db i < 2147483648"
  by (auto simp: local_size_def dest: getLocalDomainSize_range split: sum.splits)

lemma word_of_local_size:
  assumes "wf_concrete db" and "is_action db i"
  shows "unat (word_of_int (local_size db i) :: Instance) = nat (local_size db i)"
    and "(word_of_int (local_size db i) :: Instance) \<noteq> 0"
proof -
  have "0 < local_size db i" "local_size db i < 4294967296"
    using local_size_pos [OF assms] local_size_range [of db i] by simp_all
  then show u: "unat (word_of_int (local_size db i) :: Instance) = nat (local_size db i)"
    by (simp add: unat_eq_nat_uint uint_word_of_int)
  then show "(word_of_int (local_size db i) :: Instance) \<noteq> 0"
    using \<open>0 < local_size db i\<close> by (metis nat_0_iff not_le unat_0)
qed

lemma ParentDerivation_evaluate_ok:
  assumes "wf_concrete db" and "v_addr f \<in> dom (m_variables ev)" and "v_addr t \<notin> dom (m_variables ev)"
    and "v_concreteType f = Inr tf" and "is_action db tf" and "v_concreteType t = Inr tt"
  shows "ParentDerivation_evaluate db f t ev =
    Inr (ev\<lparr>m_variables := (m_variables ev)(v_addr t \<mapsto>
      mk_ref (inst (the (m_variables ev (v_addr f))) div word_of_int (local_size db tf)) (getIndex tt)
        (timestamp (the (m_variables ev (v_addr f)))))\<rparr>)"
  using assms word_of_local_size(2) [OF assms(1,5)]
  by (simp add: ParentDerivation_evaluate_def getVarValue_dom getLocalDomainSize_local setVarValue_fresh)

subsection \<open>The multiplier of an enumeration\<close>

lemma span_size_self [simp]: "span_size db a a = 1"
  by (simp add: span_size_def)

lemma span_size_parent:
  assumes wf: "wf_concrete db" and a: "a \<in> set (root_path db t)" "a \<noteq> t" and p: "parent_of db t = Some p"
  shows "a \<in> set (root_path db p)" and "span_size db a t = span_size db a p * local_size db t"
proof -
  from a p show "a \<in> set (root_path db p)" by (simp add: root_path_Some [OF wf])
  from root_path_split [OF this] obtain ys where "root_path db p = root_path db a @ ys" ..
  then show "span_size db a t = span_size db a p * local_size db t"
    by (simp add: span_size_def root_path_Some [OF wf p])
qed

lemma ancestor_parent: "a \<in> set (root_path db t) \<Longrightarrow> a \<noteq> t \<Longrightarrow> \<exists>p. parent_of db t = Some p"
  by (cases "parent_of db t") (simp_all add: root_path_None)

lemma span_size_pos:
  assumes wf: "wf_concrete db"
  shows "is_action db t \<Longrightarrow> a \<in> set (root_path db t) \<Longrightarrow> 0 < span_size db a t"
proof (induction t rule: less_induct)
  case (less t)
  show ?case
  proof (cases "a = t")
    case False
    with ancestor_parent [OF less.prems(2)] obtain p where p: "parent_of db t = Some p" by blast
    from span_size_parent [OF wf less.prems(2) False p] wf_parent_of [OF wf p] less
      local_size_pos [OF wf less.prems(1)]
    show ?thesis by simp
  qed simp
qed

lemma enum_multiplier_span:
  assumes wf: "wf_concrete db"
  shows "is_action db t \<Longrightarrow> a \<in> set (root_path db t) \<Longrightarrow> 0 < acc \<Longrightarrow> acc * span_size db a t < 2147483648 \<Longrightarrow> t < n \<Longrightarrow>
    enum_multiplier n db a (Some t) acc = Inr (acc * span_size db a t)"
proof (induction t arbitrary: n acc rule: less_induct)
  case (less t)
  obtain m where m: "n = Suc m" using less.prems by (cases n) auto
  show ?case
  proof (cases "t = a")
    case True
    then show ?thesis using m by simp
  next
    case False
    with ancestor_parent [OF less.prems(2)] obtain p where p: "parent_of db t = Some p" by blast
    note sp = span_size_parent [OF wf less.prems(2) False [symmetric] p]
    note pt = wf_parent_of [OF wf p]
    let ?l = "local_size db t"
    have l: "0 < ?l" by (rule local_size_pos [OF wf less.prems(1)])
    have s: "1 \<le> span_size db a p" using span_size_pos [OF wf _ sp(1)] pt by (simp add: int_one_le_iff_zero_less)
    have pos: "0 < acc * ?l" using less.prems(3) l by simp
    have "acc * ?l \<le> acc * ?l * span_size db a p" using mult_left_mono [OF s, of "acc * ?l"] pos by simp
    then have "mul_int acc ?l = Inr (acc * ?l)"
      using pos less.prems(4) by (intro mul_int_in_range) (simp_all add: sp(2) ac_simps)
    moreover have "enum_multiplier m db a (Some p) (acc * ?l) = Inr (acc * ?l * span_size db a p)"
      using less.prems pt m pos by (intro less.IH) (simp_all add: sp ac_simps)
    ultimately show ?thesis
      using False m p pt getLocalDomainSize_local [OF wf less.prems(1)] by (simp add: sp(2) ac_simps)
  qed
qed

lemma enum_subrange_ok:
  assumes "wf_concrete db" and "range_ok db e p"
  shows "\<exists>v i t r. p = RangeOperation v i t r \<and> r \<noteq> TOTAL_RANGE_TYPES \<and>
    enum_subrange db e c p = Inr \<lparr>runtimeType = getIndex t, sr_begin = c * word_of_int (span_size db e t),
      sr_end = (c + 1) * word_of_int (span_size db e t)\<rparr>"
proof -
  from assms(2) obtain v i t r where p: "p = RangeOperation v i t r" by (cases p) auto
  with assms(2) have t: "is_action db t" "e \<in> set (root_path db t)" "span_size db e t < 2147483648"
    "r \<noteq> TOTAL_RANGE_TYPES" by simp_all
  have "t < Suc (Suc (length db))" using is_action_less [OF t(1)] by simp
  from enum_multiplier_span [OF assms(1) t(1,2) _ _ this, of 1] t(3,4) p
  show ?thesis by (simp add: enum_subrange_def)
qed

section \<open>One call for one evaluation\<close>

text \<open>What one evaluation leaves: one more call, or the exception of a reference whose type no case of a
  polymorphic branch accepts.\<close>

definition calls_once :: "evaluator \<Rightarrow> evaluator result \<Rightarrow> bool" where
  "calls_once ev r \<longleftrightarrow>
     (case r of
        Inl e \<Rightarrow> e = RuntimeError ''Error handling needed here...''
      | Inr ev' \<Rightarrow> \<exists>c. calls ev' = calls ev @ [c])"

lemma calls_once_interop [simp]: "calls_once ev (interop c ev)"
  by (simp add: calls_once_def interop_def)

lemma calls_once_vars [simp]: "calls_once (ev\<lparr>m_variables := vs\<rparr>) r \<longleftrightarrow> calls_once ev r"
  by (simp add: calls_once_def split: sum.splits)

lemma Operation_evaluate_ok:
  assumes "var_of_operation op = Some v" and "v_addr v \<in> dom (m_variables ev)"
  shows "calls_once ev (Operation_evaluate op ev)"
  using assms by (cases op) (simp_all add: getVarValue_dom)

lemma Enumeration_evaluate_ok:
  assumes wf: "wf_concrete db" and v: "v_addr v \<in> dom (m_variables ev)" and rts: "rts \<noteq> []" and ops: "ops \<noteq> []"
    and e: "v_concreteType v = Inr e" and ok: "\<forall>p \<in> set ops. range_ok db e p"
  shows "calls_once ev (Enumeration_evaluate db v rts ops ev)"
proof -
  have "\<exists>sr. enum_subrange db e c p = Inr sr" if "p \<in> set ops" for c p
    using enum_subrange_ok [OF wf, of e p c] ok that by auto
  then have "\<exists>rs. mapR (\<lambda>op. bindR (getVarValue v ev) (\<lambda>c. enum_subrange db e (inst c) op)) ops = Inr rs"
    by (intro mapR_total) (simp add: getVarValue_dom [OF v])
  then obtain rs where rs: "mapR (\<lambda>op. bindR (getVarValue v ev) (\<lambda>c. enum_subrange db e (inst c) op)) ops = Inr rs" ..
  obtain x y t r where "hd ops = RangeOperation x y t r" "r \<noteq> TOTAL_RANGE_TYPES"
    using enum_subrange_ok [OF wf, of e "hd ops" 0] ok ops by fastforce
  with rs show ?thesis
    by (cases r) (simp_all add: Enumeration_evaluate_def rts ops e)
qed

lemma dom_update [simp]: "dom (m(a \<mapsto> b)) = insert a (dom m)"
  by auto

text \<open>An instruction that assigns a fresh variable and goes on.\<close>

definition assigns :: "evaluator \<Rightarrow> variable \<Rightarrow> evaluator result \<Rightarrow> bool" where
  "assigns ev t m \<longleftrightarrow> (\<exists>r. m = Inr (ev\<lparr>m_variables := (m_variables ev)(v_addr t \<mapsto> r)\<rparr>))"

lemma assigns_calls_once:
  assumes "assigns ev t m"
    and "\<And>ev'. m = Inr ev' \<Longrightarrow> dom (m_variables ev') = insert (v_addr t) (dom (m_variables ev)) \<Longrightarrow> calls_once ev' (f ev')"
  shows "calls_once ev (bindR m f)"
  using assms by (force simp: assigns_def)

lemma assigns_steps:
  "v_addr f \<in> dom (m_variables ev) \<Longrightarrow> v_addr t \<notin> dom (m_variables ev) \<Longrightarrow> wf_concrete db \<Longrightarrow>
    instance_var db f \<Longrightarrow> instance_var db t \<Longrightarrow> assigns ev t (ParentDerivation_evaluate db f t ev)"
  "v_addr f \<in> dom (m_variables ev) \<Longrightarrow> v_addr t \<notin> dom (m_variables ev) \<Longrightarrow>
    instance_var db t \<Longrightarrow> assigns ev t (ChildDerivation_evaluate f t ev)"
  "v_addr f \<in> dom (m_variables ev) \<Longrightarrow> v_addr t \<notin> dom (m_variables ev) \<Longrightarrow>
    (\<And>a d. \<exists>r. deref a d = Inr r) \<Longrightarrow> assigns ev t (DimensionReferenceRead_evaluate deref f t d ev)"
  "v_addr f \<in> dom (m_variables ev) \<Longrightarrow> v_addr t \<notin> dom (m_variables ev) \<Longrightarrow>
    assigns ev t (MonomorphicReference_evaluate f t ev)"
  "v_addr f \<in> dom (m_variables ev) \<Longrightarrow> v_addr t \<notin> dom (m_variables ev) \<Longrightarrow>
    assigns ev t (PolymorphicCase_evaluate f t ev)"
proof -
  assume f: "v_addr f \<in> dom (m_variables ev)" and t: "v_addr t \<notin> dom (m_variables ev)"
  note [simp] = getVarValue_dom [OF f] setVarValue_fresh [OF t]
  show "assigns ev t (MonomorphicReference_evaluate f t ev)" "assigns ev t (PolymorphicCase_evaluate f t ev)"
    by (auto simp: assigns_def MonomorphicReference_evaluate_def PolymorphicCase_evaluate_def)
  show "assigns ev t (ChildDerivation_evaluate f t ev)" if "instance_var db t"
    using that by (auto simp: assigns_def ChildDerivation_evaluate_def instance_var_def split: sum.splits)
  show "assigns ev t (DimensionReferenceRead_evaluate deref f t d ev)" if de: "\<And>a d. \<exists>r. deref a d = Inr r"
  proof -
    obtain r where "deref (the (m_variables ev (v_addr f))) (getIndex d) = Inr r" using de by blast
    then show ?thesis by (auto simp: assigns_def DimensionReferenceRead_evaluate_def)
  qed
  show "assigns ev t (ParentDerivation_evaluate db f t ev)"
    if "wf_concrete db" "instance_var db f" "instance_var db t"
    using ParentDerivation_evaluate_ok [OF that(1) f t] that(2,3)
    by (auto simp: assigns_def instance_var_def split: sum.splits)
qed

lemma evaluate_ok:
    "wf_concrete db \<Longrightarrow> exec_ok db (dom (m_variables ev)) t \<Longrightarrow> (\<And>a d. \<exists>r. deref a d = Inr r) \<Longrightarrow> calls_once ev (evaluate db deref t ev)"
    "wf_concrete db \<Longrightarrow> (\<forall>c \<in> set cs. is_case (opof c) \<and> exec_ok db (dom (m_variables ev)) c) \<Longrightarrow>
      (\<And>a d. \<exists>r. deref a d = Inr r) \<Longrightarrow> calls_once ev (evaluate_branch db deref r cs ev)"
    "wf_concrete db \<Longrightarrow> length cs = 1 \<Longrightarrow> (\<forall>c \<in> set cs. exec_ok db (dom (m_variables ev)) c) \<Longrightarrow>
      (\<And>a d. \<exists>r. deref a d = Inr r) \<Longrightarrow> calls_once ev (evaluate_front db deref cs ev)"
proof (induction db deref t ev and db deref r cs ev and db deref cs ev
    rule: evaluate_evaluate_branch_evaluate_front.induct)
  case (1 db deref op cs ev)
  note IH = "1.IH" and wf = "1.prems"(1) and ok = "1.prems"(2) and deref = "1.prems"(3)
  show ?case
  proof (cases op)
    case (ParentDerivationInstruction f t)
    with ok have "assigns ev t (ParentDerivation_evaluate db f t ev)" by (auto intro!: assigns_steps wf)
    then have "calls_once ev (bindR (ParentDerivation_evaluate db f t ev) (evaluate_front db deref cs))"
      by (rule assigns_calls_once) (use IH ParentDerivationInstruction ok wf deref in auto)
    with ok ParentDerivationInstruction show ?thesis by simp
  next
    case (ChildDerivationInstruction f t)
    with ok have "assigns ev t (ChildDerivation_evaluate f t ev)" by (auto intro!: assigns_steps)
    then have "calls_once ev (bindR (ChildDerivation_evaluate f t ev) (evaluate_front db deref cs))"
      by (rule assigns_calls_once) (use IH ChildDerivationInstruction ok wf deref in auto)
    with ok ChildDerivationInstruction show ?thesis by simp
  next
    case (DimensionReferenceReadInstruction f t d)
    with ok have "assigns ev t (DimensionReferenceRead_evaluate deref f t d ev)" by (auto intro!: assigns_steps deref)
    then have "calls_once ev (bindR (DimensionReferenceRead_evaluate deref f t d ev) (evaluate_front db deref cs))"
      by (rule assigns_calls_once) (use IH DimensionReferenceReadInstruction ok wf deref in auto)
    with DimensionReferenceReadInstruction show ?thesis by simp
  next
    case (MonomorphicReferenceInstruction f t)
    with ok have "assigns ev t (MonomorphicReference_evaluate f t ev)" by (auto intro!: assigns_steps)
    then have "calls_once ev (bindR (MonomorphicReference_evaluate f t ev) (evaluate_front db deref cs))"
      by (rule assigns_calls_once) (use IH MonomorphicReferenceInstruction ok wf deref in auto)
    with MonomorphicReferenceInstruction show ?thesis by simp
  next
    case (PolymorphicCaseInstruction f t)
    with ok have "assigns ev t (PolymorphicCase_evaluate f t ev)" by (auto intro!: assigns_steps)
    then have "calls_once ev (bindR (PolymorphicCase_evaluate f t ev) (evaluate_front db deref cs))"
      by (rule assigns_calls_once) (use IH PolymorphicCaseInstruction ok wf deref in auto)
    with PolymorphicCaseInstruction show ?thesis by simp
  next
    case (PolymorphicReferenceBranchInstruction f)
    with ok have "getVarValue f ev = Inr (the (m_variables ev (v_addr f)))" by (simp add: getVarValue_dom)
    with IH PolymorphicReferenceBranchInstruction ok wf deref show ?thesis by auto
  next
    case (RootInstruction v m)
    with IH ok wf deref show ?thesis by auto
  next
    case (EnumerationInstruction v rts m)
    with ok show ?thesis
      by (auto intro!: Enumeration_evaluate_ok wf simp del: getOperations.simps split: sum.splits)
  qed (use ok in \<open>auto simp: getVarValue_dom domI\<close>)
next
  case (2 db deref r ev)
  then show ?case by (simp add: calls_once_def)
next
  case (3 db deref r op cs rest ev)
  then show ?case by (cases op) (auto split: sum.splits)
next
  case (4 db deref ev)
  then show ?case by simp
next
  case (5 db deref c rest ev)
  then show ?case by simp
qed
section \<open>The instances of a range\<close>

text \<open>The instance numbers that parent derivations compute on the way from an action to an ancestor.\<close>

fun derive_up :: "database \<Rightarrow> idx list \<Rightarrow> Instance \<Rightarrow> Instance" where
  "derive_up db [] w = w"
| "derive_up db (t # ts) w = derive_up db ts (w div word_of_int (local_size db t))"

definition below :: "database \<Rightarrow> idx \<Rightarrow> idx \<Rightarrow> idx list" where
  "below db a t = rev (drop (length (root_path db a)) (root_path db t))"

lemma derive_up_unat:
  assumes "wf_concrete db"
  shows "(\<forall>t \<in> set ts. is_action db t) \<Longrightarrow>
    unat (derive_up db ts w) = unat w div nat (prod_list (map (local_size db) ts))"
proof (induction ts arbitrary: w)
  case (Cons t ts)
  then have "0 < local_size db t" using local_size_pos [OF assms] by simp
  then show ?case
    using Cons word_of_local_size(1) [OF assms, of t]
    by (simp add: unat_div_distrib div_mult2_eq nat_mult_distrib)
qed simp

lemma prod_list_rev [simp]: "prod_list (rev xs) = prod_list (xs :: int list)"
  by (induction xs) (simp_all add: mult.commute)

lemma below_actions:
  assumes "wf_concrete db" and "is_action db t" and "p \<in> set (below db a t)"
  shows "is_action db p"
  using assms root_path_actions [OF assms(1), of p t] in_set_dropD by (cases "p = t") (force simp: below_def)+

lemma derive_up_span:
  assumes "wf_concrete db" and "is_action db t"
  shows "unat (derive_up db (below db a t) w) = unat w div nat (span_size db a t)"
  using derive_up_unat [OF assms(1), of "below db a t" w] below_actions [OF assms]
  by (simp add: below_def span_size_def rev_map [symmetric])

lemma div_interval: "0 < m \<Longrightarrow> (j::nat) div m = c \<longleftrightarrow> c * m \<le> j \<and> j < (c + 1) * m"
  by (metis Suc_eq_plus1 div_le_mono div_less_iff_less_mult div_times_less_eq_dividend le_antisym less_Suc_eq_le less_or_eq_imp_le nonzero_mult_div_cancel_right not_less)

lemma enum_subrange_instances:
  assumes wf: "wf_concrete db" and t: "is_action db t" and a: "a \<in> set (root_path db t)"
    and fits: "(uint c + 1) * span_size db a t < 4294967296"
  shows "c * word_of_int (span_size db a t) \<le> j \<and> j < (c + 1) * word_of_int (span_size db a t) \<longleftrightarrow>
    derive_up db (below db a t) j = c"
proof -
  define m where "m = nat (span_size db a t)"
  have m: "0 < m" "span_size db a t = int m" using span_size_pos [OF wf t a] by (simp_all add: m_def)
  have "int ((unat c + 1) * m) < 4294967296" using fits m(2) by (simp add: algebra_simps)
  then have "(unat c + 1) * m < 4294967296" by (metis of_nat_less_iff of_nat_numeral)
  then have b: "(unat c + 1) * m < 2 ^ 32" by simp
  then have cm: "unat c * m < 2 ^ 32" by simp
  have w: "(word_of_int (span_size db a t) :: Instance) = word_of_nat m" by (simp add: m(2))
  have "unat (c * word_of_nat m) = unat (word_of_nat (unat c * m) :: Instance)" by simp
  then have "unat (c * word_of_nat m) = unat c * m" using cm by (simp only: unat_of_nat) simp
  moreover have "unat ((c + 1) * word_of_nat m) = unat (word_of_nat ((unat c + 1) * m) :: Instance)" by (simp add: algebra_simps)
  then have "unat ((c + 1) * word_of_nat m) = (unat c + 1) * m" using b by (simp only: unat_of_nat) simp
  ultimately have "c * word_of_nat m \<le> j \<and> j < (c + 1) * word_of_nat m \<longleftrightarrow> unat j div m = unat c"
    by (simp add: word_le_nat_alt word_less_nat_alt div_interval [OF m(1)])
  also have "\<dots> \<longleftrightarrow> derive_up db (below db a t) j = c"
    using derive_up_span [OF wf t, of a j] by (simp add: m_def [symmetric] word_unat_eq_iff)
  finally show ?thesis by (simp only: w)
qed
section \<open>The properties\<close>

definition sample_solution :: instruction where
  "sample_solution =
     Instr (RootInstruction (ContextVariable 0 None [7]) 0)
      [Instr (MonomorphicReferenceInstruction (ContextVariable 0 None [7]) (InstanceVariable 1 None 7))
        [Instr (ParentDerivationInstruction (InstanceVariable 1 None 7) (InstanceVariable 2 None 6))
          [Instr (StopOperation (InstanceVariable 2 None 6) 2 6) []]]]"

text \<open>C3. Evaluating an invocation solution that \<open>exec_ok\<close> admits makes exactly one call on the component interop and
  throws nothing, except that a polymorphic branch throws when the reference has none of the types it was
  compiled for. Admitted are the trees of executable instructions only, without a failure, elimination or prune
  instruction and without a write of a link, whose evaluation throws: every variable is assigned once on its
  path, before it is read; derivations lead to variables of actions; the instructions with one child have one; the children of a branch are cases of a
  concrete type; an enumeration has its return types and operations and its ranges stay within 32 bits. The
  tree of the actions is assumed to be well-formed and the dereferencing of a dimension, which the component
  supplies, to return.\<close>

theorem evaluate_calls_once:
  assumes "wf_concrete db" and "\<And>a d. \<exists>r. deref a d = Inr r"
    and "exec_ok db {v_addr v} (Instr (RootInstruction v m) cs)"
  shows "(\<exists>ev' c. Solution_evaluate db deref (Instr (RootInstruction v m) cs) ctx ev = Inr ev' \<and> calls ev' = calls ev @ [c]) \<or>
    Solution_evaluate db deref (Instr (RootInstruction v m) cs) ctx ev = Inl (RuntimeError ''Error handling needed here...'')"
proof -
  let ?ev = "ev\<lparr>m_variables := [v_addr v \<mapsto> ctx]\<rparr>"
  have "Solution_evaluate db deref (Instr (RootInstruction v m) cs) ctx ev =
      evaluate db deref (Instr (RootInstruction v m) cs) ?ev"
    by (simp add: Solution_evaluate_def setVarValue_def initialise_def)
  moreover have "calls_once ?ev (evaluate db deref (Instr (RootInstruction v m) cs) ?ev)"
    using assms by (intro evaluate_ok(1)) simp_all
  ultimately show ?thesis by (auto simp: calls_once_def split: sum.splits)
qed

theorem evaluate_calls_once_witness:
  "\<exists>ev' c. Solution_evaluate sample_db EGRuntime_dereferenceDimension sample_solution (mk_ref 9 7 1)
      \<lparr>m_variables = Map.empty, calls = []\<rparr> = Inr ev' \<and> calls ev' = [] @ [c]"
  using evaluate_calls_once [OF sample_db_facts(1), of EGRuntime_dereferenceDimension "ContextVariable 0 None [7]" 0
      "[Instr (MonomorphicReferenceInstruction (ContextVariable 0 None [7]) (InstanceVariable 1 None 7))
        [Instr (ParentDerivationInstruction (InstanceVariable 1 None 7) (InstanceVariable 2 None 6))
          [Instr (StopOperation (InstanceVariable 2 None 6) 2 6) []]]]" "mk_ref 9 7 1" "\<lparr>m_variables = Map.empty, calls = []\<rparr>"]
  by (simp add: sample_solution_def EGRuntime_dereferenceDimension_def instance_var_def sample_db_facts
      Solution_evaluate_def initialise_def setVarValue_def MonomorphicReference_evaluate_def getVarValue_def
      ParentDerivation_evaluate_ok interop_def)

text \<open>C13. The range that an enumeration passes to the interop for a target below the enumerated action
  holds exactly the instances of the target whose chain of parent derivations leads back to the
  instance in the context.\<close>

theorem enumeration_range_exact:
  assumes "wf_concrete db" and "is_action db t" and "a \<in> set (root_path db t)"
    and "(uint c + 1) * span_size db a t < 4294967296" and "span_size db a t < 2147483648"
  shows "\<exists>sr. enum_subrange db a c (RangeOperation v i t eRange) = Inr sr \<and> runtimeType sr = getIndex t \<and>
    (\<forall>j. sr_begin sr \<le> j \<and> j < sr_end sr \<longleftrightarrow> derive_up db (below db a t) j = c)"
proof -
  have "range_ok db a (RangeOperation v i t eRange)" using assms by simp
  from enum_subrange_ok [OF assms(1) this, of c] enum_subrange_instances [OF assms(1-4)]
  show ?thesis by simp
qed

theorem enumeration_range_exact_witness:
  "\<exists>sr. enum_subrange sample_db 6 3 (RangeOperation (InstanceVariable 4 None 7) 3 7 eRange) = Inr sr \<and> runtimeType sr = getIndex 7 \<and>
    (\<forall>j. sr_begin sr \<le> j \<and> j < sr_end sr \<longleftrightarrow> derive_up sample_db (below sample_db 6 7) j = 3)"
proof -
  have "span_size sample_db 6 7 = 4" by code_simp
  then show ?thesis by (intro enumeration_range_exact) (simp_all add: sample_db_facts)
qed

text \<open>With the evaluator of the runtime library, an invocation through a dimension reference operates
  on the reference it started from and not on the one that is stored in the dimension, whatever the
  dimension: \<open>EGRuntimeImpl::dereferenceDimension\<close> returns its argument.\<close>

theorem EGRuntime_dereference_keeps_reference:
  assumes "m_variables ev (v_addr i) = Some a" and "v_addr r \<notin> dom (m_variables ev)"
    and "v_addr t \<notin> dom (m_variables ev)" and "v_addr r \<noteq> v_addr t"
  shows "\<exists>vs. evaluate db EGRuntime_dereferenceDimension
      (Instr (DimensionReferenceReadInstruction i r d)
        [Instr (MonomorphicReferenceInstruction r t) [Instr (StopOperation t f c) []]]) ev =
    Inr (ev\<lparr>m_variables := vs, calls := calls ev @ [doStop a]\<rparr>)"
  using assms
  by (auto simp: DimensionReferenceRead_evaluate_def MonomorphicReference_evaluate_def getVarValue_def
      setVarValue_fresh EGRuntime_dereferenceDimension_def interop_def)

theorem EGRuntime_dereference_keeps_reference_witness:
  "\<exists>vs. evaluate sample_db EGRuntime_dereferenceDimension
      (Instr (DimensionReferenceReadInstruction (InstanceVariable 1 None 6) (DimensionReferenceVariable 2 None [7]) 8)
        [Instr (MonomorphicReferenceInstruction (DimensionReferenceVariable 2 None [7]) (InstanceVariable 3 None 7))
          [Instr (StopOperation (InstanceVariable 3 None 7) 3 7) []]])
      \<lparr>m_variables = [1 \<mapsto> mk_ref 5 6 1], calls = []\<rparr> =
    Inr (\<lparr>m_variables = [1 \<mapsto> mk_ref 5 6 1], calls = []\<rparr>\<lparr>m_variables := vs,
      calls := calls \<lparr>m_variables = [1 \<mapsto> mk_ref 5 6 1], calls = []\<rparr> @ [doStop (mk_ref 5 6 1)]\<rparr>)"
  by (rule EGRuntime_dereference_keeps_reference) simp_all

end
