(* ===== verification/OrderedMultimap.thy ===== *)
theory OrderedMultimap
  imports EGPrelude
begin

text \<open>
  The \<open>std::multimap\<close> and \<open>std::map\<close> of the C++ library, as lists in the order of iteration. Keys are
  compared through a projection \<open>key\<close> to a linear order, as the comparators of the code do. A multimap
  insertion goes behind the entries with an equivalent key; a map insertion with an equivalent key is
  ignored.
\<close>

fun mm_insert :: "('a \<Rightarrow> 'k :: linorder) \<Rightarrow> 'a \<Rightarrow> 'v \<Rightarrow> ('a \<times> 'v) list \<Rightarrow> ('a \<times> 'v) list" where
  "mm_insert key k v [] = [(k, v)]"
| "mm_insert key k v ((a, b) # m) =
     (if key k < key a then (k, v) # (a, b) # m else (a, b) # mm_insert key k v m)"

definition mm_lookup :: "('a \<Rightarrow> 'k :: linorder) \<Rightarrow> 'k \<Rightarrow> ('a \<times> 'v) list \<Rightarrow> 'v list" where
  "mm_lookup key s m = map snd (filter (\<lambda>e. key (fst e) = s) m)"

definition map_insert_new :: "('a \<Rightarrow> 'k :: linorder) \<Rightarrow> 'a \<Rightarrow> 'v \<Rightarrow> ('a \<times> 'v) list \<Rightarrow> ('a \<times> 'v) list" where
  "map_insert_new key k v m = (if mm_lookup key (key k) m = [] then mm_insert key k v m else m)"

definition mm_sorted :: "('a \<Rightarrow> 'k :: linorder) \<Rightarrow> ('a \<times> 'v) list \<Rightarrow> bool" where
  "mm_sorted key m = sorted (map (\<lambda>e. key (fst e)) m)"

lemma mm_lookup_Nil [simp]: "mm_lookup key s [] = []"
  by (simp add: mm_lookup_def)

lemma mm_lookup_Cons [simp]:
  "mm_lookup key s ((a, b) # m) = (if key a = s then b # mm_lookup key s m else mm_lookup key s m)"
  by (simp add: mm_lookup_def)

lemma mm_lookup_append [simp]: "mm_lookup key s (m @ m') = mm_lookup key s m @ mm_lookup key s m'"
  by (simp add: mm_lookup_def)

lemma mm_sorted_Nil [simp]: "mm_sorted key []"
  by (simp add: mm_sorted_def)

lemma mm_sorted_Cons [simp]: "mm_sorted key ((a, b) # m) \<longleftrightarrow> (\<forall>e \<in> set m. key a \<le> key (fst e)) \<and> mm_sorted key m"
  by (auto simp: mm_sorted_def)

lemma set_mm_insert [simp]: "set (mm_insert key k v m) = insert (k, v) (set m)"
  by (induction m) (auto split: if_splits)

lemma mm_insert_sorted [simp]: "mm_sorted key m \<Longrightarrow> mm_sorted key (mm_insert key k v m)"
proof (induction m)
  case (Cons e m)
  obtain a b where e: "e = (a, b)" by (cases e)
  show ?case
  proof (cases "key k < key a")
    case True
    then have "\<forall>x \<in> set m. key k \<le> key (fst x)" using Cons.prems e by (auto intro: order_trans [OF less_imp_le])
    then show ?thesis using True Cons.prems e by (simp add: less_imp_le)
  next
    case False
    then have "key a \<le> key k" by simp
    then show ?thesis using False Cons e by auto
  qed
qed simp

lemma mm_lookup_above: "(\<forall>e \<in> set m. s < key (fst e)) \<Longrightarrow> mm_lookup key s m = []"
  by (induction m) auto

lemma mm_lookup_insert:
  "mm_sorted key m \<Longrightarrow> mm_lookup key s (mm_insert key k v m) = mm_lookup key s m @ (if key k = s then [v] else [])"
proof (induction m)
  case (Cons e m)
  obtain a b where e: "e = (a, b)" by (cases e)
  show ?case
  proof (cases "key k < key a")
    case True
    then have "mm_lookup key (key k) (e # m) = []"
      using Cons.prems e by (intro mm_lookup_above) auto
    then show ?thesis using True e by auto
  next
    case False
    then show ?thesis using Cons e by auto
  qed
qed simp

lemma mm_lookup_filter: "mm_lookup key s m = map snd (filter (\<lambda>e. key (fst e) = s) m)"
  by (simp add: mm_lookup_def)

lemma mm_lookup_Nil_iff: "mm_lookup key s m = [] \<longleftrightarrow> (\<forall>e \<in> set m. key (fst e) \<noteq> s)"
  by (induction m) (auto split: if_splits)

lemma map_insert_new_sorted [simp]: "mm_sorted key m \<Longrightarrow> mm_sorted key (map_insert_new key k v m)"
  by (simp add: map_insert_new_def)

lemma mm_lookup_map_insert_new:
  "mm_sorted key m \<Longrightarrow> mm_lookup key s (map_insert_new key k v m) =
     (if key k = s \<and> mm_lookup key s m = [] then [v] else mm_lookup key s m)"
  by (auto simp: map_insert_new_def mm_lookup_insert)

text \<open>In a sorted list the entries of the first key come first.\<close>

lemma takeWhile_first_key:
  "mm_sorted key ((a, b) # m) \<Longrightarrow>
   takeWhile (\<lambda>e. \<not> key a < key (fst e)) m = filter (\<lambda>e. key (fst e) = key a) m \<and>
   dropWhile (\<lambda>e. \<not> key a < key (fst e)) m = filter (\<lambda>e. key (fst e) \<noteq> key a) m"
proof (induction m)
  case (Cons e m)
  obtain x y where e: "e = (x, y)" by (cases e)
  show ?case
  proof (cases "key a < key x")
    case True
    then have "\<forall>z \<in> set m. key (fst z) \<noteq> key a" using Cons.prems e by auto
    then have "filter (\<lambda>z. key (fst z) = key a) m = []" "filter (\<lambda>z. key (fst z) \<noteq> key a) m = m"
      by (simp_all add: filter_empty_conv)
    then show ?thesis using True e by auto
  next
    case False
    then have "key x = key a" using Cons.prems e by (simp add: order_antisym)
    then show ?thesis using Cons e by simp
  qed
qed simp

end
