(* ===== verification/Derivation.thy ===== *)
theory Derivation
  imports EGObjects
begin

text \<open>
  The derivation analysis of \<open>src/eg/derivation.cpp\<close>: which concrete elements are instances of an
  interface element, and which interface and concrete types are compatible with a context, by
  inheritance and through links. A \<open>std::multimap\<close> whose key order is the object index is the list of
  its pairs in the order of insertion, since a lookup gives the values of one key in that order.
\<close>

section \<open>The analysis object\<close>

record compatibility =
  staticCompatibleTypes :: "idx set"
  staticLinkCompatibleTypes :: "idx set"
  dynamicCompatibleTypes :: "idx set"
  dynamicCompatibleFromLinkTypes :: "idx set"
  dynamicCompatibleToLinkTypes :: "idx set"

definition no_compatibility :: compatibility where
  "no_compatibility =
     \<lparr>staticCompatibleTypes = {}, staticLinkCompatibleTypes = {}, dynamicCompatibleTypes = {},
      dynamicCompatibleFromLinkTypes = {}, dynamicCompatibleToLinkTypes = {}\<rparr>"

record derivation_analysis =
  m_compatibility :: "idx \<rightharpoonup> compatibility"
  m_instanceMap :: "(idx \<times> idx) list"
  m_inheritanceMap :: "(idx \<times> idx) list"

definition inh :: "database \<Rightarrow> idx \<Rightarrow> inheritance_node result" where
  "inh db n = of_option UndefinedBehaviour (inheritance_at db n)"

section \<open>Compatibility by inheritance\<close>

text \<open>The loop from a node to the root of its inheritance tree.\<close>

fun compatible_up :: "nat \<Rightarrow> database \<Rightarrow> idx option \<Rightarrow> compatibility \<Rightarrow> compatibility result" where
  "compatible_up 0 db p c = Inl OutOfFuel"
| "compatible_up (Suc k) db None c = Inr c"
| "compatible_up (Suc k) db (Some n) c =
     bindR (inh db n) (\<lambda>N. compatible_up k db (in_parent N)
       (c\<lparr>staticCompatibleTypes := insert (in_context N) (staticCompatibleTypes c),
          dynamicCompatibleTypes := insert (in_rootConcreteAction N) (dynamicCompatibleTypes c)\<rparr>))"

fun getStaticDerived :: "nat \<Rightarrow> database \<Rightarrow> idx \<Rightarrow> idx set \<Rightarrow> idx set result" where
  "getStaticDerived 0 db n derived = Inl OutOfFuel"
| "getStaticDerived (Suc k) db n derived =
     bindR (inh db n) (\<lambda>N. foldR (getStaticDerived k db) (in_children N) (insert (in_context N) derived))"

fun getDynamicDerived :: "nat \<Rightarrow> database \<Rightarrow> idx \<Rightarrow> idx set \<Rightarrow> idx set result" where
  "getDynamicDerived 0 db n derived = Inl OutOfFuel"
| "getDynamicDerived (Suc k) db n derived =
     bindR (inh db n) (\<lambda>N. foldR (getDynamicDerived k db) (in_children N) (insert (in_rootConcreteAction N) derived))"

definition tree_fuel :: "database \<Rightarrow> nat" where
  "tree_fuel db = Suc (Suc (length db))"

text \<open>The body of the loop over the inheritance nodes, for one interface action.\<close>

definition node_compatibility :: "database \<Rightarrow> idx \<Rightarrow> idx \<Rightarrow> compatibility \<Rightarrow> compatibility result" where
  "node_compatibility db a n c =
     bindR (inh db n) (\<lambda>N.
       if in_context N = a then
         bindR (compatible_up (tree_fuel db) db (Some n) c) (\<lambda>c.
         bindR (getStaticDerived (tree_fuel db) db n (staticCompatibleTypes c)) (\<lambda>s.
         bindR (getDynamicDerived (tree_fuel db) db n (dynamicCompatibleTypes c)) (\<lambda>d.
           Inr (c\<lparr>staticCompatibleTypes := s, dynamicCompatibleTypes := d\<rparr>))))
       else Inr c)"

definition map_insert :: "'a \<Rightarrow> 'b \<Rightarrow> ('a \<rightharpoonup> 'b) \<Rightarrow> ('a \<rightharpoonup> 'b)" where
  "map_insert k v m = (if m k = None then m(k \<mapsto> v) else m)"

definition analyseCompatibility :: "database \<Rightarrow> idx list \<Rightarrow> idx list \<Rightarrow> derivation_analysis \<Rightarrow> derivation_analysis result" where
  "analyseCompatibility db interfaceActions inheritanceNodes da =
     foldR (\<lambda>a da.
       bindR (foldR (node_compatibility db a) inheritanceNodes no_compatibility) (\<lambda>c.
         Inr (da\<lparr>m_compatibility := map_insert a c (m_compatibility da)\<rparr>))) interfaceActions da"

section \<open>Compatibility through links\<close>

text \<open>\<open>LinkGroup::getLinkTarget\<close>.\<close>

definition getLinkTarget :: "database \<Rightarrow> idx \<Rightarrow> idx result" where
  "getLinkTarget db l =
     (case interface_at db l of
        None \<Rightarrow> Inl UndefinedBehaviour
      | Some e \<Rightarrow> bindR (verify (length (if_baseContexts e) = 1)) (\<lambda>_. Inr (hd (if_baseContexts e))))"

definition getCompatibility :: "idx \<Rightarrow> derivation_analysis \<Rightarrow> compatibility result" where
  "getCompatibility a da = of_option (RuntimeError ''verify'') (m_compatibility da a)"

definition update_compatibility :: "idx \<Rightarrow> (compatibility \<Rightarrow> compatibility) \<Rightarrow> derivation_analysis \<Rightarrow> derivation_analysis result" where
  "update_compatibility a f da =
     bindR (getCompatibility a da) (\<lambda>c. Inr (da\<lparr>m_compatibility := (m_compatibility da)(a \<mapsto> f c)\<rparr>))"

text \<open>The body of the loop over the links of a group.\<close>

definition link_compatibility :: "database \<Rightarrow> idx \<Rightarrow> derivation_analysis \<Rightarrow> derivation_analysis result" where
  "link_compatibility db l da =
     bindR (getCompatibility l da) (\<lambda>lc.
     bindR (getLinkTarget db l) (\<lambda>target.
     bindR (getCompatibility target da) (\<lambda>tc.
     bindR (update_compatibility l
       (\<lambda>c. c\<lparr>staticLinkCompatibleTypes := staticLinkCompatibleTypes c \<union> staticCompatibleTypes tc,
              dynamicCompatibleToLinkTypes := dynamicCompatibleToLinkTypes c \<union> dynamicCompatibleTypes tc\<rparr>) da) (\<lambda>da.
       foldR (\<lambda>t. update_compatibility t
         (\<lambda>c. c\<lparr>staticLinkCompatibleTypes := insert l (staticLinkCompatibleTypes c),
                dynamicCompatibleFromLinkTypes := dynamicCompatibleFromLinkTypes c \<union> dynamicCompatibleTypes lc\<rparr>))
         (sorted_list_of_set (staticCompatibleTypes tc)) da))))"

definition analyseLinkCompatibility :: "database \<Rightarrow> idx list list \<Rightarrow> derivation_analysis \<Rightarrow> derivation_analysis result" where
  "analyseLinkCompatibility db linkGroups da =
     bindR (foldR (\<lambda>links da. foldR (link_compatibility db) links da) linkGroups da) (\<lambda>da.
       Inr (da\<lparr>m_compatibility := \<lambda>a. map_option
         (\<lambda>c. c\<lparr>staticLinkCompatibleTypes := staticLinkCompatibleTypes c \<union> staticCompatibleTypes c\<rparr>)
         (m_compatibility da a)\<rparr>))"

section \<open>Instances\<close>

definition getInstances :: "database \<Rightarrow> derivation_analysis \<Rightarrow> idx \<Rightarrow> bool \<Rightarrow> idx list result" where
  "getInstances db da e bDeriving =
     (if bDeriving \<and> context_at db e \<noteq> None then
        mapR (\<lambda>kn. bindR (inh db (snd kn)) (\<lambda>N. Inr (in_rootConcreteAction N)))
          (filter (\<lambda>kn. fst kn = e) (m_inheritanceMap da))
      else Inr (map snd (filter (\<lambda>kn. fst kn = e) (m_instanceMap da))))"

section \<open>Well-formed inheritance trees\<close>

text \<open>The session constructs an inheritance node before the nodes of its base contexts and links both
  ways; the root concrete action is handed down.\<close>

definition wf_inheritance :: "database \<Rightarrow> bool" where
  "wf_inheritance db \<longleftrightarrow>
     (\<forall>n < length db.
        case db ! n of
          InheritanceNode N \<Rightarrow>
            (case in_parent N of None \<Rightarrow> True
             | Some p \<Rightarrow> p < n \<and> (case inheritance_at db p of None \<Rightarrow> False | Some P \<Rightarrow> n \<in> set (in_children P))) \<and>
            (\<forall>c \<in> set (in_children N). n < c \<and>
               (case inheritance_at db c of None \<Rightarrow> False
                | Some C \<Rightarrow> in_parent C = Some n \<and> in_rootConcreteAction C = in_rootConcreteAction N))
        | _ \<Rightarrow> True)"

lemma inheritance_at_Some: "inheritance_at db i = Some N \<longleftrightarrow> i < length db \<and> db ! i = InheritanceNode N"
  by (auto simp: inheritance_at_def nth_opt_def split: indexed_object.splits)

lemma inh_Inr [simp]: "inh db n = Inr N \<longleftrightarrow> inheritance_at db n = Some N"
  by (simp add: inh_def)

lemma wf_inheritance_at:
  assumes "wf_inheritance db" and "inheritance_at db n = Some N"
  shows "(case in_parent N of None \<Rightarrow> True
      | Some p \<Rightarrow> p < n \<and> (case inheritance_at db p of None \<Rightarrow> False | Some P \<Rightarrow> n \<in> set (in_children P))) \<and>
    (\<forall>c \<in> set (in_children N). n < c \<and>
      (case inheritance_at db c of None \<Rightarrow> False
       | Some C \<Rightarrow> in_parent C = Some n \<and> in_rootConcreteAction C = in_rootConcreteAction N))"
proof -
  have "n < length db" "db ! n = InheritanceNode N" using assms(2) by (simp_all add: inheritance_at_Some)
  with assms(1) [unfolded wf_inheritance_def, THEN spec, of n] show ?thesis by simp
qed

lemma wf_inheritance_child:
  assumes "wf_inheritance db" and "inheritance_at db n = Some N" and "c \<in> set (in_children N)"
  shows "n < c" and "\<exists>C. inheritance_at db c = Some C \<and> in_parent C = Some n \<and> in_rootConcreteAction C = in_rootConcreteAction N"
  using wf_inheritance_at [OF assms(1,2)] assms(3) by (auto split: option.splits)

lemma wf_inheritance_parent:
  assumes "wf_inheritance db" and "inheritance_at db n = Some N" and "in_parent N = Some p"
  shows "p < n" and "\<exists>P. inheritance_at db p = Some P \<and> n \<in> set (in_children P)"
  using wf_inheritance_at [OF assms(1,2)] assms(3) by (auto split: option.splits)

definition inh_parent :: "database \<Rightarrow> idx \<Rightarrow> idx \<Rightarrow> bool" where
  "inh_parent db p c \<longleftrightarrow> (\<exists>C. inheritance_at db c = Some C \<and> in_parent C = Some p)"

text \<open>The node \<open>m\<close> is \<open>n\<close> or stands above it.\<close>

definition inherits :: "database \<Rightarrow> idx \<Rightarrow> idx \<Rightarrow> bool" where
  "inherits db m n \<longleftrightarrow> (inh_parent db)\<^sup>*\<^sup>* m n"

definition node_context :: "database \<Rightarrow> idx \<Rightarrow> idx" where
  "node_context db n = (case inheritance_at db n of Some N \<Rightarrow> in_context N | None \<Rightarrow> 0)"

definition node_root :: "database \<Rightarrow> idx \<Rightarrow> idx" where
  "node_root db n = (case inheritance_at db n of Some N \<Rightarrow> in_rootConcreteAction N | None \<Rightarrow> 0)"

lemma inherits_refl [simp]: "inherits db n n"
  by (simp add: inherits_def)

lemma inherits_up:
  assumes "inheritance_at db n = Some N"
  shows "{m. inherits db m n} = insert n (case in_parent N of None \<Rightarrow> {} | Some p \<Rightarrow> {m. inherits db m p})"
proof -
  have "inherits db m n \<longleftrightarrow> m = n \<or> (\<exists>p. in_parent N = Some p \<and> inherits db m p)" for m
    using assms unfolding inherits_def
    by (subst rtranclp.simps) (auto simp: inh_parent_def)
  then show ?thesis by (auto split: option.splits)
qed

lemma inherits_down:
  assumes "wf_inheritance db" and "inheritance_at db n = Some N"
  shows "{m. inherits db n m} = insert n (\<Union>c \<in> set (in_children N). {m. inherits db c m})"
proof -
  have child: "inh_parent db n c \<longleftrightarrow> c \<in> set (in_children N)" for c
    using wf_inheritance_child [OF assms] wf_inheritance_parent [OF assms(1)] assms(2)
    by (fastforce simp: inh_parent_def)
  have "inherits db n m \<longleftrightarrow> n = m \<or> (\<exists>c. inh_parent db n c \<and> inherits db c m)" for m
    unfolding inherits_def by (metis converse_rtranclp_into_rtranclp converse_rtranclpE rtranclp.rtrancl_refl)
  then show ?thesis by (auto simp: child)
qed

lemma compatible_up_inherits:
  assumes wf: "wf_inheritance db"
  shows "inheritance_at db n = Some N \<Longrightarrow> Suc n < k \<Longrightarrow>
    compatible_up k db (Some n) c = Inr (c\<lparr>
      staticCompatibleTypes := staticCompatibleTypes c \<union> node_context db ` {m. inherits db m n},
      dynamicCompatibleTypes := dynamicCompatibleTypes c \<union> node_root db ` {m. inherits db m n}\<rparr>)"
proof (induction n arbitrary: N k c rule: less_induct)
  case (less n)
  obtain j where k: "k = Suc j" using less.prems by (cases k) auto
  note ctx = less.prems(1) inherits_up [OF less.prems(1)]
  show ?case
  proof (cases "in_parent N")
    case None
    with ctx k less.prems(2) show ?thesis
      by (cases j) (simp_all add: inh_def node_context_def node_root_def)
  next
    case (Some p)
    from wf_inheritance_parent [OF wf less.prems(1) Some] obtain P where P: "p < n" "inheritance_at db p = Some P" by blast
    have "Suc p < j" using P less.prems k by simp
    from less.IH [OF P this] ctx k Some show ?thesis
      by (simp add: inh_def node_context_def node_root_def)
  qed
qed

lemma foldR_collect:
  assumes "\<And>x S. x \<in> set xs \<Longrightarrow> f x S = Inr (S \<union> g x)"
  shows "foldR f xs S = Inr (S \<union> (\<Union>x \<in> set xs. g x))"
  using assms
proof (induction xs arbitrary: S)
  case (Cons x xs)
  then show ?case by (simp add: Un_assoc)
qed simp

lemma derived_inherits:
  assumes wf: "wf_inheritance db"
  shows "inheritance_at db n = Some N \<Longrightarrow> length db < n + k \<Longrightarrow>
      getStaticDerived k db n S = Inr (S \<union> node_context db ` {m. inherits db n m})"
    and "inheritance_at db n = Some N \<Longrightarrow> length db < n + k \<Longrightarrow>
      getDynamicDerived k db n S = Inr (S \<union> node_root db ` {m. inherits db n m})"
proof (induction k arbitrary: n N S)
  case 0
  {
    case 1
    then show ?case by (simp add: inheritance_at_Some)
  next
    case 2
    then show ?case by (simp add: inheritance_at_Some)
  }
next
  case (Suc k)
  {
    case 1
    have "getStaticDerived k db c T = Inr (T \<union> node_context db ` {m. inherits db c m})" if "c \<in> set (in_children N)" for c T
      using Suc.IH(1) wf_inheritance_child [OF wf 1(1) that] 1(2) by fastforce
    then have "foldR (getStaticDerived k db) (in_children N) (insert (in_context N) S) =
        Inr (insert (in_context N) S \<union> (\<Union>c \<in> set (in_children N). node_context db ` {m. inherits db c m}))"
      by (rule foldR_collect)
    then show ?case
      using 1(1) by (simp add: inh_def inherits_down [OF wf 1(1)] image_UN node_context_def)
  next
    case 2
    have "getDynamicDerived k db c T = Inr (T \<union> node_root db ` {m. inherits db c m})" if "c \<in> set (in_children N)" for c T
      using Suc.IH(2) wf_inheritance_child [OF wf 2(1) that] 2(2) by fastforce
    then have "foldR (getDynamicDerived k db) (in_children N) (insert (in_rootConcreteAction N) S) =
        Inr (insert (in_rootConcreteAction N) S \<union> (\<Union>c \<in> set (in_children N). node_root db ` {m. inherits db c m}))"
      by (rule foldR_collect)
    then show ?case
      using 2(1) by (simp add: inh_def inherits_down [OF wf 2(1)] image_UN node_root_def)
  }
qed

text \<open>The nodes on one line with a node of the list that is for the context \<open>a\<close>.\<close>

definition related :: "database \<Rightarrow> idx list \<Rightarrow> idx \<Rightarrow> idx set" where
  "related db nodes a =
     {m. \<exists>n \<in> set nodes. node_context db n = a \<and> (inherits db m n \<or> inherits db n m)}"

lemma node_compatibility_related:
  assumes wf: "wf_inheritance db" and n: "inheritance_at db n = Some N"
  shows "node_compatibility db a n c = Inr (c\<lparr>
      staticCompatibleTypes := staticCompatibleTypes c \<union> node_context db ` related db [n] a,
      dynamicCompatibleTypes := dynamicCompatibleTypes c \<union> node_root db ` related db [n] a\<rparr>)"
proof (cases "in_context N = a")
  case True
  have len: "n < length db" using n by (simp add: inheritance_at_Some)
  have "related db [n] a = {m. inherits db m n} \<union> {m. inherits db n m}"
    using True n by (auto simp: related_def node_context_def)
  moreover have "Suc n < tree_fuel db" "length db < n + tree_fuel db" using len by (simp_all add: tree_fuel_def)
  ultimately show ?thesis
    using True n compatible_up_inherits [OF wf n] derived_inherits [OF wf n]
    by (simp add: node_compatibility_def inh_def Un_assoc image_Un)
next
  case False
  then have "related db [n] a = {}" using n by (simp add: related_def node_context_def)
  then show ?thesis using False n by (simp add: node_compatibility_def inh_def)
qed

lemma foldR_node_compatibility:
  assumes wf: "wf_inheritance db"
  shows "(\<forall>n \<in> set nodes. inheritance_at db n \<noteq> None) \<Longrightarrow>
    foldR (node_compatibility db a) nodes c = Inr (c\<lparr>
      staticCompatibleTypes := staticCompatibleTypes c \<union> node_context db ` related db nodes a,
      dynamicCompatibleTypes := dynamicCompatibleTypes c \<union> node_root db ` related db nodes a\<rparr>)"
proof (induction nodes arbitrary: c)
  case Nil
  then show ?case by (simp add: related_def)
next
  case (Cons n nodes)
  then obtain N where n: "inheritance_at db n = Some N" by auto
  have r: "related db (n # nodes) a = related db [n] a \<union> related db nodes a" by (auto simp: related_def)
  show ?case using Cons by (simp add: node_compatibility_related [OF wf n] r Un_assoc image_Un)
qed

lemma related_exists: "inherits db m n \<Longrightarrow> inheritance_at db n \<noteq> None \<Longrightarrow> wf_inheritance db \<Longrightarrow> inheritance_at db m \<noteq> None"
  unfolding inherits_def
proof (induction rule: converse_rtranclp_induct)
  case base
  then show ?case by simp
next
  case (step y z)
  then obtain C where "inheritance_at db z = Some C" "in_parent C = Some y" by (auto simp: inh_parent_def)
  from wf_inheritance_parent [OF step.prems(2) this] show ?case by auto
qed

lemma related_below_exists: "inherits db n m \<Longrightarrow> inheritance_at db n \<noteq> None \<Longrightarrow> inheritance_at db m \<noteq> None"
  unfolding inherits_def by (induction rule: rtranclp_induct) (auto simp: inh_parent_def)

lemma related_sym:
  assumes "wf_inheritance db" and "\<And>n. n \<in> set nodes \<longleftrightarrow> inheritance_at db n \<noteq> None"
    and "b \<in> node_context db ` related db nodes a"
  shows "a \<in> node_context db ` related db nodes b"
proof -
  from assms(3) obtain m n where m: "b = node_context db m" "n \<in> set nodes" "node_context db n = a"
    "inherits db m n \<or> inherits db n m" by (auto simp: related_def)
  then have "m \<in> set nodes" using assms(1,2) related_exists related_below_exists by metis
  with m have "n \<in> related db nodes b" by (auto simp: related_def)
  with m(3) show ?thesis by blast
qed

definition inheritance_compatibility :: "database \<Rightarrow> idx list \<Rightarrow> idx \<Rightarrow> compatibility" where
  "inheritance_compatibility db nodes a = no_compatibility\<lparr>
     staticCompatibleTypes := node_context db ` related db nodes a,
     dynamicCompatibleTypes := node_root db ` related db nodes a\<rparr>"

lemma analyseCompatibility_entries:
  assumes wf: "wf_inheritance db" and nodes: "\<forall>n \<in> set nodes. inheritance_at db n \<noteq> None"
  shows "analyseCompatibility db actions nodes da = Inr (da\<lparr>m_compatibility := \<lambda>a.
      if m_compatibility da a = None \<and> a \<in> set actions then Some (inheritance_compatibility db nodes a)
      else m_compatibility da a\<rparr>)"
proof (induction actions arbitrary: da)
  case Nil
  then show ?case by (simp add: analyseCompatibility_def)
next
  case (Cons x actions)
  have "foldR (node_compatibility db x) nodes no_compatibility = Inr (inheritance_compatibility db nodes x)"
    using foldR_node_compatibility [OF wf nodes]
    by (simp add: inheritance_compatibility_def no_compatibility_def)
  then have "analyseCompatibility db (x # actions) nodes da = analyseCompatibility db actions nodes
      (da\<lparr>m_compatibility := map_insert x (inheritance_compatibility db nodes x) (m_compatibility da)\<rparr>)"
    by (simp add: analyseCompatibility_def)
  also have "\<dots> = Inr (da\<lparr>m_compatibility := \<lambda>a.
      if m_compatibility da a = None \<and> a \<in> set (x # actions) then Some (inheritance_compatibility db nodes a)
      else m_compatibility da a\<rparr>)"
  proof -
    let ?m = "map_insert x (inheritance_compatibility db nodes x) (m_compatibility da)"
    have "(\<lambda>a. if ?m a = None \<and> a \<in> set actions then Some (inheritance_compatibility db nodes a) else ?m a) =
        (\<lambda>a. if m_compatibility da a = None \<and> a \<in> set (x # actions) then Some (inheritance_compatibility db nodes a)
          else m_compatibility da a)"
      by (rule ext) (simp add: map_insert_def)
    then show ?thesis unfolding Cons.IH by (simp cong: if_cong)
  qed
  finally show ?case .
qed

section \<open>Links\<close>

text \<open>What a step over the links leaves alone, and what it only adds to.\<close>

definition compat_extends :: "compatibility \<Rightarrow> compatibility \<Rightarrow> bool" where
  "compat_extends c c' \<longleftrightarrow>
     staticCompatibleTypes c' = staticCompatibleTypes c \<and> dynamicCompatibleTypes c' = dynamicCompatibleTypes c \<and>
     staticLinkCompatibleTypes c \<subseteq> staticLinkCompatibleTypes c' \<and>
     dynamicCompatibleFromLinkTypes c \<subseteq> dynamicCompatibleFromLinkTypes c' \<and>
     dynamicCompatibleToLinkTypes c \<subseteq> dynamicCompatibleToLinkTypes c'"

definition extends :: "derivation_analysis \<Rightarrow> derivation_analysis \<Rightarrow> bool" where
  "extends da da' \<longleftrightarrow> (\<forall>a. rel_option compat_extends (m_compatibility da a) (m_compatibility da' a))"

lemma compat_extends_refl [simp]: "compat_extends c c"
  by (simp add: compat_extends_def)

lemma compat_extends_trans: "compat_extends a b \<Longrightarrow> compat_extends b c \<Longrightarrow> compat_extends a c"
  by (auto simp: compat_extends_def)

lemma extends_refl [simp]: "extends da da"
  by (simp add: extends_def option.rel_refl)

lemma rel_option_trans: "rel_option R x y \<Longrightarrow> rel_option R y z \<Longrightarrow> (\<And>a b c. R a b \<Longrightarrow> R b c \<Longrightarrow> R a c) \<Longrightarrow> rel_option R x z"
  by (cases x; cases y; cases z) auto

lemma extends_trans: "extends da da' \<Longrightarrow> extends da' da'' \<Longrightarrow> extends da da''"
  unfolding extends_def using rel_option_trans compat_extends_trans by metis

lemma extendsD: "extends da da' \<Longrightarrow> m_compatibility da a = Some c \<Longrightarrow> \<exists>c'. m_compatibility da' a = Some c' \<and> compat_extends c c'"
  unfolding extends_def using option_rel_Some1 by metis

lemma extends_dom: "extends da da' \<Longrightarrow> dom (m_compatibility da') = dom (m_compatibility da)"
proof -
  assume e: "extends da da'"
  have "m_compatibility da' a = None \<longleftrightarrow> m_compatibility da a = None" for a
    using e [unfolded extends_def, THEN spec, of a] by (cases "m_compatibility da a"; cases "m_compatibility da' a") auto
  then show ?thesis by (auto simp: dom_def)
qed

definition grows :: "(compatibility \<Rightarrow> compatibility) \<Rightarrow> bool" where
  "grows f \<longleftrightarrow> (\<forall>c. compat_extends c (f c))"

lemma update_compatibility_extends:
  assumes "m_compatibility da a = Some c" and "grows f"
  obtains da' where "update_compatibility a f da = Inr da'" and "extends da da'"
    and "m_compatibility da' a = Some (f c)"
proof
  show "update_compatibility a f da = Inr (da\<lparr>m_compatibility := (m_compatibility da)(a \<mapsto> f c)\<rparr>)"
    using assms by (simp add: update_compatibility_def getCompatibility_def)
  show "extends da (da\<lparr>m_compatibility := (m_compatibility da)(a \<mapsto> f c)\<rparr>)"
    using assms by (auto simp: extends_def grows_def option.rel_refl)
qed simp

lemma foldR_update_extends:
  assumes "grows f" and "\<And>c. P (f c)" and "\<And>c c'. P c \<Longrightarrow> compat_extends c c' \<Longrightarrow> P c'"
  shows "set ts \<subseteq> dom (m_compatibility da) \<Longrightarrow>
    \<exists>da'. foldR (\<lambda>t. update_compatibility t f) ts da = Inr da' \<and> extends da da' \<and>
      (\<forall>t \<in> set ts. \<exists>c. m_compatibility da' t = Some c \<and> P c)"
proof (induction ts arbitrary: da)
  case (Cons t ts)
  then obtain c where c: "m_compatibility da t = Some c" by auto
  obtain da1 where da1: "update_compatibility t f da = Inr da1" "extends da da1" "m_compatibility da1 t = Some (f c)"
    by (rule update_compatibility_extends [OF c assms(1)])
  have "set ts \<subseteq> dom (m_compatibility da1)" using Cons.prems extends_dom [OF da1(2)] by simp
  from Cons.IH [OF this] obtain da2 where da2: "foldR (\<lambda>t. update_compatibility t f) ts da1 = Inr da2"
    "extends da1 da2" "\<forall>t \<in> set ts. \<exists>c. m_compatibility da2 t = Some c \<and> P c" by blast
  from extendsD [OF da2(2) da1(3)] obtain c2 where "m_compatibility da2 t = Some c2" "P c2"
    using assms(2,3) by blast
  moreover have "extends da da2" using extends_trans da1(2) da2(2) by blast
  ultimately show ?case using da1(1) da2 by simp
qed simp

text \<open>A link and a type that is compatible with its target convert to each other.\<close>

definition link_converts :: "database \<Rightarrow> idx \<Rightarrow> derivation_analysis \<Rightarrow> bool" where
  "link_converts db l da \<longleftrightarrow>
     (\<exists>t lc tc. getLinkTarget db l = Inr t \<and> m_compatibility da l = Some lc \<and> m_compatibility da t = Some tc \<and>
        staticCompatibleTypes tc \<subseteq> staticLinkCompatibleTypes lc \<and>
        dynamicCompatibleTypes tc \<subseteq> dynamicCompatibleToLinkTypes lc \<and>
        (\<forall>x \<in> staticCompatibleTypes tc. \<exists>xc. m_compatibility da x = Some xc \<and> l \<in> staticLinkCompatibleTypes xc \<and>
           dynamicCompatibleTypes lc \<subseteq> dynamicCompatibleFromLinkTypes xc))"

lemma link_converts_extends:
  assumes "link_converts db l da" and ext: "extends da da'"
  shows "link_converts db l da'"
proof -
  from assms(1) obtain t lc tc where t: "getLinkTarget db l = Inr t" and lc: "m_compatibility da l = Some lc"
    and tc: "m_compatibility da t = Some tc" "staticCompatibleTypes tc \<subseteq> staticLinkCompatibleTypes lc"
      "dynamicCompatibleTypes tc \<subseteq> dynamicCompatibleToLinkTypes lc"
    and x: "\<And>x. x \<in> staticCompatibleTypes tc \<Longrightarrow> \<exists>xc. m_compatibility da x = Some xc \<and>
      l \<in> staticLinkCompatibleTypes xc \<and> dynamicCompatibleTypes lc \<subseteq> dynamicCompatibleFromLinkTypes xc"
    by (auto simp: link_converts_def)
  from extendsD [OF ext lc] obtain lc' where lc': "m_compatibility da' l = Some lc'" "compat_extends lc lc'" by blast
  from extendsD [OF ext tc(1)] obtain tc' where tc': "m_compatibility da' t = Some tc'" "compat_extends tc tc'" by blast
  have "\<exists>xc. m_compatibility da' x = Some xc \<and> l \<in> staticLinkCompatibleTypes xc \<and>
      dynamicCompatibleTypes lc' \<subseteq> dynamicCompatibleFromLinkTypes xc" if "x \<in> staticCompatibleTypes tc'" for x
  proof -
    have "x \<in> staticCompatibleTypes tc" using that tc'(2) by (simp add: compat_extends_def)
    from x [OF this] obtain xc where xc: "m_compatibility da x = Some xc" "l \<in> staticLinkCompatibleTypes xc"
      "dynamicCompatibleTypes lc \<subseteq> dynamicCompatibleFromLinkTypes xc" by blast
    from extendsD [OF ext xc(1)] xc lc'(2) show ?thesis by (auto simp: compat_extends_def)
  qed
  with t lc' tc' tc show ?thesis by (auto simp: link_converts_def compat_extends_def)
qed

text \<open>The entries that the analysis of a link looks up.\<close>

definition link_ready :: "database \<Rightarrow> idx \<Rightarrow> derivation_analysis \<Rightarrow> bool" where
  "link_ready db l da \<longleftrightarrow> (\<exists>t tc. getLinkTarget db l = Inr t \<and> l \<in> dom (m_compatibility da) \<and>
     m_compatibility da t = Some tc \<and> finite (staticCompatibleTypes tc) \<and>
     staticCompatibleTypes tc \<subseteq> dom (m_compatibility da))"

lemma link_ready_extends:
  assumes "link_ready db l da" and ext: "extends da da'"
  shows "link_ready db l da'"
proof -
  from assms(1) obtain t tc where t: "getLinkTarget db l = Inr t" "l \<in> dom (m_compatibility da)"
    "m_compatibility da t = Some tc" "finite (staticCompatibleTypes tc)" "staticCompatibleTypes tc \<subseteq> dom (m_compatibility da)"
    by (auto simp: link_ready_def)
  from extendsD [OF ext t(3)] obtain tc' where tc': "m_compatibility da' t = Some tc'"
    "staticCompatibleTypes tc' = staticCompatibleTypes tc"
    by (auto simp: compat_extends_def)
  with t extends_dom [OF ext] show ?thesis unfolding link_ready_def by simp
qed

lemma link_compatibility_converts:
  assumes "link_ready db l da"
  shows "\<exists>da'. link_compatibility db l da = Inr da' \<and> extends da da' \<and> link_converts db l da'"
proof -
  from assms obtain t lc tc where t: "getLinkTarget db l = Inr t" and lc: "m_compatibility da l = Some lc"
    and tc: "m_compatibility da t = Some tc" "finite (staticCompatibleTypes tc)"
    "staticCompatibleTypes tc \<subseteq> dom (m_compatibility da)"
    by (auto simp: link_ready_def)
  define f where "f = (\<lambda>c :: compatibility. c\<lparr>staticLinkCompatibleTypes := staticLinkCompatibleTypes c \<union> staticCompatibleTypes tc,
    dynamicCompatibleToLinkTypes := dynamicCompatibleToLinkTypes c \<union> dynamicCompatibleTypes tc\<rparr>)"
  define g where "g = (\<lambda>c :: compatibility. c\<lparr>staticLinkCompatibleTypes := insert l (staticLinkCompatibleTypes c),
    dynamicCompatibleFromLinkTypes := dynamicCompatibleFromLinkTypes c \<union> dynamicCompatibleTypes lc\<rparr>)"
  have gr: "grows f" "grows g" by (auto simp: grows_def compat_extends_def f_def g_def)
  obtain da1 where da1: "update_compatibility l f da = Inr da1" "extends da da1" "m_compatibility da1 l = Some (f lc)"
    by (rule update_compatibility_extends [OF lc gr(1)])
  let ?P = "\<lambda>c. l \<in> staticLinkCompatibleTypes c \<and> dynamicCompatibleTypes lc \<subseteq> dynamicCompatibleFromLinkTypes c"
  have gP: "?P (g c)" for c by (simp add: g_def)
  have st: "?P c'" if "?P c" "compat_extends c c'" for c c' using that by (auto simp: compat_extends_def)
  let ?ts = "sorted_list_of_set (staticCompatibleTypes tc)"
  have dom: "set ?ts \<subseteq> dom (m_compatibility da1)"
    using tc extends_dom [OF da1(2)] by simp
  have "\<exists>da2. foldR (\<lambda>t. update_compatibility t g) ?ts da1 = Inr da2 \<and> extends da1 da2 \<and>
      (\<forall>t \<in> set ?ts. \<exists>c. m_compatibility da2 t = Some c \<and> ?P c)"
    by (rule foldR_update_extends [where P = ?P, OF gr(2) gP]) (rule st, assumption+, rule dom)
  then obtain da2 where da2: "foldR (\<lambda>t. update_compatibility t g) ?ts da1 = Inr da2"
    "extends da1 da2" "\<forall>x \<in> set ?ts. \<exists>c. m_compatibility da2 x = Some c \<and> ?P c" by blast
  then have da23: "\<forall>x \<in> staticCompatibleTypes tc. \<exists>c. m_compatibility da2 x = Some c \<and> ?P c" using tc(2) by simp
  have step: "link_compatibility db l da = Inr da2"
    using t lc tc da1(1) da2(1)
    by (simp add: link_compatibility_def getCompatibility_def f_def [symmetric] g_def [symmetric])
  have ext: "extends da da2" using extends_trans da1(2) da2(2) by blast
  from extendsD [OF da2(2) da1(3)] obtain lc2 where lc2: "m_compatibility da2 l = Some lc2" "compat_extends (f lc) lc2" by blast
  from extendsD [OF ext tc(1)] obtain tc2 where tc2: "m_compatibility da2 t = Some tc2" "compat_extends tc tc2" by blast
  have "\<exists>xc. m_compatibility da2 x = Some xc \<and> l \<in> staticLinkCompatibleTypes xc \<and>
      dynamicCompatibleTypes lc2 \<subseteq> dynamicCompatibleFromLinkTypes xc" if "x \<in> staticCompatibleTypes tc2" for x
    using da23 that tc2(2) lc2(2) by (simp add: compat_extends_def f_def)
  moreover have "staticCompatibleTypes tc2 \<subseteq> staticLinkCompatibleTypes lc2" "dynamicCompatibleTypes tc2 \<subseteq> dynamicCompatibleToLinkTypes lc2"
    using tc2(2) lc2(2) by (simp_all add: compat_extends_def f_def)
  ultimately have "link_converts db l da2"
    unfolding link_converts_def using t lc2(1) tc2(1) by blast
  with step ext show ?thesis by blast
qed

lemma foldR_links_convert:
  "(\<forall>l \<in> set ls. link_ready db l da) \<Longrightarrow>
   \<exists>da'. foldR (link_compatibility db) ls da = Inr da' \<and> extends da da' \<and> (\<forall>l \<in> set ls. link_converts db l da')"
proof (induction ls arbitrary: da)
  case (Cons l ls)
  from link_compatibility_converts [of db l da] Cons.prems obtain da1 where
    da1: "link_compatibility db l da = Inr da1" "extends da da1" "link_converts db l da1" by auto
  have "\<forall>l \<in> set ls. link_ready db l da1" using Cons.prems link_ready_extends da1(2) by auto
  from Cons.IH [OF this] obtain da2 where da2: "foldR (link_compatibility db) ls da1 = Inr da2"
    "extends da1 da2" "\<forall>l \<in> set ls. link_converts db l da2" by blast
  with da1 show ?case using extends_trans link_converts_extends by auto
qed simp

lemma foldR_groups: "foldR (foldR f) groups s = foldR f (concat groups) s"
proof (induction groups arbitrary: s)
  case (Cons g groups)
  then have "foldR (foldR f) groups = foldR f (concat groups)" by (rule ext)
  then show ?case by (simp add: foldR_append)
qed simp

section \<open>The properties\<close>

definition inheritance_sample :: database where
  "inheritance_sample =
    [OtherObject,
     InterfaceElement \<lparr>if_class = Action, if_identifier = ''A'', if_parent = None, if_children = [],
       if_baseContexts = [], if_size = 1, if_contextTypes = [], if_canonicalType = []\<rparr>,
     InterfaceElement \<lparr>if_class = Action, if_identifier = ''B'', if_parent = None, if_children = [],
       if_baseContexts = [1], if_size = 1, if_contextTypes = [], if_canonicalType = []\<rparr>,
     InterfaceElement \<lparr>if_class = Link, if_identifier = ''L'', if_parent = None, if_children = [],
       if_baseContexts = [1], if_size = 1, if_contextTypes = [], if_canonicalType = []\<rparr>,
     InheritanceNode \<lparr>in_rootConcreteAction = 8, in_context = 1, in_parent = None, in_children = [],
       in_actions = [], in_dimensions = []\<rparr>,
     InheritanceNode \<lparr>in_rootConcreteAction = 9, in_context = 2, in_parent = None, in_children = [6],
       in_actions = [], in_dimensions = []\<rparr>,
     InheritanceNode \<lparr>in_rootConcreteAction = 9, in_context = 1, in_parent = Some 5, in_children = [],
       in_actions = [], in_dimensions = []\<rparr>,
     InheritanceNode \<lparr>in_rootConcreteAction = 10, in_context = 3, in_parent = None, in_children = [],
       in_actions = [], in_dimensions = []\<rparr>,
     ConcreteElement \<lparr>ce_class = ConcreteAction, ce_parent = None, ce_element = Some 1, ce_children = []\<rparr>,
     ConcreteElement \<lparr>ce_class = ConcreteAction, ce_parent = None, ce_element = Some 2, ce_children = []\<rparr>,
     ConcreteElement \<lparr>ce_class = ConcreteAction, ce_parent = None, ce_element = Some 3, ce_children = []\<rparr>]"

lemma inheritance_sample_facts:
  "wf_inheritance inheritance_sample"
  "\<forall>n \<in> set [4, 5, 6, 7]. inheritance_at inheritance_sample n \<noteq> None"
  by code_simp+

lemma inheritance_sample_nodes: "n \<in> set [4, 5, 6, 7] \<longleftrightarrow> inheritance_at inheritance_sample n \<noteq> None"
proof
  assume "inheritance_at inheritance_sample n \<noteq> None"
  then have "n < 11" by (auto simp: inheritance_at_Some inheritance_sample_def)
  then have "n \<in> set [0..<11]" by simp
  moreover have "\<forall>n \<in> set [0..<11]. inheritance_at inheritance_sample n \<noteq> None \<longrightarrow> n \<in> set [4, 5, 6, 7]" by code_simp
  ultimately show "n \<in> set [4, 5, 6, 7]" using \<open>inheritance_at inheritance_sample n \<noteq> None\<close> by blast
qed (use inheritance_sample_facts(2) in blast)

definition no_analysis :: derivation_analysis where
  "no_analysis = \<lparr>m_compatibility = Map.empty, m_instanceMap = [], m_inheritanceMap = []\<rparr>"

text \<open>C33. \<open>DerivationAnalysis::analyseCompatibility\<close> terminates on the inheritance trees a session
  builds, and the types it records as compatible with a context are those of the nodes above and below
  the context's own inheritance nodes: the static types are their contexts, the dynamic types their
  concrete actions. The entries that exist already are kept.\<close>

theorem analyseCompatibility_exact:
  assumes "wf_inheritance db" and "\<forall>n \<in> set nodes. inheritance_at db n \<noteq> None"
  shows "\<exists>da'. analyseCompatibility db actions nodes da = Inr da' \<and>
    (\<forall>a. m_compatibility da' a =
      (if m_compatibility da a = None \<and> a \<in> set actions
       then Some (no_compatibility\<lparr>
         staticCompatibleTypes := node_context db ` {m. \<exists>n \<in> set nodes. node_context db n = a \<and> (inherits db m n \<or> inherits db n m)},
         dynamicCompatibleTypes := node_root db ` {m. \<exists>n \<in> set nodes. node_context db n = a \<and> (inherits db m n \<or> inherits db n m)}\<rparr>)
       else m_compatibility da a))"
  using analyseCompatibility_entries [OF assms, of actions da]
  by (simp add: inheritance_compatibility_def related_def)

theorem analyseCompatibility_exact_witness:
  "\<exists>da'. analyseCompatibility inheritance_sample [1, 2, 3] [4, 5, 6, 7] no_analysis = Inr da' \<and>
    (\<forall>a. m_compatibility da' a =
      (if m_compatibility no_analysis a = None \<and> a \<in> set [1, 2, 3]
       then Some (no_compatibility\<lparr>
         staticCompatibleTypes := node_context inheritance_sample ` {m. \<exists>n \<in> set [4, 5, 6, 7].
           node_context inheritance_sample n = a \<and> (inherits inheritance_sample m n \<or> inherits inheritance_sample n m)},
         dynamicCompatibleTypes := node_root inheritance_sample ` {m. \<exists>n \<in> set [4, 5, 6, 7].
           node_context inheritance_sample n = a \<and> (inherits inheritance_sample m n \<or> inherits inheritance_sample n m)}\<rparr>)
       else m_compatibility no_analysis a))"
  by (rule analyseCompatibility_exact [OF inheritance_sample_facts])

text \<open>Static compatibility is symmetric: when the analysis runs over all inheritance nodes, a context
  is compatible with another exactly when the other is compatible with it.\<close>

theorem static_compatibility_symmetric:
  assumes "wf_inheritance db" and "\<And>n. n \<in> set nodes \<longleftrightarrow> inheritance_at db n \<noteq> None"
    and "analyseCompatibility db actions nodes no_analysis = Inr da"
    and "m_compatibility da a = Some ca" and "m_compatibility da b = Some cb"
  shows "b \<in> staticCompatibleTypes ca \<longleftrightarrow> a \<in> staticCompatibleTypes cb"
proof -
  have nodes: "\<forall>n \<in> set nodes. inheritance_at db n \<noteq> None" using assms(2) by blast
  from analyseCompatibility_entries [OF assms(1) nodes, of actions no_analysis] assms(3)
  have e: "m_compatibility da x = (if x \<in> set actions then Some (inheritance_compatibility db nodes x) else None)" for x
    by (auto simp: no_analysis_def)
  have st: "staticCompatibleTypes (inheritance_compatibility db nodes x) = node_context db ` related db nodes x" for x
    by (simp add: inheritance_compatibility_def)
  from assms(4,5) e [of a] e [of b] have "staticCompatibleTypes ca = node_context db ` related db nodes a"
    "staticCompatibleTypes cb = node_context db ` related db nodes b"
    using st by (auto split: if_splits)
  then show ?thesis using related_sym [OF assms(1,2)] by blast
qed

theorem static_compatibility_symmetric_witness:
  "\<exists>da ca cb. analyseCompatibility inheritance_sample [1, 2, 3] [4, 5, 6, 7] no_analysis = Inr da \<and>
    m_compatibility da 1 = Some ca \<and> m_compatibility da 2 = Some cb \<and>
    (2 \<in> staticCompatibleTypes ca \<longleftrightarrow> 1 \<in> staticCompatibleTypes cb)"
proof -
  obtain da where da: "analyseCompatibility inheritance_sample [1, 2, 3] [4, 5, 6, 7] no_analysis = Inr da"
    and e: "\<And>x. x \<in> set [1, 2, 3] \<Longrightarrow> m_compatibility da x \<noteq> None"
    using analyseCompatibility_entries [OF inheritance_sample_facts, of "[1, 2, 3]" no_analysis]
    by (auto simp: no_analysis_def)
  obtain ca cb where c: "m_compatibility da 1 = Some ca" "m_compatibility da 2 = Some cb"
    using e [of 1] e [of 2] by auto
  from static_compatibility_symmetric [OF inheritance_sample_facts(1) inheritance_sample_nodes da c] da c
  show ?thesis by blast
qed

text \<open>C34. After \<open>DerivationAnalysis::analyseLinkCompatibility\<close> a link and every type that is
  compatible with the target of the link convert to each other, the concrete types come with them, the
  compatibility by inheritance is unchanged and is part of the compatibility through links.\<close>

theorem links_convert_both_ways:
  assumes "\<forall>l \<in> set (concat groups). link_ready db l da"
  shows "\<exists>da'. analyseLinkCompatibility db groups da = Inr da' \<and>
    (\<forall>a c. m_compatibility da a = Some c \<longrightarrow> (\<exists>c'. m_compatibility da' a = Some c' \<and>
       staticCompatibleTypes c' = staticCompatibleTypes c \<and> dynamicCompatibleTypes c' = dynamicCompatibleTypes c \<and>
       staticCompatibleTypes c' \<subseteq> staticLinkCompatibleTypes c')) \<and>
    (\<forall>l \<in> set (concat groups). link_converts db l da')"
proof -
  from foldR_links_convert [OF assms] obtain d where d: "foldR (link_compatibility db) (concat groups) da = Inr d"
    "extends da d" "\<forall>l \<in> set (concat groups). link_converts db l d" by blast
  define f where "f = (\<lambda>c :: compatibility. c\<lparr>staticLinkCompatibleTypes := staticLinkCompatibleTypes c \<union> staticCompatibleTypes c\<rparr>)"
  define d' where "d' = d\<lparr>m_compatibility := \<lambda>a. map_option f (m_compatibility d a)\<rparr>"
  have r: "analyseLinkCompatibility db groups da = Inr d'"
    using d(1) by (simp add: analyseLinkCompatibility_def foldR_groups d'_def f_def)
  have "extends d d'" by (auto simp: extends_def d'_def f_def compat_extends_def option.rel_map intro!: option.rel_refl_strong)
  then have "\<forall>l \<in> set (concat groups). link_converts db l d'" using d(3) link_converts_extends by blast
  moreover have "\<exists>c'. m_compatibility d' a = Some c' \<and> staticCompatibleTypes c' = staticCompatibleTypes c \<and>
      dynamicCompatibleTypes c' = dynamicCompatibleTypes c \<and> staticCompatibleTypes c' \<subseteq> staticLinkCompatibleTypes c'"
    if "m_compatibility da a = Some c" for a c
    using extendsD [OF d(2) that] by (auto simp: d'_def f_def compat_extends_def)
  ultimately show ?thesis using r by blast
qed

theorem links_convert_both_ways_witness:
  "\<exists>da da'. analyseCompatibility inheritance_sample [1, 2, 3] [4, 5, 6, 7] no_analysis = Inr da \<and>
    analyseLinkCompatibility inheritance_sample [[3]] da = Inr da' \<and> link_converts inheritance_sample 3 da'"
proof -
  define cc where "cc = inheritance_compatibility inheritance_sample [4, 5, 6, 7]"
  define da where "da = no_analysis\<lparr>m_compatibility := \<lambda>a. if a \<in> set [1, 2, 3] then Some (cc a) else None\<rparr>"
  have da: "analyseCompatibility inheritance_sample [1, 2, 3] [4, 5, 6, 7] no_analysis = Inr da"
    using analyseCompatibility_entries [OF inheritance_sample_facts, of "[1, 2, 3]" no_analysis]
    by (simp add: no_analysis_def da_def cc_def cong: if_cong)
  have "staticCompatibleTypes (cc 1) \<subseteq> node_context inheritance_sample ` {n. inheritance_at inheritance_sample n \<noteq> None}"
    using related_exists related_below_exists inheritance_sample_facts
    unfolding cc_def inheritance_compatibility_def related_def by fastforce
  also have "\<dots> = node_context inheritance_sample ` set [4, 5, 6, 7]" by (simp only: inheritance_sample_nodes [symmetric]) auto
  also have "\<dots> = set [1, 2, 3]" by (simp add: node_context_def inheritance_at_def nth_opt_def inheritance_sample_def) auto
  finally have s: "staticCompatibleTypes (cc 1) \<subseteq> {1, 2, 3}" by simp
  then have "link_ready inheritance_sample 3 da"
    unfolding link_ready_def
    by (intro exI [of _ 1] exI [of _ "cc 1"])
      (auto simp: da_def getLinkTarget_def interface_at_def nth_opt_def inheritance_sample_def finite_subset split: if_splits)
  with links_convert_both_ways [of "[[3]]" inheritance_sample da] da show ?thesis by auto
qed

end
