(* ===== verification/Identifiers.thy ===== *)
theory Identifiers
  imports EGObjects OrderedMultimap "HOL-Library.Char_ord" "HOL-Library.List_Lexorder"
begin

text \<open>
  The table of identifiers of \<open>src/eg/identifiers.cpp\<close>: \<open>Identifiers::populate\<close> groups the declared
  interface elements by their identifier, and the lookups give the group of an element. A
  \<open>std::string\<close> is a list of characters, ordered by their codes.
\<close>

definition string_key :: "string \<Rightarrow> string" where
  "string_key s = s"

record identifiers =
  m_identifierMap :: "(string \<times> idx) list"
  m_identifierGroups :: "(idx \<times> idx) list"
  m_identifierGroupsBack :: "(idx \<times> idx) list"

definition getIdentifier :: "database \<Rightarrow> idx \<Rightarrow> string" where
  "getIdentifier db i = (case interface_at db i of Some e \<Rightarrow> if_identifier e | None \<Rightarrow> [])"

fun is_declared :: "interface_class \<Rightarrow> bool" where
  "is_declared Opaque = False"
| "is_declared Include = False"
| "is_declared Using = False"
| "is_declared Export = False"
| "is_declared Dimension = True"
| "is_declared Abstract = True"
| "is_declared Event = True"
| "is_declared Function = True"
| "is_declared Action = True"
| "is_declared Object = True"
| "is_declared Link = True"
| "is_declared (Root _) = True"

definition declares :: "database \<Rightarrow> idx \<Rightarrow> bool" where
  "declares db i = (case interface_at db i of Some e \<Rightarrow> is_declared (if_class e) | None \<Rightarrow> False)"

text \<open>The first loop of \<open>populate\<close>.\<close>

definition forwardDeclMap :: "database \<Rightarrow> (string \<times> idx) list" where
  "forwardDeclMap db =
     fold (\<lambda>i m. if declares db i then mm_insert string_key (getIdentifier db i) i m else m) [0..<length db] []"

text \<open>The innermost loop inserts the elements of one group, whose first element is \<open>f\<close>.\<close>

definition insert_group :: "database \<Rightarrow> idx \<Rightarrow> idx list \<Rightarrow> identifiers \<Rightarrow> identifiers" where
  "insert_group db f elements ids =
     fold (\<lambda>e ids. ids\<lparr>
       m_identifierMap := map_insert_new string_key (getIdentifier db f) f (m_identifierMap ids),
       m_identifierGroups := mm_insert (getIdentifier db) f e (m_identifierGroups ids),
       m_identifierGroupsBack := map_insert_new (getIdentifier db) e f (m_identifierGroupsBack ids)\<rparr>) elements ids"

text \<open>The second loop runs over the groups of equal identifiers; the \<open>std::set\<close> of a group is ordered
  by the index of the elements.\<close>

function group_loop :: "database \<Rightarrow> (string \<times> idx) list \<Rightarrow> identifiers \<Rightarrow> identifiers" where
  "group_loop db [] ids = ids"
| "group_loop db ((k, f) # rest) ids =
     (let g = takeWhile (\<lambda>e. \<not> string_key k < string_key (fst e)) rest;
          rest' = dropWhile (\<lambda>e. \<not> string_key k < string_key (fst e)) rest
      in group_loop db rest' (insert_group db f (sorted_list_of_set (insert f (set (map snd g)))) ids))"
  by pat_completeness auto
termination
  by (relation "measure (\<lambda>(db, l, ids). length l)") (simp_all add: le_imp_less_Suc length_dropWhile_le)

definition no_identifiers :: identifiers where
  "no_identifiers = \<lparr>m_identifierMap = [], m_identifierGroups = [], m_identifierGroupsBack = []\<rparr>"

definition populate :: "database \<Rightarrow> identifiers" where
  "populate db = group_loop db (forwardDeclMap db) no_identifiers"

definition isElement :: "identifiers \<Rightarrow> string \<Rightarrow> idx option" where
  "isElement ids s = (case mm_lookup string_key s (m_identifierMap ids) of [] \<Rightarrow> None | e # _ \<Rightarrow> Some e)"

definition getGroup :: "database \<Rightarrow> identifiers \<Rightarrow> idx \<Rightarrow> idx list" where
  "getGroup db ids e = mm_lookup (getIdentifier db) (getIdentifier db e) (m_identifierGroups ids)"

definition getGroupBack :: "database \<Rightarrow> identifiers \<Rightarrow> idx \<Rightarrow> idx list" where
  "getGroupBack db ids e =
     (case mm_lookup (getIdentifier db) (getIdentifier db e) (m_identifierGroupsBack ids) of
        [] \<Rightarrow> []
      | f # _ \<Rightarrow> getGroup db ids f)"

section \<open>The groups are the declarations of an identifier\<close>

definition declared_as :: "database \<Rightarrow> string \<Rightarrow> idx list" where
  "declared_as db s = filter (\<lambda>i. declares db i \<and> getIdentifier db i = s) [0..<length db]"

lemma forwardDeclMap_invariant:
  "mm_sorted string_key m \<Longrightarrow>
   mm_sorted string_key (fold (\<lambda>i m. if declares db i then mm_insert string_key (getIdentifier db i) i m else m) is m) \<and>
   mm_lookup string_key s (fold (\<lambda>i m. if declares db i then mm_insert string_key (getIdentifier db i) i m else m) is m) =
     mm_lookup string_key s m @ filter (\<lambda>i. declares db i \<and> getIdentifier db i = s) is"
  by (induction "is" arbitrary: m) (auto simp: mm_lookup_insert string_key_def)

lemma forwardDeclMap_lookup: "mm_lookup string_key s (forwardDeclMap db) = declared_as db s"
  and forwardDeclMap_sorted: "mm_sorted string_key (forwardDeclMap db)"
  using forwardDeclMap_invariant [of "[]" db "[0..<length db]" s] by (simp_all add: forwardDeclMap_def declared_as_def)

lemma forwardDeclMap_key: "(k, i) \<in> set (forwardDeclMap db) \<Longrightarrow> k = getIdentifier db i"
proof -
  have "(k, i) \<in> set (fold (\<lambda>i m. if declares db i then mm_insert string_key (getIdentifier db i) i m else m) is m) \<Longrightarrow>
      (k, i) \<in> set m \<or> k = getIdentifier db i" for "is" m
    by (induction "is" arbitrary: m) (fastforce split: if_splits)+
  then show "(k, i) \<in> set (forwardDeclMap db) \<Longrightarrow> k = getIdentifier db i"
    unfolding forwardDeclMap_def by fastforce
qed

definition ids_sorted :: "database \<Rightarrow> identifiers \<Rightarrow> bool" where
  "ids_sorted db ids \<longleftrightarrow> mm_sorted string_key (m_identifierMap ids) \<and> mm_sorted (getIdentifier db) (m_identifierGroups ids) \<and>
     mm_sorted (getIdentifier db) (m_identifierGroupsBack ids)"

text \<open>What the table says of the identifier \<open>s\<close>.\<close>

definition entry :: "database \<Rightarrow> identifiers \<Rightarrow> string \<Rightarrow> idx list \<times> idx list \<times> idx list" where
  "entry db ids s = (mm_lookup string_key s (m_identifierMap ids), mm_lookup (getIdentifier db) s (m_identifierGroups ids),
     mm_lookup (getIdentifier db) s (m_identifierGroupsBack ids))"

lemma insert_group_entry:
  "ids_sorted db ids \<Longrightarrow> (\<forall>e \<in> set es. getIdentifier db e = getIdentifier db f) \<Longrightarrow>
   ids_sorted db (insert_group db f es ids) \<and>
   (s \<noteq> getIdentifier db f \<longrightarrow> entry db (insert_group db f es ids) s = entry db ids s) \<and>
   (entry db ids (getIdentifier db f) = ([], [], []) \<longrightarrow> es \<noteq> [] \<longrightarrow>
     entry db (insert_group db f es ids) (getIdentifier db f) = ([f], es, [f]))"
proof (induction es rule: rev_induct)
  case Nil
  then show ?case by (simp add: insert_group_def)
next
  case (snoc e es)
  let ?i = "insert_group db f es ids"
  have e: "getIdentifier db e = getIdentifier db f" using snoc.prems by simp
  have st: "insert_group db f (es @ [e]) ids = ?i\<lparr>
       m_identifierMap := map_insert_new string_key (getIdentifier db f) f (m_identifierMap ?i),
       m_identifierGroups := mm_insert (getIdentifier db) f e (m_identifierGroups ?i),
       m_identifierGroupsBack := map_insert_new (getIdentifier db) e f (m_identifierGroupsBack ?i)\<rparr>"
    by (simp add: insert_group_def)
  from snoc have IH: "ids_sorted db ?i" "s \<noteq> getIdentifier db f \<longrightarrow> entry db ?i s = entry db ids s"
    "entry db ids (getIdentifier db f) = ([], [], []) \<Longrightarrow> es \<noteq> [] \<Longrightarrow>
     entry db ?i (getIdentifier db f) = ([f], es, [f])" by auto
  have "?i = ids" if "es = []" using that by (simp add: insert_group_def)
  then show ?case
    using IH e unfolding st
    by (cases "es = []") (auto simp: ids_sorted_def entry_def mm_lookup_insert mm_lookup_map_insert_new string_key_def)
qed

lemma group_loop_entry:
  "mm_sorted string_key l \<Longrightarrow> (\<forall>(k, i) \<in> set l. k = getIdentifier db i) \<Longrightarrow> ids_sorted db ids \<Longrightarrow>
   (\<forall>(k, i) \<in> set l. entry db ids k = ([], [], [])) \<Longrightarrow>
   entry db (group_loop db l ids) s =
     (case mm_lookup string_key s l of
        [] \<Rightarrow> entry db ids s
      | f # fs \<Rightarrow> ([f], sorted_list_of_set (set (f # fs)), [f]))"
proof (induction db l ids arbitrary: s rule: group_loop.induct)
  case (1 db ids)
  then show ?case by simp
next
  case (2 db k f rest ids)
  let ?g = "takeWhile (\<lambda>e. \<not> string_key k < string_key (fst e)) rest"
  let ?r = "dropWhile (\<lambda>e. \<not> string_key k < string_key (fst e)) rest"
  let ?es = "sorted_list_of_set (insert f (set (map snd ?g)))"
  let ?i = "insert_group db f ?es ids"
  have g: "?g = filter (\<lambda>e. fst e = k) rest" and r: "?r = filter (\<lambda>e. fst e \<noteq> k) rest"
    using takeWhile_first_key [OF "2.prems"(1)] by (simp_all only: string_key_def)
  have k: "k = getIdentifier db f" and kr: "\<forall>(k, i) \<in> set rest. k = getIdentifier db i" using "2.prems"(2) by auto
  have es: "\<forall>e \<in> set ?es. getIdentifier db e = getIdentifier db f"
  proof
    fix e assume "e \<in> set ?es"
    then have "e \<in> insert f (set (map snd ?g))"
      by (simp only: set_sorted_list_of_set finite.insertI List.finite_set)
    then have "e = f \<or> (\<exists>j. (j, e) \<in> set ?g)" by auto
    then show "getIdentifier db e = getIdentifier db f" using k kr unfolding g by fastforce
  qed
  have ne: "?es \<noteq> []" by (simp add: sorted_list_of_set_eq_Nil_iff)
  have ef: "entry db ids k = ([], [], [])" using "2.prems"(4) by simp
  note ins = insert_group_entry [OF "2.prems"(3) es]
  have sr: "mm_sorted string_key ?r" using "2.prems"(1) unfolding r mm_sorted_def by (auto simp: sorted_wrt_map sorted_wrt_filter)
  have h2: "\<forall>(k, i) \<in> set ?r. k = getIdentifier db i" using kr unfolding r by auto
  have h3: "ids_sorted db ?i" using ins by blast
  have h4: "\<forall>(j, i) \<in> set ?r. entry db ?i j = ([], [], [])"
    using "2.prems"(4) ins k unfolding r by fastforce
  note IH = "2.IH" [OF refl refl sr h2 h3 h4]
  show ?case
  proof (cases "s = k")
    case True
    then have "mm_lookup string_key s ?r = []" unfolding r by (auto simp: mm_lookup_Nil_iff string_key_def)
    with IH ins ne ef k True have "entry db (group_loop db ?r ?i) s = ([f], ?es, [f])" by simp
    moreover have "mm_lookup string_key s ((k, f) # rest) = f # map snd ?g" unfolding g by (simp add: True mm_lookup_def string_key_def)
    ultimately show ?thesis by (simp add: Let_def)
  next
    case False
    then have "mm_lookup string_key s ?r = mm_lookup string_key s ((k, f) # rest)"
      unfolding r by (auto simp: mm_lookup_def string_key_def intro!: arg_cong [where f = "map snd"] filter_cong)
    with IH ins k False show ?thesis by (simp add: Let_def split: list.split)
  qed
qed

lemma find_filter: "find P xs = (case filter P xs of [] \<Rightarrow> None | x # _ \<Rightarrow> Some x)"
  by (induction xs) auto

lemma declared_as_sorted: "sorted_list_of_set (set (declared_as db s)) = declared_as db s"
  by (intro sorted_list_of_set.idem_if_sorted_distinct)
    (simp_all add: declared_as_def sorted_wrt_filter)

lemma populate_entry:
  "entry db (populate db) s =
     (case declared_as db s of [] \<Rightarrow> ([], [], []) | f # fs \<Rightarrow> ([f], declared_as db s, [f]))"
proof -
  have "entry db (populate db) s =
      (case declared_as db s of [] \<Rightarrow> entry db no_identifiers s
       | f # fs \<Rightarrow> ([f], sorted_list_of_set (set (f # fs)), [f]))"
    unfolding populate_def forwardDeclMap_lookup [symmetric]
    by (rule group_loop_entry)
      (auto simp: forwardDeclMap_sorted forwardDeclMap_key ids_sorted_def entry_def no_identifiers_def)
  then show ?thesis
    using declared_as_sorted [of db s] by (auto simp: entry_def no_identifiers_def split: list.splits)
qed

section \<open>The property\<close>

text \<open>After \<open>Identifiers::populate\<close> the group of an element, looked up in either direction, is the
  list of all declarations with its identifier, in the order of their indices, and \<open>isElement\<close> finds
  the first declaration of an identifier.\<close>

theorem identifier_groups_exact:
  "getGroup db (populate db) e = filter (\<lambda>i. declares db i \<and> getIdentifier db i = getIdentifier db e) [0..<length db] \<and>
   getGroupBack db (populate db) e = getGroup db (populate db) e \<and>
   isElement (populate db) s = find (\<lambda>i. declares db i \<and> getIdentifier db i = s) [0..<length db]"
proof -
  have g: "getGroup db (populate db) x = declared_as db (getIdentifier db x)" for x
    using populate_entry [of db "getIdentifier db x"] by (auto simp: getGroup_def entry_def split: list.splits)
  have "getGroupBack db (populate db) e = getGroup db (populate db) e"
  proof (cases "declared_as db (getIdentifier db e)")
    case Nil
    with populate_entry [of db "getIdentifier db e"] show ?thesis
      by (simp add: getGroupBack_def getGroup_def entry_def)
  next
    case (Cons f fs)
    then have "f \<in> set (declared_as db (getIdentifier db e))" by simp
    then have "getIdentifier db f = getIdentifier db e" by (simp add: declared_as_def)
    with Cons populate_entry [of db "getIdentifier db e"] show ?thesis
      by (simp add: getGroupBack_def getGroup_def entry_def)
  qed
  moreover have "isElement (populate db) s = find (\<lambda>i. declares db i \<and> getIdentifier db i = s) [0..<length db]"
    using populate_entry [of db s]
    by (simp add: isElement_def entry_def declared_as_def find_filter split: list.splits)
  ultimately show ?thesis using g by (simp add: declared_as_def)
qed

end
