(* ===== verification/LinkSets.thy ===== *)
theory LinkSets
  imports Derivation Identifiers "HOL-Library.Product_Lexorder"
begin

text \<open>
  The link analysis of \<open>src/eg/link.cpp\<close>: the disjoint sets of contexts that are related by inheritance
  (\<open>calculateSets\<close>, \<open>addAction\<close>, \<open>find\<close>) and the groups of the links whose targets lie in one set
  (\<open>calculateGroups\<close>). The sets are shared pointers, modelled by the number of their allocation, and a
  \<open>std::set\<close> of them is ordered by address: \<open>addr\<close> gives the address of an allocation and every result
  holds for every \<open>addr\<close>.
\<close>

section \<open>Disjoint sets of contexts\<close>

record context_sets =
  cs_heap :: "nat \<Rightarrow> idx set"
  cs_sets :: "nat list"
  cs_next :: nat

definition no_sets :: context_sets where
  "no_sets = \<lparr>cs_heap = \<lambda>_. {}, cs_sets = [], cs_next = 0\<rparr>"

definition find_set :: "context_sets \<Rightarrow> idx \<Rightarrow> nat option" where
  "find_set ls c = find (\<lambda>p. c \<in> cs_heap ls p) (cs_sets ls)"

text \<open>The body of the loop over the base contexts of \<open>pContext\<close>, with the local \<open>pContextSet\<close>.\<close>

definition merge_base :: "idx \<Rightarrow> idx \<Rightarrow> context_sets \<times> nat option \<Rightarrow> context_sets \<times> nat option" where
  "merge_base c b s =
     (case s of (ls, ctx) \<Rightarrow>
        (case find_set ls b of
           None \<Rightarrow> (ls, ctx)
         | Some p \<Rightarrow>
             (case ctx of
                Some q \<Rightarrow>
                  (ls\<lparr>cs_heap := (cs_heap ls)(q := cs_heap ls q \<union> cs_heap ls p), cs_sets := remove1 p (cs_sets ls)\<rparr>, Some q)
              | None \<Rightarrow> (ls\<lparr>cs_heap := (cs_heap ls)(p := insert c (cs_heap ls p))\<rparr>, Some p))))"

definition addAction :: "database \<Rightarrow> (nat \<Rightarrow> nat) \<Rightarrow> idx \<Rightarrow> context_sets \<Rightarrow> context_sets result" where
  "addAction db addr c ls =
     bindR (verify (\<not> is_Link db c)) (\<lambda>_.
       case fold (merge_base c) (getBaseContexts db c) (ls, find_set ls c) of
         (ls, Some q) \<Rightarrow> Inr ls
       | (ls, None) \<Rightarrow>
           Inr (ls\<lparr>cs_heap := (cs_heap ls)(cs_next ls := insert c (set (getBaseContexts db c))),
                   cs_sets := insort_key addr (cs_next ls) (cs_sets ls), cs_next := Suc (cs_next ls)\<rparr>))"

definition calculateSets :: "database \<Rightarrow> (nat \<Rightarrow> nat) \<Rightarrow> idx list \<Rightarrow> context_sets result" where
  "calculateSets db addr contexts =
     foldR (\<lambda>c ls. if is_Link db c then Inr ls else addAction db addr c ls) contexts no_sets"

section \<open>Link groups\<close>

record link_group =
  lg_name :: string
  lg_links :: "idx list"
  lg_interfaceTargets :: "idx list"
  lg_concreteTargets :: "idx list"
  lg_concreteLinks :: "idx list"

text \<open>The first loop enters the links under their identifier and the set of their target.\<close>

definition enter_link :: "database \<Rightarrow> (nat \<Rightarrow> nat) \<Rightarrow> context_sets \<Rightarrow> idx \<Rightarrow>
    ((string \<times> nat) \<times> idx) list \<Rightarrow> ((string \<times> nat) \<times> idx) list result" where
  "enter_link db addr ls l m =
     (if is_Link db l then
        bindR (getLinkTarget db l) (\<lambda>b.
        bindR (of_option (RuntimeError ''verify'') (find_set ls b)) (\<lambda>p.
          Inr (mm_insert (\<lambda>(s, p). (s, addr p)) (getIdentifier db l, p) l m)))
      else Inr m)"

text \<open>The concrete actions of a group of contexts, each once.\<close>

definition concrete_actions :: "database \<Rightarrow> derivation_analysis \<Rightarrow> idx list \<Rightarrow> idx list result" where
  "concrete_actions db da cs =
     bindR (mapR (\<lambda>c. getInstances db da c True) cs) (\<lambda>is.
       let es = uniquify_without_reorder (concat is)
       in bindR (verify (\<forall>e \<in> set es. is_action db e)) (\<lambda>_. Inr es))"

definition make_group :: "database \<Rightarrow> derivation_analysis \<Rightarrow> context_sets \<Rightarrow> string \<times> nat \<Rightarrow> idx list \<Rightarrow> link_group result" where
  "make_group db da ls k links =
     bindR (verify (fst k \<noteq> [])) (\<lambda>_.
     let targets = sorted_list_of_set (cs_heap ls (snd k))
     in bindR (verify (\<forall>t \<in> set targets. \<not> is_Link db t)) (\<lambda>_.
        bindR (concrete_actions db da targets) (\<lambda>cts.
        bindR (concrete_actions db da links) (\<lambda>cls.
          Inr \<lparr>lg_name = fst k, lg_links = links, lg_interfaceTargets = targets,
               lg_concreteTargets = cts, lg_concreteLinks = cls\<rparr>))))"

function collate :: "database \<Rightarrow> derivation_analysis \<Rightarrow> context_sets \<Rightarrow> ((string \<times> nat) \<times> idx) list \<Rightarrow> link_group list result" where
  "collate db da ls [] = Inr []"
| "collate db da ls ((k, l) # m) =
     bindR (make_group db da ls k (l # map snd (takeWhile (\<lambda>e. fst e = k) m))) (\<lambda>g.
     bindR (collate db da ls (dropWhile (\<lambda>e. fst e = k) m)) (\<lambda>gs. Inr (g # gs)))"
  by pat_completeness auto
termination
  by (relation "measure (\<lambda>(db, da, ls, m). length m)") (simp_all add: le_imp_less_Suc length_dropWhile_le)

definition calculateGroups :: "database \<Rightarrow> (nat \<Rightarrow> nat) \<Rightarrow> derivation_analysis \<Rightarrow> context_sets \<Rightarrow> idx list \<Rightarrow> link_group list result" where
  "calculateGroups db addr da ls contexts =
     bindR (foldR (enter_link db addr ls) contexts []) (collate db da ls)"

text \<open>\<open>LinkAnalysis::getLinkGroup\<close> by link and by name.\<close>

definition getLinkGroup :: "link_group list \<Rightarrow> idx \<Rightarrow> link_group option" where
  "getLinkGroup groups l = find (\<lambda>g. l \<in> set (lg_links g)) groups"

definition getLinkGroup_name :: "link_group list \<Rightarrow> string \<Rightarrow> link_group option" where
  "getLinkGroup_name groups s = find (\<lambda>g. lg_name g = s) groups"

section \<open>The sets are the components of inheritance\<close>

definition partition_ok :: "context_sets \<Rightarrow> bool" where
  "partition_ok ls \<longleftrightarrow> distinct (cs_sets ls) \<and> (\<forall>p \<in> set (cs_sets ls). p < cs_next ls) \<and>
     (\<forall>p \<in> set (cs_sets ls). \<forall>q \<in> set (cs_sets ls). p \<noteq> q \<longrightarrow> cs_heap ls p \<inter> cs_heap ls q = {})"

definition members :: "context_sets \<Rightarrow> idx set" where
  "members ls = (\<Union>p \<in> set (cs_sets ls). cs_heap ls p)"

definition same_set :: "context_sets \<Rightarrow> idx \<Rightarrow> idx \<Rightarrow> bool" where
  "same_set ls x y \<longleftrightarrow> (\<exists>p \<in> set (cs_sets ls). x \<in> cs_heap ls p \<and> y \<in> cs_heap ls p)"

lemma find_set_Some:
  "partition_ok ls \<Longrightarrow> find_set ls c = Some p \<longleftrightarrow> p \<in> set (cs_sets ls) \<and> c \<in> cs_heap ls p"
proof
  assume "find_set ls c = Some p"
  then show "p \<in> set (cs_sets ls) \<and> c \<in> cs_heap ls p" by (auto simp: find_set_def find_Some_iff)
next
  assume ok: "partition_ok ls" and p: "p \<in> set (cs_sets ls) \<and> c \<in> cs_heap ls p"
  then obtain q where q: "find_set ls c = Some q"
    by (cases "find_set ls c") (auto simp: find_set_def find_None_iff)
  then have "q \<in> set (cs_sets ls)" "c \<in> cs_heap ls q" by (auto simp: find_set_def find_Some_iff)
  with ok p have "q = p" unfolding partition_ok_def by (metis disjoint_iff)
  with q show "find_set ls c = Some p" by simp
qed

lemma find_set_None: "find_set ls c = None \<longleftrightarrow> c \<notin> members ls"
  by (auto simp: find_set_def find_None_iff members_def)

lemma same_set_find: "partition_ok ls \<Longrightarrow> same_set ls x y \<longleftrightarrow> (\<exists>p. find_set ls x = Some p \<and> find_set ls y = Some p)"
  by (auto simp: same_set_def find_set_Some)

lemma same_set_in:
  assumes "partition_ok ls" and "q \<in> set (cs_sets ls)" and "c \<in> cs_heap ls q"
  shows "same_set ls x c \<longleftrightarrow> x \<in> cs_heap ls q"
proof -
  have "find_set ls c = Some q" using assms by (simp add: find_set_Some)
  then have "same_set ls x c \<longleftrightarrow> find_set ls x = Some q" by (auto simp: same_set_find [OF assms(1)])
  then show ?thesis using assms(2) by (simp add: find_set_Some [OF assms(1)])
qed

lemma same_set_sym: "same_set ls x y \<Longrightarrow> same_set ls y x"
  by (auto simp: same_set_def)

lemma same_set_trans: "partition_ok ls \<Longrightarrow> same_set ls x y \<Longrightarrow> same_set ls y z \<Longrightarrow> same_set ls x z"
  by (auto simp: same_set_find)

lemma same_set_refl: "same_set ls x x \<longleftrightarrow> x \<in> members ls"
  by (auto simp: same_set_def members_def)

text \<open>Being connected by base contexts of the contexts \<open>ds\<close>.\<close>

definition connected :: "database \<Rightarrow> idx set \<Rightarrow> idx \<Rightarrow> idx \<Rightarrow> bool" where
  "connected db ds = (\<lambda>x y. (x \<in> ds \<and> y \<in> set (getBaseContexts db x)) \<or> (y \<in> ds \<and> x \<in> set (getBaseContexts db y)))\<^sup>*\<^sup>*"

lemma connected_mono: "connected db ds x y \<Longrightarrow> ds \<subseteq> ds' \<Longrightarrow> connected db ds' x y"
  unfolding connected_def by (erule rtranclp_mono [THEN predicate2D, rotated]) auto

lemma connected_base: "c \<in> ds \<Longrightarrow> b \<in> set (getBaseContexts db c) \<Longrightarrow> connected db ds c b"
  unfolding connected_def by (rule r_into_rtranclp) simp

lemma connected_sym: "connected db ds x y \<Longrightarrow> connected db ds y x"
  unfolding connected_def by (rule sympD [OF symp_rtranclp]) (auto intro: sympI)

lemma connected_trans: "connected db ds x y \<Longrightarrow> connected db ds y z \<Longrightarrow> connected db ds x z"
  unfolding connected_def by (rule rtranclp_trans)

text \<open>What \<open>addAction\<close> keeps: the sets are the components of the contexts processed so far.\<close>

definition components :: "database \<Rightarrow> idx set \<Rightarrow> context_sets \<Rightarrow> bool" where
  "components db ds ls \<longleftrightarrow> partition_ok ls \<and> members ls = ds \<and>
     (\<forall>x y. same_set ls x y \<longrightarrow> connected db ds x y) \<and>
     (\<forall>c \<in> ds. \<forall>b \<in> set (getBaseContexts db c). same_set ls c b)"

lemma components_connected:
  assumes "components db ds ls" and "x \<in> ds"
  shows "same_set ls x y \<longleftrightarrow> connected db ds x y"
proof
  show "connected db ds x y" if "same_set ls x y" using assms that by (simp add: components_def)
  have ok: "partition_ok ls" using assms by (simp add: components_def)
  show "same_set ls x y" if "connected db ds x y"
    using that unfolding connected_def
  proof (induction rule: rtranclp_induct)
    case base
    then show ?case using assms by (simp add: components_def same_set_refl)
  next
    case (step y z)
    then have "same_set ls y z" using assms(1) same_set_sym by (auto simp: components_def)
    then show ?case using step.IH same_set_trans [OF ok] by blast
  qed
qed

text \<open>The loop over the bases when each of them is in a set, and in a different one.\<close>

lemma merge_bases:
  assumes "partition_ok ls" and "q \<in> set (cs_sets ls)" and "c \<in> cs_heap ls q"
    and "\<forall>b \<in> set bs. b \<in> members ls \<and> \<not> same_set ls c b" and "sorted_wrt (\<lambda>x y. \<not> same_set ls x y) bs"
  shows "\<exists>ls'. fold (merge_base c) bs (ls, Some q) = (ls', Some q) \<and> partition_ok ls' \<and> q \<in> set (cs_sets ls') \<and>
    members ls' = members ls \<and> (\<forall>b \<in> set bs. b \<in> cs_heap ls' q) \<and> cs_heap ls q \<subseteq> cs_heap ls' q \<and>
    cs_next ls' = cs_next ls \<and>
    (\<forall>x y. same_set ls x y \<longrightarrow> same_set ls' x y) \<and>
    (\<forall>x y. same_set ls' x y \<longrightarrow> same_set ls x y \<or>
      (x \<in> cs_heap ls q \<or> (\<exists>b \<in> set bs. same_set ls x b)) \<and> (y \<in> cs_heap ls q \<or> (\<exists>b \<in> set bs. same_set ls y b)))"
  using assms
proof (induction bs arbitrary: ls)
  case Nil
  then show ?case by auto
next
  case (Cons b bs)
  from Cons.prems(4) obtain p where p: "p \<in> set (cs_sets ls)" "b \<in> cs_heap ls p" by (auto simp: members_def)
  have fb: "find_set ls b = Some p" using p find_set_Some [OF Cons.prems(1)] by simp
  have pq: "p \<noteq> q" using Cons.prems(2-4) p by (auto simp: same_set_def)
  define l1 where "l1 = ls\<lparr>cs_heap := (cs_heap ls)(q := cs_heap ls q \<union> cs_heap ls p), cs_sets := remove1 p (cs_sets ls)\<rparr>"
  have step: "merge_base c b (ls, Some q) = (l1, Some q)" by (simp add: merge_base_def fb l1_def)
  have d: "distinct (cs_sets ls)" using Cons.prems(1) by (simp add: partition_ok_def)
  have sets: "set (cs_sets l1) = set (cs_sets ls) - {p}" using d by (simp add: l1_def set_remove1_eq)
  have heap: "cs_heap l1 r = (if r = q then cs_heap ls q \<union> cs_heap ls p else cs_heap ls r)" for r by (simp add: l1_def)
  have disj: "cs_heap ls r \<inter> cs_heap ls s = {}" if "r \<in> set (cs_sets ls)" "s \<in> set (cs_sets ls)" "r \<noteq> s" for r s
    using Cons.prems(1) that by (simp add: partition_ok_def)
  have "cs_heap l1 r \<inter> cs_heap l1 s = {}" if "r \<in> set (cs_sets l1)" "s \<in> set (cs_sets l1)" "r \<noteq> s" for r s
    using that disj Cons.prems(2) p(1) unfolding sets heap by (cases "r = q"; cases "s = q") auto
  then have ok1: "partition_ok l1"
    using Cons.prems(1) d sets by (auto simp: partition_ok_def l1_def)
  have q1: "q \<in> set (cs_sets l1)" using sets Cons.prems(2) pq by simp
  have c1: "c \<in> cs_heap l1 q" using Cons.prems(3) heap by simp
  have m1: "members l1 = members ls" using sets heap Cons.prems(2) p(1) pq by (auto simp: members_def)
  have same1: "same_set l1 x y \<longleftrightarrow> same_set ls x y \<or>
      (x \<in> cs_heap ls q \<union> cs_heap ls p \<and> y \<in> cs_heap ls q \<union> cs_heap ls p)" for x y
  proof
    show "same_set l1 x y" if "same_set ls x y \<or> (x \<in> cs_heap ls q \<union> cs_heap ls p \<and> y \<in> cs_heap ls q \<union> cs_heap ls p)"
    proof -
      have "same_set l1 x y" if "r \<in> set (cs_sets ls)" "x \<in> cs_heap ls r" "y \<in> cs_heap ls r" for r
      proof (cases "r = p")
        case True
        with that q1 show ?thesis unfolding same_set_def heap by (intro bexI [of _ q]) auto
      next
        case False
        with that show ?thesis unfolding same_set_def heap sets by (intro bexI [of _ r]) auto
      qed
      moreover have "same_set l1 x y" if "x \<in> cs_heap ls q \<union> cs_heap ls p" "y \<in> cs_heap ls q \<union> cs_heap ls p"
        using that q1 unfolding same_set_def heap by (intro bexI [of _ q]) auto
      ultimately show ?thesis using that unfolding same_set_def by blast
    qed
  qed (auto simp: same_set_def sets heap split: if_splits)
  have sb: "same_set ls x b \<longleftrightarrow> x \<in> cs_heap ls p" for x
    by (rule same_set_in [OF Cons.prems(1) p])
  have sc: "same_set ls x c \<longleftrightarrow> x \<in> cs_heap ls q" for x
    by (rule same_set_in [OF Cons.prems(1-3)])
  have new: "d \<in> members l1 \<and> \<not> same_set l1 c d" if "d \<in> set bs" for d
  proof -
    have "\<not> same_set ls c d" "\<not> same_set ls b d" "d \<in> members ls" using Cons.prems(4,5) that by auto
    then show ?thesis using sb [of d] sc [of d] same_set_sym m1 unfolding same1 by blast
  qed
  have "sorted_wrt (\<lambda>x y. \<not> same_set l1 x y) bs"
  proof (rule sorted_wrt_mono_rel [of bs "\<lambda>x y. \<not> same_set ls x y"])
    fix x y assume "x \<in> set bs" "y \<in> set bs" "\<not> same_set ls x y"
    moreover have "\<not> same_set ls c x" "\<not> same_set ls b x" using Cons.prems(4,5) \<open>x \<in> set bs\<close> by auto
    ultimately show "\<not> same_set l1 x y" using sb [of x] sc [of x] same_set_sym unfolding same1 by blast
  qed (use Cons.prems(5) in simp)
  from Cons.IH [OF ok1 q1 c1 _ this] new obtain l2 where l2: "fold (merge_base c) bs (l1, Some q) = (l2, Some q)"
    "partition_ok l2" "q \<in> set (cs_sets l2)" "members l2 = members l1" "\<forall>b \<in> set bs. b \<in> cs_heap l2 q"
    "cs_heap l1 q \<subseteq> cs_heap l2 q" "cs_next l2 = cs_next l1" "\<forall>x y. same_set l1 x y \<longrightarrow> same_set l2 x y"
    "\<forall>x y. same_set l2 x y \<longrightarrow> same_set l1 x y \<or> (x \<in> cs_heap l1 q \<or> (\<exists>b \<in> set bs. same_set l1 x b)) \<and>
      (y \<in> cs_heap l1 q \<or> (\<exists>b \<in> set bs. same_set l1 y b))" by blast
  let ?G = "\<lambda>x. x \<in> cs_heap ls q \<or> (\<exists>d \<in> set (b # bs). same_set ls x d)"
  have inq: "?G x" if "x \<in> cs_heap ls q \<union> cs_heap ls p" for x using that sb [of x] by auto
  have grow: "?G x" if "x \<in> cs_heap l1 q \<or> (\<exists>b \<in> set bs. same_set l1 x b)" for x
    using that inq [of x] unfolding same1 heap by auto
  have "same_set ls x y \<or> ?G x \<and> ?G y" if "same_set l2 x y" for x y
  proof -
    from l2(9) that consider "same_set l1 x y"
      | "x \<in> cs_heap l1 q \<or> (\<exists>b \<in> set bs. same_set l1 x b)" "y \<in> cs_heap l1 q \<or> (\<exists>b \<in> set bs. same_set l1 y b)" by blast
    then show ?thesis
    proof cases
      case 1
      then show ?thesis using inq unfolding same1 by blast
    next
      case 2
      then show ?thesis using grow by blast
    qed
  qed
  then have "\<forall>x y. same_set l2 x y \<longrightarrow> same_set ls x y \<or> ?G x \<and> ?G y" by blast
  moreover have "\<forall>x y. same_set ls x y \<longrightarrow> same_set l2 x y" using l2(8) same1 by blast
  moreover have "b \<in> cs_heap l2 q" "cs_heap ls q \<subseteq> cs_heap l2 q" using l2(6) p(2) heap by auto
  moreover have "cs_next l2 = cs_next ls" using l2(7) by (simp add: l1_def)
  ultimately show ?case using step l2(1-5) m1 by (intro exI [of _ l2]) simp
qed

lemma addAction_components:
  assumes comp: "components db ds ls" and new: "c \<notin> ds" "\<not> is_Link db c"
    and known: "set (getBaseContexts db c) \<subseteq> ds"
    and apart: "sorted_wrt (\<lambda>x y. \<not> connected db ds x y) (getBaseContexts db c)"
  shows "\<exists>ls'. addAction db addr c ls = Inr ls' \<and> components db (insert c ds) ls'"
proof -
  have ok: "partition_ok ls" and mem: "members ls = ds" using comp by (simp_all add: components_def)
  have fc: "find_set ls c = None" using new mem by (simp add: find_set_None)
  let ?ds = "insert c ds"
  have old: "connected db ?ds x y" if "same_set ls x y" for x y
    using comp that connected_mono [of db ds x y ?ds] by (auto simp: components_def)
  have edges: "same_set ls d b" if "d \<in> ds" "b \<in> set (getBaseContexts db d)" for d b
    using comp that by (simp add: components_def)
  show ?thesis
  proof (cases "getBaseContexts db c")
    case Nil
    define l1 where "l1 = ls\<lparr>cs_heap := (cs_heap ls)(cs_next ls := {c}),
      cs_sets := insort_key addr (cs_next ls) (cs_sets ls), cs_next := Suc (cs_next ls)\<rparr>"
    have r: "addAction db addr c ls = Inr l1" using new Nil fc by (simp add: addAction_def l1_def)
    have lt: "p < cs_next ls" if "p \<in> set (cs_sets ls)" for p using ok that by (simp add: partition_ok_def)
    have sets: "set (cs_sets l1) = insert (cs_next ls) (set (cs_sets ls))" by (simp add: l1_def set_insort_key)
    have heap: "cs_heap l1 p = (if p = cs_next ls then {c} else cs_heap ls p)" for p by (simp add: l1_def)
    have cn: "c \<notin> cs_heap ls p" if "p \<in> set (cs_sets ls)" for p using new mem that by (auto simp: members_def)
    have "distinct (cs_sets l1)" using ok lt by (auto simp: l1_def partition_ok_def distinct_insort)
    then have "partition_ok l1"
      using ok lt cn unfolding partition_ok_def sets heap by (auto simp: l1_def less_SucI)
    moreover have "members l1 = ?ds"
      using mem lt unfolding members_def sets heap by force
    moreover have s1: "same_set l1 x y \<longleftrightarrow> same_set ls x y \<or> x = c \<and> y = c" for x y
      using lt unfolding same_set_def sets heap by force
    ultimately have "components db ?ds l1"
      using old edges Nil by (auto simp: components_def connected_def)
    with r show ?thesis by blast
  next
    case (Cons b bs)
    from Cons known have "b \<in> members ls" by (simp add: mem)
    then obtain p where p: "p \<in> set (cs_sets ls)" "b \<in> cs_heap ls p" by (auto simp: members_def)
    have fb: "find_set ls b = Some p" using p find_set_Some [OF ok] by simp
    define l1 where "l1 = ls\<lparr>cs_heap := (cs_heap ls)(p := insert c (cs_heap ls p))\<rparr>"
    have step: "merge_base c b (ls, None) = (l1, Some p)" by (simp add: merge_base_def fb l1_def)
    have sets: "set (cs_sets l1) = set (cs_sets ls)" by (simp add: l1_def)
    have heap: "cs_heap l1 r = (if r = p then insert c (cs_heap ls p) else cs_heap ls r)" for r by (simp add: l1_def)
    have cn: "c \<notin> cs_heap ls r" if "r \<in> set (cs_sets ls)" for r using new mem that by (auto simp: members_def)
    have ok1: "partition_ok l1"
      using ok cn unfolding partition_ok_def sets heap by (auto simp: l1_def)
    have s1: "same_set l1 x y \<longleftrightarrow> same_set ls x y \<or> (x \<in> insert c (cs_heap ls p) \<and> y \<in> insert c (cs_heap ls p))" for x y
      unfolding same_set_def sets heap using p(1) by auto
    have sb: "same_set ls x b \<longleftrightarrow> x \<in> cs_heap ls p" for x
      by (rule same_set_in [OF ok p])
    have m1: "members l1 = ?ds" using mem p(1) unfolding members_def sets heap by auto
    have bd: "b \<in> ds" "set bs \<subseteq> ds" using Cons known by auto
    have notc: "\<not> same_set ls c x" for x using same_set_refl [of ls c] same_set_trans [OF ok] same_set_sym mem new(1) by blast
    have apart': "sorted_wrt (\<lambda>x y. \<not> same_set ls x y) (b # bs)"
      by (rule sorted_wrt_mono_rel [OF _ apart [unfolded Cons]])
        (use components_connected [OF comp] known Cons in auto)
    then have nb: "\<not> same_set ls b d" if "d \<in> set bs" for d using that by simp
    have q1: "\<forall>d \<in> set bs. d \<in> members l1 \<and> \<not> same_set l1 c d"
      using bd new(1) nb sb same_set_sym notc unfolding s1 m1 by blast
    have q2: "sorted_wrt (\<lambda>x y. \<not> same_set l1 x y) bs"
    proof (rule sorted_wrt_mono_rel [of bs "\<lambda>x y. \<not> same_set ls x y"])
      fix x y assume "x \<in> set bs" "y \<in> set bs" "\<not> same_set ls x y"
      then show "\<not> same_set l1 x y" using nb [of x] sb [of x] same_set_sym bd new(1) unfolding s1 by blast
    qed (use apart' in simp)
    have p1: "p \<in> set (cs_sets l1)" "c \<in> cs_heap l1 p" using p(1) by (simp_all add: sets heap)
    from merge_bases [OF ok1 p1 q1 q2] obtain l2 where l2: "fold (merge_base c) bs (l1, Some p) = (l2, Some p)"
      "partition_ok l2" "p \<in> set (cs_sets l2)" "members l2 = members l1" "\<forall>d \<in> set bs. d \<in> cs_heap l2 p"
      "cs_heap l1 p \<subseteq> cs_heap l2 p" "\<forall>x y. same_set l1 x y \<longrightarrow> same_set l2 x y"
      "\<forall>x y. same_set l2 x y \<longrightarrow> same_set l1 x y \<or> (x \<in> cs_heap l1 p \<or> (\<exists>d \<in> set bs. same_set l1 x d)) \<and>
        (y \<in> cs_heap l1 p \<or> (\<exists>d \<in> set bs. same_set l1 y d))" by blast
    have r: "addAction db addr c ls = Inr l2" using new Cons fc step l2(1) by (simp add: addAction_def)
    have cb: "connected db ?ds c d" if "d \<in> set (b # bs)" for d using Cons that by (intro connected_base) simp_all
    have toc: "connected db ?ds x c" if "x \<in> cs_heap l1 p" for x
    proof (cases "x = c")
      case True
      then show ?thesis by (simp add: connected_def)
    next
      case False
      then have "same_set ls x b" using that sb by (simp add: heap)
      then show ?thesis using old cb [of b] connected_sym connected_trans by (metis list.set_intros(1))
    qed
    have both: "connected db ?ds x y" if "connected db ?ds x c" "connected db ?ds y c" for x y
      using that connected_sym connected_trans by blast
    have con1: "connected db ?ds x y" if "same_set l1 x y" for x y
    proof (cases "same_set ls x y")
      case False
      then have "x \<in> cs_heap l1 p" "y \<in> cs_heap l1 p" using that by (simp_all add: s1 heap)
      then show ?thesis using both toc by blast
    qed (rule old)
    have toc2: "connected db ?ds x c" if "x \<in> cs_heap l1 p \<or> (\<exists>d \<in> set bs. same_set l1 x d)" for x
      using that
    proof
      assume "\<exists>d \<in> set bs. same_set l1 x d"
      then obtain d where "d \<in> set bs" "same_set l1 x d" ..
      then have "connected db ?ds x d" "connected db ?ds d c" by (simp_all add: con1 connected_sym [OF cb])
      then show ?thesis by (rule connected_trans)
    qed (rule toc)
    have con2: "connected db ?ds x y" if "same_set l2 x y" for x y
    proof (rule l2(8) [THEN spec, THEN spec, THEN mp, THEN disjE, OF that])
      assume "(x \<in> cs_heap l1 p \<or> (\<exists>d \<in> set bs. same_set l1 x d)) \<and> (y \<in> cs_heap l1 p \<or> (\<exists>d \<in> set bs. same_set l1 y d))"
      then show "connected db ?ds x y" by (elim conjE) (rule both; rule toc2; assumption)
    qed (rule con1)
    have edge2: "same_set l2 d e" if "d \<in> ?ds" "e \<in> set (getBaseContexts db d)" for d e
    proof (cases "d = c")
      case True
      then have "e \<in> cs_heap l2 p" "d \<in> cs_heap l2 p" using that Cons l2(5,6) p(2) p1(2) by (auto simp: heap)
      then show ?thesis using l2(3) unfolding same_set_def by blast
    next
      case False
      then show ?thesis using that edges l2(7) s1 by blast
    qed
    have "components db ?ds l2"
      unfolding components_def using l2(2,4) m1 con2 edge2 by blast
    with r show ?thesis by blast
  qed
qed

text \<open>The contexts come after their bases, and the bases of a context are not connected among each
  other by the contexts before it.\<close>

fun bases_first :: "database \<Rightarrow> idx set \<Rightarrow> idx list \<Rightarrow> bool" where
  "bases_first db ds [] \<longleftrightarrow> True"
| "bases_first db ds (c # cs) \<longleftrightarrow>
     (if is_Link db c then bases_first db ds cs
      else c \<notin> ds \<and> set (getBaseContexts db c) \<subseteq> ds \<and>
        sorted_wrt (\<lambda>x y. \<not> connected db ds x y) (getBaseContexts db c) \<and> bases_first db (insert c ds) cs)"

lemma calculateSets_components:
  "components db ds ls \<Longrightarrow> bases_first db ds cs \<Longrightarrow>
   \<exists>ls'. foldR (\<lambda>c ls. if is_Link db c then Inr ls else addAction db addr c ls) cs ls = Inr ls' \<and>
     components db (ds \<union> {c \<in> set cs. \<not> is_Link db c}) ls'"
proof (induction cs arbitrary: ds ls)
  case (Cons c cs)
  show ?case
  proof (cases "is_Link db c")
    case True
    moreover have "{x \<in> set (c # cs). \<not> is_Link db x} = {x \<in> set cs. \<not> is_Link db x}" using True by auto
    ultimately show ?thesis using Cons by simp
  next
    case False
    with Cons.prems addAction_components [OF Cons.prems(1), of c addr] obtain l1 where
      l1: "addAction db addr c ls = Inr l1" "components db (insert c ds) l1" by auto
    have "ds \<union> {x \<in> set (c # cs). \<not> is_Link db x} = insert c ds \<union> {x \<in> set cs. \<not> is_Link db x}" using False by auto
    with Cons.IH [OF l1(2)] Cons.prems False l1(1) show ?thesis by simp
  qed
qed simp

lemma components_empty: "components db {} no_sets"
  by (simp add: components_def partition_ok_def members_def same_set_def no_sets_def)

section \<open>The groups partition the links\<close>

definition group_key :: "(nat \<Rightarrow> nat) \<Rightarrow> string \<times> nat \<Rightarrow> string \<times> nat" where
  "group_key addr k = (fst k, addr (snd k))"

lemma enter_link_key [simp]: "(\<lambda>(s, p). (s, addr p)) = group_key addr"
  by (auto simp: group_key_def)

text \<open>The links of a list under the key of the map.\<close>

definition link_key :: "database \<Rightarrow> context_sets \<Rightarrow> idx \<Rightarrow> (string \<times> nat) result" where
  "link_key db ls l =
     bindR (getLinkTarget db l) (\<lambda>b.
     bindR (of_option (RuntimeError ''verify'') (find_set ls b)) (\<lambda>p. Inr (getIdentifier db l, p)))"

lemma enter_links:
  "foldR (enter_link db addr ls) cs m = Inr m' \<Longrightarrow> mm_sorted (group_key addr) m \<Longrightarrow>
   mm_sorted (group_key addr) m' \<and>
   set m' = set m \<union> {(k, l). l \<in> set cs \<and> is_Link db l \<and> link_key db ls l = Inr k}"
proof (induction cs arbitrary: m)
  case (Cons c cs)
  then obtain m1 where m1: "enter_link db addr ls c m = Inr m1" "foldR (enter_link db addr ls) cs m1 = Inr m'"
    by (auto simp: bindR_eq_Inr)
  from m1(1) have "mm_sorted (group_key addr) m1 \<and>
      set m1 = set m \<union> {(k, l). l = c \<and> is_Link db l \<and> link_key db ls l = Inr k}"
    using Cons.prems(2) by (auto simp: enter_link_def link_key_def bindR_eq_Inr split: if_splits)
  with Cons.IH [OF m1(2)] show ?case by auto
qed simp

lemma inj_group_key: "inj addr \<Longrightarrow> inj (group_key addr)"
  by (auto simp: inj_on_def group_key_def prod_eq_iff)

lemma collate_split:
  assumes "inj addr" and "mm_sorted (group_key addr) ((k, l) # m)"
  shows "takeWhile (\<lambda>e. fst e = k) m = filter (\<lambda>e. fst e = k) m"
    and "dropWhile (\<lambda>e. fst e = k) m = filter (\<lambda>e. fst e \<noteq> k) m"
proof -
  have eq: "(\<not> group_key addr k < group_key addr (fst e)) = (fst e = k)" if "e \<in> set m" for e
    using assms that inj_group_key [OF assms(1)] by (auto simp: inj_eq not_less order_antisym_conv)
  have "takeWhile (\<lambda>e. fst e = k) m = takeWhile (\<lambda>e. \<not> group_key addr k < group_key addr (fst e)) m"
    "dropWhile (\<lambda>e. fst e = k) m = dropWhile (\<lambda>e. \<not> group_key addr k < group_key addr (fst e)) m"
    by (simp_all add: eq cong: takeWhile_cong dropWhile_cong)
  with takeWhile_first_key [OF assms(2)] inj_group_key [OF assms(1)]
  show "takeWhile (\<lambda>e. fst e = k) m = filter (\<lambda>e. fst e = k) m"
    "dropWhile (\<lambda>e. fst e = k) m = filter (\<lambda>e. fst e \<noteq> k) m"
    by (simp_all add: inj_eq)
qed

lemma make_group_links: "make_group db da ls k links = Inr g \<Longrightarrow> lg_links g = links \<and> lg_name g = fst k"
  by (auto simp: make_group_def bindR_eq_Inr Let_def)

lemma collate_links:
  assumes "inj addr"
  shows "collate db da ls m = Inr gs \<Longrightarrow> mm_sorted (group_key addr) m \<Longrightarrow>
    (\<exists>g \<in> set gs. l \<in> set (lg_links g) \<and> l' \<in> set (lg_links g)) \<longleftrightarrow> (\<exists>k. (k, l) \<in> set m \<and> (k, l') \<in> set m)"
proof (induction db da ls m arbitrary: gs rule: collate.induct)
  case (1 db da ls)
  then show ?case by simp
next
  case (2 db da ls k x m)
  note split = collate_split [OF assms "2.prems"(2)]
  let ?r = "filter (\<lambda>e. fst e \<noteq> k) m"
  from "2.prems"(1) obtain g gs' where g: "make_group db da ls k (x # map snd (filter (\<lambda>e. fst e = k) m)) = Inr g"
    and gs': "collate db da ls ?r = Inr gs'" and gs: "gs = g # gs'"
    by (auto simp: bindR_eq_Inr split)
  have links: "y \<in> set (lg_links g) \<longleftrightarrow> (k, y) \<in> set ((k, x) # m)" for y
    using make_group_links [OF g] by force
  have "mm_sorted (group_key addr) ?r" using "2.prems"(2) by (auto simp: mm_sorted_def sorted_wrt_map sorted_wrt_filter)
  with "2.IH" [OF g [folded split(1)] gs' [folded split(2)]]
  have IH: "(\<exists>g \<in> set gs'. l \<in> set (lg_links g) \<and> l' \<in> set (lg_links g)) \<longleftrightarrow> (\<exists>j. (j, l) \<in> set ?r \<and> (j, l') \<in> set ?r)"
    by (simp only: split)
  have "(\<exists>j. (j, l) \<in> set ((k, x) # m) \<and> (j, l') \<in> set ((k, x) # m)) \<longleftrightarrow>
      (l \<in> set (lg_links g) \<and> l' \<in> set (lg_links g)) \<or> (\<exists>j. (j, l) \<in> set ?r \<and> (j, l') \<in> set ?r)"
    unfolding links by (auto simp del: split_paired_Ex)
  with IH show ?case unfolding gs by simp
qed

section \<open>The properties\<close>

definition action_element :: "string \<Rightarrow> idx list \<Rightarrow> indexed_object" where
  "action_element n bases = InterfaceElement \<lparr>if_class = Action, if_identifier = n, if_parent = None, if_children = [],
     if_baseContexts = bases, if_size = 1, if_contextTypes = [], if_canonicalType = []\<rparr>"

text \<open>An action, two actions that inherit from it, and one that inherits from both.\<close>

definition diamond :: database where
  "diamond = [OtherObject, action_element ''A'' [], action_element ''B'' [1], action_element ''C'' [1],
     action_element ''D'' [2, 3]]"

text \<open>C35. When every context comes after its base contexts and no two bases of a context are related
  already, \<open>LinkAnalysis::calculateSets\<close> gives the components of the contexts under inheritance: every
  context is in a set, and two contexts are in the same set exactly when a chain of base contexts
  connects them.\<close>

theorem calculateSets_exact:
  assumes "bases_first db {} contexts"
  shows "\<exists>ls. calculateSets db addr contexts = Inr ls \<and>
    (\<forall>x \<in> set contexts. \<not> is_Link db x \<longrightarrow> find_set ls x \<noteq> None \<and>
      (\<forall>y. find_set ls y = find_set ls x \<longleftrightarrow> connected db {c \<in> set contexts. \<not> is_Link db c} x y))"
proof -
  let ?ds = "{c \<in> set contexts. \<not> is_Link db c}"
  from calculateSets_components [OF components_empty assms, of addr] obtain ls where
    ls: "calculateSets db addr contexts = Inr ls" "components db ?ds ls" by (auto simp: calculateSets_def)
  have ok: "partition_ok ls" using ls(2) by (simp add: components_def)
  have "find_set ls x \<noteq> None \<and> (\<forall>y. find_set ls y = find_set ls x \<longleftrightarrow> connected db ?ds x y)" if x: "x \<in> ?ds" for x
  proof -
    have m: "x \<in> members ls" using ls(2) x by (simp add: components_def)
    then have some: "find_set ls x \<noteq> None" by (simp add: find_set_None)
    then have "find_set ls y = find_set ls x \<longleftrightarrow> same_set ls x y" for y
      by (auto simp: same_set_find [OF ok])
    then show ?thesis using some components_connected [OF ls(2) x] by blast
  qed
  with ls(1) show ?thesis by blast
qed

theorem calculateSets_exact_witness:
  "\<exists>ls. calculateSets diamond id [1, 2, 3] = Inr ls \<and>
    (\<forall>x \<in> set [1, 2, 3]. \<not> is_Link diamond x \<longrightarrow> find_set ls x \<noteq> None \<and>
      (\<forall>y. find_set ls y = find_set ls x \<longleftrightarrow> connected diamond {c \<in> set [1, 2, 3]. \<not> is_Link diamond c} x y))"
  by (rule calculateSets_exact)
    (simp add: is_Link_def getBaseContexts_def interface_at_def nth_opt_def diamond_def action_element_def)

text \<open>C39. A context whose second base is in the set of its first base makes \<open>addAction\<close> merge the set with
  itself and erase it: every context of the set is lost, the new one included.\<close>

theorem addAction_loses_set:
  assumes "partition_ok ls" and "\<not> is_Link db c" and "find_set ls c = None"
    and "getBaseContexts db c = [b1, b2]" and "find_set ls b1 = Some p" and "find_set ls b2 = Some p"
  shows "\<exists>ls'. addAction db addr c ls = Inr ls' \<and> find_set ls' c = None \<and>
    (\<forall>x \<in> cs_heap ls p. find_set ls' x = None)"
proof -
  let ?h = "(cs_heap ls)(p := insert c (cs_heap ls p))"
  have p: "p \<in> set (cs_sets ls)" "b1 \<in> cs_heap ls p" "b2 \<in> cs_heap ls p"
    using assms(1,5,6) by (simp_all add: find_set_Some)
  have only: "q = p" if "q \<in> set (cs_sets ls)" "b2 \<in> cs_heap ls q" for q
    using assms(1) that p unfolding partition_ok_def by blast
  define l1 where "l1 = ls\<lparr>cs_heap := ?h\<rparr>"
  have "find_set l1 b2 = Some p"
  proof -
    have "find_set l1 b2 \<noteq> None" using p by (auto simp: find_set_None members_def l1_def)
    then obtain q where q: "find_set l1 b2 = Some q" by blast
    then have "q \<in> set (cs_sets ls)" "b2 \<in> ?h q" by (auto simp: find_set_def find_Some_iff l1_def)
    then have "q = p" using only by (cases "q = p") auto
    with q show ?thesis by simp
  qed
  then have r: "addAction db addr c ls = Inr (l1\<lparr>cs_heap := ?h(p := ?h p \<union> ?h p), cs_sets := remove1 p (cs_sets ls)\<rparr>)"
    using assms by (simp add: addAction_def merge_base_def l1_def)
  have lost: "x \<notin> members (l1\<lparr>cs_heap := ?h(p := ?h p \<union> ?h p), cs_sets := remove1 p (cs_sets ls)\<rparr>)"
    if "x = c \<or> x \<in> cs_heap ls p" for x
  proof -
    have "distinct (cs_sets ls)" using assms(1) by (simp add: partition_ok_def)
    moreover have "x \<notin> cs_heap ls q" if "q \<in> set (cs_sets ls)" "q \<noteq> p" for q
      using \<open>x = c \<or> x \<in> cs_heap ls p\<close>
    proof
      assume "x = c"
      then show ?thesis using assms(3) that by (auto simp: find_set_None members_def)
    next
      assume "x \<in> cs_heap ls p"
      then show ?thesis using assms(1) p(1) that unfolding partition_ok_def by blast
    qed
    ultimately show ?thesis by (auto simp: members_def set_remove1_eq)
  qed
  show ?thesis using r lost by (auto simp: find_set_None)
qed

theorem addAction_loses_set_witness:
  "\<exists>ls ls'. calculateSets diamond id [1, 2, 3] = Inr ls \<and> addAction diamond id 4 ls = Inr ls' \<and>
    find_set ls' 1 = None \<and> find_set ls' 4 = None"
proof -
  define ls :: context_sets where "ls = \<lparr>cs_heap = (\<lambda>_. {})(0 := {1, 2, 3}), cs_sets = [0], cs_next = 1\<rparr>"
  have ls: "calculateSets diamond id [1, 2, 3] = Inr ls"
    by (simp add: calculateSets_def addAction_def merge_base_def is_Link_def getBaseContexts_def interface_at_def
        nth_opt_def diamond_def action_element_def no_sets_def find_set_def ls_def fun_eq_iff insert_commute)
  have "\<exists>ls'. addAction diamond id 4 ls = Inr ls' \<and> find_set ls' 4 = None \<and>
      (\<forall>x \<in> cs_heap ls 0. find_set ls' x = None)"
    by (rule addAction_loses_set [of _ _ _ 2 3])
      (simp_all add: partition_ok_def is_Link_def getBaseContexts_def interface_at_def nth_opt_def diamond_def
        action_element_def find_set_def ls_def)
  with ls show ?thesis by (auto simp: ls_def)
qed

text \<open>C36. \<open>LinkAnalysis::calculateGroups\<close> puts two links in one group exactly when they have the same
  identifier and their targets are in the same set of contexts; every link is in a group.\<close>

theorem link_groups_exact:
  assumes "inj addr" and "calculateGroups db addr da ls contexts = Inr groups"
    and "l \<in> set contexts" "is_Link db l" "getLinkTarget db l = Inr t"
    and "l' \<in> set contexts" "is_Link db l'" "getLinkTarget db l' = Inr t'"
  shows "(\<exists>g \<in> set groups. l \<in> set (lg_links g) \<and> l' \<in> set (lg_links g)) \<longleftrightarrow>
    getIdentifier db l = getIdentifier db l' \<and> find_set ls t = find_set ls t'"
proof -
  from assms(2) obtain m where m: "foldR (enter_link db addr ls) contexts [] = Inr m" "collate db da ls m = Inr groups"
    by (auto simp: calculateGroups_def bindR_eq_Inr)
  from enter_links [OF m(1)] have s: "mm_sorted (group_key addr) m"
    and e: "\<And>k x. (k, x) \<in> set m \<longleftrightarrow> x \<in> set contexts \<and> is_Link db x \<and> link_key db ls x = Inr k" by auto
  have "find_set ls t \<noteq> None" if "is_Link db x" "x \<in> set contexts" "getLinkTarget db x = Inr t" for x t
  proof -
    from foldR_visits [OF m(1) that(2)] obtain n n' where "enter_link db addr ls x n = Inr n'" by blast
    then show ?thesis using that by (auto simp: enter_link_def bindR_eq_Inr)
  qed
  with assms(3-8) obtain p p' where p: "find_set ls t = Some p" "find_set ls t' = Some p'" by fastforce
  have "(\<exists>g \<in> set groups. l \<in> set (lg_links g) \<and> l' \<in> set (lg_links g)) \<longleftrightarrow>
      (\<exists>k. link_key db ls l = Inr k \<and> link_key db ls l' = Inr k)"
    unfolding collate_links [OF assms(1) m(2) s] e using assms by blast
  also have "\<dots> \<longleftrightarrow> getIdentifier db l = getIdentifier db l' \<and> find_set ls t = find_set ls t'"
    using p assms by (auto simp: link_key_def)
  finally show ?thesis .
qed

text \<open>An action and two links to it with the same name.\<close>

definition link_sample :: database where
  "link_sample = [OtherObject, action_element ''A'' [],
     InterfaceElement \<lparr>if_class = Link, if_identifier = ''L'', if_parent = None, if_children = [],
       if_baseContexts = [1], if_size = 1, if_contextTypes = [], if_canonicalType = []\<rparr>,
     InterfaceElement \<lparr>if_class = Link, if_identifier = ''L'', if_parent = None, if_children = [],
       if_baseContexts = [1], if_size = 1, if_contextTypes = [], if_canonicalType = []\<rparr>]"

theorem link_groups_exact_witness:
  "\<exists>ls groups. calculateSets link_sample id [1, 2, 3] = Inr ls \<and>
    calculateGroups link_sample id no_analysis ls [1, 2, 3] = Inr groups \<and>
    (\<exists>g \<in> set groups. 2 \<in> set (lg_links g) \<and> 3 \<in> set (lg_links g))"
proof -
  note eval = is_Link_def getBaseContexts_def interface_at_def nth_opt_def link_sample_def action_element_def
    find_set_def getLinkTarget_def getIdentifier_def
  define ls :: context_sets where "ls = \<lparr>cs_heap = (\<lambda>_. {})(0 := {1}), cs_sets = [0], cs_next = 1\<rparr>"
  have ls: "calculateSets link_sample id [1, 2, 3] = Inr ls"
    by (simp add: calculateSets_def addAction_def no_sets_def ls_def eval)
  have inst: "getInstances db no_analysis e b = Inr []" for db e b
    by (simp add: getInstances_def no_analysis_def)
  have "\<exists>groups. calculateGroups link_sample id no_analysis ls [1, 2, 3] = Inr groups"
    by (simp add: calculateGroups_def enter_link_def make_group_def concrete_actions_def inst Let_def ls_def eval
        group_key_def)
  then obtain groups where g: "calculateGroups link_sample id no_analysis ls [1, 2, 3] = Inr groups" by blast
  have "getIdentifier link_sample 2 = getIdentifier link_sample 3" by (simp add: eval)
  with link_groups_exact [OF inj_on_id g, of 2 1 3 1] ls g show ?thesis by (auto simp: eval)
qed

end
