(* ===== verification/ElementVectors.thy ===== *)
theory ElementVectors
  imports Derivation
begin

text \<open>
  The element vectors of \<open>src/eg/invocation.cpp\<close>: the concrete instances of a list of interface elements,
  each with the interface element that stands for it (\<open>getElementVector\<close>), and the choice between two
  interface elements with one instance (\<open>chooseMostDerived\<close>).
\<close>

type_synonym element_pair = "idx \<times> idx"

section \<open>The operations\<close>

text \<open>Null pointers to contexts are \<open>None\<close>; the depth of the recursion is the length of a chain of base
  contexts.\<close>

fun chooseMostDerived :: "nat \<Rightarrow> database \<Rightarrow> idx option \<Rightarrow> idx option \<Rightarrow> idx option \<Rightarrow> idx option result" where
  "chooseMostDerived 0 db c pFirst pSecond = Inl OutOfFuel"
| "chooseMostDerived (Suc k) db c pFirst pSecond =
     bindR (asserting (pFirst \<noteq> pSecond)) (\<lambda>_.
       if c = pFirst then Inr pFirst
       else if c = pSecond then Inr pSecond
       else case c of
         None \<Rightarrow> Inl UndefinedBehaviour
       | Some a \<Rightarrow>
           foldR (\<lambda>b pResult.
             bindR (chooseMostDerived k db (Some b) pFirst pSecond) (\<lambda>p.
               if p \<noteq> None then bindR (asserting (pResult = None)) (\<lambda>_. Inr p) else Inr pResult))
             (getBaseContexts db a) None)"

definition as_context :: "database \<Rightarrow> idx \<Rightarrow> idx option" where
  "as_context db i = (if context_at db i \<noteq> None then Some i else None)"

text \<open>The body of the loop over the instances of an interface element: the concrete element is looked
  for in \<open>result\<close> and is appended when it is not there.\<close>

definition enter_instance :: "database \<Rightarrow> idx \<Rightarrow> idx \<Rightarrow> element_pair list \<Rightarrow> element_pair list result" where
  "enter_instance db x c result =
     bindR (mapR (\<lambda>(i, c').
         if c' = c then
           bindR (asserting (is_action db c)) (\<lambda>_.
           bindR (chooseMostDerived (tree_fuel db) db (getContext db c) (as_context db i) (as_context db x)) (\<lambda>p.
           bindR (of_option AssertFailed p) (\<lambda>i'. Inr (i', c'))))
         else Inr (i, c')) result) (\<lambda>result'.
       Inr (if c \<in> snd ` set result then result' else result' @ [(x, c)]))"

definition getElementVector :: "database \<Rightarrow> derivation_analysis \<Rightarrow> idx list \<Rightarrow> bool \<Rightarrow> element_pair list result" where
  "getElementVector db da interfaceElements bIncludeInherited =
     foldR (\<lambda>x result.
       bindR (getInstances db da x bIncludeInherited) (\<lambda>instances. foldR (enter_instance db x) instances result))
       interfaceElements []"

section \<open>The choice\<close>

definition base_of :: "database \<Rightarrow> idx \<Rightarrow> idx \<Rightarrow> bool" where
  "base_of db c b \<longleftrightarrow> b \<in> set (getBaseContexts db c)"

text \<open>The context \<open>b\<close> is \<open>c\<close> or a base of it, over any number of steps.\<close>

definition derives :: "database \<Rightarrow> idx \<Rightarrow> idx \<Rightarrow> bool" where
  "derives db c b \<longleftrightarrow> (base_of db)\<^sup>*\<^sup>* c b"

lemma derives_refl [simp]: "derives db c c"
  by (simp add: derives_def)

lemma derives_cases: "derives db c x \<longleftrightarrow> c = x \<or> (\<exists>b \<in> set (getBaseContexts db c). derives db b x)"
  unfolding derives_def base_of_def [symmetric]
  by (metis (no_types, lifting) base_of_def converse_rtranclpE converse_rtranclp_into_rtranclp rtranclp.rtrancl_refl)

lemma derives_trans: "derives db a b \<Longrightarrow> derives db b c \<Longrightarrow> derives db a c"
  unfolding derives_def by (rule rtranclp_trans)

text \<open>The loop over the bases keeps the only result that is not null.\<close>

definition keep_one :: "('a \<Rightarrow> 'b option result) \<Rightarrow> 'a list \<Rightarrow> 'b option \<Rightarrow> 'b option result" where
  "keep_one f = foldR (\<lambda>b r. bindR (f b) (\<lambda>p. if p \<noteq> None then bindR (asserting (r = None)) (\<lambda>_. Inr p) else Inr r))"

lemma keep_one_result:
  assumes "keep_one f bs r0 = Inr r"
  shows "(r = r0 \<and> (\<forall>b \<in> set bs. f b = Inr None)) \<or>
    (\<exists>b \<in> set bs. r0 = None \<and> r \<noteq> None \<and> f b = Inr r \<and> (\<forall>b' \<in> set bs. b' = b \<or> f b' = Inr None))"
  using assms unfolding keep_one_def
proof (induction bs arbitrary: r0)
  case (Cons b bs)
  then obtain p where p: "f b = Inr p" by (auto simp: bindR_eq_Inr)
  show ?case
  proof (cases p)
    case None
    with Cons.prems p Cons.IH [of r0] show ?thesis by auto
  next
    case (Some y)
    with Cons.prems p Cons.IH [of p] show ?thesis by (auto simp: bindR_eq_Inr)
  qed
qed simp

lemma chooseMostDerived_bases:
  assumes "c \<noteq> x" and "c \<noteq> y"
  shows "chooseMostDerived (Suc k) db (Some c) (Some x) (Some y) =
    bindR (asserting (x \<noteq> y)) (\<lambda>_. keep_one (\<lambda>b. chooseMostDerived k db (Some b) (Some x) (Some y)) (getBaseContexts db c) None)"
  using assms by (simp add: keep_one_def)

lemma choose_result:
  assumes "chooseMostDerived k db (Some c) (Some x) (Some y) = Inr r"
  shows "(derives db c x \<or> derives db c y \<longleftrightarrow> r \<noteq> None) \<and>
    (\<forall>p. r = Some p \<longrightarrow> (p = x \<or> p = y) \<and> derives db c p)"
  using assms
proof (induction k arbitrary: c r)
  case (Suc k)
  show ?case
  proof (cases "c = x \<or> c = y")
    case True
    then show ?thesis using Suc.prems by (auto simp: bindR_eq_Inr split: if_splits)
  next
    case False
    let ?f = "\<lambda>b. chooseMostDerived k db (Some b) (Some x) (Some y)"
    from Suc.prems False have "keep_one ?f (getBaseContexts db c) None = Inr r"
      by (auto simp: chooseMostDerived_bases bindR_eq_Inr simp del: chooseMostDerived.simps)
    note l = keep_one_result [OF this]
    have d: "derives db c z \<longleftrightarrow> (\<exists>b \<in> set (getBaseContexts db c). derives db b z)" if "z = x \<or> z = y" for z
      using False that derives_cases [of db c z] by auto
    from l show ?thesis
    proof
      assume n: "r = None \<and> (\<forall>b \<in> set (getBaseContexts db c). ?f b = Inr None)"
      then have "\<not> derives db b x \<and> \<not> derives db b y" if "b \<in> set (getBaseContexts db c)" for b
        using Suc.IH [of b None] that by blast
      with n d show ?thesis by blast
    next
      assume "\<exists>b \<in> set (getBaseContexts db c). None = None \<and> r \<noteq> None \<and> ?f b = Inr r \<and>
        (\<forall>b' \<in> set (getBaseContexts db c). b' = b \<or> ?f b' = Inr None)"
      then obtain b where b: "b \<in> set (getBaseContexts db c)" "r \<noteq> None" "?f b = Inr r" by blast
      from Suc.IH [OF b(3)] b d show ?thesis by blast
    qed
  qed
qed simp

text \<open>The context that is chosen is the more derived one.\<close>

lemma chooseMostDerived_derives:
  assumes "chooseMostDerived k db (Some c) (Some x) (Some y) = Inr (Some p)"
    and "derives db c x" and "derives db c y"
  shows "derives db p x \<and> derives db p y"
  using assms
proof (induction k arbitrary: c)
  case (Suc k)
  show ?case
  proof (cases "c = x \<or> c = y")
    case True
    then show ?thesis using Suc.prems by (auto simp: bindR_eq_Inr split: if_splits)
  next
    case False
    let ?f = "\<lambda>b. chooseMostDerived k db (Some b) (Some x) (Some y)"
    from Suc.prems(1) False have "keep_one ?f (getBaseContexts db c) None = Inr (Some p)"
      by (auto simp: chooseMostDerived_bases bindR_eq_Inr simp del: chooseMostDerived.simps)
    from keep_one_result [OF this] obtain b where b: "?f b = Inr (Some p)"
      and o: "\<And>b'. b' \<in> set (getBaseContexts db c) \<Longrightarrow> b' = b \<or> ?f b' = Inr None" by auto
    have "derives db b z" if z: "z = x \<or> z = y" for z
    proof -
      have "derives db c z" "c \<noteq> z" using z Suc.prems False by auto
      then obtain b' where b': "b' \<in> set (getBaseContexts db c)" "derives db b' z" using derives_cases by blast
      have "?f b' \<noteq> Inr None" using choose_result [of k db b' x y None] b'(2) z by auto
      with o b' show ?thesis by blast
    qed
    with Suc.IH [OF b] show ?thesis by blast
  qed
qed simp

section \<open>The element vector\<close>

text \<open>An element that has an instance is a context the instance derives from.\<close>

definition instance_ok :: "database \<Rightarrow> element_pair \<Rightarrow> bool" where
  "instance_ok db e \<longleftrightarrow> (is_action db (snd e) \<longrightarrow> context_at db (fst e) \<noteq> None \<and>
     (case getContext db (snd e) of None \<Rightarrow> False | Some a \<Rightarrow> derives db a (fst e)))"

text \<open>The result for the pairs of an interface element and an instance that were entered.\<close>

definition vector_of :: "database \<Rightarrow> element_pair set \<Rightarrow> element_pair list \<Rightarrow> bool" where
  "vector_of db ps r \<longleftrightarrow> distinct (map snd r) \<and> snd ` set r = snd ` ps \<and> set r \<subseteq> ps \<and>
     (\<forall>i c x. (i, c) \<in> set r \<longrightarrow> (x, c) \<in> ps \<longrightarrow> derives db i x)"

lemma mapR_append: "mapR f (xs @ ys) = bindR (mapR f xs) (\<lambda>us. bindR (mapR f ys) (\<lambda>vs. Inr (us @ vs)))"
  by (induction xs) (auto simp: bindR_def split: sum.splits)

lemma mapR_same: "(\<And>x. x \<in> set xs \<Longrightarrow> f x = Inr x) \<Longrightarrow> mapR f xs = Inr xs"
  by (induction xs) auto

lemma enter_instance_vector:
  assumes "enter_instance db x c result = Inr result'" and v: "vector_of db ps result"
    and ok: "\<forall>e \<in> insert (x, c) ps. instance_ok db e"
  shows "vector_of db (insert (x, c) ps) result'"
proof (cases "c \<in> snd ` set result")
  case False
  then have "mapR (\<lambda>(i, c'). if c' = c then F i c' else Inr (i, c')) result = Inr result" for F
    by (intro mapR_same) force
  with assms(1) False have r': "result' = result @ [(x, c)]" by (simp add: enter_instance_def)
  have "(y, c) \<notin> ps" for y using v False unfolding vector_of_def by (metis image_eqI snd_conv)
  with v False show ?thesis unfolding r' vector_of_def by auto
next
  case True
  then obtain i us vs where r: "result = us @ (i, c) # vs" by (auto dest: split_list)
  with v have d: "c \<notin> snd ` set us" "c \<notin> snd ` set vs" by (auto simp: vector_of_def)
  have same: "mapR (\<lambda>(i, c'). if c' = c then F i c' else Inr (i, c')) ws = Inr ws" if "c \<notin> snd ` set ws" for F ws
    using that by (intro mapR_same) force
  from assms(1) True obtain i' where act: "is_action db c"
    and ch: "chooseMostDerived (tree_fuel db) db (getContext db c) (as_context db i) (as_context db x) = Inr (Some i')"
    and r': "result' = us @ (i', c) # vs"
    by (auto simp: enter_instance_def r mapR_append same d bindR_eq_Inr)
  have ic: "(i, c) \<in> ps" using v r by (auto simp: vector_of_def)
  with ok act obtain a where a: "getContext db c = Some a" "derives db a i" "derives db a x"
    "as_context db i = Some i" "as_context db x = Some x"
    by (auto simp: instance_ok_def as_context_def split: option.splits)
  from ch a(1,4,5) have ch': "chooseMostDerived (tree_fuel db) db (Some a) (Some i) (Some x) = Inr (Some i')" by simp
  have i': "i' = i \<or> i' = x" using choose_result [OF ch'] by simp
  have der: "derives db i' i" "derives db i' x" using chooseMostDerived_derives [OF ch' a(2,3)] by simp_all
  have old: "derives db i y" if "(y, c) \<in> ps" for y using v r that by (auto simp: vector_of_def)
  have "derives db j y" if "(j, e) \<in> set result'" "(y, e) \<in> insert (x, c) ps" for j e y
  proof (cases "e = c")
    case True
    then have "j = i'" using that(1) d unfolding r' by force
    then show ?thesis using that(2) True der old derives_trans by blast
  next
    case False
    then have "(j, e) \<in> set result" "(y, e) \<in> ps" using that unfolding r r' by auto
    then show ?thesis using v by (auto simp: vector_of_def)
  qed
  moreover have "distinct (map snd result') \<and> snd ` set result' = snd ` insert (x, c) ps \<and> set result' \<subseteq> insert (x, c) ps"
    using v ic i' unfolding r r' vector_of_def by auto
  ultimately show ?thesis unfolding vector_of_def by blast
qed

lemma enter_instances_vector:
  "foldR (enter_instance db x) cs result = Inr result' \<Longrightarrow> vector_of db ps result \<Longrightarrow>
   \<forall>e \<in> ps \<union> Pair x ` set cs. instance_ok db e \<Longrightarrow> vector_of db (ps \<union> Pair x ` set cs) result'"
proof (induction cs arbitrary: result ps)
  case (Cons c cs)
  from Cons.prems(1) obtain r1 where r1: "enter_instance db x c result = Inr r1" "foldR (enter_instance db x) cs r1 = Inr result'"
    by (auto simp: bindR_eq_Inr)
  from enter_instance_vector [OF r1(1) Cons.prems(2)] Cons.prems(3) have "vector_of db (insert (x, c) ps) r1" by simp
  with Cons.IH [OF r1(2) this] Cons.prems(3) show ?case by simp
qed simp

text \<open>The pairs of the elements of a list with their instances.\<close>

definition instance_pairs :: "database \<Rightarrow> derivation_analysis \<Rightarrow> bool \<Rightarrow> idx list \<Rightarrow> element_pair set" where
  "instance_pairs db da b xs =
     {(x, c). x \<in> set xs \<and> (case getInstances db da x b of Inl _ \<Rightarrow> False | Inr is \<Rightarrow> c \<in> set is)}"

lemma getElementVector_vector:
  assumes "getElementVector db da xs b = Inr r" and "\<forall>e \<in> instance_pairs db da b xs. instance_ok db e"
  shows "vector_of db (instance_pairs db da b xs) r"
proof -
  have "foldR (\<lambda>x result. bindR (getInstances db da x b) (\<lambda>is. foldR (enter_instance db x) is result)) xs result = Inr result' \<Longrightarrow>
      vector_of db ps result \<Longrightarrow> \<forall>e \<in> ps \<union> instance_pairs db da b xs. instance_ok db e \<Longrightarrow>
      vector_of db (ps \<union> instance_pairs db da b xs) result'" for result result' ps
  proof (induction xs arbitrary: result ps)
    case Nil
    then show ?case by (simp add: instance_pairs_def)
  next
    case (Cons x xs)
    from Cons.prems(1) obtain "is" r1 where i: "getInstances db da x b = Inr is"
      "foldR (enter_instance db x) is result = Inr r1"
      "foldR (\<lambda>x result. bindR (getInstances db da x b) (\<lambda>is. foldR (enter_instance db x) is result)) xs r1 = Inr result'"
      by (auto simp: bindR_eq_Inr)
    have split: "instance_pairs db da b (x # xs) = Pair x ` set is \<union> instance_pairs db da b xs"
      using i(1) by (auto simp: instance_pairs_def)
    from Cons.prems(3) have ok: "\<forall>e \<in> (ps \<union> Pair x ` set is) \<union> instance_pairs db da b xs. instance_ok db e"
      unfolding split by blast
    then have "vector_of db (ps \<union> Pair x ` set is) r1"
      by (intro enter_instances_vector [OF i(2) Cons.prems(2)]) blast
    from Cons.IH [OF i(3) this ok] show ?case unfolding split by (simp add: Un_assoc)
  qed
  from this [of "[]" r "{}"] assms show ?thesis by (auto simp: getElementVector_def vector_of_def)
qed

section \<open>The property\<close>

text \<open>C17. When the instances of the given elements are actions of contexts that derive from them,
  \<open>getElementVector\<close> gives every instance once, with the most derived of the given elements it is an
  instance of.\<close>

theorem getElementVector_exact:
  assumes "getElementVector db da xs b = Inr r" and "\<forall>e \<in> instance_pairs db da b xs. instance_ok db e"
  shows "distinct (map snd r) \<and> snd ` set r = snd ` instance_pairs db da b xs \<and>
    (\<forall>(i, c) \<in> set r. (i, c) \<in> instance_pairs db da b xs \<and>
      (\<forall>x. (x, c) \<in> instance_pairs db da b xs \<longrightarrow> derives db i x))"
  using getElementVector_vector [OF assms] by (auto simp: vector_of_def)

definition sample_analysis :: derivation_analysis where
  "sample_analysis = \<lparr>m_compatibility = Map.empty, m_instanceMap = [], m_inheritanceMap = [(1, 4), (2, 5), (1, 6)]\<rparr>"

theorem getElementVector_exact_witness:
  "getElementVector inheritance_sample sample_analysis [1, 2] True = Inr [(1, 8), (2, 9)] \<and>
   distinct (map snd [(1 :: nat, 8 :: nat), (2, 9)]) \<and>
   {x. (x, 9) \<in> instance_pairs inheritance_sample sample_analysis True [1, 2]} \<subseteq> {x. derives inheritance_sample 2 x}"
proof -
  have r: "getElementVector inheritance_sample sample_analysis [1, 2] True = Inr [(1, 8), (2, 9)]" by code_simp
  have i: "getInstances inheritance_sample sample_analysis 1 True = Inr [8, 9]"
    "getInstances inheritance_sample sample_analysis 2 True = Inr [9]" by code_simp+
  have p: "instance_pairs inheritance_sample sample_analysis True [1, 2] = {(1, 8), (1, 9), (2, 9)}"
    by (auto simp: instance_pairs_def i simp del: One_nat_def)
  have c: "getContext inheritance_sample 8 = Some 1" "getContext inheritance_sample 9 = Some 2"
    "context_at inheritance_sample 1 \<noteq> None" "context_at inheritance_sample 2 \<noteq> None"
    "getBaseContexts inheritance_sample 2 = [1]" by code_simp+
  have "derives inheritance_sample 2 1" by (subst derives_cases) (simp add: c)
  then have "\<forall>e \<in> instance_pairs inheritance_sample sample_analysis True [1, 2]. instance_ok inheritance_sample e"
    using c unfolding p by (auto simp: instance_ok_def)
  from getElementVector_exact [OF r this] r show ?thesis by auto
qed

end
