(* ===== verification/NameResolution.thy ===== *)
theory NameResolution
  imports ElementVectors "HOL-Library.Product_Lexorder"
begin

text \<open>
  The name resolution of \<open>src/eg/name_resolution.cpp\<close>: the context and the type path of an invocation
  are expanded into a tree of names, held in a vector, in which every path from the root is a way to
  read the type path. \<open>std::set< ElementPair >\<close> is ordered by the addresses of the elements, which
  \<open>addr\<close> gives.
\<close>

section \<open>The names\<close>

record name_node =
  nm_element :: "element_pair option"
  nm_isMember :: bool
  nm_isReference :: bool
  nm_children :: "nat list"

definition mk_name :: "element_pair option \<Rightarrow> bool \<Rightarrow> bool \<Rightarrow> name_node" where
  "mk_name e bIsMember bIsReference =
     \<lparr>nm_element = e, nm_isMember = bIsMember, nm_isReference = bIsReference, nm_children = []\<rparr>"

definition getConcrete :: "name_node \<Rightarrow> idx option" where
  "getConcrete n = map_option snd (nm_element n)"

definition isTerminal :: "name_node \<Rightarrow> bool" where
  "isTerminal n \<longleftrightarrow> nm_children n = []"

section \<open>The operations\<close>

definition add :: "nat \<Rightarrow> element_pair \<Rightarrow> bool \<Rightarrow> bool \<Rightarrow> name_node list \<Rightarrow> name_node list result" where
  "add iParent element bIsMember bIsReference nodes =
     bindR (asserting (iParent < length nodes)) (\<lambda>_.
       let ns = nodes @ [mk_name (Some element) bIsMember bIsReference]
       in Inr (ns[iParent := (ns ! iParent)\<lparr>nm_children := nm_children (ns ! iParent) @ [length nodes]\<rparr>]))"

definition eg_dimension :: "database \<Rightarrow> idx option \<Rightarrow> bool" where
  "eg_dimension db c = (case c of None \<Rightarrow> False | Some d \<Rightarrow> user_dimension_at db d \<noteq> None \<and> isEGType db d)"

text \<open>The elements a dimension can refer to.\<close>

definition targets :: "database \<Rightarrow> derivation_analysis \<Rightarrow> idx \<Rightarrow> element_pair list result" where
  "targets db da d = getElementVector db da (getContextTypes db d) True"

definition expand_node :: "database \<Rightarrow> derivation_analysis \<Rightarrow> nat \<Rightarrow> name_node list \<times> bool \<Rightarrow> (name_node list \<times> bool) result" where
  "expand_node db da iNodeID s =
     (case s of (nodes, bContinue) \<Rightarrow>
        if nm_children (nodes ! iNodeID) = [] then
          (case getConcrete (nodes ! iNodeID) of
             None \<Rightarrow> Inr s
           | Some d \<Rightarrow>
               if eg_dimension db (Some d) then
                 bindR (targets db da d) (\<lambda>elements.
                 bindR (foldR (\<lambda>element. add iNodeID element False False) elements
                   (nodes[iNodeID := (nodes ! iNodeID)\<lparr>nm_isReference := True\<rparr>])) (\<lambda>nodes. Inr (nodes, True)))
               else Inr s)
        else Inr s)"

definition expand_pass :: "database \<Rightarrow> derivation_analysis \<Rightarrow> name_node list \<Rightarrow> (name_node list \<times> bool) result" where
  "expand_pass db da nodes = foldR (expand_node db da) [0..<length nodes] (nodes, False)"

fun expandReferences :: "nat \<Rightarrow> database \<Rightarrow> derivation_analysis \<Rightarrow> name_node list \<Rightarrow> name_node list result" where
  "expandReferences 0 db da nodes = Inl OutOfFuel"
| "expandReferences (Suc k) db da nodes =
     bindR (expand_pass db da nodes) (\<lambda>(nodes, bContinue).
       if bContinue then expandReferences k db da nodes else Inr nodes)"

text \<open>The elements of a path element that are members of an action, in the order of the set.\<close>

definition member_results :: "database \<Rightarrow> (idx \<Rightarrow> nat) \<Rightarrow> idx \<Rightarrow> element_pair list \<Rightarrow> element_pair list" where
  "member_results db addr a pathElement =
     sort_key (\<lambda>(i, c). (addr i, addr c)) (remdups (filter (\<lambda>e. isMember db a (snd e)) pathElement))"

definition addType_node :: "database \<Rightarrow> (idx \<Rightarrow> nat) \<Rightarrow> element_pair list \<Rightarrow> nat \<Rightarrow> name_node list \<Rightarrow> name_node list result" where
  "addType_node db addr pathElement iNodeID nodes =
     (if nm_children (nodes ! iNodeID) = [] then
        (case getConcrete (nodes ! iNodeID) of
           None \<Rightarrow> Inl (NameResolutionException ''Cannot resolve futher element in type path after a dimension. '')
         | Some a \<Rightarrow>
             if is_action db a then
               let results = member_results db addr a pathElement
               in if results \<noteq> [] then foldR (\<lambda>element. add iNodeID element True False) results nodes
                  else foldR (\<lambda>element. add iNodeID element False False) pathElement nodes
             else Inl (NameResolutionException ''Cannot resolve futher element in type path after a dimension. ''))
      else Inr nodes)"

definition addType :: "database \<Rightarrow> (idx \<Rightarrow> nat) \<Rightarrow> element_pair list \<Rightarrow> name_node list \<Rightarrow> name_node list result" where
  "addType db addr pathElement nodes = foldR (addType_node db addr pathElement) [0..<length nodes] nodes"

definition set_member :: "nat \<Rightarrow> name_node list \<Rightarrow> name_node list" where
  "set_member i nodes = nodes[i := (nodes ! i)\<lparr>nm_isMember := True\<rparr>]"

text \<open>The recursion goes to the children, whose indices are larger.\<close>

fun pruneBranches :: "nat \<Rightarrow> nat \<Rightarrow> name_node list \<Rightarrow> name_node list result" where
  "pruneBranches 0 i nodes = Inl OutOfFuel"
| "pruneBranches (Suc k) i nodes =
     (let n = nodes ! i in
      if nm_children n = [] then Inr nodes
      else if nm_isReference n then
        (if nm_isMember n then Inr nodes
         else foldR (\<lambda>c nodes. bindR (pruneBranches k c nodes) (\<lambda>nodes.
                Inr (if nm_isMember (nodes ! c) then set_member i nodes else nodes))) (nm_children n) nodes)
      else
        bindR (foldR (\<lambda>c (nodes, best, bRemovedChild). bindR (pruneBranches k c nodes) (\<lambda>nodes.
                Inr (if nm_isMember (nodes ! c) then (nodes, best @ [c], bRemovedChild) else (nodes, best, True))))
                (nm_children n) (nodes, [], False)) (\<lambda>(nodes, best, bRemovedChild).
          Inr (if best = [] then nodes
               else let nodes = set_member i nodes
                    in if bRemovedChild then nodes[i := (nodes ! i)\<lparr>nm_children := best\<rparr>] else nodes)))"

definition prune_root :: "name_node list \<Rightarrow> name_node list result" where
  "prune_root nodes = pruneBranches (Suc (length nodes)) 0 nodes"

definition resolve :: "database \<Rightarrow> derivation_analysis \<Rightarrow> (idx \<Rightarrow> nat) \<Rightarrow> element_pair list \<Rightarrow> element_pair list list \<Rightarrow>
    bool \<Rightarrow> name_node list result" where
  "resolve db da addr ctx typePath bExpandFinalReferences =
     bindR (foldR (\<lambda>element. add 0 element False False) ctx [mk_name None False True]) (\<lambda>nodes.
     bindR (foldR (\<lambda>pathElement nodes.
       bindR (expandReferences (tree_fuel db) db da nodes) (\<lambda>nodes.
       bindR (addType db addr pathElement nodes) prune_root)) typePath nodes) (\<lambda>nodes.
       if bExpandFinalReferences then bindR (expandReferences (tree_fuel db) db da nodes) prune_root
       else Inr nodes))"

text \<open>The constructor.\<close>

fun expandFinalReferences :: "OperationID \<Rightarrow> bool result" where
  "expandFinalReferences id_Done = Inr True"
| "expandFinalReferences HIGHEST_OPERATION_TYPE = Inl (RuntimeError ''Invalid operation type'')"
| "expandFinalReferences _ = Inr False"

definition NameResolution :: "database \<Rightarrow> derivation_analysis \<Rightarrow> (idx \<Rightarrow> nat) \<Rightarrow> OperationID \<Rightarrow> element_pair list \<Rightarrow>
    element_pair list list \<Rightarrow> name_node list result" where
  "NameResolution db da addr operation ctx typePath =
     (if ctx = [] then Inl (NameResolutionException ''no invocation context. '')
      else bindR (expandFinalReferences operation) (resolve db da addr ctx typePath))"

section \<open>What a name tree says\<close>

text \<open>The readings of a type path: an instance of the context, then for every element of the path one of
  its alternatives, a member of the action before it when there is one; a reference to an action is
  followed by the action it refers to.\<close>

definition alternatives :: "database \<Rightarrow> idx \<Rightarrow> element_pair list \<Rightarrow> element_pair set" where
  "alternatives db a pathElement =
     (let ms = {e \<in> set pathElement. isMember db a (snd e)} in if ms = {} then set pathElement else ms)"

inductive reading :: "database \<Rightarrow> derivation_analysis \<Rightarrow> element_pair list \<Rightarrow> element_pair list list \<Rightarrow> element_pair list \<Rightarrow> bool"
  for db da ctx where
  reading_context: "e \<in> set ctx \<Longrightarrow> reading db da ctx [] [e]"
| reading_reference: "reading db da ctx ps (ls @ [e]) \<Longrightarrow> eg_dimension db (Some (snd e)) \<Longrightarrow>
    targets db da (snd e) = Inr ts \<Longrightarrow> t \<in> set ts \<Longrightarrow> reading db da ctx ps (ls @ [e, t])"
| reading_type: "reading db da ctx ps (ls @ [a]) \<Longrightarrow> is_action db (snd a) \<Longrightarrow> e \<in> alternatives db (snd a) p \<Longrightarrow>
    reading db da ctx (ps @ [p]) (ls @ [a, e])"

text \<open>A path from a name to a terminal name.\<close>

inductive name_path :: "name_node list \<Rightarrow> nat \<Rightarrow> element_pair list \<Rightarrow> bool" for nodes where
  name_path_end: "nm_children (nodes ! i) = [] \<Longrightarrow> name_path nodes i []"
| name_path_child: "c \<in> set (nm_children (nodes ! i)) \<Longrightarrow> nm_element (nodes ! c) = Some e \<Longrightarrow> name_path nodes c ls \<Longrightarrow>
    name_path nodes i (e # ls)"

inductive_simps name_path_Nil: "name_path nodes i []"
inductive_simps name_path_Cons: "name_path nodes i (e # ls)"

section \<open>Trees\<close>

definition tree_ok :: "name_node list \<Rightarrow> bool" where
  "tree_ok nodes \<longleftrightarrow> nodes \<noteq> [] \<and>
     (\<forall>i < length nodes. \<forall>c \<in> set (nm_children (nodes ! i)). i < c \<and> c < length nodes \<and> nm_element (nodes ! c) \<noteq> None)"

lemma tree_okD:
  "tree_ok nodes \<Longrightarrow> i < length nodes \<Longrightarrow> c \<in> set (nm_children (nodes ! i)) \<Longrightarrow>
   i < c \<and> c < length nodes \<and> nm_element (nodes ! c) \<noteq> None"
  unfolding tree_ok_def by blast

lemma tree_ok_pos: "tree_ok nodes \<Longrightarrow> 0 < length nodes"
  unfolding tree_ok_def length_greater_0_conv by blast

lemma name_path_exists:
  assumes "tree_ok nodes"
  shows "i < length nodes \<Longrightarrow> \<exists>ls. name_path nodes i ls"
proof (induction "length nodes - i" arbitrary: i rule: less_induct)
  case less
  show ?case
  proof (cases "nm_children (nodes ! i)")
    case Nil
    then show ?thesis using name_path_end by blast
  next
    case (Cons c cs)
    then have c: "c \<in> set (nm_children (nodes ! i))" by simp
    from tree_okD [OF assms less.prems c] obtain e where e: "i < c" "c < length nodes" "nm_element (nodes ! c) = Some e" by auto
    have "length nodes - c < length nodes - i" using e(1,2) by simp
    with less.hyps e(2) obtain ls where "name_path nodes c ls" by blast
    with c e(3) show ?thesis using name_path_child by blast
  qed
qed

text \<open>A name with new children.\<close>

definition attach :: "nat \<Rightarrow> bool \<Rightarrow> bool \<Rightarrow> element_pair list \<Rightarrow> name_node list \<Rightarrow> name_node list" where
  "attach i bIsReference bIsMember es nodes =
     nodes[i := (nodes ! i)\<lparr>nm_isReference := bIsReference,
       nm_children := nm_children (nodes ! i) @ [length nodes ..< length nodes + length es]\<rparr>] @
     map (\<lambda>e. mk_name (Some e) bIsMember False) es"

lemma add_attach:
  "i < length nodes \<Longrightarrow> foldR (\<lambda>e. add i e m False) es nodes = Inr (attach i (nm_isReference (nodes ! i)) m es nodes)"
proof (induction es arbitrary: nodes)
  case Nil
  then show ?case by (simp add: attach_def)
next
  case (Cons e es)
  let ?n = "(nodes @ [mk_name (Some e) m False])[i := (nodes ! i)\<lparr>nm_children := nm_children (nodes ! i) @ [length nodes]\<rparr>]"
  have a: "add i e m False nodes = Inr ?n" using Cons.prems by (simp add: add_def nth_append)
  have u: "length nodes # [Suc (length nodes) ..< Suc (length nodes + length es)] = [length nodes ..< Suc (length nodes + length es)]"
    by (rule upt_conv_Cons [symmetric]) simp
  have "attach i (nm_isReference (?n ! i)) m es ?n = attach i (nm_isReference (nodes ! i)) m (e # es) nodes"
    using Cons.prems by (simp add: attach_def list_update_append nth_append u del: upt_Suc)
  with a Cons.IH [of ?n] Cons.prems show ?case by simp
qed

lemma length_attach [simp]: "length (attach i r m es nodes) = length nodes + length es"
  by (simp add: attach_def)

lemma attach_nth_other: "j < length nodes \<Longrightarrow> j \<noteq> i \<Longrightarrow> attach i r m es nodes ! j = nodes ! j"
  by (simp add: attach_def nth_append)

lemma attach_nth_self:
  "i < length nodes \<Longrightarrow> attach i r m es nodes ! i = (nodes ! i)\<lparr>nm_isReference := r,
     nm_children := nm_children (nodes ! i) @ [length nodes ..< length nodes + length es]\<rparr>"
  by (simp add: attach_def nth_append)

lemma attach_nth_new: "j < length es \<Longrightarrow> attach i r m es nodes ! (length nodes + j) = mk_name (Some (es ! j)) m False"
  by (simp add: attach_def nth_append)

lemma attach_nth_new': "length nodes \<le> j \<Longrightarrow> j < length nodes + length es \<Longrightarrow>
    attach i r m es nodes ! j = mk_name (Some (es ! (j - length nodes))) m False"
  using attach_nth_new [of "j - length nodes" es i r m nodes] by simp

lemma tree_ok_attach:
  assumes "tree_ok nodes" and "i < length nodes" and "nm_children (nodes ! i) = []"
  shows "tree_ok (attach i r m es nodes)"
proof -
  have key: "j < c \<and> c < length nodes + length es \<and> nm_element (attach i r m es nodes ! c) \<noteq> None"
    if j: "j < length nodes + length es" and c: "c \<in> set (nm_children (attach i r m es nodes ! j))" for j c
  proof (cases "j < length nodes")
    case old: True
    show ?thesis
    proof (cases "j = i")
      case True
      with c assms have "length nodes \<le> c" "c < length nodes + length es" by (auto simp: attach_nth_self)
      with True assms(2) show ?thesis by (simp add: attach_nth_new' mk_name_def)
    next
      case False
      with c old have "c \<in> set (nm_children (nodes ! j))" by (simp add: attach_nth_other)
      from tree_okD [OF assms(1) old this] show ?thesis
        using assms(2) by (cases "c = i") (auto simp: attach_nth_self attach_nth_other)
    qed
  next
    case False
    with c j show ?thesis by (simp add: attach_nth_new' mk_name_def)
  qed
  have ne: "attach i r m es nodes \<noteq> []" using assms(2) by (auto simp: attach_def)
  show ?thesis
    unfolding tree_ok_def length_attach by (rule conjI [OF ne]) (intro allI impI ballI, rule key)
qed

section \<open>Passes that extend the terminal names\<close>

text \<open>Both passes go over the names that are there at the start and give every terminal name new
  children, which depend on its element only.\<close>

inductive walk :: "(element_pair option \<Rightarrow> element_pair list \<Rightarrow> bool) \<Rightarrow> nat list \<Rightarrow> name_node list \<Rightarrow> name_node list \<Rightarrow> bool"
  for E where
  walk_Nil: "walk E [] nodes nodes"
| walk_skip: "nm_children (nodes ! i) \<noteq> [] \<Longrightarrow> walk E is nodes nodes' \<Longrightarrow> walk E (i # is) nodes nodes'"
| walk_attach: "nm_children (nodes ! i) = [] \<Longrightarrow> E (nm_element (nodes ! i)) es \<Longrightarrow>
    walk E is (attach i r m es nodes) nodes' \<Longrightarrow> walk E (i # is) nodes nodes'"

definition extended :: "(element_pair option \<Rightarrow> element_pair list \<Rightarrow> bool) \<Rightarrow> nat \<Rightarrow> name_node list \<Rightarrow> name_node list \<Rightarrow> nat \<Rightarrow> bool" where
  "extended E sz nodes nodes' i \<longleftrightarrow>
     (\<exists>es. E (nm_element (nodes ! i)) es \<and>
        map (\<lambda>c. nm_element (nodes' ! c)) (nm_children (nodes' ! i)) = map Some es \<and>
        (\<forall>c \<in> set (nm_children (nodes' ! i)). sz \<le> c \<and> c < length nodes' \<and> nm_children (nodes' ! c) = []))"

lemma walk_extends:
  "walk E is nodes nodes' \<Longrightarrow> distinct is \<Longrightarrow> \<forall>i \<in> set is. i < length nodes \<Longrightarrow> tree_ok nodes \<Longrightarrow>
   tree_ok nodes' \<and> length nodes \<le> length nodes' \<and>
   (\<forall>i < length nodes. nm_element (nodes' ! i) = nm_element (nodes ! i) \<and>
     (if i \<in> set is \<and> nm_children (nodes ! i) = [] then extended E (length nodes) nodes nodes' i
      else nodes' ! i = nodes ! i))"
proof (induction rule: walk.induct)
  case (walk_attach nodes i es "is" r m nodes')
  let ?n = "attach i r m es nodes"
  have i: "i < length nodes" "i \<notin> set is" and "is": "\<forall>j \<in> set is. j < length nodes" using walk_attach.prems by auto
  have ok: "tree_ok ?n" using tree_ok_attach walk_attach i by blast
  have "\<forall>j \<in> set is. j < length ?n" using "is" by auto
  with ok walk_attach.IH walk_attach.prems have IH: "tree_ok nodes'" "length nodes + length es \<le> length nodes'"
    "\<And>j. j < length nodes + length es \<Longrightarrow> nm_element (nodes' ! j) = nm_element (?n ! j) \<and>
      (if j \<in> set is \<and> nm_children (?n ! j) = [] then extended E (length nodes + length es) ?n nodes' j
       else nodes' ! j = ?n ! j)" by auto
  have self: "nodes' ! i = ?n ! i" using IH(3) [of i] i by simp
  have new: "nodes' ! (length nodes + j) = mk_name (Some (es ! j)) m False" if "j < length es" for j
  proof -
    have "length nodes + j \<notin> set is" using "is" by auto
    then show ?thesis using IH(3) [of "length nodes + j"] that by (simp add: attach_nth_new)
  qed
  have ch: "nm_children (nodes' ! i) = map (\<lambda>j. length nodes + j) [0..<length es]"
    unfolding self attach_nth_self [OF i(1)] by (rule nth_equalityI) (simp_all add: walk_attach.hyps(1))
  have "extended E (length nodes) nodes nodes' i"
    unfolding extended_def
  proof (intro exI conjI)
    show "E (nm_element (nodes ! i)) es" by fact
    show "map (\<lambda>c. nm_element (nodes' ! c)) (nm_children (nodes' ! i)) = map Some es"
      unfolding ch by (rule nth_equalityI) (simp_all add: new mk_name_def)
    show "\<forall>c \<in> set (nm_children (nodes' ! i)). length nodes \<le> c \<and> c < length nodes' \<and> nm_children (nodes' ! c) = []"
    proof
      fix c
      assume "c \<in> set (nm_children (nodes' ! i))"
      then obtain j where "j < length es" "c = length nodes + j" unfolding ch
        by (metis add.left_neutral atLeastLessThan_iff imageE set_map set_upt)
      then show "length nodes \<le> c \<and> c < length nodes' \<and> nm_children (nodes' ! c) = []"
        using IH(2) by (simp add: new mk_name_def)
    qed
  qed
  moreover have "extended E (length nodes) nodes nodes' j" if "j \<in> set is" "nm_children (nodes ! j) = []" for j
  proof -
    have j: "j < length nodes" "j \<noteq> i" using that "is" i by auto
    have "extended E (length nodes + length es) ?n nodes' j"
      using IH(3) [of j] that j by (simp add: attach_nth_other)
    then show ?thesis using j by (fastforce simp: extended_def attach_nth_other)
  qed
  moreover have "nm_element (nodes' ! j) = nm_element (nodes ! j)" if "j < length nodes" for j
    using IH(3) [of j] that i by (cases "j = i") (auto simp: attach_nth_other attach_nth_self)
  moreover have "nodes' ! j = nodes ! j" if "j < length nodes" "j \<noteq> i" "\<not> (j \<in> set is \<and> nm_children (nodes ! j) = [])" for j
    using IH(3) [of j] that by (auto simp: attach_nth_other)
  ultimately show ?case using IH(1,2) walk_attach.hyps(1) by auto
qed auto

text \<open>The paths of the extended tree are the paths before with at most one more element.\<close>

lemma walk_paths:
  assumes w: "walk E [0..<length nodes] nodes nodes'" and ok: "tree_ok nodes"
  shows "name_path nodes' i ls' \<Longrightarrow> i < length nodes \<Longrightarrow>
    \<exists>ls es. name_path nodes i ls \<and> E (last (nm_element (nodes ! i) # map Some ls)) es \<and>
      (if es = [] then ls' = ls else \<exists>e \<in> set es. ls' = ls @ [e])"
proof (induction rule: name_path.induct)
  case (name_path_end i)
  from walk_extends [OF w] ok name_path_end have x: "if nm_children (nodes ! i) = [] then extended E (length nodes) nodes nodes' i
      else nodes' ! i = nodes ! i" by (auto split: if_splits)
  with name_path_end have l: "nm_children (nodes ! i) = []" by (auto split: if_splits)
  with x name_path_end have "E (nm_element (nodes ! i)) []" by (auto simp: extended_def)
  with l show ?case by (intro exI [of _ "[]"]) (simp add: name_path.name_path_end)
next
  case (name_path_child c i e ls)
  from walk_extends [OF w] ok name_path_child.prems have x: "if nm_children (nodes ! i) = [] then extended E (length nodes) nodes nodes' i
      else nodes' ! i = nodes ! i"
    and el: "\<And>j. j < length nodes \<Longrightarrow> nm_element (nodes' ! j) = nm_element (nodes ! j)" by (auto split: if_splits)
  show ?case
  proof (cases "nm_children (nodes ! i) = []")
    case True
    with x obtain es where es: "E (nm_element (nodes ! i)) es"
      "map (\<lambda>c. nm_element (nodes' ! c)) (nm_children (nodes' ! i)) = map Some es"
      "\<forall>c \<in> set (nm_children (nodes' ! i)). nm_children (nodes' ! c) = []" by (auto simp: extended_def)
    from es(3) name_path_child.hyps(1,3) have "ls = []" by (auto elim: name_path.cases)
    moreover have "Some e \<in> set (map (\<lambda>c. nm_element (nodes' ! c)) (nm_children (nodes' ! i)))"
      using name_path_child.hyps(1,2) by force
    then have "e \<in> set es" unfolding es(2) by auto
    ultimately show ?thesis using True es(1)
      by (intro exI [of _ "[]"] exI [of _ es]) (auto simp: name_path.name_path_end)
  next
    case False
    with x have c: "c \<in> set (nm_children (nodes ! i))" using name_path_child.hyps(1) by simp
    from tree_okD [OF ok name_path_child.prems c] have cl: "c < length nodes" by simp
    from name_path_child.IH [OF cl] obtain ls0 es where p: "name_path nodes c ls0"
      "E (last (nm_element (nodes ! c) # map Some ls0)) es"
      "if es = [] then ls = ls0 else \<exists>e \<in> set es. ls = ls0 @ [e]" by blast
    have ce: "nm_element (nodes ! c) = Some e" using el [OF cl] name_path_child.hyps(2) by simp
    have "name_path nodes i (e # ls0)" by (rule name_path.name_path_child [OF c ce p(1)])
    with p(2,3) ce show ?thesis
      by (intro exI [of _ "e # ls0"] exI [of _ es]) (auto split: if_splits)
  qed
qed

text \<open>Pruning keeps a part of the children of a name, and some child when there is one.\<close>

definition prunes :: "name_node list \<Rightarrow> name_node list \<Rightarrow> bool" where
  "prunes nodes nodes' \<longleftrightarrow> length nodes' = length nodes \<and>
     (\<forall>i. nm_element (nodes' ! i) = nm_element (nodes ! i) \<and> set (nm_children (nodes' ! i)) \<subseteq> set (nm_children (nodes ! i)) \<and>
        (nm_children (nodes' ! i) = [] \<longleftrightarrow> nm_children (nodes ! i) = []))"

lemma prunes_refl [simp]: "prunes nodes nodes"
  by (simp add: prunes_def)

lemma prunes_trans: "prunes a b \<Longrightarrow> prunes b c \<Longrightarrow> prunes a c"
  unfolding prunes_def by (metis order_trans)

lemma prunes_set_member: "prunes nodes (set_member i nodes)"
  by (cases "i < length nodes") (auto simp: prunes_def set_member_def nth_list_update list_update_beyond)

lemma prunes_children:
  assumes "prunes nodes m" and "set best \<subseteq> set (nm_children (nodes ! i))" and "best \<noteq> []" and "nm_children (nodes ! i) \<noteq> []"
  shows "prunes nodes (m[i := (m ! i)\<lparr>nm_children := best\<rparr>])"
proof (cases "i < length m")
  case True
  then have "m[i := (m ! i)\<lparr>nm_children := best\<rparr>] ! j = (if j = i then (m ! i)\<lparr>nm_children := best\<rparr> else m ! j)" for j
    by (simp add: nth_list_update)
  with assms show ?thesis unfolding prunes_def by simp
next
  case False
  with assms show ?thesis by (simp add: list_update_beyond)
qed

lemma prunes_path:
  assumes "prunes nodes nodes'"
  shows "name_path nodes' i ls \<Longrightarrow> name_path nodes i ls"
proof (induction rule: name_path.induct)
  case (name_path_end i)
  then show ?case using assms by (simp add: prunes_def name_path.name_path_end)
next
  case (name_path_child c i e ls)
  then show ?case using assms unfolding prunes_def by (metis name_path.name_path_child subsetD)
qed

lemma prunes_tree_ok: "prunes nodes nodes' \<Longrightarrow> tree_ok nodes \<Longrightarrow> tree_ok nodes'"
  unfolding prunes_def tree_ok_def by (metis length_0_conv subsetD)

lemma pruneBranches_prunes: "pruneBranches k i nodes = Inr nodes' \<Longrightarrow> prunes nodes nodes'"
proof (induction k arbitrary: i nodes nodes')
  case (Suc k)
  let ?n = "nodes ! i"
  show ?case
  proof (cases "nm_children ?n = [] \<or> nm_isReference ?n \<and> nm_isMember ?n")
    case True
    then show ?thesis using Suc.prems by (auto simp: Let_def split: if_splits)
  next
    case False
    show ?thesis
    proof (cases "nm_isReference ?n")
      case True
      with False Suc.prems have "foldR (\<lambda>c nodes. bindR (pruneBranches k c nodes) (\<lambda>nodes.
          Inr (if nm_isMember (nodes ! c) then set_member i nodes else nodes))) (nm_children ?n) nodes = Inr nodes'"
        by (simp add: Let_def)
      then show ?thesis
        by (rule foldR_invariant) (auto simp: bindR_eq_Inr dest: Suc.IH intro: prunes_trans prunes_set_member split: if_splits)
    next
      case ref: False
      let ?f = "\<lambda>c (nodes, best, bRemovedChild). bindR (pruneBranches k c nodes) (\<lambda>nodes.
        Inr (if nm_isMember (nodes ! c) then (nodes, best @ [c], bRemovedChild) else (nodes, best, True)))"
      from Suc.prems False ref obtain n best removed where f: "foldR ?f (nm_children ?n) (nodes, [], False) = Inr (n, best, removed)"
        and n': "nodes' = (if best = [] then n else let n = set_member i n
          in if removed then n[i := (n ! i)\<lparr>nm_children := best\<rparr>] else n)"
        by (auto simp: Let_def bindR_eq_Inr)
      have "prunes nodes (fst (n, best, removed)) \<and> set (fst (snd (n, best, removed))) \<subseteq> set (nm_children ?n)"
        by (rule foldR_invariant [OF f])
          (force simp: bindR_eq_Inr split: if_splits dest: Suc.IH intro: prunes_trans)+
      then have p: "prunes nodes n" "set best \<subseteq> set (nm_children ?n)" by simp_all
      show ?thesis
      proof (cases "best = [] \<or> \<not> removed")
        case True
        then show ?thesis using n' p(1) prunes_set_member prunes_trans by (auto simp: Let_def)
      next
        case False
        have q: "prunes nodes (set_member i n)" using p(1) prunes_set_member prunes_trans by blast
        have "nodes' = (set_member i n)[i := (set_member i n ! i)\<lparr>nm_children := best\<rparr>]"
          using n' False by (simp add: Let_def)
        then show ?thesis
          using prunes_children [OF q p(2)] False \<open>\<not> (nm_children ?n = [] \<or> nm_isReference ?n \<and> nm_isMember ?n)\<close> by simp
      qed
    qed
  qed
qed simp

section \<open>The passes of the name resolution\<close>

definition expands_to :: "database \<Rightarrow> derivation_analysis \<Rightarrow> element_pair option \<Rightarrow> element_pair list \<Rightarrow> bool" where
  "expands_to db da e es \<longleftrightarrow>
     (case e of None \<Rightarrow> es = []
      | Some x \<Rightarrow> if eg_dimension db (Some (snd x)) then targets db da (snd x) = Inr es else es = [])"

lemma attach_none: "attach i (nm_isReference (nodes ! i)) m [] nodes = nodes"
  by (simp add: attach_def)

text \<open>The body of the expansion of references.\<close>

lemma expand_node_result:
  assumes "i < length nodes"
  shows "expand_node db da i (nodes, b) = Inr (nodes', b') \<longleftrightarrow>
    (if nm_children (nodes ! i) = [] \<and> eg_dimension db (getConcrete (nodes ! i))
     then b' \<and> (\<exists>es. expands_to db da (nm_element (nodes ! i)) es \<and> nodes' = attach i True False es nodes)
     else nodes' = nodes \<and> b' = b)"
proof (cases "nm_children (nodes ! i) = [] \<and> eg_dimension db (getConcrete (nodes ! i))")
  case True
  then obtain x where x: "nm_element (nodes ! i) = Some x" "eg_dimension db (Some (snd x))"
    by (cases "nm_element (nodes ! i)") (auto simp: getConcrete_def eg_dimension_def)
  have a: "foldR (\<lambda>element. add i element False False) es (nodes[i := (nodes ! i)\<lparr>nm_isReference := True\<rparr>]) =
      Inr (attach i True False es nodes)" for es
    using add_attach [of i "nodes[i := (nodes ! i)\<lparr>nm_isReference := True\<rparr>]" False es] assms
    by (simp add: attach_def)
  show ?thesis using True x by (auto simp: expand_node_def getConcrete_def bindR_eq_Inr a expands_to_def)
next
  case False
  then show ?thesis by (auto simp: expand_node_def eg_dimension_def split: option.splits)
qed

lemma expand_walk:
  "foldR (expand_node db da) is (nodes, b) = Inr (nodes', b') \<Longrightarrow> \<forall>i \<in> set is. i < length nodes \<Longrightarrow>
   walk (expands_to db da) is nodes nodes' \<and> (b \<longrightarrow> b') \<and>
   (\<not> b' \<longrightarrow> nodes' = nodes \<and> (\<forall>i \<in> set is. nm_children (nodes ! i) = [] \<longrightarrow> \<not> eg_dimension db (getConcrete (nodes ! i))))"
proof (induction "is" arbitrary: nodes b)
  case Nil
  then show ?case by (simp add: walk_Nil)
next
  case (Cons i "is")
  then obtain n b1 where s: "expand_node db da i (nodes, b) = Inr (n, b1)" "foldR (expand_node db da) is (n, b1) = Inr (nodes', b')"
    by (auto simp: bindR_eq_Inr)
  have i: "i < length nodes" using Cons.prems by simp
  show ?case
  proof (cases "nm_children (nodes ! i) = [] \<and> eg_dimension db (getConcrete (nodes ! i))")
    case True
    with s(1) obtain es where es: "b1" "expands_to db da (nm_element (nodes ! i)) es" "n = attach i True False es nodes"
      by (auto simp: expand_node_result [OF i])
    have "\<forall>j \<in> set is. j < length n" using Cons.prems es(3) by auto
    from Cons.IH [OF s(2) this] es True walk_attach show ?thesis by fastforce
  next
    case False
    with s(1) have n: "n = nodes" "b1 = b" by (simp_all add: expand_node_result [OF i] split: if_splits)
    with Cons.IH s(2) Cons.prems have IH: "walk (expands_to db da) is nodes nodes'" "b \<longrightarrow> b'"
      "\<not> b' \<longrightarrow> nodes' = nodes \<and> (\<forall>i \<in> set is. nm_children (nodes ! i) = [] \<longrightarrow> \<not> eg_dimension db (getConcrete (nodes ! i)))"
      by auto
    have "walk (expands_to db da) (i # is) nodes nodes'"
    proof (cases "nm_children (nodes ! i) = []")
      case True
      with False have "expands_to db da (nm_element (nodes ! i)) []"
        by (auto simp: expands_to_def getConcrete_def split: option.splits)
      with True IH(1) show ?thesis
        by (intro walk_attach [where es = "[]" and r = "nm_isReference (nodes ! i)" and m = False]) (simp_all add: attach_none)
    qed (use IH(1) walk_skip in blast)
    with IH False show ?thesis by auto
  qed
qed

lemma expand_pass_walk:
  assumes "expand_pass db da nodes = Inr (nodes', b)"
  shows "walk (expands_to db da) [0..<length nodes] nodes nodes'"
    and "\<not> b \<Longrightarrow> nodes' = nodes \<and> (\<forall>i < length nodes. nm_children (nodes ! i) = [] \<longrightarrow> \<not> eg_dimension db (getConcrete (nodes ! i)))"
  using expand_walk [OF assms [unfolded expand_pass_def]] by auto

definition types_to :: "database \<Rightarrow> element_pair list \<Rightarrow> element_pair option \<Rightarrow> element_pair list \<Rightarrow> bool" where
  "types_to db p e es \<longleftrightarrow>
     (case e of None \<Rightarrow> False | Some x \<Rightarrow> is_action db (snd x) \<and> set es = alternatives db (snd x) p)"

lemma member_results_set: "set (member_results db addr a p) = {e \<in> set p. isMember db a (snd e)}"
  by (simp add: member_results_def)

lemma addType_node_result:
  assumes i: "i < length nodes" and l: "nm_children (nodes ! i) = []" and s: "addType_node db addr p i nodes = Inr nodes'"
  shows "\<exists>es m. types_to db p (nm_element (nodes ! i)) es \<and> nodes' = attach i (nm_isReference (nodes ! i)) m es nodes"
proof -
  from s l obtain x where x: "nm_element (nodes ! i) = Some x" "is_action db (snd x)"
    by (auto simp: addType_node_def getConcrete_def split: option.splits if_splits)
  note m = member_results_set [of db addr "snd x" p]
  show ?thesis
  proof (cases "member_results db addr (snd x) p = []")
    case True
    with m have "alternatives db (snd x) p = set p" by (auto simp: alternatives_def)
    with True s l x show ?thesis
      by (intro exI [of _ p] exI [of _ False]) (auto simp: addType_node_def getConcrete_def types_to_def add_attach [OF i])
  next
    case False
    with m have "alternatives db (snd x) p = set (member_results db addr (snd x) p)"
      by (auto simp: alternatives_def Let_def simp del: set_empty simp add: set_empty [symmetric])
    with False s l x show ?thesis
      by (intro exI [of _ "member_results db addr (snd x) p"] exI [of _ True])
        (auto simp: addType_node_def getConcrete_def types_to_def add_attach [OF i])
  qed
qed

lemma addType_walk:
  "foldR (addType_node db addr p) is nodes = Inr nodes' \<Longrightarrow> \<forall>i \<in> set is. i < length nodes \<Longrightarrow>
   walk (types_to db p) is nodes nodes'"
proof (induction "is" arbitrary: nodes)
  case Nil
  then show ?case by (simp add: walk_Nil)
next
  case (Cons i "is")
  then obtain n where s: "addType_node db addr p i nodes = Inr n" "foldR (addType_node db addr p) is n = Inr nodes'"
    by (auto simp: bindR_eq_Inr)
  show ?case
  proof (cases "nm_children (nodes ! i) = []")
    case True
    with addType_node_result [OF _ True s(1)] Cons.prems obtain es m where es: "types_to db p (nm_element (nodes ! i)) es"
      "n = attach i (nm_isReference (nodes ! i)) m es nodes" by auto
    have "\<forall>j \<in> set is. j < length n" using Cons.prems es(2) by auto
    from Cons.IH [OF s(2) this] es True walk_attach show ?thesis by fastforce
  next
    case False
    with s(1) have "n = nodes" by (simp add: addType_node_def)
    with Cons s(2) False show ?thesis by (simp add: walk_skip)
  qed
qed

section \<open>Soundness\<close>

definition reads :: "database \<Rightarrow> derivation_analysis \<Rightarrow> element_pair list \<Rightarrow> element_pair list list \<Rightarrow> name_node list \<Rightarrow> bool" where
  "reads db da ctx ps nodes \<longleftrightarrow> tree_ok nodes \<and> nm_element (nodes ! 0) = None \<and>
     (\<forall>ls. name_path nodes 0 ls \<longrightarrow> reading db da ctx ps ls)"

lemma reading_not_Nil: "reading db da ctx ps ls \<Longrightarrow> ls \<noteq> []"
  by (induction rule: reading.induct) simp_all

lemma walk_reads:
  assumes w: "walk E [0..<length nodes] nodes nodes'" and r: "reads db da ctx ps nodes"
    and step: "\<And>ls e es. reading db da ctx ps (ls @ [e]) \<Longrightarrow> E (Some e) es \<Longrightarrow>
      (es = [] \<longrightarrow> reading db da ctx ps' (ls @ [e])) \<and> (\<forall>t \<in> set es. reading db da ctx ps' (ls @ [e, t]))"
  shows "reads db da ctx ps' nodes'"
proof -
  have ok: "tree_ok nodes" and root: "nm_element (nodes ! 0) = None" "0 < length nodes"
    using r tree_ok_pos unfolding reads_def by blast+
  from walk_extends [OF w _ _ ok] root have "tree_ok nodes'" "nm_element (nodes' ! 0) = None" by auto
  moreover have "reading db da ctx ps' ls'" if ls': "name_path nodes' 0 ls'" for ls'
  proof -
    from walk_paths [OF w ok ls' root(2)] obtain ls es where ls: "name_path nodes 0 ls"
      "E (last (nm_element (nodes ! 0) # map Some ls)) es" "if es = [] then ls' = ls else \<exists>e \<in> set es. ls' = ls @ [e]" by blast
    from r ls(1) have rd: "reading db da ctx ps ls" by (simp add: reads_def)
    then obtain ls0 e where e: "ls = ls0 @ [e]" using reading_not_Nil by (metis rev_exhaust)
    with ls(2) have "E (Some e) es" by (simp add: last_map)
    from step [OF rd [unfolded e] this] ls(3) e show ?thesis by (auto split: if_splits)
  qed
  ultimately show ?thesis by (simp add: reads_def)
qed

lemma prune_reads: "prune_root nodes = Inr nodes' \<Longrightarrow> reads db da ctx ps nodes \<Longrightarrow> reads db da ctx ps nodes'"
proof -
  assume "prune_root nodes = Inr nodes'" and r: "reads db da ctx ps nodes"
  then have p: "prunes nodes nodes'" unfolding prune_root_def by (blast dest: pruneBranches_prunes)
  then have "nm_element (nodes' ! 0) = nm_element (nodes ! 0)" by (simp add: prunes_def)
  with r prunes_path [OF p] prunes_tree_ok [OF p] show ?thesis by (auto simp: reads_def)
qed

lemma expandReferences_reads:
  "expandReferences k db da nodes = Inr nodes' \<Longrightarrow> reads db da ctx ps nodes \<Longrightarrow>
   reads db da ctx ps nodes' \<and>
   (\<forall>i < length nodes'. nm_children (nodes' ! i) = [] \<longrightarrow> \<not> eg_dimension db (getConcrete (nodes' ! i)))"
proof (induction k arbitrary: nodes)
  case (Suc k)
  from Suc.prems(1) obtain n b where s: "expand_pass db da nodes = Inr (n, b)"
    "(if b then expandReferences k db da n else Inr n) = Inr nodes'"
    by (auto simp: bindR_eq_Inr)
  have "reads db da ctx ps n"
  proof (rule walk_reads [OF expand_pass_walk(1) [OF s(1)] Suc.prems(2)])
    fix ls e es
    assume "reading db da ctx ps (ls @ [e])" and "expands_to db da (Some e) es"
    then show "(es = [] \<longrightarrow> reading db da ctx ps (ls @ [e])) \<and> (\<forall>t \<in> set es. reading db da ctx ps (ls @ [e, t]))"
      by (auto simp: expands_to_def intro: reading_reference split: if_splits)
  qed
  with s(2) expand_pass_walk(2) [OF s(1)] Suc.IH [of n] show ?case by (cases b) auto
qed simp

lemma addType_reads:
  assumes "addType db addr p nodes = Inr nodes'" and "reads db da ctx ps nodes" and "p \<noteq> []"
  shows "reads db da ctx (ps @ [p]) nodes'"
proof (rule walk_reads)
  show "walk (types_to db p) [0..<length nodes] nodes nodes'"
    using assms(1) unfolding addType_def by (rule addType_walk) simp
  show "reads db da ctx ps nodes" by fact
  fix ls e es
  assume e: "reading db da ctx ps (ls @ [e])" "types_to db p (Some e) es"
  then have "es \<noteq> []" using assms(3) by (auto simp: types_to_def alternatives_def Let_def split: if_splits)
  with e show "(es = [] \<longrightarrow> reading db da ctx (ps @ [p]) (ls @ [e])) \<and> (\<forall>t \<in> set es. reading db da ctx (ps @ [p]) (ls @ [e, t]))"
    by (auto simp: types_to_def intro: reading_type)
qed

section \<open>Totality\<close>

text \<open>An element that can be expanded: when it is a reference, what it refers to are actions.\<close>

definition referable :: "database \<Rightarrow> derivation_analysis \<Rightarrow> element_pair \<Rightarrow> bool" where
  "referable db da e \<longleftrightarrow> (eg_dimension db (Some (snd e)) \<longrightarrow>
     (\<exists>ts. targets db da (snd e) = Inr ts \<and> (\<forall>t \<in> set ts. is_action db (snd t))))"

definition stuck :: "database \<Rightarrow> derivation_analysis \<Rightarrow> element_pair \<Rightarrow> bool" where
  "stuck db da e \<longleftrightarrow> eg_dimension db (Some (snd e)) \<and> targets db da (snd e) = Inr []"

definition followable :: "database \<Rightarrow> derivation_analysis \<Rightarrow> element_pair \<Rightarrow> bool" where
  "followable db da e \<longleftrightarrow> referable db da e \<and> \<not> stuck db da e \<and> (is_action db (snd e) \<or> eg_dimension db (Some (snd e)))"

lemma action_not_eg: "is_action db a \<Longrightarrow> \<not> eg_dimension db (Some a)"
  by (auto simp: is_action_def eg_dimension_def user_dimension_at_def split: option.splits)

lemma action_followable: "is_action db (snd e) \<Longrightarrow> followable db da e"
  by (simp add: followable_def referable_def stuck_def action_not_eg)

text \<open>Every name but the root has an element, with the property \<open>P\<close>.\<close>

definition named :: "(element_pair \<Rightarrow> bool) \<Rightarrow> name_node list \<Rightarrow> bool" where
  "named P nodes \<longleftrightarrow> nodes \<noteq> [] \<and> nm_children (nodes ! 0) \<noteq> [] \<and>
     (\<forall>i. i \<noteq> 0 \<longrightarrow> i < length nodes \<longrightarrow> (\<exists>e. nm_element (nodes ! i) = Some e \<and> P e))"

lemma namedD: "named P nodes \<Longrightarrow> i < length nodes \<Longrightarrow> nm_children (nodes ! i) = [] \<Longrightarrow>
    \<exists>e. nm_element (nodes ! i) = Some e \<and> P e"
  by (cases "i = 0") (auto simp: named_def)

lemma named_attach:
  assumes "named P nodes" and "i < length nodes" and "\<forall>e \<in> set es. P e"
  shows "named P (attach i r m es nodes)"
  unfolding named_def
proof (intro conjI allI impI)
  show "attach i r m es nodes \<noteq> []" using assms(2) by (auto simp: attach_def)
  show "nm_children (attach i r m es nodes ! 0) \<noteq> []"
    using assms by (cases "i = 0") (auto simp: named_def attach_nth_self attach_nth_other)
  fix j
  assume j: "j \<noteq> 0" "j < length (attach i r m es nodes)"
  show "\<exists>e. nm_element (attach i r m es nodes ! j) = Some e \<and> P e"
  proof (cases "j < length nodes")
    case True
    with assms(1) j(1) obtain e where "nm_element (nodes ! j) = Some e" "P e" unfolding named_def by blast
    with True assms(2) show ?thesis by (cases "j = i") (simp_all add: attach_nth_self attach_nth_other)
  next
    case False
    then show ?thesis using j assms(3) by (simp add: attach_nth_new' mk_name_def)
  qed
qed

lemma named_mono: "named P nodes \<Longrightarrow> (\<And>e. P e \<Longrightarrow> Q e) \<Longrightarrow> named Q nodes"
  unfolding named_def by blast

lemma named_prunes: "named P nodes \<Longrightarrow> prunes nodes nodes' \<Longrightarrow> named P nodes'"
  unfolding named_def prunes_def by (metis length_0_conv)

text \<open>The names that a pass of the expansion appends are actions.\<close>

definition actions_from :: "nat \<Rightarrow> database \<Rightarrow> name_node list \<Rightarrow> bool" where
  "actions_from sz db nodes \<longleftrightarrow>
     (\<forall>i. sz \<le> i \<longrightarrow> i < length nodes \<longrightarrow> (\<exists>e. nm_element (nodes ! i) = Some e \<and> is_action db (snd e)))"

lemma expand_total:
  assumes P: "\<And>e. is_action db (snd e) \<Longrightarrow> P e" "\<And>e. P e \<Longrightarrow> referable db da e"
    and sz: "\<forall>i \<in> set is. i < sz" "sz \<le> length nodes" and n: "named P nodes" "actions_from sz db nodes"
  shows "\<exists>s. foldR (expand_node db da) is (nodes, b) = Inr s \<and> (sz \<le> length (fst s) \<and> named P (fst s) \<and> actions_from sz db (fst s))"
proof (rule foldR_total)
  show "sz \<le> length (fst (nodes, b)) \<and> named P (fst (nodes, b)) \<and> actions_from sz db (fst (nodes, b))" using sz n by simp
  fix i and s :: "name_node list \<times> bool"
  assume i: "i \<in> set is" and s: "sz \<le> length (fst s) \<and> named P (fst s) \<and> actions_from sz db (fst s)"
  obtain ns c where sc: "s = (ns, c)" by (cases s)
  have i: "i < length ns" using i sz(1) s sc by auto
  show "\<exists>t. expand_node db da i s = Inr t \<and> (sz \<le> length (fst t) \<and> named P (fst t) \<and> actions_from sz db (fst t))"
  proof (cases "nm_children (ns ! i) = [] \<and> eg_dimension db (getConcrete (ns ! i))")
    case True
    with namedD [of P ns i] s sc i obtain e where e: "nm_element (ns ! i) = Some e" "P e" by auto
    with True P(2) [OF e(2)] obtain ts where ts: "targets db da (snd e) = Inr ts" "\<forall>t \<in> set ts. is_action db (snd t)"
      by (auto simp: referable_def getConcrete_def)
    have "expands_to db da (nm_element (ns ! i)) ts" using True e ts by (simp add: expands_to_def getConcrete_def)
    then have "expand_node db da i (ns, c) = Inr (attach i True False ts ns, True)"
      unfolding expand_node_result [OF i] if_P [OF True] by blast
    moreover have "named P (attach i True False ts ns)"
    proof (rule named_attach [OF _ i])
      show "named P ns" using s sc by simp
      show "\<forall>e \<in> set ts. P e" using ts(2) by (intro ballI P(1)) simp
    qed
    moreover have "actions_from sz db (attach i True False ts ns)"
      unfolding actions_from_def
    proof (intro allI impI)
      fix j
      assume j: "sz \<le> j" "j < length (attach i True False ts ns)"
      show "\<exists>e. nm_element (attach i True False ts ns ! j) = Some e \<and> is_action db (snd e)"
      proof (cases "j < length ns")
        case True
        then show ?thesis using s sc j(1) i
          by (cases "j = i") (auto simp: actions_from_def attach_nth_self attach_nth_other)
      next
        case False
        then show ?thesis using j ts(2) by (simp add: attach_nth_new' mk_name_def)
      qed
    qed
    ultimately show ?thesis using s sc by auto
  next
    case False
    then have "expand_node db da i (ns, c) = Inr (ns, c)" using expand_node_result [OF i] by auto
    with s sc show ?thesis by auto
  qed
qed

definition stuck_name :: "database \<Rightarrow> derivation_analysis \<Rightarrow> name_node \<Rightarrow> bool" where
  "stuck_name db da n \<longleftrightarrow> nm_children n = [] \<and> (case nm_element n of None \<Rightarrow> False | Some e \<Rightarrow> stuck db da e)"

lemma expand_pass_total:
  assumes ok: "tree_ok nodes" and n: "named P nodes"
    and P: "\<And>e. is_action db (snd e) \<Longrightarrow> P e" "\<And>e. P e \<Longrightarrow> referable db da e"
  shows "\<exists>nodes' b. expand_pass db da nodes = Inr (nodes', b) \<and> tree_ok nodes' \<and> named P nodes' \<and>
    ((\<exists>i < length nodes. stuck_name db da (nodes ! i)) \<longrightarrow> b \<and> (\<exists>i < length nodes'. stuck_name db da (nodes' ! i))) \<and>
    (\<not> (\<exists>i < length nodes. stuck_name db da (nodes ! i)) \<longrightarrow>
      (\<forall>i < length nodes'. nm_children (nodes' ! i) = [] \<longrightarrow> \<not> eg_dimension db (getConcrete (nodes' ! i))))"
proof -
  have "actions_from (length nodes) db nodes" by (simp add: actions_from_def)
  from expand_total [OF P _ order_refl n this, of "[0..<length nodes]" False] obtain nodes' b where
    p: "expand_pass db da nodes = Inr (nodes', b)" and n': "named P nodes'" "actions_from (length nodes) db nodes'"
    by (auto simp: expand_pass_def)
  note w = expand_pass_walk [OF p]
  from walk_extends [OF w(1) _ _ ok] have ok': "tree_ok nodes'" and le: "length nodes \<le> length nodes'"
    and x: "\<And>i. i < length nodes \<Longrightarrow> nm_element (nodes' ! i) = nm_element (nodes ! i) \<and>
      (if nm_children (nodes ! i) = [] then extended (expands_to db da) (length nodes) nodes nodes' i else nodes' ! i = nodes ! i)"
    by auto
  have st1: "b \<and> (\<exists>i < length nodes'. stuck_name db da (nodes' ! i))" if st: "i < length nodes" "stuck_name db da (nodes ! i)" for i
  proof
    from st obtain e where e: "nm_children (nodes ! i) = []" "nm_element (nodes ! i) = Some e" "stuck db da e"
      by (auto simp: stuck_name_def split: option.splits)
    then show b using w(2) st(1) by (cases b) (auto simp: stuck_def getConcrete_def)
    from x [OF st(1)] e have "nm_children (nodes' ! i) = []" "nm_element (nodes' ! i) = Some e"
      by (auto simp: extended_def expands_to_def stuck_def)
    with e(3) st(1) le show "\<exists>i < length nodes'. stuck_name db da (nodes' ! i)"
      by (intro exI [of _ i]) (simp add: stuck_name_def)
  qed
  have st2: "\<not> eg_dimension db (getConcrete (nodes' ! i))"
    if ns: "\<not> (\<exists>i < length nodes. stuck_name db da (nodes ! i))" and i: "i < length nodes'" "nm_children (nodes' ! i) = []" for i
  proof (cases "i < length nodes")
    case True
    with x [OF True] i(2) have l: "nm_children (nodes ! i) = []" by (auto split: if_splits)
    from namedD [OF n True l] obtain e where e: "nm_element (nodes ! i) = Some e" by blast
    with ns True l have "\<not> stuck db da e" by (auto simp: stuck_name_def)
    with x [OF True] l i(2) e show ?thesis
      by (auto simp: extended_def expands_to_def stuck_def getConcrete_def split: if_splits)
  next
    case False
    with n'(2) i(1) obtain e where "nm_element (nodes' ! i) = Some e" "is_action db (snd e)"
      unfolding actions_from_def by (metis not_le)
    then show ?thesis by (simp add: getConcrete_def action_not_eg)
  qed
  show ?thesis
    using p ok' n'(1) st1 st2 by (intro exI [of _ nodes'] exI [of _ b] conjI impI allI) blast+
qed

lemma expand_pass_done:
  assumes "\<forall>i < length nodes. nm_children (nodes ! i) = [] \<longrightarrow> \<not> eg_dimension db (getConcrete (nodes ! i))"
  shows "expand_pass db da nodes = Inr (nodes, False)"
proof -
  have "foldR (expand_node db da) is (nodes, False) = Inr (nodes, False)" if "\<forall>i \<in> set is. i < length nodes" for "is"
    using that
  proof (induction "is")
    case (Cons i "is")
    then have "expand_node db da i (nodes, False) = Inr (nodes, False)"
      using assms expand_node_result [of i nodes] by auto
    with Cons show ?case by simp
  qed simp
  then show ?thesis by (simp add: expand_pass_def)
qed

lemma expandReferences_stuck:
  assumes P: "\<And>e. is_action db (snd e) \<Longrightarrow> P e" "\<And>e. P e \<Longrightarrow> referable db da e"
  shows "tree_ok nodes \<Longrightarrow> named P nodes \<Longrightarrow> \<exists>i < length nodes. stuck_name db da (nodes ! i) \<Longrightarrow>
    expandReferences k db da nodes = Inl OutOfFuel"
proof (induction k arbitrary: nodes)
  case (Suc k)
  from expand_pass_total [OF Suc.prems(1,2) P] Suc.prems(3) obtain nodes' b where
    p: "expand_pass db da nodes = Inr (nodes', b)" "b" "tree_ok nodes'" "named P nodes'"
    "\<exists>i < length nodes'. stuck_name db da (nodes' ! i)" by blast
  from Suc.IH [OF p(3-5)] p(1,2) show ?case by simp
qed simp

lemma expandReferences_total:
  assumes P: "\<And>e. is_action db (snd e) \<Longrightarrow> P e" "\<And>e. P e \<Longrightarrow> referable db da e"
    and ok: "tree_ok nodes" "named P nodes" and ns: "\<not> (\<exists>i < length nodes. stuck_name db da (nodes ! i))" and k: "2 \<le> k"
  shows "\<exists>nodes'. expandReferences k db da nodes = Inr nodes' \<and> tree_ok nodes' \<and> named P nodes' \<and>
    (\<forall>i < length nodes'. nm_children (nodes' ! i) = [] \<longrightarrow> \<not> eg_dimension db (getConcrete (nodes' ! i)))"
proof -
  obtain j where "k = 2 + j" using le_Suc_ex [OF k] by blast
  then have j: "k = Suc (Suc j)" by simp
  from expand_pass_total [OF ok P] ns obtain nodes' b where
    p: "expand_pass db da nodes = Inr (nodes', b)" "tree_ok nodes'" "named P nodes'"
    "\<forall>i < length nodes'. nm_children (nodes' ! i) = [] \<longrightarrow> \<not> eg_dimension db (getConcrete (nodes' ! i))" by blast
  with expand_pass_done [OF p(4)] show ?thesis by (cases b) (auto simp: j)
qed

lemma addType_total:
  assumes ok: "tree_ok nodes" and n: "named P nodes" and p: "\<forall>e \<in> set p. P e"
    and act: "\<And>i. i < length nodes \<Longrightarrow> nm_children (nodes ! i) = [] \<Longrightarrow>
      \<exists>e. nm_element (nodes ! i) = Some e \<and> is_action db (snd e)"
  shows "\<exists>nodes'. addType db addr p nodes = Inr nodes' \<and> tree_ok nodes' \<and> named P nodes'"
proof -
  have run: "\<exists>nodes'. foldR (addType_node db addr p) is ns = Inr nodes' \<and> named P nodes'"
    if "named P ns" "distinct is" "\<forall>i \<in> set is. i < length ns" 
      "\<forall>i \<in> set is. nm_children (ns ! i) = [] \<longrightarrow> (\<exists>e. nm_element (ns ! i) = Some e \<and> is_action db (snd e))" for "is" ns
    using that
  proof (induction "is" arbitrary: ns)
    case (Cons i "is")
    have i: "i < length ns" "i \<notin> set is" using Cons.prems by auto
    show ?case
    proof (cases "nm_children (ns ! i) = []")
      case True
      with Cons.prems(4) obtain e where e: "nm_element (ns ! i) = Some e" "is_action db (snd e)" by auto
      define es where "es = (if member_results db addr (snd e) p \<noteq> [] then member_results db addr (snd e) p else p)"
      define m where "m = (member_results db addr (snd e) p \<noteq> [])"
      let ?n = "attach i (nm_isReference (ns ! i)) m es ns"
      have s: "addType_node db addr p i ns = Inr ?n"
        using True e by (simp add: addType_node_def getConcrete_def Let_def add_attach [OF i(1)] es_def m_def)
      have "\<forall>x \<in> set es. P x" using p by (auto simp: es_def member_results_set)
      then have "named P ?n" by (rule named_attach [OF Cons.prems(1) i(1)])
      moreover have "\<forall>j \<in> set is. ?n ! j = ns ! j" using Cons.prems(3) i by (intro ballI attach_nth_other) auto
      ultimately show ?thesis using Cons.IH [of ?n] Cons.prems s by fastforce
    next
      case False
      then have "addType_node db addr p i ns = Inr ns" by (simp add: addType_node_def)
      with Cons show ?thesis by simp
    qed
  qed simp
  from run [of nodes "[0..<length nodes]"] n act obtain nodes' where
    r: "addType db addr p nodes = Inr nodes'" "named P nodes'" by (auto simp: addType_def)
  moreover have "walk (types_to db p) [0..<length nodes] nodes nodes'"
    using r(1) unfolding addType_def by (rule addType_walk) simp
  from walk_extends [OF this _ _ ok] have "tree_ok nodes'" by simp
  ultimately show ?thesis by blast
qed

lemma pruneBranches_total:
  "tree_ok nodes \<Longrightarrow> i < length nodes \<Longrightarrow> length nodes < i + k \<Longrightarrow> \<exists>nodes'. pruneBranches k i nodes = Inr nodes'"
proof (induction k arbitrary: i nodes)
  case (Suc k)
  let ?n = "nodes ! i"
  have child: "\<exists>n'. pruneBranches k c n = Inr n' \<and> prunes nodes n'"
    if c: "c \<in> set (nm_children ?n)" and p: "prunes nodes n" for c n
  proof -
    have "length n = length nodes" using p by (simp add: prunes_def)
    with tree_okD [OF Suc.prems(1,2) c] Suc.prems(3) prunes_tree_ok [OF p Suc.prems(1)] Suc.IH [of n c]
    obtain n' where "pruneBranches k c n = Inr n'" by auto
    with pruneBranches_prunes [OF this] p prunes_trans show ?thesis by blast
  qed
  have "\<exists>n. foldR (\<lambda>c nodes. bindR (pruneBranches k c nodes) (\<lambda>nodes.
      Inr (if nm_isMember (nodes ! c) then set_member i nodes else nodes))) (nm_children ?n) nodes = Inr n \<and> prunes nodes n"
  proof (rule foldR_total)
    fix c n
    assume "c \<in> set (nm_children ?n)" "prunes nodes n"
    with child obtain n' where "pruneBranches k c n = Inr n'" "prunes nodes n'" by blast
    then show "\<exists>t. bindR (pruneBranches k c n) (\<lambda>nodes.
        Inr (if nm_isMember (nodes ! c) then set_member i nodes else nodes)) = Inr t \<and> prunes nodes t"
      using prunes_trans prunes_set_member by auto
  qed simp
  moreover have "\<exists>s. foldR (\<lambda>c (nodes, best, bRemovedChild). bindR (pruneBranches k c nodes) (\<lambda>nodes.
      Inr (if nm_isMember (nodes ! c) then (nodes, best @ [c], bRemovedChild) else (nodes, best, True))))
      (nm_children ?n) (nodes, [], False) = Inr s \<and> prunes nodes (fst s)"
  proof (rule foldR_total)
    fix c and s :: "name_node list \<times> nat list \<times> bool"
    assume "c \<in> set (nm_children ?n)" "prunes nodes (fst s)"
    with child obtain n' where "pruneBranches k c (fst s) = Inr n'" "prunes nodes n'" by blast
    then show "\<exists>t. (case s of (nodes, best, bRemovedChild) \<Rightarrow> bindR (pruneBranches k c nodes) (\<lambda>nodes.
        Inr (if nm_isMember (nodes ! c) then (nodes, best @ [c], bRemovedChild) else (nodes, best, True)))) = Inr t \<and>
      prunes nodes (fst t)"
      by (cases s) auto
  qed simp
  ultimately show ?case by (auto simp: Let_def split: prod.splits)
qed simp

lemma prune_total:
  assumes "tree_ok nodes" and "named P nodes"
  shows "\<exists>nodes'. prune_root nodes = Inr nodes' \<and> tree_ok nodes' \<and> named P nodes'"
proof -
  from pruneBranches_total [OF assms(1), of 0 "Suc (length nodes)"] tree_ok_pos [OF assms(1)] obtain nodes' where
    n: "prune_root nodes = Inr nodes'" by (auto simp: prune_root_def)
  then have "prunes nodes nodes'" unfolding prune_root_def by (rule pruneBranches_prunes)
  with n prunes_tree_ok named_prunes assms show ?thesis by blast
qed

section \<open>The resolution of a type path\<close>

definition start_names :: "element_pair list \<Rightarrow> name_node list" where
  "start_names ctx = attach 0 True False ctx [mk_name None False True]"

lemma start_names: "foldR (\<lambda>element. add 0 element False False) ctx [mk_name None False True] = Inr (start_names ctx)"
  using add_attach [of 0 "[mk_name None False True]" False ctx] by (simp add: start_names_def mk_name_def)

lemma start_tree_ok: "tree_ok (start_names ctx)"
  unfolding start_names_def by (rule tree_ok_attach) (simp_all add: tree_ok_def mk_name_def)

lemma start_reads:
  assumes "ctx \<noteq> []"
  shows "reads db da ctx [] (start_names ctx)"
proof -
  let ?r = "[mk_name None False True]"
  have ok: "tree_ok ?r" by (simp add: tree_ok_def mk_name_def)
  have "walk (\<lambda>e es. es = ctx) [0..<length ?r] ?r (start_names ctx)"
    unfolding start_names_def by (auto intro!: walk_attach walk_Nil simp: mk_name_def)
  note w = walk_paths [OF this ok]
  have "reading db da ctx [] ls" if "name_path (start_names ctx) 0 ls" for ls
  proof -
    from w [OF that] obtain ls0 e where "name_path ?r 0 ls0" "e \<in> set ctx" "ls = ls0 @ [e]"
      using assms by (auto simp: mk_name_def)
    moreover from this(1) have "ls0 = []" by (cases rule: name_path.cases) (simp_all add: mk_name_def)
    ultimately show ?thesis by (simp add: reading_context)
  qed
  moreover have "nm_element (start_names ctx ! 0) = None"
    by (simp add: start_names_def attach_nth_self mk_name_def)
  ultimately show ?thesis using start_tree_ok by (simp add: reads_def)
qed

lemma start_named: "ctx \<noteq> [] \<Longrightarrow> \<forall>e \<in> set ctx. P e \<Longrightarrow> named P (start_names ctx)"
  by (auto simp: named_def start_names_def attach_def mk_name_def nth_append nth_Cons' Suc_le_eq)

definition resolve_element :: "database \<Rightarrow> derivation_analysis \<Rightarrow> (idx \<Rightarrow> nat) \<Rightarrow> element_pair list \<Rightarrow> name_node list \<Rightarrow> name_node list result" where
  "resolve_element db da addr p nodes =
     bindR (expandReferences (tree_fuel db) db da nodes) (\<lambda>nodes. bindR (addType db addr p nodes) prune_root)"

lemma resolve_elements:
  "resolve db da addr ctx typePath f = bindR (foldR (resolve_element db da addr) typePath (start_names ctx)) (\<lambda>nodes.
     if f then bindR (expandReferences (tree_fuel db) db da nodes) prune_root else Inr nodes)"
  unfolding resolve_def start_names by (simp add: resolve_element_def [abs_def])

lemma resolve_elements_reads:
  "foldR (resolve_element db da addr) qs nodes = Inr nodes' \<Longrightarrow> reads db da ctx ps nodes \<Longrightarrow> [] \<notin> set qs \<Longrightarrow>
   reads db da ctx (ps @ qs) nodes'"
proof (induction qs arbitrary: nodes ps)
  case (Cons q qs)
  from Cons.prems(1) obtain n3 where n3: "resolve_element db da addr q nodes = Inr n3"
    "foldR (resolve_element db da addr) qs n3 = Inr nodes'" by (auto simp: bindR_eq_Inr)
  then obtain n1 n2 where s: "expandReferences (tree_fuel db) db da nodes = Inr n1" "addType db addr q n1 = Inr n2"
    "prune_root n2 = Inr n3" "foldR (resolve_element db da addr) qs n3 = Inr nodes'"
    unfolding resolve_element_def bindR_eq_Inr by blast
  have "reads db da ctx ps n1" using expandReferences_reads [OF s(1) Cons.prems(2)] by blast
  moreover have "q \<noteq> []" using Cons.prems(3) by auto
  ultimately have "reads db da ctx (ps @ [q]) n2" by (rule addType_reads [OF s(2)])
  then have "reads db da ctx (ps @ [q]) n3" by (rule prune_reads [OF s(3)])
  from Cons.IH [OF s(4) this] Cons.prems(3) show ?case by simp
qed simp

lemma resolve_element_total:
  assumes ok: "tree_ok nodes" "named (followable db da) nodes"
    and P: "\<forall>e \<in> set p. P e" "\<And>e. followable db da e \<Longrightarrow> P e"
  shows "\<exists>nodes'. resolve_element db da addr p nodes = Inr nodes' \<and> tree_ok nodes' \<and> named P nodes'"
proof -
  have ns: "\<not> (\<exists>i < length nodes. stuck_name db da (nodes ! i))"
    using namedD [OF ok(2)] by (fastforce simp: stuck_name_def followable_def split: option.splits)
  have k: "2 \<le> tree_fuel db" by (simp add: tree_fuel_def)
  from expandReferences_total [OF action_followable _ ok ns k] obtain n1 where
    n1: "expandReferences (tree_fuel db) db da nodes = Inr n1" "tree_ok n1" "named (followable db da) n1"
    and eg: "\<And>i. i < length n1 \<Longrightarrow> nm_children (n1 ! i) = [] \<Longrightarrow> \<not> eg_dimension db (getConcrete (n1 ! i))"
    by (auto simp: followable_def)
  have "\<exists>e. nm_element (n1 ! i) = Some e \<and> is_action db (snd e)" if "i < length n1" "nm_children (n1 ! i) = []" for i
    using namedD [OF n1(3) that] eg [OF that] by (auto simp: followable_def getConcrete_def)
  from addType_total [OF n1(2) named_mono [OF n1(3) P(2)] P(1) this] obtain n2 where
    n2: "addType db addr p n1 = Inr n2" "tree_ok n2" "named P n2" by blast
  from prune_total [OF n2(2,3)] n1(1) n2(1) show ?thesis by (auto simp: resolve_element_def)
qed

definition expandable :: "database \<Rightarrow> derivation_analysis \<Rightarrow> element_pair \<Rightarrow> bool" where
  "expandable db da e \<longleftrightarrow> referable db da e \<and> \<not> stuck db da e"

lemma followable_expandable: "followable db da e \<Longrightarrow> expandable db da e"
  by (simp add: followable_def expandable_def)

lemma resolve_elements_total:
  "tree_ok nodes \<Longrightarrow> named (followable db da) nodes \<Longrightarrow> \<forall>p \<in> set qs. \<forall>e \<in> set p. expandable db da e \<Longrightarrow>
   \<forall>p \<in> set (butlast qs). \<forall>e \<in> set p. followable db da e \<Longrightarrow>
   \<exists>nodes'. foldR (resolve_element db da addr) qs nodes = Inr nodes' \<and> tree_ok nodes' \<and> named (expandable db da) nodes'"
proof (induction qs arbitrary: nodes)
  case Nil
  then show ?case using named_mono followable_expandable by fastforce
next
  case (Cons q qs)
  show ?case
  proof (cases "qs = []")
    case True
    with resolve_element_total [OF Cons.prems(1,2), of q "expandable db da" addr] Cons.prems(3) followable_expandable
    show ?thesis by auto
  next
    case False
    with Cons.prems(4) have "\<forall>e \<in> set q. followable db da e" by simp
    from resolve_element_total [OF Cons.prems(1,2) this, of addr] obtain n where
      n: "resolve_element db da addr q nodes = Inr n" "tree_ok n" "named (followable db da) n" by blast
    with Cons.IH [OF n(2,3)] Cons.prems(3,4) False show ?thesis by simp
  qed
qed

section \<open>The properties\<close>

text \<open>A root action with a child action and a dimension that refers to the child.\<close>

definition names_sample :: database where
  "names_sample =
    [OtherObject,
     InterfaceElement \<lparr>if_class = Action, if_identifier = ''R'', if_parent = None, if_children = [2, 3],
       if_baseContexts = [], if_size = 1, if_contextTypes = [], if_canonicalType = []\<rparr>,
     InterfaceElement \<lparr>if_class = Action, if_identifier = ''X'', if_parent = Some 1, if_children = [],
       if_baseContexts = [], if_size = 1, if_contextTypes = [], if_canonicalType = []\<rparr>,
     InterfaceElement \<lparr>if_class = Dimension, if_identifier = ''d'', if_parent = Some 1, if_children = [],
       if_baseContexts = [], if_size = 1, if_contextTypes = [2], if_canonicalType = []\<rparr>,
     ConcreteElement \<lparr>ce_class = ConcreteAction, ce_parent = None, ce_element = Some 1, ce_children = [5, 6]\<rparr>,
     ConcreteElement \<lparr>ce_class = ConcreteAction, ce_parent = Some 4, ce_element = Some 2, ce_children = []\<rparr>,
     ConcreteElement \<lparr>ce_class = Dimension_User None, ce_parent = Some 4, ce_element = Some 3, ce_children = []\<rparr>,
     InheritanceNode \<lparr>in_rootConcreteAction = 4, in_context = 1, in_parent = None, in_children = [],
       in_actions = [], in_dimensions = []\<rparr>,
     InheritanceNode \<lparr>in_rootConcreteAction = 5, in_context = 2, in_parent = None, in_children = [],
       in_actions = [], in_dimensions = []\<rparr>]"

definition names_analysis :: derivation_analysis where
  "names_analysis = \<lparr>m_compatibility = Map.empty, m_instanceMap = [(3, 6)], m_inheritanceMap = [(1, 7), (2, 8)]\<rparr>"

lemma NameResolution_reads:
  assumes "NameResolution db da addr operation ctx typePath = Inr nodes" and "[] \<notin> set typePath"
  shows "reads db da ctx typePath nodes"
    and "operation = id_Done \<Longrightarrow> i < length nodes \<Longrightarrow> nm_children (nodes ! i) = [] \<Longrightarrow>
      \<not> eg_dimension db (getConcrete (nodes ! i))"
proof -
  from assms(1) obtain f n where f: "ctx \<noteq> []" "expandFinalReferences operation = Inr f"
    "foldR (resolve_element db da addr) typePath (start_names ctx) = Inr n"
    "(if f then bindR (expandReferences (tree_fuel db) db da n) prune_root else Inr n) = Inr nodes"
    by (auto simp: NameResolution_def resolve_elements bindR_eq_Inr split: if_splits)
  have n: "reads db da ctx typePath n"
    using resolve_elements_reads [OF f(3) start_reads [OF f(1)] assms(2)] by simp
  have "reads db da ctx typePath nodes \<and> (operation = id_Done \<longrightarrow>
    (\<forall>i < length nodes. nm_children (nodes ! i) = [] \<longrightarrow> \<not> eg_dimension db (getConcrete (nodes ! i))))"
  proof (cases f)
    case True
    with f(4) obtain n1 where n1: "expandReferences (tree_fuel db) db da n = Inr n1" "prune_root n1 = Inr nodes"
      by (auto simp: bindR_eq_Inr)
    have p: "prunes n1 nodes" using n1(2) unfolding prune_root_def by (rule pruneBranches_prunes)
    from expandReferences_reads [OF n1(1) n] prune_reads [OF n1(2)] p show ?thesis
      by (auto simp: prunes_def getConcrete_def)
  next
    case False
    then show ?thesis using f(2,4) n by (cases operation) simp_all
  qed
  then show "reads db da ctx typePath nodes"
    and "operation = id_Done \<Longrightarrow> i < length nodes \<Longrightarrow> nm_children (nodes ! i) = [] \<Longrightarrow>
      \<not> eg_dimension db (getConcrete (nodes ! i))" by blast+
qed

text \<open>C14. The tree of names that the name resolution returns says only readings of the type path, and at
  least one: every path from the root goes from an instance of the context through an alternative of every
  element of the type path, members first, with the references on the way resolved; the references at the
  end are resolved too when the operation is \<open>Done\<close>.\<close>

theorem NameResolution_sound:
  assumes "NameResolution db da addr operation ctx typePath = Inr nodes" and "[] \<notin> set typePath"
  shows "(\<exists>ls. name_path nodes 0 ls) \<and>
    (\<forall>ls. name_path nodes 0 ls \<longrightarrow> reading db da ctx typePath ls \<and>
      (operation = id_Done \<longrightarrow> \<not> eg_dimension db (Some (snd (last ls)))))"
proof -
  note rd = NameResolution_reads(1) [OF assms] and dn = NameResolution_reads(2) [OF assms]
  have ok: "tree_ok nodes" using rd by (simp add: reads_def)
  have leaf: "name_path nodes i ls \<Longrightarrow> i < length nodes \<Longrightarrow>
      \<exists>j < length nodes. nm_children (nodes ! j) = [] \<and> nm_element (nodes ! j) = last (nm_element (nodes ! i) # map Some ls)" for i ls
  proof (induction rule: name_path.induct)
    case (name_path_child c i e ls)
    from tree_okD [OF ok name_path_child.prems name_path_child.hyps(1)] name_path_child show ?case by auto
  qed auto
  have "\<not> eg_dimension db (Some (snd (last ls)))" if "operation = id_Done" "name_path nodes 0 ls" for ls
  proof -
    have "reading db da ctx typePath ls" using rd that(2) by (simp add: reads_def)
    then have "ls \<noteq> []" by (rule reading_not_Nil)
    with leaf [OF that(2) tree_ok_pos [OF ok]] obtain j where
      "j < length nodes" "nm_children (nodes ! j) = []" "nm_element (nodes ! j) = Some (last ls)" by (auto simp: last_map)
    then show ?thesis using dn [OF that(1), of j] by (simp add: getConcrete_def)
  qed
  with rd name_path_exists [OF ok tree_ok_pos [OF ok]] show ?thesis by (auto simp: reads_def)
qed

theorem NameResolution_sound_witness:
  "\<exists>nodes ls. NameResolution names_sample names_analysis id id_Start [(1, 4)] [[(3, 6)], [(2, 5)]] = Inr nodes \<and>
    name_path nodes 0 ls \<and> reading names_sample names_analysis [(1, 4)] [[(3, 6)], [(2, 5)]] ls"
proof -
  have "case NameResolution names_sample names_analysis id id_Start [(1, 4)] [[(3, 6)], [(2, 5)]] of Inl _ \<Rightarrow> False | Inr _ \<Rightarrow> True"
    by code_simp
  then obtain nodes where n: "NameResolution names_sample names_analysis id id_Start [(1, 4)] [[(3, 6)], [(2, 5)]] = Inr nodes"
    by (auto split: sum.splits)
  from NameResolution_sound [OF n] n show ?thesis by auto
qed

text \<open>C15. The name resolution succeeds when there is a context, no reference refers to nothing, and only
  actions and references to actions are followed by a further element of the type path.\<close>

theorem NameResolution_total:
  assumes "ctx \<noteq> []" and "operation \<noteq> HIGHEST_OPERATION_TYPE"
    and "\<forall>e \<in> set ctx. followable db da e" and "\<forall>p \<in> set (butlast typePath). \<forall>e \<in> set p. followable db da e"
    and "\<forall>p \<in> set typePath. \<forall>e \<in> set p. expandable db da e"
  shows "\<exists>nodes. NameResolution db da addr operation ctx typePath = Inr nodes"
proof -
  from resolve_elements_total [OF start_tree_ok start_named [OF assms(1,3)] assms(5,4), of addr] obtain n where
    n: "foldR (resolve_element db da addr) typePath (start_names ctx) = Inr n" "tree_ok n" "named (expandable db da) n" by blast
  have ns: "\<not> (\<exists>i < length n. stuck_name db da (n ! i))"
    using namedD [OF n(3)] by (fastforce simp: stuck_name_def expandable_def split: option.splits)
  have ax: "expandable db da e" if "is_action db (snd e)" for e
    using action_followable [OF that] by (rule followable_expandable)
  from expandReferences_total [OF ax _ n(2,3) ns, of "tree_fuel db"] obtain n1 where
    n1: "expandReferences (tree_fuel db) db da n = Inr n1" "tree_ok n1" "named (expandable db da) n1"
    by (auto simp: expandable_def tree_fuel_def)
  from prune_total [OF n1(2,3)] obtain n2 where n2: "prune_root n1 = Inr n2" by blast
  obtain f where "expandFinalReferences operation = Inr f" using assms(2) by (cases operation) auto
  with assms(1) n(1) n1(1) n2 show ?thesis by (auto simp: NameResolution_def resolve_elements)
qed

theorem NameResolution_total_witness:
  "\<exists>nodes. NameResolution names_sample names_analysis id id_Start [(1, 4)] [[(3, 6)], [(2, 5)]] = Inr nodes"
proof (rule NameResolution_total)
  have t: "targets names_sample names_analysis 6 = Inr [(2, 5)]" by code_simp
  have a: "is_action names_sample 4" "is_action names_sample 5" "eg_dimension names_sample (Some 6)" by code_simp+
  have f: "followable names_sample names_analysis (1, 4)" "followable names_sample names_analysis (2, 5)"
    using a action_followable by auto
  have "followable names_sample names_analysis (3, 6)" using a t by (simp add: followable_def referable_def stuck_def)
  with f followable_expandable
  show "\<forall>e \<in> set [(1, 4)]. followable names_sample names_analysis e"
    "\<forall>p \<in> set (butlast [[(3, 6)], [(2, 5)]]). \<forall>e \<in> set p. followable names_sample names_analysis e"
    "\<forall>p \<in> set [[(3, 6)], [(2, 5)]]. \<forall>e \<in> set p. expandable names_sample names_analysis e" by auto
qed simp_all

text \<open>C16. When no reference fails to resolve, the loop of \<open>expandReferences\<close> ends, after at most two
  passes, exactly when every reference among the terminal names refers to something: a dimension whose
  context types have no instance keeps it running for ever.\<close>

theorem expandReferences_terminates_iff:
  assumes "tree_ok nodes" and "named (referable db da) nodes" and "2 \<le> k"
  shows "if \<exists>i < length nodes. stuck_name db da (nodes ! i)
    then expandReferences k db da nodes = Inl OutOfFuel
    else \<exists>nodes'. expandReferences k db da nodes = Inr nodes'"
proof -
  have r: "referable db da e" if "is_action db (snd e)" for e
    using action_followable [OF that] by (simp add: followable_def)
  show ?thesis
  proof (cases "\<exists>i < length nodes. stuck_name db da (nodes ! i)")
    case True
    then show ?thesis using expandReferences_stuck [OF r _ assms(1,2)] by simp
  next
    case False
    from expandReferences_total [OF r _ assms(1,2) False assms(3)] show ?thesis unfolding if_not_P [OF False] by blast
  qed
qed

theorem expandReferences_terminates_iff_witness:
  "expandReferences 2 names_sample no_analysis (start_names [(3, 6)]) = Inl OutOfFuel"
proof -
  have t: "targets names_sample no_analysis 6 = Inr []" "eg_dimension names_sample (Some 6)" by code_simp+
  then have "referable names_sample no_analysis (3, 6)" by (simp add: referable_def)
  then have n: "named (referable names_sample no_analysis) (start_names [(3, 6)])" by (intro start_named) simp_all
  have "\<exists>i < length (start_names [(3, 6)]). stuck_name names_sample no_analysis (start_names [(3, 6)] ! i)"
    by (intro exI [of _ 1]) (simp add: start_names_def attach_def mk_name_def stuck_name_def stuck_def t)
  with expandReferences_terminates_iff [OF start_tree_ok n order_refl] show ?thesis by simp
qed

text \<open>An action beside two actions, the first with a child that has a child, and a dimension.\<close>

definition pruned_sample :: database where
  "pruned_sample =
    [OtherObject,
     ConcreteElement \<lparr>ce_class = ConcreteAction, ce_parent = None, ce_element = None, ce_children = [2, 3, 4, 6]\<rparr>,
     ConcreteElement \<lparr>ce_class = ConcreteAction, ce_parent = Some 1, ce_element = None, ce_children = []\<rparr>,
     ConcreteElement \<lparr>ce_class = ConcreteAction, ce_parent = Some 1, ce_element = None, ce_children = [5]\<rparr>,
     ConcreteElement \<lparr>ce_class = ConcreteAction, ce_parent = Some 1, ce_element = None, ce_children = []\<rparr>,
     ConcreteElement \<lparr>ce_class = ConcreteAction, ce_parent = Some 3, ce_element = None, ce_children = [7]\<rparr>,
     ConcreteElement \<lparr>ce_class = Dimension_User None, ce_parent = Some 1, ce_element = None, ce_children = []\<rparr>,
     ConcreteElement \<lparr>ce_class = ConcreteAction, ce_parent = Some 5, ce_element = None, ce_children = []\<rparr>]"

definition pruned_names :: "name_node list" where
  "pruned_names =
    [\<lparr>nm_element = None, nm_isMember = True, nm_isReference = True, nm_children = [1]\<rparr>,
     \<lparr>nm_element = Some (0, 2), nm_isMember = True, nm_isReference = False, nm_children = [2]\<rparr>,
     \<lparr>nm_element = Some (0, 3), nm_isMember = True, nm_isReference = False, nm_children = [4]\<rparr>,
     \<lparr>nm_element = Some (0, 4), nm_isMember = False, nm_isReference = False, nm_children = [5, 6]\<rparr>,
     \<lparr>nm_element = Some (0, 5), nm_isMember = True, nm_isReference = False, nm_children = []\<rparr>,
     \<lparr>nm_element = Some (0, 5), nm_isMember = False, nm_isReference = False, nm_children = []\<rparr>,
     \<lparr>nm_element = Some (0, 6), nm_isMember = False, nm_isReference = False, nm_children = []\<rparr>]"

text \<open>The names that pruning cuts off still count: after two elements of this type path the only
  reading ends at an action, but the third element is refused because a name that was cut off is a
  dimension.\<close>

theorem pruned_names_refuse_path:
  "resolve pruned_sample no_analysis id [(0, 2)] [[(0, 3), (0, 4)], [(0, 5), (0, 6)]] False = Inr pruned_names \<and>
   {ls. name_path pruned_names 0 ls} = {[(0, 2), (0, 3), (0, 5)]} \<and> is_action pruned_sample 5 \<and>
   resolve pruned_sample no_analysis id [(0, 2)] [[(0, 3), (0, 4)], [(0, 5), (0, 6)], [(0, 7)]] False =
     Inl (NameResolutionException ''Cannot resolve futher element in type path after a dimension. '')"
proof (intro conjI)
  show "resolve pruned_sample no_analysis id [(0, 2)] [[(0, 3), (0, 4)], [(0, 5), (0, 6)]] False = Inr pruned_names"
    by code_simp
  show "is_action pruned_sample 5" by code_simp
  show "resolve pruned_sample no_analysis id [(0, 2)] [[(0, 3), (0, 4)], [(0, 5), (0, 6)], [(0, 7)]] False =
      Inl (NameResolutionException ''Cannot resolve futher element in type path after a dimension. '')"
    by code_simp
  have n: "nm_children (pruned_names ! 0) = [1]" "nm_children (pruned_names ! 1) = [2]" "nm_children (pruned_names ! 2) = [4]"
    "nm_children (pruned_names ! 4) = []" "nm_element (pruned_names ! 1) = Some (0, 2)"
    "nm_element (pruned_names ! 2) = Some (0, 3)" "nm_element (pruned_names ! 4) = Some (0, 5)"
    by (simp_all add: pruned_names_def)
  have "name_path pruned_names 4 xs \<longleftrightarrow> xs = []" for xs by (subst name_path.simps) (simp add: n)
  then have "name_path pruned_names 2 xs \<longleftrightarrow> xs = [(0, 5)]" for xs by (subst name_path.simps) (simp add: n)
  then have "name_path pruned_names 1 xs \<longleftrightarrow> xs = [(0, 3), (0, 5)]" for xs by (subst name_path.simps) (simp add: n del: One_nat_def)
  then have "name_path pruned_names 0 xs \<longleftrightarrow> xs = [(0, 2), (0, 3), (0, 5)]" for xs
    by (subst name_path.simps) (simp add: n del: One_nat_def)
  then show "{ls. name_path pruned_names 0 ls} = {[(0, 2), (0, 3), (0, 5)]}" by simp
qed

end
