(* ===== verification/CommonRoot.thy ===== *)
theory CommonRoot
  imports InstructionEval "HOL-Library.Sublist"
begin

text \<open>
  The derivation of one instance from another in \<open>src/eg/invocation.cpp\<close>: \<open>findCommonRoot\<close> and
  \<open>commonRootDerivation\<close> of the visitor that generates the instructions. The instructions that it
  appends are a chain, each the only child of the one before; the model gives the chain, the variable
  at its end and the next address for a variable.
\<close>

section \<open>The common root\<close>

text \<open>The loop over two paths from the root, with \<open>pCommonRoot\<close>.\<close>

fun common_root :: "idx list \<Rightarrow> idx list \<Rightarrow> idx option \<Rightarrow> idx option" where
  "common_root (x # xs) (y # ys) pCommonRoot = (if x = y then common_root xs ys (Some x) else pCommonRoot)"
| "common_root _ _ pCommonRoot = pCommonRoot"

definition findCommonRoot :: "database \<Rightarrow> idx option \<Rightarrow> idx option \<Rightarrow> idx option result" where
  "findCommonRoot db pLeft pRight =
     (if pLeft = pRight then Inr pLeft
      else bindR (ancestors db pLeft) (\<lambda>left.
           bindR (ancestors db pRight) (\<lambda>right. Inr (common_root left right None))))"

section \<open>The derivation\<close>

text \<open>The loop from \<open>pFrom\<close> up to the common root.\<close>

fun derive_parents :: "nat \<Rightarrow> database \<Rightarrow> idx option \<Rightarrow> idx \<Rightarrow> variable \<Rightarrow> nat \<Rightarrow> (instr_op list \<times> variable \<times> nat) result" where
  "derive_parents 0 db pCommon pFrom pVariable n = Inl OutOfFuel"
| "derive_parents (Suc k) db pCommon pFrom pVariable n =
     (if Some pFrom = pCommon then Inr ([], pVariable, n)
      else case parent_of db pFrom of
        None \<Rightarrow> Inl AssertFailed
      | Some p \<Rightarrow>
          if \<not> is_action db p then Inl AssertFailed
          else let v = InstanceVariable n (Some pVariable) p
               in bindR (derive_parents k db pCommon p v (Suc n)) (\<lambda>(ops, v', n').
                    Inr (ParentDerivationInstruction pVariable v # ops, v', n')))"

text \<open>The loop that collects the path from the common root down to \<open>pTo\<close>.\<close>

fun path_down :: "nat \<Rightarrow> database \<Rightarrow> idx option \<Rightarrow> idx option \<Rightarrow> idx list \<Rightarrow> idx list result" where
  "path_down 0 db pCommon pTo path = Inl OutOfFuel"
| "path_down (Suc k) db pCommon pTo path =
     (if pTo = pCommon then Inr (rev path)
      else case pTo of
        None \<Rightarrow> Inl UndefinedBehaviour
      | Some t \<Rightarrow> bindR (conc db t) (\<lambda>e. path_down k db pCommon (ce_parent e) (path @ [t])))"

text \<open>The loop over that path, which returns at the first action with more than one instance.\<close>

fun derive_children :: "database \<Rightarrow> idx list \<Rightarrow> variable \<Rightarrow> nat \<Rightarrow> (instr_op list \<times> variable \<times> nat) result" where
  "derive_children db [] pVariable n = Inr ([], pVariable, n)"
| "derive_children db (i # path) pVariable n =
     (if is_action db i then
        bindR (getLocalDomainSize db i) (\<lambda>l.
          if l \<noteq> 1 then Inr ([FailureInstruction], pVariable, n)
          else let v = InstanceVariable n (Some pVariable) i
               in bindR (derive_children db path v (Suc n)) (\<lambda>(ops, v', n').
                    Inr (ChildDerivationInstruction pVariable v # ops, v', n')))
      else if user_dimension_at db i \<noteq> None then derive_children db path pVariable n
      else Inl (RuntimeError ''Unreachable''))"

definition path_fuel :: "database \<Rightarrow> nat" where
  "path_fuel db = Suc (Suc (length db))"

definition commonRootDerivation :: "database \<Rightarrow> idx option \<Rightarrow> idx option \<Rightarrow> variable \<Rightarrow> nat \<Rightarrow>
    (instr_op list \<times> variable \<times> nat) result" where
  "commonRootDerivation db pFrom pTo pVariable n =
     (case pFrom of
        None \<Rightarrow> Inr ([], pVariable, n)
      | Some f \<Rightarrow>
          if pFrom = pTo then Inr ([], pVariable, n)
          else bindR (findCommonRoot db pFrom pTo) (\<lambda>pCommon.
               bindR (derive_parents (path_fuel db) db pCommon f pVariable n) (\<lambda>(ups, v, n).
               bindR (path_down (path_fuel db) db pCommon pTo []) (\<lambda>path.
               bindR (derive_children db path v n) (\<lambda>(downs, v, n). Inr (ups @ downs, v, n))))))"

text \<open>A chain of instructions with its last child.\<close>

definition nest :: "instr_op list \<Rightarrow> instruction \<Rightarrow> instruction" where
  "nest ops c = foldr (\<lambda>op c. Instr op [c]) ops c"

section \<open>The common root is the deepest common ancestor\<close>

lemma common_root_prefix:
  "common_root xs ys r = (if longest_common_prefix xs ys = [] then r else Some (last (longest_common_prefix xs ys)))"
  by (induction xs ys r rule: common_root.induct) auto

lemma root_path_prefix:
  assumes "prefix ps (root_path db i)" and "ps \<noteq> []"
  shows "ps = root_path db (last ps)"
  using assms root_path_prefix_last by (auto simp: prefix_def)

lemma root_path_member: "b \<in> set (root_path db i) \<longleftrightarrow> prefix (root_path db b) (root_path db i)"
  using root_path_split [of b db i] set_mono_prefix [of "root_path db b" "root_path db i"]
  by (auto simp: prefix_def)

lemma common_root_path:
  "(case common_root (root_path db l) (root_path db r) None of
      None \<Rightarrow> set (root_path db l) \<inter> set (root_path db r) = {}
    | Some a \<Rightarrow> set (root_path db l) \<inter> set (root_path db r) = set (root_path db a))"
proof -
  let ?p = "longest_common_prefix (root_path db l) (root_path db r)"
  have le: "prefix (root_path db b) ?p" if "b \<in> set (root_path db l) \<inter> set (root_path db r)" for b
    using that by (intro longest_common_prefix_max_prefix) (simp_all add: root_path_member [symmetric])
  show ?thesis
  proof (cases "?p = []")
    case True
    with le have "set (root_path db l) \<inter> set (root_path db r) = {}" by fastforce
    with True show ?thesis by (simp add: common_root_prefix)
  next
    case False
    from root_path_prefix [OF longest_common_prefix_prefix1 False] have p: "?p = root_path db (last ?p)" .
    have "set (root_path db l) \<inter> set (root_path db r) = set ?p"
      using le set_mono_prefix [OF longest_common_prefix_prefix1 [of "root_path db l" "root_path db r"]]
        set_mono_prefix [OF longest_common_prefix_prefix2 [of "root_path db l" "root_path db r"]]
        root_path_self set_mono_prefix by blast
    with False p show ?thesis by (simp add: common_root_prefix)
  qed
qed

lemma ancestors_is_root_path:
  assumes "wf_concrete db" and "concrete_at db i \<noteq> None"
  shows "ancestors db (Some i) = Inr (root_path db i)"
  using assms ancestors_root_path by auto

lemma findCommonRoot_path:
  assumes "wf_concrete db" and "concrete_at db l \<noteq> None" and "concrete_at db r \<noteq> None"
  shows "\<exists>c. findCommonRoot db (Some l) (Some r) = Inr c \<and>
    set (root_path db l) \<inter> set (root_path db r) = (case c of None \<Rightarrow> {} | Some a \<Rightarrow> set (root_path db a))"
proof (cases "l = r")
  case True
  then show ?thesis by (simp add: findCommonRoot_def)
next
  case False
  with assms common_root_path [of db l r] show ?thesis
    by (auto simp: findCommonRoot_def ancestors_is_root_path split: option.splits)
qed

section \<open>Evaluation of a chain\<close>

definition runs :: "database \<Rightarrow> instr_op list \<Rightarrow> evaluator \<Rightarrow> evaluator \<Rightarrow> bool" where
  "runs db ops ev ev' \<longleftrightarrow> (\<forall>deref c. evaluate db deref (nest ops c) ev = evaluate db deref c ev')"

lemma nest_append: "nest (xs @ ys) c = nest xs (nest ys c)"
  by (simp add: nest_def)

lemma runs_Nil: "runs db [] ev ev"
  by (simp add: runs_def nest_def)

lemma runs_append: "runs db xs ev ev1 \<Longrightarrow> runs db ys ev1 ev2 \<Longrightarrow> runs db (xs @ ys) ev ev2"
  by (simp add: runs_def nest_append)

lemma runs_Parent:
  "ParentDerivation_evaluate db f t ev = Inr ev1 \<Longrightarrow> runs db ops ev1 ev2 \<Longrightarrow> runs db (ParentDerivationInstruction f t # ops) ev ev2"
  by (simp add: runs_def nest_def)

lemma runs_Child:
  "ChildDerivation_evaluate f t ev = Inr ev1 \<Longrightarrow> runs db ops ev1 ev2 \<Longrightarrow> runs db (ChildDerivationInstruction f t # ops) ev ev2"
  by (simp add: runs_def nest_def)

definition fresh_from :: "nat \<Rightarrow> evaluator \<Rightarrow> bool" where
  "fresh_from n ev \<longleftrightarrow> (\<forall>a \<in> dom (m_variables ev). a < n)"

lemma fresh_from_not_dom: "fresh_from n ev \<Longrightarrow> n \<notin> dom (m_variables ev)"
  by (auto simp: fresh_from_def)

lemma fresh_from_insert: "fresh_from n ev \<Longrightarrow> fresh_from (Suc n) (ev\<lparr>m_variables := (m_variables ev)(n \<mapsto> r)\<rparr>)"
  by (auto simp: fresh_from_def less_Suc_eq)

text \<open>A variable of a type that holds an instance of it.\<close>

definition holds :: "evaluator \<Rightarrow> variable \<Rightarrow> idx \<Rightarrow> Instance \<Rightarrow> TimeStamp \<Rightarrow> bool" where
  "holds ev v t i ts \<longleftrightarrow> v_concreteType v = Inr t \<and> m_variables ev (v_addr v) = Some (mk_ref i (getIndex t) ts)"

lemma below_self [simp]: "below db a a = []"
  by (simp add: below_def)

lemma below_parent:
  assumes wf: "wf_concrete db" and a: "a \<in> set (root_path db p)" and p: "parent_of db f = Some p"
  shows "below db a f = f # below db a p"
proof -
  from root_path_split [OF a] obtain ys where "root_path db p = root_path db a @ ys" ..
  then show ?thesis by (simp add: below_def root_path_Some [OF wf p])
qed

lemma derive_parents_runs:
  assumes wf: "wf_concrete db"
  shows "is_action db f \<Longrightarrow> a \<in> set (root_path db f) \<Longrightarrow> f < k \<Longrightarrow> holds ev v f i ts \<Longrightarrow> fresh_from n ev \<Longrightarrow>
    \<exists>ops v' n' ev'. derive_parents k db (Some a) f v n = Inr (ops, v', n') \<and> runs db ops ev ev' \<and>
      holds ev' v' a (derive_up db (below db a f) i) ts \<and> fresh_from n' ev'"
proof (induction f arbitrary: k v n ev i rule: less_induct)
  case (less f)
  obtain j where k: "k = Suc j" using less.prems(3) by (cases k) auto
  show ?case
  proof (cases "f = a")
    case True
    then show ?thesis using less.prems k by (auto intro!: runs_Nil exI)
  next
    case False
    then obtain p where p: "parent_of db f = Some p"
      using less.prems(2) by (cases "parent_of db f") (simp_all add: root_path_None)
    from wf_parent_of [OF wf p] have pf: "p < f" and pa: "is_action db p" by simp_all
    have ap: "a \<in> set (root_path db p)" using less.prems(2) False by (simp add: root_path_Some [OF wf p])
    define w where "w = InstanceVariable n (Some v) p"
    define ev1 where "ev1 = ev\<lparr>m_variables := (m_variables ev)(n \<mapsto> mk_ref (i div word_of_int (local_size db f)) (getIndex p) ts)\<rparr>"
    have dom: "v_addr v \<in> dom (m_variables ev)" "v_addr w \<notin> dom (m_variables ev)"
      using less.prems(4) fresh_from_not_dom [OF less.prems(5)] by (auto simp: holds_def w_def)
    have step: "ParentDerivation_evaluate db v w ev = Inr ev1"
      using ParentDerivation_evaluate_ok [OF wf dom, of f p] less.prems(1,4)
      by (simp add: holds_def w_def ev1_def)
    have "holds ev1 w p (i div word_of_int (local_size db f)) ts" by (simp add: holds_def w_def ev1_def)
    moreover have "fresh_from (Suc n) ev1" unfolding ev1_def by (rule fresh_from_insert [OF less.prems(5)])
    moreover have "p < j" using pf less.prems(3) k by simp
    ultimately obtain ops v' n' ev' where r: "derive_parents j db (Some a) p w (Suc n) = Inr (ops, v', n')"
      "runs db ops ev1 ev'" "holds ev' v' a (derive_up db (below db a p) (i div word_of_int (local_size db f))) ts" "fresh_from n' ev'"
      using less.IH [OF pf pa ap] by blast
    have "derive_parents k db (Some a) f v n = Inr (ParentDerivationInstruction v w # ops, v', n')"
      using False p pa r(1) by (simp add: k w_def)
    moreover have "runs db (ParentDerivationInstruction v w # ops) ev ev'" by (rule runs_Parent [OF step r(2)])
    ultimately show ?thesis using r(3,4) below_parent [OF wf ap p] by auto
  qed
qed

lemma path_down_path:
  assumes wf: "wf_concrete db"
  shows "concrete_at db t \<noteq> None \<Longrightarrow> a \<in> set (root_path db t) \<Longrightarrow> t < k \<Longrightarrow>
    path_down k db (Some a) (Some t) path = Inr (drop (length (root_path db a)) (root_path db t) @ rev path)"
proof (induction t arbitrary: k path rule: less_induct)
  case (less t)
  obtain j where k: "k = Suc j" using less.prems(3) by (cases k) auto
  obtain e where e: "concrete_at db t = Some e" using less.prems(1) by auto
  show ?case
  proof (cases "t = a")
    case True
    then show ?thesis by (simp add: k)
  next
    case False
    then obtain p where p: "parent_of db t = Some p"
      using less.prems(2) by (cases "parent_of db t") (simp_all add: root_path_None)
    from wf_parent_of [OF wf p] have pt: "p < t" and pc: "concrete_at db p \<noteq> None" by (auto dest: is_action_concrete)
    have ap: "a \<in> set (root_path db p)" using less.prems(2) False by (simp add: root_path_Some [OF wf p])
    from root_path_split [OF ap] obtain ys where ys: "root_path db p = root_path db a @ ys" ..
    have "path_down j db (Some a) (Some p) (path @ [t]) = Inr (drop (length (root_path db a)) (root_path db p) @ rev (path @ [t]))"
      using less.IH [OF pt pc ap] pt less.prems(3) k by simp
    moreover have "ce_parent e = Some p" using p e by (simp add: parent_of_def)
    ultimately show ?thesis using False e ys by (simp add: k conc_def root_path_Some [OF wf p])
  qed
qed

text \<open>The instance at the end of the path down: its type is the last action on it.\<close>

fun instance_type :: "database \<Rightarrow> idx \<Rightarrow> idx list \<Rightarrow> idx" where
  "instance_type db a [] = a"
| "instance_type db a (i # path) = instance_type db (if is_action db i then i else a) path"

lemma ChildDerivation_evaluate_ok:
  assumes "holds ev v a i ts" and "n \<notin> dom (m_variables ev)"
  shows "ChildDerivation_evaluate v (InstanceVariable n (Some v) t) ev =
    Inr (ev\<lparr>m_variables := (m_variables ev)(n \<mapsto> mk_ref i (getIndex t) ts)\<rparr>)"
  using assms by (simp add: ChildDerivation_evaluate_def holds_def getVarValue_def setVarValue_def domIff)

lemma derive_children_runs:
  assumes wf: "wf_concrete db"
  shows "\<forall>j \<in> set path. is_action db j \<or> user_dimension_at db j \<noteq> None \<Longrightarrow> holds ev v a i ts \<Longrightarrow> fresh_from n ev \<Longrightarrow>
    \<exists>ops v' n'. derive_children db path v n = Inr (ops, v', n') \<and>
      (if \<forall>j \<in> set path. is_action db j \<longrightarrow> local_size db j = 1
       then \<exists>ev'. runs db ops ev ev' \<and> holds ev' v' (instance_type db a path) i ts \<and> fresh_from n' ev'
       else FailureInstruction \<in> set ops)"
proof (induction path arbitrary: v n ev a)
  case Nil
  then show ?case by (auto intro!: runs_Nil exI)
next
  case (Cons j path)
  show ?case
  proof (cases "is_action db j")
    case True
    with wf have l: "getLocalDomainSize db j = Inr (local_size db j)" by (rule getLocalDomainSize_local)
    show ?thesis
    proof (cases "local_size db j = 1")
      case False
      with True l show ?thesis by auto
    next
      case one: True
      define w where "w = InstanceVariable n (Some v) j"
      define ev1 where "ev1 = ev\<lparr>m_variables := (m_variables ev)(n \<mapsto> mk_ref i (getIndex j) ts)\<rparr>"
      have step: "ChildDerivation_evaluate v w ev = Inr ev1"
        unfolding w_def ev1_def by (rule ChildDerivation_evaluate_ok [OF Cons.prems(2) fresh_from_not_dom [OF Cons.prems(3)]])
      have "holds ev1 w j i ts" by (simp add: holds_def w_def ev1_def)
      moreover have "fresh_from (Suc n) ev1" unfolding ev1_def by (rule fresh_from_insert [OF Cons.prems(3)])
      ultimately obtain ops v' n' where r: "derive_children db path w (Suc n) = Inr (ops, v', n')"
        "if \<forall>j \<in> set path. is_action db j \<longrightarrow> local_size db j = 1
         then \<exists>ev'. runs db ops ev1 ev' \<and> holds ev' v' (instance_type db j path) i ts \<and> fresh_from n' ev'
         else FailureInstruction \<in> set ops"
        using Cons.IH [of ev1 w j "Suc n"] Cons.prems(1) by auto
      have "derive_children db (j # path) v n = Inr (ChildDerivationInstruction v w # ops, v', n')"
        using True l one r(1) by (simp add: w_def)
      then show ?thesis using True one r(2) runs_Child [OF step] by (auto split: if_splits)
    qed
  next
    case False
    with Cons.prems(1) have eq: "derive_children db (j # path) v n = derive_children db path v n" by auto
    from Cons.prems(1) have "\<forall>j \<in> set path. is_action db j \<or> user_dimension_at db j \<noteq> None" by simp
    from Cons.IH [OF this Cons.prems(2,3)] obtain ops v' n' where r: "derive_children db path v n = Inr (ops, v', n')"
      "if \<forall>j \<in> set path. is_action db j \<longrightarrow> local_size db j = 1
       then \<exists>ev'. runs db ops ev ev' \<and> holds ev' v' (instance_type db a path) i ts \<and> fresh_from n' ev'
       else FailureInstruction \<in> set ops" by blast
    show ?thesis
      unfolding eq by (rule exI [of _ ops], rule exI [of _ v'], rule exI [of _ n']) (use r False in simp)
  qed
qed

section \<open>The whole derivation\<close>

lemma root_path_down:
  assumes "wf_concrete db" and "is_action db t \<or> user_dimension_at db t \<noteq> None"
  shows "\<forall>j \<in> set (drop m (root_path db t)). is_action db j \<or> user_dimension_at db j \<noteq> None"
proof
  fix j
  assume "j \<in> set (drop m (root_path db t))"
  then have "j \<in> set (root_path db t)" by (rule in_set_dropD)
  then show "is_action db j \<or> user_dimension_at db j \<noteq> None"
    using root_path_actions [OF assms(1), of j t] assms(2) by (cases "j = t") auto
qed

lemma user_dimension_concrete: "user_dimension_at db t \<noteq> None \<Longrightarrow> concrete_at db t \<noteq> None"
  by (auto simp: user_dimension_at_def split: option.splits)

lemma commonRootDerivation_runs:
  assumes wf: "wf_concrete db" and f: "is_action db f" and t: "is_action db t \<or> user_dimension_at db t \<noteq> None"
    and a: "set (root_path db f) \<inter> set (root_path db t) = set (root_path db a)"
    and h: "holds ev v f i ts" "fresh_from n ev"
  shows "\<exists>ops v' n'. commonRootDerivation db (Some f) (Some t) v n = Inr (ops, v', n') \<and>
    (if \<forall>j \<in> set (drop (length (root_path db a)) (root_path db t)). is_action db j \<longrightarrow> local_size db j = 1
     then \<exists>ev'. runs db ops ev ev' \<and> holds ev' v' (instance_type db a (drop (length (root_path db a)) (root_path db t)))
       (derive_up db (below db a f) i) ts \<and> fresh_from n' ev'
     else FailureInstruction \<in> set ops)"
proof (cases "f = t")
  case True
  with a have "root_path db a = root_path db f"
    using root_path_member [of a db f] root_path_member [of f db a] root_path_self
    by (metis Int_absorb prefix_order.antisym)
  then have "a = f" by (metis last_root_path)
  with True h show ?thesis by (auto simp: commonRootDerivation_def intro!: runs_Nil)
next
  case False
  have tc: "concrete_at db t \<noteq> None" and fc: "concrete_at db f \<noteq> None"
    using t f user_dimension_concrete by (auto dest: is_action_concrete)
  from findCommonRoot_path [OF wf fc tc] a obtain c where c: "findCommonRoot db (Some f) (Some t) = Inr c"
    "set (root_path db a) = (case c of None \<Rightarrow> {} | Some a \<Rightarrow> set (root_path db a))" by auto
  then obtain b where b: "c = Some b" "set (root_path db a) = set (root_path db b)"
    by (cases c) (auto simp: root_path_not_Nil)
  then have "root_path db a = root_path db b"
    using root_path_member [of a db b] root_path_member [of b db a] root_path_self by (metis prefix_order.antisym)
  then have "a = b" by (metis last_root_path)
  with c b have c: "findCommonRoot db (Some f) (Some t) = Inr (Some a)" by simp
  have af: "a \<in> set (root_path db f)" and at: "a \<in> set (root_path db t)" using a root_path_self by blast+
  have len: "f < path_fuel db" "t < path_fuel db" using fc tc by (auto simp: path_fuel_def concrete_at_Some)
  from derive_parents_runs [OF wf f af len(1) h] obtain ups v1 n1 ev1 where
    u: "derive_parents (path_fuel db) db (Some a) f v n = Inr (ups, v1, n1)" "runs db ups ev ev1"
      "holds ev1 v1 a (derive_up db (below db a f) i) ts" "fresh_from n1 ev1" by blast
  note path = path_down_path [OF wf tc at len(2), of "[]"]
  from derive_children_runs [OF wf root_path_down [OF wf t] u(3,4), of "length (root_path db a)"] obtain downs v' n' where
    d: "derive_children db (drop (length (root_path db a)) (root_path db t)) v1 n1 = Inr (downs, v', n')"
    "if \<forall>j \<in> set (drop (length (root_path db a)) (root_path db t)). is_action db j \<longrightarrow> local_size db j = 1
     then \<exists>ev'. runs db downs ev1 ev' \<and> holds ev' v' (instance_type db a (drop (length (root_path db a)) (root_path db t)))
       (derive_up db (below db a f) i) ts \<and> fresh_from n' ev'
     else FailureInstruction \<in> set downs" by blast
  have "commonRootDerivation db (Some f) (Some t) v n = Inr (ups @ downs, v', n')"
    using False by (simp add: commonRootDerivation_def c u(1) path d(1))
  with d(2) runs_append [OF u(2)] show ?thesis by (auto split: if_splits)
qed

lemma instance_type_last: "path \<noteq> [] \<Longrightarrow> is_action db (last path) \<Longrightarrow> instance_type db a path = last path"
  by (induction path arbitrary: a) auto

section \<open>The properties\<close>

text \<open>C18. \<open>findCommonRoot\<close> gives the deepest common ancestor of two concrete elements, and null exactly
  when they have none.\<close>

theorem findCommonRoot_exact:
  assumes "wf_concrete db" and "concrete_at db l \<noteq> None" and "concrete_at db r \<noteq> None"
  shows "\<exists>c. findCommonRoot db (Some l) (Some r) = Inr c \<and>
    set (root_path db l) \<inter> set (root_path db r) = (case c of None \<Rightarrow> {} | Some a \<Rightarrow> set (root_path db a))"
  using assms by (rule findCommonRoot_path)

theorem findCommonRoot_exact_witness:
  "\<exists>c. findCommonRoot sample_db (Some 7) (Some 8) = Inr c \<and>
    set (root_path sample_db 7) \<inter> set (root_path sample_db 8) = (case c of None \<Rightarrow> {} | Some a \<Rightarrow> set (root_path sample_db a))"
  by (rule findCommonRoot_exact [OF sample_db_facts(1)]) code_simp+

text \<open>C6. The instructions that \<open>commonRootDerivation\<close> generates from an action to another one compute,
  from an instance of the first, the instance of the second below the same instance of their deepest
  common ancestor, when every action below the ancestor on the way down has one instance; otherwise the
  instructions contain a failure.\<close>

theorem commonRootDerivation_exact:
  assumes "wf_concrete db" and "is_action db f" and "is_action db t"
    and "set (root_path db f) \<inter> set (root_path db t) = set (root_path db a)"
    and "holds ev v f i ts" and "fresh_from n ev"
  shows "\<exists>ops v' n'. commonRootDerivation db (Some f) (Some t) v n = Inr (ops, v', n') \<and>
    (if \<forall>j \<in> set (drop (length (root_path db a)) (root_path db t)). local_size db j = 1
     then \<exists>ev'. runs db ops ev ev' \<and> holds ev' v' t (derive_up db (below db a f) i) ts
     else FailureInstruction \<in> set ops)"
proof -
  let ?d = "drop (length (root_path db a)) (root_path db t)"
  have act: "\<forall>j \<in> set ?d. is_action db j"
    using root_path_actions [OF assms(1), of _ t] assms(3) in_set_dropD by metis
  have "a \<in> set (root_path db t)" using assms(4) root_path_self by blast
  from root_path_split [OF this] obtain ys where ys: "root_path db t = root_path db a @ ys" by blast
  have "instance_type db a ?d = t"
  proof (cases "ys = []")
    case True
    then have "t = a" using ys by (metis append_Nil2 last_root_path)
    then show ?thesis by simp
  next
    case False
    then have "last ?d = t" using ys by (metis append_eq_conv_conj last_appendR last_root_path)
    then show ?thesis using instance_type_last [of ?d db a] False ys assms(3) by simp
  qed
  moreover have "(\<forall>j \<in> set ?d. is_action db j \<longrightarrow> local_size db j = 1) \<longleftrightarrow> (\<forall>j \<in> set ?d. local_size db j = 1)"
    using act by blast
  ultimately show ?thesis
    using commonRootDerivation_runs [OF assms(1,2) _ assms(4-6)] assms(3) by (auto split: if_splits)
qed

theorem commonRootDerivation_exact_witness:
  "\<exists>ops v' n' ev'. commonRootDerivation sample_db (Some 7) (Some 6) (InstanceVariable 0 None 7) 1 = Inr (ops, v', n') \<and>
    runs sample_db ops \<lparr>m_variables = [0 \<mapsto> mk_ref 9 7 1], calls = []\<rparr> ev' \<and> holds ev' v' 6 (9 div 4) 1"
proof -
  have p: "root_path sample_db 7 = [5, 6, 7]" "root_path sample_db 6 = [5, 6]" "below sample_db 6 7 = [7]" by code_simp+
  have h: "holds \<lparr>m_variables = [0 \<mapsto> mk_ref 9 7 1], calls = []\<rparr> (InstanceVariable 0 None 7) 7 9 1"
    by (simp add: holds_def getIndex_def)
  have n: "fresh_from 1 \<lparr>m_variables = [0 \<mapsto> mk_ref 9 7 1], calls = []\<rparr>" by (simp add: fresh_from_def)
  from commonRootDerivation_exact [OF sample_db_facts(1,4,3) _ h n, of 6] p sample_db_facts(8) show ?thesis by auto
qed

end
