(* ===== verification/Invocation.thy ===== *)
theory Invocation
  imports CommonRoot NameResolution Elimination Identifiers
begin

text \<open>
  The invocation compiler of \<open>src/eg/invocation.cpp\<close>: the two visitors that turn a tree of names into an
  instruction tree, \<open>InvocationSolution::build\<close> with the elimination of alternatives and the analysis of
  the return types, the ids of invocations, and \<open>InvocationSolutionMap\<close>. A visitor member that appends to
  \<open>pInstruction\<close> gives the list of what it appends and the next address for a variable.
\<close>

section \<open>The visitor for operations on an instance\<close>

fun append_chain :: "instr_op list \<Rightarrow> instruction list \<Rightarrow> instruction list" where
  "append_chain [] ts = ts"
| "append_chain (op # ops) ts = [Instr op (append_chain ops ts)]"

definition build_children :: "(nat \<Rightarrow> nat \<Rightarrow> (instruction list \<times> nat) result) \<Rightarrow> nat list \<Rightarrow> nat \<Rightarrow> (instruction list \<times> nat) result" where
  "build_children f cs n = foldR (\<lambda>c (ts, n). bindR (f c n) (\<lambda>(t, n). Inr (ts @ t, n))) cs ([], n)"

lemma build_children_cong [fundef_cong]:
  "cs = cs' \<Longrightarrow> n = n' \<Longrightarrow> (\<And>c m. c \<in> set cs' \<Longrightarrow> f c m = f' c m) \<Longrightarrow> build_children f cs n = build_children f' cs' n'"
  unfolding build_children_def by (intro foldR_cong) auto

text \<open>The interface element of an operation has the class of its concrete element, so the cast gives no
  null pointer that is kept.\<close>

definition interface_context :: "database \<Rightarrow> idx \<Rightarrow> idx result" where
  "interface_context db i = of_option UndefinedBehaviour (as_context db i)"

definition interface_dimension :: "database \<Rightarrow> idx \<Rightarrow> idx result" where
  "interface_dimension db i = (if dimension_at db i \<noteq> None then Inr i else Inl UndefinedBehaviour)"

definition derive_then :: "database \<Rightarrow> name_node \<Rightarrow> idx option \<Rightarrow> variable \<Rightarrow> nat \<Rightarrow> (variable \<Rightarrow> instr_op result) \<Rightarrow>
    (instruction list \<times> nat) result" where
  "derive_then db prev pTo v n mk =
     bindR (commonRootDerivation db (getConcrete prev) pTo v n) (\<lambda>(ops, v, n).
     bindR (mk v) (\<lambda>op. Inr (append_chain ops [Instr op []], n)))"

fun action_operation :: "OperationID \<Rightarrow> variable \<Rightarrow> idx \<Rightarrow> idx \<Rightarrow> instr_op result" where
  "action_operation id_Imp_NoParams v i c = Inr (CallOperation v i c)"
| "action_operation id_Imp_Params v i c = Inr (CallOperation v i c)"
| "action_operation id_Start v i c = Inr (StartOperation v i c)"
| "action_operation id_Stop v i c = Inr (StopOperation v i c)"
| "action_operation id_Pause v i c = Inr (PauseOperation v i c)"
| "action_operation id_Resume v i c = Inr (ResumeOperation v i c)"
| "action_operation id_Wait v i c = Inr (WaitActionOperation v i c)"
| "action_operation id_Get v i c = Inr (GetActionOperation v i c)"
| "action_operation id_Done v i c = Inr (DoneOperation v i c)"
| "action_operation _ v i c = Inl (RuntimeError ''Unreachable'')"

text \<open>A call and a start derive the parent of the action only.\<close>

fun action_derivation :: "database \<Rightarrow> OperationID \<Rightarrow> idx \<Rightarrow> idx option" where
  "action_derivation db id_Imp_NoParams c = parent_of db c"
| "action_derivation db id_Imp_Params c = parent_of db c"
| "action_derivation db id_Start c = parent_of db c"
| "action_derivation db _ c = Some c"

definition getLinkGroup_of :: "database \<Rightarrow> idx \<Rightarrow> idx option" where
  "getLinkGroup_of db c =
     (case user_dimension_at db c of
        Some e \<Rightarrow> (case ce_class e of Dimension_User g \<Rightarrow> g | _ \<Rightarrow> None)
      | None \<Rightarrow> None)"

fun dimension_operation :: "database \<Rightarrow> OperationID \<Rightarrow> variable \<Rightarrow> idx \<Rightarrow> idx \<Rightarrow> instr_op result" where
  "dimension_operation db id_Imp_NoParams v i c = Inr (ReadOperation v i c)"
| "dimension_operation db id_Imp_Params v i c =
     (case getLinkGroup_of db c of
        Some g \<Rightarrow> Inr (WriteLinkOperation v i c g)
      | None \<Rightarrow> Inr (WriteOperation v i c))"
| "dimension_operation db id_Get v i c = Inr (GetDimensionOperation v i c)"
| "dimension_operation db id_Wait v i c = Inr (WaitDimensionOperation v i c)"
| "dimension_operation db id_Range v i c = Inl (RuntimeError ''Unreachable'')"
| "dimension_operation db id_Raw v i c = Inl (RuntimeError ''Unreachable'')"
| "dimension_operation db HIGHEST_OPERATION_TYPE v i c = Inl (RuntimeError ''Unreachable'')"
| "dimension_operation db _ v i c = Inl (InvocationException ''Invalid invocation operation on dimension: '')"

definition buildOperation :: "database \<Rightarrow> OperationID \<Rightarrow> name_node \<Rightarrow> name_node \<Rightarrow> variable \<Rightarrow> nat \<Rightarrow>
    (instruction list \<times> nat) result" where
  "buildOperation db operation prev current v n =
     (case nm_element current of
        None \<Rightarrow> Inl (InvocationException ''Invalid invocation target: '')
      | Some (i, c) \<Rightarrow>
          if is_action db c then
            (if isOperationEnumeration operation \<or> operation = HIGHEST_OPERATION_TYPE then Inl (RuntimeError ''Unreachable'')
             else bindR (interface_context db i) (\<lambda>i.
               derive_then db prev (action_derivation db operation c) v n (\<lambda>v. action_operation operation v i c)))
          else if user_dimension_at db c \<noteq> None then
            bindR (interface_dimension db i) (\<lambda>i.
              derive_then db prev (Some c) v n (\<lambda>v. dimension_operation db operation v i c))
          else Inl (InvocationException ''Invalid invocation target: ''))"

definition as_action :: "database \<Rightarrow> name_node \<Rightarrow> idx result" where
  "as_action db current =
     (case getConcrete current of
        Some t \<Rightarrow> if is_action db t then Inr t else Inl AssertFailed
      | None \<Rightarrow> Inl AssertFailed)"

definition as_dimension :: "database \<Rightarrow> name_node \<Rightarrow> idx result" where
  "as_dimension db current =
     (case getConcrete current of
        Some t \<Rightarrow> if concrete_at db t \<noteq> None \<and> \<not> is_action db t then Inr t else Inl AssertFailed
      | None \<Rightarrow> Inl AssertFailed)"

text \<open>An elimination is generated for more than one child.\<close>

definition over_children :: "name_node \<Rightarrow> instruction list \<Rightarrow> instruction list" where
  "over_children current ts = (if 1 < length (nm_children current) then [Instr EliminationInstruction ts] else ts)"

text \<open>The members of the visitor that call each other; each is given the calls as \<open>visit\<close>.\<close>

datatype visitor_member = GenerateName | DimensionReference | PolymorphicCase | MonoDereference

type_synonym visitor = "visitor_member \<Rightarrow> name_node \<Rightarrow> name_node \<Rightarrow> variable \<Rightarrow> nat \<Rightarrow> (instruction list \<times> nat) result"

definition buildGenerateName :: "database \<Rightarrow> name_node list \<Rightarrow> OperationID \<Rightarrow> visitor \<Rightarrow> name_node \<Rightarrow> name_node \<Rightarrow> variable \<Rightarrow> nat \<Rightarrow>
    (instruction list \<times> nat) result" where
  "buildGenerateName db nodes operation visit prev current v n =
     (if isTerminal current then buildOperation db operation prev current v n
      else bindR (commonRootDerivation db (getConcrete prev) (getConcrete current) v n) (\<lambda>(ops, v, n).
        if nm_isReference current then
          bindR (visit DimensionReference prev current v n) (\<lambda>(ts, n). Inr (append_chain ops ts, n))
        else
          bindR (build_children (\<lambda>c n. visit GenerateName current (nodes ! c) v n) (nm_children current) n)
            (\<lambda>(ts, n). Inr (append_chain ops (over_children current ts), n))))"

definition buildDimensionReference :: "database \<Rightarrow> name_node list \<Rightarrow> visitor \<Rightarrow> name_node \<Rightarrow> name_node \<Rightarrow> variable \<Rightarrow> nat \<Rightarrow>
    (instruction list \<times> nat) result" where
  "buildDimensionReference db nodes visit prev current v n =
     bindR (mapR (\<lambda>c. of_option UndefinedBehaviour (getConcrete (nodes ! c))) (nm_children current)) (\<lambda>types.
     bindR (as_dimension db current) (\<lambda>d.
       let ref = DimensionReferenceVariable n (Some v) types;
           read = DimensionReferenceReadInstruction v ref d
       in if 1 < length types then
            bindR (build_children (\<lambda>c n. visit PolymorphicCase current (nodes ! c) ref n) (nm_children current) (Suc n))
              (\<lambda>(ts, n). Inr ([Instr read [Instr (PolymorphicReferenceBranchInstruction ref) ts]], n))
          else
            bindR (asserting (types \<noteq> [])) (\<lambda>_.
            bindR (build_children (\<lambda>c n. visit MonoDereference current (nodes ! c) ref n) (nm_children current) (Suc n))
              (\<lambda>(ts, n). Inr ([Instr read ts], n)))))"

definition buildPolymorphicCase :: "database \<Rightarrow> name_node list \<Rightarrow> OperationID \<Rightarrow> visitor \<Rightarrow> name_node \<Rightarrow> name_node \<Rightarrow> variable \<Rightarrow> nat \<Rightarrow>
    (instruction list \<times> nat) result" where
  "buildPolymorphicCase db nodes operation visit prev current v n =
     bindR (as_action db current) (\<lambda>t.
       let pInstance = InstanceVariable n (Some v) t
       in bindR (if isTerminal current then buildOperation db operation prev current pInstance (Suc n)
                 else bindR (build_children (\<lambda>c n. visit GenerateName current (nodes ! c) pInstance n)
                        (nm_children current) (Suc n)) (\<lambda>(ts, n). Inr (over_children current ts, n)))
            (\<lambda>(ts, n). Inr ([Instr (PolymorphicCaseInstruction v pInstance) ts], n)))"

definition buildMonoDereference :: "database \<Rightarrow> name_node list \<Rightarrow> OperationID \<Rightarrow> visitor \<Rightarrow> name_node \<Rightarrow> name_node \<Rightarrow> variable \<Rightarrow> nat \<Rightarrow>
    (instruction list \<times> nat) result" where
  "buildMonoDereference db nodes operation visit prev current v n =
     bindR (as_action db current) (\<lambda>t.
       let pInstance = InstanceVariable n (Some v) t
       in bindR (if isTerminal current then buildOperation db operation prev current pInstance (Suc n)
                 else bindR (build_children (\<lambda>c n. visit GenerateName current (nodes ! c) pInstance n)
                        (nm_children current) (Suc n)) (\<lambda>(ts, n). Inr (over_children current ts, n)))
            (\<lambda>(ts, n). Inr ([Instr (MonomorphicReferenceInstruction v pInstance) ts], n)))"

primrec visit :: "database \<Rightarrow> name_node list \<Rightarrow> OperationID \<Rightarrow> nat \<Rightarrow> visitor" where
  "visit db nodes operation 0 member = (\<lambda>prev current v n. Inl OutOfFuel)"
| "visit db nodes operation (Suc k) member =
     (case member of
       GenerateName \<Rightarrow> buildGenerateName db nodes operation (visit db nodes operation k)
     | DimensionReference \<Rightarrow> buildDimensionReference db nodes (visit db nodes operation k)
     | PolymorphicCase \<Rightarrow> buildPolymorphicCase db nodes operation (visit db nodes operation k)
     | MonoDereference \<Rightarrow> buildMonoDereference db nodes operation (visit db nodes operation k))"

definition names_fuel :: "name_node list \<Rightarrow> nat" where
  "names_fuel nodes = Suc (Suc (2 * length nodes))"

text \<open>\<open>GenericOperationVisitor::operator()\<close>.\<close>

definition GenericOperationVisitor :: "database \<Rightarrow> name_node list \<Rightarrow> OperationID \<Rightarrow> idx list \<Rightarrow> variable \<Rightarrow> nat \<Rightarrow>
    (instruction list \<times> nat) result" where
  "GenericOperationVisitor db nodes operation contextTypes v n =
     (let current = nodes ! 0
      in if 1 < length contextTypes then
           bindR (build_children (\<lambda>c n. visit db nodes operation (names_fuel nodes) PolymorphicCase current (nodes ! c) v n)
             (nm_children current) n)
             (\<lambda>(ts, n). Inr ([Instr (PolymorphicReferenceBranchInstruction v) ts], n))
         else
           bindR (asserting (length (nm_children current) = 1)) (\<lambda>_.
             build_children (\<lambda>c n. visit db nodes operation (names_fuel nodes) MonoDereference current (nodes ! c) v n)
               (nm_children current) n))"

section \<open>The visitor for enumerations\<close>

fun enum_path :: "nat \<Rightarrow> database \<Rightarrow> idx option \<Rightarrow> idx option \<Rightarrow> idx list \<Rightarrow> (idx list \<times> idx option) result" where
  "enum_path 0 db pContext pTarget path = Inl OutOfFuel"
| "enum_path (Suc k) db pContext None path = Inr (path, None)"
| "enum_path (Suc k) db pContext (Some t) path =
     (if Some t = pContext then Inr (path, Some t)
      else bindR (conc db t) (\<lambda>e. enum_path k db pContext (ce_parent e) (path @ [t])))"

fun derive_enum :: "database \<Rightarrow> idx list \<Rightarrow> variable \<Rightarrow> nat \<Rightarrow> (instr_op list \<times> variable \<times> nat) option" where
  "derive_enum db [] v n = Some ([], v, n)"
| "derive_enum db (i # path) v n =
     (if is_action db i then
        let w = InstanceVariable n (Some v) i
        in map_option (\<lambda>(ops, v', n'). (EnumDerivationInstruction v w # ops, v', n')) (derive_enum db path w (Suc n))
      else None)"

text \<open>\<open>None\<close> where \<open>targetDerivation\<close> returns false.\<close>

definition targetDerivation :: "database \<Rightarrow> idx option \<Rightarrow> idx option \<Rightarrow> variable \<Rightarrow> nat \<Rightarrow>
    (instr_op list \<times> variable \<times> nat) option result" where
  "targetDerivation db pContext pTarget v n =
     bindR (enum_path (path_fuel db) db pContext pTarget []) (\<lambda>(path, t).
       Inr (if t = pContext then derive_enum db (rev path) v n else None))"

fun range_operation :: "OperationID \<Rightarrow> variable \<Rightarrow> idx \<Rightarrow> idx \<Rightarrow> instr_op result" where
  "range_operation id_Raw v i c = Inr (RangeOperation v i c eRaw)"
| "range_operation id_Range v i c = Inr (RangeOperation v i c eRange)"
| "range_operation _ v i c = Inl (RuntimeError ''Unreachable'')"

definition buildRange :: "database \<Rightarrow> OperationID \<Rightarrow> name_node \<Rightarrow> variable \<Rightarrow> nat \<Rightarrow> (instruction list \<times> nat) result" where
  "buildRange db operation current v n =
     (case nm_element current of
        None \<Rightarrow> Inl (InvocationException ''Invalid invocation target: '')
      | Some (i, c) \<Rightarrow>
          if is_action db c then
            bindR (interface_context db i) (\<lambda>i. bindR (range_operation operation v i c) (\<lambda>op. Inr ([Instr op []], n)))
          else Inl (InvocationException ''Invalid invocation target: ''))"

fun buildEnum :: "database \<Rightarrow> name_node list \<Rightarrow> OperationID \<Rightarrow> nat \<Rightarrow> name_node \<Rightarrow> name_node \<Rightarrow> variable \<Rightarrow> nat \<Rightarrow>
    (instruction list \<times> nat) result" where
  "buildEnum db nodes operation 0 prev current v n = Inl OutOfFuel"
| "buildEnum db nodes operation (Suc k) prev current v n =
     (if nm_isReference current then
        Inl (InvocationException ''Cannot have reference in range invocation type path: '')
      else case getConcrete current of
        None \<Rightarrow> Inl (InvocationException ''Invalid invocation target: '')
      | Some t \<Rightarrow>
          if is_action db t then
            bindR (targetDerivation db (getConcrete prev) (Some t) v n) (\<lambda>d.
              case d of
                None \<Rightarrow> Inl (InvocationException ''Enumeration has no derivation: '')
              | Some (ops, v, n) \<Rightarrow>
                  bindR (if isTerminal current then buildRange db operation current v n
                         else build_children (\<lambda>c n. buildEnum db nodes operation k current (nodes ! c) v n) (nm_children current) n)
                    (\<lambda>(ts, n). Inr (append_chain ops ts, n)))
          else Inl (InvocationException ''Invalid invocation target: ''))"

text \<open>\<open>buildPolymorphicCase\<close> and \<open>buildMonoDereference\<close> of this visitor, with the instruction they open.\<close>

definition buildEnumeration :: "database \<Rightarrow> name_node list \<Rightarrow> OperationID \<Rightarrow> (variable \<Rightarrow> variable \<Rightarrow> instr_op) \<Rightarrow>
    name_node \<Rightarrow> variable \<Rightarrow> nat \<Rightarrow> (instruction list \<times> nat) result" where
  "buildEnumeration db nodes operation dereference current v n =
     bindR (as_action db current) (\<lambda>t.
       let pInstance = InstanceVariable n (Some v) t
       in bindR (asserting (nm_children current \<noteq> [])) (\<lambda>_.
          bindR (build_children (\<lambda>c n. buildEnum db nodes operation (names_fuel nodes) current (nodes ! c) pInstance n)
            (nm_children current) (Suc n)) (\<lambda>(ts, n).
            Inr ([Instr (dereference v pInstance) [Instr (EnumerationInstruction pInstance [] 1) [Instr PruneInstruction ts]]], n))))"

definition EnumerationOperationVisitor :: "database \<Rightarrow> name_node list \<Rightarrow> OperationID \<Rightarrow> idx list \<Rightarrow> variable \<Rightarrow> nat \<Rightarrow>
    (instruction list \<times> nat) result" where
  "EnumerationOperationVisitor db nodes operation contextTypes v n =
     (let current = nodes ! 0
      in if 1 < length contextTypes then
           bindR (build_children (\<lambda>c n. buildEnumeration db nodes operation PolymorphicCaseInstruction (nodes ! c) v n)
             (nm_children current) n)
             (\<lambda>(ts, n). Inr ([Instr (PolymorphicReferenceBranchInstruction v) ts], n))
         else
           bindR (asserting (length (nm_children current) = 1)) (\<lambda>_.
             build_children (\<lambda>c n. buildEnumeration db nodes operation MonomorphicReferenceInstruction (nodes ! c) v n)
               (nm_children current) n))"

section \<open>Invocation solutions\<close>

record invocation_id =
  id_context :: "idx list"
  id_typePath :: "idx list list"
  id_operation :: OperationID

record invocation_solution =
  m_invocationID :: invocation_id
  m_implicitTypePath :: "TypeID list"
  m_context :: "element_pair list"
  m_typePath :: "element_pair list list"
  m_returnTypes :: "idx option list"
  m_parameterTypes :: "idx list"
  m_bDimensions :: bool
  m_bHomogeneousDimensions :: bool
  m_explicitOperation :: ExplicitOperationID
  m_pRoot :: "instruction option"

definition new_solution :: "invocation_id \<Rightarrow> TypeID list \<Rightarrow> invocation_solution" where
  "new_solution invocationID implicitTypePath =
     \<lparr>m_invocationID = invocationID, m_implicitTypePath = implicitTypePath, m_context = [], m_typePath = [],
      m_returnTypes = [], m_parameterTypes = [], m_bDimensions = False, m_bHomogeneousDimensions = False,
      m_explicitOperation = HIGHEST_EXPLICIT_OPERATION_TYPE, m_pRoot = None\<rparr>"

text \<open>\<open>interface::Dimension::isHomogenous\<close>.\<close>

definition same_dimension_type :: "database \<Rightarrow> idx \<Rightarrow> idx \<Rightarrow> bool" where
  "same_dimension_type db d d' =
     (case (dimension_at db d, dimension_at db d') of
        (Some e, Some e') \<Rightarrow> if_canonicalType e = if_canonicalType e' \<and> set (if_contextTypes e) = set (if_contextTypes e')
      | _ \<Rightarrow> False)"

fun isHomogenous :: "database \<Rightarrow> idx list \<Rightarrow> bool" where
  "isHomogenous db [] = True"
| "isHomogenous db (d # ds) = (\<forall>d' \<in> set ds. same_dimension_type db d d')"

definition return_dimensions :: "database \<Rightarrow> idx option list \<Rightarrow> idx list" where
  "return_dimensions db ts = filter (\<lambda>t. dimension_at db t \<noteq> None) (map the (filter (\<lambda>t. t \<noteq> None) ts))"

definition return_actions :: "database \<Rightarrow> idx option list \<Rightarrow> idx list" where
  "return_actions db ts = filter (\<lambda>t. context_at db t \<noteq> None) (map the (filter (\<lambda>t. t \<noteq> None) ts))"

definition analyseReturnTypes :: "database \<Rightarrow> instruction \<Rightarrow> invocation_solution \<Rightarrow> invocation_solution result" where
  "analyseReturnTypes db root s =
     (let operations = getOperations root
      in bindR (mapR (op_getReturnTypes db) operations) (\<lambda>rts.
           let returnTypes = uniquify_without_reorder (m_returnTypes s @ concat rts);
               parameterTypes = uniquify_without_reorder (m_parameterTypes s @ concat (map op_getParameterTypes operations));
               s = s\<lparr>m_returnTypes := returnTypes, m_parameterTypes := parameterTypes, m_pRoot := Some root\<rparr>
           in bindR (if isOperationEnumeration (id_operation (m_invocationID s)) then
                 bindR (mapR (of_option UndefinedBehaviour) returnTypes) (\<lambda>targets.
                   case setReturnTypes targets root of (iMaxRanges, root) \<Rightarrow>
                     Inr (s\<lparr>m_pRoot := Some (setMaxRanges iMaxRanges root)\<rparr>))
               else Inr s) (\<lambda>s.
               if return_dimensions db returnTypes \<noteq> [] \<and> return_actions db returnTypes \<noteq> [] then
                 Inl (InvocationException ''Mixed dimension and action invocation return types: '')
               else if return_dimensions db returnTypes \<noteq> [] then
                 Inr (s\<lparr>m_bDimensions := True,
                        m_bHomogeneousDimensions := isHomogenous db (return_dimensions db returnTypes)\<rparr>)
               else if return_actions db returnTypes \<noteq> [] then Inr (s\<lparr>m_bDimensions := False\<rparr>)
               else Inl (InvocationException ''Invocation could not resolve target types: ''))))"

text \<open>The last elements of the type path whose concrete type is of the very interface type.\<close>

fun concrete_targets :: "database \<Rightarrow> element_pair list \<Rightarrow> element_pair list result" where
  "concrete_targets db [] = Inr []"
| "concrete_targets db ((i, c) # es) =
     (if context_at db i \<noteq> None then
        (if is_action db c then
           bindR (concrete_targets db es) (\<lambda>ts. Inr (if getContext db c = Some i then (i, c) # ts else ts))
         else Inl UndefinedBehaviour)
      else concrete_targets db es)"

fun candidate_operations :: "element_pair list \<Rightarrow> instr_op list \<Rightarrow> instr_op list result" where
  "candidate_operations cts [] = Inr []"
| "candidate_operations cts (op # ops) =
     (case op of
        CallOperation v i c \<Rightarrow> bindR (candidate_operations cts ops) (\<lambda>os. Inr (if (i, c) \<in> set cts then op # os else os))
      | StartOperation v i c \<Rightarrow> bindR (candidate_operations cts ops) (\<lambda>os. Inr (if (i, c) \<in> set cts then op # os else os))
      | _ \<Rightarrow> Inl AssertFailed)"

text \<open>The ambiguous case of \<open>build\<close>: a call or start of a concrete action is preferred to what derives
  from it.\<close>

definition build_ambiguous :: "database \<Rightarrow> instruction \<Rightarrow> invocation_solution \<Rightarrow> invocation_solution result" where
  "build_ambiguous db root s =
     (let operations = getOperations root; ambiguous = Inl (InvocationException ''Ambiguous derivation for: '')
      in bindR (mapR (op_getReturnTypes db) operations) (\<lambda>rts.
         if return_dimensions db (concat rts) \<noteq> [] then ambiguous
         else bindR (asserting (m_typePath s \<noteq> [])) (\<lambda>_.
              bindR (concrete_targets db (last (m_typePath s))) (\<lambda>targets.
              if targets = [] then ambiguous
              else bindR (candidate_operations targets operations) (\<lambda>candidates.
                if candidates = [] then ambiguous
                else bindR (secondStageElimination candidates root) (\<lambda>(e, root).
                  case e of
                    eSuccess \<Rightarrow> analyseReturnTypes db root s
                  | eFailure \<Rightarrow> Inl (InvocationException ''No possible derivation for: '')
                  | eAmbiguous \<Rightarrow> ambiguous))))))"

fun explicit_operation :: "instr_op list \<Rightarrow> ExplicitOperationID \<Rightarrow> ExplicitOperationID result" where
  "explicit_operation [] e = Inr e"
| "explicit_operation (op # ops) e =
     bindR (op_getExplicitOperationType op) (\<lambda>t.
       if e = HIGHEST_EXPLICIT_OPERATION_TYPE then explicit_operation ops t
       else if t \<noteq> e then Inl (InvocationException ''Conflicting operation types: '')
       else explicit_operation ops e)"

text \<open>The instruction tree that the visitor generates; \<open>uninit\<close> is what \<open>m_iMaxRanges\<close> of the root holds,
  which the constructor does not initialise.\<close>

definition generate :: "database \<Rightarrow> int \<Rightarrow> name_node list \<Rightarrow> invocation_solution \<Rightarrow> instruction result" where
  "generate db uninit resolution s =
     (let types = map snd (m_context s); v = ContextVariable 0 None types; operation = id_operation (m_invocationID s)
      in bindR (if operation = HIGHEST_OPERATION_TYPE then Inr ([], 1)
                else if isOperationEnumeration operation then EnumerationOperationVisitor db resolution operation types v 1
                else GenericOperationVisitor db resolution operation types v 1) (\<lambda>(ts, n).
           Inr (Instr (RootInstruction v uninit) ts)))"

definition build :: "database \<Rightarrow> int \<Rightarrow> name_node list \<Rightarrow> invocation_solution \<Rightarrow> invocation_solution result" where
  "build db uninit resolution s =
     bindR (asserting (m_pRoot s = None)) (\<lambda>_.
     bindR (generate db uninit resolution s) (\<lambda>root.
     bindR (eliminate root) (\<lambda>(e, root).
     bindR (case e of
              eSuccess \<Rightarrow> analyseReturnTypes db root s
            | eFailure \<Rightarrow> Inl (InvocationException ''No possible derivation for: '')
            | eAmbiguous \<Rightarrow> build_ambiguous db root s) (\<lambda>s.
     bindR (of_option UndefinedBehaviour (m_pRoot s)) (\<lambda>root.
     bindR (explicit_operation (getOperations root) (m_explicitOperation s)) (\<lambda>t.
       Inr (s\<lparr>m_explicitOperation := t\<rparr>)))))))"

section \<open>The map of the solutions\<close>

definition constructInvocation :: "database \<Rightarrow> derivation_analysis \<Rightarrow> invocation_id \<Rightarrow> TypeID list \<Rightarrow> invocation_solution result" where
  "constructInvocation db da invocationID implicitTypePath =
     bindR (getElementVector db da (id_context invocationID) True) (\<lambda>ctx.
       if ctx = [] then Inl (NameResolutionException ''Invalid context. '')
       else bindR (mapR (\<lambda>step. bindR (getElementVector db da step True) (\<lambda>es.
                if es = [] then Inl (NameResolutionException ''Invalid type path. '') else Inr es))
                (id_typePath invocationID)) (\<lambda>typePath.
         if typePath = [] \<and> isOperationImplicit (id_operation invocationID)
         then Inl (NameResolutionException ''Empty type path for implicit invocation. '')
         else Inr ((new_solution invocationID implicitTypePath)\<lparr>m_context := ctx, m_typePath := typePath\<rparr>)))"

type_synonym invocation_map = "invocation_id \<rightharpoonup> invocation_solution"

definition getInvocation :: "database \<Rightarrow> derivation_analysis \<Rightarrow> (idx \<Rightarrow> nat) \<Rightarrow> int \<Rightarrow> invocation_id \<Rightarrow> TypeID list \<Rightarrow>
    invocation_map \<Rightarrow> (invocation_solution \<times> invocation_map) result" where
  "getInvocation db da addr uninit invocationID implicitTypePath m_invocations =
     (case m_invocations invocationID of
        Some s \<Rightarrow> Inr (s, m_invocations)
      | None \<Rightarrow>
          bindR (constructInvocation db da invocationID implicitTypePath) (\<lambda>s.
          bindR (NameResolution db da addr (id_operation invocationID) (m_context s) (m_typePath s)) (\<lambda>nameResolution.
          bindR (build db uninit nameResolution s) (\<lambda>s. Inr (s, m_invocations(invocationID \<mapsto> s))))))"

section \<open>Scopes of the variables\<close>

text \<open>The trees before and during elimination: as \<open>exec_ok\<close>, with failures and eliminations.\<close>

fun op_variable :: "instr_op \<Rightarrow> variable option" where
  "op_variable (WriteLinkOperation v i t g) = Some v"
| "op_variable op = var_of_operation op"

fun scoped :: "database \<Rightarrow> nat set \<Rightarrow> instruction \<Rightarrow> bool" where
  "scoped db S (Instr op cs) \<longleftrightarrow>
     (case op of
        RootInstruction v m \<Rightarrow> length cs = 1 \<and> (\<forall>c \<in> set cs. scoped db S c)
      | ParentDerivationInstruction f t \<Rightarrow>
          length cs = 1 \<and> v_addr f \<in> S \<and> v_addr t \<notin> S \<and> instance_var db f \<and> instance_var db t \<and>
          (\<forall>c \<in> set cs. scoped db (insert (v_addr t) S) c)
      | ChildDerivationInstruction f t \<Rightarrow>
          length cs = 1 \<and> v_addr f \<in> S \<and> v_addr t \<notin> S \<and> instance_var db t \<and>
          (\<forall>c \<in> set cs. scoped db (insert (v_addr t) S) c)
      | FailureInstruction \<Rightarrow> True
      | EliminationInstruction \<Rightarrow> \<forall>c \<in> set cs. scoped db S c
      | DimensionReferenceReadInstruction i r d \<Rightarrow>
          length cs = 1 \<and> v_addr i \<in> S \<and> v_addr r \<notin> S \<and> (\<forall>c \<in> set cs. scoped db (insert (v_addr r) S) c)
      | MonomorphicReferenceInstruction f i \<Rightarrow>
          length cs = 1 \<and> v_addr f \<in> S \<and> v_addr i \<notin> S \<and> (\<forall>c \<in> set cs. scoped db (insert (v_addr i) S) c)
      | PolymorphicReferenceBranchInstruction f \<Rightarrow>
          v_addr f \<in> S \<and> (\<forall>c \<in> set cs. is_case (opof c) \<and> scoped db S c)
      | PolymorphicCaseInstruction r t \<Rightarrow>
          length cs = 1 \<and> v_addr r \<in> S \<and> v_addr t \<notin> S \<and> (\<forall>c \<in> set cs. scoped db (insert (v_addr t) S) c)
      | _ \<Rightarrow> (case op_variable op of None \<Rightarrow> False | Some v \<Rightarrow> v_addr v \<in> S))"

text \<open>One instruction, which is scoped.\<close>

definition built :: "database \<Rightarrow> nat set \<Rightarrow> instruction list \<Rightarrow> bool" where
  "built db S ts \<longleftrightarrow> length ts = 1 \<and> (\<forall>t \<in> set ts. scoped db S t)"

definition chain_ok :: "database \<Rightarrow> nat set \<Rightarrow> instr_op list \<Rightarrow> nat set \<Rightarrow> bool" where
  "chain_ok db S ops S' \<longleftrightarrow> (\<forall>ts. built db S' ts \<longrightarrow> built db S (append_chain ops ts))"

lemma chain_built: "chain_ok db S ops S' \<Longrightarrow> built db S' ts \<Longrightarrow> built db S (append_chain ops ts)"
  by (simp add: chain_ok_def)

lemma append_chain_append: "append_chain (xs @ ys) ts = append_chain xs (append_chain ys ts)"
  by (induction xs) simp_all

lemma chain_ok_Nil: "chain_ok db S [] S"
  by (simp add: chain_ok_def)

lemma chain_ok_append: "chain_ok db S xs S1 \<Longrightarrow> chain_ok db S1 ys S2 \<Longrightarrow> chain_ok db S (xs @ ys) S2"
  by (simp add: chain_ok_def append_chain_append)

lemma chain_ok_Parent:
  assumes "v_addr f \<in> S" "v_addr t \<notin> S" "instance_var db f" "instance_var db t" "chain_ok db (insert (v_addr t) S) ops S'"
  shows "chain_ok db S (ParentDerivationInstruction f t # ops) S'"
  using assms by (simp add: chain_ok_def built_def)

lemma chain_ok_Child:
  assumes "v_addr f \<in> S" "v_addr t \<notin> S" "instance_var db t" "chain_ok db (insert (v_addr t) S) ops S'"
  shows "chain_ok db S (ChildDerivationInstruction f t # ops) S'"
  using assms by (simp add: chain_ok_def built_def)

text \<open>A variable in the scope \<open>S\<close>, whose addresses are below \<open>n\<close>.\<close>

definition in_scope :: "database \<Rightarrow> nat set \<Rightarrow> variable \<Rightarrow> nat \<Rightarrow> bool" where
  "in_scope db S v n \<longleftrightarrow> v_addr v \<in> S \<and> S \<subseteq> {..<n} \<and> instance_var db v"

lemma instance_var_InstanceVariable [simp]: "instance_var db (InstanceVariable a p t) \<longleftrightarrow> is_action db t"
  by (simp add: instance_var_def)

lemma in_scope_new: "in_scope db S v n \<Longrightarrow> is_action db t \<Longrightarrow> in_scope db (insert n S) (InstanceVariable n p t) (Suc n)"
  by (auto simp: in_scope_def)

lemma derive_parents_scoped:
  "derive_parents k db c f v n = Inr (ops, v', n') \<Longrightarrow> in_scope db S v n \<Longrightarrow>
   \<exists>S'. chain_ok db S ops S' \<and> in_scope db S' v' n' \<and> S \<subseteq> S' \<and> n \<le> n'"
proof (induction k arbitrary: f v n ops S)
  case (Suc k)
  show ?case
  proof (cases "Some f = c")
    case True
    with Suc.prems show ?thesis using chain_ok_Nil by auto
  next
    case False
    with Suc.prems(1) obtain p ops' where p: "is_action db p" "ops = ParentDerivationInstruction v (InstanceVariable n (Some v) p) # ops'"
      "derive_parents k db c p (InstanceVariable n (Some v) p) (Suc n) = Inr (ops', v', n')"
      by (auto simp: Let_def bindR_eq_Inr split: option.splits if_splits)
    from Suc.IH [OF p(3) in_scope_new [OF Suc.prems(2) p(1)]] obtain S' where
      S': "chain_ok db (insert n S) ops' S'" "in_scope db S' v' n'" "insert n S \<subseteq> S'" "Suc n \<le> n'" by blast
    have "chain_ok db S ops S'"
      unfolding p(2) using Suc.prems(2) p(1) S'(1) by (intro chain_ok_Parent) (auto simp: in_scope_def)
    with S' show ?thesis by (intro exI [of _ S']) auto
  qed
qed simp

lemma derive_children_scoped:
  "derive_children db path v n = Inr (ops, v', n') \<Longrightarrow> in_scope db S v n \<Longrightarrow>
   \<exists>S'. chain_ok db S ops S' \<and> in_scope db S' v' n' \<and> S \<subseteq> S' \<and> n \<le> n'"
proof (induction path arbitrary: v n ops S)
  case Nil
  then show ?case using chain_ok_Nil by auto
next
  case (Cons i path)
  show ?case
  proof (cases "is_action db i \<and> getLocalDomainSize db i = Inr 1")
    case True
    with Cons.prems(1) obtain ops' where o: "ops = ChildDerivationInstruction v (InstanceVariable n (Some v) i) # ops'"
      "derive_children db path (InstanceVariable n (Some v) i) (Suc n) = Inr (ops', v', n')"
      by (auto simp: Let_def bindR_eq_Inr)
    from Cons.IH [OF o(2) in_scope_new [OF Cons.prems(2)]] True obtain S' where
      S': "chain_ok db (insert n S) ops' S'" "in_scope db S' v' n'" "insert n S \<subseteq> S'" "Suc n \<le> n'" by blast
    have "chain_ok db S ops S'"
      unfolding o(1) using Cons.prems(2) True S'(1) by (intro chain_ok_Child) (auto simp: in_scope_def)
    with S' show ?thesis by (intro exI [of _ S']) auto
  next
    case False
    show ?thesis
    proof (cases "is_action db i")
      case True
      with False Cons.prems(1) have "ops = [FailureInstruction]" "v' = v" "n' = n"
        by (auto simp: bindR_eq_Inr Let_def split: if_splits)
      moreover have "chain_ok db S [FailureInstruction] S" by (simp add: chain_ok_def built_def)
      ultimately show ?thesis using Cons.prems(2) by auto
    next
      case no: False
      with Cons.prems(1) have "derive_children db path v n = Inr (ops, v', n')" by (auto split: if_splits)
      from Cons.IH [OF this Cons.prems(2)] show ?thesis .
    qed
  qed
qed

lemma commonRootDerivation_scoped:
  assumes "commonRootDerivation db pFrom pTo v n = Inr (ops, v', n')" and "in_scope db S v n"
  shows "\<exists>S'. chain_ok db S ops S' \<and> in_scope db S' v' n' \<and> S \<subseteq> S' \<and> n \<le> n'"
proof (cases "pFrom = None \<or> pFrom = pTo")
  case True
  with assms show ?thesis using chain_ok_Nil by (auto simp: commonRootDerivation_def split: option.splits)
next
  case False
  with assms(1) obtain c f ups v1 n1 path downs where d: "derive_parents (path_fuel db) db c f v n = Inr (ups, v1, n1)"
    "derive_children db path v1 n1 = Inr (downs, v', n')" "ops = ups @ downs"
    by (auto simp: commonRootDerivation_def bindR_eq_Inr split: option.splits if_splits)
  from derive_parents_scoped [OF d(1) assms(2)] obtain S1 where
    S1: "chain_ok db S ups S1" "in_scope db S1 v1 n1" "S \<subseteq> S1" "n \<le> n1" by blast
  from derive_children_scoped [OF d(2) S1(2)] obtain S2 where
    S2: "chain_ok db S1 downs S2" "in_scope db S2 v' n'" "S1 \<subseteq> S2" "n1 \<le> n'" by blast
  with S1 chain_ok_append d(3) show ?thesis by (intro exI [of _ S2]) auto
qed

section \<open>What the visitor generates is scoped\<close>

lemma build_children_built:
  assumes "build_children f cs n = Inr (ts, n')" and "S \<subseteq> {..<n}"
    and "\<And>c m t m'. c \<in> set cs \<Longrightarrow> f c m = Inr (t, m') \<Longrightarrow> S \<subseteq> {..<m} \<Longrightarrow> built db S t \<and> (\<forall>x \<in> set t. Q x) \<and> m \<le> m'"
  shows "length ts = length cs \<and> (\<forall>t \<in> set ts. scoped db S t \<and> Q t) \<and> n \<le> n'"
proof -
  have "length us + length cs' = length ts \<and> (\<forall>t \<in> set ts. scoped db S t \<and> Q t) \<and> n \<le> n'"
    if "foldR (\<lambda>c (ts, n). bindR (f c n) (\<lambda>(t, n). Inr (ts @ t, n))) cs' (us, n) = Inr (ts, n')"
      "set cs' \<subseteq> set cs" "\<forall>t \<in> set us. scoped db S t \<and> Q t" "S \<subseteq> {..<n}" for us cs' n
    using that
  proof (induction cs' arbitrary: us n)
    case (Cons c cs')
    then obtain t m where t: "f c n = Inr (t, m)"
      "foldR (\<lambda>c (ts, n). bindR (f c n) (\<lambda>(t, n). Inr (ts @ t, n))) cs' (us @ t, m) = Inr (ts, n')"
      by (auto simp: bindR_eq_Inr)
    from assms(3) [OF _ t(1)] Cons.prems(2,4) have b: "built db S t" "\<forall>x \<in> set t. Q x" "n \<le> m" by auto
    then have S: "S \<subseteq> {..<m}" using Cons.prems(4) by auto
    have us: "\<forall>x \<in> set (us @ t). scoped db S x \<and> Q x" using Cons.prems(3) b(1,2) unfolding built_def by auto
    have l: "set cs' \<subseteq> set cs" using Cons.prems(2) by simp
    have "length t = 1" using b(1) by (simp add: built_def)
    with Cons.IH [OF t(2) l us S] b(3) show ?case by simp
  qed simp
  from this [of cs "[]" n] assms(1,2) show ?thesis by (simp add: build_children_def)
qed

lemma action_operation_variable: "action_operation o' v i c = Inr op \<Longrightarrow> op_variable op = Some v \<and> is_Operation op"
  by (cases o') auto

lemma dimension_operation_variable: "dimension_operation db o' v i c = Inr op \<Longrightarrow> op_variable op = Some v \<and> is_Operation op"
  by (cases o') (auto split: option.splits)

lemma scoped_operation: "is_Operation op \<Longrightarrow> op_variable op = Some v \<Longrightarrow> scoped db S (Instr op []) \<longleftrightarrow> v_addr v \<in> S"
  by (cases op) auto

lemma interface_cast [simp]:
  "interface_context db i = Inr j \<longleftrightarrow> j = i \<and> context_at db i \<noteq> None"
  "interface_dimension db i = Inr j \<longleftrightarrow> j = i \<and> dimension_at db i \<noteq> None"
  by (auto simp: interface_context_def as_context_def interface_dimension_def)

lemma buildOperation_Inr:
  assumes "buildOperation db operation prev current v n = Inr (ts, n')"
  shows "\<exists>i c pTo. nm_element current = Some (i, c) \<and>
    (is_action db c \<and> derive_then db prev pTo v n (\<lambda>v. action_operation operation v i c) = Inr (ts, n') \<or>
     \<not> is_action db c \<and> derive_then db prev pTo v n (\<lambda>v. dimension_operation db operation v i c) = Inr (ts, n'))"
proof (cases "nm_element current")
  case None
  with assms show ?thesis by (simp add: buildOperation_def)
next
  case (Some e)
  obtain i c where e: "e = (i, c)" by (cases e)
  show ?thesis
  proof (cases "is_action db c")
    case True
    with assms Some e show ?thesis by (auto simp: buildOperation_def bindR_eq_Inr split: if_splits)
  next
    case False
    with assms Some e show ?thesis by (auto simp: buildOperation_def bindR_eq_Inr split: if_splits)
  qed
qed

lemma buildOperation_built:
  assumes "buildOperation db operation prev current v n = Inr (ts, n')" and "in_scope db S v n"
  shows "built db S ts \<and> n \<le> n'"
proof -
  obtain pTo mk where b: "derive_then db prev pTo v n mk = Inr (ts, n')"
    "\<And>w op. mk w = Inr op \<Longrightarrow> op_variable op = Some w \<and> is_Operation op"
    using buildOperation_Inr [OF assms(1)] action_operation_variable dimension_operation_variable by blast
  then obtain ops w op where d: "commonRootDerivation db (getConcrete prev) pTo v n = Inr (ops, w, n')"
    "mk w = Inr op" "ts = append_chain ops [Instr op []]"
    by (auto simp: derive_then_def bindR_eq_Inr)
  from commonRootDerivation_scoped [OF d(1) assms(2)] obtain S' where
    S': "chain_ok db S ops S'" "in_scope db S' w n'" "n \<le> n'" by blast
  from b(2) [OF d(2)] S'(2) have "built db S' [Instr op []]"
    by (simp add: built_def scoped_operation in_scope_def del: scoped.simps)
  with chain_built [OF S'(1)] S'(3) d(3) show ?thesis by simp
qed

lemma over_children_built:
  assumes "length ts = length (nm_children current)" and "\<forall>t \<in> set ts. scoped db S t" and "nm_children current \<noteq> []"
  shows "built db S (over_children current ts)"
proof (cases "1 < length (nm_children current)")
  case True
  with assms show ?thesis by (simp add: over_children_def built_def)
next
  case False
  then have "length (nm_children current) = 1" using assms(3) by (cases "nm_children current") auto
  with False assms show ?thesis by (simp add: over_children_def built_def)
qed

lemma visit_target_built:
  assumes r: "(if isTerminal current then buildOperation db operation prev current (InstanceVariable n (Some v) t0) (Suc n)
      else bindR (build_children (\<lambda>c n'. visit' GenerateName current (nodes ! c) (InstanceVariable n (Some v) t0) n')
             (nm_children current) (Suc n)) (\<lambda>(ts, n). Inr (over_children current ts, n))) = Inr (ts, n')"
    and v: "v_addr v \<in> S" "S \<subseteq> {..<n}" and t: "is_action db t0"
    and case_children: "\<And>c m t m'. visit' GenerateName current (nodes ! c) (InstanceVariable n (Some v) t0) m = Inr (t, m') \<Longrightarrow>
      insert n S \<subseteq> {..<m} \<Longrightarrow> built db (insert n S) t \<and> m \<le> m'"
  shows "built db (insert n S) ts \<and> n \<le> n'"
proof (cases "isTerminal current")
  case True
  have "in_scope db (insert n S) (InstanceVariable n (Some v) t0) (Suc n)" using v t by (auto simp: in_scope_def)
  with True r buildOperation_built show ?thesis by fastforce
next
  case False
  with r obtain us where us: "build_children (\<lambda>c n'. visit' GenerateName current (nodes ! c) (InstanceVariable n (Some v) t0) n')
      (nm_children current) (Suc n) = Inr (us, n')" "ts = over_children current us" by (auto simp: bindR_eq_Inr)
  have "insert n S \<subseteq> {..<Suc n}" using v(2) by auto
  from build_children_built [OF us(1) this, of db "\<lambda>_. True"] case_children
  have "length us = length (nm_children current)" "\<forall>t \<in> set us. scoped db (insert n S) t" "Suc n \<le> n'" by blast+
  with over_children_built [of us current db] False us(2) show ?thesis by (simp add: isTerminal_def)
qed

lemma visit_built:
  "visit db nodes operation k member prev current v n = Inr (ts, n') \<Longrightarrow> v_addr v \<in> S \<Longrightarrow> S \<subseteq> {..<n} \<Longrightarrow>
   (member = GenerateName \<or> member = DimensionReference \<Longrightarrow> instance_var db v) \<Longrightarrow>
   built db S ts \<and> n \<le> n' \<and> (member = PolymorphicCase \<longrightarrow> (\<forall>t \<in> set ts. is_case (opof t)))"
proof (induction k arbitrary: member prev current v n ts n' S)
  case (Suc k)
  let ?visit = "visit db nodes operation k"
  have S1: "v_addr v \<in> insert n S" "insert n S \<subseteq> {..<Suc n}" "n \<notin> S" using Suc.prems(2,3) by auto
  have generate: "built db (insert n S) t \<and> m \<le> m'"
    if "?visit GenerateName current (nodes ! c) (InstanceVariable n (Some v) t0) m = Inr (t, m')"
      "insert n S \<subseteq> {..<m}" "is_action db t0" for c m t m' t0
    using Suc.IH [OF that(1) _ that(2)] that(3) by simp
  show ?case
  proof (cases member)
    case GenerateName
    then have sc: "in_scope db S v n" using Suc.prems(2-4) by (simp add: in_scope_def)
    have g: "buildGenerateName db nodes operation ?visit prev current v n = Inr (ts, n')"
      using Suc.prems(1) GenerateName by simp
    show ?thesis
    proof (cases "isTerminal current")
      case True
      with g buildOperation_built [OF _ sc] GenerateName show ?thesis by (simp add: buildGenerateName_def)
    next
      case False
      with g obtain ops w m where c: "commonRootDerivation db (getConcrete prev) (getConcrete current) v n = Inr (ops, w, m)"
        and rest: "(if nm_isReference current
          then bindR (?visit DimensionReference prev current w m) (\<lambda>(ts, n). Inr (append_chain ops ts, n))
          else bindR (build_children (\<lambda>c n. ?visit GenerateName current (nodes ! c) w n) (nm_children current) m)
            (\<lambda>(ts, n). Inr (append_chain ops (over_children current ts), n))) = Inr (ts, n')"
        by (auto simp: buildGenerateName_def bindR_eq_Inr)
      from commonRootDerivation_scoped [OF c sc] obtain S' where
        S': "chain_ok db S ops S'" "in_scope db S' w m" "S \<subseteq> S'" "n \<le> m" by blast
      show ?thesis
      proof (cases "nm_isReference current")
        case True
        with rest obtain us where us: "?visit DimensionReference prev current w m = Inr (us, n')" "ts = append_chain ops us"
          by (auto simp: bindR_eq_Inr)
        from Suc.IH [OF us(1), of S'] S'(2) have "built db S' us \<and> m \<le> n'" by (simp add: in_scope_def)
        with chain_built [OF S'(1)] S'(4) us(2) GenerateName show ?thesis by auto
      next
        case False
        with rest obtain us where us: "build_children (\<lambda>c n. ?visit GenerateName current (nodes ! c) w n) (nm_children current) m = Inr (us, n')"
          "ts = append_chain ops (over_children current us)" by (auto simp: bindR_eq_Inr)
        have "S' \<subseteq> {..<m}" "v_addr w \<in> S'" "instance_var db w" using S'(2) by (simp_all add: in_scope_def)
        with build_children_built [OF us(1), of S' db "\<lambda>_. True"] Suc.IH
        have b: "length us = length (nm_children current)" "\<forall>t \<in> set us. scoped db S' t" "m \<le> n'" by blast+
        with over_children_built [OF b(1,2)] \<open>\<not> isTerminal current\<close> have "built db S' (over_children current us)"
          by (simp add: isTerminal_def)
        with chain_built [OF S'(1)] S'(4) us(2) b(3) GenerateName show ?thesis by auto
      qed
    qed
  next
    case DimensionReference
    then have "buildDimensionReference db nodes ?visit prev current v n = Inr (ts, n')" using Suc.prems(1) by simp
    then obtain types d where d: "(let ref = DimensionReferenceVariable n (Some v) types;
           read = DimensionReferenceReadInstruction v ref d
       in if 1 < length types then
            bindR (build_children (\<lambda>c n. ?visit PolymorphicCase current (nodes ! c) ref n) (nm_children current) (Suc n))
              (\<lambda>(ts, n). Inr ([Instr read [Instr (PolymorphicReferenceBranchInstruction ref) ts]], n))
          else
            bindR (asserting (types \<noteq> [])) (\<lambda>_.
            bindR (build_children (\<lambda>c n. ?visit MonoDereference current (nodes ! c) ref n) (nm_children current) (Suc n))
              (\<lambda>(ts, n). Inr ([Instr read ts], n)))) = Inr (ts, n')"
      and types: "length types = length (nm_children current)"
      by (auto simp: buildDimensionReference_def bindR_eq_Inr dest: mapR_length)
    let ?ref = "DimensionReferenceVariable n (Some v) types"
    have ref: "v_addr ?ref \<in> insert n S" by simp
    show ?thesis
    proof (cases "1 < length types")
      case True
      with d obtain us where us: "build_children (\<lambda>c n. ?visit PolymorphicCase current (nodes ! c) ?ref n) (nm_children current) (Suc n) = Inr (us, n')"
        "ts = [Instr (DimensionReferenceReadInstruction v ?ref d) [Instr (PolymorphicReferenceBranchInstruction ?ref) us]]"
        by (auto simp: Let_def bindR_eq_Inr)
      have "length us = length (nm_children current) \<and> (\<forall>t \<in> set us. scoped db (insert n S) t \<and> is_case (opof t)) \<and> Suc n \<le> n'"
      proof (rule build_children_built [OF us(1) S1(2)])
        fix c m t m'
        assume "c \<in> set (nm_children current)" and x: "?visit PolymorphicCase current (nodes ! c) ?ref m = Inr (t, m')" "insert n S \<subseteq> {..<m}"
        from Suc.IH [OF x(1) ref x(2)] show "built db (insert n S) t \<and> (\<forall>x \<in> set t. is_case (opof x)) \<and> m \<le> m'" by simp
      qed
      then show ?thesis using us(2) Suc.prems(2) S1(3) DimensionReference by (simp add: built_def)
    next
      case False
      with d obtain us where us: "build_children (\<lambda>c n. ?visit MonoDereference current (nodes ! c) ?ref n) (nm_children current) (Suc n) = Inr (us, n')"
        "ts = [Instr (DimensionReferenceReadInstruction v ?ref d) us]" "types \<noteq> []"
        by (auto simp: Let_def bindR_eq_Inr)
      have b: "length us = length (nm_children current) \<and> (\<forall>t \<in> set us. scoped db (insert n S) t \<and> True) \<and> Suc n \<le> n'"
      proof (rule build_children_built [OF us(1) S1(2)])
        fix c m t m'
        assume "c \<in> set (nm_children current)" and x: "?visit MonoDereference current (nodes ! c) ?ref m = Inr (t, m')" "insert n S \<subseteq> {..<m}"
        from Suc.IH [OF x(1) ref x(2)] show "built db (insert n S) t \<and> (\<forall>x \<in> set t. True) \<and> m \<le> m'" by simp
      qed
      moreover have "length us = 1" using False us(3) types b by (cases types) auto
      ultimately show ?thesis using us(2) Suc.prems(2) S1(3) DimensionReference by (simp add: built_def)
    qed
  next
    case PolymorphicCase
    then have "buildPolymorphicCase db nodes operation ?visit prev current v n = Inr (ts, n')" using Suc.prems(1) by simp
    then obtain t0 us where u: "as_action db current = Inr t0" "ts = [Instr (PolymorphicCaseInstruction v (InstanceVariable n (Some v) t0)) us]"
      "(if isTerminal current then buildOperation db operation prev current (InstanceVariable n (Some v) t0) (Suc n)
        else bindR (build_children (\<lambda>c n'. ?visit GenerateName current (nodes ! c) (InstanceVariable n (Some v) t0) n')
               (nm_children current) (Suc n)) (\<lambda>(ts, n). Inr (over_children current ts, n))) = Inr (us, n')"
      by (auto simp: buildPolymorphicCase_def Let_def bindR_eq_Inr)
    have a: "is_action db t0" using u(1) by (auto simp: as_action_def split: option.splits if_splits)
    have "built db (insert n S) us \<and> n \<le> n'"
      by (rule visit_target_built [where visit' = ?visit and nodes = nodes, OF u(3) Suc.prems(2,3) a]) (rule generate [OF _ _ a])
    then show ?thesis using u(2) Suc.prems(2) S1(3) by (simp add: built_def)
  next
    case MonoDereference
    then have "buildMonoDereference db nodes operation ?visit prev current v n = Inr (ts, n')" using Suc.prems(1) by simp
    then obtain t0 us where u: "as_action db current = Inr t0" "ts = [Instr (MonomorphicReferenceInstruction v (InstanceVariable n (Some v) t0)) us]"
      "(if isTerminal current then buildOperation db operation prev current (InstanceVariable n (Some v) t0) (Suc n)
        else bindR (build_children (\<lambda>c n'. ?visit GenerateName current (nodes ! c) (InstanceVariable n (Some v) t0) n')
               (nm_children current) (Suc n)) (\<lambda>(ts, n). Inr (over_children current ts, n))) = Inr (us, n')"
      by (auto simp: buildMonoDereference_def Let_def bindR_eq_Inr)
    have a: "is_action db t0" using u(1) by (auto simp: as_action_def split: option.splits if_splits)
    have "built db (insert n S) us \<and> n \<le> n'"
      by (rule visit_target_built [where visit' = ?visit and nodes = nodes, OF u(3) Suc.prems(2,3) a]) (rule generate [OF _ _ a])
    then show ?thesis using u(2) Suc.prems(2) S1(3) MonoDereference by (simp add: built_def)
  qed
qed simp

lemma GenericOperationVisitor_built:
  assumes "GenericOperationVisitor db nodes operation types v n = Inr (ts, n')" and v: "v_addr v \<in> S" "S \<subseteq> {..<n}"
  shows "built db S ts"
proof (cases "1 < length types")
  case True
  with assms(1) obtain us where us: "build_children (\<lambda>c n. visit db nodes operation (names_fuel nodes) PolymorphicCase (nodes ! 0) (nodes ! c) v n)
      (nm_children (nodes ! 0)) n = Inr (us, n')" "ts = [Instr (PolymorphicReferenceBranchInstruction v) us]"
    by (auto simp: GenericOperationVisitor_def Let_def bindR_eq_Inr)
  have "\<forall>t \<in> set us. scoped db S t \<and> is_case (opof t)"
    using build_children_built [OF us(1) v(2), of db "\<lambda>t. is_case (opof t)"] visit_built v(1) by blast
  with us(2) v(1) show ?thesis by (simp add: built_def)
next
  case False
  with assms(1) have us: "length (nm_children (nodes ! 0)) = 1"
    "build_children (\<lambda>c n. visit db nodes operation (names_fuel nodes) MonoDereference (nodes ! 0) (nodes ! c) v n)
      (nm_children (nodes ! 0)) n = Inr (ts, n')"
    by (auto simp: GenericOperationVisitor_def Let_def bindR_eq_Inr)
  have "length ts = length (nm_children (nodes ! 0)) \<and> (\<forall>t \<in> set ts. scoped db S t)"
    using build_children_built [OF us(2) v(2), of db "\<lambda>_. True"] visit_built v(1) by blast
  with us(1) show ?thesis by (simp add: built_def)
qed

end
