(* ===== verification/InvocationScope.thy ===== *)
theory InvocationScope
  imports Invocation InstructionEval
begin

text \<open>
  The elimination of \<open>InvocationSolution::build\<close> keeps the scopes of the variables that the visitor opened,
  and the operations that survive are operations the visitor generated.
\<close>

section \<open>Elimination keeps the scopes and the operations\<close>

lemma resolve_elimination_in:
  assumes "resolve_elimination e rs = (e', c)"
  shows "(\<exists>r. (r, c) \<in> set rs) \<or> (\<exists>ds. c = Instr EliminationInstruction ds \<and> (\<forall>d \<in> set ds. \<exists>r. (r, d) \<in> set rs))"
proof (cases "ambiguities rs \<noteq> [] \<or> 1 < length (successes rs)")
  case True
  with assms have "c = Instr EliminationInstruction (ambiguities rs @ successes rs)" by (simp add: resolve_elimination_def)
  moreover have "\<forall>d \<in> set (ambiguities rs @ successes rs). \<exists>r. (r, d) \<in> set rs"
    by (auto simp: in_ambiguities in_successes)
  ultimately show ?thesis by blast
next
  case False
  show ?thesis
  proof (cases "successes rs")
    case Nil
    with assms False have "c = Instr EliminationInstruction []" by (simp add: resolve_elimination_def)
    then show ?thesis by simp
  next
    case (Cons x xs)
    then have "(eSuccess, x) \<in> set rs" by (simp add: in_successes [symmetric])
    moreover have "c = x" using Cons assms False by (simp add: resolve_elimination_def)
    ultimately show ?thesis by blast
  qed
qed

lemma elimination_scoped:
  "elimination_pass cands t = Inr (r, t') \<Longrightarrow> scoped db S t \<Longrightarrow> scoped db S t'"
  "elimination_loop cands e prior cs = Inr (r, cs') \<Longrightarrow> \<forall>c \<in> set prior \<union> set cs. scoped db S c \<Longrightarrow>
   length cs' = length prior + length cs \<and> (\<forall>c \<in> set cs'. scoped db S c) \<and>
   ((\<forall>c \<in> set prior \<union> set cs. is_case (opof c)) \<longrightarrow> (\<forall>c \<in> set cs'. is_case (opof c)))"
proof (induction cands t and cands e prior cs arbitrary: r t' S and r cs' S rule: elimination_pass_elimination_loop.induct)
  case (1 cands op cs)
  show ?case
  proof (cases "not_candidate cands op")
    case True
    with "1.prems" show ?thesis by simp
  next
    case False
    with "1.prems"(1) obtain cs' where l: "elimination_loop cands eSuccess [] cs = Inr (r, cs')" "t' = Instr op cs'"
      by (auto simp: bindR_eq_Inr)
    have IH: "length cs' = length cs" "(\<forall>c \<in> set cs'. scoped db T c)"
      "(\<forall>c \<in> set cs. is_case (opof c)) \<Longrightarrow> (\<forall>c \<in> set cs'. is_case (opof c))" if "\<forall>c \<in> set cs. scoped db T c" for T
      using "1.IH" [OF False l(1), of T] that by simp_all
    show ?thesis
    proof (cases "\<exists>f. op = PolymorphicReferenceBranchInstruction f")
      case True
      with "1.prems"(2) IH(2,3) [of S] show ?thesis unfolding l(2) by auto
    next
      case False
      with "1.prems"(2) show ?thesis unfolding l(2) by (cases op) (auto simp: IH(1,2))
    qed
  qed
next
  case (2 cands e prior)
  then show ?case by simp
next
  case (3 cands e prior op nested rest)
  note prems = "3.prems"
  have sc: "scoped db S (Instr op nested)" and rest: "\<forall>c \<in> set prior \<union> set rest. scoped db S c" using prems(2) by auto
  consider (elim) "op = EliminationInstruction" | (fail) "op = FailureInstruction"
    | (prune) "op = PruneInstruction" | (other) "\<not> is_marker op"
    by (auto simp: is_marker_def)
  then show ?case
  proof cases
    case elim
    from prems(1) elim obtain rs where
      rs: "list_all2 (\<lambda>n r. opof n \<noteq> EliminationInstruction \<and> elimination_pass cands n = Inr r) nested rs"
      and cont: "(case resolve_elimination e rs of (e', c) \<Rightarrow> elimination_loop cands e' (prior @ [c]) rest) = Inr (r, cs')"
      by (auto simp: bindR_eq_Inr dest!: mapR_nested)
    obtain e' c where res: "resolve_elimination e rs = (e', c)" by (cases "resolve_elimination e rs")
    have mp: "mapR (\<lambda>n. bindR (verify (opof n \<noteq> EliminationInstruction)) (\<lambda>_. elimination_pass cands n)) nested = Inr rs"
      using rs by (simp add: mapR_Inr_conv bindR_eq_Inr)
    have each: "scoped db S d" if "(x, d) \<in> set rs" for x d
    proof -
      from list_all2_in2 [OF rs that] obtain n where n: "n \<in> set nested" "elimination_pass cands n = Inr (x, d)"
        "opof n \<noteq> EliminationInstruction" by auto
      then show ?thesis using "3.IH"(1) [OF elim n(1) _ n(2), of "()"] sc elim by (auto simp: verify_def)
    qed
    have cc: "scoped db S c"
      using resolve_elimination_in [OF res]
    proof
      assume "\<exists>ds. c = Instr EliminationInstruction ds \<and> (\<forall>d \<in> set ds. \<exists>r. (r, d) \<in> set rs)"
      then obtain ds where ds: "c = Instr EliminationInstruction ds" "\<forall>d \<in> set ds. \<exists>r. (r, d) \<in> set rs" by blast
      have "scoped db S d" if "d \<in> set ds" for d using ds(2) that each by blast
      then show ?thesis by (simp add: ds(1))
    qed (use each in blast)
    have l: "elimination_loop cands e' (prior @ [c]) rest = Inr (r, cs')" using cont res by simp
    have "\<forall>x \<in> set (prior @ [c]) \<union> set rest. scoped db S x" using rest cc by auto
    from "3.IH"(2) [OF elim mp res [symmetric] l this]
    have "length cs' = length prior + Suc (length rest)" "\<forall>c \<in> set cs'. scoped db S c" by simp_all
    moreover have "\<not> is_case (opof (Instr op nested))" using elim by simp
    ultimately show ?thesis by simp
  next
    case fail
    with prems(1) have l: "elimination_loop cands (after_failure e) (prior @ [Instr op nested]) rest = Inr (r, cs')" by simp
    have sc': "\<forall>x \<in> set (prior @ [Instr op nested]) \<union> set rest. scoped db S x" using rest sc by auto
    have "op \<noteq> EliminationInstruction" using fail by simp
    from "3.IH"(3) [OF this fail l sc'] show ?thesis by simp
  next
    case prune
    with sc show ?thesis by simp
  next
    case other
    then have neq: "op \<noteq> EliminationInstruction" "op \<noteq> FailureInstruction" "op \<noteq> PruneInstruction"
      by (auto simp: is_marker_def)
    with prems(1) obtain x c where p: "elimination_pass cands (Instr op nested) = Inr (x, c)"
      and l: "elimination_loop cands (after_child e x) (prior @ [c]) rest = Inr (r, cs')"
      by (auto simp: bindR_eq_Inr)
    have cc: "scoped db S c" using "3.IH"(6) [OF neq p sc] .
    have op: "opof c = op" using elimination_pass_opof [OF p] by simp
    from "3.IH"(7) [OF neq p refl l, of S] rest cc op show ?thesis by simp
  qed
qed

definition ops_of :: "instruction \<Rightarrow> instr_op list" where
  "ops_of c = (if is_Operation (opof c) then [opof c] else getOperations c)"

lemma getOperations_ops_of: "getOperations (Instr op cs) = concat (map ops_of cs)"
  by (simp add: ops_of_def [abs_def])

lemma elimination_operations:
  "elimination_pass cands t = Inr (r, t') \<Longrightarrow> set (getOperations t') \<subseteq> set (getOperations t)"
  "elimination_loop cands e prior cs = Inr (r, cs') \<Longrightarrow>
   set (concat (map ops_of cs')) \<subseteq> set (concat (map ops_of prior)) \<union> set (concat (map ops_of cs))"
proof (induction cands t and cands e prior cs arbitrary: r t' and r cs' rule: elimination_pass_elimination_loop.induct)
  case (1 cands op cs)
  show ?case
  proof (cases "not_candidate cands op")
    case True
    with "1.prems" show ?thesis by simp
  next
    case False
    with "1.prems"(1) obtain cs' where l: "elimination_loop cands eSuccess [] cs = Inr (r, cs')" "t' = Instr op cs'"
      by (auto simp: bindR_eq_Inr)
    from "1.IH" [OF False l(1)] show ?thesis unfolding l(2) getOperations_ops_of by simp
  qed
next
  case (2 cands e prior)
  then show ?case by simp
next
  case (3 cands e prior op nested rest)
  note prems = "3.prems"
  consider (elim) "op = EliminationInstruction" | (fail) "op = FailureInstruction"
    | (prune) "op = PruneInstruction" | (other) "\<not> is_marker op"
    by (auto simp: is_marker_def)
  then show ?case
  proof cases
    case elim
    from prems(1) elim obtain rs where
      rs: "list_all2 (\<lambda>n r. opof n \<noteq> EliminationInstruction \<and> elimination_pass cands n = Inr r) nested rs"
      and cont: "(case resolve_elimination e rs of (e', c) \<Rightarrow> elimination_loop cands e' (prior @ [c]) rest) = Inr (r, cs')"
      by (auto simp: bindR_eq_Inr dest!: mapR_nested)
    obtain e' c where res: "resolve_elimination e rs = (e', c)" by (cases "resolve_elimination e rs")
    have mp: "mapR (\<lambda>n. bindR (verify (opof n \<noteq> EliminationInstruction)) (\<lambda>_. elimination_pass cands n)) nested = Inr rs"
      using rs by (simp add: mapR_Inr_conv bindR_eq_Inr)
    have each: "set (ops_of d) \<subseteq> set (concat (map ops_of nested))" if "(x, d) \<in> set rs" for x d
    proof -
      from list_all2_in2 [OF rs that] obtain n where n: "n \<in> set nested" "elimination_pass cands n = Inr (x, d)"
        "opof n \<noteq> EliminationInstruction" by auto
      then have "set (getOperations d) \<subseteq> set (getOperations n)"
        using "3.IH"(1) [OF elim n(1) _ n(2), of "()"] by (simp add: verify_def)
      then have "set (ops_of d) \<subseteq> set (ops_of n)"
        using elimination_pass_opof [OF n(2)] by (simp add: ops_of_def)
      then show ?thesis using n(1) by auto
    qed
    have "set (ops_of c) \<subseteq> set (concat (map ops_of nested))"
      using resolve_elimination_in [OF res]
    proof
      assume "\<exists>ds. c = Instr EliminationInstruction ds \<and> (\<forall>d \<in> set ds. \<exists>r. (r, d) \<in> set rs)"
      then obtain ds where ds: "c = Instr EliminationInstruction ds" "\<forall>d \<in> set ds. \<exists>r. (r, d) \<in> set rs" by blast
      have "ops_of c = concat (map ops_of ds)" using ds(1) by (simp add: ops_of_def [abs_def])
      with ds(2) each show ?thesis by fastforce
    qed (use each in blast)
    moreover have "ops_of (Instr op nested) = concat (map ops_of nested)" using elim by (simp add: ops_of_def [abs_def])
    moreover have "elimination_loop cands e' (prior @ [c]) rest = Inr (r, cs')" using cont res by simp
    note "3.IH"(2) [OF elim mp res [symmetric] this]
    ultimately show ?thesis by auto
  next
    case fail
    with prems(1) have l: "elimination_loop cands (after_failure e) (prior @ [Instr op nested]) rest = Inr (r, cs')" by simp
    from "3.IH"(3) [OF _ fail l] fail show ?thesis by auto
  next
    case prune
    let ?f = "\<lambda>n. bindR (verify (opof n \<noteq> PruneInstruction)) (\<lambda>_. bindR (elimination_pass cands n)
       (\<lambda>r. if fst r = eAmbiguous then Inl (RuntimeError ''Unreachable'') else Inr r))"
    from prems(1) prune obtain rs where map: "mapR ?f nested = Inr rs"
      and cont: "(if successes rs \<noteq> [] then bindR (verify (prior = [] \<and> rest = [])) (\<lambda>_. Inr (e, successes rs))
        else elimination_loop cands eFailure (prior @ [Instr PruneInstruction []]) rest) = Inr (r, cs')"
      by (auto simp: bindR_eq_Inr)
    from mapR_nested_prune [OF map] have
      rs: "list_all2 (\<lambda>n r. opof n \<noteq> PruneInstruction \<and> elimination_pass cands n = Inr r \<and> fst r \<noteq> eAmbiguous) nested rs" .
    have op: "ops_of (Instr op nested) = concat (map ops_of nested)" using prune by (simp add: ops_of_def [abs_def])
    show ?thesis
    proof (cases "successes rs = []")
      case True
      with cont have l: "elimination_loop cands eFailure (prior @ [Instr PruneInstruction []]) rest = Inr (r, cs')" by simp
      have "ops_of (Instr PruneInstruction []) = []" by (simp add: ops_of_def)
      with "3.IH"(5) [OF _ _ prune map _ l] prune True show ?thesis by auto
    next
      case False
      with cont have cs': "cs' = successes rs" by (auto simp: bindR_eq_Inr)
      have "set (ops_of c) \<subseteq> set (concat (map ops_of nested))" if "c \<in> set cs'" for c
      proof -
        from that have "(eSuccess, c) \<in> set rs" by (simp add: cs' in_successes)
        from list_all2_in2 [OF rs this] obtain n where
          n: "n \<in> set nested" "elimination_pass cands n = Inr (eSuccess, c)" "opof n \<noteq> PruneInstruction" by auto
        then have "set (getOperations c) \<subseteq> set (getOperations n)"
          using "3.IH"(4) [OF _ _ prune n(1) _ n(2), of "()"] prune by (simp add: verify_def)
        then have "set (ops_of c) \<subseteq> set (ops_of n)"
          using elimination_pass_opof [OF n(2)] by (simp add: ops_of_def)
        then show ?thesis using n(1) by auto
      qed
      then show ?thesis using op by auto
    qed
  next
    case other
    then have neq: "op \<noteq> EliminationInstruction" "op \<noteq> FailureInstruction" "op \<noteq> PruneInstruction"
      by (auto simp: is_marker_def)
    with prems(1) obtain x c where p: "elimination_pass cands (Instr op nested) = Inr (x, c)"
      and l: "elimination_loop cands (after_child e x) (prior @ [c]) rest = Inr (r, cs')"
      by (auto simp: bindR_eq_Inr)
    have "set (ops_of c) \<subseteq> set (ops_of (Instr op nested))"
      using "3.IH"(6) [OF neq p] elimination_pass_opof [OF p] by (simp add: ops_of_def)
    with "3.IH"(7) [OF neq p refl l] show ?thesis by auto
  qed
qed

section \<open>The operations stand at the ends of the readings\<close>

text \<open>The interface and the concrete element that an operation is for.\<close>

fun op_target :: "instr_op \<Rightarrow> element_pair option" where
  "op_target (CallOperation v i t) = Some (i, t)"
| "op_target (StartOperation v i t) = Some (i, t)"
| "op_target (StopOperation v i t) = Some (i, t)"
| "op_target (PauseOperation v i t) = Some (i, t)"
| "op_target (ResumeOperation v i t) = Some (i, t)"
| "op_target (DoneOperation v i t) = Some (i, t)"
| "op_target (WaitActionOperation v i t) = Some (i, t)"
| "op_target (WaitDimensionOperation v i t) = Some (i, t)"
| "op_target (GetActionOperation v i t) = Some (i, t)"
| "op_target (GetDimensionOperation v i t) = Some (i, t)"
| "op_target (ReadOperation v i t) = Some (i, t)"
| "op_target (WriteOperation v i t) = Some (i, t)"
| "op_target (WriteLinkOperation v i t g) = Some (i, t)"
| "op_target (RangeOperation v i t r) = Some (i, t)"
| "op_target _ = None"

definition forest_ops :: "instruction list \<Rightarrow> instr_op set" where
  "forest_ops ts = set (concat (map ops_of ts))"

lemma forest_ops_simps [simp]:
  "forest_ops [] = {}"
  "forest_ops (Instr op cs # ts) = (if is_Operation op then {op} else forest_ops cs) \<union> forest_ops ts"
  "forest_ops (ts @ us) = forest_ops ts \<union> forest_ops us"
  by (auto simp: forest_ops_def ops_of_def [abs_def] simp del: getOperations.simps) (auto simp: ops_of_def [abs_def])

lemma getOperations_forest: "set (getOperations (Instr op cs)) = forest_ops cs"
  by (simp add: getOperations_ops_of forest_ops_def del: getOperations.simps)

lemma forest_ops_chain: "\<forall>op \<in> set ops. \<not> is_Operation op \<Longrightarrow> forest_ops (append_chain ops ts) = forest_ops ts"
  by (induction ops) simp_all

lemma forest_ops_over_children [simp]: "forest_ops (over_children current ts) = forest_ops ts"
  by (simp add: over_children_def)

lemma derive_parents_no_operation:
  "derive_parents k db c f v n = Inr (ops, v', n') \<Longrightarrow> \<forall>op \<in> set ops. \<not> is_Operation op"
proof (induction k arbitrary: f v n ops)
  case (Suc k)
  then show ?case by (auto simp: Let_def bindR_eq_Inr split: option.splits if_splits)
qed simp

lemma derive_children_no_operation:
  "derive_children db path v n = Inr (ops, v', n') \<Longrightarrow> \<forall>op \<in> set ops. \<not> is_Operation op"
proof (induction path arbitrary: v n ops)
  case (Cons i path)
  then show ?case by (auto simp: Let_def bindR_eq_Inr split: if_splits)
qed simp

lemma commonRootDerivation_no_operation:
  "commonRootDerivation db pFrom pTo v n = Inr (ops, v', n') \<Longrightarrow> \<forall>op \<in> set ops. \<not> is_Operation op"
  using derive_parents_no_operation derive_children_no_operation
  by (fastforce simp: commonRootDerivation_def bindR_eq_Inr split: option.splits if_splits)

lemma action_operation_target: "action_operation o' v i c = Inr op \<Longrightarrow> op_target op = Some (i, c) \<and> is_Operation op"
  by (cases o') auto

lemma dimension_operation_target: "dimension_operation db o' v i c = Inr op \<Longrightarrow> op_target op = Some (i, c) \<and> is_Operation op"
  by (cases o') (auto split: option.splits)

lemma buildOperation_target:
  assumes "buildOperation db operation prev current v n = Inr (ts, n')" and "op \<in> forest_ops ts"
  shows "op_target op = nm_element current"
proof -
  obtain i c pTo mk where b: "nm_element current = Some (i, c)" "derive_then db prev pTo v n mk = Inr (ts, n')"
    "\<And>w op. mk w = Inr op \<Longrightarrow> op_target op = Some (i, c) \<and> is_Operation op"
    using buildOperation_Inr [OF assms(1)] action_operation_target dimension_operation_target by blast
  then obtain ops w op' where d: "commonRootDerivation db (getConcrete prev) pTo v n = Inr (ops, w, n')"
    "mk w = Inr op'" "ts = append_chain ops [Instr op' []]"
    by (auto simp: derive_then_def bindR_eq_Inr)
  from b(3) [OF d(2)] b(1) assms(2) show ?thesis
    by (simp add: d(3) forest_ops_chain [OF commonRootDerivation_no_operation [OF d(1)]])
qed

text \<open>Every operation of the forest is for the element at the end of a path from the name \<open>i\<close>.\<close>

definition reaches :: "name_node list \<Rightarrow> nat \<Rightarrow> instr_op set \<Rightarrow> bool" where
  "reaches nodes i ops \<longleftrightarrow>
     (\<forall>op \<in> ops. \<exists>ls. name_path nodes i ls \<and> op_target op = last (nm_element (nodes ! i) # map Some ls))"

lemma reaches_child:
  assumes "reaches nodes c ops" and "c \<in> set (nm_children (nodes ! i))" and "nm_element (nodes ! c) \<noteq> None"
  shows "reaches nodes i ops"
  unfolding reaches_def
proof
  fix op assume "op \<in> ops"
  with assms(1) obtain ls where ls: "name_path nodes c ls" "op_target op = last (nm_element (nodes ! c) # map Some ls)"
    by (auto simp: reaches_def)
  from assms(3) obtain e where e: "nm_element (nodes ! c) = Some e" by auto
  have "name_path nodes i (e # ls)" using assms(2) e ls(1) by (rule name_path_child)
  with ls(2) e show "\<exists>ls. name_path nodes i ls \<and> op_target op = last (nm_element (nodes ! i) # map Some ls)"
    by (intro exI [of _ "e # ls"]) simp
qed

lemma build_children_ops:
  assumes "build_children f cs n = Inr (ts, n')"
    and "\<And>c m t m'. c \<in> set cs \<Longrightarrow> f c m = Inr (t, m') \<Longrightarrow> P (forest_ops t)"
    and "P {}" and "\<And>a b. P a \<Longrightarrow> P b \<Longrightarrow> P (a \<union> b)"
  shows "P (forest_ops ts)"
proof -
  have "P (forest_ops ts)"
    if "foldR (\<lambda>c (ts, n). bindR (f c n) (\<lambda>(t, n). Inr (ts @ t, n))) cs' (us, n) = Inr (ts, n')"
      "set cs' \<subseteq> set cs" "P (forest_ops us)" for us cs' n
    using that
  proof (induction cs' arbitrary: us n)
    case (Cons c cs')
    then obtain t m where t: "f c n = Inr (t, m)"
      "foldR (\<lambda>c (ts, n). bindR (f c n) (\<lambda>(t, n). Inr (ts @ t, n))) cs' (us @ t, m) = Inr (ts, n')"
      by (auto simp: bindR_eq_Inr)
    have "P (forest_ops (us @ t))" using assms(2) [OF _ t(1)] assms(4) Cons.prems(2,3) by simp
    with Cons.IH [OF t(2)] Cons.prems(2) show ?case by simp
  qed simp
  from this [of cs "[]" n] assms(1,3) show ?thesis by (simp add: build_children_def)
qed

lemma build_children_reaches:
  assumes "build_children f (nm_children (nodes ! i)) n = Inr (ts, n')" and "tree_ok nodes" and "i < length nodes"
    and "\<And>c m t m'. c < length nodes \<Longrightarrow> f c m = Inr (t, m') \<Longrightarrow> reaches nodes c (forest_ops t)"
  shows "reaches nodes i (forest_ops ts)"
proof (rule build_children_ops [OF assms(1), where P = "reaches nodes i"])
  fix c m t m' assume c: "c \<in> set (nm_children (nodes ! i))" and t: "f c m = Inr (t, m')"
  from tree_okD [OF assms(2,3) c] have "c < length nodes" "nm_element (nodes ! c) \<noteq> None" by simp_all
  with reaches_child [OF assms(4) [OF _ t] c] show "reaches nodes i (forest_ops t)" by simp
qed (simp_all add: reaches_def ball_Un)

lemma buildOperation_reaches:
  assumes "buildOperation db operation prev (nodes ! i) v n = Inr (ts, n')" and "isTerminal (nodes ! i)"
  shows "reaches nodes i (forest_ops ts)"
  unfolding reaches_def
proof
  fix op assume "op \<in> forest_ops ts"
  with buildOperation_target [OF assms(1)] assms(2) name_path_end [of nodes i]
  show "\<exists>ls. name_path nodes i ls \<and> op_target op = last (nm_element (nodes ! i) # map Some ls)"
    by (intro exI [of _ "[]"]) (simp add: isTerminal_def)
qed

lemma visit_target_reaches:
  assumes r: "(if isTerminal (nodes ! i) then buildOperation db operation prev (nodes ! i) w (Suc n)
      else bindR (build_children (\<lambda>c n'. visit' GenerateName (nodes ! i) (nodes ! c) w n')
             (nm_children (nodes ! i)) (Suc n)) (\<lambda>(ts, n). Inr (over_children (nodes ! i) ts, n))) = Inr (ts, n')"
    and "tree_ok nodes" and "i < length nodes"
    and "\<And>c m t m'. visit' GenerateName (nodes ! i) (nodes ! c) w m = Inr (t, m') \<Longrightarrow> c < length nodes \<Longrightarrow>
      reaches nodes c (forest_ops t)"
  shows "reaches nodes i (forest_ops ts)"
proof (cases "isTerminal (nodes ! i)")
  case True
  with r buildOperation_reaches show ?thesis by (simp split: if_splits)
next
  case False
  with r obtain us where us: "build_children (\<lambda>c n'. visit' GenerateName (nodes ! i) (nodes ! c) w n')
      (nm_children (nodes ! i)) (Suc n) = Inr (us, n')" "ts = over_children (nodes ! i) us" by (auto simp: bindR_eq_Inr)
  from build_children_reaches [OF us(1) assms(2,3)] assms(4) us(2) show ?thesis by simp
qed

lemma visit_reaches:
  assumes ok: "tree_ok nodes"
  shows "visit db nodes operation k member prev (nodes ! i) v n = Inr (ts, n') \<Longrightarrow> i < length nodes \<Longrightarrow>
    reaches nodes i (forest_ops ts)"
proof (induction k arbitrary: member prev i v n ts n')
  case (Suc k)
  let ?visit = "visit db nodes operation k"
  let ?current = "nodes ! i"
  have children: "reaches nodes i (forest_ops us)"
    if "build_children (\<lambda>c n. ?visit m ?current (nodes ! c) w n) (nm_children ?current) n = Inr (us, n')" for m w n us n'
    using build_children_reaches [OF that ok Suc.prems(2)] Suc.IH by blast
  show ?case
  proof (cases member)
    case GenerateName
    then have g: "buildGenerateName db nodes operation ?visit prev ?current v n = Inr (ts, n')"
      using Suc.prems(1) by simp
    show ?thesis
    proof (cases "isTerminal ?current")
      case True
      with g buildOperation_reaches show ?thesis by (simp add: buildGenerateName_def)
    next
      case False
      with g obtain ops w m where c: "commonRootDerivation db (getConcrete prev) (getConcrete ?current) v n = Inr (ops, w, m)"
        and rest: "(if nm_isReference ?current
          then bindR (?visit DimensionReference prev ?current w m) (\<lambda>(ts, n). Inr (append_chain ops ts, n))
          else bindR (build_children (\<lambda>c n. ?visit GenerateName ?current (nodes ! c) w n) (nm_children ?current) m)
            (\<lambda>(ts, n). Inr (append_chain ops (over_children ?current ts), n))) = Inr (ts, n')"
        by (auto simp: buildGenerateName_def bindR_eq_Inr)
      note chain = forest_ops_chain [OF commonRootDerivation_no_operation [OF c]]
      show ?thesis
      proof (cases "nm_isReference ?current")
        case True
        with rest Suc.IH Suc.prems(2) show ?thesis by (auto simp: bindR_eq_Inr chain)
      next
        case False
        with rest children show ?thesis by (auto simp: bindR_eq_Inr chain)
      qed
    qed
  next
    case DimensionReference
    with Suc.prems(1) have d: "buildDimensionReference db nodes ?visit prev ?current v n = Inr (ts, n')" by simp
    then obtain us m w n1 where "build_children (\<lambda>c n. ?visit m ?current (nodes ! c) w n) (nm_children ?current) n1 = Inr (us, n')"
      "forest_ops ts = forest_ops us"
      by (auto simp: buildDimensionReference_def Let_def bindR_eq_Inr split: if_splits)
    with children show ?thesis by simp
  next
    case PolymorphicCase
    with Suc.prems(1) obtain us w where u: "forest_ops ts = forest_ops us"
      "(if isTerminal ?current then buildOperation db operation prev ?current w (Suc n)
        else bindR (build_children (\<lambda>c n'. ?visit GenerateName ?current (nodes ! c) w n')
               (nm_children ?current) (Suc n)) (\<lambda>(ts, n). Inr (over_children ?current ts, n))) = Inr (us, n')"
      by (auto simp: buildPolymorphicCase_def Let_def bindR_eq_Inr)
    from visit_target_reaches [where visit' = ?visit, OF u(2) ok Suc.prems(2) Suc.IH] u(1) show ?thesis by simp
  next
    case MonoDereference
    with Suc.prems(1) obtain us w where u: "forest_ops ts = forest_ops us"
      "(if isTerminal ?current then buildOperation db operation prev ?current w (Suc n)
        else bindR (build_children (\<lambda>c n'. ?visit GenerateName ?current (nodes ! c) w n')
               (nm_children ?current) (Suc n)) (\<lambda>(ts, n). Inr (over_children ?current ts, n))) = Inr (us, n')"
      by (auto simp: buildMonoDereference_def Let_def bindR_eq_Inr)
    from visit_target_reaches [where visit' = ?visit, OF u(2) ok Suc.prems(2) Suc.IH] u(1) show ?thesis by simp
  qed
qed simp

lemma GenericOperationVisitor_reaches:
  assumes "GenericOperationVisitor db nodes operation types v n = Inr (ts, n')" and ok: "tree_ok nodes"
  shows "reaches nodes 0 (forest_ops ts)"
proof -
  from assms(1) obtain us member w where us:
    "build_children (\<lambda>c n. visit db nodes operation (names_fuel nodes) member (nodes ! 0) (nodes ! c) w n) (nm_children (nodes ! 0)) n = Inr (us, n')"
    "forest_ops ts = forest_ops us"
    by (auto simp: GenericOperationVisitor_def Let_def bindR_eq_Inr split: if_splits)
  from build_children_reaches [OF us(1) ok tree_ok_pos [OF ok]] visit_reaches [OF ok] us(2) show ?thesis by simp
qed

lemma derive_enum_no_operation:
  "derive_enum db path v n = Some (ops, v', n') \<Longrightarrow> \<forall>op \<in> set ops. \<not> is_Operation op"
  by (induction path arbitrary: v n ops) (auto simp: Let_def split: if_splits)

lemma range_operation_target: "range_operation o' v i c = Inr op \<Longrightarrow> op_target op = Some (i, c) \<and> is_Operation op"
  by (cases o') auto

lemma buildEnum_reaches:
  assumes ok: "tree_ok nodes"
  shows "buildEnum db nodes operation k prev (nodes ! i) v n = Inr (ts, n') \<Longrightarrow> i < length nodes \<Longrightarrow>
    reaches nodes i (forest_ops ts)"
proof (induction k arbitrary: prev i v n ts n')
  case (Suc k)
  let ?current = "nodes ! i"
  from Suc.prems(1) obtain t path ops w m us where u: "getConcrete ?current = Some t"
    "derive_enum db path v n = Some (ops, w, m)" "ts = append_chain ops us"
    "(if isTerminal ?current then buildRange db operation ?current w m
      else build_children (\<lambda>c n. buildEnum db nodes operation k ?current (nodes ! c) w n) (nm_children ?current) m) = Inr (us, n')"
    by (auto simp: bindR_eq_Inr targetDerivation_def split: if_splits option.splits)
  note chain = forest_ops_chain [OF derive_enum_no_operation [OF u(2)]]
  show ?case
  proof (cases "isTerminal ?current")
    case True
    with u(4) have b: "buildRange db operation ?current w m = Inr (us, n')" by simp
    then obtain j c op where e: "nm_element ?current = Some (j, c)" "range_operation operation w j c = Inr op" "us = [Instr op []]"
      by (auto simp: buildRange_def bindR_eq_Inr split: option.splits if_splits)
    have "reaches nodes i {op}"
      using range_operation_target [OF e(2)] e(1) name_path_end [of nodes i] True
      by (auto simp: reaches_def isTerminal_def intro!: exI [of _ "[]"])
    with range_operation_target [OF e(2)] e(3) u(3) show ?thesis by (simp add: chain)
  next
    case False
    with u(4) have "build_children (\<lambda>c n. buildEnum db nodes operation k ?current (nodes ! c) w n) (nm_children ?current) m = Inr (us, n')"
      by simp
    from build_children_reaches [OF this ok Suc.prems(2) Suc.IH] u(3) show ?thesis by (simp add: chain)
  qed
qed simp

lemma buildEnumeration_reaches:
  assumes "buildEnumeration db nodes operation dereference (nodes ! i) v n = Inr (ts, n')" and ok: "tree_ok nodes" "i < length nodes"
    and d: "\<And>a b. \<not> is_Operation (dereference a b)"
  shows "reaches nodes i (forest_ops ts)"
proof -
  from assms(1) d obtain us w where us:
    "build_children (\<lambda>c n. buildEnum db nodes operation (names_fuel nodes) (nodes ! i) (nodes ! c) w n) (nm_children (nodes ! i)) (Suc n) = Inr (us, n')"
    "forest_ops ts = forest_ops us"
    by (auto simp: buildEnumeration_def Let_def bindR_eq_Inr)
  from build_children_reaches [OF us(1) ok] buildEnum_reaches [OF ok(1)] us(2) show ?thesis by simp
qed

lemma EnumerationOperationVisitor_reaches:
  assumes "EnumerationOperationVisitor db nodes operation types v n = Inr (ts, n')" and ok: "tree_ok nodes"
  shows "reaches nodes 0 (forest_ops ts)"
proof -
  from assms(1) obtain us dereference where us:
    "build_children (\<lambda>c n. buildEnumeration db nodes operation dereference (nodes ! c) v n) (nm_children (nodes ! 0)) n = Inr (us, n')"
    "forest_ops ts = forest_ops us" "dereference = PolymorphicCaseInstruction \<or> dereference = MonomorphicReferenceInstruction"
    by (auto simp: EnumerationOperationVisitor_def Let_def bindR_eq_Inr split: if_splits)
  from us(3) have "\<And>a b. \<not> is_Operation (dereference a b)" by auto
  with build_children_reaches [OF us(1) ok tree_ok_pos [OF ok]] buildEnumeration_reaches [OF _ ok] us(2) show ?thesis by simp
qed

lemma generate_reaches:
  assumes "generate db uninit nodes s = Inr root" and "tree_ok nodes"
  shows "reaches nodes 0 (set (getOperations root))"
  using assms GenericOperationVisitor_reaches EnumerationOperationVisitor_reaches
  by (fastforce simp: generate_def Let_def bindR_eq_Inr getOperations_forest reaches_def simp del: getOperations.simps split: if_splits)

section \<open>Solutions\<close>

lemma getOperations_map:
  "(\<And>c. c \<in> set cs \<Longrightarrow> ops_of (f c) = ops_of c) \<Longrightarrow> getOperations (Instr op (map f cs)) = getOperations (Instr op' cs)"
  unfolding getOperations_ops_of by (simp cong: map_cong)

lemma ops_of_setReturnTypes: "ops_of (snd (setReturnTypes tgts t)) = ops_of t"
proof (induction tgts t rule: setReturnTypes.induct)
  case (1 tgts op cs)
  show ?case
  proof (cases "\<exists>v rts m. op = EnumerationInstruction v rts m")
    case True
    then show ?thesis by (auto simp: ops_of_def)
  next
    case False
    then have e: "snd (setReturnTypes tgts (Instr op cs)) = Instr op (map (snd \<circ> setReturnTypes tgts) cs)"
      by (cases op) (simp_all add: Let_def)
    have "ops_of ((snd \<circ> setReturnTypes tgts) c) = ops_of c" if "c \<in> set cs" for c
      using "1.IH" that False by (cases op) simp_all
    from getOperations_map [OF this, of cs op op] show ?thesis
      unfolding e by (simp add: ops_of_def comp_def del: getOperations.simps)
  qed
qed

lemma ops_of_setMaxRanges: "ops_of (setMaxRanges n t) = ops_of t"
proof (induction n t rule: setMaxRanges.induct)
  case (1 n op cs)
  show ?case
  proof (cases "\<exists>v rts m. op = EnumerationInstruction v rts m")
    case True
    then show ?thesis by (auto simp: ops_of_def)
  next
    case False
    then obtain op' where e: "setMaxRanges n (Instr op cs) = Instr op' (map (setMaxRanges n) cs)"
      "is_Operation op' = is_Operation op" "is_Operation op \<Longrightarrow> op' = op"
      by (cases op) simp_all
    have "ops_of (setMaxRanges n c) = ops_of c" if "c \<in> set cs" for c
      using "1.IH" that False by (cases op) simp_all
    from getOperations_map [OF this, of cs op' op] e show ?thesis
      by (simp add: ops_of_def del: getOperations.simps)
  qed
qed

lemma getOperations_setReturnTypes: "getOperations (snd (setReturnTypes tgts (Instr (RootInstruction v m) cs))) = getOperations (Instr (RootInstruction v m) cs)"
  using ops_of_setReturnTypes [of tgts "Instr (RootInstruction v m) cs"] by (simp add: ops_of_def)

lemma getOperations_setMaxRanges: "getOperations (setMaxRanges n (Instr (RootInstruction v m) cs)) = getOperations (Instr (RootInstruction v m) cs)"
  using ops_of_setMaxRanges [of n "Instr (RootInstruction v m) cs"] by (simp add: ops_of_def)

lemma setReturnTypes_root: "\<exists>cs'. snd (setReturnTypes tgts (Instr (RootInstruction v m) cs)) = Instr (RootInstruction v m) cs'"
  by simp

definition keeps_solution :: "invocation_solution \<Rightarrow> invocation_solution \<Rightarrow> bool" where
  "keeps_solution s s' \<longleftrightarrow> m_explicitOperation s' = m_explicitOperation s \<and> m_context s' = m_context s \<and>
     m_typePath s' = m_typePath s \<and> m_invocationID s' = m_invocationID s"

lemma analyseReturnTypes_root:
  assumes "analyseReturnTypes db (Instr (RootInstruction v m) cs) s = Inr s'"
  shows "\<exists>root. m_pRoot s' = Some root \<and> getOperations root = getOperations (Instr (RootInstruction v m) cs) \<and>
    (isOperationEnumeration (id_operation (m_invocationID s)) \<or> root = Instr (RootInstruction v m) cs) \<and> keeps_solution s s'"
proof -
  let ?r = "Instr (RootInstruction v m) cs"
  have ok: "getOperations (setMaxRanges n (snd (setReturnTypes tgts ?r))) = getOperations ?r" for n tgts
  proof -
    obtain cs' where "snd (setReturnTypes tgts ?r) = Instr (RootInstruction v m) cs'"
      using setReturnTypes_root [of tgts v m cs] by blast
    with getOperations_setReturnTypes [of tgts v m cs] getOperations_setMaxRanges [of n v m cs'] show ?thesis
      by (simp del: getOperations.simps setReturnTypes.simps setMaxRanges.simps)
  qed
  from assms show ?thesis
    by (auto simp: analyseReturnTypes_def Let_def bindR_eq_Inr keeps_solution_def case_prod_beta ok
        simp del: getOperations.simps setReturnTypes.simps setMaxRanges.simps split: if_splits)
qed

lemma analyseReturnTypes_operations:
  assumes "analyseReturnTypes db r s = Inr s'" and "m_returnTypes s = []"
  shows "getOperations r \<noteq> []"
proof
  assume "getOperations r = []"
  with assms show False
    by (simp add: analyseReturnTypes_def Let_def bindR_eq_Inr uniquify_without_reorder_def return_dimensions_def
      return_actions_def split: if_splits prod.splits)
qed

lemma explicit_operation_all:
  "explicit_operation ops e = Inr t \<Longrightarrow>
   (\<forall>op \<in> set ops. op_getExplicitOperationType op = Inr t) \<and> (e = HIGHEST_EXPLICIT_OPERATION_TYPE \<or> t = e)"
proof (induction ops e rule: explicit_operation.induct)
  case (2 op ops e)
  have "explicit_operation (op # ops) e = bindR (op_getExplicitOperationType op) (\<lambda>t0.
      if e = HIGHEST_EXPLICIT_OPERATION_TYPE then explicit_operation ops t0
      else if t0 \<noteq> e then Inl (InvocationException ''Conflicting operation types: '') else explicit_operation ops e)"
    by (simp only: explicit_operation.simps)
  with "2.prems" obtain t0 where t0: "op_getExplicitOperationType op = Inr t0"
    and r: "(if e = HIGHEST_EXPLICIT_OPERATION_TYPE then explicit_operation ops t0
      else if t0 \<noteq> e then Inl (InvocationException ''Conflicting operation types: '') else explicit_operation ops e) = Inr t"
    by (simp only: bindR_eq_Inr) blast
  from t0 have h: "t0 \<noteq> HIGHEST_EXPLICIT_OPERATION_TYPE"
    by (cases op) (auto split: RangeType.splits)
  show ?case
  proof (cases "e = HIGHEST_EXPLICIT_OPERATION_TYPE")
    case True
    with r have "explicit_operation ops t0 = Inr t" by simp
    from "2.IH"(1) [OF t0 True this] h t0 True show ?thesis by simp
  next
    case False
    with r have e: "t0 = e" "explicit_operation ops e = Inr t" by (simp_all split: if_splits)
    then have "\<not> t0 \<noteq> e" by simp
    from "2.IH"(2) [OF t0 False this e(2)] t0 e(1) False show ?thesis by simp
  qed
qed simp

lemma build_ambiguous_stage:
  assumes "build_ambiguous db r s = Inr s1"
  shows "\<exists>cands r2. elimination_pass (Some cands) r = Inr (eSuccess, r2) \<and> analyseReturnTypes db r2 s = Inr s1"
proof -
  from assms obtain cands e r2 where "secondStageElimination cands r = Inr (e, r2)"
    "(case e of eSuccess \<Rightarrow> analyseReturnTypes db r2 s
      | eFailure \<Rightarrow> Inl (InvocationException ''No possible derivation for: '')
      | eAmbiguous \<Rightarrow> Inl (InvocationException ''Ambiguous derivation for: '')) = Inr s1"
    by (auto simp: build_ambiguous_def Let_def bindR_eq_Inr simp del: getOperations.simps split: if_splits)
  then show ?thesis by (cases e) (auto simp: secondStageElimination_def)
qed

text \<open>What \<open>build\<close> returns: an elimination of the generated tree, whose operations it keeps.\<close>

lemma build_root:
  assumes "build db uninit nodes s = Inr s'" and "m_returnTypes s = []" and "m_explicitOperation s = HIGHEST_EXPLICIT_OPERATION_TYPE"
  shows "\<exists>v ts root. generate db uninit nodes s = Inr (Instr (RootInstruction v uninit) ts) \<and> m_pRoot s' = Some root \<and>
    getOperations root \<noteq> [] \<and> set (getOperations root) \<subseteq> set (getOperations (Instr (RootInstruction v uninit) ts)) \<and>
    (\<forall>op \<in> set (getOperations root). op_getExplicitOperationType op = Inr (m_explicitOperation s')) \<and>
    (isOperationEnumeration (id_operation (m_invocationID s)) \<or> opof root = RootInstruction v uninit \<and>
     (\<forall>S. scoped db S (Instr (RootInstruction v uninit) ts) \<longrightarrow> scoped db S root)) \<and>
    m_context s' = m_context s \<and> m_typePath s' = m_typePath s"
proof -
  from assms(1) obtain t0 e r1 s1 root t where b: "generate db uninit nodes s = Inr t0" "eliminate t0 = Inr (e, r1)"
    "(case e of eSuccess \<Rightarrow> analyseReturnTypes db r1 s
      | eFailure \<Rightarrow> Inl (InvocationException ''No possible derivation for: '')
      | eAmbiguous \<Rightarrow> build_ambiguous db r1 s) = Inr s1"
    "m_pRoot s1 = Some root" "explicit_operation (getOperations root) (m_explicitOperation s1) = Inr t"
    "s' = s1\<lparr>m_explicitOperation := t\<rparr>"
    by (auto simp: build_def bindR_eq_Inr simp del: getOperations.simps split: option.splits)
  from b(1) obtain v ts where t0: "t0 = Instr (RootInstruction v uninit) ts"
    by (auto simp: generate_def Let_def bindR_eq_Inr)
  have p: "elimination_pass None t0 = Inr (e, r1)" using b(2) by (simp add: eliminate_def)
  note r1 = elimination_pass_opof [OF p] elimination_operations(1) [OF p] elimination_scoped(1) [OF p]
  obtain r2 where r2: "analyseReturnTypes db r2 s = Inr s1" "opof r2 = opof t0"
    "set (getOperations r2) \<subseteq> set (getOperations t0)" "\<And>S. scoped db S t0 \<Longrightarrow> scoped db S r2"
  proof (cases e)
    case eAmbiguous
    with b(3) obtain cands r2 where q: "elimination_pass (Some cands) r1 = Inr (eSuccess, r2)" "analyseReturnTypes db r2 s = Inr s1"
      using build_ambiguous_stage [of db r1 s s1] by auto
    from elimination_pass_opof [OF q(1)] elimination_operations(1) [OF q(1)] elimination_scoped(1) [OF q(1)] r1 q(2)
    show ?thesis by (intro that [of r2]) auto
  qed (use b(3) r1 that in auto)
  then obtain cs where cs: "r2 = Instr (RootInstruction v uninit) cs" using t0 by (cases r2) auto
  from analyseReturnTypes_root [OF r2(1) [unfolded cs]] b(4) cs have
    root: "getOperations root = getOperations r2" "isOperationEnumeration (id_operation (m_invocationID s)) \<or> root = r2"
      "keeps_solution s s1" by (auto simp del: getOperations.simps)
  have "getOperations root \<noteq> []" using analyseReturnTypes_operations [OF r2(1) assms(2)] root(1) by simp
  moreover have "\<forall>op \<in> set (getOperations root). op_getExplicitOperationType op = Inr (m_explicitOperation s')"
    using explicit_operation_all [OF b(5)] b(6) by simp
  moreover have "set (getOperations root) \<subseteq> set (getOperations (Instr (RootInstruction v uninit) ts))"
    using r2(3) root(1) t0 by simp
  ultimately show ?thesis using b(1,4,6) t0 r2(2,4) root(2,3)
    by (auto simp: keeps_solution_def simp del: getOperations.simps scoped.simps)
qed

lemma constructInvocation_typePath:
  "constructInvocation db da invocationID implicitTypePath = Inr s \<Longrightarrow>
   [] \<notin> set (m_typePath s) \<and> m_returnTypes s = [] \<and> m_explicitOperation s = HIGHEST_EXPLICIT_OPERATION_TYPE \<and>
   m_invocationID s = invocationID"
  by (auto simp: constructInvocation_def new_solution_def bindR_eq_Inr mapR_Inr_conv list_all2_conv_all_nth in_set_conv_nth
      split: if_splits)

lemma getInvocation_new:
  assumes "getInvocation db da addr uninit invocationID implicitTypePath m = Inr (s, m')" and "m invocationID = None"
  shows "\<exists>s0 nodes. constructInvocation db da invocationID implicitTypePath = Inr s0 \<and>
    reads db da (m_context s0) (m_typePath s0) nodes \<and> build db uninit nodes s0 = Inr s \<and> m' = m(invocationID \<mapsto> s)"
proof -
  from assms obtain s0 nodes where b: "constructInvocation db da invocationID implicitTypePath = Inr s0"
    "NameResolution db da addr (id_operation invocationID) (m_context s0) (m_typePath s0) = Inr nodes"
    "build db uninit nodes s0 = Inr s" "m' = m(invocationID \<mapsto> s)"
    by (auto simp: getInvocation_def bindR_eq_Inr)
  with NameResolution_reads(1) [OF b(2)] constructInvocation_typePath [OF b(1)] show ?thesis by blast
qed

lemma generate_scoped:
  assumes "generate db uninit nodes s = Inr (Instr (RootInstruction v uninit) ts)"
    and "\<not> isOperationEnumeration (id_operation (m_invocationID s))" and "ts \<noteq> []"
  shows "v_addr v = 0 \<and> scoped db {0} (Instr (RootInstruction v uninit) ts)"
proof -
  let ?v = "ContextVariable 0 None (map snd (m_context s))"
  from assms(1,2,3) obtain n where g: "GenericOperationVisitor db nodes (id_operation (m_invocationID s)) (map snd (m_context s)) ?v 1 = Inr (ts, n)"
    "v = ?v"
  proof (cases "id_operation (m_invocationID s) = HIGHEST_OPERATION_TYPE")
    case True
    with assms(1,3) show ?thesis by (simp add: generate_def Let_def)
  next
    case False
    with assms(1,2) have "bindR (GenericOperationVisitor db nodes (id_operation (m_invocationID s)) (map snd (m_context s)) ?v 1)
        (\<lambda>(ts, n). Inr (Instr (RootInstruction ?v uninit) ts)) = Inr (Instr (RootInstruction v uninit) ts)"
      by (simp only: generate_def Let_def if_False)
    then show ?thesis by (auto simp: bindR_eq_Inr intro: that)
  qed
  have "built db {0} ts" by (rule GenericOperationVisitor_built [OF g(1)]) auto
  with g(2) show ?thesis by (simp add: built_def)
qed

text \<open>A tree without links that are written.\<close>

fun is_write_link :: "instr_op \<Rightarrow> bool" where
  "is_write_link (WriteLinkOperation v i c g) = True"
| "is_write_link _ = False"

definition no_write_link :: "instruction \<Rightarrow> bool" where
  "no_write_link t \<longleftrightarrow> (\<forall>op \<in> set (ops_of t). \<not> is_write_link op)"

lemma no_write_link_operation: "no_write_link (Instr (WriteLinkOperation v i c g) cs) \<longleftrightarrow> False"
  by (simp add: no_write_link_def ops_of_def)

lemma no_write_link_children:
  "no_write_link (Instr op cs) \<Longrightarrow> \<not> is_Operation op \<Longrightarrow> c \<in> set cs \<Longrightarrow> no_write_link c"
  unfolding no_write_link_def ops_of_def [of "Instr op cs"] by (simp add: getOperations_ops_of del: getOperations.simps)

lemma clean_exec_ok: "scoped db S t \<Longrightarrow> clean t \<Longrightarrow> no_write_link t \<Longrightarrow> exec_ok db S t"
proof (induction db S t rule: scoped.induct)
  case (1 db S op cs)
  show ?case
  proof (cases "is_Operation op")
    case True
    with "1.prems" show ?thesis by (cases op) (auto simp: no_write_link_operation)
  next
    case False
    have "no_write_link c" if "c \<in> set cs" for c using no_write_link_children [OF "1.prems"(3) False that] .
    with False "1.prems" "1.IH" show ?thesis by (cases op) (simp_all add: is_marker_def)
  qed
qed

section \<open>Operations on what a reference refers to\<close>

definition chain_op :: "instr_op \<Rightarrow> bool" where
  "chain_op op \<longleftrightarrow> op \<noteq> EliminationInstruction \<and> op \<noteq> PruneInstruction"

lemma chain_op_simps [simp]:
  "chain_op (ParentDerivationInstruction f t)" "chain_op (ChildDerivationInstruction f t)" "chain_op FailureInstruction"
  by (simp_all add: chain_op_def)






lemma build_children_one [simp]: "build_children f [c] n = bindR (f c n) (\<lambda>(t, n). Inr (t, n))"
  by (cases "f c n") (auto simp: build_children_def)




section \<open>The properties\<close>

definition start_id :: invocation_id where
  "start_id = \<lparr>id_context = [1], id_typePath = [[2]], id_operation = id_Start\<rparr>"

definition start_root :: instruction where
  "start_root =
     (let v = ContextVariable 0 None [4]; r = InstanceVariable 1 (Some v) 4
      in Instr (RootInstruction v 0) [Instr (MonomorphicReferenceInstruction v r) [Instr (StartOperation r 2 5) []]])"

lemma start_sample:
  "\<exists>s m'. getInvocation names_sample names_analysis id 0 start_id [] Map.empty = Inr (s, m') \<and> m_pRoot s = Some start_root"
proof -
  have "case getInvocation names_sample names_analysis id 0 start_id [] Map.empty of
      Inl _ \<Rightarrow> False | Inr (s, m') \<Rightarrow> m_pRoot s = Some start_root"
    by code_simp
  then show ?thesis by (auto split: sum.splits prod.splits)
qed



text \<open>C4. A compiled invocation has operations, of one explicit operation type, and each is for the element
  at the end of a reading of its type path.\<close>

theorem getInvocation_targets:
  assumes "getInvocation db da addr uninit invocationID implicitTypePath m = Inr (s, m')" and "m invocationID = None"
  shows "\<exists>root. m_pRoot s = Some root \<and> getOperations root \<noteq> [] \<and>
    (\<forall>op \<in> set (getOperations root). op_getExplicitOperationType op = Inr (m_explicitOperation s) \<and>
      (\<exists>ls. reading db da (m_context s) (m_typePath s) ls \<and> op_target op = Some (last ls)))"
proof -
  from getInvocation_new [OF assms] obtain s0 nodes where
    n: "constructInvocation db da invocationID implicitTypePath = Inr s0" "reads db da (m_context s0) (m_typePath s0) nodes"
      "build db uninit nodes s0 = Inr s" by blast
  note s0 = constructInvocation_typePath [OF n(1)]
  from build_root [OF n(3)] s0 obtain v ts root where
    r: "generate db uninit nodes s0 = Inr (Instr (RootInstruction v uninit) ts)" "m_pRoot s = Some root" "getOperations root \<noteq> []"
      "set (getOperations root) \<subseteq> set (getOperations (Instr (RootInstruction v uninit) ts))"
      "\<forall>op \<in> set (getOperations root). op_getExplicitOperationType op = Inr (m_explicitOperation s)"
      "m_context s = m_context s0" "m_typePath s = m_typePath s0" by (auto simp del: getOperations.simps)
  have "\<exists>ls. reading db da (m_context s) (m_typePath s) ls \<and> op_target op = Some (last ls)" if "op \<in> set (getOperations root)" for op
  proof -
    from n(2) have ok: "tree_ok nodes" "nm_element (nodes ! 0) = None" by (simp_all add: reads_def)
    from generate_reaches [OF r(1) ok(1)] r(4) that obtain ls where
      ls: "name_path nodes 0 ls" "op_target op = last (nm_element (nodes ! 0) # map Some ls)"
      by (auto simp: reaches_def simp del: getOperations.simps)
    from n(2) ls(1) have rd: "reading db da (m_context s) (m_typePath s) ls" using r(6,7) by (simp add: reads_def)
    with ls(2) reading_not_Nil [OF rd] show ?thesis by (auto simp: last_map)
  qed
  with r(2,3,5) show ?thesis by blast
qed

theorem getInvocation_targets_witness:
  "\<exists>s m' ls. getInvocation names_sample names_analysis id 0 start_id [] Map.empty = Inr (s, m') \<and>
    m_pRoot s = Some start_root \<and> m_explicitOperation s = id_exp_Start \<and>
    reading names_sample names_analysis (m_context s) (m_typePath s) ls \<and> last ls = (2, 5)"
proof -
  from start_sample obtain s m' where s: "getInvocation names_sample names_analysis id 0 start_id [] Map.empty = Inr (s, m')"
    "m_pRoot s = Some start_root" by blast
  from getInvocation_targets [OF s(1)] s(2) have
    "\<forall>op \<in> set (getOperations start_root). op_getExplicitOperationType op = Inr (m_explicitOperation s) \<and>
      (\<exists>ls. reading names_sample names_analysis (m_context s) (m_typePath s) ls \<and> op_target op = Some (last ls))" by auto
  moreover have "getOperations start_root = [StartOperation (InstanceVariable 1 (Some (ContextVariable 0 None [4])) 4) 2 5]"
    by (simp add: start_root_def Let_def)
  ultimately obtain ls where "m_explicitOperation s = id_exp_Start" "(2, 5) = last ls"
    "reading names_sample names_analysis (m_context s) (m_typePath s) ls" by auto
  with s show ?thesis by (intro exI [of _ s] exI [of _ m'] exI [of _ ls]) simp
qed

text \<open>C5. Evaluating a compiled invocation of an operation on instances reads every variable after it was
  assigned: it makes exactly one call on the component interop, except that a branch throws on a reference of
  a type it has no case for. Excluded are enumerations, solutions in which the elimination left a failure, an
  elimination or a prune instruction, and solutions that write a link, whose evaluation throws. The
  dereferencing of a dimension is assumed to return, the tree of the actions to be well-formed.\<close>

theorem getInvocation_evaluates:
  assumes "getInvocation db da addr uninit invocationID implicitTypePath m = Inr (s, m')" and "m invocationID = None"
    and "wf_concrete db" and "\<And>a d. \<exists>r. deref a d = Inr r" and "\<not> isOperationEnumeration (id_operation invocationID)"
    and "m_pRoot s = Some root" and "clean root" and "no_write_link root"
  shows "(\<exists>ev' c. Solution_evaluate db deref root ctx ev = Inr ev' \<and> calls ev' = calls ev @ [c]) \<or>
    Solution_evaluate db deref root ctx ev = Inl (RuntimeError ''Error handling needed here...'')"
proof -
  from getInvocation_new [OF assms(1,2)] obtain s0 nodes where
    n: "constructInvocation db da invocationID implicitTypePath = Inr s0" "build db uninit nodes s0 = Inr s" by blast
  note s0 = constructInvocation_typePath [OF n(1)]
  from build_root [OF n(2)] s0 assms(5,6) obtain v ts where
    r: "generate db uninit nodes s0 = Inr (Instr (RootInstruction v uninit) ts)" "getOperations root \<noteq> []"
      "set (getOperations root) \<subseteq> set (getOperations (Instr (RootInstruction v uninit) ts))"
      "opof root = RootInstruction v uninit" "\<forall>S. scoped db S (Instr (RootInstruction v uninit) ts) \<longrightarrow> scoped db S root"
    by (auto simp del: getOperations.simps scoped.simps)
  from r(2,3) have "ts \<noteq> []" by auto
  from generate_scoped [OF r(1) _ this] s0 assms(5) r(5) have v: "v_addr v = 0" "scoped db {0} root" by simp_all
  obtain cs where cs: "root = Instr (RootInstruction v uninit) cs" using r(4) by (cases root) auto
  have ok: "exec_ok db {0} root" using clean_exec_ok [OF v(2) assms(7,8)] .
  let ?ev = "ev\<lparr>m_variables := [0 \<mapsto> ctx]\<rparr>"
  have "Solution_evaluate db deref root ctx ev = evaluate db deref root ?ev"
    using cs v(1) by (simp add: Solution_evaluate_def setVarValue_def initialise_def)
  moreover have "calls_once ?ev (evaluate db deref root ?ev)"
    using assms(3,4) ok by (intro evaluate_ok(1)) simp_all
  ultimately show ?thesis by (auto simp: calls_once_def split: sum.splits)
qed

theorem getInvocation_evaluates_witness:
  "\<exists>ev' c. Solution_evaluate names_sample EGRuntime_dereferenceDimension start_root (mk_ref 9 7 1)
      \<lparr>m_variables = Map.empty, calls = []\<rparr> = Inr ev' \<and> calls ev' = [] @ [c]"
proof -
  from start_sample obtain s m' where s: "getInvocation names_sample names_analysis id 0 start_id [] Map.empty = Inr (s, m')"
    "m_pRoot s = Some start_root" by blast
  have "wf_concrete names_sample" "clean start_root" "no_write_link start_root" by code_simp+
  with getInvocation_evaluates [OF s(1) _ _ _ _ s(2), of EGRuntime_dereferenceDimension "mk_ref 9 7 1" "\<lparr>m_variables = Map.empty, calls = []\<rparr>"]
  have e: "(\<exists>ev' c. Solution_evaluate names_sample EGRuntime_dereferenceDimension start_root (mk_ref 9 7 1)
      \<lparr>m_variables = Map.empty, calls = []\<rparr> = Inr ev' \<and> calls ev' = [c]) \<or>
    Solution_evaluate names_sample EGRuntime_dereferenceDimension start_root (mk_ref 9 7 1)
      \<lparr>m_variables = Map.empty, calls = []\<rparr> = Inl (RuntimeError ''Error handling needed here...'')"
    by (simp add: EGRuntime_dereferenceDimension_def start_id_def)
  have "Solution_evaluate names_sample EGRuntime_dereferenceDimension start_root (mk_ref 9 7 1)
      \<lparr>m_variables = Map.empty, calls = []\<rparr> \<noteq> Inl (RuntimeError ''Error handling needed here...'')"
    by (simp add: start_root_def Let_def Solution_evaluate_def initialise_def setVarValue_def
      MonomorphicReference_evaluate_def getVarValue_def interop_def)
  with e show ?thesis by auto
qed

text \<open>The map of the solutions only grows, and a second request with the same id returns the very
  solution of the first, whatever the other arguments are.\<close>

theorem getInvocation_cached:
  assumes "getInvocation db da addr uninit invocationID implicitTypePath m = Inr (s, m')"
  shows "m \<subseteq>\<^sub>m m' \<and> dom m' = insert invocationID (dom m) \<and>
    getInvocation db' da' addr' uninit' invocationID implicitTypePath' m' = Inr (s, m')"
proof (cases "m invocationID")
  case None
  with getInvocation_new [OF assms] obtain "m' = m(invocationID \<mapsto> s)" by blast
  with None show ?thesis by (auto simp: map_le_def getInvocation_def)
next
  case (Some s0)
  with assms show ?thesis by (auto simp: getInvocation_def)
qed

theorem getInvocation_cached_witness:
  "\<exists>s m'. getInvocation names_sample names_analysis id 0 start_id [] Map.empty = Inr (s, m') \<and> dom m' = {start_id} \<and>
    getInvocation [] no_analysis id 1 start_id [5] m' = Inr (s, m')"
proof -
  from start_sample obtain s m' where s: "getInvocation names_sample names_analysis id 0 start_id [] Map.empty = Inr (s, m')" by blast
  from getInvocation_cached [OF s, of "[]" no_analysis id 1 "[5]"] s show ?thesis by auto
qed






end
