(* ===== verification/Scheduler.thy ===== *)
theory Scheduler
  imports EGCommon OrderedMultimap "HOL-Library.Product_Lexorder"
begin

text \<open>
  The scheduler of \<open>api/eg/basic_scheduler.cpp\<close>. The nodes of its containers carry numbers, as iterators
  compare by node; an iterator that is used after its node was erased gives \<open>UndefinedBehaviour\<close>. The three
  lists and the two event maps are selected by an index, as the code selects them by reference. The
  actions and the stoppers are generated code: a run of a coroutine is the list of the calls it makes on
  the scheduler and the reason it returns, and a stopper is the list of the calls it makes.
\<close>

section \<open>The state\<close>

datatype list_id = ListOne | ListTwo | ListThree

instantiation list_id :: enum
begin

definition enum_list_id :: "list_id list" where
  "enum_list_id = [ListOne, ListTwo, ListThree]"

definition enum_all_list_id :: "(list_id \<Rightarrow> bool) \<Rightarrow> bool" where
  "enum_all_list_id P \<longleftrightarrow> P ListOne \<and> P ListTwo \<and> P ListThree"

definition enum_ex_list_id :: "(list_id \<Rightarrow> bool) \<Rightarrow> bool" where
  "enum_ex_list_id P \<longleftrightarrow> P ListOne \<or> P ListTwo \<or> P ListThree"

lemma UNIV_list_id: "UNIV = {ListOne, ListTwo, ListThree}"
  using list_id.exhaust by auto

instance
  by standard (simp_all only: enum_list_id_def enum_all_list_id_def enum_ex_list_id_def UNIV_list_id, simp_all)

end

datatype event_map = Events_wait | Events_sleep

datatype SleepSwapState = eState_A_W_S | eState_A_S_W | eState_W_A_S | eState_W_S_A | eState_S_A_W | eState_S_W_A

record active_action =
  aa_ref :: reference
  aa_pStopper :: nat
  aa_op :: "nat option"
  aa_coroutine :: "bool option"
  aa_iter :: "list_id \<Rightarrow> nat option"
  iter_timeout :: "nat option"
  iter_pause :: "nat option"
  iter_event_ref :: "nat list"
  bWaitAny :: bool
  aa_events :: "reference list"

record scheduler =
  m_actions :: "(reference \<times> nat) list"
  s_objects :: "nat \<rightharpoonup> active_action"
  m_lists :: "list_id \<Rightarrow> (nat \<times> nat) list"
  m_paused :: "(nat \<times> nat) list"
  m_timeouts :: "(int \<times> nat \<times> nat) list"
  m_events :: "event_map \<Rightarrow> (reference \<times> nat \<times> nat) list"
  m_pCurrentAction :: "nat option"
  m_sleepState :: SleepSwapState
  s_next :: nat
  s_stopped :: "(nat \<times> Instance) list"

definition new_scheduler :: scheduler where
  "new_scheduler = \<lparr>m_actions = [], s_objects = Map.empty, m_lists = (\<lambda>_. []), m_paused = [], m_timeouts = [],
     m_events = (\<lambda>_. []), m_pCurrentAction = None, m_sleepState = eState_A_W_S, s_next = 0, s_stopped = []\<rparr>"

definition new_action :: "reference \<Rightarrow> nat \<Rightarrow> nat option \<Rightarrow> active_action" where
  "new_action ref pStopper action =
     \<lparr>aa_ref = ref, aa_pStopper = pStopper, aa_op = action, aa_coroutine = None, aa_iter = (\<lambda>_. None), iter_timeout = None,
      iter_pause = None, iter_event_ref = [], bWaitAny = True, aa_events = []\<rparr>"

section \<open>The rotation of the lists\<close>

fun getActiveIter :: "SleepSwapState \<Rightarrow> list_id" where
  "getActiveIter eState_A_W_S = ListOne"
| "getActiveIter eState_A_S_W = ListOne"
| "getActiveIter eState_W_A_S = ListTwo"
| "getActiveIter eState_W_S_A = ListThree"
| "getActiveIter eState_S_A_W = ListTwo"
| "getActiveIter eState_S_W_A = ListThree"

fun getWaitIter :: "SleepSwapState \<Rightarrow> list_id" where
  "getWaitIter eState_A_W_S = ListTwo"
| "getWaitIter eState_A_S_W = ListThree"
| "getWaitIter eState_W_A_S = ListOne"
| "getWaitIter eState_W_S_A = ListOne"
| "getWaitIter eState_S_A_W = ListThree"
| "getWaitIter eState_S_W_A = ListTwo"

fun getSleepIter :: "SleepSwapState \<Rightarrow> list_id" where
  "getSleepIter eState_A_W_S = ListThree"
| "getSleepIter eState_A_S_W = ListTwo"
| "getSleepIter eState_W_A_S = ListThree"
| "getSleepIter eState_W_S_A = ListTwo"
| "getSleepIter eState_S_A_W = ListOne"
| "getSleepIter eState_S_W_A = ListOne"

fun swap_active_sleep :: "SleepSwapState \<Rightarrow> SleepSwapState" where
  "swap_active_sleep eState_A_W_S = eState_S_W_A"
| "swap_active_sleep eState_A_S_W = eState_S_A_W"
| "swap_active_sleep eState_W_A_S = eState_W_S_A"
| "swap_active_sleep eState_W_S_A = eState_W_A_S"
| "swap_active_sleep eState_S_A_W = eState_A_S_W"
| "swap_active_sleep eState_S_W_A = eState_A_W_S"

fun swap_active_wait :: "SleepSwapState \<Rightarrow> SleepSwapState" where
  "swap_active_wait eState_A_W_S = eState_W_A_S"
| "swap_active_wait eState_A_S_W = eState_W_S_A"
| "swap_active_wait eState_W_A_S = eState_A_W_S"
| "swap_active_wait eState_W_S_A = eState_A_S_W"
| "swap_active_wait eState_S_A_W = eState_S_W_A"
| "swap_active_wait eState_S_W_A = eState_S_A_W"

fun getActive :: "SleepSwapState \<Rightarrow> list_id" where
  "getActive eState_A_W_S = ListOne"
| "getActive eState_A_S_W = ListOne"
| "getActive eState_W_A_S = ListTwo"
| "getActive eState_W_S_A = ListThree"
| "getActive eState_S_A_W = ListTwo"
| "getActive eState_S_W_A = ListThree"

fun getWaiting :: "SleepSwapState \<Rightarrow> list_id" where
  "getWaiting eState_A_W_S = ListTwo"
| "getWaiting eState_A_S_W = ListThree"
| "getWaiting eState_W_A_S = ListOne"
| "getWaiting eState_W_S_A = ListOne"
| "getWaiting eState_S_A_W = ListThree"
| "getWaiting eState_S_W_A = ListTwo"

fun getSleeping :: "SleepSwapState \<Rightarrow> list_id" where
  "getSleeping eState_A_W_S = ListThree"
| "getSleeping eState_A_S_W = ListTwo"
| "getSleeping eState_W_A_S = ListThree"
| "getSleeping eState_W_S_A = ListTwo"
| "getSleeping eState_S_A_W = ListOne"
| "getSleeping eState_S_W_A = ListOne"

definition swapActiveSleep :: "scheduler \<Rightarrow> scheduler" where
  "swapActiveSleep s = s\<lparr>m_sleepState := swap_active_sleep (m_sleepState s)\<rparr>"

definition swapActiveWait :: "scheduler \<Rightarrow> scheduler" where
  "swapActiveWait s = s\<lparr>m_sleepState := swap_active_wait (m_sleepState s)\<rparr>"

section \<open>Entering and leaving the containers\<close>

text \<open>\<open>iter->second\<close> and the members read through it.\<close>

definition deref :: "scheduler \<Rightarrow> nat \<Rightarrow> active_action result" where
  "deref s a = (if a \<in> snd ` set (m_actions s) then of_option UndefinedBehaviour (s_objects s a) else Inl UndefinedBehaviour)"

definition put :: "nat \<Rightarrow> active_action \<Rightarrow> scheduler \<Rightarrow> scheduler" where
  "put a act s = s\<lparr>s_objects := (s_objects s)(a \<mapsto> act)\<rparr>"

definition list_insert :: "list_id \<Rightarrow> list_id \<Rightarrow> nat \<Rightarrow> scheduler \<Rightarrow> scheduler result" where
  "list_insert i l a s =
     bindR (deref s a) (\<lambda>act.
       Inr (put a (act\<lparr>aa_iter := (aa_iter act)(i \<mapsto> s_next s)\<rparr>)
         (s\<lparr>m_lists := (m_lists s)(l := m_lists s l @ [(s_next s, a)]), s_next := Suc (s_next s)\<rparr>)))"

definition list_remove :: "list_id \<Rightarrow> list_id \<Rightarrow> nat \<Rightarrow> scheduler \<Rightarrow> scheduler result" where
  "list_remove i l a s =
     bindR (deref s a) (\<lambda>act.
       case aa_iter act i of
         None \<Rightarrow> Inr s
       | Some n \<Rightarrow>
           if n \<in> fst ` set (m_lists s l) then
             Inr (put a (act\<lparr>aa_iter := (aa_iter act)(i := None)\<rparr>)
               (s\<lparr>m_lists := (m_lists s)(l := filter (\<lambda>e. fst e \<noteq> n) (m_lists s l))\<rparr>))
           else Inl UndefinedBehaviour)"

definition active_insert :: "nat \<Rightarrow> scheduler \<Rightarrow> scheduler result" where
  "active_insert a s = list_insert (getActiveIter (m_sleepState s)) (getActive (m_sleepState s)) a s"

definition active_remove :: "nat \<Rightarrow> scheduler \<Rightarrow> scheduler result" where
  "active_remove a s = list_remove (getActiveIter (m_sleepState s)) (getActive (m_sleepState s)) a s"

definition wait_insert :: "nat \<Rightarrow> scheduler \<Rightarrow> scheduler result" where
  "wait_insert a s = list_insert (getWaitIter (m_sleepState s)) (getWaiting (m_sleepState s)) a s"

definition wait_remove :: "nat \<Rightarrow> scheduler \<Rightarrow> scheduler result" where
  "wait_remove a s = list_remove (getWaitIter (m_sleepState s)) (getWaiting (m_sleepState s)) a s"

definition sleep_insert :: "nat \<Rightarrow> scheduler \<Rightarrow> scheduler result" where
  "sleep_insert a s = list_insert (getSleepIter (m_sleepState s)) (getSleeping (m_sleepState s)) a s"

definition sleep_remove :: "nat \<Rightarrow> scheduler \<Rightarrow> scheduler result" where
  "sleep_remove a s = list_remove (getSleepIter (m_sleepState s)) (getSleeping (m_sleepState s)) a s"

definition pause_insert :: "nat \<Rightarrow> scheduler \<Rightarrow> scheduler result" where
  "pause_insert a s =
     bindR (deref s a) (\<lambda>act.
       Inr (put a (act\<lparr>iter_pause := Some (s_next s)\<rparr>)
         (s\<lparr>m_paused := m_paused s @ [(s_next s, a)], s_next := Suc (s_next s)\<rparr>)))"

definition pause_remove :: "nat \<Rightarrow> scheduler \<Rightarrow> scheduler result" where
  "pause_remove a s =
     bindR (deref s a) (\<lambda>act.
       case iter_pause act of
         None \<Rightarrow> Inr s
       | Some n \<Rightarrow>
           if n \<in> fst ` set (m_paused s) then
             Inr (put a (act\<lparr>iter_pause := None\<rparr>) (s\<lparr>m_paused := filter (\<lambda>e. fst e \<noteq> n) (m_paused s)\<rparr>))
           else Inl UndefinedBehaviour)"

definition timeout_insert :: "nat \<Rightarrow> int \<Rightarrow> scheduler \<Rightarrow> scheduler result" where
  "timeout_insert a timeout s =
     bindR (deref s a) (\<lambda>act.
       Inr (put a (act\<lparr>iter_timeout := Some (s_next s)\<rparr>)
         (s\<lparr>m_timeouts := mm_insert id timeout (s_next s, a) (m_timeouts s), s_next := Suc (s_next s)\<rparr>)))"

definition timeout_remove :: "nat \<Rightarrow> scheduler \<Rightarrow> scheduler result" where
  "timeout_remove a s =
     bindR (deref s a) (\<lambda>act.
       case iter_timeout act of
         None \<Rightarrow> Inr s
       | Some n \<Rightarrow>
           if n \<in> (fst \<circ> snd) ` set (m_timeouts s) then
             Inr (put a (act\<lparr>iter_timeout := None\<rparr>) (s\<lparr>m_timeouts := filter (\<lambda>e. fst (snd e) \<noteq> n) (m_timeouts s)\<rparr>))
           else Inl UndefinedBehaviour)"

section \<open>Events\<close>

text \<open>The order of the keys, which \<open>operator<\<close> of references decides.\<close>

definition ref_key :: "reference \<Rightarrow> Instance \<times> TypeID \<times> TimeStamp" where
  "ref_key r = (inst r, tid r, timestamp r)"

definition event_nodes :: "(reference \<times> nat \<times> nat) list \<Rightarrow> nat list" where
  "event_nodes m = map (fst \<circ> snd) m"

definition event_insert :: "event_map \<Rightarrow> nat \<Rightarrow> reference \<Rightarrow> scheduler \<Rightarrow> scheduler result" where
  "event_insert e a ev s =
     bindR (deref s a) (\<lambda>act.
       Inr (put a (act\<lparr>iter_event_ref := iter_event_ref act @ [s_next s]\<rparr>)
         (s\<lparr>m_events := (m_events s)(e := mm_insert ref_key ev (s_next s, a) (m_events s e)), s_next := Suc (s_next s)\<rparr>)))"

fun event_erase :: "event_map \<Rightarrow> nat list \<Rightarrow> scheduler \<Rightarrow> scheduler result" where
  "event_erase e [] s = Inr s"
| "event_erase e (n # ns) s =
     (if n \<in> set (event_nodes (m_events s e)) then
        event_erase e ns (s\<lparr>m_events := (m_events s)(e := filter (\<lambda>x. fst (snd x) \<noteq> n) (m_events s e))\<rparr>)
      else Inl UndefinedBehaviour)"

definition event_remove :: "event_map \<Rightarrow> nat \<Rightarrow> scheduler \<Rightarrow> scheduler result" where
  "event_remove e a s =
     bindR (deref s a) (\<lambda>act.
     bindR (event_erase e (iter_event_ref act) s) (\<lambda>s.
       Inr (put a (act\<lparr>iter_event_ref := []\<rparr>) s)))"

text \<open>Iterators into an event map: \<open>None\<close> is \<open>end()\<close>.\<close>

definition valid_iter :: "(reference \<times> nat \<times> nat) list \<Rightarrow> nat option \<Rightarrow> bool" where
  "valid_iter m i = (case i of None \<Rightarrow> True | Some n \<Rightarrow> n \<in> set (event_nodes m))"

definition lower_bound :: "(reference \<times> nat \<times> nat) list \<Rightarrow> reference \<Rightarrow> nat option" where
  "lower_bound m ref = map_option (fst \<circ> snd) (find (\<lambda>x. \<not> ref_key (fst x) < ref_key ref) m)"

definition upper_bound :: "(reference \<times> nat \<times> nat) list \<Rightarrow> reference \<Rightarrow> nat option" where
  "upper_bound m ref = map_option (fst \<circ> snd) (find (\<lambda>x. ref_key ref < ref_key (fst x)) m)"

definition next_iter :: "(reference \<times> nat \<times> nat) list \<Rightarrow> nat \<Rightarrow> nat option" where
  "next_iter m n =
     (case dropWhile (\<lambda>x. fst (snd x) \<noteq> n) m of
        x # y # xs \<Rightarrow> Some (fst (snd y))
      | _ \<Rightarrow> None)"

definition on_event_entry :: "event_map \<Rightarrow> reference \<Rightarrow> nat \<Rightarrow> scheduler \<Rightarrow> scheduler result" where
  "on_event_entry e ref n s =
     bindR (of_option UndefinedBehaviour (find (\<lambda>x. fst (snd x) = n) (m_events s e))) (\<lambda>(r, n, a).
     bindR (deref s a) (\<lambda>act.
       if n \<in> set (iter_event_ref act) then
         let act = act\<lparr>iter_event_ref := remove1 n (iter_event_ref act), aa_events := aa_events act @ [ref]\<rparr>;
             s = put a act s
         in if iter_event_ref act = [] \<or> bWaitAny act
            then bindR (event_remove e a s) (active_insert a)
            else Inr s
       else Inr s))"

fun on_event_loop :: "nat \<Rightarrow> event_map \<Rightarrow> reference \<Rightarrow> nat option \<Rightarrow> nat option \<Rightarrow> scheduler \<Rightarrow> scheduler result" where
  "on_event_loop 0 e ref iterEvent iUpper s = Inl OutOfFuel"
| "on_event_loop (Suc k) e ref iterEvent iUpper s =
     (if \<not> valid_iter (m_events s e) iUpper then Inl UndefinedBehaviour
      else if iterEvent = iUpper then Inr s
      else case iterEvent of
        None \<Rightarrow> Inl UndefinedBehaviour
      | Some n \<Rightarrow>
          bindR (on_event_entry e ref n s) (\<lambda>s.
            if n \<in> set (event_nodes (m_events s e)) then on_event_loop k e ref (next_iter (m_events s e) n) iUpper s
            else Inl UndefinedBehaviour))"

definition erase_range :: "(reference \<times> nat \<times> nat) list \<Rightarrow> nat option \<Rightarrow> nat option \<Rightarrow> (reference \<times> nat \<times> nat) list" where
  "erase_range m iLower iUpper =
     takeWhile (\<lambda>x. Some (fst (snd x)) \<noteq> iLower) m @
     dropWhile (\<lambda>x. Some (fst (snd x)) \<noteq> iUpper) (dropWhile (\<lambda>x. Some (fst (snd x)) \<noteq> iLower) m)"

definition on_event :: "event_map \<Rightarrow> reference \<Rightarrow> scheduler \<Rightarrow> scheduler result" where
  "on_event e ref s =
     (let iLower = lower_bound (m_events s e) ref; iUpper = upper_bound (m_events s e) ref
      in bindR (on_event_loop (Suc (length (m_events s e))) e ref iLower iUpper s) (\<lambda>s.
         if valid_iter (m_events s e) iLower \<and> valid_iter (m_events s e) iUpper then
           Inr (s\<lparr>m_events := (m_events s)(e := erase_range (m_events s e) iLower iUpper)\<rparr>)
         else Inl UndefinedBehaviour))"

section \<open>The calls on the scheduler\<close>

text \<open>\<open>ReferenceHash\<close>. The hash map compares the hash and then the references: two null references, which
  \<open>operator==\<close> identifies, are different keys when their hashes differ.\<close>

definition ReferenceHash :: "reference \<Rightarrow> 32 word" where
  "ReferenceHash ref = inst ref * 1024 + word_of_int (tid ref)"

definition same_key :: "reference \<Rightarrow> reference \<Rightarrow> bool" where
  "same_key a b \<longleftrightarrow> ReferenceHash a = ReferenceHash b \<and> reference_eq a b"

definition find_action :: "reference \<Rightarrow> scheduler \<Rightarrow> nat option" where
  "find_action ref s = map_option snd (find (\<lambda>x. same_key (fst x) ref) (m_actions s))"

text \<open>\<open>new ActiveAction\<close> and \<open>m_actions.insert\<close>; \<open>None\<close> when the reference is in the map.\<close>

definition insert_action :: "reference \<Rightarrow> nat \<Rightarrow> nat option \<Rightarrow> scheduler \<Rightarrow> (nat \<times> scheduler) option" where
  "insert_action ref pStopper action s =
     (if find_action ref s = None then
        Some (s_next s, s\<lparr>m_actions := m_actions s @ [(ref, s_next s)],
          s_objects := (s_objects s)(s_next s \<mapsto> new_action ref pStopper action), s_next := Suc (s_next s)\<rparr>)
      else None)"

definition allocated :: "reference \<Rightarrow> nat \<Rightarrow> scheduler \<Rightarrow> scheduler" where
  "allocated ref pStopper s = (case insert_action ref pStopper None s of None \<Rightarrow> s | Some (a, s') \<Rightarrow> s')"

definition call :: "reference \<Rightarrow> nat \<Rightarrow> nat \<Rightarrow> scheduler \<Rightarrow> scheduler result" where
  "call ref pStopper action s =
     (case insert_action ref pStopper (Some action) s of None \<Rightarrow> Inr s | Some (a, s') \<Rightarrow> active_insert a s')"

definition signal :: "reference \<Rightarrow> scheduler \<Rightarrow> scheduler result" where
  "signal ref s = bindR (on_event Events_wait ref s) (on_event Events_sleep ref)"

text \<open>\<open>m_actions.erase\<close>; the object is not used any more, up to the comparison of its address.\<close>

definition erase_action :: "nat \<Rightarrow> scheduler \<Rightarrow> scheduler" where
  "erase_action a s = s\<lparr>m_actions := filter (\<lambda>x. snd x \<noteq> a) (m_actions s), s_objects := (s_objects s)(a := None)\<rparr>"

text \<open>What \<open>stop\<close> and \<open>stopperStopped\<close> do up to the erasure of the action.\<close>

definition withdraw :: "nat \<Rightarrow> scheduler \<Rightarrow> scheduler result" where
  "withdraw a s =
     bindR (active_remove a s) (\<lambda>s. bindR (wait_remove a s) (\<lambda>s. bindR (sleep_remove a s) (\<lambda>s.
     bindR (event_remove Events_wait a s) (event_remove Events_sleep a))))"

definition finish :: "nat \<Rightarrow> scheduler \<Rightarrow> scheduler result" where
  "finish a s =
     bindR (deref s a) (\<lambda>act.
     bindR (on_event Events_wait (aa_ref act) s) (\<lambda>s.
     bindR (on_event Events_sleep (aa_ref act) s) (\<lambda>s.
     bindR (withdraw a s) (\<lambda>s. Inr (erase_action a s)))))"

definition clear_current :: "nat \<Rightarrow> scheduler \<Rightarrow> scheduler" where
  "clear_current a s = (if m_pCurrentAction s = Some a then s\<lparr>m_pCurrentAction := None\<rparr> else s)"

definition stopperStopped :: "reference \<Rightarrow> scheduler \<Rightarrow> scheduler result" where
  "stopperStopped ref s =
     (case find_action ref s of
        None \<Rightarrow> Inr s
      | Some a \<Rightarrow> bindR (finish a s) (\<lambda>s. Inr (clear_current a s)))"

definition pause :: "reference \<Rightarrow> scheduler \<Rightarrow> scheduler result" where
  "pause ref s =
     (case find_action ref s of
        None \<Rightarrow> Inr s
      | Some a \<Rightarrow> bindR (withdraw a s) (pause_insert a))"

definition unpause :: "reference \<Rightarrow> scheduler \<Rightarrow> scheduler result" where
  "unpause ref s =
     (case find_action ref s of
        None \<Rightarrow> Inr s
      | Some a \<Rightarrow> bindR (pause_remove a s) (active_insert a))"

text \<open>The calls of the interface; a call of \<open>stop_ref\<close> comes with the calls its stopper makes.\<close>

datatype scheduler_call =
    Allocated_ref reference nat
  | Call_ref reference nat nat
  | Signal_ref reference
  | Stop_ref reference "scheduler_call list"
  | StopperStopped reference
  | Pause_ref reference
  | Unpause_ref reference

definition call_stopper :: "active_action \<Rightarrow> scheduler \<Rightarrow> scheduler" where
  "call_stopper act s = s\<lparr>s_stopped := s_stopped s @ [(aa_pStopper act, inst (aa_ref act))]\<rparr>"

fun do_call :: "scheduler_call \<Rightarrow> scheduler \<Rightarrow> scheduler result"
  and do_calls :: "scheduler_call list \<Rightarrow> scheduler \<Rightarrow> scheduler result" where
  "do_call (Allocated_ref ref pStopper) s = Inr (allocated ref pStopper s)"
| "do_call (Call_ref ref pStopper action) s = call ref pStopper action s"
| "do_call (Signal_ref ref) s = signal ref s"
| "do_call (Stop_ref ref cs) s =
     (case find_action ref s of
        None \<Rightarrow> Inr s
      | Some a \<Rightarrow>
          bindR (deref s a) (\<lambda>act. bindR (finish a s) (\<lambda>s.
          bindR (do_calls cs (call_stopper act s)) (\<lambda>s. Inr (clear_current a s)))))"
| "do_call (StopperStopped ref) s = stopperStopped ref s"
| "do_call (Pause_ref ref) s = pause ref s"
| "do_call (Unpause_ref ref) s = unpause ref s"
| "do_calls [] s = Inr s"
| "do_calls (c # cs) s = bindR (do_call c s) (do_calls cs)"

definition scheduler_active :: "scheduler \<Rightarrow> bool" where
  "scheduler_active s \<longleftrightarrow> m_actions s \<noteq> []"

section \<open>A cycle\<close>

text \<open>The \<open>ReturnReason\<close> of a coroutine.\<close>

datatype return_reason =
    Reason_Wait
  | Reason_Wait_All "reference list"
  | Reason_Wait_Any "reference list"
  | Reason_Sleep
  | Reason_Sleep_All "reference list"
  | Reason_Sleep_Any "reference list"
  | Reason_Timeout int
  | Reason_Terminated "scheduler_call list"

record coroutine_run =
  run_calls :: "scheduler_call list"
  run_done :: bool
  run_reason :: return_reason

definition set_coroutine :: "nat \<Rightarrow> bool option \<Rightarrow> scheduler \<Rightarrow> scheduler" where
  "set_coroutine a c s =
     (case s_objects s a of None \<Rightarrow> s | Some act \<Rightarrow> put a (act\<lparr>aa_coroutine := c\<rparr>) s)"

definition await :: "event_map \<Rightarrow> bool \<Rightarrow> reference list \<Rightarrow> nat \<Rightarrow> scheduler \<Rightarrow> scheduler result" where
  "await e any evs a s =
     bindR (foldR (event_insert e a) evs s) (\<lambda>s.
     bindR (deref s a) (\<lambda>act. Inr (put a (act\<lparr>bWaitAny := any\<rparr>) s)))"

fun on_reason :: "return_reason \<Rightarrow> nat \<Rightarrow> scheduler \<Rightarrow> scheduler result" where
  "on_reason Reason_Wait a s = wait_insert a s"
| "on_reason (Reason_Wait_All evs) a s = await Events_wait False evs a s"
| "on_reason (Reason_Wait_Any evs) a s = await Events_wait True evs a s"
| "on_reason Reason_Sleep a s = sleep_insert a s"
| "on_reason (Reason_Sleep_All evs) a s = await Events_sleep False evs a s"
| "on_reason (Reason_Sleep_Any evs) a s = await Events_sleep True evs a s"
| "on_reason (Reason_Timeout t) a s = timeout_insert a t s"
| "on_reason (Reason_Terminated cs) a s =
     bindR (deref s a) (\<lambda>act.
     bindR (on_event Events_wait (aa_ref act) (erase_action a s)) (\<lambda>s.
     bindR (on_event Events_sleep (aa_ref act) s) (\<lambda>s. do_calls cs (call_stopper act s))))"

text \<open>The body of the loop: the first active action runs.\<close>

definition run_action :: "coroutine_run \<Rightarrow> nat \<Rightarrow> scheduler \<Rightarrow> scheduler result" where
  "run_action r a s =
     bindR (active_remove a s) (\<lambda>s.
     bindR (deref s a) (\<lambda>act.
     bindR (if (aa_coroutine act = None \<or> aa_coroutine act = Some True) \<and> aa_op act = None
            then Inl (RuntimeError ''bad_function_call'') else Inr ()) (\<lambda>_.
     bindR (do_calls (run_calls r) (set_coroutine a (Some False) (s\<lparr>m_pCurrentAction := Some a\<rparr>))) (\<lambda>s.
     let s = set_coroutine a (Some (run_done r)) s
     in if m_pCurrentAction s = None then Inr s
        else bindR (on_reason (run_reason r) a s) (\<lambda>s. Inr (s\<lparr>m_pCurrentAction := None\<rparr>))))))"

definition runnable :: "scheduler \<Rightarrow> bool" where
  "runnable s \<longleftrightarrow> m_lists s (getActive (m_sleepState s)) \<noteq> [] \<or> m_lists s (getWaiting (m_sleepState s)) \<noteq> []"

text \<open>Each turn of the loop consumes one run; the list of the runs that are left is returned.\<close>

fun run_loop :: "coroutine_run list \<Rightarrow> scheduler \<Rightarrow> (coroutine_run list \<times> scheduler) result" where
  "run_loop [] s = (if runnable s then Inl OutOfFuel else Inr ([], s))"
| "run_loop (r # rs) s =
     (if \<not> runnable s then Inr (r # rs, s)
      else let s = (if m_lists s (getActive (m_sleepState s)) = [] then swapActiveWait s else s)
           in case m_lists s (getActive (m_sleepState s)) of
                [] \<Rightarrow> Inl UndefinedBehaviour
              | (n, a) # _ \<Rightarrow> bindR (run_action r a s) (run_loop rs))"

text \<open>\<open>now k\<close> is what the clock says when it is read for the \<open>k\<close>-th time.\<close>

fun timeouts_loop :: "nat \<Rightarrow> (nat \<Rightarrow> int) \<Rightarrow> nat \<Rightarrow> scheduler \<Rightarrow> scheduler result" where
  "timeouts_loop 0 now k s = Inl OutOfFuel"
| "timeouts_loop (Suc fuel) now k s =
     (case m_timeouts s of
        [] \<Rightarrow> Inr s
      | (t, n, a) # _ \<Rightarrow>
          if t \<le> now k then bindR (timeout_remove a s) (\<lambda>s. bindR (active_insert a s) (timeouts_loop fuel now (Suc k)))
          else Inr s)"

text \<open>The actions that still wait for an event are stopped; each turn consumes the calls of one stopper.\<close>

fun never_got :: "scheduler_call list list \<Rightarrow> scheduler \<Rightarrow> scheduler result" where
  "never_got [] s = (if m_events s Events_wait = [] then Inr s else Inl OutOfFuel)"
| "never_got (cs # css) s =
     (case m_events s Events_wait of
        [] \<Rightarrow> Inr s
      | (r, n, a) # _ \<Rightarrow>
          bindR (deref s a) (\<lambda>act. bindR (do_call (Stop_ref (aa_ref act) cs) s) (never_got css)))"

definition cycle :: "(nat \<Rightarrow> int) \<Rightarrow> coroutine_run list \<Rightarrow> scheduler_call list list \<Rightarrow> scheduler \<Rightarrow> scheduler result" where
  "cycle now runs stoppers s =
     bindR (timeouts_loop (Suc (length (m_timeouts s))) now 0 s) (\<lambda>s.
     bindR (run_loop runs (if \<not> runnable s then swapActiveSleep s else s)) (\<lambda>(runs, s).
       never_got stoppers s))"

end
