(* ===== verification/SchedulerSafety.thy ===== *)
theory SchedulerSafety
  imports Scheduler
begin

text \<open>
  The invariant of the scheduler: every iterator that an action holds points to a node of its container
  and every node belongs to an action that holds it, and an action is in one place at a time. The calls
  on the scheduler and a cycle keep it, and never use an iterator that is gone, as long as the calls obey
  the conditions of \<open>call_allowed\<close>; the last section shows what happens without them.
\<close>

section \<open>The invariant\<close>

datatype place = In_list list_id | On_events | On_timeout | Is_current | Is_paused

definition places :: "nat option \<Rightarrow> nat \<Rightarrow> active_action \<Rightarrow> place set" where
  "places c a act =
     {p. case p of
           In_list l \<Rightarrow> aa_iter act l \<noteq> None
         | On_events \<Rightarrow> iter_event_ref act \<noteq> []
         | On_timeout \<Rightarrow> iter_timeout act \<noteq> None
         | Is_current \<Rightarrow> c = Some a
         | Is_paused \<Rightarrow> iter_pause act \<noteq> None}"

definition one_place :: "nat option \<Rightarrow> nat \<Rightarrow> active_action \<Rightarrow> bool" where
  "one_place c a act \<longleftrightarrow> (\<forall>p \<in> places c a act. \<forall>q \<in> places c a act. p = q)"

text \<open>The iterators of a kind that the actions hold, each with its action.\<close>

definition holders :: "(active_action \<Rightarrow> nat set) \<Rightarrow> (nat \<rightharpoonup> active_action) \<Rightarrow> (nat \<times> nat) set" where
  "holders f objs = {(n, a). \<exists>act. objs a = Some act \<and> n \<in> f act}"

definition actions_ok :: "scheduler \<Rightarrow> bool" where
  "actions_ok s \<longleftrightarrow> distinct (map snd (m_actions s)) \<and> dom (s_objects s) = snd ` set (m_actions s) \<and>
     (\<forall>x \<in> set (m_actions s). snd x < s_next s \<and> map_option aa_ref (s_objects s (snd x)) = Some (fst x)) \<and>
     sorted_wrt (\<lambda>x y. \<not> same_key (fst x) (fst y)) (m_actions s)"

abbreviation "list_iter l \<equiv> (\<lambda>act. set_option (aa_iter act l))"
abbreviation "pause_iter \<equiv> (\<lambda>act. set_option (iter_pause act))"
abbreviation "timeout_iter \<equiv> (\<lambda>act. set_option (iter_timeout act))"
abbreviation "event_iters \<equiv> (\<lambda>act. set (iter_event_ref act))"

definition list_ok :: "list_id \<Rightarrow> scheduler \<Rightarrow> bool" where
  "list_ok l s \<longleftrightarrow> distinct (map fst (m_lists s l)) \<and> (\<forall>x \<in> set (m_lists s l). fst x < s_next s) \<and>
     set (m_lists s l) = holders (list_iter l) (s_objects s)"

definition paused_ok :: "scheduler \<Rightarrow> bool" where
  "paused_ok s \<longleftrightarrow> distinct (map fst (m_paused s)) \<and> (\<forall>x \<in> set (m_paused s). fst x < s_next s) \<and>
     holders pause_iter (s_objects s) \<subseteq> set (m_paused s)"

definition timeouts_ok :: "scheduler \<Rightarrow> bool" where
  "timeouts_ok s \<longleftrightarrow> distinct (map (fst \<circ> snd) (m_timeouts s)) \<and> (\<forall>x \<in> set (m_timeouts s). fst (snd x) < s_next s) \<and>
     snd ` set (m_timeouts s) = holders timeout_iter (s_objects s)"

definition events_ok :: "scheduler \<Rightarrow> bool" where
  "events_ok s \<longleftrightarrow> distinct (event_nodes (m_events s Events_wait) @ event_nodes (m_events s Events_sleep)) \<and>
     (\<forall>e. mm_sorted ref_key (m_events s e) \<and> (\<forall>x \<in> set (m_events s e). fst (snd x) < s_next s)) \<and>
     snd ` set (m_events s Events_wait) \<union> snd ` set (m_events s Events_sleep) = holders event_iters (s_objects s)"

definition object_ok :: "nat option \<Rightarrow> scheduler \<Rightarrow> nat \<Rightarrow> active_action \<Rightarrow> bool" where
  "object_ok c s a act \<longleftrightarrow> one_place c a act \<and> distinct (iter_event_ref act) \<and>
     (bWaitAny act \<longrightarrow> length (iter_event_ref act) \<le> 1) \<and>
     (\<exists>e. set (iter_event_ref act) \<subseteq> set (event_nodes (m_events s e))) \<and>
     (aa_op act = None \<longrightarrow> places c a act = {})"

definition objects_ok :: "nat option \<Rightarrow> scheduler \<Rightarrow> bool" where
  "objects_ok c s \<longleftrightarrow> (\<forall>a act. s_objects s a = Some act \<longrightarrow> object_ok c s a act)"

definition current_ok :: "nat option \<Rightarrow> nat \<Rightarrow> bool" where
  "current_ok c n \<longleftrightarrow> (case c of None \<Rightarrow> True | Some a \<Rightarrow> a < n)"

lemma current_ok_Suc [simp]: "current_ok c n \<Longrightarrow> current_ok c (Suc n)"
  by (simp add: current_ok_def split: option.splits)

text \<open>The invariant, when \<open>c\<close> is the action that is running.\<close>

definition sched_ok :: "nat option \<Rightarrow> scheduler \<Rightarrow> bool" where
  "sched_ok c s \<longleftrightarrow> current_ok c (s_next s) \<and> actions_ok s \<and> (\<forall>l. list_ok l s) \<and> paused_ok s \<and> timeouts_ok s \<and> events_ok s \<and> objects_ok c s"

lemmas sched_ok_defs = actions_ok_def list_ok_def paused_ok_def timeouts_ok_def events_ok_def objects_ok_def

lemma new_scheduler_ok: "sched_ok None new_scheduler"
  by (simp add: sched_ok_def sched_ok_defs current_ok_def new_scheduler_def holders_def event_nodes_def)

section \<open>One object changes\<close>

lemma put_sel [simp]:
  "m_actions (put a act s) = m_actions s" "m_lists (put a act s) = m_lists s" "m_paused (put a act s) = m_paused s"
  "m_timeouts (put a act s) = m_timeouts s" "m_events (put a act s) = m_events s" "s_next (put a act s) = s_next s"
  "m_pCurrentAction (put a act s) = m_pCurrentAction s" "m_sleepState (put a act s) = m_sleepState s"
  "s_stopped (put a act s) = s_stopped s" "s_objects (put a act s) = (s_objects s)(a \<mapsto> act)"
  by (simp_all add: put_def)

lemma deref_ok: "actions_ok s \<Longrightarrow> deref s a = Inr act \<longleftrightarrow> s_objects s a = Some act"
  by (auto simp: deref_def actions_ok_def)

lemma deref_object: "actions_ok s \<Longrightarrow> s_objects s a = Some act \<Longrightarrow> deref s a = Inr act"
  by (simp add: deref_ok)

lemma holders_eqI: "(\<And>n b. (n, b) \<in> H \<longleftrightarrow> (n, b) \<in> H') \<Longrightarrow> H = (H' :: (nat \<times> nat) set)"
  by (rule set_eqI) (metis surj_pair)

lemma holders_upd:
  assumes "objs a = Some act"
  shows "holders f (objs(a \<mapsto> act')) = (holders f objs - f act \<times> {a}) \<union> f act' \<times> {a}"
proof (rule holders_eqI)
  fix n b show "(n, b) \<in> holders f (objs(a \<mapsto> act')) \<longleftrightarrow> (n, b) \<in> (holders f objs - f act \<times> {a}) \<union> f act' \<times> {a}"
    using assms by (cases "b = a") (simp_all add: holders_def)
qed

lemma holders_same [simp]:
  assumes "objs a = Some act" and "f act' = f act"
  shows "holders f (objs(a \<mapsto> act')) = holders f objs"
proof (rule holders_eqI)
  fix n b show "(n, b) \<in> holders f (objs(a \<mapsto> act')) \<longleftrightarrow> (n, b) \<in> holders f objs"
    using assms by (cases "b = a") (simp_all add: holders_def)
qed

lemma holders_new:
  assumes "objs a = None"
  shows "holders f (objs(a \<mapsto> act)) = holders f objs \<union> f act \<times> {a}"
proof (rule holders_eqI)
  fix n b show "(n, b) \<in> holders f (objs(a \<mapsto> act)) \<longleftrightarrow> (n, b) \<in> holders f objs \<union> f act \<times> {a}"
    using assms by (cases "b = a") (simp_all add: holders_def)
qed

lemma holders_del:
  assumes "objs a = Some act"
  shows "holders f (objs(a := None)) = holders f objs - f act \<times> {a}"
proof (rule holders_eqI)
  fix n b show "(n, b) \<in> holders f (objs(a := None)) \<longleftrightarrow> (n, b) \<in> holders f objs - f act \<times> {a}"
    using assms by (cases "b = a") (simp_all add: holders_def)
qed

lemma in_holders: "(n, a) \<in> holders f objs \<longleftrightarrow> (\<exists>act. objs a = Some act \<and> n \<in> f act)"
  by (simp add: holders_def)

text \<open>The parts of the invariant that a step leaves alone.\<close>

lemma actions_ok_cong:
  assumes "actions_ok s" and "m_actions s' = m_actions s" and "s_next s \<le> s_next s'"
    and "\<And>a. map_option aa_ref (s_objects s' a) = map_option aa_ref (s_objects s a)"
  shows "actions_ok s'"
proof -
  have "s_objects s' a = None \<longleftrightarrow> s_objects s a = None" for a using assms(4) [of a] by (metis option.map_disc_iff)
  then have "dom (s_objects s') = dom (s_objects s)" by (simp add: dom_def)
  moreover have "snd x < s_next s'" if "x \<in> set (m_actions s)" for x
    using assms(1,3) that unfolding actions_ok_def by (meson order.strict_trans2)
  ultimately show ?thesis using assms unfolding actions_ok_def by simp
qed

lemma list_ok_cong:
  "list_ok l s \<Longrightarrow> m_lists s' l = m_lists s l \<Longrightarrow> s_next s \<le> s_next s' \<Longrightarrow>
   holders (list_iter l) (s_objects s') = holders (list_iter l) (s_objects s) \<Longrightarrow> list_ok l s'"
  unfolding list_ok_def by (metis order.strict_trans2)

lemma paused_ok_cong:
  "paused_ok s \<Longrightarrow> m_paused s' = m_paused s \<Longrightarrow> s_next s \<le> s_next s' \<Longrightarrow>
   holders pause_iter (s_objects s') \<subseteq> holders pause_iter (s_objects s) \<Longrightarrow> paused_ok s'"
  by (auto simp: paused_ok_def)

lemma timeouts_ok_cong:
  "timeouts_ok s \<Longrightarrow> m_timeouts s' = m_timeouts s \<Longrightarrow> s_next s \<le> s_next s' \<Longrightarrow>
   holders timeout_iter (s_objects s') = holders timeout_iter (s_objects s) \<Longrightarrow> timeouts_ok s'"
  by (fastforce simp: timeouts_ok_def)

lemma events_ok_cong:
  "events_ok s \<Longrightarrow> m_events s' = m_events s \<Longrightarrow> s_next s \<le> s_next s' \<Longrightarrow>
   holders event_iters (s_objects s') = holders event_iters (s_objects s) \<Longrightarrow> events_ok s'"
  by (fastforce simp: events_ok_def)

lemma objects_ok_put:
  assumes "objects_ok c s" and "object_ok c s' a act'" and "m_events s' = m_events s" and "s_objects s' = (s_objects s)(a \<mapsto> act')"
  shows "objects_ok c s'"
  using assms by (simp add: objects_ok_def object_ok_def)

section \<open>The lists\<close>

lemma getActiveIter_getActive [simp]: "getActiveIter st = getActive st"
  by (cases st) simp_all

lemma getWaitIter_getWaiting [simp]: "getWaitIter st = getWaiting st"
  by (cases st) simp_all

lemma getSleepIter_getSleeping [simp]: "getSleepIter st = getSleeping st"
  by (cases st) simp_all

lemma sched_okD:
  assumes "sched_ok c s"
  shows "actions_ok s" "list_ok l s" "paused_ok s" "timeouts_ok s" "events_ok s" "objects_ok c s" "current_ok c (s_next s)"
  using assms by (simp_all add: sched_ok_def)

lemma objects_okD: "objects_ok c s \<Longrightarrow> s_objects s a = Some act \<Longrightarrow> object_ok c s a act"
  by (simp add: objects_ok_def)

lemma in_places [simp]:
  "In_list l \<in> places c a act \<longleftrightarrow> aa_iter act l \<noteq> None" "On_events \<in> places c a act \<longleftrightarrow> iter_event_ref act \<noteq> []"
  "On_timeout \<in> places c a act \<longleftrightarrow> iter_timeout act \<noteq> None" "Is_current \<in> places c a act \<longleftrightarrow> c = Some a"
  "Is_paused \<in> places c a act \<longleftrightarrow> iter_pause act \<noteq> None"
  by (simp_all add: places_def)

lemma ball_place:
  "(\<forall>p. P p) \<longleftrightarrow> (\<forall>l. P (In_list l)) \<and> P On_events \<and> P On_timeout \<and> P Is_current \<and> P Is_paused"
  by (metis place.exhaust)

lemma free_places:
  "places c a act = {} \<longleftrightarrow> (\<forall>l. aa_iter act l = None) \<and> iter_event_ref act = [] \<and> iter_timeout act = None \<and>
   c \<noteq> Some a \<and> iter_pause act = None"
proof -
  have "places c a act = {} \<longleftrightarrow> (\<forall>p. p \<notin> places c a act)" by blast
  then show ?thesis unfolding ball_place by auto
qed

lemma places_single:
  "places c a act \<subseteq> {q} \<longleftrightarrow> (\<forall>l. q \<noteq> In_list l \<longrightarrow> aa_iter act l = None) \<and> (q \<noteq> On_events \<longrightarrow> iter_event_ref act = []) \<and>
   (q \<noteq> On_timeout \<longrightarrow> iter_timeout act = None) \<and> (q \<noteq> Is_current \<longrightarrow> c \<noteq> Some a) \<and> (q \<noteq> Is_paused \<longrightarrow> iter_pause act = None)"
proof -
  have "places c a act \<subseteq> {q} \<longleftrightarrow> (\<forall>p. p \<in> places c a act \<longrightarrow> p = q)" by blast
  then show ?thesis unfolding ball_place by auto
qed

lemma single_one_place: "places c a act \<subseteq> {q} \<Longrightarrow> one_place c a act"
  unfolding one_place_def by blast

lemma one_place_single: "one_place c a act \<Longrightarrow> q \<in> places c a act \<Longrightarrow> places c a act \<subseteq> {q}"
  unfolding one_place_def by blast

lemma object_ok_events:
  "object_ok c s a act \<Longrightarrow> event_iters act \<subseteq> set (event_nodes (m_events s' e)) \<Longrightarrow> object_ok c s' a act"
  unfolding object_ok_def by (intro conjI exI [of _ e]) simp_all

lemma places_subset:
  assumes "\<And>l. aa_iter act' l \<noteq> None \<Longrightarrow> aa_iter act l \<noteq> None" and "iter_event_ref act' \<noteq> [] \<Longrightarrow> iter_event_ref act \<noteq> []"
    and "iter_timeout act' \<noteq> None \<Longrightarrow> iter_timeout act \<noteq> None" and "c' = Some a \<Longrightarrow> c = Some a"
    and "iter_pause act' \<noteq> None \<Longrightarrow> iter_pause act \<noteq> None"
  shows "places c' a act' \<subseteq> places c a act"
proof
  fix p assume p: "p \<in> places c' a act'"
  show "p \<in> places c a act"
    using p assms by (cases p) simp_all
qed

lemma list_insert_ok:
  assumes ok: "sched_ok c s" and a: "s_objects s a = Some act" and free: "places c a act = {}" and op: "aa_op act \<noteq> None"
  shows "\<exists>s'. list_insert l l a s = Inr s' \<and> sched_ok c s'"
proof -
  let ?act = "act\<lparr>aa_iter := (aa_iter act)(l \<mapsto> s_next s)\<rparr>"
  let ?s = "put a ?act (s\<lparr>m_lists := (m_lists s)(l := m_lists s l @ [(s_next s, a)]), s_next := Suc (s_next s)\<rparr>)"
  note k = sched_okD [OF ok]
  have e: "list_insert l l a s = Inr ?s" using deref_object [OF k(1) a] by (simp add: list_insert_def)
  have i: "aa_iter act l' = None" for l' using free by (simp add: free_places)
  have "actions_ok ?s" by (rule actions_ok_cong [OF k(1)]) (simp_all add: a)
  moreover have "list_ok l' ?s" for l'
  proof (cases "l' = l")
    case True
    have h: "holders (list_iter l) (s_objects ?s) = insert (s_next s, a) (holders (list_iter l) (s_objects s))"
      using i [of l] holders_upd [where objs = "s_objects s" and f = "list_iter l", OF a, of ?act] by simp
    have "s_next s \<notin> fst ` set (m_lists s l)" using k(2) [of l] unfolding list_ok_def by (metis (no_types, lifting) imageE less_irrefl)
    with k(2) [of l] show ?thesis unfolding True list_ok_def h by (auto simp: less_Suc_eq)
  qed (rule list_ok_cong [OF k(2)], simp_all add: a)
  moreover have "paused_ok ?s" by (rule paused_ok_cong [OF k(3)]) (simp_all add: a)
  moreover have "timeouts_ok ?s" by (rule timeouts_ok_cong [OF k(4)]) (simp_all add: a)
  moreover have "events_ok ?s" by (rule events_ok_cong [OF k(5)]) (simp_all add: a)
  moreover have "objects_ok c ?s"
  proof (rule objects_ok_put [OF k(6)])
    have "places c a ?act \<subseteq> {In_list l}" using free by (simp add: places_single free_places)
    from single_one_place [OF this] show "object_ok c ?s a ?act"
      using objects_okD [OF k(6) a] op by (auto simp: object_ok_def)
  qed simp_all
  ultimately show ?thesis using e k(7) by (simp add: sched_ok_def)
qed

text \<open>A step that changes the object of one action and no more of the actions.\<close>

definition only :: "nat \<Rightarrow> scheduler \<Rightarrow> scheduler \<Rightarrow> bool" where
  "only a s s' \<longleftrightarrow> m_actions s' = m_actions s \<and> m_sleepState s' = m_sleepState s \<and>
     m_pCurrentAction s' = m_pCurrentAction s \<and> s_stopped s' = s_stopped s \<and> (\<forall>b. b \<noteq> a \<longrightarrow> s_objects s' b = s_objects s b)"

lemma only_refl [simp]: "only a s s"
  by (simp add: only_def)

lemma only_trans: "only a s s' \<Longrightarrow> only a s' s'' \<Longrightarrow> only a s s''"
  by (simp add: only_def)

lemma object_ok_less:
  assumes "object_ok c s a act" and "places c' a act' \<subseteq> places c a act"
    and "iter_event_ref act' = iter_event_ref act" and "bWaitAny act' = bWaitAny act" and "aa_op act' = aa_op act"
    and "m_events s' = m_events s"
  shows "object_ok c' s' a act'"
  using assms unfolding object_ok_def one_place_def by (metis subsetD subset_empty)

lemma list_remove_ok:
  assumes ok: "sched_ok c s" and a: "s_objects s a = Some act"
  shows "\<exists>s'. list_remove l l a s = Inr s' \<and> sched_ok c s' \<and> only a s s' \<and> m_events s' = m_events s \<and>
    s_objects s' a = Some (act\<lparr>aa_iter := (aa_iter act)(l := None)\<rparr>)"
proof (cases "aa_iter act l")
  case None
  note k = sched_okD [OF ok]
  from None have "(aa_iter act)(l := None) = aa_iter act" by (simp add: fun_upd_idem)
  with None deref_object [OF k(1) a] ok a show ?thesis by (simp add: list_remove_def)
next
  case (Some n)
  let ?act = "act\<lparr>aa_iter := (aa_iter act)(l := None)\<rparr>"
  let ?s = "put a ?act (s\<lparr>m_lists := (m_lists s)(l := filter (\<lambda>e. fst e \<noteq> n) (m_lists s l))\<rparr>)"
  note k = sched_okD [OF ok]
  have mem: "(n, a) \<in> set (m_lists s l)" using k(2) [of l] Some a by (simp add: list_ok_def in_holders)
  then have "n \<in> fst ` set (m_lists s l)" by force
  with Some deref_object [OF k(1) a] have e: "list_remove l l a s = Inr ?s" by (simp add: list_remove_def)
  have "actions_ok ?s" by (rule actions_ok_cong [OF k(1)]) (simp_all add: a)
  moreover have "list_ok l' ?s" for l'
  proof (cases "l' = l")
    case True
    have h: "holders (list_iter l) (s_objects ?s) = holders (list_iter l) (s_objects s) - {(n, a)}"
      using Some holders_upd [where objs = "s_objects s" and f = "list_iter l", OF a, of ?act] by simp
    have "{x \<in> set (m_lists s l). fst x \<noteq> n} = set (m_lists s l) - {(n, a)}"
      using k(2) [of l] mem by (auto simp: list_ok_def dest: eq_key_imp_eq_value)
    with k(2) [of l] show ?thesis unfolding True list_ok_def h by (simp add: distinct_map_filter)
  qed (rule list_ok_cong [OF k(2)], simp_all add: a)
  moreover have "paused_ok ?s" by (rule paused_ok_cong [OF k(3)]) (simp_all add: a)
  moreover have "timeouts_ok ?s" by (rule timeouts_ok_cong [OF k(4)]) (simp_all add: a)
  moreover have "events_ok ?s" by (rule events_ok_cong [OF k(5)]) (simp_all add: a)
  moreover have "objects_ok c ?s"
  proof (rule objects_ok_put [OF k(6)])
    show "object_ok c ?s a ?act"
      by (rule object_ok_less [OF objects_okD [OF k(6) a]]) (rule places_subset; simp split: if_splits | simp)+
  qed simp_all
  ultimately have "sched_ok c ?s" using k(7) by (simp add: sched_ok_def)
  then show ?thesis using e by (intro exI [of _ ?s]) (simp add: only_def)
qed

section \<open>The other containers\<close>

lemma pause_insert_ok:
  assumes ok: "sched_ok c s" and a: "s_objects s a = Some act" and free: "places c a act \<subseteq> {Is_paused}" and op: "aa_op act \<noteq> None"
  shows "\<exists>s'. pause_insert a s = Inr s' \<and> sched_ok c s'"
proof -
  let ?act = "act\<lparr>iter_pause := Some (s_next s)\<rparr>"
  let ?s = "put a ?act (s\<lparr>m_paused := m_paused s @ [(s_next s, a)], s_next := Suc (s_next s)\<rparr>)"
  note k = sched_okD [OF ok]
  have e: "pause_insert a s = Inr ?s" using deref_object [OF k(1) a] by (simp add: pause_insert_def)
  have "actions_ok ?s" by (rule actions_ok_cong [OF k(1)]) (simp_all add: a)
  moreover have "list_ok l ?s" for l by (rule list_ok_cong [OF k(2)]) (simp_all add: a)
  moreover have "paused_ok ?s"
  proof -
    have "holders pause_iter (s_objects ?s) \<subseteq> insert (s_next s, a) (holders pause_iter (s_objects s))"
      using holders_upd [where objs = "s_objects s" and f = pause_iter, OF a, of ?act] by auto
    moreover have "s_next s \<notin> fst ` set (m_paused s)" using k(3) unfolding paused_ok_def by (metis (no_types, lifting) imageE less_irrefl)
    ultimately show ?thesis using k(3) unfolding paused_ok_def by (auto simp: less_Suc_eq)
  qed
  moreover have "timeouts_ok ?s" by (rule timeouts_ok_cong [OF k(4)]) (simp_all add: a)
  moreover have "events_ok ?s" by (rule events_ok_cong [OF k(5)]) (simp_all add: a)
  moreover have "objects_ok c ?s"
  proof (rule objects_ok_put [OF k(6)])
    have "places c a ?act \<subseteq> {Is_paused}" using free by (simp add: places_single)
    from single_one_place [OF this] show "object_ok c ?s a ?act"
      using objects_okD [OF k(6) a] op by (auto simp: object_ok_def)
  qed simp_all
  ultimately show ?thesis using e k(7) by (simp add: sched_ok_def)
qed

lemma pause_remove_ok:
  assumes ok: "sched_ok c s" and a: "s_objects s a = Some act"
  shows "\<exists>s'. pause_remove a s = Inr s' \<and> sched_ok c s' \<and> only a s s' \<and> m_events s' = m_events s \<and>
    s_objects s' a = Some (act\<lparr>iter_pause := None\<rparr>)"
proof (cases "iter_pause act")
  case None
  note k = sched_okD [OF ok]
  from None have "act\<lparr>iter_pause := None\<rparr> = act" by simp
  with None deref_object [OF k(1) a] ok a show ?thesis by (simp add: pause_remove_def)
next
  case (Some n)
  let ?act = "act\<lparr>iter_pause := None\<rparr>"
  let ?s = "put a ?act (s\<lparr>m_paused := filter (\<lambda>e. fst e \<noteq> n) (m_paused s)\<rparr>)"
  note k = sched_okD [OF ok]
  have mem: "(n, a) \<in> set (m_paused s)" using k(3) Some a by (auto simp: paused_ok_def in_holders)
  then have "n \<in> fst ` set (m_paused s)" by force
  with Some deref_object [OF k(1) a] have e: "pause_remove a s = Inr ?s" by (simp add: pause_remove_def)
  have "actions_ok ?s" by (rule actions_ok_cong [OF k(1)]) (simp_all add: a)
  moreover have "list_ok l ?s" for l by (rule list_ok_cong [OF k(2)]) (simp_all add: a)
  moreover have "paused_ok ?s"
  proof -
    have "holders pause_iter (s_objects ?s) = holders pause_iter (s_objects s) - {(n, a)}"
      using Some holders_upd [where objs = "s_objects s" and f = pause_iter, OF a, of ?act] by simp
    moreover have "{x \<in> set (m_paused s). fst x \<noteq> n} = set (m_paused s) - {(n, a)}"
      using k(3) mem by (auto simp: paused_ok_def dest: eq_key_imp_eq_value)
    ultimately show ?thesis using k(3) unfolding paused_ok_def by (auto simp: distinct_map_filter)
  qed
  moreover have "timeouts_ok ?s" by (rule timeouts_ok_cong [OF k(4)]) (simp_all add: a)
  moreover have "events_ok ?s" by (rule events_ok_cong [OF k(5)]) (simp_all add: a)
  moreover have "objects_ok c ?s"
  proof (rule objects_ok_put [OF k(6)])
    show "object_ok c ?s a ?act"
      by (rule object_ok_less [OF objects_okD [OF k(6) a]]) (rule places_subset; simp split: if_splits | simp)+
  qed simp_all
  ultimately have "sched_ok c ?s" using k(7) by (simp add: sched_ok_def)
  then show ?thesis using e by (intro exI [of _ ?s]) (simp add: only_def)
qed

lemma set_mm_insert_pairs [simp]: "snd ` set (mm_insert key k v m) = insert v (snd ` set m)"
  by simp

lemma distinct_mm_insert:
  "distinct (map (f \<circ> snd) (mm_insert key k v m)) \<longleftrightarrow> f v \<notin> (f \<circ> snd) ` set m \<and> distinct (map (f \<circ> snd) m)"
proof (induction m)
  case (Cons e m)
  then show ?case by (cases e) (auto simp: image_iff)
qed simp

lemma timeout_insert_ok:
  assumes ok: "sched_ok c s" and a: "s_objects s a = Some act" and free: "places c a act = {}" and op: "aa_op act \<noteq> None"
  shows "\<exists>s'. timeout_insert a t s = Inr s' \<and> sched_ok c s'"
proof -
  let ?act = "act\<lparr>iter_timeout := Some (s_next s)\<rparr>"
  let ?s = "put a ?act (s\<lparr>m_timeouts := mm_insert id t (s_next s, a) (m_timeouts s), s_next := Suc (s_next s)\<rparr>)"
  note k = sched_okD [OF ok]
  have e: "timeout_insert a t s = Inr ?s" using deref_object [OF k(1) a] by (simp add: timeout_insert_def)
  have i: "iter_timeout act = None" using free by (simp add: free_places)
  have "actions_ok ?s" by (rule actions_ok_cong [OF k(1)]) (simp_all add: a)
  moreover have "list_ok l ?s" for l by (rule list_ok_cong [OF k(2)]) (simp_all add: a)
  moreover have "paused_ok ?s" by (rule paused_ok_cong [OF k(3)]) (simp_all add: a)
  moreover have "timeouts_ok ?s"
  proof -
    have h: "holders timeout_iter (s_objects ?s) = insert (s_next s, a) (holders timeout_iter (s_objects s))"
      using i holders_upd [where objs = "s_objects s" and f = timeout_iter, OF a, of ?act] by simp
    have "s_next s \<notin> (fst \<circ> snd) ` set (m_timeouts s)" using k(4) unfolding timeouts_ok_def by auto
    with k(4) show ?thesis unfolding timeouts_ok_def h by (auto simp: less_Suc_eq distinct_mm_insert)
  qed
  moreover have "events_ok ?s" by (rule events_ok_cong [OF k(5)]) (simp_all add: a)
  moreover have "objects_ok c ?s"
  proof (rule objects_ok_put [OF k(6)])
    have "places c a ?act \<subseteq> {On_timeout}" using free by (simp add: places_single free_places)
    from single_one_place [OF this] show "object_ok c ?s a ?act"
      using objects_okD [OF k(6) a] op by (auto simp: object_ok_def)
  qed simp_all
  ultimately show ?thesis using e k(7) by (simp add: sched_ok_def)
qed

lemma timeout_remove_ok:
  assumes ok: "sched_ok c s" and a: "s_objects s a = Some act" and t: "iter_timeout act = Some n"
  shows "\<exists>s'. timeout_remove a s = Inr s' \<and> sched_ok c s' \<and> only a s s' \<and> m_events s' = m_events s \<and>
    s_objects s' a = Some (act\<lparr>iter_timeout := None\<rparr>) \<and> m_timeouts s' = filter (\<lambda>x. fst (snd x) \<noteq> n) (m_timeouts s)"
proof -
  let ?act = "act\<lparr>iter_timeout := None\<rparr>"
  let ?s = "put a ?act (s\<lparr>m_timeouts := filter (\<lambda>e. fst (snd e) \<noteq> n) (m_timeouts s)\<rparr>)"
  note k = sched_okD [OF ok]
  have "(n, a) \<in> snd ` set (m_timeouts s)" using k(4) t a by (auto simp: timeouts_ok_def in_holders)
  then have mem: "n \<in> (fst \<circ> snd) ` set (m_timeouts s)" by force
  with t deref_object [OF k(1) a] have e: "timeout_remove a s = Inr ?s" by (simp add: timeout_remove_def)
  have "actions_ok ?s" by (rule actions_ok_cong [OF k(1)]) (simp_all add: a)
  moreover have "list_ok l ?s" for l by (rule list_ok_cong [OF k(2)]) (simp_all add: a)
  moreover have "paused_ok ?s" by (rule paused_ok_cong [OF k(3)]) (simp_all add: a)
  moreover have "timeouts_ok ?s"
  proof -
    have h: "holders timeout_iter (s_objects ?s) = holders timeout_iter (s_objects s) - {(n, a)}"
      using t holders_upd [where objs = "s_objects s" and f = timeout_iter, OF a, of ?act] by simp
    have "distinct (map fst (map snd (m_timeouts s)))" using k(4) by (simp add: timeouts_ok_def)
    then have u: "b = a" if "(n, b) \<in> snd ` set (m_timeouts s)" for b
      using that \<open>(n, a) \<in> snd ` set (m_timeouts s)\<close> eq_key_imp_eq_value [of "map snd (m_timeouts s)" n b a] by simp
    have "snd ` {x \<in> set (m_timeouts s). fst (snd x) \<noteq> n} = snd ` set (m_timeouts s) - {(n, a)}"
      using u by force
    with k(4) show ?thesis unfolding timeouts_ok_def h by (simp add: distinct_map_filter)
  qed
  moreover have "events_ok ?s" by (rule events_ok_cong [OF k(5)]) (simp_all add: a)
  moreover have "objects_ok c ?s"
  proof (rule objects_ok_put [OF k(6)])
    show "object_ok c ?s a ?act"
      by (rule object_ok_less [OF objects_okD [OF k(6) a]]) (rule places_subset; simp split: if_splits | simp)+
  qed simp_all
  ultimately have "sched_ok c ?s" using k(7) by (simp add: sched_ok_def)
  then show ?thesis using e by (intro exI [of _ ?s]) (simp add: only_def)
qed

section \<open>Events\<close>

lemma event_nodes_filter: "event_nodes (filter P m) = map (fst \<circ> snd) (filter P m)"
  by (simp add: event_nodes_def)

lemma in_fst_image: "n \<in> fst ` P \<longleftrightarrow> (\<exists>b. (n, b) \<in> P)"
  by force

lemma in_event_nodes: "n \<in> set (event_nodes m) \<longleftrightarrow> (\<exists>b. (n, b) \<in> snd ` set m)"
proof -
  have "set (event_nodes m) = fst ` snd ` set m" by (simp add: event_nodes_def image_comp)
  then show ?thesis by (simp only: in_fst_image)
qed

lemma event_erase_eq:
  "set ns \<subseteq> set (event_nodes (m_events s e)) \<Longrightarrow> distinct ns \<Longrightarrow>
   event_erase e ns s = Inr (s\<lparr>m_events := (m_events s)(e := filter (\<lambda>x. fst (snd x) \<notin> set ns) (m_events s e))\<rparr>)"
proof (induction ns arbitrary: s)
  case Nil
  then show ?case by simp
next
  case (Cons n ns)
  let ?s = "s\<lparr>m_events := (m_events s)(e := filter (\<lambda>x. fst (snd x) \<noteq> n) (m_events s e))\<rparr>"
  have "set ns \<subseteq> set (event_nodes (m_events ?s e))"
  proof
    fix x assume "x \<in> set ns"
    with Cons.prems have "x \<noteq> n" "x \<in> (fst \<circ> snd) ` set (m_events s e)" by (auto simp: event_nodes_def)
    then show "x \<in> set (event_nodes (m_events ?s e))" by (force simp: event_nodes_def)
  qed
  from Cons.IH [OF this] Cons.prems show ?case
    by (simp add: conj_commute fun_upd_same del: fun_upd_apply)
qed

lemma events_pair_unique:
  assumes "events_ok s" and "(n, b) \<in> snd ` set (m_events s e)" and "(n, a) \<in> snd ` set (m_events s e')"
  shows "b = a \<and> e = e'"
proof -
  let ?all = "map snd (m_events s Events_wait @ m_events s Events_sleep)"
  have d: "distinct (map fst ?all)" using assms(1) by (simp add: events_ok_def event_nodes_def)
  have "(n, b) \<in> set ?all" "(n, a) \<in> set ?all" using assms(2,3) by (cases e; cases e'; auto)+
  then have "b = a" using eq_key_imp_eq_value [OF d] by blast
  moreover have "e = e'"
  proof (rule ccontr)
    assume "e \<noteq> e'"
    then have "n \<in> set (event_nodes (m_events s Events_wait)) \<inter> set (event_nodes (m_events s Events_sleep))"
      using assms(2,3) by (cases e; cases e') (auto simp: event_nodes_def image_iff, (force)+)
    with assms(1) show False by (auto simp: events_ok_def)
  qed
  ultimately show ?thesis ..
qed

lemma mm_sorted_filter: "mm_sorted key m \<Longrightarrow> mm_sorted key (filter P m)"
  by (simp add: mm_sorted_def sorted_wrt_filter sorted_map)

lemma event_remove_ok:
  assumes ok: "sched_ok c s" and a: "s_objects s a = Some act" and ns: "set (iter_event_ref act) \<subseteq> set (event_nodes (m_events s e))"
  shows "\<exists>s'. event_remove e a s = Inr s' \<and> sched_ok c s' \<and> only a s s' \<and> s_objects s' a = Some (act\<lparr>iter_event_ref := []\<rparr>)"
proof -
  let ?act = "act\<lparr>iter_event_ref := []\<rparr>"
  let ?m = "filter (\<lambda>x. fst (snd x) \<notin> event_iters act) (m_events s e)"
  let ?s = "put a ?act (s\<lparr>m_events := (m_events s)(e := ?m)\<rparr>)"
  note k = sched_okD [OF ok]
  have d: "distinct (iter_event_ref act)" using objects_okD [OF k(6) a] by (simp add: object_ok_def)
  have e: "event_remove e a s = Inr ?s"
    using deref_object [OF k(1) a] by (simp add: event_remove_def event_erase_eq [OF ns d])
  have pairs: "(\<lambda>n. (n, a)) ` event_iters act \<subseteq> snd ` set (m_events s e)"
  proof
    fix x assume "x \<in> (\<lambda>n. (n, a)) ` event_iters act"
    then obtain n where n: "x = (n, a)" "n \<in> event_iters act" by blast
    with ns obtain b where b: "(n, b) \<in> snd ` set (m_events s e)" by (meson in_event_nodes subsetD)
    have "(n, a) \<in> holders event_iters (s_objects s)" using a n(2) by (auto simp: in_holders)
    then obtain e' where "(n, a) \<in> snd ` set (m_events s e')" using k(5) unfolding events_ok_def by blast
    from events_pair_unique [OF k(5) b this] b n(1) show "x \<in> snd ` set (m_events s e)" by simp
  qed
  have removed: "snd ` set ?m = snd ` set (m_events s e) - event_iters act \<times> {a}"
  proof -
    have "b = a" if "(n, b) \<in> snd ` set (m_events s e)" "n \<in> event_iters act" for n b
      using events_pair_unique [OF k(5) that(1), of a e] pairs that(2) by auto
    then show ?thesis by force
  qed
  have other: "snd ` set (m_events s e') \<inter> event_iters act \<times> {a} = {}" if "e' \<noteq> e" for e'
  proof -
    have no: False if x: "(n, a) \<in> snd ` set (m_events s e')" "n \<in> event_iters act" for n
    proof -
      from x(2) pairs have "(n, a) \<in> snd ` set (m_events s e)" by blast
      from events_pair_unique [OF k(5) this x(1)] \<open>e' \<noteq> e\<close> show False by simp
    qed
    show ?thesis
    proof (rule equals0I)
      fix x assume "x \<in> snd ` set (m_events s e') \<inter> event_iters act \<times> {a}"
      then obtain n where "(n, a) \<in> snd ` set (m_events s e')" "n \<in> event_iters act" by (metis IntE SigmaE singletonD)
      then show False by (rule no)
    qed
  qed
  have "actions_ok ?s" by (rule actions_ok_cong [OF k(1)]) (simp_all add: a)
  moreover have "list_ok l ?s" for l by (rule list_ok_cong [OF k(2)]) (simp_all add: a)
  moreover have "paused_ok ?s" by (rule paused_ok_cong [OF k(3)]) (simp_all add: a)
  moreover have "timeouts_ok ?s" by (rule timeouts_ok_cong [OF k(4)]) (simp_all add: a)
  moreover have "events_ok ?s"
  proof -
    have h: "holders event_iters (s_objects ?s) = holders event_iters (s_objects s) - event_iters act \<times> {a}"
      using holders_upd [where objs = "s_objects s" and f = event_iters, OF a, of ?act] by simp
    have u: "snd ` set (m_events ?s Events_wait) \<union> snd ` set (m_events ?s Events_sleep) =
        (snd ` set (m_events s Events_wait) \<union> snd ` set (m_events s Events_sleep)) - event_iters act \<times> {a}"
      using removed other [of Events_wait] other [of Events_sleep] by (cases e) auto
    have "distinct (event_nodes (m_events ?s Events_wait) @ event_nodes (m_events ?s Events_sleep))"
      using k(5) by (cases e) (auto simp: events_ok_def event_nodes_def distinct_map_filter)
    moreover have "mm_sorted ref_key (m_events ?s e')" for e'
      using k(5) by (cases "e' = e") (simp_all add: events_ok_def mm_sorted_filter)
    moreover have "fst (snd x) < s_next ?s" if "x \<in> set (m_events ?s e')" for x e'
    proof -
      from that have "x \<in> set (m_events s e')" by (cases "e' = e") auto
      with k(5) show ?thesis by (auto simp: events_ok_def)
    qed
    ultimately show ?thesis unfolding events_ok_def u h using k(5) by (simp add: events_ok_def)
  qed
  moreover have "objects_ok c ?s"
    unfolding objects_ok_def
  proof (intro allI impI)
    fix b act' assume b: "s_objects ?s b = Some act'"
    show "object_ok c ?s b act'"
    proof (cases "b = a")
      case True
      with b have "act' = ?act" by simp
      moreover have sub: "places c a ?act \<subseteq> places c a act"
        by (rule places_subset; simp)
      moreover have "one_place c a ?act"
        using objects_okD [OF k(6) a] sub unfolding object_ok_def one_place_def by (meson subsetD)
      moreover have "aa_op ?act = None \<longrightarrow> places c a ?act = {}"
        using objects_okD [OF k(6) a] sub by (auto simp: object_ok_def)
      ultimately show ?thesis unfolding object_ok_def True by simp
    next
      case False
      with b have b': "s_objects s b = Some act'" by simp
      from objects_okD [OF k(6) b'] obtain e' where e': "event_iters act' \<subseteq> set (event_nodes (m_events s e'))"
        by (auto simp: object_ok_def)
      have "event_iters act' \<subseteq> set (event_nodes (m_events ?s e'))"
      proof
        fix n assume n: "n \<in> event_iters act'"
        with e' obtain b1 where b1: "(n, b1) \<in> snd ` set (m_events s e')" by (meson in_event_nodes subsetD)
        have "(n, b) \<in> holders event_iters (s_objects s)" using b' n by (auto simp: in_holders)
        then obtain e1 where "(n, b) \<in> snd ` set (m_events s e1)" using k(5) unfolding events_ok_def by blast
        from events_pair_unique [OF k(5) b1 this] b1 have "(n, b) \<in> snd ` set (m_events s e')" by simp
        then have "(n, b) \<in> snd ` set (m_events ?s e')" using removed False by (cases "e' = e") auto
        then show "n \<in> set (event_nodes (m_events ?s e'))" by (meson in_event_nodes)
      qed
      with objects_okD [OF k(6) b'] show ?thesis unfolding object_ok_def by blast
    qed
  qed
  ultimately have "sched_ok c ?s" using k(7) by (simp add: sched_ok_def)
  then show ?thesis using e by (intro exI [of _ ?s]) (simp add: only_def)
qed

lemma event_nodes_mm_insert: "set (event_nodes (mm_insert key k (n, a) m)) = insert n (set (event_nodes m))"
  by (simp add: event_nodes_def)

lemma distinct_event_nodes_mm_insert:
  "distinct (event_nodes (mm_insert key k (n, a) m)) \<longleftrightarrow> n \<notin> set (event_nodes m) \<and> distinct (event_nodes m)"
  using distinct_mm_insert [of fst key k "(n, a)" m] by (simp add: event_nodes_def)

lemma events_fresh: "events_ok s \<Longrightarrow> s_next s \<notin> set (event_nodes (m_events s e))"
  unfolding events_ok_def event_nodes_def by (metis (no_types, lifting) comp_apply imageE less_irrefl list.set_map)

lemma event_insert_ok:
  assumes ok: "sched_ok c s" and a: "s_objects s a = Some act" and op: "aa_op act \<noteq> None"
    and pl: "places c a act \<subseteq> {On_events}" and same: "event_iters act \<subseteq> set (event_nodes (m_events s e))"
    and any: "bWaitAny act \<Longrightarrow> iter_event_ref act = []"
  shows "\<exists>s'. event_insert e a ev s = Inr s' \<and> sched_ok c s' \<and> m_sleepState s' = m_sleepState s \<and>
    s_objects s' a = Some (act\<lparr>iter_event_ref := iter_event_ref act @ [s_next s]\<rparr>) \<and>
    set (event_nodes (m_events s' e)) = insert (s_next s) (set (event_nodes (m_events s e)))"
proof -
  let ?act = "act\<lparr>iter_event_ref := iter_event_ref act @ [s_next s]\<rparr>"
  let ?s = "put a ?act (s\<lparr>m_events := (m_events s)(e := mm_insert ref_key ev (s_next s, a) (m_events s e)), s_next := Suc (s_next s)\<rparr>)"
  note k = sched_okD [OF ok]
  have e: "event_insert e a ev s = Inr ?s" using deref_object [OF k(1) a] by (simp add: event_insert_def)
  note fresh = events_fresh [OF k(5)]
  have "actions_ok ?s" by (rule actions_ok_cong [OF k(1)]) (simp_all add: a)
  moreover have "list_ok l ?s" for l by (rule list_ok_cong [OF k(2)]) (simp_all add: a)
  moreover have "paused_ok ?s" by (rule paused_ok_cong [OF k(3)]) (simp_all add: a)
  moreover have "timeouts_ok ?s" by (rule timeouts_ok_cong [OF k(4)]) (simp_all add: a)
  moreover have "events_ok ?s"
  proof -
    have "distinct (event_nodes (m_events ?s Events_wait) @ event_nodes (m_events ?s Events_sleep))"
      using k(5) fresh by (cases e) (auto simp: events_ok_def event_nodes_mm_insert distinct_event_nodes_mm_insert)
    moreover have "mm_sorted ref_key (m_events ?s e')" for e'
      using k(5) by (cases "e' = e") (simp_all add: events_ok_def)
    moreover have "fst (snd x) < s_next ?s" if "x \<in> set (m_events ?s e')" for x e'
    proof -
      from that have "x = (ev, s_next s, a) \<or> x \<in> set (m_events s e')" by (cases "e' = e") auto
      with k(5) show ?thesis by (auto simp: events_ok_def less_Suc_eq)
    qed
    moreover have "holders event_iters (s_objects ?s) = insert (s_next s, a) (holders event_iters (s_objects s))"
      using holders_upd [where objs = "s_objects s" and f = event_iters, OF a, of ?act] a by (auto simp: holders_def)
    moreover have "snd ` set (m_events ?s Events_wait) \<union> snd ` set (m_events ?s Events_sleep) =
        insert (s_next s, a) (snd ` set (m_events s Events_wait) \<union> snd ` set (m_events s Events_sleep))"
      by (cases e) simp_all
    ultimately show ?thesis using k(5) by (simp only: events_ok_def) simp
  qed
  moreover have "objects_ok c ?s"
    unfolding objects_ok_def
  proof (intro allI impI)
    fix b act' assume b: "s_objects ?s b = Some act'"
    show "object_ok c ?s b act'"
    proof (cases "b = a")
      case True
      with b have "act' = ?act" by simp
      moreover have "places c a ?act \<subseteq> {On_events}" using pl by (simp add: places_single)
      moreover have "s_next s \<notin> event_iters act" using same fresh by blast
      moreover have "event_iters ?act \<subseteq> set (event_nodes (m_events ?s e))"
        using same by (auto simp: event_nodes_mm_insert)
      ultimately show ?thesis
        using objects_okD [OF k(6) a] single_one_place [of c a ?act] op any unfolding object_ok_def True by auto
    next
      case False
      with b have b': "s_objects s b = Some act'" by simp
      have "set (event_nodes (m_events s e')) \<subseteq> set (event_nodes (m_events ?s e'))" for e'
        by (cases "e' = e") (auto simp: event_nodes_mm_insert)
      with objects_okD [OF k(6) b'] show ?thesis unfolding object_ok_def by (meson subset_trans)
    qed
  qed
  ultimately have "sched_ok c ?s" using k(7) by (simp add: sched_ok_def)
  then show ?thesis using e by (intro exI [of _ ?s]) (simp add: event_nodes_mm_insert)
qed

lemma wait_any_iter: "act\<lparr>bWaitAny := b, iter_event_ref := x\<rparr> = act\<lparr>iter_event_ref := x, bWaitAny := b\<rparr>"
  by (cases act) simp

lemma event_insert_wait_any:
  assumes "s_objects s a = Some act"
  shows "event_insert e a ev (put a (act\<lparr>bWaitAny := any\<rparr>) s) =
    bindR (event_insert e a ev s) (\<lambda>s'. case s_objects s' a of None \<Rightarrow> Inl UndefinedBehaviour
      | Some act' \<Rightarrow> Inr (put a (act'\<lparr>bWaitAny := any\<rparr>) s'))"
  using assms by (auto simp: event_insert_def deref_def put_def wait_any_iter)

lemma await_first:
  assumes "s_objects s a = Some act" and "a \<in> snd ` set (m_actions s)"
  shows "await e any evs a s = foldR (event_insert e a) evs (put a (act\<lparr>bWaitAny := any\<rparr>) s)"
  using assms
proof (induction evs arbitrary: s act)
  case Nil
  then show ?case by (simp add: await_def deref_def)
next
  case (Cons ev evs)
  let ?act = "act\<lparr>iter_event_ref := iter_event_ref act @ [s_next s]\<rparr>"
  let ?s = "put a ?act (s\<lparr>m_events := (m_events s)(e := mm_insert ref_key ev (s_next s, a) (m_events s e)), s_next := Suc (s_next s)\<rparr>)"
  have i: "event_insert e a ev s = Inr ?s" using Cons.prems by (simp add: event_insert_def deref_def)
  have "event_insert e a ev (put a (act\<lparr>bWaitAny := any\<rparr>) s) = Inr (put a (?act\<lparr>bWaitAny := any\<rparr>) ?s)"
    unfolding event_insert_wait_any [OF Cons.prems(1)] i by simp
  moreover have "await e any (ev # evs) a s = await e any evs a ?s" by (simp add: await_def i)
  moreover have "await e any evs a ?s = foldR (event_insert e a) evs (put a (?act\<lparr>bWaitAny := any\<rparr>) ?s)"
    by (rule Cons.IH) (simp_all add: Cons.prems(2))
  ultimately show ?case by simp
qed

lemma await_ok:
  assumes ok: "sched_ok c s" and a: "s_objects s a = Some act" and free: "places c a act = {}" and op: "aa_op act \<noteq> None"
    and any: "any \<Longrightarrow> length evs \<le> 1"
  shows "\<exists>s'. await e any evs a s = Inr s' \<and> sched_ok c s'"
proof -
  let ?act = "act\<lparr>bWaitAny := any\<rparr>"
  let ?s = "put a ?act s"
  note k = sched_okD [OF ok]
  have mem: "a \<in> snd ` set (m_actions s)" using k(1) a unfolding actions_ok_def by blast
  have f: "iter_event_ref act = []" using free by (simp add: free_places)
  have pl: "places c a ?act = {}" using free by (simp add: free_places)
  have "sched_ok c ?s"
  proof -
    have "actions_ok ?s" by (rule actions_ok_cong [OF k(1)]) (simp_all add: a)
    moreover have "list_ok l ?s" for l by (rule list_ok_cong [OF k(2)]) (simp_all add: a)
    moreover have "paused_ok ?s" by (rule paused_ok_cong [OF k(3)]) (simp_all add: a)
    moreover have "timeouts_ok ?s" by (rule timeouts_ok_cong [OF k(4)]) (simp_all add: a)
    moreover have "events_ok ?s" by (rule events_ok_cong [OF k(5)]) (simp_all add: a)
    moreover have "objects_ok c ?s"
      by (rule objects_ok_put [OF k(6), of _ a ?act]) (simp_all add: object_ok_def one_place_def pl f)
    ultimately show ?thesis using k(7) by (simp add: sched_ok_def)
  qed
  moreover have "\<exists>s'. foldR (event_insert e a) evs t = Inr s' \<and> sched_ok c s'"
    if "sched_ok c t" "s_objects t a = Some act1" "aa_op act1 \<noteq> None" "places c a act1 \<subseteq> {On_events}"
      "event_iters act1 \<subseteq> set (event_nodes (m_events t e))" "bWaitAny act1 \<Longrightarrow> iter_event_ref act1 = [] \<and> length evs \<le> 1"
    for evs t act1
    using that
  proof (induction evs arbitrary: t act1)
    case (Cons ev evs)
    from event_insert_ok [OF Cons.prems(1-5), of ev] Cons.prems(6) obtain t' where
      t': "event_insert e a ev t = Inr t'" "sched_ok c t'"
        "s_objects t' a = Some (act1\<lparr>iter_event_ref := iter_event_ref act1 @ [s_next t]\<rparr>)"
        "set (event_nodes (m_events t' e)) = insert (s_next t) (set (event_nodes (m_events t e)))" by auto
    show ?case
    proof (cases "bWaitAny act1")
      case True
      with Cons.prems(6) t' show ?thesis by simp
    next
      case False
      have "\<exists>s'. foldR (event_insert e a) evs t' = Inr s' \<and> sched_ok c s'"
        using Cons.prems(3,4,5) False by (intro Cons.IH [OF t'(2,3)]) (auto simp: t'(4) places_single)
      with t'(1) show ?thesis by simp
    qed
  qed simp
  note this [of ?s ?act evs]
  ultimately show ?thesis using op pl any f by (simp add: await_first [OF a mem])
qed

section \<open>An event happens\<close>

text \<open>What an event leaves alone.\<close>

definition calm_object :: "active_action \<Rightarrow> active_action \<Rightarrow> bool" where
  "calm_object act act' \<longleftrightarrow> event_iters act' \<subseteq> event_iters act \<and> iter_timeout act' = iter_timeout act \<and>
     iter_pause act' = iter_pause act \<and> aa_ref act' = aa_ref act \<and> aa_pStopper act' = aa_pStopper act \<and> aa_op act' = aa_op act"

definition calm :: "scheduler \<Rightarrow> scheduler \<Rightarrow> bool" where
  "calm s s' \<longleftrightarrow> m_actions s' = m_actions s \<and> m_sleepState s' = m_sleepState s \<and> m_pCurrentAction s' = m_pCurrentAction s \<and>
     m_timeouts s' = m_timeouts s \<and> s_stopped s' = s_stopped s \<and>
     (\<forall>e. set (event_nodes (m_events s' e)) \<subseteq> set (event_nodes (m_events s e))) \<and>
     (\<forall>a act. s_objects s a = Some act \<longrightarrow> (\<exists>act'. s_objects s' a = Some act' \<and> calm_object act act'))"

lemma calm_object_refl [simp]: "calm_object act act"
  by (simp add: calm_object_def)

lemma calm_refl [simp]: "calm s s"
  by (simp add: calm_def)

lemma calm_trans: "calm s s' \<Longrightarrow> calm s' s'' \<Longrightarrow> calm s s''"
  unfolding calm_def calm_object_def by (smt (verit, best) subset_trans)

text \<open>The state without some nodes of an event map.\<close>

definition hide :: "nat set \<Rightarrow> event_map \<Rightarrow> scheduler \<Rightarrow> scheduler" where
  "hide ns e s = s\<lparr>m_events := (m_events s)(e := filter (\<lambda>x. fst (snd x) \<notin> ns) (m_events s e))\<rparr>"

lemma hide_sel [simp]:
  "m_actions (hide ns e s) = m_actions s" "m_lists (hide ns e s) = m_lists s" "m_paused (hide ns e s) = m_paused s"
  "m_timeouts (hide ns e s) = m_timeouts s" "s_objects (hide ns e s) = s_objects s" "s_next (hide ns e s) = s_next s"
  "m_pCurrentAction (hide ns e s) = m_pCurrentAction s" "m_sleepState (hide ns e s) = m_sleepState s"
  "s_stopped (hide ns e s) = s_stopped s"
  "m_events (hide ns e s) e = filter (\<lambda>x. fst (snd x) \<notin> ns) (m_events s e)"
  "e' \<noteq> e \<Longrightarrow> m_events (hide ns e s) e' = m_events s e'"
  by (simp_all add: hide_def)

lemma hide_put: "hide ns e (put a act s) = put a act (hide ns e s)"
  by (simp add: hide_def put_def)

lemma list_insert_hide:
  "list_insert l l a s = Inr s' \<Longrightarrow> list_insert l l a (hide ns e s) = Inr (hide ns e s') \<and> m_events s' = m_events s"
  by (auto simp: list_insert_def deref_def bindR_eq_Inr hide_def put_def split: if_splits)

lemma list_insert_from_hide:
  "list_insert l l a (hide ns e s) = Inr t \<Longrightarrow> \<exists>s'. list_insert l l a s = Inr s'"
  by (auto simp: list_insert_def deref_def bindR_eq_Inr split: if_splits)

lemma fire_ok:
  assumes ok: "sched_ok c (hide N e s)" and a: "s_objects s a = Some act" and n: "n \<in> event_iters act" "n \<notin> N"
    and pair: "(n, a) \<in> snd ` set (m_events s e)"
  shows "sched_ok c (hide (insert n N) e (put a (act\<lparr>iter_event_ref := remove1 n (iter_event_ref act), aa_events := evs\<rparr>) s))"
proof -
  let ?act = "act\<lparr>iter_event_ref := remove1 n (iter_event_ref act), aa_events := evs\<rparr>"
  let ?h = "hide N e s"
  let ?s = "hide (insert n N) e (put a ?act s)"
  note k = sched_okD [OF ok]
  have a': "s_objects ?h a = Some act" using a by simp
  have d: "distinct (iter_event_ref act)" using objects_okD [OF k(6) a'] by (simp add: object_ok_def)
  have sub: "set (m_events ?s e') \<subseteq> set (m_events ?h e')" for e' by (cases "e' = e") auto
  have hpair: "(n, a) \<in> snd ` set (m_events ?h e)"
  proof -
    from pair obtain r where "(r, n, a) \<in> set (m_events s e)" by auto
    then have "(r, n, a) \<in> set (m_events ?h e)" using n(2) by simp
    then show ?thesis by force
  qed
  have removed: "snd ` set (m_events ?s e') = snd ` set (m_events ?h e') - {(n, a)}" for e'
  proof (cases "e' = e")
    case True
    have "b = a" if "(n, b) \<in> snd ` set (m_events ?h e)" for b
      using events_pair_unique [OF k(5) that hpair] by simp
    then show ?thesis unfolding True by force
  next
    case False
    have "(n, a) \<notin> snd ` set (m_events ?h e')"
      using events_pair_unique [OF k(5) _ hpair] False by blast
    with False show ?thesis by simp
  qed
  have "actions_ok ?s" by (rule actions_ok_cong [OF k(1)]) (simp_all add: a)
  moreover have "list_ok l ?s" for l by (rule list_ok_cong [OF k(2)]) (simp_all add: a)
  moreover have "paused_ok ?s" by (rule paused_ok_cong [OF k(3)]) (simp_all add: a)
  moreover have "timeouts_ok ?s" by (rule timeouts_ok_cong [OF k(4)]) (simp_all add: a)
  moreover have "events_ok ?s"
  proof -
    have f: "m_events ?s e' = filter (\<lambda>x. e' = e \<longrightarrow> fst (snd x) \<noteq> n) (m_events ?h e')" for e'
      by (cases "e' = e") (simp_all add: conj_commute)
    have "distinct (event_nodes (m_events ?s Events_wait) @ event_nodes (m_events ?s Events_sleep))"
      using k(5) unfolding f by (auto simp: events_ok_def event_nodes_def distinct_map_filter)
    moreover have "mm_sorted ref_key (m_events ?s e')" for e'
      using k(5) unfolding f by (simp add: events_ok_def mm_sorted_filter)
    moreover have "fst (snd x) < s_next ?s" if "x \<in> set (m_events ?s e')" for x e'
      using k(5) that sub [of e'] by (auto simp: events_ok_def)
    moreover have "holders event_iters (s_objects ?s) = holders event_iters (s_objects ?h) - {(n, a)}"
      using holders_upd [where objs = "s_objects s" and f = event_iters, OF a, of ?act] a d n(1)
      by (auto simp: holders_def)
    moreover have "snd ` set (m_events ?s Events_wait) \<union> snd ` set (m_events ?s Events_sleep) =
        (snd ` set (m_events ?h Events_wait) \<union> snd ` set (m_events ?h Events_sleep)) - {(n, a)}"
      unfolding removed by blast
    ultimately show ?thesis using k(5) unfolding events_ok_def by simp
  qed
  moreover have "objects_ok c ?s"
    unfolding objects_ok_def
  proof (intro allI impI)
    fix b act' assume b: "s_objects ?s b = Some act'"
    have keep: "x \<in> set (event_nodes (m_events ?s e'))" if "x \<in> set (event_nodes (m_events ?h e'))" "x \<noteq> n" for x e'
      using that unfolding in_event_nodes removed by blast
    show "object_ok c ?s b act'"
    proof (cases "b = a")
      case True
      with b have "act' = ?act" by simp
      moreover have sub: "places c a ?act \<subseteq> places c a act"
        by (rule places_subset; simp; use n(1) in auto)
      moreover have "one_place c a ?act"
        using objects_okD [OF k(6) a'] sub unfolding object_ok_def one_place_def by (meson subsetD)
      moreover have "aa_op ?act = None \<longrightarrow> places c a ?act = {}"
        using objects_okD [OF k(6) a'] sub by (auto simp: object_ok_def)
      moreover have "\<exists>e'. event_iters ?act \<subseteq> set (event_nodes (m_events ?s e'))"
        using objects_okD [OF k(6) a'] d keep unfolding object_ok_def by (auto simp del: hide_sel)
      moreover have "length (iter_event_ref ?act) \<le> length (iter_event_ref act)" by (simp add: length_remove1)
      ultimately show ?thesis using objects_okD [OF k(6) a'] d unfolding object_ok_def True by auto
    next
      case False
      with b have b': "s_objects ?h b = Some act'" by simp
      have "n \<notin> event_iters act'"
      proof
        assume "n \<in> event_iters act'"
        then have "(n, b) \<in> holders event_iters (s_objects ?h)" using b' by (auto simp: in_holders)
        then obtain e' where "(n, b) \<in> snd ` set (m_events ?h e')" using k(5) unfolding events_ok_def by blast
        from events_pair_unique [OF k(5) this hpair] False show False by simp
      qed
      moreover from objects_okD [OF k(6) b'] obtain e' where "event_iters act' \<subseteq> set (event_nodes (m_events ?h e'))"
        by (auto simp: object_ok_def)
      ultimately have "event_iters act' \<subseteq> set (event_nodes (m_events ?s e'))" using keep [of _ e'] by fast
      with objects_okD [OF k(6) b'] show ?thesis by (rule object_ok_events)
    qed
  qed
  ultimately show ?thesis using k(7) by (simp add: sched_ok_def)
qed

lemma calm_put:
  "s_objects s a = Some act \<Longrightarrow> calm_object act act' \<Longrightarrow> calm s (put a act' s)"
  unfolding calm_def by (metis calm_object_refl fun_upd_apply option.inject order_refl put_sel)

lemma put_same: "s_objects s a = Some act \<Longrightarrow> put a act s = s"
  by (simp add: put_def fun_upd_idem)

lemma no_iters: "iter_event_ref act = [] \<Longrightarrow> act\<lparr>iter_event_ref := []\<rparr> = act"
  by (cases act) simp

lemma deref_SomeD: "deref s a = Inr act \<Longrightarrow> s_objects s a = Some act"
  by (simp add: deref_def split: if_splits)

lemma calm_events:
  assumes "\<And>e. set (event_nodes (m e)) \<subseteq> set (event_nodes (m_events s e))"
  shows "calm s (s\<lparr>m_events := m\<rparr>)"
  using assms by (simp add: calm_def)

lemma list_insert_calm:
  assumes "list_insert l l a s = Inr s'"
  shows "calm s s'"
proof -
  let ?t = "s\<lparr>m_lists := (m_lists s)(l := m_lists s l @ [(s_next s, a)]), s_next := Suc (s_next s)\<rparr>"
  from assms obtain act where act: "deref s a = Inr act" "s' = put a (act\<lparr>aa_iter := (aa_iter act)(l \<mapsto> s_next s)\<rparr>) ?t"
    by (auto simp: list_insert_def bindR_eq_Inr)
  have "calm s ?t" by (simp add: calm_def)
  moreover have "calm ?t s'"
    unfolding act(2) by (rule calm_put [of _ _ act]) (simp_all add: deref_SomeD [OF act(1)] calm_object_def)
  ultimately show ?thesis by (rule calm_trans)
qed

lemma find_node:
  assumes "(r, n, a) \<in> set m" and "distinct (event_nodes m)"
  shows "find (\<lambda>x. fst (snd x) = n) m = Some (r, n, a)"
  using assms
proof (induction m)
  case (Cons x m)
  show ?case
  proof (cases "x = (r, n, a)")
    case False
    with Cons.prems(1) have m: "(r, n, a) \<in> set m" by simp
    then have "n \<in> set (event_nodes m)" by (force simp: event_nodes_def)
    with Cons.prems(2) have "fst (snd x) \<noteq> n" by (auto simp: event_nodes_def)
    with Cons.IH [OF m] Cons.prems(2) show ?thesis by (simp add: event_nodes_def)
  qed simp
qed simp

lemma on_event_entry_ok:
  assumes ok: "sched_ok c (hide N e s)" and entry: "(r, n, a) \<in> set (m_events s e)" "n \<notin> N"
    and d: "distinct (event_nodes (m_events s e))"
  shows "\<exists>s'. on_event_entry e ref n s = Inr s' \<and> sched_ok c (hide (insert n N) e s') \<and> m_events s' = m_events s \<and> calm s s'"
proof -
  note k = sched_okD [OF ok]
  have pair: "(n, a) \<in> snd ` set (m_events s e)" using entry(1) by force
  have "(r, n, a) \<in> set (m_events (hide N e s) e)" using entry by simp
  then have "(n, a) \<in> snd ` set (m_events (hide N e s) e)" by force
  then have "(n, a) \<in> holders event_iters (s_objects s)" using k(5) by (cases e) (auto simp: events_ok_def)
  then obtain act where a: "s_objects s a = Some act" "n \<in> event_iters act" by (auto simp: in_holders)
  let ?act = "act\<lparr>iter_event_ref := remove1 n (iter_event_ref act), aa_events := aa_events act @ [ref]\<rparr>"
  let ?s = "put a ?act s"
  have f: "sched_ok c (hide (insert n N) e ?s)" by (rule fire_ok [OF ok a(1,2) entry(2) pair])
  have "actions_ok s" using k(1) by (simp add: actions_ok_def)
  then have dr: "deref s a = Inr act" "deref ?s a = Inr ?act"
    using a(1) by (simp_all add: deref_def actions_ok_def) blast+
  have oa: "object_ok c (hide N e s) a act" using objects_okD [OF k(6)] a(1) by simp
  have cl: "calm s ?s" by (rule calm_put [OF a(1)]) (use set_remove1_subset [of n "iter_event_ref act"] in \<open>simp add: calm_object_def\<close>)
  have e1: "on_event_entry e ref n s =
      (if remove1 n (iter_event_ref act) = [] \<or> bWaitAny act then bindR (event_remove e a ?s) (active_insert a) else Inr ?s)"
    using a dr by (simp add: on_event_entry_def find_node [OF entry(1) d])
  show ?thesis
  proof (cases "remove1 n (iter_event_ref act) = []")
    case True
    have i: "iter_event_ref ?act = []" using True by simp
    have er: "event_remove e a ?s = Inr ?s"
      by (simp only: event_remove_def dr(2) bindR_Inr i event_erase.simps no_iters [OF i] put_same [OF deref_SomeD [OF dr(2)]])
    have ev: "iter_event_ref act \<noteq> []" using a(2) by auto
    have "places c a ?act = {}"
      using one_place_single [of c a act On_events] oa ev True by (simp add: object_ok_def free_places places_single)
    moreover have "aa_op ?act \<noteq> None" using oa ev by (auto simp: object_ok_def free_places)
    ultimately obtain t where t: "list_insert (getActive (m_sleepState s)) (getActive (m_sleepState s)) a (hide (insert n N) e ?s) = Inr t" "sched_ok c t"
      using list_insert_ok [OF f, of a ?act "getActive (m_sleepState s)"] by auto
    from list_insert_from_hide [OF t(1)] obtain s' where
      s': "list_insert (getActive (m_sleepState s)) (getActive (m_sleepState s)) a ?s = Inr s'" by blast
    from list_insert_hide [OF s', of "insert n N" e] t have "t = hide (insert n N) e s'" "m_events s' = m_events ?s" by simp_all
    moreover have "calm s s'" by (rule calm_trans [OF cl list_insert_calm [OF s']])
    ultimately show ?thesis using e1 True er s' t(2) by (simp add: active_insert_def)
  next
    case False
    have "\<not> bWaitAny act"
    proof
      assume "bWaitAny act"
      with oa a(2) have "length (iter_event_ref act) = 1" by (cases "iter_event_ref act") (auto simp: object_ok_def)
      with a(2) False show False by (cases "iter_event_ref act") auto
    qed
    with False e1 f cl show ?thesis by simp
  qed
qed

text \<open>The iterator to the first node of the rest of a map.\<close>

definition hd_node :: "(reference \<times> nat \<times> nat) list \<Rightarrow> nat option" where
  "hd_node xs = (case xs of [] \<Rightarrow> None | x # _ \<Rightarrow> Some (fst (snd x)))"

lemma hd_node_simps [simp]: "hd_node [] = None" "hd_node (x # xs) = Some (fst (snd x))"
  by (simp_all add: hd_node_def)

lemma event_nodes_simps [simp]:
  "event_nodes [] = []" "event_nodes (x # xs) = fst (snd x) # event_nodes xs" "event_nodes (xs @ ys) = event_nodes xs @ event_nodes ys"
  by (simp_all add: event_nodes_def)

lemma hd_node_valid: "set xs \<subseteq> set m \<Longrightarrow> valid_iter m (hd_node xs)"
  by (cases xs) (auto simp: valid_iter_def event_nodes_def)

lemma in_nodes: "x \<in> set xs \<Longrightarrow> fst (snd x) \<in> set (event_nodes xs)"
  by (simp add: event_nodes_def)

lemma dropWhile_nodes:
  "n \<notin> set (event_nodes P) \<Longrightarrow> dropWhile (\<lambda>x. fst (snd x) \<noteq> n) (P @ Q) = dropWhile (\<lambda>x. fst (snd x) \<noteq> n) Q"
  by (induction P) simp_all

lemma takeWhile_nodes:
  "n \<notin> set (event_nodes P) \<Longrightarrow> takeWhile (\<lambda>x. fst (snd x) \<noteq> n) (P @ Q) = P @ takeWhile (\<lambda>x. fst (snd x) \<noteq> n) Q"
  by (induction P) simp_all

lemma next_iter_eq:
  assumes "distinct (event_nodes (P @ x # Q))"
  shows "next_iter (P @ x # Q) (fst (snd x)) = hd_node Q"
  using assms by (cases Q) (simp_all add: next_iter_def dropWhile_nodes)

lemma on_event_loop_ok:
  assumes "m_events s e = P @ R @ U" and "distinct (event_nodes (P @ R @ U))" and "sched_ok c (hide N e s)"
    and "set (event_nodes R) \<inter> N = {}" and "length R < k"
  shows "\<exists>s'. on_event_loop k e ref (hd_node (R @ U)) (hd_node U) s = Inr s' \<and> sched_ok c (hide (N \<union> set (event_nodes R)) e s') \<and>
    m_events s' = m_events s \<and> calm s s'"
  using assms
proof (induction R arbitrary: P N s k)
  case Nil
  then obtain k' where "k = Suc k'" by (cases k) auto
  moreover have "valid_iter (m_events s e) (hd_node U)" using Nil.prems(1) by (intro hd_node_valid) auto
  ultimately show ?case using Nil.prems(3) by simp
next
  case (Cons x R)
  then obtain k' where k': "k = Suc k'" by (cases k) auto
  obtain r n a where x: "x = (r, n, a)" by (cases x)
  let ?m = "P @ x # R @ U"
  have m: "m_events s e = ?m" and d: "distinct (event_nodes ?m)" using Cons.prems(1,2) by simp_all
  have v: "valid_iter (m_events s e) (hd_node U)" using m by (intro hd_node_valid) auto
  have ne: "Some n \<noteq> hd_node U" using d x by (cases U) auto
  have "\<exists>s1. on_event_entry e ref n s = Inr s1 \<and> sched_ok c (hide (insert n N) e s1) \<and> m_events s1 = m_events s \<and> calm s s1"
    using Cons.prems(3,4) m d x by (intro on_event_entry_ok [of c N e s r n a]) auto
  then obtain s1 where s1: "on_event_entry e ref n s = Inr s1" "sched_ok c (hide (insert n N) e s1)" "m_events s1 = m_events s" "calm s s1"
    by blast
  have i: "next_iter ?m n = hd_node (R @ U)" using next_iter_eq [of P x "R @ U"] d x by simp
  have "\<exists>s'. on_event_loop k' e ref (hd_node (R @ U)) (hd_node U) s1 = Inr s' \<and>
      sched_ok c (hide (insert n N \<union> set (event_nodes R)) e s') \<and> m_events s' = m_events s1 \<and> calm s1 s'"
    using Cons.prems(4,5) k' s1(2) m d x by (intro Cons.IH [of s1 "P @ [x]"]) (auto simp: s1(3))
  then obtain s' where s': "on_event_loop k' e ref (hd_node (R @ U)) (hd_node U) s1 = Inr s'"
    "sched_ok c (hide (insert n N \<union> set (event_nodes R)) e s')" "m_events s' = m_events s1" "calm s1 s'" by blast
  have "on_event_loop k e ref (hd_node ((x # R) @ U)) (hd_node U) s = Inr s'"
    using v ne s1(1,3) s'(1) i x by (simp add: k' m)
  moreover have "N \<union> set (event_nodes (x # R)) = insert n N \<union> set (event_nodes R)" using x by auto
  ultimately show ?case using s'(2,3) s1(3) calm_trans [OF s1(4) s'(4)] by metis
qed

lemma ref_key_inject [simp]: "ref_key a = ref_key b \<longleftrightarrow> a = b"
  by (auto simp: ref_key_def intro: reference_eqI)

lemma sorted_parts:
  assumes "mm_sorted ref_key m"
  shows "m = filter (\<lambda>x. ref_key (fst x) < ref_key ref) m @ filter (\<lambda>x. fst x = ref) m @ filter (\<lambda>x. ref_key ref < ref_key (fst x)) m"
  using assms
proof (induction m)
  case (Cons x m)
  obtain a b where x: "x = (a, b)" by (cases x)
  have le: "\<forall>y \<in> set m. ref_key a \<le> ref_key (fst y)" and s: "mm_sorted ref_key m" using Cons.prems x by simp_all
  consider "ref_key a < ref_key ref" | "a = ref" | "ref_key ref < ref_key a"
    by (metis linorder_less_linear ref_key_inject)
  then show ?case
  proof cases
    case 1
    then have "a \<noteq> ref" "\<not> ref_key ref < ref_key a" by auto
    with 1 Cons.IH [OF s] x show ?thesis by simp
  next
    case 2
    then have "filter (\<lambda>x. ref_key (fst x) < ref_key ref) m = []" using le by (auto simp: filter_empty_conv)
    with 2 Cons.IH [OF s] x show ?thesis by simp
  next
    case 3
    with le have "filter (\<lambda>x. ref_key (fst x) < ref_key ref) m = []" "filter (\<lambda>x. fst x = ref) m = []"
      by (fastforce simp: filter_empty_conv)+
    moreover have "a \<noteq> ref" "\<not> ref_key a < ref_key ref" using 3 by auto
    ultimately show ?thesis using 3 Cons.IH [OF s] x by simp
  qed
qed simp

lemma find_append_none: "\<forall>x \<in> set L. \<not> P x \<Longrightarrow> find P (L @ Q) = find P Q"
  by (induction L) auto

lemma find_all: "\<forall>x \<in> set Q. P x \<Longrightarrow> map_option (fst \<circ> snd) (find P Q) = hd_node Q"
  by (cases Q) auto

lemma on_event_ok:
  assumes ok: "sched_ok c s"
  shows "\<exists>s'. on_event e ref s = Inr s' \<and> sched_ok c s' \<and> calm s s' \<and>
    m_events s' = (m_events s)(e := filter (\<lambda>x. fst x \<noteq> ref) (m_events s e))"
proof -
  let ?m = "m_events s e"
  define L where "L = filter (\<lambda>x. ref_key (fst x) < ref_key ref) ?m"
  define R where "R = filter (\<lambda>x. fst x = ref) ?m"
  define U where "U = filter (\<lambda>x. ref_key ref < ref_key (fst x)) ?m"
  note k = sched_okD [OF ok]
  have m: "?m = L @ R @ U" unfolding L_def R_def U_def using k(5) by (intro sorted_parts) (simp add: events_ok_def)
  have d: "distinct (event_nodes (L @ R @ U))" using k(5) m by (cases e) (simp_all add: events_ok_def)
  have keys: "\<forall>x \<in> set L. ref_key (fst x) < ref_key ref" "\<forall>x \<in> set R. fst x = ref" "\<forall>x \<in> set U. ref_key ref < ref_key (fst x)"
    by (auto simp: L_def R_def U_def)
  have lo: "lower_bound ?m ref = hd_node (R @ U)"
  proof -
    have "\<forall>x \<in> set L. \<not> \<not> ref_key (fst x) < ref_key ref" using keys(1) by simp
    moreover have "\<forall>x \<in> set (R @ U). \<not> ref_key (fst x) < ref_key ref" using keys(2,3) by (auto simp: less_imp_not_less)
    ultimately show ?thesis unfolding lower_bound_def m by (simp only: find_append_none find_all)
  qed
  have up: "upper_bound ?m ref = hd_node U"
  proof -
    have "\<forall>x \<in> set (L @ R). \<not> ref_key ref < ref_key (fst x)" using keys(1,2) by auto
    then show ?thesis unfolding upper_bound_def m using keys(3) find_append_none [of "L @ R" _ U] by (simp add: find_all)
  qed
  have h: "hide {} e s = s" by (simp add: hide_def)
  have lt: "length R < Suc (length ?m)" using m by simp
  from on_event_loop_ok [OF m d _ _ lt, of c "{}" ref] ok h obtain s' where
    s': "on_event_loop (Suc (length ?m)) e ref (hd_node (R @ U)) (hd_node U) s = Inr s'" "sched_ok c (hide (set (event_nodes R)) e s')"
      "m_events s' = m_events s" "calm s s'" by auto
  have range: "erase_range ?m (hd_node (R @ U)) (hd_node U) = L @ U"
  proof (cases "R @ U")
    case Nil
    then show ?thesis by (simp add: erase_range_def m)
  next
    case (Cons y Q)
    obtain r n a where y: "y = (r, n, a)" by (cases y)
    have nL: "n \<notin> set (event_nodes L)" using d unfolding Cons y by auto
    have d1: "takeWhile (\<lambda>x. fst (snd x) \<noteq> n) ?m = L" "dropWhile (\<lambda>x. fst (snd x) \<noteq> n) ?m = R @ U"
      unfolding m by (simp_all add: takeWhile_nodes [OF nL] dropWhile_nodes [OF nL] Cons y)
    have d2: "dropWhile (\<lambda>x. Some (fst (snd x)) \<noteq> hd_node U) (R @ U) = U"
    proof (cases U)
      case (Cons z V)
      have "fst (snd z) \<notin> set (event_nodes R)" using d Cons by auto
      with Cons show ?thesis by (simp add: dropWhile_nodes)
    qed simp
    show ?thesis using d1 d2 unfolding erase_range_def Cons y by simp
  qed
  have "filter (\<lambda>x. fst (snd x) \<notin> set (event_nodes R)) ?m = L @ U"
  proof -
    have "fst (snd x) \<notin> set (event_nodes R)" if "x \<in> set L \<union> set U" for x
      using d that in_nodes [of x L] in_nodes [of x U] by auto
    then have "filter (\<lambda>x. fst (snd x) \<notin> set (event_nodes R)) L = L" "filter (\<lambda>x. fst (snd x) \<notin> set (event_nodes R)) U = U"
      by (simp_all add: filter_id_conv)
    moreover have "filter (\<lambda>x. fst (snd x) \<notin> set (event_nodes R)) R = []" by (simp add: filter_empty_conv in_nodes)
    ultimately show ?thesis unfolding m by simp
  qed
  then have fin: "hide (set (event_nodes R)) e s' = s'\<lparr>m_events := (m_events s')(e := L @ U)\<rparr>" by (simp add: hide_def s'(3))
  have valid: "valid_iter ?m (hd_node (R @ U))" "valid_iter ?m (hd_node U)" using m by (auto intro!: hd_node_valid)
  have res: "on_event e ref s = Inr (s'\<lparr>m_events := (m_events s')(e := L @ U)\<rparr>)"
    using s'(1) valid range by (simp add: on_event_def lo up s'(3) Let_def)
  have LU: "L @ U = filter (\<lambda>x. fst x \<noteq> ref) ?m"
  proof -
    have "filter (\<lambda>x. fst x \<noteq> ref) L = L" "filter (\<lambda>x. fst x \<noteq> ref) R = []" "filter (\<lambda>x. fst x \<noteq> ref) U = U"
      using keys by (auto simp: filter_id_conv filter_empty_conv)
    then show ?thesis unfolding m by simp
  qed
  have "calm s' (s'\<lparr>m_events := (m_events s')(e := L @ U)\<rparr>)"
    by (rule calm_events) (use m s'(3) in auto)
  then have "calm s (s'\<lparr>m_events := (m_events s')(e := L @ U)\<rparr>)" by (rule calm_trans [OF s'(4)])
  moreover have "sched_ok c (s'\<lparr>m_events := (m_events s')(e := L @ U)\<rparr>)" using s'(2) unfolding fin .
  ultimately show ?thesis using res unfolding LU [symmetric] by (simp add: s'(3))
qed

end
