(* ===== verification/SchedulerRuns.thy ===== *)
theory SchedulerRuns
  imports SchedulerSafety
begin

text \<open>
  The calls on the scheduler and its cycle under the invariant of \<open>SchedulerSafety\<close>. \<open>call_allowed\<close> and
  \<open>cycle_allowed\<close> watch an execution: they state what the scheduler relies on without checking it.
\<close>

section \<open>The steps of a call\<close>

lemma object_in: "actions_ok s \<Longrightarrow> a \<in> snd ` set (m_actions s) \<longleftrightarrow> a \<in> dom (s_objects s)"
  by (simp add: actions_ok_def)

lemma find_action_object:
  assumes "actions_ok s" and "find_action ref s = Some a"
  shows "\<exists>act. s_objects s a = Some act"
proof -
  from assms(2) obtain x where "find (\<lambda>x. same_key (fst x) ref) (m_actions s) = Some x" "snd x = a"
    by (auto simp: find_action_def)
  then have "a \<in> snd ` set (m_actions s)" by (auto simp: find_Some_iff)
  with object_in [OF assms(1)] show ?thesis by auto
qed

lemma insert_action_ok:
  assumes ok: "sched_ok c s" and i: "insert_action ref pStopper action s = Some (a, s')"
  shows "sched_ok c s' \<and> s_objects s' = (s_objects s)(a \<mapsto> new_action ref pStopper action) \<and> a = s_next s \<and>
    m_pCurrentAction s' = m_pCurrentAction s \<and> places c a (new_action ref pStopper action) = {}"
proof -
  let ?act = "new_action ref pStopper action"
  note k = sched_okD [OF ok]
  from i have new: "find_action ref s = None" and a: "a = s_next s" and s': "s' = s\<lparr>m_actions := m_actions s @ [(ref, s_next s)],
      s_objects := (s_objects s)(s_next s \<mapsto> ?act), s_next := Suc (s_next s)\<rparr>"
    by (auto simp: insert_action_def split: if_splits)
  have lt: "\<forall>x \<in> set (m_actions s). snd x < s_next s" using k(1) by (simp add: actions_ok_def)
  have fresh: "s_next s \<notin> snd ` set (m_actions s)" using lt by fastforce
  then have none: "s_objects s (s_next s) = None" using object_in [OF k(1)] by blast
  have pl: "places c (s_next s) ?act = {}"
    using k(7) by (auto simp: free_places new_action_def current_ok_def)
  have neq: "\<forall>x \<in> set (m_actions s). \<not> same_key (fst x) ref"
    using new by (auto simp: find_action_def find_None_iff)
  have h: "holders f (s_objects s') = holders f (s_objects s)" if "f ?act = {}" for f
    using holders_new [where objs = "s_objects s", OF none, of f ?act] that by (simp add: s')
  have "actions_ok s'"
  proof -
    have "\<forall>x \<in> set (m_actions s). map_option aa_ref (s_objects s' (snd x)) = Some (fst x)"
      using k(1) lt by (auto simp: actions_ok_def s')
    then show ?thesis
      using k(1) fresh neq by (auto simp: actions_ok_def s' sorted_wrt_append new_action_def less_Suc_eq)
  qed
  moreover have "list_ok l s'" for l by (rule list_ok_cong [OF k(2)]) (simp_all add: h new_action_def, simp_all add: s')
  moreover have "paused_ok s'" by (rule paused_ok_cong [OF k(3)]) (simp_all add: h new_action_def, simp_all add: s')
  moreover have "timeouts_ok s'" by (rule timeouts_ok_cong [OF k(4)]) (simp_all add: h new_action_def, simp_all add: s')
  moreover have "events_ok s'" by (rule events_ok_cong [OF k(5)]) (simp_all add: h new_action_def, simp_all add: s')
  moreover have "objects_ok c s'"
    by (rule objects_ok_put [OF k(6), of _ "s_next s" ?act])
      (simp_all add: s' object_ok_def one_place_def pl, simp_all add: new_action_def)
  ultimately have "sched_ok c s'" using k(7) by (simp add: sched_ok_def s')
  then show ?thesis using a pl by (simp add: s')
qed

lemma new_action_op [simp]: "aa_op (new_action ref pStopper action) = action"
  by (simp add: new_action_def)

lemma sched_ok_cong:
  assumes "sched_ok c s" and "m_actions s' = m_actions s" "s_objects s' = s_objects s" "m_lists s' = m_lists s"
    "m_paused s' = m_paused s" "m_timeouts s' = m_timeouts s" "m_events s' = m_events s" "s_next s' = s_next s"
  shows "sched_ok c s'"
  using assms by (simp add: sched_ok_def sched_ok_defs object_ok_def)

lemma sched_ok_drop: "sched_ok c s \<Longrightarrow> sched_ok None s"
proof -
  assume ok: "sched_ok c s"
  note k = sched_okD [OF ok]
  have "object_ok None s a act" if "s_objects s a = Some act" for a act
    by (rule object_ok_less [OF objects_okD [OF k(6) that]]) (rule places_subset; simp | simp)+
  with ok show ?thesis by (simp add: sched_ok_def objects_ok_def current_ok_def)
qed

lemma erase_action_ok:
  assumes ok: "sched_ok c s" and a: "s_objects s a = Some act" and pl: "places None a act \<subseteq> {Is_paused}"
  shows "sched_ok c (erase_action a s)"
proof -
  let ?s = "erase_action a s"
  note k = sched_okD [OF ok]
  have f: "\<forall>l. aa_iter act l = None" "iter_event_ref act = []" "iter_timeout act = None" using pl by (simp_all add: places_single)
  have h: "holders f (s_objects ?s) = holders f (s_objects s) - f act \<times> {a}" for f
    using holders_del [where objs = "s_objects s", OF a, of f] by (simp add: erase_action_def)
  have "actions_ok ?s"
  proof -
    have "dom (s_objects ?s) = dom (s_objects s) - {a}" by (simp add: erase_action_def)
    moreover have "snd ` set (m_actions ?s) = snd ` set (m_actions s) - {a}" by (auto simp: erase_action_def)
    moreover have "map_option aa_ref (s_objects ?s (snd x)) = Some (fst x)" if "x \<in> set (m_actions ?s)" for x
      using k(1) that by (simp add: actions_ok_def erase_action_def)
    ultimately show ?thesis using k(1)
      by (simp add: actions_ok_def) (simp add: erase_action_def distinct_map_filter sorted_wrt_filter)
  qed
  moreover have "list_ok l ?s" for l using f by (intro list_ok_cong [OF k(2)]) (simp_all add: h, simp_all add: erase_action_def)
  moreover have "paused_ok ?s" by (rule paused_ok_cong [OF k(3)]) (simp_all add: h, auto simp add: erase_action_def)
  moreover have "timeouts_ok ?s" using f by (intro timeouts_ok_cong [OF k(4)]) (simp_all add: h, simp_all add: erase_action_def)
  moreover have "events_ok ?s" using f by (intro events_ok_cong [OF k(5)]) (simp_all add: h, simp_all add: erase_action_def)
  moreover have "objects_ok c ?s"
    using k(6) by (auto simp: objects_ok_def object_ok_def erase_action_def)
  ultimately show ?thesis using k(7) by (simp add: sched_ok_def, simp add: erase_action_def)
qed

lemma lists_cover: "l = getActive st \<or> l = getWaiting st \<or> l = getSleeping st"
  by (cases st; cases l) simp_all

lemma withdraw_ok:
  assumes ok: "sched_ok c s" and a: "s_objects s a = Some act" and ev: "event_iters act \<subseteq> set (event_nodes (m_events s Events_wait))"
  shows "\<exists>s'. withdraw a s = Inr s' \<and> sched_ok c s' \<and> only a s s' \<and>
    s_objects s' a = Some (act\<lparr>aa_iter := \<lambda>_. None, iter_event_ref := []\<rparr>)"
proof -
  from list_remove_ok [OF ok a, of "getActive (m_sleepState s)"] obtain s1 where
    s1: "active_remove a s = Inr s1" "sched_ok c s1" "only a s s1" "m_events s1 = m_events s"
      "s_objects s1 a = Some (act\<lparr>aa_iter := (aa_iter act)(getActive (m_sleepState s) := None)\<rparr>)"
    by (auto simp: active_remove_def)
  from list_remove_ok [OF s1(2,5), of "getWaiting (m_sleepState s)"] obtain s2 where
    s2: "wait_remove a s1 = Inr s2" "sched_ok c s2" "only a s1 s2" "m_events s2 = m_events s"
      "s_objects s2 a = Some (act\<lparr>aa_iter := (aa_iter act)(getActive (m_sleepState s) := None, getWaiting (m_sleepState s) := None)\<rparr>)"
    using s1(3,4) by (auto simp: wait_remove_def only_def)
  from list_remove_ok [OF s2(2,5), of "getSleeping (m_sleepState s)"] obtain s3 where
    s3: "sleep_remove a s2 = Inr s3" "sched_ok c s3" "only a s2 s3" "m_events s3 = m_events s"
      "s_objects s3 a = Some (act\<lparr>aa_iter := (aa_iter act)(getActive (m_sleepState s) := None, getWaiting (m_sleepState s) := None,
         getSleeping (m_sleepState s) := None)\<rparr>)"
    using s1(3) s2(3,4) by (auto simp: sleep_remove_def only_def)
  have i: "(aa_iter act)(getActive (m_sleepState s) := None, getWaiting (m_sleepState s) := None,
         getSleeping (m_sleepState s) := None) = (\<lambda>_. None)"
    using lists_cover [of _ "m_sleepState s"] by fastforce
  have "event_iters (act\<lparr>aa_iter := \<lambda>_. None\<rparr>) \<subseteq> set (event_nodes (m_events s3 Events_wait))" using ev s3(4) by simp
  from event_remove_ok [OF s3(2) s3(5) [unfolded i] this] obtain s4 where
    s4: "event_remove Events_wait a s3 = Inr s4" "sched_ok c s4" "only a s3 s4"
      "s_objects s4 a = Some (act\<lparr>aa_iter := \<lambda>_. None, iter_event_ref := []\<rparr>)" by auto
  from event_remove_ok [OF s4(2,4), of Events_sleep] obtain s5 where
    s5: "event_remove Events_sleep a s4 = Inr s5" "sched_ok c s5" "only a s4 s5"
      "s_objects s5 a = Some (act\<lparr>aa_iter := \<lambda>_. None, iter_event_ref := []\<rparr>)" by auto
  have "only a s s5" using s1(3) s2(3) s3(3) s4(3) s5(3) only_trans by blast
  with s1(1) s2(1) s3(1) s4(1) s5 show ?thesis by (simp add: withdraw_def)
qed

section \<open>What a caller has to observe\<close>

text \<open>An action may be withdrawn when no timeout and no event of a sleep is pending for it.\<close>

definition may_withdraw :: "nat \<Rightarrow> scheduler \<Rightarrow> bool" where
  "may_withdraw a s \<longleftrightarrow>
     (case s_objects s a of
        None \<Rightarrow> False
      | Some act \<Rightarrow> iter_timeout act = None \<and> event_iters act \<inter> set (event_nodes (m_events s Events_sleep)) = {})"

text \<open>Only an action that was called, and not the running one, may be paused.\<close>

definition may_pause :: "nat \<Rightarrow> scheduler \<Rightarrow> bool" where
  "may_pause a s \<longleftrightarrow> may_withdraw a s \<and> m_pCurrentAction s \<noteq> Some a \<and>
     (case s_objects s a of None \<Rightarrow> False | Some act \<Rightarrow> aa_op act \<noteq> None)"

definition may_unpause :: "nat \<Rightarrow> scheduler \<Rightarrow> bool" where
  "may_unpause a s \<longleftrightarrow> (case s_objects s a of None \<Rightarrow> False | Some act \<Rightarrow> iter_pause act \<noteq> None)"

definition then_allowed :: "scheduler result \<Rightarrow> (scheduler \<Rightarrow> bool) \<Rightarrow> bool" where
  "then_allowed r P = (case r of Inl _ \<Rightarrow> True | Inr s \<Rightarrow> P s)"

lemma then_allowed_simps [simp]: "then_allowed (Inl e) P = True" "then_allowed (Inr s) P = P s"
  by (simp_all add: then_allowed_def)

fun call_allowed :: "scheduler_call \<Rightarrow> scheduler \<Rightarrow> bool"
  and calls_allowed :: "scheduler_call list \<Rightarrow> scheduler \<Rightarrow> bool" where
  "call_allowed (Allocated_ref ref pStopper) s = True"
| "call_allowed (Call_ref ref pStopper action) s = True"
| "call_allowed (Signal_ref ref) s = True"
| "call_allowed (Stop_ref ref cs) s =
     (case find_action ref s of
        None \<Rightarrow> True
      | Some a \<Rightarrow> may_withdraw a s \<and>
          then_allowed (bindR (deref s a) (\<lambda>act. bindR (finish a s) (\<lambda>s. Inr (call_stopper act s)))) (calls_allowed cs))"
| "call_allowed (StopperStopped ref) s = (case find_action ref s of None \<Rightarrow> True | Some a \<Rightarrow> may_withdraw a s)"
| "call_allowed (Pause_ref ref) s = (case find_action ref s of None \<Rightarrow> True | Some a \<Rightarrow> may_pause a s)"
| "call_allowed (Unpause_ref ref) s = (case find_action ref s of None \<Rightarrow> True | Some a \<Rightarrow> may_unpause a s)"
| "calls_allowed [] s = True"
| "calls_allowed (c # cs) s = (call_allowed c s \<and> then_allowed (do_call c s) (calls_allowed cs))"

section \<open>Calls keep the invariant\<close>

text \<open>The running action is there, except while its own stopper runs.\<close>

definition call_ok :: "nat set \<Rightarrow> scheduler \<Rightarrow> bool" where
  "call_ok D s \<longleftrightarrow> sched_ok (m_pCurrentAction s) s \<and>
     (\<forall>a. m_pCurrentAction s = Some a \<longrightarrow> a \<in> dom (s_objects s) \<or> a \<in> D)"

definition step_ok :: "nat set \<Rightarrow> scheduler \<Rightarrow> scheduler \<Rightarrow> bool" where
  "step_ok D s s' \<longleftrightarrow> call_ok D s' \<and> m_pCurrentAction s' \<in> {m_pCurrentAction s, None}"

lemma step_ok_same:
  assumes "call_ok D s" and "sched_ok (m_pCurrentAction s) s'" and "m_pCurrentAction s' = m_pCurrentAction s"
    and "m_actions s' = m_actions s"
  shows "step_ok D s s'"
proof -
  have "dom (s_objects s') = dom (s_objects s)"
    using assms object_in sched_okD(1) unfolding call_ok_def by (metis subsetI subset_antisym)
  with assms show ?thesis by (simp add: step_ok_def call_ok_def)
qed

lemma allocated_ok:
  assumes "call_ok D s"
  shows "step_ok D s (allocated ref pStopper s)"
proof (cases "insert_action ref pStopper None s")
  case None
  with assms show ?thesis by (simp add: allocated_def step_ok_def)
next
  case (Some x)
  obtain a s' where x: "x = (a, s')" by (cases x)
  from assms have ok: "sched_ok (m_pCurrentAction s) s" by (simp add: call_ok_def)
  from insert_action_ok [OF ok Some [unfolded x]] assms Some x show ?thesis
    by (auto simp: allocated_def step_ok_def call_ok_def)
qed

lemma call_step_ok:
  assumes "call_ok D s"
  shows "\<exists>s'. call ref pStopper action s = Inr s' \<and> step_ok D s s'"
proof (cases "insert_action ref pStopper (Some action) s")
  case None
  with assms show ?thesis by (simp add: call_def step_ok_def)
next
  case (Some x)
  obtain a t where x: "x = (a, t)" by (cases x)
  from assms have ok: "sched_ok (m_pCurrentAction s) s" by (simp add: call_ok_def)
  note t = insert_action_ok [OF ok Some [unfolded x]]
  have t_ok: "call_ok D t" using t assms by (auto simp: call_ok_def)
  have o: "s_objects t a = Some (new_action ref pStopper (Some action))" using t by simp
  have "\<exists>s'. active_insert a t = Inr s' \<and> sched_ok (m_pCurrentAction s) s'"
    unfolding active_insert_def getActiveIter_getActive
  proof (rule list_insert_ok [OF conjunct1 [OF t] o])
    show "places (m_pCurrentAction s) a (new_action ref pStopper (Some action)) = {}" using t by blast
  qed simp
  then obtain s' where s': "active_insert a t = Inr s'" "sched_ok (m_pCurrentAction s) s'" by blast
  have "calm t s'" using s'(1) list_insert_calm by (simp add: active_insert_def)
  with step_ok_same [OF t_ok, of s'] s'(2) t have "step_ok D t s'" by (simp add: calm_def)
  with t Some x s'(1) show ?thesis by (simp add: call_def step_ok_def)
qed

lemma on_event_step_ok:
  assumes "call_ok D s"
  shows "\<exists>s'. on_event e ref s = Inr s' \<and> step_ok D s s' \<and> calm s s'"
proof -
  from assms have "sched_ok (m_pCurrentAction s) s" by (simp add: call_ok_def)
  from on_event_ok [OF this, of e ref] obtain s' where
    s': "on_event e ref s = Inr s'" "sched_ok (m_pCurrentAction s) s'" "calm s s'" by blast
  with step_ok_same [OF assms s'(2)] show ?thesis by (simp add: calm_def)
qed

lemma step_ok_trans: "step_ok D s s' \<Longrightarrow> step_ok D s' s'' \<Longrightarrow> step_ok D s s''"
  by (auto simp: step_ok_def)

lemma signal_ok:
  assumes "call_ok D s"
  shows "\<exists>s'. signal ref s = Inr s' \<and> step_ok D s s'"
proof -
  from on_event_step_ok [OF assms, of Events_wait ref] obtain s1 where
    s1: "on_event Events_wait ref s = Inr s1" "step_ok D s s1" by blast
  from on_event_step_ok [of D s1 Events_sleep ref] s1(2) obtain s2 where
    "on_event Events_sleep ref s1 = Inr s2" "step_ok D s1 s2" by (auto simp: step_ok_def)
  with s1 step_ok_trans show ?thesis by (fastforce simp: signal_def)
qed

lemma withdraw_step_ok:
  assumes ok: "sched_ok c s" and a: "s_objects s a = Some act" and may: "may_withdraw a s"
  shows "\<exists>s'. withdraw a s = Inr s' \<and> sched_ok c s' \<and> only a s s' \<and>
    s_objects s' a = Some (act\<lparr>aa_iter := \<lambda>_. None, iter_event_ref := []\<rparr>)"
proof (rule withdraw_ok [OF ok a])
  note k = sched_okD [OF ok]
  show "event_iters act \<subseteq> set (event_nodes (m_events s Events_wait))"
  proof
    fix n assume n: "n \<in> event_iters act"
    then have "(n, a) \<in> holders event_iters (s_objects s)" using a by (auto simp: in_holders)
    then have "n \<in> set (event_nodes (m_events s Events_wait)) \<or> n \<in> set (event_nodes (m_events s Events_sleep))"
      using k(5) unfolding events_ok_def in_event_nodes by blast
    with may a n show "n \<in> set (event_nodes (m_events s Events_wait))" by (auto simp: may_withdraw_def)
  qed
qed

lemma calmD: "calm s s' \<Longrightarrow> s_objects s a = Some act \<Longrightarrow> \<exists>act'. s_objects s' a = Some act' \<and> calm_object act act'"
  unfolding calm_def by blast

lemma may_withdraw_calm:
  assumes "calm s s'" and "may_withdraw a s"
  shows "may_withdraw a s'"
proof -
  from assms(2) obtain act where act: "s_objects s a = Some act" "iter_timeout act = None"
    "event_iters act \<inter> set (event_nodes (m_events s Events_sleep)) = {}" by (auto simp: may_withdraw_def split: option.splits)
  from calmD [OF assms(1) act(1)] obtain act' where act': "s_objects s' a = Some act'" "calm_object act act'" by blast
  have "set (event_nodes (m_events s' Events_sleep)) \<subseteq> set (event_nodes (m_events s Events_sleep))" using assms(1) by (simp add: calm_def)
  with act act' show ?thesis unfolding may_withdraw_def calm_object_def by auto
qed

lemma finish_ok:
  assumes ok: "call_ok D s" and a: "s_objects s a = Some act" and may: "may_withdraw a s"
  shows "\<exists>s'. finish a s = Inr s' \<and> call_ok (insert a D) s' \<and> m_pCurrentAction s' = m_pCurrentAction s"
proof -
  have sok: "sched_ok (m_pCurrentAction s) s" using ok by (simp add: call_ok_def)
  have d: "deref s a = Inr act" by (rule deref_object [OF sched_okD(1) [OF sok] a])
  from on_event_ok [OF sok, of Events_wait "aa_ref act"] obtain s1 where
    s1: "on_event Events_wait (aa_ref act) s = Inr s1" "sched_ok (m_pCurrentAction s) s1" "calm s s1" by blast
  from on_event_ok [OF s1(2), of Events_sleep "aa_ref act"] obtain s2 where
    s2: "on_event Events_sleep (aa_ref act) s1 = Inr s2" "sched_ok (m_pCurrentAction s) s2" "calm s1 s2" by blast
  have calm: "calm s s2" by (rule calm_trans [OF s1(3) s2(3)])
  from calmD [OF this a] obtain act2 where act2: "s_objects s2 a = Some act2" "calm_object act act2" by blast
  from withdraw_step_ok [OF s2(2) act2(1) may_withdraw_calm [OF calm may]] obtain s3 where
    s3: "withdraw a s2 = Inr s3" "sched_ok (m_pCurrentAction s) s3" "only a s2 s3"
      "s_objects s3 a = Some (act2\<lparr>aa_iter := \<lambda>_. None, iter_event_ref := []\<rparr>)" by blast
  have t: "iter_timeout act2 = None" using act2(2) may a by (simp add: calm_object_def may_withdraw_def)
  have s4: "sched_ok (m_pCurrentAction s) (erase_action a s3)"
    by (rule erase_action_ok [OF s3(2,4)]) (simp add: places_single t)
  have "finish a s = Inr (erase_action a s3)" using d s1(1) s2(1) s3(1) by (simp add: finish_def)
  moreover have cur: "m_pCurrentAction (erase_action a s3) = m_pCurrentAction s"
    using calm s3(3) by (simp add: erase_action_def calm_def only_def)
  moreover have "dom (s_objects (erase_action a s3)) = dom (s_objects s) - {a}"
  proof -
    have "m_actions s3 = m_actions s" using calm s3(3) by (simp add: calm_def only_def)
    then have "dom (s_objects s3) = dom (s_objects s)"
      using object_in [OF sched_okD(1) [OF s3(2)]] object_in [OF sched_okD(1) [OF sok]] by auto
    then show ?thesis by (simp add: erase_action_def)
  qed
  ultimately show ?thesis using ok s4 by (auto simp: call_ok_def)
qed

lemma clear_current_ok:
  assumes "call_ok (insert a D) s"
  shows "step_ok D s (clear_current a s)"
proof (cases "m_pCurrentAction s = Some a")
  case True
  have "sched_ok None (s\<lparr>m_pCurrentAction := None\<rparr>)"
  proof -
    have "sched_ok (m_pCurrentAction s) s" using assms by (simp add: call_ok_def)
    then have "sched_ok None s" by (rule sched_ok_drop)
    then show ?thesis by (rule sched_ok_cong) simp_all
  qed
  with True show ?thesis by (simp add: clear_current_def step_ok_def call_ok_def)
next
  case False
  with assms show ?thesis by (auto simp: clear_current_def step_ok_def call_ok_def)
qed

lemma pause_ok:
  assumes ok: "call_ok D s" and allowed: "call_allowed (Pause_ref ref) s"
  shows "\<exists>s'. pause ref s = Inr s' \<and> step_ok D s s'"
proof (cases "find_action ref s")
  case None
  with ok show ?thesis by (simp add: pause_def step_ok_def)
next
  case (Some a)
  have sok: "sched_ok (m_pCurrentAction s) s" using ok by (simp add: call_ok_def)
  from find_action_object [OF sched_okD(1) [OF sok] Some] obtain act where act: "s_objects s a = Some act" by blast
  have may: "may_withdraw a s" "m_pCurrentAction s \<noteq> Some a" "aa_op act \<noteq> None"
    using allowed Some act by (simp_all add: may_pause_def)
  from withdraw_step_ok [OF sok act may(1)] obtain s1 where
    s1: "withdraw a s = Inr s1" "sched_ok (m_pCurrentAction s) s1" "only a s s1"
      "s_objects s1 a = Some (act\<lparr>aa_iter := \<lambda>_. None, iter_event_ref := []\<rparr>)" by blast
  have t: "iter_timeout act = None" using may(1) act by (simp add: may_withdraw_def)
  have "places (m_pCurrentAction s) a (act\<lparr>aa_iter := \<lambda>_. None, iter_event_ref := []\<rparr>) \<subseteq> {Is_paused}"
    using t may(2) by (simp add: places_single)
  from pause_insert_ok [OF s1(2,4) this] may(3) obtain s2 where
    s2: "pause_insert a s1 = Inr s2" "sched_ok (m_pCurrentAction s) s2" by auto
  have "m_pCurrentAction s2 = m_pCurrentAction s1" "m_actions s2 = m_actions s1"
    using s2(1) by (auto simp: pause_insert_def bindR_eq_Inr)
  with step_ok_same [OF ok s2(2)] s1(3) Some s1(1) s2(1) show ?thesis by (simp add: pause_def only_def)
qed

lemma unpause_ok:
  assumes ok: "call_ok D s" and allowed: "call_allowed (Unpause_ref ref) s"
  shows "\<exists>s'. unpause ref s = Inr s' \<and> step_ok D s s'"
proof (cases "find_action ref s")
  case None
  with ok show ?thesis by (simp add: unpause_def step_ok_def)
next
  case (Some a)
  have sok: "sched_ok (m_pCurrentAction s) s" using ok by (simp add: call_ok_def)
  from find_action_object [OF sched_okD(1) [OF sok] Some] obtain act where act: "s_objects s a = Some act" by blast
  have p: "iter_pause act \<noteq> None" using allowed Some act by (simp add: may_unpause_def)
  from objects_okD [OF sched_okD(6) [OF sok] act] have oa: "object_ok (m_pCurrentAction s) s a act" .
  from pause_remove_ok [OF sok act] obtain s1 where
    s1: "pause_remove a s = Inr s1" "sched_ok (m_pCurrentAction s) s1" "only a s s1"
      "s_objects s1 a = Some (act\<lparr>iter_pause := None\<rparr>)" by blast
  have "places (m_pCurrentAction s) a act \<subseteq> {Is_paused}"
    using one_place_single [of _ a act Is_paused] oa p by (simp add: object_ok_def)
  then have pl: "places (m_pCurrentAction s) a (act\<lparr>iter_pause := None\<rparr>) = {}" by (simp add: places_single free_places)
  have "aa_op act \<noteq> None" using oa p by (auto simp: object_ok_def free_places)
  with list_insert_ok [OF s1(2,4) pl, of "getActive (m_sleepState s1)"] obtain s2 where
    s2: "active_insert a s1 = Inr s2" "sched_ok (m_pCurrentAction s) s2" by (auto simp: active_insert_def)
  have "calm s1 s2" using s2(1) list_insert_calm by (simp add: active_insert_def)
  with step_ok_same [OF ok s2(2)] s1(3) Some s1(1) s2(1) show ?thesis by (simp add: unpause_def only_def calm_def)
qed

lemma stopperStopped_ok:
  assumes ok: "call_ok D s" and allowed: "call_allowed (StopperStopped ref) s"
  shows "\<exists>s'. stopperStopped ref s = Inr s' \<and> step_ok D s s'"
proof (cases "find_action ref s")
  case None
  with ok show ?thesis by (simp add: stopperStopped_def step_ok_def)
next
  case (Some a)
  have sok: "sched_ok (m_pCurrentAction s) s" using ok by (simp add: call_ok_def)
  from find_action_object [OF sched_okD(1) [OF sok] Some] obtain act where act: "s_objects s a = Some act" by blast
  have may: "may_withdraw a s" using allowed Some by simp
  from finish_ok [OF ok act may] obtain s1 where
    s1: "finish a s = Inr s1" "call_ok (insert a D) s1" "m_pCurrentAction s1 = m_pCurrentAction s" by blast
  from clear_current_ok [OF s1(2)] s1(1,3) Some show ?thesis by (simp add: stopperStopped_def step_ok_def)
qed

lemma call_stopper_ok [simp]: "call_ok D (call_stopper act s) \<longleftrightarrow> call_ok D s"
proof -
  have "sched_ok c (call_stopper act s) \<longleftrightarrow> sched_ok c s" for c
    by (rule iffI; erule sched_ok_cong) (simp_all add: call_stopper_def)
  then show ?thesis by (simp add: call_ok_def) (simp add: call_stopper_def)
qed

lemma do_calls_ok:
  "call_ok D s \<Longrightarrow> call_allowed c s \<Longrightarrow> \<exists>s'. do_call c s = Inr s' \<and> step_ok D s s'"
  "call_ok D s \<Longrightarrow> calls_allowed cs s \<Longrightarrow> \<exists>s'. do_calls cs s = Inr s' \<and> step_ok D s s'"
proof (induction c s and cs s arbitrary: D and D rule: do_call_do_calls.induct)
  case (1 ref pStopper s)
  then show ?case using allocated_ok by simp
next
  case (2 ref pStopper action s)
  then show ?case using call_step_ok by simp
next
  case (3 ref s)
  then show ?case using signal_ok by simp
next
  case (4 ref cs s)
  show ?case
  proof (cases "find_action ref s")
    case None
    with "4.prems"(1) show ?thesis by (simp add: step_ok_def)
  next
    case (Some a)
    have sok: "sched_ok (m_pCurrentAction s) s" using "4.prems"(1) by (simp add: call_ok_def)
    from find_action_object [OF sched_okD(1) [OF sok] Some] obtain act where act: "s_objects s a = Some act" by blast
    have d: "deref s a = Inr act" by (rule deref_object [OF sched_okD(1) [OF sok] act])
    have may: "may_withdraw a s" using "4.prems"(2) Some by simp
    from finish_ok [OF "4.prems"(1) act may] obtain s1 where
      s1: "finish a s = Inr s1" "call_ok (insert a D) s1" "m_pCurrentAction s1 = m_pCurrentAction s" by blast
    have "calls_allowed cs (call_stopper act s1)" using "4.prems"(2) Some d s1(1) by simp
    with "4.IH" [OF Some d s1(1)] s1(2) obtain s2 where
      s2: "do_calls cs (call_stopper act s1) = Inr s2" "step_ok (insert a D) (call_stopper act s1) s2" by auto
    from s2(2) have "call_ok (insert a D) s2" by (simp add: step_ok_def)
    from clear_current_ok [OF this] s2(2) s1(3) have "step_ok D s (clear_current a s2)"
      by (auto simp: step_ok_def call_stopper_def)
    with Some d s1(1) s2(1) show ?thesis by simp
  qed
next
  case (5 ref s)
  then show ?case using stopperStopped_ok by (simp del: call_allowed.simps)
next
  case (6 ref s)
  then show ?case using pause_ok by (simp del: call_allowed.simps)
next
  case (7 ref s)
  then show ?case using unpause_ok by (simp del: call_allowed.simps)
next
  case (8 s)
  then show ?case by (simp add: step_ok_def)
next
  case (9 c cs s)
  from "9.IH"(1) [OF "9.prems"(1)] "9.prems"(2) obtain s1 where
    s1: "do_call c s = Inr s1" "step_ok D s s1" by auto
  with "9.prems"(2) have "calls_allowed cs s1" by simp
  with "9.IH"(2) [OF s1(1)] s1(2) obtain s2 where "do_calls cs s1 = Inr s2" "step_ok D s1 s2" by (auto simp: step_ok_def)
  with s1 step_ok_trans show ?case by fastforce
qed

section \<open>A cycle keeps the invariant\<close>

text \<open>The same conditions along a cycle, and that an action waits for at most one event at a time when it
  waits for any of them.\<close>

fun reason_allowed :: "return_reason \<Rightarrow> nat \<Rightarrow> scheduler \<Rightarrow> bool" where
  "reason_allowed (Reason_Wait_Any evs) a s \<longleftrightarrow> length evs \<le> 1"
| "reason_allowed (Reason_Sleep_Any evs) a s \<longleftrightarrow> length evs \<le> 1"
| "reason_allowed (Reason_Terminated cs) a s \<longleftrightarrow>
     then_allowed (bindR (deref s a) (\<lambda>act.
       bindR (on_event Events_wait (aa_ref act) (erase_action a s)) (\<lambda>s.
       bindR (on_event Events_sleep (aa_ref act) s) (\<lambda>s. Inr (call_stopper act s))))) (calls_allowed cs)"
| "reason_allowed _ a s \<longleftrightarrow> True"

definition run_allowed :: "coroutine_run \<Rightarrow> nat \<Rightarrow> scheduler \<Rightarrow> bool" where
  "run_allowed r a s \<longleftrightarrow>
     then_allowed (active_remove a s) (\<lambda>s.
       let s = set_coroutine a (Some False) (s\<lparr>m_pCurrentAction := Some a\<rparr>)
       in calls_allowed (run_calls r) s \<and>
          then_allowed (do_calls (run_calls r) s) (\<lambda>s.
            let s = set_coroutine a (Some (run_done r)) s in m_pCurrentAction s = None \<or> reason_allowed (run_reason r) a s))"

fun loop_allowed :: "coroutine_run list \<Rightarrow> scheduler \<Rightarrow> bool" where
  "loop_allowed [] s = True"
| "loop_allowed (r # rs) s =
     (if \<not> runnable s then True
      else let s = (if m_lists s (getActive (m_sleepState s)) = [] then swapActiveWait s else s)
           in case m_lists s (getActive (m_sleepState s)) of
                [] \<Rightarrow> True
              | (n, a) # _ \<Rightarrow> run_allowed r a s \<and> then_allowed (run_action r a s) (loop_allowed rs))"

fun never_allowed :: "scheduler_call list list \<Rightarrow> scheduler \<Rightarrow> bool" where
  "never_allowed [] s = True"
| "never_allowed (cs # css) s =
     (case m_events s Events_wait of
        [] \<Rightarrow> True
      | (r, n, a) # _ \<Rightarrow>
          (case deref s a of Inl _ \<Rightarrow> True | Inr act \<Rightarrow>
             call_allowed (Stop_ref (aa_ref act) cs) s \<and> then_allowed (do_call (Stop_ref (aa_ref act) cs) s) (never_allowed css)))"

definition cycle_allowed :: "(nat \<Rightarrow> int) \<Rightarrow> coroutine_run list \<Rightarrow> scheduler_call list list \<Rightarrow> scheduler \<Rightarrow> bool" where
  "cycle_allowed now runs stoppers s \<longleftrightarrow>
     then_allowed (timeouts_loop (Suc (length (m_timeouts s))) now 0 s) (\<lambda>s.
       let s = (if \<not> runnable s then swapActiveSleep s else s)
       in loop_allowed runs s \<and> (case run_loop runs s of Inl _ \<Rightarrow> True | Inr (rs, s) \<Rightarrow> never_allowed stoppers s))"

text \<open>No action is running.\<close>

definition idle :: "scheduler \<Rightarrow> bool" where
  "idle s \<longleftrightarrow> sched_ok None s \<and> m_pCurrentAction s = None"

lemma idle_call_ok: "idle s \<longleftrightarrow> call_ok {} s \<and> m_pCurrentAction s = None"
  by (auto simp: idle_def call_ok_def)

lemma idle_calls:
  assumes "idle s" and "calls_allowed cs s"
  shows "\<exists>s'. do_calls cs s = Inr s' \<and> idle s'"
  using do_calls_ok(2) [of "{}" s cs] assms by (auto simp: idle_call_ok step_ok_def)

lemma timeouts_loop_ok:
  "idle s \<Longrightarrow> length (m_timeouts s) < fuel \<Longrightarrow> \<exists>s'. timeouts_loop fuel now k s = Inr s' \<and> idle s'"
proof (induction fuel arbitrary: s k)
  case (Suc fuel)
  show ?case
  proof (cases "m_timeouts s")
    case Nil
    with Suc.prems(1) show ?thesis by simp
  next
    case (Cons x xs)
    obtain t n a where x: "x = (t, n, a)" by (cases x)
    show ?thesis
    proof (cases "t \<le> now k")
      case False
      with Cons x Suc.prems(1) show ?thesis by simp
    next
      case True
      have ok: "sched_ok None s" "m_pCurrentAction s = None" using Suc.prems(1) by (simp_all add: idle_def)
      note k = sched_okD [OF ok(1)]
      have "(n, a) \<in> snd ` set (m_timeouts s)" using Cons x by force
      then have "(n, a) \<in> holders timeout_iter (s_objects s)" using k(4) by (simp add: timeouts_ok_def)
      then obtain act where act: "s_objects s a = Some act" "iter_timeout act = Some n" by (auto simp: in_holders)
      from timeout_remove_ok [OF ok(1) act] obtain s1 where
        s1: "timeout_remove a s = Inr s1" "sched_ok None s1" "only a s s1" "s_objects s1 a = Some (act\<lparr>iter_timeout := None\<rparr>)"
          "m_timeouts s1 = filter (\<lambda>x. fst (snd x) \<noteq> n) (m_timeouts s)" by blast
      have oa: "object_ok None s a act" using objects_okD [OF k(6) act(1)] .
      have "places None a act \<subseteq> {On_timeout}"
        using one_place_single [of None a act On_timeout] oa act(2) by (simp add: object_ok_def)
      then have pl: "places None a (act\<lparr>iter_timeout := None\<rparr>) = {}" by (simp add: places_single free_places)
      have "aa_op act \<noteq> None" using oa act(2) by (auto simp: object_ok_def free_places)
      with list_insert_ok [OF s1(2,4) pl, of "getActive (m_sleepState s1)"] obtain s2 where
        s2: "active_insert a s1 = Inr s2" "sched_ok None s2" by (auto simp: active_insert_def)
      have "calm s1 s2" using s2(1) list_insert_calm by (simp add: active_insert_def)
      then have c: "m_pCurrentAction s2 = None" "m_timeouts s2 = m_timeouts s1" using s1(3) ok(2) by (simp_all add: calm_def only_def)
      have "length (m_timeouts s2) \<le> length xs" by (simp add: c(2) s1(5) Cons x)
      then have "length (m_timeouts s2) < fuel" using Suc.prems(2) Cons by simp
      with Suc.IH [of s2 "Suc k"] s2(2) c(1) obtain s' where "timeouts_loop fuel now (Suc k) s2 = Inr s'" "idle s'"
        by (auto simp: idle_def)
      with Cons x True s1(1) s2(1) show ?thesis by simp
    qed
  qed
qed simp

lemma set_coroutine_ok:
  assumes "sched_ok c s"
  shows "sched_ok c (set_coroutine a x s)"
proof (cases "s_objects s a")
  case None
  with assms show ?thesis by (simp add: set_coroutine_def)
next
  case (Some act)
  let ?act = "act\<lparr>aa_coroutine := x\<rparr>"
  let ?s = "put a ?act s"
  note k = sched_okD [OF assms]
  have "actions_ok ?s" by (rule actions_ok_cong [OF k(1)]) (simp_all add: Some)
  moreover have "list_ok l ?s" for l by (rule list_ok_cong [OF k(2)]) (simp_all add: Some)
  moreover have "paused_ok ?s" by (rule paused_ok_cong [OF k(3)]) (simp_all add: Some)
  moreover have "timeouts_ok ?s" by (rule timeouts_ok_cong [OF k(4)]) (simp_all add: Some)
  moreover have "events_ok ?s" by (rule events_ok_cong [OF k(5)]) (simp_all add: Some)
  moreover have "objects_ok c ?s"
  proof (rule objects_ok_put [OF k(6)])
    show "object_ok c ?s a ?act"
      by (rule object_ok_less [OF objects_okD [OF k(6) Some]]) (rule places_subset; simp | simp)+
  qed simp_all
  ultimately have "sched_ok c ?s" using k(7) by (simp add: sched_ok_def)
  with Some show ?thesis by (simp add: set_coroutine_def)
qed

lemma set_coroutine_sel [simp]:
  "m_pCurrentAction (set_coroutine a x s) = m_pCurrentAction s" "dom (s_objects (set_coroutine a x s)) = dom (s_objects s)"
  "m_actions (set_coroutine a x s) = m_actions s" "m_lists (set_coroutine a x s) = m_lists s"
  "m_sleepState (set_coroutine a x s) = m_sleepState s"
  by (auto simp: set_coroutine_def split: option.splits)

lemma sched_ok_start:
  assumes ok: "sched_ok None s" and a: "s_objects s a = Some act" and pl: "places None a act = {}" and op: "aa_op act \<noteq> None"
  shows "sched_ok (Some a) s"
proof -
  note k = sched_okD [OF ok]
  have "object_ok (Some a) s b act'" if b: "s_objects s b = Some act'" for b act'
  proof (cases "b = a")
    case True
    have "places (Some a) a act \<subseteq> {Is_current}" using pl by (simp add: places_single free_places)
    from single_one_place [OF this] show ?thesis using objects_okD [OF k(6) a] op True b a by (auto simp: object_ok_def)
  next
    case False
    show ?thesis by (rule object_ok_less [OF objects_okD [OF k(6) b]]) (rule places_subset; use False in simp | simp)+
  qed
  moreover have "a < s_next s"
  proof -
    have "a \<in> snd ` set (m_actions s)" using object_in [OF k(1)] a by blast
    with k(1) show ?thesis by (auto simp: actions_ok_def)
  qed
  ultimately show ?thesis using ok by (simp add: sched_ok_def objects_ok_def current_ok_def)
qed

lemma on_reason_ok:
  assumes ok: "sched_ok (Some a) s" and a: "s_objects s a = Some act" and cur: "m_pCurrentAction s = Some a"
    and allowed: "reason_allowed reason a s"
  shows "\<exists>s'. on_reason reason a s = Inr s' \<and> sched_ok None s'"
proof -
  have ok': "sched_ok None s" by (rule sched_ok_drop [OF ok])
  have oa: "object_ok (Some a) s a act" using objects_okD [OF sched_okD(6) [OF ok] a] .
  have "places (Some a) a act \<subseteq> {Is_current}" using one_place_single [of "Some a" a act Is_current] oa by (simp add: object_ok_def)
  then have pl: "places None a act = {}" by (simp add: places_single free_places)
  have op: "aa_op act \<noteq> None" using oa by (auto simp: object_ok_def free_places)
  note wait = await_ok [OF ok' a pl op]
  show ?thesis
  proof (cases reason)
    case (Reason_Terminated cs)
    have d: "deref s a = Inr act" by (rule deref_object [OF sched_okD(1) [OF ok] a])
    have e: "sched_ok (Some a) (erase_action a s)" by (rule erase_action_ok [OF ok a]) (simp add: pl)
    have "call_ok {a} (erase_action a s)" using e cur by (simp add: call_ok_def) (simp add: erase_action_def)
    from on_event_step_ok [OF this, of Events_wait "aa_ref act"] obtain s1 where
      s1: "on_event Events_wait (aa_ref act) (erase_action a s) = Inr s1" "step_ok {a} (erase_action a s) s1" by blast
    from on_event_step_ok [of "{a}" s1 Events_sleep "aa_ref act"] s1(2) obtain s2 where
      s2: "on_event Events_sleep (aa_ref act) s1 = Inr s2" "step_ok {a} s1 s2" by (auto simp: step_ok_def)
    have "calls_allowed cs (call_stopper act s2)" using allowed Reason_Terminated d s1(1) s2(1) by simp
    moreover have "call_ok {a} (call_stopper act s2)" using s2(2) by (simp add: step_ok_def)
    ultimately obtain s3 where s3: "do_calls cs (call_stopper act s2) = Inr s3" "step_ok {a} (call_stopper act s2) s3"
      using do_calls_ok(2) by blast
    have "sched_ok (m_pCurrentAction s3) s3" using s3(2) by (simp add: step_ok_def call_ok_def)
    then have "sched_ok None s3" by (rule sched_ok_drop)
    with Reason_Terminated d s1(1) s2(1) s3(1) show ?thesis by simp
  qed (use wait allowed list_insert_ok [OF ok' a pl op] timeout_insert_ok [OF ok' a pl op] in
       \<open>simp_all add: wait_insert_def sleep_insert_def\<close>)
qed

lemma run_action_ok:
  assumes idle: "idle s" and a: "(n, a) \<in> set (m_lists s (getActive (m_sleepState s)))" and allowed: "run_allowed r a s"
  shows "\<exists>s'. run_action r a s = Inr s' \<and> idle s'"
proof -
  let ?l = "getActive (m_sleepState s)"
  have ok: "sched_ok None s" "m_pCurrentAction s = None" using idle by (simp_all add: idle_def)
  note k = sched_okD [OF ok(1)]
  have "(n, a) \<in> holders (list_iter ?l) (s_objects s)" using k(2) [of ?l] a by (simp add: list_ok_def)
  then obtain act where act: "s_objects s a = Some act" "aa_iter act ?l = Some n" by (auto simp: in_holders)
  from list_remove_ok [OF ok(1) act(1), of ?l] obtain s1 where
    s1: "active_remove a s = Inr s1" "sched_ok None s1" "only a s s1"
      "s_objects s1 a = Some (act\<lparr>aa_iter := (aa_iter act)(?l := None)\<rparr>)" by (auto simp: active_remove_def)
  let ?act = "act\<lparr>aa_iter := (aa_iter act)(?l := None)\<rparr>"
  have oa: "object_ok None s a act" using objects_okD [OF k(6) act(1)] .
  have "places None a act \<subseteq> {In_list ?l}"
    using one_place_single [of None a act "In_list ?l"] oa act(2) by (simp add: object_ok_def)
  then have pl: "places None a ?act = {}" by (simp add: places_single free_places)
  have op: "aa_op act \<noteq> None" using oa act(2) by (auto simp: object_ok_def free_places)
  let ?s2 = "set_coroutine a (Some False) (s1\<lparr>m_pCurrentAction := Some a\<rparr>)"
  have "sched_ok (Some a) s1" by (rule sched_ok_start [OF s1(2,4) pl]) (simp add: op)
  then have "sched_ok (Some a) (s1\<lparr>m_pCurrentAction := Some a\<rparr>)" by (rule sched_ok_cong) simp_all
  then have "sched_ok (Some a) ?s2" by (rule set_coroutine_ok)
  moreover have "a \<in> dom (s_objects ?s2)" using s1(4) by (simp only: set_coroutine_sel) auto
  ultimately have c2: "call_ok {} ?s2" by (simp add: call_ok_def del: domIff)
  have calls: "calls_allowed (run_calls r) ?s2" using allowed s1(1) by (simp add: run_allowed_def Let_def)
  from do_calls_ok(2) [OF c2 calls] obtain s3 where
    s3: "do_calls (run_calls r) ?s2 = Inr s3" "step_ok {} ?s2 s3" by blast
  let ?s4 = "set_coroutine a (Some (run_done r)) s3"
  have e: "run_action r a s = (if m_pCurrentAction ?s4 = None then Inr ?s4
      else bindR (on_reason (run_reason r) a ?s4) (\<lambda>s. Inr (s\<lparr>m_pCurrentAction := None\<rparr>)))"
  proof -
    from op obtain x where "aa_op act = Some x" by auto
    with s1(1) s3(1) deref_object [OF sched_okD(1) [OF s1(2)] s1(4)] show ?thesis by (simp add: run_action_def Let_def)
  qed
  have ok4: "sched_ok (m_pCurrentAction ?s4) ?s4" using s3(2) set_coroutine_ok by (simp add: step_ok_def call_ok_def)
  show ?thesis
  proof (cases "m_pCurrentAction ?s4 = None")
    case True
    with e ok4 show ?thesis by (simp add: idle_def)
  next
    case False
    then have cur: "m_pCurrentAction ?s4 = Some a" using s3(2) by (auto simp: step_ok_def)
    then have "a \<in> dom (s_objects s3)" using s3(2) by (auto simp: step_ok_def call_ok_def)
    then have "a \<in> dom (s_objects ?s4)" by simp
    then obtain act4 where act4: "s_objects ?s4 a = Some act4" by blast
    have "reason_allowed (run_reason r) a ?s4"
      using allowed s1(1) s3(1) cur by (simp add: run_allowed_def Let_def)
    from on_reason_ok [OF _ act4 cur this] ok4 cur obtain s5 where
      s5: "on_reason (run_reason r) a ?s4 = Inr s5" "sched_ok None s5" by auto
    have "sched_ok None (s5\<lparr>m_pCurrentAction := None\<rparr>)" by (rule sched_ok_cong [OF s5(2)]) simp_all
    with e False s5(1) show ?thesis by (auto simp: idle_def)
  qed
qed

lemma getActive_swap [simp]:
  "getActive (swap_active_wait st) = getWaiting st" "getWaiting (swap_active_wait st) = getActive st"
  "getSleeping (swap_active_wait st) = getSleeping st" "getActive (swap_active_sleep st) = getSleeping st"
  "getWaiting (swap_active_sleep st) = getWaiting st" "getSleeping (swap_active_sleep st) = getActive st"
  by (cases st; simp)+

lemma idle_swap: "idle s \<Longrightarrow> idle (swapActiveWait s)" "idle s \<Longrightarrow> idle (swapActiveSleep s)"
  by (auto simp: idle_def swapActiveWait_def swapActiveSleep_def elim!: sched_ok_cong)

lemma run_loop_ok:
  "idle s \<Longrightarrow> loop_allowed rs s \<Longrightarrow>
   (\<exists>rs' s'. run_loop rs s = Inr (rs', s') \<and> idle s') \<or> run_loop rs s = Inl OutOfFuel"
proof (induction rs arbitrary: s)
  case (Cons r rs)
  show ?case
  proof (cases "runnable s")
    case True
    let ?s = "if m_lists s (getActive (m_sleepState s)) = [] then swapActiveWait s else s"
    have idle: "idle ?s" using Cons.prems(1) idle_swap by simp
    have "m_lists ?s (getActive (m_sleepState ?s)) \<noteq> []" using True by (simp add: runnable_def swapActiveWait_def)
    then obtain n a xs where f: "m_lists ?s (getActive (m_sleepState ?s)) = (n, a) # xs"
      by (metis neq_Nil_conv surj_pair)
    have allowed: "run_allowed r a ?s" "then_allowed (run_action r a ?s) (loop_allowed rs)"
      using Cons.prems(2) True f by (simp_all add: Let_def)
    from run_action_ok [OF idle _ allowed(1)] f obtain s1 where s1: "run_action r a ?s = Inr s1" "idle s1" by auto
    have "run_loop (r # rs) s = run_loop rs s1" using True f s1(1) by (simp add: Let_def)
    with Cons.IH [OF s1(2)] allowed(2) s1(1) show ?thesis by simp
  qed (use Cons.prems in simp)
qed simp

lemma never_got_ok:
  "idle s \<Longrightarrow> never_allowed css s \<Longrightarrow> (\<exists>s'. never_got css s = Inr s' \<and> idle s') \<or> never_got css s = Inl OutOfFuel"
proof (induction css arbitrary: s)
  case (Cons cs css)
  show ?case
  proof (cases "m_events s Events_wait")
    case Nil
    with Cons.prems(1) show ?thesis by simp
  next
    case (Cons x xs)
    obtain r n a where x: "x = (r, n, a)" by (cases x)
    note k = sched_okD [OF conjunct1 [OF \<open>idle s\<close> [unfolded idle_def]]]
    have "(n, a) \<in> snd ` set (m_events s Events_wait)" using Cons x by force
    then have "(n, a) \<in> holders event_iters (s_objects s)" using k(5) by (auto simp: events_ok_def)
    then obtain act where "s_objects s a = Some act" by (auto simp: in_holders)
    then have d: "deref s a = Inr act" by (rule deref_object [OF k(1)])
    let ?c = "Stop_ref (aa_ref act) cs"
    have allowed: "call_allowed ?c s" "then_allowed (do_call ?c s) (never_allowed css)"
      using Cons.prems(2) Cons x d by (simp_all del: call_allowed.simps do_call.simps)
    have "call_ok {} s" using Cons.prems(1) by (simp add: idle_call_ok)
    from do_calls_ok(1) [OF this allowed(1)] Cons.prems(1) obtain s1 where
      s1: "do_call ?c s = Inr s1" "idle s1" by (auto simp: idle_call_ok step_ok_def)
    have "never_got (cs # css) s = never_got css s1" using Cons x d s1(1) by (simp del: do_call.simps)
    with Cons.IH [OF s1(2)] allowed(2) s1(1) show ?thesis by simp
  qed
qed simp

lemma cycle_ok:
  assumes "idle s" and "cycle_allowed now runs stoppers s"
  shows "(\<exists>s'. cycle now runs stoppers s = Inr s' \<and> idle s') \<or> cycle now runs stoppers s = Inl OutOfFuel"
proof -
  from timeouts_loop_ok [OF assms(1), of _ now 0] obtain s1 where
    s1: "timeouts_loop (Suc (length (m_timeouts s))) now 0 s = Inr s1" "idle s1" by blast
  let ?s = "if \<not> runnable s1 then swapActiveSleep s1 else s1"
  have idle: "idle ?s" using s1(2) idle_swap by simp
  have allowed: "loop_allowed runs ?s" "case run_loop runs ?s of Inl _ \<Rightarrow> True | Inr (rs, s) \<Rightarrow> never_allowed stoppers s"
    using assms(2) s1(1) by (simp_all add: cycle_allowed_def Let_def)
  from run_loop_ok [OF idle allowed(1)] show ?thesis
  proof
    assume "\<exists>rs' s'. run_loop runs ?s = Inr (rs', s') \<and> idle s'"
    then obtain rs' s2 where s2: "run_loop runs ?s = Inr (rs', s2)" "idle s2" by blast
    have "cycle now runs stoppers s = never_got stoppers s2" using s1(1) s2(1) by (simp add: cycle_def)
    moreover have "never_allowed stoppers s2" using allowed(2) s2(1) by simp
    ultimately show ?thesis using never_got_ok [OF s2(2)] by simp
  next
    assume "run_loop runs ?s = Inl OutOfFuel"
    with s1(1) show ?thesis by (simp add: cycle_def)
  qed
qed

end
