(* ===== verification/SchedulerProperties.thy ===== *)
theory SchedulerProperties
  imports SchedulerRuns
begin

text \<open>
  The properties of the scheduler: the invariant of its reachable states and the safety of a cycle, the
  three lists as an abstract machine of queues with its liveness, the waking of actions by their events,
  and three sequences of calls that use an erased node.
\<close>

section \<open>Reachable states\<close>

inductive reachable :: "scheduler \<Rightarrow> bool" where
  reachable_new: "reachable new_scheduler"
| reachable_calls: "reachable s \<Longrightarrow> calls_allowed cs s \<Longrightarrow> do_calls cs s = Inr s' \<Longrightarrow> reachable s'"
| reachable_cycle: "reachable s \<Longrightarrow> cycle_allowed now runs stoppers s \<Longrightarrow> cycle now runs stoppers s = Inr s' \<Longrightarrow> reachable s'"

lemma reachable_idle: "reachable s \<Longrightarrow> idle s"
proof (induction rule: reachable.induct)
  case reachable_new
  show ?case by (simp add: idle_def new_scheduler_ok) (simp add: new_scheduler_def)
next
  case (reachable_calls s cs s')
  with idle_calls [of s cs] show ?case by auto
next
  case (reachable_cycle s now runs stoppers s')
  with cycle_ok [of s now runs stoppers] show ?case by auto
qed

section \<open>The queues\<close>

text \<open>What the lists say about the order in which the actions run.\<close>

record queues =
  q_active :: "nat list"
  q_wait :: "nat list"
  q_sleep :: "nat list"

definition queues_of :: "scheduler \<Rightarrow> queues" where
  "queues_of s = \<lparr>q_active = map snd (m_lists s (getActive (m_sleepState s))), q_wait = map snd (m_lists s (getWaiting (m_sleepState s))),
     q_sleep = map snd (m_lists s (getSleeping (m_sleepState s)))\<rparr>"

fun queue_reason :: "return_reason \<Rightarrow> nat \<Rightarrow> queues \<Rightarrow> queues" where
  "queue_reason Reason_Wait a q = q\<lparr>q_wait := q_wait q @ [a]\<rparr>"
| "queue_reason Reason_Sleep a q = q\<lparr>q_sleep := q_sleep q @ [a]\<rparr>"
| "queue_reason _ a q = q"

definition queue_front :: "queues \<Rightarrow> queues" where
  "queue_front q = (if q_active q = [] then q\<lparr>q_active := q_wait q, q_wait := []\<rparr> else q)"

fun queue_loop :: "return_reason list \<Rightarrow> queues \<Rightarrow> (return_reason list \<times> queues) option" where
  "queue_loop [] q = (if q_active q = [] \<and> q_wait q = [] then Some ([], q) else None)"
| "queue_loop (r # rs) q =
     (case q_active (queue_front q) of
        [] \<Rightarrow> Some (r # rs, q)
      | a # as \<Rightarrow> queue_loop rs (queue_reason r a ((queue_front q)\<lparr>q_active := as\<rparr>)))"

text \<open>A run that makes no call and does not terminate the action.\<close>

definition quiet :: "coroutine_run \<Rightarrow> bool" where
  "quiet r \<longleftrightarrow> run_calls r = [] \<and>
     (case run_reason r of
        Reason_Wait_Any evs \<Rightarrow> length evs \<le> 1
      | Reason_Sleep_Any evs \<Rightarrow> length evs \<le> 1
      | Reason_Terminated _ \<Rightarrow> False
      | _ \<Rightarrow> True)"

lemma quiet_allowed: "quiet r \<Longrightarrow> run_allowed r a s"
  by (auto simp: quiet_def run_allowed_def then_allowed_def Let_def split: return_reason.splits sum.splits)

lemma runnable_queues: "runnable s \<longleftrightarrow> q_active (queue_front (queues_of s)) \<noteq> []"
  by (auto simp: runnable_def queues_of_def queue_front_def)

lemma queues_swap:
  "m_lists s (getActive (m_sleepState s)) = [] \<Longrightarrow> queues_of (swapActiveWait s) = queue_front (queues_of s)"
  by (simp add: queues_of_def queue_front_def swapActiveWait_def)

lemma other_lists [simp]:
  "getActive st \<noteq> getWaiting st" "getActive st \<noteq> getSleeping st" "getWaiting st \<noteq> getSleeping st"
  "getWaiting st \<noteq> getActive st" "getSleeping st \<noteq> getActive st" "getSleeping st \<noteq> getWaiting st"
  by (cases st; simp)+

lemma list_insert_lists:
  "list_insert i l a s = Inr s' \<Longrightarrow> m_lists s' = (m_lists s)(l := m_lists s l @ [(s_next s, a)]) \<and> m_sleepState s' = m_sleepState s"
  by (auto simp: list_insert_def bindR_eq_Inr)

lemma event_insert_lists:
  "event_insert e a ev s = Inr s' \<Longrightarrow> m_lists s' = m_lists s \<and> m_sleepState s' = m_sleepState s"
  by (auto simp: event_insert_def bindR_eq_Inr)

lemma await_lists:
  assumes "await e any evs a s = Inr s'"
  shows "m_lists s' = m_lists s \<and> m_sleepState s' = m_sleepState s"
proof -
  from assms obtain t where t: "foldR (event_insert e a) evs s = Inr t"
    and s': "m_lists s' = m_lists t" "m_sleepState s' = m_sleepState t" by (auto simp: await_def bindR_eq_Inr)
  have "m_lists t = m_lists s \<and> m_sleepState t = m_sleepState s" if "foldR (event_insert e a) evs s = Inr t" for s
    using that by (induction evs arbitrary: s) (auto simp: bindR_eq_Inr dest!: event_insert_lists)
  from this [OF t] s' show ?thesis by simp
qed

lemma queues_sel: "queues_of s = \<lparr>q_active = A, q_wait = W, q_sleep = S\<rparr> \<longleftrightarrow>
   map snd (m_lists s (getActive (m_sleepState s))) = A \<and> map snd (m_lists s (getWaiting (m_sleepState s))) = W \<and>
   map snd (m_lists s (getSleeping (m_sleepState s))) = S"
  by (simp add: queues_of_def)

lemma on_reason_queues:
  assumes "on_reason r a s = Inr s'" and "\<nexists>cs. r = Reason_Terminated cs"
  shows "queues_of s' = queue_reason r a (queues_of s)"
proof (cases r)
  case (Reason_Timeout t)
  with assms(1) show ?thesis by (auto simp: timeout_insert_def bindR_eq_Inr queues_of_def)
qed (use assms in \<open>auto simp: wait_insert_def sleep_insert_def queues_of_def dest!: list_insert_lists await_lists\<close>)

lemma queues_cong: "m_lists s' = m_lists s \<Longrightarrow> m_sleepState s' = m_sleepState s \<Longrightarrow> queues_of s' = queues_of s"
  by (simp add: queues_of_def)

lemma active_remove_queues:
  assumes ok: "sched_ok None s" and a: "m_lists s (getActive (m_sleepState s)) = (n, a) # xs" and r: "active_remove a s = Inr s'"
  shows "queues_of s' = (queues_of s)\<lparr>q_active := map snd xs\<rparr>"
proof -
  let ?l = "getActive (m_sleepState s)"
  note k = sched_okD [OF ok]
  have "(n, a) \<in> holders (list_iter ?l) (s_objects s)" using k(2) [of ?l] a by (auto simp: list_ok_def)
  then obtain act where act: "s_objects s a = Some act" "aa_iter act ?l = Some n" by (auto simp: in_holders)
  have "n \<notin> fst ` set xs" using k(2) [of ?l] a by (simp add: list_ok_def)
  then have f: "filter (\<lambda>e. fst e \<noteq> n) xs = xs" unfolding filter_id_conv by (metis imageI)
  from r have "s' = put a (act\<lparr>aa_iter := (aa_iter act)(?l := None)\<rparr>) (s\<lparr>m_lists := (m_lists s)(?l := xs)\<rparr>)"
    by (simp add: active_remove_def list_remove_def deref_object [OF k(1) act(1)] act(2) a f)
  then show ?thesis by (simp add: queues_of_def)
qed

lemma run_action_queues:
  assumes idle: "idle s" and a: "m_lists s (getActive (m_sleepState s)) = (n, a) # xs" and q: "quiet r"
  shows "\<exists>s'. run_action r a s = Inr s' \<and> idle s' \<and>
    queues_of s' = queue_reason (run_reason r) a ((queues_of s)\<lparr>q_active := map snd xs\<rparr>)"
proof -
  from run_action_ok [OF idle _ quiet_allowed [OF q]] a obtain s' where s': "run_action r a s = Inr s'" "idle s'" by force
  then obtain s1 where s1: "active_remove a s = Inr s1" by (auto simp: run_action_def bindR_eq_Inr)
  let ?s2 = "set_coroutine a (Some (run_done r)) (set_coroutine a (Some False) (s1\<lparr>m_pCurrentAction := Some a\<rparr>))"
  from s' s1 q obtain s3 where s3: "on_reason (run_reason r) a ?s2 = Inr s3" "s' = s3\<lparr>m_pCurrentAction := None\<rparr>"
    by (auto simp: run_action_def bindR_eq_Inr quiet_def Let_def)
  have "queues_of s' = queues_of s3" unfolding s3(2) by (rule queues_cong) simp_all
  also have "\<dots> = queue_reason (run_reason r) a (queues_of ?s2)"
    by (rule on_reason_queues [OF s3(1)]) (use q in \<open>auto simp: quiet_def\<close>)
  also have "queues_of ?s2 = queues_of s1" by (rule queues_cong) simp_all
  also have "queues_of s1 = (queues_of s)\<lparr>q_active := map snd xs\<rparr>"
    by (rule active_remove_queues [OF _ a s1]) (use idle in \<open>simp add: idle_def\<close>)
  finally show ?thesis using s' by blast
qed

lemma run_loop_queues:
  "idle s \<Longrightarrow> list_all quiet rs \<Longrightarrow>
   (case queue_loop (map run_reason rs) (queues_of s) of
      None \<Rightarrow> run_loop rs s = Inl OutOfFuel
    | Some (ks, q) \<Rightarrow> \<exists>rs' s'. run_loop rs s = Inr (rs', s') \<and> map run_reason rs' = ks \<and> idle s' \<and> queues_of s' = q)"
proof (induction rs arbitrary: s)
  case Nil
  then show ?case by (auto simp: runnable_def queues_of_def)
next
  case (Cons r rs)
  let ?s = "if m_lists s (getActive (m_sleepState s)) = [] then swapActiveWait s else s"
  have q: "queues_of ?s = queue_front (queues_of s)"
    by (simp add: queues_swap) (simp add: queue_front_def queues_of_def)
  have idle: "idle ?s" using Cons.prems(1) idle_swap by simp
  show ?case
  proof (cases "m_lists ?s (getActive (m_sleepState ?s))")
    case Nil
    then have "q_active (queue_front (queues_of s)) = []" unfolding q [symmetric] by (simp add: queues_of_def)
    then show ?thesis using runnable_queues [of s] Cons.prems(1) by simp
  next
    case (Cons x xs)
    obtain n a where x: "x = (n, a)" by (cases x)
    then have f: "q_active (queue_front (queues_of s)) = a # map snd xs" unfolding q [symmetric] using Cons by (simp add: queues_of_def)
    from run_action_queues [OF idle Cons [unfolded x]] \<open>list_all quiet (r # rs)\<close> obtain s1 where
      s1: "run_action r a ?s = Inr s1" "idle s1" "queues_of s1 = queue_reason (run_reason r) a ((queue_front (queues_of s))\<lparr>q_active := map snd xs\<rparr>)"
      unfolding q by auto
    have run: "runnable s" using f by (simp add: runnable_queues)
    have step: "run_loop (r # rs) s = run_loop rs s1" using run Cons [unfolded x] s1(1) by (simp add: Let_def)
    have "queue_loop (map run_reason (r # rs)) (queues_of s) = queue_loop (map run_reason rs) (queues_of s1)"
      using f s1(3) by simp
    then show ?thesis using Cons.IH [OF s1(2)] \<open>list_all quiet (r # rs)\<close> by (simp only: step) simp
  qed
qed

text \<open>Runs that do not wait for events of this cycle and are not run again in it.\<close>

definition run_once :: "coroutine_run \<Rightarrow> bool" where
  "run_once r \<longleftrightarrow> run_calls r = [] \<and>
     (case run_reason r of
        Reason_Sleep \<Rightarrow> True
      | Reason_Sleep_All evs \<Rightarrow> True
      | Reason_Timeout t \<Rightarrow> True
      | _ \<Rightarrow> False)"

lemma run_once_quiet: "run_once r \<Longrightarrow> quiet r \<and> run_reason r \<noteq> Reason_Wait"
  by (auto simp: run_once_def quiet_def split: return_reason.splits)

lemma await_events: "await e any evs a s = Inr s' \<Longrightarrow> e' \<noteq> e \<Longrightarrow> m_events s' e' = m_events s e'"
proof -
  have "foldR (event_insert e a) evs s = Inr t \<Longrightarrow> e' \<noteq> e \<Longrightarrow> m_events t e' = m_events s e'" for t
    by (induction evs arbitrary: s) (fastforce simp: bindR_eq_Inr event_insert_def)+
  then show "await e any evs a s = Inr s' \<Longrightarrow> e' \<noteq> e \<Longrightarrow> m_events s' e' = m_events s e'"
    by (auto simp: await_def bindR_eq_Inr)
qed

lemma run_action_events:
  assumes "run_action r a s = Inr s'" and "run_once r"
  shows "m_events s' Events_wait = m_events s Events_wait"
proof -
  from assms(1) obtain s1 where s1: "active_remove a s = Inr s1" by (auto simp: run_action_def bindR_eq_Inr)
  let ?s2 = "set_coroutine a (Some (run_done r)) (set_coroutine a (Some False) (s1\<lparr>m_pCurrentAction := Some a\<rparr>))"
  from assms s1 obtain s3 where s3: "on_reason (run_reason r) a ?s2 = Inr s3" "m_events s' = m_events s3"
    by (auto simp: run_action_def bindR_eq_Inr Let_def run_once_def)
  have "m_events s1 = m_events s"
    using s1 by (auto simp: active_remove_def list_remove_def bindR_eq_Inr split: option.splits if_splits)
  moreover have "m_events s3 Events_wait = m_events ?s2 Events_wait"
    using s3(1) assms(2) await_events [of Events_sleep _ _ a ?s2 s3 Events_wait]
    by (auto simp: run_once_def sleep_insert_def list_insert_def timeout_insert_def bindR_eq_Inr split: return_reason.splits)
  ultimately show ?thesis using s3(2) by (simp add: set_coroutine_def split: option.splits)
qed

lemma run_loop_events:
  "run_loop rs s = Inr (rs', s') \<Longrightarrow> \<forall>r \<in> set rs. run_once r \<Longrightarrow> m_events s' Events_wait = m_events s Events_wait"
proof (induction rs arbitrary: s)
  case (Cons r rs)
  let ?s = "if m_lists s (getActive (m_sleepState s)) = [] then swapActiveWait s else s"
  have e: "m_events ?s = m_events s" by (simp add: swapActiveWait_def)
  show ?case
  proof (cases "runnable s")
    case True
    with Cons.prems(1) obtain n a xs t where t: "m_lists ?s (getActive (m_sleepState ?s)) = (n, a) # xs" "run_action r a ?s = Inr t"
      "run_loop rs t = Inr (rs', s')" by (auto simp: Let_def bindR_eq_Inr split: list.splits)
    from Cons.IH [OF t(3)] run_action_events [OF t(2)] Cons.prems(2) e show ?thesis by simp
  qed (use Cons.prems(1) in simp)
qed (simp split: if_splits)

text \<open>The loop ends when enough runs leave the active and the waiting list.\<close>

definition leaving :: "return_reason list \<Rightarrow> nat" where
  "leaving rs = length (filter (\<lambda>r. r \<noteq> Reason_Wait) rs)"

definition q_runnable :: "queues \<Rightarrow> nat" where
  "q_runnable q = length (q_active q) + length (q_wait q)"

lemma queue_loop_ends:
  "q_runnable q \<le> leaving rs \<Longrightarrow> \<exists>ks q'. queue_loop rs q = Some (ks, q') \<and> q_active q' = [] \<and> q_wait q' = []"
proof (induction rs arbitrary: q)
  case Nil
  then show ?case by (simp add: q_runnable_def leaving_def)
next
  case (Cons r rs)
  show ?case
  proof (cases "q_active (queue_front q)")
    case Nil
    then show ?thesis by (auto simp: queue_front_def split: if_splits)
  next
    case (Cons a as)
    let ?q = "(queue_front q)\<lparr>q_active := as\<rparr>"
    have "Suc (q_runnable ?q) = q_runnable q"
      using Cons by (auto simp: queue_front_def q_runnable_def split: if_splits)
    then have "q_runnable (queue_reason r a ?q) \<le> leaving rs"
      using Cons.prems by (cases r) (simp_all add: q_runnable_def leaving_def)
    from Cons.IH [OF this] Cons show ?thesis by simp
  qed
qed

text \<open>One turn for each action of the active list, in its order.\<close>

lemma queue_loop_round:
  "length rs = length A \<Longrightarrow>
   queue_loop (rs @ rs') \<lparr>q_active = A, q_wait = W, q_sleep = S\<rparr> =
     queue_loop rs' \<lparr>q_active = [], q_wait = W @ map snd (filter (\<lambda>x. fst x = Reason_Wait) (zip rs A)),
       q_sleep = S @ map snd (filter (\<lambda>x. fst x = Reason_Sleep) (zip rs A))\<rparr>"
proof (induction rs A arbitrary: W S rule: list_induct2)
  case (Cons r rs a as)
  then show ?case by (cases r) (simp_all add: queue_front_def)
qed simp

lemma sleeping_again:
  "length rs = length Z \<Longrightarrow> map snd (filter (\<lambda>x. fst x = Reason_Sleep) (zip (map run_reason rs) (map snd Z))) =
     [a. (r, n, a) \<leftarrow> zip rs Z, run_reason r = Reason_Sleep]"
  by (induction rs Z rule: list_induct2) auto

lemma queue_loop_short: "length rs < length A \<Longrightarrow> queue_loop rs \<lparr>q_active = A, q_wait = W, q_sleep = S\<rparr> = None"
proof (induction rs arbitrary: A W S)
  case (Cons r rs)
  then obtain a as where "A = a # as" "length rs < length as" by (cases A) auto
  with Cons.IH show ?case by (cases r) (simp_all add: queue_front_def)
qed simp

section \<open>Waking\<close>

text \<open>The events that an action waits for.\<close>

definition awaited :: "nat \<Rightarrow> scheduler \<Rightarrow> reference set" where
  "awaited a s = {r. \<exists>e n. (r, n, a) \<in> set (m_events s e)}"

definition is_active :: "nat \<Rightarrow> scheduler \<Rightarrow> bool" where
  "is_active a s \<longleftrightarrow> a \<in> snd ` set (m_lists s (getActive (m_sleepState s)))"

text \<open>The action waits for an event or holds an iterator into the active list.\<close>

definition pending :: "nat \<Rightarrow> scheduler \<Rightarrow> bool" where
  "pending a s \<longleftrightarrow> (case s_objects s a of None \<Rightarrow> False
     | Some act \<Rightarrow> iter_event_ref act \<noteq> [] \<or> aa_iter act (getActive (m_sleepState s)) \<noteq> None)"

lemma pending_iff:
  "pending a s \<longleftrightarrow> (\<exists>act. s_objects s a = Some act \<and> (iter_event_ref act \<noteq> [] \<or> aa_iter act (getActive (m_sleepState s)) \<noteq> None))"
  by (auto simp: pending_def split: option.splits)

lemma in_snd: "y \<in> snd ` set m \<longleftrightarrow> (\<exists>x. (x, y) \<in> set m)"
  by force

lemma awaited_iters:
  assumes "sched_ok c s" and "s_objects s a = Some act"
  shows "awaited a s = {} \<longleftrightarrow> iter_event_ref act = []"
proof -
  let ?E = "snd ` set (m_events s Events_wait) \<union> snd ` set (m_events s Events_sleep)"
  have "awaited a s \<noteq> {} \<longleftrightarrow> (\<exists>n e. (n, a) \<in> snd ` set (m_events s e))" unfolding awaited_def in_snd by blast
  also have "\<dots> \<longleftrightarrow> (\<exists>n. (n, a) \<in> ?E)" by (metis (full_types) UnE UnI1 UnI2 event_map.exhaust)
  also have "?E = holders event_iters (s_objects s)" using sched_okD(5) [OF assms(1)] by (simp only: events_ok_def)
  also have "(\<exists>n. (n, a) \<in> holders event_iters (s_objects s)) \<longleftrightarrow> event_iters act \<noteq> {}"
    unfolding in_holders assms(2) option.inject by (simp add: ex_in_conv)
  finally show ?thesis by simp
qed

lemma is_active_iter:
  assumes "sched_ok c s" and "s_objects s a = Some act"
  shows "is_active a s \<longleftrightarrow> aa_iter act (getActive (m_sleepState s)) \<noteq> None"
proof -
  have "is_active a s \<longleftrightarrow> (\<exists>n. (n, a) \<in> set (m_lists s (getActive (m_sleepState s))))" unfolding is_active_def in_snd ..
  then show ?thesis using sched_okD(2) [OF assms(1)] assms(2) by (auto simp: list_ok_def in_holders)
qed

text \<open>A pending action is active when it waits for nothing any more.\<close>

lemma pending_active:
  assumes "sched_ok c s"
  shows "is_active a s \<longleftrightarrow> pending a s \<and> awaited a s = {}"
proof (cases "s_objects s a")
  case None
  with sched_okD(2) [OF assms] show ?thesis by (auto simp: pending_iff is_active_def in_snd list_ok_def in_holders)
next
  case act: (Some act)
  have "one_place c a act" using objects_okD [OF sched_okD(6) [OF assms(1)] act] by (simp add: object_ok_def)
  then have p: "\<not> (iter_event_ref act \<noteq> [] \<and> aa_iter act (getActive (m_sleepState s)) \<noteq> None)"
    unfolding one_place_def by (metis in_places(1,2) place.distinct(1))
  then show ?thesis unfolding pending_iff awaited_iters [OF assms(1) act] is_active_iter [OF assms(1) act] using act by auto
qed

lemma list_insert_pending:
  assumes "list_insert l l b s = Inr s'" and "l = getActive (m_sleepState s)"
  shows "pending a s' \<longleftrightarrow> pending a s \<or> a = b"
proof -
  from assms(1) obtain act where act: "deref s b = Inr act"
    "s' = put b (act\<lparr>aa_iter := (aa_iter act)(l \<mapsto> s_next s)\<rparr>)
       (s\<lparr>m_lists := (m_lists s)(l := m_lists s l @ [(s_next s, b)]), s_next := Suc (s_next s)\<rparr>)"
    by (auto simp: list_insert_def bindR_eq_Inr)
  then show ?thesis using assms(2) by (cases "a = b") (simp_all add: pending_iff)
qed

lemma event_erase_objects:
  "event_erase e ns s = Inr s' \<Longrightarrow> s_objects s' = s_objects s \<and> m_sleepState s' = m_sleepState s"
  by (induction ns arbitrary: s) (auto split: if_splits)

lemma on_event_entry_pending:
  assumes "on_event_entry e ref n s = Inr s'"
  shows "(pending a s' \<longleftrightarrow> pending a s) \<and> m_sleepState s' = m_sleepState s"
proof -
  from assms obtain r n' b act where f: "find (\<lambda>x. fst (snd x) = n) (m_events s e) = Some (r, n', b)" "deref s b = Inr act"
    by (auto simp: on_event_entry_def bindR_eq_Inr)
  then have "n' = n" by (metis (mono_tags, lifting) find_Some_iff fst_conv snd_conv)
  with f have b: "find (\<lambda>x. fst (snd x) = n) (m_events s e) = Some (r, n, b)" "deref s b = Inr act" by simp_all
  note o = deref_SomeD [OF b(2)]
  let ?act = "act\<lparr>iter_event_ref := remove1 n (iter_event_ref act), aa_events := aa_events act @ [ref]\<rparr>"
  let ?s = "put b ?act s"
  have e: "on_event_entry e ref n s =
      (if n \<notin> event_iters act then Inr s
       else if remove1 n (iter_event_ref act) = [] \<or> bWaitAny act then bindR (event_remove e b ?s) (active_insert b) else Inr ?s)"
    using b by (simp add: on_event_entry_def)
  show ?thesis
  proof (cases "n \<in> event_iters act \<and> (remove1 n (iter_event_ref act) = [] \<or> bWaitAny act)")
    case False
    then show ?thesis using assms o e by (cases "a = b") (auto simp: pending_iff split: if_splits)
  next
    case True
    have "bindR (event_remove e b ?s) (active_insert b) = Inr s'" unfolding assms [symmetric] e using True by auto
    then obtain t where t: "event_remove e b ?s = Inr t" "active_insert b t = Inr s'" by (auto simp: bindR_eq_Inr)
    then obtain u act' where u: "event_erase e (iter_event_ref act') ?s = Inr u" "t = put b (act'\<lparr>iter_event_ref := []\<rparr>) u"
      by (auto simp: event_remove_def bindR_eq_Inr)
    from event_erase_objects [OF u(1)] u(2) have t_sel: "m_sleepState t = m_sleepState s" "a \<noteq> b \<longrightarrow> s_objects t a = s_objects s a"
      by simp_all
    have "pending a t \<longleftrightarrow> pending a s" if "a \<noteq> b" using that t_sel by (simp add: pending_iff)
    moreover have "pending b s" using o True by (auto simp: pending_iff)
    ultimately show ?thesis using list_insert_pending [OF t(2) [unfolded active_insert_def getActiveIter_getActive] refl, of a]
      list_insert_lists [OF t(2) [unfolded active_insert_def]] t_sel by auto
  qed
qed

lemma on_event_loop_pending:
  "on_event_loop k e ref i u s = Inr s' \<Longrightarrow> (pending a s' \<longleftrightarrow> pending a s) \<and> m_sleepState s' = m_sleepState s"
proof (induction k e ref i u s rule: on_event_loop.induct)
  case (2 k e ref i u s)
  show ?case
  proof (cases "i = u")
    case True
    with 2(2) show ?thesis by (simp split: if_splits)
  next
    case False
    with 2(2) obtain n t where t: "valid_iter (m_events s e) u" "i = Some n" "on_event_entry e ref n s = Inr t"
      "n \<in> set (event_nodes (m_events t e))" "on_event_loop k e ref (next_iter (m_events t e) n) u t = Inr s'"
      by (auto simp: bindR_eq_Inr split: if_splits option.splits)
    from 2(1) [OF _ False t(2,3,4,5)] t(1) on_event_entry_pending [OF t(3)] show ?thesis by simp
  qed
qed simp

lemma on_event_pending:
  assumes ok: "sched_ok c s"
  shows "\<exists>s'. on_event e ref s = Inr s' \<and> sched_ok c s' \<and> (pending a s' \<longleftrightarrow> pending a s) \<and> m_pCurrentAction s' = m_pCurrentAction s \<and>
    m_events s' = (m_events s)(e := filter (\<lambda>x. fst x \<noteq> ref) (m_events s e))"
proof -
  from on_event_ok [OF ok, of e ref] obtain s' where s': "on_event e ref s = Inr s'" "sched_ok c s'" "calm s s'"
    "m_events s' = (m_events s)(e := filter (\<lambda>x. fst x \<noteq> ref) (m_events s e))" by blast
  from s'(1) obtain t where t: "on_event_loop (Suc (length (m_events s e))) e ref (lower_bound (m_events s e) ref) (upper_bound (m_events s e) ref) s = Inr t"
    "\<exists>m. s' = t\<lparr>m_events := m\<rparr>" by (auto simp: on_event_def bindR_eq_Inr Let_def split: if_splits)
  have "pending a s' \<longleftrightarrow> pending a t" using t(2) by (auto simp: pending_iff)
  with on_event_loop_pending [OF t(1), of a] have "pending a s' \<longleftrightarrow> pending a s" by simp
  with s' show ?thesis by (auto simp: calm_def)
qed

lemma signal_pending:
  assumes "sched_ok c s"
  shows "\<exists>s'. signal ref s = Inr s' \<and> sched_ok c s' \<and> (pending a s' \<longleftrightarrow> pending a s) \<and> m_pCurrentAction s' = m_pCurrentAction s \<and>
    awaited a s' = awaited a s - {ref}"
proof -
  from on_event_pending [OF assms, of Events_wait ref a] obtain t where t: "on_event Events_wait ref s = Inr t" "sched_ok c t" "pending a t \<longleftrightarrow> pending a s"
    "m_pCurrentAction t = m_pCurrentAction s" "m_events t = (m_events s)(Events_wait := filter (\<lambda>x. fst x \<noteq> ref) (m_events s Events_wait))" by blast
  from on_event_pending [OF t(2), of Events_sleep ref a] obtain s' where s': "on_event Events_sleep ref t = Inr s'" "sched_ok c s'" "pending a s' \<longleftrightarrow> pending a t"
    "m_pCurrentAction s' = m_pCurrentAction t" "m_events s' = (m_events t)(Events_sleep := filter (\<lambda>x. fst x \<noteq> ref) (m_events t Events_sleep))" by blast
  have "m_events s' = (\<lambda>e. filter (\<lambda>x. fst x \<noteq> ref) (m_events s e))"
  proof
    fix e show "m_events s' e = filter (\<lambda>x. fst x \<noteq> ref) (m_events s e)" by (cases e) (simp_all add: s'(5) t(5))
  qed
  then have "awaited a s' = awaited a s - {ref}" by (auto simp: awaited_def)
  with t s' show ?thesis by (simp add: signal_def)
qed

lemma signals_pending:
  "sched_ok c s \<Longrightarrow>
   \<exists>s'. foldR signal rs s = Inr s' \<and> sched_ok c s' \<and> (pending a s' \<longleftrightarrow> pending a s) \<and> m_pCurrentAction s' = m_pCurrentAction s \<and>
     awaited a s' = awaited a s - set rs"
proof (induction rs arbitrary: s)
  case (Cons r rs)
  from signal_pending [OF Cons.prems, of r a] obtain t where t: "signal r s = Inr t" "sched_ok c t" "pending a t \<longleftrightarrow> pending a s"
    "m_pCurrentAction t = m_pCurrentAction s" "awaited a t = awaited a s - {r}" by blast
  from Cons.IH [OF t(2)] t show ?case by auto
qed simp

lemma await_awaited:
  assumes "await e any evs a s = Inr s'"
  shows "awaited a s' = awaited a s \<union> set evs"
proof -
  from assms obtain t where t: "foldR (event_insert e a) evs s = Inr t" "m_events s' = m_events t"
    by (auto simp: await_def bindR_eq_Inr)
  have step: "awaited a s' = insert ev (awaited a s)" if "event_insert e a ev s = Inr s'" for ev s s'
  proof -
    from that have m: "m_events s' = (m_events s)(e := mm_insert ref_key ev (s_next s, a) (m_events s e))"
      by (auto simp: event_insert_def bindR_eq_Inr)
    have "(r, n, a) \<in> set (m_events s' e') \<longleftrightarrow> (r, n, a) \<in> set (m_events s e') \<or> e' = e \<and> r = ev \<and> n = s_next s" for r n e'
      using m by (cases "e' = e") auto
    then show ?thesis by (auto simp: awaited_def)
  qed
  have "awaited a t = awaited a s \<union> set evs" if "foldR (event_insert e a) evs s = Inr t" for s
    using that by (induction evs arbitrary: s) (auto simp: bindR_eq_Inr dest!: step)
  from this [OF t(1)] t(2) show ?thesis by (simp add: awaited_def)
qed

lemma active_once:
  assumes "list_ok l s" and "m_lists s l = (n, a) # xs"
  shows "a \<notin> snd ` set xs"
proof
  assume "a \<in> snd ` set xs"
  then obtain m where m: "(m, a) \<in> set xs" unfolding in_snd ..
  have "(n, a) \<in> holders (list_iter l) (s_objects s)" "(m, a) \<in> holders (list_iter l) (s_objects s)"
    using assms m by (auto simp: list_ok_def)
  then have "n = m" by (auto simp: in_holders)
  with assms m show False by (force simp: list_ok_def)
qed

lemma withdraw_sleeper:
  assumes ok: "sched_ok c s" and a: "s_objects s a = Some act" and e: "(r, n, a) \<in> set (m_events s Events_sleep)"
  shows "withdraw a s = Inl UndefinedBehaviour"
proof -
  from list_remove_ok [OF ok a, of "getActive (m_sleepState s)"] obtain s1 where
    s1: "active_remove a s = Inr s1" "sched_ok c s1" "only a s s1" "m_events s1 = m_events s"
      "s_objects s1 a = Some (act\<lparr>aa_iter := (aa_iter act)(getActive (m_sleepState s) := None)\<rparr>)"
    by (auto simp: active_remove_def)
  from list_remove_ok [OF s1(2,5), of "getWaiting (m_sleepState s1)"] obtain s2 act2 where
    s2: "wait_remove a s1 = Inr s2" "sched_ok c s2" "m_events s2 = m_events s" "s_objects s2 a = Some act2"
      "iter_event_ref act2 = iter_event_ref act"
    using s1(4) by (auto simp: wait_remove_def)
  from list_remove_ok [OF s2(2,4), of "getSleeping (m_sleepState s2)"] obtain s3 act3 where
    s3: "sleep_remove a s2 = Inr s3" "sched_ok c s3" "m_events s3 = m_events s" "s_objects s3 a = Some act3"
      "iter_event_ref act3 = iter_event_ref act"
    using s2(3,5) by (auto simp: sleep_remove_def)
  have ev: "events_ok s" by (rule sched_okD(5) [OF ok])
  have "(n, a) \<in> snd ` set (m_events s Events_sleep)" using e unfolding in_snd by blast
  then have "(n, a) \<in> holders event_iters (s_objects s)" using ev by (auto simp: events_ok_def)
  then have n: "n \<in> event_iters act" using a by (auto simp: in_holders)
  have "n \<in> set (event_nodes (m_events s Events_sleep))" using in_nodes [OF e] by simp
  moreover obtain e' where e': "event_iters act \<subseteq> set (event_nodes (m_events s e'))"
    using objects_okD [OF sched_okD(6) [OF ok] a] by (auto simp: object_ok_def)
  moreover have disj: "set (event_nodes (m_events s Events_wait)) \<inter> set (event_nodes (m_events s Events_sleep)) = {}"
    using ev by (simp add: events_ok_def)
  ultimately have "event_iters act \<subseteq> set (event_nodes (m_events s Events_sleep))"
    using n by (cases e') auto
  then have "event_iters act \<inter> set (event_nodes (m_events s Events_wait)) = {}" using disj by blast
  with n obtain m ms where m: "iter_event_ref act = m # ms" "m \<notin> set (event_nodes (m_events s Events_wait))"
    by (cases "iter_event_ref act") auto
  have "event_remove Events_wait a s3 = Inl UndefinedBehaviour"
    using deref_object [OF sched_okD(1) [OF s3(2)] s3(4)] s3(3,5) m by (simp add: event_remove_def)
  with s1(1) s2(1) s3(1) show ?thesis by (simp add: withdraw_def)
qed

text \<open>After a run that awaits all of some events the action is pending for them, if there are any.\<close>

lemma run_action_awaits:
  assumes idle: "idle s" and a: "m_lists s (getActive (m_sleepState s)) = (n, a) # xs"
    and r: "run_calls r = []" "run_reason r \<in> {Reason_Wait_All evs, Reason_Sleep_All evs}"
  shows "\<exists>s'. run_action r a s = Inr s' \<and> idle s' \<and> awaited a s' = set evs \<and> (pending a s' \<longleftrightarrow> evs \<noteq> [])"
proof -
  have q: "quiet r" using r by (auto simp: quiet_def)
  from run_action_queues [OF idle a q] obtain s' where s': "run_action r a s = Inr s'" "idle s'"
    "queues_of s' = queue_reason (run_reason r) a ((queues_of s)\<lparr>q_active := map snd xs\<rparr>)" by blast
  have ok: "sched_ok None s" "sched_ok None s'" using idle s'(2) by (simp_all add: idle_def)
  have act: "is_active a s" using a by (simp add: is_active_def)
  have "q_active (queues_of s') = map snd xs" using s'(3) r(2) by auto
  then have no: "\<not> is_active a s'"
    using active_once [OF sched_okD(2) [OF ok(1)] a] by (simp add: queues_of_def is_active_def flip: set_map)
  from s'(1) obtain s1 where s1: "active_remove a s = Inr s1" by (auto simp: run_action_def bindR_eq_Inr)
  let ?s2 = "set_coroutine a (Some (run_done r)) (set_coroutine a (Some False) (s1\<lparr>m_pCurrentAction := Some a\<rparr>))"
  from s'(1) s1 r obtain s3 where s3: "on_reason (run_reason r) a ?s2 = Inr s3" "s' = s3\<lparr>m_pCurrentAction := None\<rparr>"
    by (auto simp: run_action_def bindR_eq_Inr Let_def)
  have "m_events s1 = m_events s"
    using s1 by (auto simp: active_remove_def list_remove_def bindR_eq_Inr split: option.splits if_splits)
  then have "awaited a ?s2 = awaited a s" by (simp add: awaited_def set_coroutine_def split: option.splits)
  moreover have "awaited a s = {}" using act pending_active [OF ok(1)] by blast
  moreover obtain e where "await e False evs a ?s2 = Inr s3" using s3(1) r(2) by auto
  note await_awaited [OF this]
  ultimately have aw: "awaited a s' = set evs" using s3(2) by (simp add: awaited_def)
  have "pending a s' \<longleftrightarrow> evs \<noteq> []"
  proof
    assume "pending a s'"
    with no pending_active [OF ok(2)] aw show "evs \<noteq> []" by auto
  next
    assume "evs \<noteq> []"
    with aw have ne: "awaited a s' \<noteq> {}" by simp
    then obtain e m where "(m, a) \<in> snd ` set (m_events s' e)" unfolding awaited_def in_snd by blast
    then have "(m, a) \<in> holders event_iters (s_objects s')"
      using sched_okD(5) [OF ok(2)] by (cases e) (auto simp: events_ok_def)
    then show "pending a s'" by (auto simp: in_holders pending_iff)
  qed
  with s' aw show ?thesis by blast
qed

text \<open>The loop over the events of a reference when the node at which it ends goes away.\<close>

lemma mm_insert_between:
  "\<forall>x \<in> set L. \<not> key k < key (fst x) \<Longrightarrow> \<forall>x \<in> set U. key k < key (fst x) \<Longrightarrow> mm_insert key k v (L @ U) = L @ (k, v) # U"
proof (induction L)
  case Nil
  then show ?case by (cases U) auto
next
  case (Cons x L)
  then show ?case by (cases x) simp
qed

lemma on_event_nothing:
  assumes "ref \<notin> fst ` set (m_events s e)"
  shows "on_event e ref s = Inr s"
proof -
  let ?m = "m_events s e"
  have "find (\<lambda>x. \<not> ref_key (fst x) < ref_key ref) ?m = find (\<lambda>x. ref_key ref < ref_key (fst x)) ?m"
  proof (rule find_cong)
    fix x assume "x \<in> set ?m"
    then have "ref_key (fst x) \<noteq> ref_key ref" using assms by auto
    then show "\<not> ref_key (fst x) < ref_key ref \<longleftrightarrow> ref_key ref < ref_key (fst x)"
      by (cases "ref_key (fst x)" "ref_key ref" rule: linorder_cases) simp_all
  qed simp
  then have lu: "lower_bound ?m ref = upper_bound ?m ref" by (simp add: lower_bound_def upper_bound_def)
  have v: "valid_iter ?m (upper_bound ?m ref)"
    by (auto simp: valid_iter_def upper_bound_def event_nodes_def find_Some_iff split: option.split)
      (metis fst_conv image_eqI nth_mem snd_conv)
  have er: "erase_range ?m i i = ?m" for i by (simp add: erase_range_def dropWhile_idem)
  have "s\<lparr>m_events := (m_events s)(e := ?m)\<rparr> = s" by simp
  then show ?thesis using v by (simp add: on_event_def Let_def lu er)
qed

lemma any_of_two:
  assumes m: "m_events s Events_sleep = L @ (r1, n1, a) # (r2, n2, a) # U" and lt: "ref_key r1 < ref_key r2"
    and L: "\<forall>x \<in> set L. ref_key (fst x) < ref_key r1" and U: "\<forall>x \<in> set U. ref_key r2 < ref_key (fst x)"
    and n: "n1 \<noteq> n2" "n1 \<notin> set (event_nodes (L @ U))" "n2 \<notin> set (event_nodes (L @ U))"
    and act: "deref s a = Inr act" "bWaitAny act" "iter_event_ref act \<in> {[n1, n2], [n2, n1]}"
    and wait: "r1 \<notin> fst ` set (m_events s Events_wait)"
  shows "signal r1 s = Inl UndefinedBehaviour"
proof -
  let ?m = "m_events s Events_sleep"
  have nL: "\<forall>x \<in> set L. fst (snd x) \<noteq> n1 \<and> fst (snd x) \<noteq> n2" and nU: "\<forall>x \<in> set U. fst (snd x) \<noteq> n1 \<and> fst (snd x) \<noteq> n2"
    using n by (auto simp: event_nodes_def)
  have fL: "find P (L @ xs) = find P xs" if "\<forall>x \<in> set L. \<not> P x" for P xs using that by (induction L) auto
  have lower: "lower_bound ?m r1 = Some n1" using L unfolding lower_bound_def m by (subst fL) auto
  have upper: "upper_bound ?m r1 = Some n2" using L lt unfolding upper_bound_def m by (subst fL) auto
  let ?act = "act\<lparr>iter_event_ref := [n2], aa_events := aa_events act @ [r1]\<rparr>"
  let ?s1 = "put a ?act s"
  let ?s2 = "put a (?act\<lparr>iter_event_ref := []\<rparr>) (?s1\<lparr>m_events := (m_events s)(Events_sleep := L @ (r1, n1, a) # U)\<rparr>)"
  have rem: "remove1 n1 (iter_event_ref act) = [n2]" "n1 \<in> set (iter_event_ref act)" using act(3) n(1) by auto
  have find: "find (\<lambda>x. fst (snd x) = n1) ?m = Some (r1, n1, a)" using nL unfolding m by (subst fL) auto
  have filter: "filter (\<lambda>x. fst (snd x) \<noteq> n2) ?m = L @ (r1, n1, a) # U"
    using nL nU n(1) unfolding m by (auto simp: filter_id_conv)
  have obj: "s_objects s a = Some act" using deref_SomeD [OF act(1)] by simp
  have in1: "a \<in> snd ` set (m_actions s)" using act(1) by (auto simp: deref_def split: option.splits if_splits)
  have d1: "deref ?s1 a = Inr ?act" using in1 act(1) by (simp add: deref_def)
  have d2: "deref ?s2 a = Inr (?act\<lparr>iter_event_ref := []\<rparr>)" using in1 act(1) by (simp add: deref_def)
  have remove: "event_remove Events_sleep a ?s1 = Inr ?s2"
    using d1 filter in1 act(1) by (simp add: event_remove_def m deref_def)
  obtain s3 where s3: "active_insert a ?s2 = Inr s3" "m_events s3 Events_sleep = L @ (r1, n1, a) # U"
    using d2 by (simp add: active_insert_def list_insert_def)
  have entry: "on_event_entry Events_sleep r1 n1 s = Inr s3"
    using find act(1,2) rem remove s3(1) by (simp add: on_event_entry_def Let_def)
  have "n1 \<in> set (event_nodes (m_events s3 Events_sleep))" "\<not> valid_iter (m_events s3 Events_sleep) (Some n2)"
    using n unfolding s3(2) by (auto simp: valid_iter_def)
  moreover have "valid_iter ?m (Some n2)" by (simp add: valid_iter_def m)
  moreover obtain k where "length ?m = Suc k" by (simp add: m)
  ultimately have "on_event_loop (Suc (length ?m)) Events_sleep r1 (Some n1) (Some n2) s = Inl UndefinedBehaviour"
    using n(1) entry by simp
  then have "on_event Events_sleep r1 s = Inl UndefinedBehaviour" by (simp add: on_event_def Let_def lower upper)
  then show ?thesis by (simp add: signal_def on_event_nothing [OF wait])
qed

text \<open>What the run of an action that sleeps for any of two events leaves.\<close>

lemma run_action_any:
  assumes idle: "idle s" and a: "m_lists s (getActive (m_sleepState s)) = (n, a) # xs"
    and r: "run_calls r = []" "run_reason r = Reason_Sleep_Any [f1, f2]"
  shows "\<exists>s' act. run_action r a s = Inr s' \<and> deref s' a = Inr act \<and> bWaitAny act \<and>
    iter_event_ref act = [s_next s, Suc (s_next s)] \<and> m_events s' Events_wait = m_events s Events_wait \<and>
    m_events s' Events_sleep = mm_insert ref_key f2 (Suc (s_next s), a) (mm_insert ref_key f1 (s_next s, a) (m_events s Events_sleep))"
proof -
  let ?l = "getActive (m_sleepState s)"
  have ok: "sched_ok None s" using idle by (simp add: idle_def)
  note k = sched_okD [OF ok]
  have "is_active a s" using a by (simp add: is_active_def)
  have "(n, a) \<in> holders (list_iter ?l) (s_objects s)" using k(2) [of ?l] a by (auto simp: list_ok_def)
  then obtain act where act: "s_objects s a = Some act" "aa_iter act ?l = Some n" by (auto simp: in_holders)
  have none: "iter_event_ref act = []"
    using pending_active [OF ok, of a] \<open>is_active a s\<close> awaited_iters [OF ok act(1)] by blast
  have "places None a act \<noteq> {}" using act(2) in_places(1) by blast
  then have op: "aa_op act \<noteq> None" using objects_okD [OF k(6) act(1)] by (auto simp: object_ok_def)
  let ?act1 = "act\<lparr>aa_iter := (aa_iter act)(?l := None)\<rparr>"
  let ?s1 = "put a ?act1 (s\<lparr>m_lists := (m_lists s)(?l := filter (\<lambda>e. fst e \<noteq> n) ((n, a) # xs))\<rparr>)"
  have in1: "a \<in> snd ` set (m_actions s)" using object_in [OF k(1)] act(1) by blast
  have s1: "active_remove a s = Inr ?s1"
    by (simp add: active_remove_def list_remove_def deref_object [OF k(1) act(1)] act(2) a)
  have d1: "deref ?s1 a = Inr ?act1" using in1 by (simp add: deref_def)
  let ?s2 = "set_coroutine a (Some (run_done r)) (set_coroutine a (Some False) (?s1\<lparr>m_pCurrentAction := Some a\<rparr>))"
  let ?act2 = "?act1\<lparr>aa_coroutine := Some (run_done r)\<rparr>"
  have s2: "s_objects ?s2 a = Some ?act2" "m_actions ?s2 = m_actions s" "m_events ?s2 = m_events s" "s_next ?s2 = s_next s"
    "m_pCurrentAction ?s2 = Some a"
    by (simp_all add: set_coroutine_def)
  have "\<exists>s3 act3. await Events_sleep True [f1, f2] a ?s2 = Inr s3 \<and> s_objects s3 a = Some act3 \<and> bWaitAny act3 \<and>
      iter_event_ref act3 = [s_next s, Suc (s_next s)] \<and> m_actions s3 = m_actions s \<and>
      m_events s3 = (m_events s)(Events_sleep :=
        mm_insert ref_key f2 (Suc (s_next s), a) (mm_insert ref_key f1 (s_next s, a) (m_events s Events_sleep)))"
    using s2 in1 none by (simp add: await_def event_insert_def deref_def)
  then obtain s3 act3 where s3: "await Events_sleep True [f1, f2] a ?s2 = Inr s3" "s_objects s3 a = Some act3" "bWaitAny act3"
      "iter_event_ref act3 = [s_next s, Suc (s_next s)]" "m_actions s3 = m_actions s"
      "m_events s3 = (m_events s)(Events_sleep :=
        mm_insert ref_key f2 (Suc (s_next s), a) (mm_insert ref_key f1 (s_next s, a) (m_events s Events_sleep)))" by blast
  have "run_action r a s = Inr (s3\<lparr>m_pCurrentAction := None\<rparr>)"
    using s1 d1 op r s2(5) s3(1) by (simp add: run_action_def Let_def)
  moreover have "deref (s3\<lparr>m_pCurrentAction := None\<rparr>) a = Inr act3" using s3(2,5) in1 by (simp add: deref_def)
  ultimately show ?thesis using s3(3,4,6) by (intro exI [of _ "s3\<lparr>m_pCurrentAction := None\<rparr>"] exI [of _ act3]) simp
qed

section \<open>The properties\<close>

text \<open>The states of the witnesses.\<close>

definition returned :: "scheduler result \<Rightarrow> bool" where
  "returned r = (case r of Inl _ \<Rightarrow> False | Inr _ \<Rightarrow> True)"

definition state_of :: "scheduler result \<Rightarrow> scheduler" where
  "state_of r = (case r of Inl _ \<Rightarrow> new_scheduler | Inr s \<Rightarrow> s)"

lemma returned_state: "returned r \<Longrightarrow> r = Inr (state_of r)"
  by (auto simp: returned_def state_of_def split: sum.splits)

definition demo_ref :: "nat \<Rightarrow> reference" where
  "demo_ref t = \<lparr>inst = 0, tid = of_nat t, timestamp = 1\<rparr>"

definition demo_run :: "return_reason \<Rightarrow> coroutine_run" where
  "demo_run r = \<lparr>run_calls = [], run_done = False, run_reason = r\<rparr>"

definition demo_calls :: "scheduler_call list" where
  "demo_calls = [Call_ref (demo_ref 1) 0 0, Call_ref (demo_ref 2) 0 0, Pause_ref (demo_ref 2), Unpause_ref (demo_ref 2)]"

definition demo :: scheduler where
  "demo = state_of (do_calls demo_calls new_scheduler)"

definition demo_sleep :: scheduler where
  "demo_sleep = state_of (cycle (\<lambda>_. 0)
     [demo_run Reason_Wait, demo_run Reason_Sleep, demo_run (Reason_Sleep_All [demo_ref 5, demo_ref 6])] [] demo)"

lemma demo_allowed: "calls_allowed demo_calls new_scheduler"
  by code_simp

lemma demo_reachable: "reachable demo"
proof -
  have "returned (do_calls demo_calls new_scheduler)" by code_simp
  then show ?thesis unfolding demo_def by (rule reachable_calls [OF reachable_new demo_allowed returned_state])
qed

lemma demo_sleep_reachable: "reachable demo_sleep"
proof -
  let ?runs = "[demo_run Reason_Wait, demo_run Reason_Sleep, demo_run (Reason_Sleep_All [demo_ref 5, demo_ref 6])]"
  have "cycle_allowed (\<lambda>_. 0) ?runs [] demo" by code_simp
  moreover have "returned (cycle (\<lambda>_. 0) ?runs [] demo)" by code_simp
  ultimately show ?thesis unfolding demo_sleep_def by (rule reachable_cycle [OF demo_reachable _ returned_state])
qed

text \<open>C8. In every state that calls and cycles lead to, a sequence of calls that obeys the conditions of
  \<open>calls_allowed\<close> never uses an erased node, and keeps the containers and the iterators of the actions
  consistent.\<close>

theorem scheduler_calls_safe:
  assumes "reachable s" and "calls_allowed cs s"
  shows "sched_ok None s \<and> (\<exists>s'. do_calls cs s = Inr s' \<and> reachable s')"
proof -
  have idle: "idle s" by (rule reachable_idle [OF assms(1)])
  from idle_calls [OF idle assms(2)] obtain s' where "do_calls cs s = Inr s'" by blast
  with assms idle show ?thesis by (auto simp: idle_def intro: reachable_calls)
qed

theorem scheduler_calls_safe_witness:
  "sched_ok None demo_sleep \<and>
   (\<exists>s'. do_calls [Signal_ref (demo_ref 6), Signal_ref (demo_ref 5), Stop_ref (demo_ref 1) [Call_ref (demo_ref 3) 0 0]] demo_sleep = Inr s' \<and> reachable s')"
  by (rule scheduler_calls_safe [OF demo_sleep_reachable]) code_simp

text \<open>C7. In every state that calls and cycles lead to, a cycle whose calls obey the conditions never uses an
  erased node and runs no empty function: it returns a state again, with no action waiting for an event, or
  the runs of the actions that it was given do not suffice.\<close>

theorem cycle_safe:
  assumes "reachable s" and "cycle_allowed now runs stoppers s"
  shows "(\<exists>s'. cycle now runs stoppers s = Inr s' \<and> reachable s' \<and> m_events s' Events_wait = []) \<or>
    cycle now runs stoppers s = Inl OutOfFuel"
proof -
  have "m_events s' Events_wait = []" if "never_got css t = Inr s'" for css t s'
    using that by (induction css t rule: never_got.induct) (auto simp: bindR_eq_Inr split: if_splits list.splits)
  then have "m_events s' Events_wait = []" if "cycle now runs stoppers s = Inr s'" for s'
    using that by (auto simp: cycle_def bindR_eq_Inr split: prod.splits)
  with cycle_ok [OF reachable_idle [OF assms(1)] assms(2)] reachable_cycle [OF assms] show ?thesis by blast
qed

theorem cycle_safe_witness:
  "(\<exists>s'. cycle (\<lambda>_. 9) [demo_run (Reason_Timeout 20), demo_run (Reason_Wait_All [demo_ref 7])] [[]] demo = Inr s' \<and> reachable s' \<and>
     m_events s' Events_wait = []) \<or>
   cycle (\<lambda>_. 9) [demo_run (Reason_Timeout 20), demo_run (Reason_Wait_All [demo_ref 7])] [[]] demo = Inl OutOfFuel"
  by (rule cycle_safe [OF demo_reachable]) code_simp

text \<open>C9. For runs that make no calls, do not terminate the action and wait for any of at most one event, the loop
  of a cycle is a machine of three queues: the first active action runs and goes to the end of the waiting or
  of the sleeping queue, or leaves them, and the waiting queue becomes the active one when that is empty.
  Exchanging the roles of the lists implements this.\<close>

theorem run_loop_refines_queues:
  assumes "reachable s" and "list_all quiet rs"
  shows "case queue_loop (map run_reason rs) (queues_of s) of
      None \<Rightarrow> run_loop rs s = Inl OutOfFuel
    | Some (ks, q) \<Rightarrow> \<exists>rs' s'. run_loop rs s = Inr (rs', s') \<and> map run_reason rs' = ks \<and> queues_of s' = q"
  using run_loop_queues [OF reachable_idle [OF assms(1)] assms(2)] by (auto split: option.splits)

theorem run_loop_refines_queues_witness:
  "case queue_loop (map run_reason [demo_run Reason_Wait, demo_run Reason_Sleep, demo_run Reason_Sleep]) (queues_of demo) of
      None \<Rightarrow> run_loop [demo_run Reason_Wait, demo_run Reason_Sleep, demo_run Reason_Sleep] demo = Inl OutOfFuel
    | Some (ks, q) \<Rightarrow> \<exists>rs' s'. run_loop [demo_run Reason_Wait, demo_run Reason_Sleep, demo_run Reason_Sleep] demo = Inr (rs', s') \<and>
        map run_reason rs' = ks \<and> queues_of s' = q"
  by (rule run_loop_refines_queues [OF demo_reachable]) (simp add: demo_run_def quiet_def)

text \<open>C10. For runs that make no calls, do not terminate the action and wait for any of at most one event, the
  loop of a cycle ends as soon as as many of them as there are active and waiting actions did something else
  than wait: then nothing is active or waiting.\<close>

theorem run_loop_ends:
  assumes "reachable s" and "list_all quiet rs"
    and "length (m_lists s (getActive (m_sleepState s))) + length (m_lists s (getWaiting (m_sleepState s))) \<le>
      length (filter (\<lambda>r. run_reason r \<noteq> Reason_Wait) rs)"
  shows "\<exists>rs' s'. run_loop rs s = Inr (rs', s') \<and> \<not> runnable s'"
proof -
  have "leaving (map run_reason rs) = length (filter (\<lambda>r. run_reason r \<noteq> Reason_Wait) rs)"
    by (simp add: leaving_def filter_map comp_def)
  then have "q_runnable (queues_of s) \<le> leaving (map run_reason rs)" using assms(3) by (simp add: q_runnable_def queues_of_def)
  from queue_loop_ends [OF this] obtain ks q where
    q: "queue_loop (map run_reason rs) (queues_of s) = Some (ks, q)" "q_active q = []" "q_wait q = []" by blast
  with run_loop_queues [OF reachable_idle [OF assms(1)] assms(2)] obtain rs' s' where
    "run_loop rs s = Inr (rs', s')" "queues_of s' = q" by auto
  with q(2,3) show ?thesis by (auto simp: runnable_queues queue_front_def)
qed

theorem run_loop_ends_witness:
  "\<exists>rs' s'. run_loop [demo_run Reason_Wait, demo_run Reason_Sleep, demo_run Reason_Sleep] demo = Inr (rs', s') \<and> \<not> runnable s'"
  by (rule run_loop_ends [OF demo_reachable]) (simp add: demo_run_def quiet_def, code_simp)

text \<open>C12. When nothing is active or waiting and no timeout is due, a cycle runs every sleeping action once, in
  the order in which they went to sleep: with one run for each, none of which waits or makes a call, the cycle
  ends, the actions whose run sleeps again are the sleeping ones in the same order and no others, and nothing
  is active or waiting. With fewer runs it cannot end.\<close>

theorem cycle_runs_sleepers_once:
  assumes "reachable s" and "\<not> runnable s" and "\<forall>t \<in> fst ` set (m_timeouts s). \<not> t \<le> now 0" and "m_events s Events_wait = []"
    and "length rs = length (m_lists s (getSleeping (m_sleepState s)))" and "list_all run_once rs"
  shows "(\<exists>s'. cycle now rs [] s = Inr s' \<and> \<not> runnable s' \<and>
      map snd (m_lists s' (getSleeping (m_sleepState s'))) =
        [a. (r, n, a) \<leftarrow> zip rs (m_lists s (getSleeping (m_sleepState s))), run_reason r = Reason_Sleep]) \<and>
    (\<forall>k < length rs. cycle now (take k rs) [] s = Inl OutOfFuel)"
proof -
  let ?s = "swapActiveSleep s"
  let ?Z = "m_lists s (getSleeping (m_sleepState s))"
  let ?S = "map snd ?Z"
  let ?R = "map snd (filter (\<lambda>x. fst x = Reason_Sleep) (zip (map run_reason rs) ?S))"
  have idle: "idle s" by (rule reachable_idle [OF assms(1)])
  have t: "timeouts_loop (Suc (length (m_timeouts s))) now 0 s = Inr s"
    using assms(3) by (cases "m_timeouts s") auto
  have q: "queues_of ?s = \<lparr>q_active = ?S, q_wait = [], q_sleep = []\<rparr>"
    using assms(2) by (simp add: queues_of_def swapActiveSleep_def runnable_def)
  have once: "\<forall>r \<in> set rs. run_once r" using assms(6) by (simp add: list_all_iff)
  have quiet: "list_all quiet (take k rs)" "list_all quiet rs" for k
    using once run_once_quiet by (auto simp: list_all_iff dest: in_set_takeD)
  have len: "length (map run_reason rs) = length ?S" using assms(5) by simp
  have f: "filter (\<lambda>x. fst x = Reason_Wait) (zip (map run_reason rs) ?S) = []"
  proof -
    have "\<forall>r \<in> set rs. run_reason r \<noteq> Reason_Wait" using once run_once_quiet by blast
    then show ?thesis by (auto simp: filter_empty_conv eq_commute [of Reason_Wait] dest!: set_zip_leftD)
  qed
  have "queue_loop (map run_reason rs) (queues_of ?s) = Some ([], \<lparr>q_active = [], q_wait = [], q_sleep = ?R\<rparr>)"
    using queue_loop_round [OF len, of "[]" "[]" "[]"] f unfolding q by simp
  with run_loop_queues [OF idle_swap(2) [OF idle] quiet(2)] obtain s' where
    s': "run_loop rs ?s = Inr ([], s')" "queues_of s' = \<lparr>q_active = [], q_wait = [], q_sleep = ?R\<rparr>" by auto
  have "m_events s' Events_wait = []"
    using run_loop_events [OF s'(1) once] assms(4) by (simp add: swapActiveSleep_def)
  then have "cycle now rs [] s = Inr s'" using t assms(2) s'(1) by (simp add: cycle_def)
  moreover have "\<not> runnable s'" using s'(2) by (simp add: runnable_queues queue_front_def)
  moreover have "?R = [a. (r, n, a) \<leftarrow> zip rs ?Z, run_reason r = Reason_Sleep]"
    by (rule sleeping_again [OF assms(5)])
  moreover have "cycle now (take k rs) [] s = Inl OutOfFuel" if "k < length rs" for k
  proof -
    have "length (map run_reason (take k rs)) < length ?S" using that assms(5) by simp
    from queue_loop_short [OF this, of "[]" "[]"] have "queue_loop (map run_reason (take k rs)) (queues_of ?s) = None"
      unfolding q .
    with run_loop_queues [OF idle_swap(2) [OF idle] quiet(1) [of k]] have "run_loop (take k rs) ?s = Inl OutOfFuel" by simp
    then show ?thesis using t assms(2) by (simp add: cycle_def)
  qed
  ultimately show ?thesis using s'(2) by (auto simp: queues_of_def)
qed

definition demo_asleep :: scheduler where
  "demo_asleep = state_of (cycle (\<lambda>_. 0) [demo_run Reason_Wait, demo_run Reason_Sleep, demo_run Reason_Sleep] [] demo)"

lemma demo_asleep_reachable: "reachable demo_asleep"
proof -
  let ?runs = "[demo_run Reason_Wait, demo_run Reason_Sleep, demo_run Reason_Sleep]"
  have "cycle_allowed (\<lambda>_. 0) ?runs [] demo" by code_simp
  moreover have "returned (cycle (\<lambda>_. 0) ?runs [] demo)" by code_simp
  ultimately show ?thesis unfolding demo_asleep_def by (rule reachable_cycle [OF demo_reachable _ returned_state])
qed

text \<open>Of the two actions asleep, the first has a timeout when it runs and the second sleeps again.\<close>

theorem cycle_runs_sleepers_once_witness:
  "\<exists>s'. cycle (\<lambda>_. 0) [demo_run (Reason_Timeout 5), demo_run Reason_Sleep] [] demo_asleep = Inr s' \<and> \<not> runnable s' \<and>
     map snd (m_lists s' (getSleeping (m_sleepState s'))) = [snd (m_lists demo_asleep (getSleeping (m_sleepState demo_asleep)) ! 1)] \<and>
     cycle (\<lambda>_. 0) [demo_run (Reason_Timeout 5)] [] demo_asleep = Inl OutOfFuel"
proof -
  let ?rs = "[demo_run (Reason_Timeout 5), demo_run Reason_Sleep]"
  have two: "length (m_lists demo_asleep (getSleeping (m_sleepState demo_asleep))) = 2" by code_simp
  then obtain x y where xy: "m_lists demo_asleep (getSleeping (m_sleepState demo_asleep)) = [x, y]"
    by (auto simp: length_Suc_conv numeral_2_eq_2)
  have "(\<exists>s'. cycle (\<lambda>_. 0) ?rs [] demo_asleep = Inr s' \<and> \<not> runnable s' \<and>
      map snd (m_lists s' (getSleeping (m_sleepState s'))) =
        [a. (r, n, a) \<leftarrow> zip ?rs (m_lists demo_asleep (getSleeping (m_sleepState demo_asleep))), run_reason r = Reason_Sleep]) \<and>
    (\<forall>k < length ?rs. cycle (\<lambda>_. 0) (take k ?rs) [] demo_asleep = Inl OutOfFuel)"
  proof (rule cycle_runs_sleepers_once [OF demo_asleep_reachable])
    show "\<not> runnable demo_asleep" by code_simp
    show "\<forall>t \<in> fst ` set (m_timeouts demo_asleep). \<not> t \<le> 0" by code_simp
    show "m_events demo_asleep Events_wait = []" by code_simp
  qed (simp_all add: two demo_run_def run_once_def)
  moreover have "[a. (r, n, a) \<leftarrow> zip ?rs [x, y], run_reason r = Reason_Sleep] = [snd y]"
    by (cases x; cases y) (simp add: demo_run_def)
  moreover have "take 1 ?rs = [demo_run (Reason_Timeout 5)]" by simp
  ultimately show ?thesis unfolding xy by (metis length_Cons lessI list.size(3) nth_Cons_Suc nth_Cons_0 One_nat_def Suc_less_eq zero_less_Suc)
qed

text \<open>C11. An action that returned to wait for all of some events, awake or asleep, is active after a sequence of
  signals exactly when there is an event among the awaited ones and all of them were signalled.\<close>

theorem wait_all_wakes:
  assumes "reachable s" and "m_lists s (getActive (m_sleepState s)) = (n, a) # xs"
    and "run_calls r = []" and "run_reason r \<in> {Reason_Wait_All evs, Reason_Sleep_All evs}"
  shows "\<exists>s' s''. run_action r a s = Inr s' \<and> foldR signal rs s' = Inr s'' \<and>
    (a \<in> snd ` set (m_lists s'' (getActive (m_sleepState s''))) \<longleftrightarrow> evs \<noteq> [] \<and> set evs \<subseteq> set rs)"
proof -
  from run_action_awaits [OF reachable_idle [OF assms(1)] assms(2-4)] obtain s' where
    s': "run_action r a s = Inr s'" "idle s'" "awaited a s' = set evs" "pending a s' \<longleftrightarrow> evs \<noteq> []" by blast
  from s'(2) have "sched_ok None s'" by (simp add: idle_def)
  from signals_pending [OF this, of rs a] obtain s'' where s'': "foldR signal rs s' = Inr s''" "sched_ok None s''"
    "pending a s'' \<longleftrightarrow> pending a s'" "awaited a s'' = awaited a s' - set rs" by blast
  from pending_active [OF s''(2), of a] s''(3,4) s'(3,4) have "is_active a s'' \<longleftrightarrow> evs \<noteq> [] \<and> set evs \<subseteq> set rs" by auto
  with s'(1) s''(1) show ?thesis unfolding is_active_def by blast
qed

theorem wait_all_wakes_witness:
  "\<exists>s' s''. run_action (demo_run (Reason_Wait_All [demo_ref 7, demo_ref 8])) 0 demo = Inr s' \<and>
    foldR signal [demo_ref 8, demo_ref 5, demo_ref 7] s' = Inr s'' \<and>
    (0 \<in> snd ` set (m_lists s'' (getActive (m_sleepState s''))) \<longleftrightarrow>
      [demo_ref 7, demo_ref 8] \<noteq> [] \<and> set [demo_ref 7, demo_ref 8] \<subseteq> set [demo_ref 8, demo_ref 5, demo_ref 7])"
proof (rule wait_all_wakes [OF demo_reachable])
  show "m_lists demo (getActive (m_sleepState demo)) = (1, 0) # tl (m_lists demo (getActive (m_sleepState demo)))" by code_simp
qed (simp_all add: demo_run_def)

text \<open>C37. Stopping an action that is asleep for another action's event erases the iterators of that event in the
  map of the waiting actions, which they do not belong to.\<close>

theorem stop_of_sleeper_undefined:
  assumes "reachable s" and "find_action ref s = Some a" and "s_objects s a = Some act"
    and "(r, n, a) \<in> set (m_events s Events_sleep)" and "r \<noteq> aa_ref act"
  shows "do_call (Stop_ref ref cs) s = Inl UndefinedBehaviour"
proof -
  have ok: "sched_ok None s" using reachable_idle [OF assms(1)] by (simp add: idle_def)
  have d: "deref s a = Inr act" by (rule deref_object [OF sched_okD(1) [OF ok] assms(3)])
  from on_event_ok [OF ok, of Events_wait "aa_ref act"] obtain s1 where
    s1: "on_event Events_wait (aa_ref act) s = Inr s1" "sched_ok None s1" "calm s s1"
      "m_events s1 = (m_events s)(Events_wait := filter (\<lambda>x. fst x \<noteq> aa_ref act) (m_events s Events_wait))" by blast
  from on_event_ok [OF s1(2), of Events_sleep "aa_ref act"] obtain s2 where
    s2: "on_event Events_sleep (aa_ref act) s1 = Inr s2" "sched_ok None s2" "calm s1 s2"
      "m_events s2 = (m_events s1)(Events_sleep := filter (\<lambda>x. fst x \<noteq> aa_ref act) (m_events s1 Events_sleep))" by blast
  from calmD [OF calm_trans [OF s1(3) s2(3)] assms(3)] obtain act2 where act2: "s_objects s2 a = Some act2" by blast
  have "(r, n, a) \<in> set (m_events s2 Events_sleep)" using assms(4,5) s1(4) s2(4) by simp
  from withdraw_sleeper [OF s2(2) act2 this] have "withdraw a s2 = Inl UndefinedBehaviour" .
  then show ?thesis using assms(2) d s1(1) s2(1) by (simp add: finish_def)
qed

theorem stop_of_sleeper_undefined_witness:
  "do_call (Stop_ref (demo_ref 1) []) demo_sleep = Inl UndefinedBehaviour"
proof (rule stop_of_sleeper_undefined [OF demo_sleep_reachable])
  show "find_action (demo_ref 1) demo_sleep = Some 0" by code_simp
  show "s_objects demo_sleep 0 = Some (the (s_objects demo_sleep 0))" by code_simp
  show "(demo_ref 5, fst (snd (hd (m_events demo_sleep Events_sleep))), 0) \<in> set (m_events demo_sleep Events_sleep)" by code_simp
  show "demo_ref 5 \<noteq> aa_ref (the (s_objects demo_sleep 0))" by code_simp
qed

text \<open>Whether an erased node was used.\<close>

definition undefined_result :: "scheduler result \<Rightarrow> bool" where
  "undefined_result r = (case r of Inl e \<Rightarrow> e = UndefinedBehaviour | Inr _ \<Rightarrow> False)"

text \<open>C38. An action that sleeps for any of two references that no other action sleeps for, and with no event
  that is slept for between them, is a trap: the signal of the smaller one, if nobody waits for it, erases the
  node at which the loop over the events of that reference ends.\<close>

theorem sleep_any_of_two_undefined:
  assumes "reachable s" and "m_lists s (getActive (m_sleepState s)) = (n, a) # xs"
    and "run_calls r = []" and "run_reason r = Reason_Sleep_Any evs" and "evs \<in> {[r1, r2], [r2, r1]}" and "ref_key r1 < ref_key r2"
    and "\<forall>x \<in> set (m_events s Events_sleep). ref_key (fst x) < ref_key r1 \<or> ref_key r2 < ref_key (fst x)"
    and "r1 \<notin> fst ` set (m_events s Events_wait)"
  shows "\<exists>s'. run_action r a s = Inr s' \<and> signal r1 s' = Inl UndefinedBehaviour"
proof -
  obtain f1 f2 where f: "evs = [f1, f2]" "f1 = r1 \<and> f2 = r2 \<or> f1 = r2 \<and> f2 = r1" using assms(5) by blast
  have idle: "idle s" by (rule reachable_idle [OF assms(1)])
  then have "sched_ok None s" by (simp add: idle_def)
  then have ev: "mm_sorted ref_key (m_events s Events_sleep)" "\<forall>x \<in> set (m_events s Events_sleep). fst (snd x) < s_next s"
    using sched_okD(5) unfolding events_ok_def by blast+
  define L where "L = filter (\<lambda>x. ref_key (fst x) < ref_key r1) (m_events s Events_sleep)"
  define U where "U = filter (\<lambda>x. ref_key r1 < ref_key (fst x)) (m_events s Events_sleep)"
  have "filter (\<lambda>x. fst x = r1) (m_events s Events_sleep) = []" using assms(6,7) by (auto simp: filter_empty_conv)
  then have m: "m_events s Events_sleep = L @ U" using sorted_parts [OF ev(1), of r1] by (simp add: L_def U_def)
  have L: "\<forall>x \<in> set L. ref_key (fst x) < ref_key r1" by (simp add: L_def)
  have U: "\<forall>x \<in> set U. ref_key r2 < ref_key (fst x)" using assms(7) by (auto simp: U_def)
  have nodes: "n' \<notin> set (event_nodes (L @ U))" if "s_next s \<le> n'" for n'
  proof
    assume "n' \<in> set (event_nodes (L @ U))"
    then obtain x where "x \<in> set (L @ U)" "n' = fst (snd x)" unfolding event_nodes_def by auto
    with ev(2) that show False unfolding m by fastforce
  qed
  from run_action_any [OF idle assms(2,3) assms(4) [unfolded f(1)]] obtain s' act where
    s': "run_action r a s = Inr s'" "deref s' a = Inr act" "bWaitAny act" "iter_event_ref act = [s_next s, Suc (s_next s)]"
      "m_events s' Events_wait = m_events s Events_wait"
      "m_events s' Events_sleep = mm_insert ref_key f2 (Suc (s_next s), a) (mm_insert ref_key f1 (s_next s, a) (L @ U))"
    unfolding m by blast
  have L': "\<forall>x \<in> set L. \<not> ref_key r2 < ref_key (fst x)" "\<forall>x \<in> set L. \<not> ref_key r1 < ref_key (fst x)"
    and U': "\<forall>x \<in> set U. ref_key r1 < ref_key (fst x)" using L U assms(6) by fastforce+
  from f(2) show ?thesis
  proof
    assume f: "f1 = r1 \<and> f2 = r2"
    have "m_events s' Events_sleep = L @ (r1, s_next s, a) # (r2, Suc (s_next s), a) # U"
      using s'(6) f mm_insert_between [OF L'(2) U', of "(s_next s, a)"] L'(1) U assms(6)
        mm_insert_between [of "L @ [(r1, s_next s, a)]" ref_key r2 U "(Suc (s_next s), a)"] by auto
    from any_of_two [OF this assms(6) L U _ _ _ s'(2,3)] nodes s'(1,4,5) assms(8) show ?thesis by simp
  next
    assume f: "f1 = r2 \<and> f2 = r1"
    have "m_events s' Events_sleep = L @ (r1, Suc (s_next s), a) # (r2, s_next s, a) # U"
      using s'(6) f mm_insert_between [OF L'(1) U, of "(s_next s, a)"] L'(2) U' assms(6)
        mm_insert_between [of L ref_key r1 "(r2, s_next s, a) # U" "(Suc (s_next s), a)"] by auto
    from any_of_two [OF this assms(6) L U _ _ _ s'(2,3)] nodes s'(1,4,5) assms(8) show ?thesis by simp
  qed
qed

theorem sleep_any_of_two_undefined_witness:
  "\<exists>s'. run_action (demo_run (Reason_Sleep_Any [demo_ref 5, demo_ref 6])) 0 demo = Inr s' \<and>
     signal (demo_ref 5) s' = Inl UndefinedBehaviour"
proof (rule sleep_any_of_two_undefined [OF demo_reachable])
  show "m_lists demo (getActive (m_sleepState demo)) = (1, 0) # tl (m_lists demo (getActive (m_sleepState demo)))" by code_simp
  show "\<forall>x \<in> set (m_events demo Events_sleep). ref_key (fst x) < ref_key (demo_ref 5) \<or> ref_key (demo_ref 6) < ref_key (fst x)"
    by code_simp
  show "[demo_ref 5, demo_ref 6] \<in> {[demo_ref 5, demo_ref 6], [demo_ref 6, demo_ref 5]}" by (rule insertI1)
  show "demo_ref 5 \<notin> fst ` set (m_events demo Events_wait)" by code_simp
qed (simp_all add: demo_run_def demo_ref_def ref_key_def)

text \<open>Stopping an action that waits for a timeout leaves its entry among the timeouts: the cycle after that
  dereferences the iterator of the stopped action.\<close>

theorem stop_leaves_timeout:
  "\<exists>s s'. reachable s \<and> do_call (Stop_ref (demo_ref 1) []) s = Inr s' \<and>
     m_timeouts s' \<noteq> [] \<and> cycle (\<lambda>_. 9) [] [] s' = Inl UndefinedBehaviour"
proof (intro exI conjI)
  let ?runs = "[demo_run (Reason_Timeout 5), demo_run Reason_Sleep]"
  let ?r = "cycle (\<lambda>_. 0) ?runs [] demo"
  let ?t = "do_call (Stop_ref (demo_ref 1) []) (state_of ?r)"
  have "cycle_allowed (\<lambda>_. 0) ?runs [] demo" by code_simp
  moreover have "returned ?r" by code_simp
  ultimately show "reachable (state_of ?r)" by (rule reachable_cycle [OF demo_reachable _ returned_state])
  show "?t = Inr (state_of ?t)" by (rule returned_state) code_simp
  show "m_timeouts (state_of ?t) \<noteq> []" by code_simp
  have "undefined_result (cycle (\<lambda>_. 9) [] [] (state_of ?t))" by code_simp
  then show "cycle (\<lambda>_. 9) [] [] (state_of ?t) = Inl UndefinedBehaviour" by (auto simp: undefined_result_def split: sum.splits)
qed

end
