(* ===== verification/Archive.thy ===== *)
theory Archive
  imports EGPrelude OrderedMultimap "HOL-Library.Product_Lexorder" "HOL-Library.Char_ord" "HOL-Library.List_Lexorder"
begin

text \<open>
  \<open>Storer\<close> and \<open>Loader\<close> of \<open>eg_compiler/io\<close>. The binary archive of boost is a parameter: \<open>enc\<close> gives
  what \<open>operator<<\<close> appends to the stream for a value, \<open>dec\<close> what \<open>operator>>\<close> takes from it for a value of
  the expected type. The locale \<open>archive\<close> has the one law that boost documents, that a value is read back
  as it was written; its lemmas are the round trips of the templates. A pointer to an indexed object is
  the pair of its file and its index.
\<close>

section \<open>Values of the archive\<close>

type_synonym FileID = "32 word"
type_synonym Index = "32 word"

definition NO_FILE :: FileID where
  "NO_FILE = - 1"

datatype kind = KBool | KInt | KSize | KString | KEnum | KInts | KStrings

datatype prim =
    PBool bool
  | PInt "32 word"
  | PSize "64 word"
  | PString string
  | PEnum nat
  | PInts "32 word list"
  | PStrings "string list"

fun kind_of :: "prim \<Rightarrow> kind" where
  "kind_of (PBool _) = KBool"
| "kind_of (PInt _) = KInt"
| "kind_of (PSize _) = KSize"
| "kind_of (PString _) = KString"
| "kind_of (PEnum _) = KEnum"
| "kind_of (PInts _) = KInts"
| "kind_of (PStrings _) = KStrings"

type_synonym 'b encoder = "prim \<Rightarrow> 'b list"
type_synonym 'b decoder = "kind \<Rightarrow> 'b list \<Rightarrow> (prim \<times> 'b list) option"

text \<open>A pointer, and the files with the classes of the objects in them: a position whose object is not
  created yet holds \<open>None\<close>.\<close>

type_synonym pointer = "(FileID \<times> Index) option"
type_synonym 't object_table = "FileID \<Rightarrow> 't option list option"

section \<open>Storing\<close>

definition store_size :: "'b encoder \<Rightarrow> nat \<Rightarrow> 'b list" where
  "store_size enc n = enc (PSize (of_nat n))"

definition storeOptional :: "'b encoder \<Rightarrow> prim option \<Rightarrow> 'b list" where
  "storeOptional enc v = (case v of None \<Rightarrow> enc (PBool False) | Some x \<Rightarrow> enc (PBool True) @ enc x)"

definition storeObjectRef :: "'b encoder \<Rightarrow> pointer \<Rightarrow> 'b list" where
  "storeObjectRef enc p = (case p of None \<Rightarrow> enc (PInt NO_FILE) | Some (f, i) \<Rightarrow> enc (PInt f) @ enc (PInt i))"

definition storeObjectVector :: "'b encoder \<Rightarrow> pointer list \<Rightarrow> 'b list" where
  "storeObjectVector enc ps = store_size enc (length ps) @ concat (map (storeObjectRef enc) ps)"

definition storeObjectSet :: "'b encoder \<Rightarrow> pointer list \<Rightarrow> 'b list" where
  "storeObjectSet enc ps = store_size enc (length ps) @ concat (map (storeObjectRef enc) ps)"

definition storeObjectVectorVector :: "'b encoder \<Rightarrow> pointer list list \<Rightarrow> 'b list" where
  "storeObjectVectorVector enc pss = store_size enc (length pss) @ concat (map (storeObjectVector enc) pss)"

definition storeObjectMap :: "'b encoder \<Rightarrow> (pointer \<times> pointer) list \<Rightarrow> 'b list" where
  "storeObjectMap enc m =
     store_size enc (length m) @ concat (map (\<lambda>(p, q). storeObjectRef enc p @ storeObjectRef enc q) m)"

definition storeKeyObjectMap :: "'b encoder \<Rightarrow> (prim \<times> pointer) list \<Rightarrow> 'b list" where
  "storeKeyObjectMap enc m = store_size enc (length m) @ concat (map (\<lambda>(k, q). enc k @ storeObjectRef enc q) m)"

section \<open>Loading\<close>

type_synonym ('b, 'a) loading = "'b list \<Rightarrow> ('a \<times> 'b list) result"

definition load_prim :: "'b decoder \<Rightarrow> kind \<Rightarrow> ('b, prim) loading" where
  "load_prim dec k bs = of_option ArchiveError (dec k bs)"

definition load_bool :: "'b decoder \<Rightarrow> ('b, bool) loading" where
  "load_bool dec bs = bindR (load_prim dec KBool bs) (\<lambda>(v, bs). case v of PBool b \<Rightarrow> Inr (b, bs) | _ \<Rightarrow> Inl ArchiveError)"

definition load_int :: "'b decoder \<Rightarrow> ('b, 32 word) loading" where
  "load_int dec bs = bindR (load_prim dec KInt bs) (\<lambda>(v, bs). case v of PInt i \<Rightarrow> Inr (i, bs) | _ \<Rightarrow> Inl ArchiveError)"

definition load_size :: "'b decoder \<Rightarrow> ('b, nat) loading" where
  "load_size dec bs = bindR (load_prim dec KSize bs) (\<lambda>(v, bs). case v of PSize n \<Rightarrow> Inr (unat n, bs) | _ \<Rightarrow> Inl ArchiveError)"

definition load_string :: "'b decoder \<Rightarrow> ('b, string) loading" where
  "load_string dec bs = bindR (load_prim dec KString bs) (\<lambda>(v, bs). case v of PString s \<Rightarrow> Inr (s, bs) | _ \<Rightarrow> Inl ArchiveError)"

fun load_times :: "nat \<Rightarrow> ('b, 'a) loading \<Rightarrow> ('b, 'a list) loading" where
  "load_times 0 f bs = Inr ([], bs)"
| "load_times (Suc n) f bs = bindR (f bs) (\<lambda>(x, bs). bindR (load_times n f bs) (\<lambda>(xs, bs). Inr (x # xs, bs)))"

definition load_counted :: "'b decoder \<Rightarrow> ('b, 'a) loading \<Rightarrow> ('b, 'a list) loading" where
  "load_counted dec f bs = bindR (load_size dec bs) (\<lambda>(n, bs). load_times n f bs)"

definition load_pair :: "('b, 'a) loading \<Rightarrow> ('b, 'c) loading \<Rightarrow> ('b, 'a \<times> 'c) loading" where
  "load_pair f g bs = bindR (f bs) (\<lambda>(x, bs). bindR (g bs) (\<lambda>(y, bs). Inr ((x, y), bs)))"

definition loadOptional :: "'b decoder \<Rightarrow> kind \<Rightarrow> ('b, prim option) loading" where
  "loadOptional dec k bs =
     bindR (load_bool dec bs) (\<lambda>(b, bs).
       if b then bindR (load_prim dec k bs) (\<lambda>(v, bs). Inr (Some v, bs)) else Inr (None, bs))"

text \<open>The object that a pointer names, when \<open>dynamic_cast\<close> to a class with the object types \<open>ts\<close> succeeds.
  The index is compared as an unsigned number, so a negative one is out of range.\<close>

definition find_object :: "'t object_table \<Rightarrow> 't list \<Rightarrow> FileID \<Rightarrow> Index \<Rightarrow> bool" where
  "find_object files ts f i =
     (case files f of
        None \<Rightarrow> False
      | Some objs \<Rightarrow> 0 \<le> sint i \<and> nat (sint i) < length objs \<and>
          (case objs ! nat (sint i) of None \<Rightarrow> False | Some t \<Rightarrow> t \<in> set ts))"

definition loadObjectRef :: "'b decoder \<Rightarrow> 't object_table \<Rightarrow> 't list \<Rightarrow> ('b, pointer) loading" where
  "loadObjectRef dec files ts bs =
     bindR (load_int dec bs) (\<lambda>(f, bs).
       if f \<noteq> NO_FILE then
         bindR (verify (files f \<noteq> None)) (\<lambda>_.
         bindR (load_int dec bs) (\<lambda>(i, bs).
         bindR (verify (find_object files ts f i)) (\<lambda>_. Inr (Some (f, i), bs))))
       else Inr (None, bs))"

text \<open>Insertion into the ordered containers, whose comparison refuses null pointers. A container of one
  element is built without a comparison.\<close>

definition pointer_key :: "pointer \<Rightarrow> int \<times> int" where
  "pointer_key p = (case p of None \<Rightarrow> (0, 0) | Some (f, i) \<Rightarrow> (sint f, sint i))"

definition checked_insert ::
  "((pointer \<times> 'v) list \<Rightarrow> (pointer \<times> 'v) list) \<Rightarrow> pointer \<Rightarrow> (pointer \<times> 'v) list \<Rightarrow> (pointer \<times> 'v) list result" where
  "checked_insert ins p m =
     bindR (verify (m = [] \<or> p \<noteq> None \<and> None \<notin> fst ` set m)) (\<lambda>_. Inr (ins m))"

definition insert_map :: "pointer \<times> 'v \<Rightarrow> (pointer \<times> 'v) list \<Rightarrow> (pointer \<times> 'v) list result" where
  "insert_map e m = checked_insert (map_insert_new pointer_key (fst e) (snd e)) (fst e) m"

definition insert_multimap :: "pointer \<times> 'v \<Rightarrow> (pointer \<times> 'v) list \<Rightarrow> (pointer \<times> 'v) list result" where
  "insert_multimap e m = checked_insert (mm_insert pointer_key (fst e) (snd e)) (fst e) m"

definition loading_into ::
  "('a \<Rightarrow> 'm list \<Rightarrow> 'm list result) \<Rightarrow> ('b, 'a list) loading \<Rightarrow> ('b, 'm list) loading" where
  "loading_into ins f bs = bindR (f bs) (\<lambda>(es, bs). bindR (foldR ins es []) (\<lambda>m. Inr (m, bs)))"

definition loadObjectVector :: "'b decoder \<Rightarrow> 't object_table \<Rightarrow> 't list \<Rightarrow> ('b, pointer list) loading" where
  "loadObjectVector dec files ts = load_counted dec (loadObjectRef dec files ts)"

definition loadObjectSet :: "'b decoder \<Rightarrow> 't object_table \<Rightarrow> 't list \<Rightarrow> ('b, pointer list) loading" where
  "loadObjectSet dec files ts bs =
     bindR (loading_into (\<lambda>p. insert_map (p, ())) (load_counted dec (loadObjectRef dec files ts)) bs)
       (\<lambda>(m, bs). Inr (map fst m, bs))"

definition loadObjectVectorVector :: "'b decoder \<Rightarrow> 't object_table \<Rightarrow> 't list \<Rightarrow> ('b, pointer list list) loading" where
  "loadObjectVectorVector dec files ts = load_counted dec (loadObjectVector dec files ts)"

definition load_pairs :: "'b decoder \<Rightarrow> 't object_table \<Rightarrow> 't list \<Rightarrow> 't list \<Rightarrow> ('b, (pointer \<times> pointer) list) loading" where
  "load_pairs dec files ts us = load_counted dec (load_pair (loadObjectRef dec files ts) (loadObjectRef dec files us))"

definition loadObjectMap :: "'b decoder \<Rightarrow> 't object_table \<Rightarrow> 't list \<Rightarrow> 't list \<Rightarrow> ('b, (pointer \<times> pointer) list) loading" where
  "loadObjectMap dec files ts us = loading_into insert_map (load_pairs dec files ts us)"

definition loadObjectMultimap :: "'b decoder \<Rightarrow> 't object_table \<Rightarrow> 't list \<Rightarrow> 't list \<Rightarrow> ('b, (pointer \<times> pointer) list) loading" where
  "loadObjectMultimap dec files ts us = loading_into insert_multimap (load_pairs dec files ts us)"

text \<open>Only maps with string keys are stored this way; they are ordered as strings.\<close>

definition prim_key :: "prim \<Rightarrow> string" where
  "prim_key v = (case v of PString s \<Rightarrow> s | _ \<Rightarrow> [])"

definition loadKeyObjectMap ::
  "'b decoder \<Rightarrow> 't object_table \<Rightarrow> kind \<Rightarrow> 't list \<Rightarrow> ('b, (prim \<times> pointer) list) loading" where
  "loadKeyObjectMap dec files k us =
     loading_into (\<lambda>e m. Inr (map_insert_new prim_key (fst e) (snd e) m))
       (load_counted dec (load_pair (load_prim dec k) (loadObjectRef dec files us)))"

section \<open>Containers in their order\<close>

definition map_sorted :: "('a \<Rightarrow> 'k :: linorder) \<Rightarrow> ('a \<times> 'v) list \<Rightarrow> bool" where
  "map_sorted key m \<longleftrightarrow> sorted_wrt (<) (map (\<lambda>e. key (fst e)) m)"

lemma mm_insert_last: "\<forall>e \<in> set m. key (fst e) \<le> key k \<Longrightarrow> mm_insert key k v m = m @ [(k, v)]"
  by (induction m) auto

lemma foldR_append_last:
  assumes "\<And>m e m'. es = m @ e # m' \<Longrightarrow> ins e m = Inr (m @ [e])"
  shows "foldR ins es [] = Inr es"
proof -
  have "foldR ins m' m = Inr (m @ m')" if "es = m @ m'" for m m'
    using that assms by (induction m' arbitrary: m) auto
  from this [of "[]" es] show ?thesis by simp
qed

lemma map_insert_new_last:
  assumes "map_sorted key (m @ (k, v) # m')"
  shows "map_insert_new key k v m = m @ [(k, v)]"
proof -
  have lt: "\<forall>e \<in> set m. key (fst e) < key k" using assms by (auto simp: map_sorted_def sorted_wrt_append)
  then have "mm_lookup key (key k) m = []" by (auto simp: mm_lookup_Nil_iff)
  with lt mm_insert_last [of m key k v] show ?thesis by (simp add: map_insert_new_def less_imp_le)
qed

definition pointers_set :: "(pointer \<times> 'v) list \<Rightarrow> bool" where
  "pointers_set m \<longleftrightarrow> length m = 1 \<or> None \<notin> fst ` set m"

lemma verify_insert:
  assumes "pointers_set es" and "es = m @ e # m'"
  shows "verify (m = [] \<or> fst e \<noteq> None \<and> None \<notin> fst ` set m) = Inr ()"
  using assms by (cases m) (simp_all add: pointers_set_def verify_def eq_commute [of None] image_Un)

lemma foldR_insert_map:
  assumes "map_sorted pointer_key es" and "pointers_set es"
  shows "foldR insert_map es [] = Inr es"
proof (rule foldR_append_last)
  fix m e m' assume e: "es = m @ e # m'"
  have "map_insert_new pointer_key (fst e) (snd e) m = m @ [e]"
    using map_insert_new_last [of pointer_key m "fst e" "snd e" m'] assms(1) e by simp
  with verify_insert [OF assms(2) e] show "insert_map e m = Inr (m @ [e])" by (simp add: insert_map_def checked_insert_def)
qed

lemma foldR_insert_multimap:
  assumes "mm_sorted pointer_key es" and "pointers_set es"
  shows "foldR insert_multimap es [] = Inr es"
proof (rule foldR_append_last)
  fix m e m' assume e: "es = m @ e # m'"
  have "\<forall>x \<in> set m. pointer_key (fst x) \<le> pointer_key (fst e)"
    using assms(1) e by (auto simp: mm_sorted_def sorted_append)
  from mm_insert_last [OF this] verify_insert [OF assms(2) e]
  show "insert_multimap e m = Inr (m @ [e])" by (simp add: insert_multimap_def checked_insert_def)
qed

lemma foldR_insert_keys:
  assumes "map_sorted key es"
  shows "foldR (\<lambda>e m. Inr (map_insert_new key (fst e) (snd e) m)) es [] = Inr es"
proof (rule foldR_append_last)
  fix m e m' assume "es = m @ e # m'"
  with assms map_insert_new_last [of key m "fst e" "snd e" m'] show "Inr (map_insert_new key (fst e) (snd e) m) = Inr (m @ [e])" by simp
qed

section \<open>Round trips\<close>

text \<open>What a pointer must be to be stored and loaded again.\<close>

definition pointer_ok :: "'t object_table \<Rightarrow> 't list \<Rightarrow> pointer \<Rightarrow> bool" where
  "pointer_ok files ts p = (case p of None \<Rightarrow> True | Some (f, i) \<Rightarrow> f \<noteq> NO_FILE \<and> find_object files ts f i)"

definition counted :: "'a list \<Rightarrow> bool" where
  "counted xs \<longleftrightarrow> length xs < 2 ^ 64"

text \<open>\<open>reads f g P\<close>: what \<open>g\<close> writes for a value with \<open>P\<close>, \<open>f\<close> reads back and leaves the rest of the stream.\<close>

definition reads :: "('b, 'a) loading \<Rightarrow> ('a \<Rightarrow> 'b list) \<Rightarrow> ('a \<Rightarrow> bool) \<Rightarrow> bool" where
  "reads f g P \<longleftrightarrow> (\<forall>x rest. P x \<longrightarrow> f (g x @ rest) = Inr (x, rest))"

lemma readsD: "reads f g P \<Longrightarrow> P x \<Longrightarrow> f (g x @ rest) = Inr (x, rest)"
  by (simp add: reads_def)

lemma load_times_reads:
  assumes "reads f g P" and "\<forall>x \<in> set xs. P x"
  shows "load_times (length xs) f (concat (map g xs) @ rest) = Inr (xs, rest)"
  using assms(2) readsD [OF assms(1)] by (induction xs) simp_all

lemma load_pair_reads:
  assumes "reads f g P" and "reads f' g' P'"
  shows "reads (load_pair f f') (\<lambda>(x, y). g x @ g' y) (\<lambda>(x, y). P x \<and> P' y)"
  unfolding reads_def by (clarsimp simp: load_pair_def readsD [OF assms(1)] readsD [OF assms(2)])

locale archive =
  fixes enc :: "'b encoder" and dec :: "'b decoder"
  assumes read_back: "dec (kind_of v) (enc v @ rest) = Some (v, rest)"
begin

lemma read_kind: "k = kind_of v \<Longrightarrow> dec k (enc v @ rest) = Some (v, rest)"
  by (simp add: read_back)

lemma load_prim_reads: "reads (load_prim dec k) enc (\<lambda>v. kind_of v = k)"
  by (auto simp: reads_def load_prim_def read_kind)

lemma load_bool_back [simp]: "load_bool dec (enc (PBool b) @ rest) = Inr (b, rest)"
  by (simp add: load_bool_def load_prim_def read_kind)

lemma load_int_back [simp]: "load_int dec (enc (PInt i) @ rest) = Inr (i, rest)"
  by (simp add: load_int_def load_prim_def read_kind)

lemma load_string_back [simp]: "load_string dec (enc (PString s) @ rest) = Inr (s, rest)"
  by (simp add: load_string_def load_prim_def read_kind)

lemma load_size_back: "n < 2 ^ 64 \<Longrightarrow> load_size dec (store_size enc n @ rest) = Inr (n, rest)"
  by (simp add: load_size_def store_size_def load_prim_def read_kind unat_of_nat take_bit_nat_eq_self)

lemma load_counted_reads:
  assumes "reads f g P"
  shows "reads (load_counted dec f) (\<lambda>xs. store_size enc (length xs) @ concat (map g xs)) (\<lambda>xs. counted xs \<and> (\<forall>x \<in> set xs. P x))"
  using load_times_reads [OF assms] by (simp add: reads_def load_counted_def counted_def load_size_back)

lemma loadOptional_reads: "reads (loadOptional dec k) (storeOptional enc) (\<lambda>v. \<forall>x. v = Some x \<longrightarrow> kind_of x = k)"
  using readsD [OF load_prim_reads] by (auto simp: reads_def loadOptional_def storeOptional_def split: option.splits)

lemma loadObjectRef_reads: "reads (loadObjectRef dec files ts) (storeObjectRef enc) (pointer_ok files ts)"
  by (auto simp: reads_def loadObjectRef_def storeObjectRef_def pointer_ok_def verify_def find_object_def split: option.splits)

lemma loadObjectVector_reads:
  "reads (loadObjectVector dec files ts) (storeObjectVector enc) (\<lambda>ps. counted ps \<and> (\<forall>p \<in> set ps. pointer_ok files ts p))"
  using load_counted_reads [OF loadObjectRef_reads] by (simp add: loadObjectVector_def storeObjectVector_def [abs_def])

lemma loadObjectVectorVector_reads:
  "reads (loadObjectVectorVector dec files ts) (storeObjectVectorVector enc)
     (\<lambda>pss. counted pss \<and> (\<forall>ps \<in> set pss. counted ps \<and> (\<forall>p \<in> set ps. pointer_ok files ts p)))"
  using load_counted_reads [OF loadObjectVector_reads] by (simp add: loadObjectVectorVector_def storeObjectVectorVector_def [abs_def])

lemma load_pairs_reads:
  "reads (load_pairs dec files ts us) (storeObjectMap enc)
     (\<lambda>m. counted m \<and> (\<forall>(p, q) \<in> set m. pointer_ok files ts p \<and> pointer_ok files us q))"
  using load_counted_reads [OF load_pair_reads [OF loadObjectRef_reads loadObjectRef_reads]]
  by (simp add: load_pairs_def storeObjectMap_def [abs_def])

lemma loadObjectSet_reads:
  "reads (loadObjectSet dec files ts) (storeObjectSet enc)
     (\<lambda>ps. counted ps \<and> (\<forall>p \<in> set ps. pointer_ok files ts p) \<and> map_sorted pointer_key (map (\<lambda>p. (p, ())) ps) \<and>
        pointers_set (map (\<lambda>p. (p, ())) ps))"
proof -
  have e: "foldR (\<lambda>p. insert_map (p, ())) ps m = foldR insert_map (map (\<lambda>p. (p, ())) ps) m" for ps m
    by (induction ps arbitrary: m) (simp_all add: bindR_def split: sum.splits)
  show ?thesis
    using readsD [OF load_counted_reads [OF loadObjectRef_reads [of files ts]]]
    by (simp add: foldR_insert_map reads_def loadObjectSet_def loading_into_def storeObjectSet_def e comp_def)
qed

lemma loadObjectMap_reads:
  "reads (loadObjectMap dec files ts us) (storeObjectMap enc)
     (\<lambda>m. counted m \<and> (\<forall>(p, q) \<in> set m. pointer_ok files ts p \<and> pointer_ok files us q) \<and> map_sorted pointer_key m \<and> pointers_set m)"
  using readsD [OF load_pairs_reads [of files ts us]] by (simp add: foldR_insert_map reads_def loadObjectMap_def loading_into_def)

lemma loadObjectMultimap_reads:
  "reads (loadObjectMultimap dec files ts us) (storeObjectMap enc)
     (\<lambda>m. counted m \<and> (\<forall>(p, q) \<in> set m. pointer_ok files ts p \<and> pointer_ok files us q) \<and> mm_sorted pointer_key m \<and> pointers_set m)"
  using readsD [OF load_pairs_reads [of files ts us]] by (simp add: foldR_insert_multimap reads_def loadObjectMultimap_def loading_into_def)

lemma loadKeyObjectMap_reads:
  "reads (loadKeyObjectMap dec files k us) (storeKeyObjectMap enc)
     (\<lambda>m. counted m \<and> (\<forall>(v, q) \<in> set m. kind_of v = k \<and> pointer_ok files us q) \<and> map_sorted prim_key m)"
proof -
  have "reads (load_pair (load_prim dec k) (loadObjectRef dec files us)) (\<lambda>(v, q). enc v @ storeObjectRef enc q)
      (\<lambda>(v, q). kind_of v = k \<and> pointer_ok files us q)"
    by (rule load_pair_reads [OF load_prim_reads loadObjectRef_reads])
  from readsD [OF load_counted_reads [OF this]] show ?thesis
    by (simp add: reads_def loadKeyObjectMap_def loading_into_def storeKeyObjectMap_def foldR_insert_keys)
qed

end

end
