(* ===== verification/ObjectTypes.thy ===== *)
theory ObjectTypes
  imports Archive
begin

text \<open>
  The types of the indexed objects (\<open>eg_compiler/objects.hpp\<close>), the classes that \<open>dynamic_cast\<close> tests for,
  the header of an object in the object table of a file and the factory (\<open>src/eg/objects.cpp\<close>).
\<close>

datatype ObjectType =
    eInputOpaque | eInputDimension | eInputInclude | eInputUsing
  | eInputExport | eInputVisibility | eInputContext | eInputRoot
  | eAbstractOpaque | eAbstractDimension | eAbstractInclude | eAbstractUsing
  | eAbstractExport | eAbstractAbstract | eAbstractEvent | eAbstractFunction
  | eAbstractAction | eAbstractObject | eAbstractLink | eAbstractRoot
  | eInheritanceNode | eConcreteAction | eConcreteDimensionUser | eConcreteDimensionGenerated
  | eConcreteAllocator_Nothing | eConcreteAllocator_Singleton | eConcreteAllocator_Range | eIdentifiers
  | eDerivationAnalysis | eLinkGroup | eLinkAnalysis | eTranslationUnit
  | eTranslationUnitAnalysis | eInvocationSolution | eDataMember | eBuffer
  | eLayout

text \<open>The enumerators in their order; \<open>m_type\<close> is the number of one.\<close>

definition object_types :: "ObjectType list" where
  "object_types =
    [eInputOpaque, eInputDimension, eInputInclude, eInputUsing,
     eInputExport, eInputVisibility, eInputContext, eInputRoot,
     eAbstractOpaque, eAbstractDimension, eAbstractInclude, eAbstractUsing,
     eAbstractExport, eAbstractAbstract, eAbstractEvent, eAbstractFunction,
     eAbstractAction, eAbstractObject, eAbstractLink, eAbstractRoot,
     eInheritanceNode, eConcreteAction, eConcreteDimensionUser, eConcreteDimensionGenerated,
     eConcreteAllocator_Nothing, eConcreteAllocator_Singleton, eConcreteAllocator_Range, eIdentifiers,
     eDerivationAnalysis, eLinkGroup, eLinkAnalysis, eTranslationUnit,
     eTranslationUnitAnalysis, eInvocationSolution, eDataMember, eBuffer,
     eLayout]"

fun type_number :: "ObjectType \<Rightarrow> 32 word" where
  "type_number eInputOpaque = 0"
| "type_number eInputDimension = 1"
| "type_number eInputInclude = 2"
| "type_number eInputUsing = 3"
| "type_number eInputExport = 4"
| "type_number eInputVisibility = 5"
| "type_number eInputContext = 6"
| "type_number eInputRoot = 7"
| "type_number eAbstractOpaque = 8"
| "type_number eAbstractDimension = 9"
| "type_number eAbstractInclude = 10"
| "type_number eAbstractUsing = 11"
| "type_number eAbstractExport = 12"
| "type_number eAbstractAbstract = 13"
| "type_number eAbstractEvent = 14"
| "type_number eAbstractFunction = 15"
| "type_number eAbstractAction = 16"
| "type_number eAbstractObject = 17"
| "type_number eAbstractLink = 18"
| "type_number eAbstractRoot = 19"
| "type_number eInheritanceNode = 20"
| "type_number eConcreteAction = 21"
| "type_number eConcreteDimensionUser = 22"
| "type_number eConcreteDimensionGenerated = 23"
| "type_number eConcreteAllocator_Nothing = 24"
| "type_number eConcreteAllocator_Singleton = 25"
| "type_number eConcreteAllocator_Range = 26"
| "type_number eIdentifiers = 27"
| "type_number eDerivationAnalysis = 28"
| "type_number eLinkGroup = 29"
| "type_number eLinkAnalysis = 30"
| "type_number eTranslationUnit = 31"
| "type_number eTranslationUnitAnalysis = 32"
| "type_number eInvocationSolution = 33"
| "type_number eDataMember = 34"
| "type_number eBuffer = 35"
| "type_number eLayout = 36"

text \<open>\<open>ObjectFactoryImpl::create\<close>: the class of the object that is created for a number.\<close>

definition create_object :: "32 word \<Rightarrow> ObjectType result" where
  "create_object n =
     (if 0 \<le> sint n \<and> sint n < int (length object_types) then Inr (object_types ! nat (sint n))
      else Inl (RuntimeError ''Unknown object type''))"

lemma create_type_number [simp]: "create_object (type_number t) = Inr t"
  by (cases t) (simp_all add: create_object_def object_types_def)

section \<open>Classes\<close>

text \<open>The object types whose class derives from a class.\<close>

definition input_Element :: "ObjectType list" where
  "input_Element =
    [eInputOpaque, eInputDimension, eInputInclude, eInputUsing, eInputExport, eInputVisibility, eInputContext, eInputRoot]"

definition input_Context :: "ObjectType list" where
  "input_Context = [eInputContext, eInputRoot]"

definition interface_Context :: "ObjectType list" where
  "interface_Context =
    [eAbstractAbstract, eAbstractEvent, eAbstractFunction, eAbstractAction, eAbstractObject, eAbstractLink, eAbstractRoot]"

definition interface_Element :: "ObjectType list" where
  "interface_Element =
    [eAbstractOpaque, eAbstractDimension, eAbstractInclude, eAbstractUsing, eAbstractExport] @ interface_Context"

definition concrete_Dimension :: "ObjectType list" where
  "concrete_Dimension = [eConcreteDimensionUser, eConcreteDimensionGenerated]"

definition concrete_Element :: "ObjectType list" where
  "concrete_Element = eConcreteAction # concrete_Dimension"

definition concrete_Allocator :: "ObjectType list" where
  "concrete_Allocator = [eConcreteAllocator_Nothing, eConcreteAllocator_Singleton, eConcreteAllocator_Range]"

section \<open>The header of an object\<close>

record object_header =
  m_type :: "32 word"
  m_fileID :: FileID
  m_index :: Index

definition IndexedObject_store :: "'b encoder \<Rightarrow> object_header \<Rightarrow> 'b list" where
  "IndexedObject_store enc h = enc (PInt (m_type h)) @ enc (PInt (m_fileID h)) @ enc (PInt (m_index h))"

definition IndexedObject_load :: "'b decoder \<Rightarrow> ('b, object_header) loading" where
  "IndexedObject_load dec bs =
     bindR (load_int dec bs) (\<lambda>(t, bs). bindR (load_int dec bs) (\<lambda>(f, bs). bindR (load_int dec bs) (\<lambda>(i, bs).
       Inr (\<lparr>m_type = t, m_fileID = f, m_index = i\<rparr>, bs))))"

context archive
begin

lemma IndexedObject_reads: "reads (IndexedObject_load dec) (IndexedObject_store enc) (\<lambda>h. True)"
  by (simp add: reads_def IndexedObject_load_def IndexedObject_store_def)

end

end
