(* ===== verification/InstructionSerial.thy ===== *)
theory InstructionSerial
  imports ObjectTypes Instructions
begin

text \<open>
  \<open>ASTSerialiser\<close> and the \<open>load\<close> and \<open>store\<close> members of the variables and instructions
  (\<open>src/eg/instruction.cpp\<close>). The serialiser numbers the elements in the order in which it meets them; an
  element that it meets again is stored by its number. Variables are shared between instructions and are told
  apart by their address, and a variable that is loaded gets its number as its address. An instruction
  belongs to its parent, so it is met once. All objects that a tree points to are in the master file.
\<close>

section \<open>The types of the elements\<close>

datatype ASTElementType =
    eInstanceVariable | eReferenceVariable | eDimensionVariable | eContextVariable
  | eRootInstruction | eParentDerivationInstruction | eChildDerivationInstruction | eEnumDerivationInstruction
  | eEnumerationInstruction | eFailureInstruction | eEliminationInstruction | ePruneInstruction
  | eDimensionReferenceReadInstruction | eMonoReferenceInstruction | ePolyReferenceInstruction | ePolyCaseInstruction
  | eCallOperation | eStartOperation | eStopOperation | ePauseOperation
  | eResumeOperation | eDoneOperation | eWaitActionOperation | eWaitDimensionOperation
  | eGetActionOperation | eGetDimensionOperation | eReadOperation | eWriteOperation
  | eWriteLinkOperation | eRangeOperation

definition ast_types :: "ASTElementType list" where
  "ast_types =
    [eInstanceVariable, eReferenceVariable, eDimensionVariable, eContextVariable,
     eRootInstruction, eParentDerivationInstruction, eChildDerivationInstruction, eEnumDerivationInstruction,
     eEnumerationInstruction, eFailureInstruction, eEliminationInstruction, ePruneInstruction,
     eDimensionReferenceReadInstruction, eMonoReferenceInstruction, ePolyReferenceInstruction, ePolyCaseInstruction,
     eCallOperation, eStartOperation, eStopOperation, ePauseOperation,
     eResumeOperation, eDoneOperation, eWaitActionOperation, eWaitDimensionOperation,
     eGetActionOperation, eGetDimensionOperation, eReadOperation, eWriteOperation,
     eWriteLinkOperation, eRangeOperation]"

fun ast_number :: "ASTElementType \<Rightarrow> nat" where
  "ast_number eInstanceVariable = 0"
| "ast_number eReferenceVariable = 1"
| "ast_number eDimensionVariable = 2"
| "ast_number eContextVariable = 3"
| "ast_number eRootInstruction = 4"
| "ast_number eParentDerivationInstruction = 5"
| "ast_number eChildDerivationInstruction = 6"
| "ast_number eEnumDerivationInstruction = 7"
| "ast_number eEnumerationInstruction = 8"
| "ast_number eFailureInstruction = 9"
| "ast_number eEliminationInstruction = 10"
| "ast_number ePruneInstruction = 11"
| "ast_number eDimensionReferenceReadInstruction = 12"
| "ast_number eMonoReferenceInstruction = 13"
| "ast_number ePolyReferenceInstruction = 14"
| "ast_number ePolyCaseInstruction = 15"
| "ast_number eCallOperation = 16"
| "ast_number eStartOperation = 17"
| "ast_number eStopOperation = 18"
| "ast_number ePauseOperation = 19"
| "ast_number eResumeOperation = 20"
| "ast_number eDoneOperation = 21"
| "ast_number eWaitActionOperation = 22"
| "ast_number eWaitDimensionOperation = 23"
| "ast_number eGetActionOperation = 24"
| "ast_number eGetDimensionOperation = 25"
| "ast_number eReadOperation = 26"
| "ast_number eWriteOperation = 27"
| "ast_number eWriteLinkOperation = 28"
| "ast_number eRangeOperation = 29"

lemma ast_types_number [simp]: "ast_number t < length ast_types" "ast_types ! ast_number t = t"
  by (cases t; simp add: ast_types_def)+

fun variable_type :: "variable \<Rightarrow> ASTElementType" where
  "variable_type (InstanceVariable _ _ _) = eInstanceVariable"
| "variable_type (ReferenceVariable _ _ _) = eReferenceVariable"
| "variable_type (DimensionReferenceVariable _ _ _) = eDimensionVariable"
| "variable_type (ContextVariable _ _ _) = eContextVariable"

fun op_type :: "instr_op \<Rightarrow> ASTElementType" where
  "op_type (RootInstruction _ _) = eRootInstruction"
| "op_type (ParentDerivationInstruction _ _) = eParentDerivationInstruction"
| "op_type (ChildDerivationInstruction _ _) = eChildDerivationInstruction"
| "op_type (EnumDerivationInstruction _ _) = eEnumDerivationInstruction"
| "op_type (EnumerationInstruction _ _ _) = eEnumerationInstruction"
| "op_type FailureInstruction = eFailureInstruction"
| "op_type EliminationInstruction = eEliminationInstruction"
| "op_type PruneInstruction = ePruneInstruction"
| "op_type (DimensionReferenceReadInstruction _ _ _) = eDimensionReferenceReadInstruction"
| "op_type (MonomorphicReferenceInstruction _ _) = eMonoReferenceInstruction"
| "op_type (PolymorphicReferenceBranchInstruction _) = ePolyReferenceInstruction"
| "op_type (PolymorphicCaseInstruction _ _) = ePolyCaseInstruction"
| "op_type (CallOperation _ _ _) = eCallOperation"
| "op_type (StartOperation _ _ _) = eStartOperation"
| "op_type (StopOperation _ _ _) = eStopOperation"
| "op_type (PauseOperation _ _ _) = ePauseOperation"
| "op_type (ResumeOperation _ _ _) = eResumeOperation"
| "op_type (DoneOperation _ _ _) = eDoneOperation"
| "op_type (WaitActionOperation _ _ _) = eWaitActionOperation"
| "op_type (WaitDimensionOperation _ _ _) = eWaitDimensionOperation"
| "op_type (GetActionOperation _ _ _) = eGetActionOperation"
| "op_type (GetDimensionOperation _ _ _) = eGetDimensionOperation"
| "op_type (ReadOperation _ _ _) = eReadOperation"
| "op_type (WriteOperation _ _ _) = eWriteOperation"
| "op_type (WriteLinkOperation _ _ _ _) = eWriteLinkOperation"
| "op_type (RangeOperation _ _ _ _) = eRangeOperation"

text \<open>The element types whose class derives from a class of variables.\<close>

definition reference_variables :: "ASTElementType list" where
  "reference_variables = [eReferenceVariable, eDimensionVariable, eContextVariable]"

definition all_variables :: "ASTElementType list" where
  "all_variables = eInstanceVariable # reference_variables"

section \<open>Storing\<close>

definition MASTER_FILE :: FileID where
  "MASTER_FILE = 0"

definition pointer_to :: "idx \<Rightarrow> pointer" where
  "pointer_to i = Some (MASTER_FILE, of_nat i)"

record ast_writer =
  w_size :: nat
  w_address :: "nat \<rightharpoonup> nat"

definition new_writer :: ast_writer where
  "new_writer = \<lparr>w_size = 0, w_address = Map.empty\<rparr>"

definition store_null :: "'b encoder \<Rightarrow> 'b list" where
  "store_null enc = enc (PBool True)"

definition store_known :: "'b encoder \<Rightarrow> nat \<Rightarrow> 'b list" where
  "store_known enc i = enc (PBool False) @ store_size enc i"

definition store_new :: "'b encoder \<Rightarrow> nat \<Rightarrow> ASTElementType \<Rightarrow> 'b list" where
  "store_new enc i t = enc (PBool False) @ store_size enc i @ enc (PEnum (ast_number t))"

definition new_variable :: "nat \<Rightarrow> ast_writer \<Rightarrow> ast_writer" where
  "new_variable a w = \<lparr>w_size = Suc (w_size w), w_address = (w_address w)(a \<mapsto> w_size w)\<rparr>"

text \<open>The members of a variable behind those of the class \<open>Variable\<close>.\<close>

fun variable_members_store :: "'b encoder \<Rightarrow> variable \<Rightarrow> 'b list" where
  "variable_members_store enc (InstanceVariable a p t) = storeObjectRef enc (pointer_to t)"
| "variable_members_store enc (ReferenceVariable a p ts) = storeObjectVector enc (map pointer_to ts)"
| "variable_members_store enc (DimensionReferenceVariable a p ts) = []"
| "variable_members_store enc (ContextVariable a p ts) = []"

lemma v_parent_size [simp]: "v_parent v = Some p \<Longrightarrow> size p < size v"
  by (cases v) auto

function store_variable :: "'b encoder \<Rightarrow> variable \<Rightarrow> ast_writer \<Rightarrow> 'b list \<times> ast_writer" where
  "store_variable enc v w =
     (case w_address w (v_addr v) of
        Some i \<Rightarrow> (store_known enc i, w)
      | None \<Rightarrow>
          let (ps, w') = (case v_parent v of
                None \<Rightarrow> (store_null enc, new_variable (v_addr v) w)
              | Some p \<Rightarrow> store_variable enc p (new_variable (v_addr v) w))
          in (store_new enc (w_size w) (variable_type v) @ ps @ variable_members_store enc v, w'))"
  by pat_completeness auto
termination
  by (relation "measure (\<lambda>(enc, v, w). size v)") simp_all

declare store_variable.simps [simp del]

definition store_two :: "'b encoder \<Rightarrow> variable \<Rightarrow> variable \<Rightarrow> ast_writer \<Rightarrow> 'b list \<times> ast_writer" where
  "store_two enc u v w =
     (let (us, w) = store_variable enc u w; (vs, w) = store_variable enc v w in (us @ vs, w))"

definition store_operation :: "'b encoder \<Rightarrow> variable \<Rightarrow> idx list \<Rightarrow> ast_writer \<Rightarrow> 'b list \<times> ast_writer" where
  "store_operation enc v is w =
     (let (vs, w) = store_variable enc v w in (vs @ concat (map (\<lambda>i. storeObjectRef enc (pointer_to i)) is), w))"

definition then_store :: "'b list \<times> ast_writer \<Rightarrow> 'b list \<Rightarrow> ('b list \<times> ast_writer) result" where
  "then_store r bs = Inr (fst r @ bs, snd r)"

definition int_prim :: "int \<Rightarrow> prim" where
  "int_prim i = PInt (word_of_int i)"

fun range_number :: "RangeType \<Rightarrow> nat" where
  "range_number eRaw = 0"
| "range_number eRange = 1"
| "range_number TOTAL_RANGE_TYPES = 2"

text \<open>The members of an instruction behind those of the class \<open>Instruction\<close>.\<close>

fun members_store :: "'b encoder \<Rightarrow> instr_op \<Rightarrow> ast_writer \<Rightarrow> ('b list \<times> ast_writer) result" where
  "members_store enc (RootInstruction c m) w = then_store (store_variable enc c w) (enc (int_prim m))"
| "members_store enc (ParentDerivationInstruction f t) w = Inr (store_two enc f t w)"
| "members_store enc (ChildDerivationInstruction f t) w = Inr (store_two enc f t w)"
| "members_store enc (EnumDerivationInstruction f t) w = Inr (store_two enc f t w)"
| "members_store enc (EnumerationInstruction c ts m) w =
     then_store (store_variable enc c w) (storeObjectVector enc (map pointer_to ts) @ enc (int_prim m))"
| "members_store enc FailureInstruction w = Inl (RuntimeError ''Unreachable'')"
| "members_store enc EliminationInstruction w = Inl (RuntimeError ''Unreachable'')"
| "members_store enc PruneInstruction w = Inl (RuntimeError ''Unreachable'')"
| "members_store enc (DimensionReferenceReadInstruction i r d) w =
     then_store (store_two enc i r w) (storeObjectRef enc (pointer_to d))"
| "members_store enc (MonomorphicReferenceInstruction f i) w = Inr (store_two enc f i w)"
| "members_store enc (PolymorphicReferenceBranchInstruction f) w = Inr (store_variable enc f w)"
| "members_store enc (PolymorphicCaseInstruction r t) w = Inr (store_two enc r t w)"
| "members_store enc (CallOperation v i t) w = Inr (store_operation enc v [i, t] w)"
| "members_store enc (StartOperation v i t) w = Inr (store_operation enc v [i, t] w)"
| "members_store enc (StopOperation v i t) w = Inr (store_operation enc v [i, t] w)"
| "members_store enc (PauseOperation v i t) w = Inr (store_operation enc v [i, t] w)"
| "members_store enc (ResumeOperation v i t) w = Inr (store_operation enc v [i, t] w)"
| "members_store enc (DoneOperation v i t) w = Inr (store_operation enc v [i, t] w)"
| "members_store enc (WaitActionOperation v i t) w = Inr (store_operation enc v [i, t] w)"
| "members_store enc (WaitDimensionOperation v i t) w = Inr (store_operation enc v [i, t] w)"
| "members_store enc (GetActionOperation v i t) w = Inr (store_operation enc v [i, t] w)"
| "members_store enc (GetDimensionOperation v i t) w = Inr (store_operation enc v [i, t] w)"
| "members_store enc (ReadOperation v i t) w = Inr (store_operation enc v [i, t] w)"
| "members_store enc (WriteOperation v i t) w = Inr (store_operation enc v [i, t] w)"
| "members_store enc (WriteLinkOperation v i t g) w = Inr (store_operation enc v [i, t, g] w)"
| "members_store enc (RangeOperation v i t r) w = then_store (store_operation enc v [i, t] w) (enc (PEnum (range_number r)))"

function store_instruction :: "'b encoder \<Rightarrow> instruction \<Rightarrow> ast_writer \<Rightarrow> ('b list \<times> ast_writer) result"
  and store_children :: "'b encoder \<Rightarrow> instruction list \<Rightarrow> ast_writer \<Rightarrow> ('b list \<times> ast_writer) result" where
  "store_instruction enc (Instr op cs) w =
     bindR (store_children enc cs w) (\<lambda>(bs, w).
     bindR (members_store enc op w) (\<lambda>(ms, w). Inr (store_size enc (length cs) @ bs @ ms, w)))"
| "store_children enc [] w = Inr ([], w)"
| "store_children enc (c # cs) w =
     bindR (store_instruction enc c (w\<lparr>w_size := Suc (w_size w)\<rparr>)) (\<lambda>(bs, w').
     bindR (store_children enc cs w') (\<lambda>(bs', w''). Inr (store_new enc (w_size w) (op_type (opof c)) @ bs @ bs', w'')))"
  by pat_completeness auto
termination
  by (relation "measure (case_sum (\<lambda>(enc, i, w). 2 * size i) (\<lambda>(enc, cs, w). Suc (2 * size_list size cs)))") simp_all

text \<open>What \<open>InvocationSolution::store\<close> does with \<open>m_pRoot\<close>.\<close>

definition store_root :: "'b encoder \<Rightarrow> instruction \<Rightarrow> 'b list result" where
  "store_root enc i = bindR (store_instruction enc i new_writer) (\<lambda>(bs, w). Inr bs)"

section \<open>Loading\<close>

datatype ast_element = V variable | I instruction

text \<open>\<open>m_addressMapBack\<close>: an element whose members are still being loaded is entered without a value; trees
  have no counterpart of an element that refers to itself.\<close>

type_synonym ast_reader = "nat \<Rightarrow> ast_element option option"

type_synonym ('b, 'a) ast_loading = "'b list \<Rightarrow> ast_reader \<Rightarrow> ('a \<times> ast_reader \<times> 'b list) result"

definition load_enum :: "'b decoder \<Rightarrow> ('b, nat) loading" where
  "load_enum dec bs = bindR (load_prim dec KEnum bs) (\<lambda>(v, bs). case v of PEnum n \<Rightarrow> Inr (n, bs) | _ \<Rightarrow> Inl ArchiveError)"

text \<open>A pointer of a tree leads to an object of the master file; trees have no counterpart of a null pointer.\<close>

definition load_idx :: "'b decoder \<Rightarrow> ObjectType object_table \<Rightarrow> ObjectType list \<Rightarrow> ('b, idx) loading" where
  "load_idx dec files ts bs =
     bindR (loadObjectRef dec files ts bs) (\<lambda>(p, bs).
       case p of
         None \<Rightarrow> Inl UndefinedBehaviour
       | Some (f, i) \<Rightarrow> if f = MASTER_FILE then Inr (nat (sint i), bs) else Inl UndefinedBehaviour)"

definition load_idxs :: "'b decoder \<Rightarrow> ObjectType object_table \<Rightarrow> ObjectType list \<Rightarrow> ('b, idx list) loading" where
  "load_idxs dec files ts = load_counted dec (load_idx dec files ts)"

definition then_load :: "('a \<times> ast_reader \<times> 'b list) result \<Rightarrow> ('b, 'c) loading \<Rightarrow> ('a \<Rightarrow> 'c \<Rightarrow> 'd) \<Rightarrow> ('d \<times> ast_reader \<times> 'b list) result" where
  "then_load res f g = bindR res (\<lambda>(x, r, bs). bindR (f bs) (\<lambda>(y, bs). Inr (g x y, r, bs)))"

text \<open>The template \<open>load\<close> of the serialiser for a class of variables, and for a pointer that is not null.\<close>

definition load_pointer :: "('b, ast_element option) ast_loading \<Rightarrow> ASTElementType list \<Rightarrow> ('b, variable option) ast_loading" where
  "load_pointer rec cls bs r =
     bindR (rec bs r) (\<lambda>(e, r, bs).
       case e of
         None \<Rightarrow> Inr (None, r, bs)
       | Some (V v) \<Rightarrow> bindR (verify (variable_type v \<in> set cls)) (\<lambda>_. Inr (Some v, r, bs))
       | Some (I i) \<Rightarrow> bindR (verify False) (\<lambda>_. Inr (None, r, bs)))"

definition load_variable :: "('b, ast_element option) ast_loading \<Rightarrow> ASTElementType list \<Rightarrow> ('b, variable) ast_loading" where
  "load_variable rec cls bs r =
     bindR (load_pointer rec cls bs r) (\<lambda>(p, r, bs). bindR (of_option UndefinedBehaviour p) (\<lambda>v. Inr (v, r, bs)))"

fun variable_members_load ::
  "'b decoder \<Rightarrow> ObjectType object_table \<Rightarrow> ASTElementType \<Rightarrow> nat \<Rightarrow> variable option \<Rightarrow> ('b, variable) loading" where
  "variable_members_load dec files eInstanceVariable a p bs =
     bindR (load_idx dec files [eConcreteAction] bs) (\<lambda>(t, bs). Inr (InstanceVariable a p t, bs))"
| "variable_members_load dec files eReferenceVariable a p bs =
     bindR (load_idxs dec files concrete_Element bs) (\<lambda>(ts, bs). Inr (ReferenceVariable a p ts, bs))"
| "variable_members_load dec files eDimensionVariable a p bs = Inr (DimensionReferenceVariable a p [], bs)"
| "variable_members_load dec files eContextVariable a p bs = Inr (ContextVariable a p [], bs)"
| "variable_members_load dec files _ a p bs = Inl (RuntimeError ''verify'')"

definition load_two ::
  "('b, ast_element option) ast_loading \<Rightarrow> ASTElementType list \<Rightarrow> ASTElementType list \<Rightarrow> (variable \<Rightarrow> variable \<Rightarrow> 'd) \<Rightarrow> ('b, 'd) ast_loading" where
  "load_two rec cls cls' f bs r =
     bindR (load_variable rec cls bs r) (\<lambda>(u, r, bs). bindR (load_variable rec cls' bs r) (\<lambda>(v, r, bs). Inr (f u v, r, bs)))"

definition load_operation ::
  "('b, ast_element option) ast_loading \<Rightarrow> 'b decoder \<Rightarrow> ObjectType object_table \<Rightarrow> ObjectType list \<Rightarrow> ObjectType list \<Rightarrow>
   (variable \<Rightarrow> idx \<Rightarrow> idx \<Rightarrow> 'd) \<Rightarrow> ('b, 'd) ast_loading" where
  "load_operation rec dec files its tts f bs r =
     then_load (load_variable rec [eInstanceVariable] bs r)
       (load_pair (load_idx dec files its) (load_idx dec files tts)) (\<lambda>v (i, t). f v i t)"

definition int_of_prim :: "32 word \<Rightarrow> int" where
  "int_of_prim w = sint w"

definition range_type :: "nat \<Rightarrow> RangeType" where
  "range_type n = (if n = 0 then eRaw else if n = 1 then eRange else TOTAL_RANGE_TYPES)"

fun members_load ::
  "('b, ast_element option) ast_loading \<Rightarrow> 'b decoder \<Rightarrow> ObjectType object_table \<Rightarrow> ASTElementType \<Rightarrow> ('b, instr_op) ast_loading" where
  "members_load rec dec files eRootInstruction bs r =
     then_load (load_variable rec [eContextVariable] bs r) (load_int dec) (\<lambda>c m. RootInstruction c (int_of_prim m))"
| "members_load rec dec files eParentDerivationInstruction bs r =
     load_two rec [eInstanceVariable] [eInstanceVariable] ParentDerivationInstruction bs r"
| "members_load rec dec files eChildDerivationInstruction bs r =
     load_two rec [eInstanceVariable] [eInstanceVariable] ChildDerivationInstruction bs r"
| "members_load rec dec files eEnumDerivationInstruction bs r =
     load_two rec [eInstanceVariable] [eInstanceVariable] EnumDerivationInstruction bs r"
| "members_load rec dec files eEnumerationInstruction bs r =
     then_load (load_variable rec [eInstanceVariable] bs r) (load_pair (load_idxs dec files interface_Element) (load_int dec))
       (\<lambda>c (ts, m). EnumerationInstruction c ts (int_of_prim m))"
| "members_load rec dec files eDimensionReferenceReadInstruction bs r =
     then_load (load_two rec [eInstanceVariable] [eDimensionVariable] Pair bs r) (load_idx dec files concrete_Dimension)
       (\<lambda>(i, v) d. DimensionReferenceReadInstruction i v d)"
| "members_load rec dec files eMonoReferenceInstruction bs r =
     load_two rec reference_variables [eInstanceVariable] MonomorphicReferenceInstruction bs r"
| "members_load rec dec files ePolyReferenceInstruction bs r =
     bindR (load_variable rec reference_variables bs r) (\<lambda>(f, r, bs). Inr (PolymorphicReferenceBranchInstruction f, r, bs))"
| "members_load rec dec files ePolyCaseInstruction bs r =
     load_two rec reference_variables [eInstanceVariable] PolymorphicCaseInstruction bs r"
| "members_load rec dec files eCallOperation bs r =
     load_operation rec dec files interface_Context [eConcreteAction] CallOperation bs r"
| "members_load rec dec files eStartOperation bs r =
     load_operation rec dec files interface_Context [eConcreteAction] StartOperation bs r"
| "members_load rec dec files eStopOperation bs r =
     load_operation rec dec files interface_Context [eConcreteAction] StopOperation bs r"
| "members_load rec dec files ePauseOperation bs r =
     load_operation rec dec files interface_Context [eConcreteAction] PauseOperation bs r"
| "members_load rec dec files eResumeOperation bs r =
     load_operation rec dec files interface_Context [eConcreteAction] ResumeOperation bs r"
| "members_load rec dec files eDoneOperation bs r =
     load_operation rec dec files interface_Context [eConcreteAction] DoneOperation bs r"
| "members_load rec dec files eWaitActionOperation bs r =
     load_operation rec dec files interface_Context [eConcreteAction] WaitActionOperation bs r"
| "members_load rec dec files eWaitDimensionOperation bs r =
     load_operation rec dec files [eAbstractDimension] [eConcreteDimensionUser] WaitDimensionOperation bs r"
| "members_load rec dec files eGetActionOperation bs r =
     load_operation rec dec files interface_Context [eConcreteAction] GetActionOperation bs r"
| "members_load rec dec files eGetDimensionOperation bs r =
     load_operation rec dec files [eAbstractDimension] [eConcreteDimensionUser] GetDimensionOperation bs r"
| "members_load rec dec files eReadOperation bs r =
     load_operation rec dec files [eAbstractDimension] [eConcreteDimensionUser] ReadOperation bs r"
| "members_load rec dec files eWriteOperation bs r =
     load_operation rec dec files [eAbstractDimension] [eConcreteDimensionUser] WriteOperation bs r"
| "members_load rec dec files eWriteLinkOperation bs r =
     then_load (load_operation rec dec files [eAbstractDimension] [eConcreteDimensionUser] (\<lambda>v i t. (v, i, t)) bs r)
       (load_idx dec files [eLinkGroup]) (\<lambda>(v, i, t) g. WriteLinkOperation v i t g)"
| "members_load rec dec files eRangeOperation bs r =
     then_load (load_operation rec dec files interface_Context [eConcreteAction] (\<lambda>v i t. (v, i, t)) bs r)
       (load_enum dec) (\<lambda>(v, i, t) n. RangeOperation v i t (range_type n))"
| "members_load rec dec files _ bs r = Inl (RuntimeError ''Unreachable'')"

fun load_children :: "nat \<Rightarrow> ('b, ast_element option) ast_loading \<Rightarrow> ('b, instruction list) ast_loading" where
  "load_children 0 rec bs r = Inr ([], r, bs)"
| "load_children (Suc k) rec bs r =
     bindR (rec bs r) (\<lambda>(e, r, bs).
       case e of
         Some (I i) \<Rightarrow> bindR (load_children k rec bs r) (\<lambda>(is, r, bs). Inr (i # is, r, bs))
       | _ \<Rightarrow> Inl (RuntimeError ''verify''))"

definition load_instruction ::
  "('b, ast_element option) ast_loading \<Rightarrow> 'b decoder \<Rightarrow> ObjectType object_table \<Rightarrow> ASTElementType \<Rightarrow> ('b, instruction) ast_loading" where
  "load_instruction rec dec files t bs r =
     bindR (load_size dec bs) (\<lambda>(k, bs).
     bindR (load_children k rec bs r) (\<lambda>(cs, r, bs).
     bindR (members_load rec dec files t bs r) (\<lambda>(op, r, bs). Inr (Instr op cs, r, bs))))"

definition unreachable_types :: "ASTElementType list" where
  "unreachable_types = [eRootInstruction, eFailureInstruction, eEliminationInstruction, ePruneInstruction]"

text \<open>The element that is created for a type, with its members.\<close>

definition load_body ::
  "('b, ast_element option) ast_loading \<Rightarrow> 'b decoder \<Rightarrow> ObjectType object_table \<Rightarrow> ASTElementType \<Rightarrow> nat \<Rightarrow> ('b, ast_element) ast_loading" where
  "load_body rec dec files t i bs r =
     (if t \<in> set all_variables then
        bindR (load_pointer rec all_variables bs r) (\<lambda>(p, r, bs).
        bindR (variable_members_load dec files t i p bs) (\<lambda>(v, bs). Inr (V v, r, bs)))
      else if t \<in> set unreachable_types then Inl (RuntimeError ''Unreachable'')
      else bindR (load_instruction rec dec files t bs r) (\<lambda>(x, r, bs). Inr (I x, r, bs)))"

fun load_element :: "nat \<Rightarrow> 'b decoder \<Rightarrow> ObjectType object_table \<Rightarrow> ('b, ast_element option) ast_loading" where
  "load_element 0 dec files bs r = Inl OutOfFuel"
| "load_element (Suc n) dec files bs r =
     bindR (load_bool dec bs) (\<lambda>(null, bs).
     if null then Inr (None, r, bs)
     else bindR (load_size dec bs) (\<lambda>(i, bs).
       case r i of
         Some (Some e) \<Rightarrow> Inr (Some e, r, bs)
       | Some None \<Rightarrow> Inl UndefinedBehaviour
       | None \<Rightarrow>
           bindR (load_enum dec bs) (\<lambda>(k, bs).
           bindR (verify (k < length ast_types)) (\<lambda>_.
           bindR (load_body (load_element n dec files) dec files (ast_types ! k) i bs (r(i \<mapsto> None))) (\<lambda>(e, r, bs).
             Inr (Some e, r(i \<mapsto> Some e), bs))))))"

text \<open>What \<open>InvocationSolution::load\<close> does with \<open>m_pRoot\<close>.\<close>

definition load_root :: "nat \<Rightarrow> 'b decoder \<Rightarrow> ObjectType object_table \<Rightarrow> ('b, instruction) loading" where
  "load_root n dec files bs =
     bindR (load_instruction (load_element n dec files) dec files eRootInstruction bs Map.empty) (\<lambda>(i, r, bs). Inr (i, bs))"

end
