(* ===== verification/InstructionRoundTrip.thy ===== *)
theory InstructionRoundTrip
  imports InstructionSerial
begin

text \<open>
  The round trip of \<open>ASTSerialiser\<close>: a tree that is stored and loaded is the same tree, with other addresses
  of its variables that are told apart as before, and without the types of its dimension and context
  variables.
\<close>

section \<open>What is loaded\<close>

function reload :: "(nat \<Rightarrow> nat) \<Rightarrow> variable \<Rightarrow> variable" where
  "reload \<rho> (InstanceVariable a p t) = InstanceVariable (\<rho> a) (map_option (reload \<rho>) p) t"
| "reload \<rho> (ReferenceVariable a p ts) = ReferenceVariable (\<rho> a) (map_option (reload \<rho>) p) ts"
| "reload \<rho> (DimensionReferenceVariable a p ts) = DimensionReferenceVariable (\<rho> a) (map_option (reload \<rho>) p) []"
| "reload \<rho> (ContextVariable a p ts) = ContextVariable (\<rho> a) (map_option (reload \<rho>) p) []"
  by pat_completeness auto
termination
  by (relation "measure (size \<circ> snd)") auto

fun on_variables :: "(variable \<Rightarrow> variable) \<Rightarrow> instr_op \<Rightarrow> instr_op" where
  "on_variables f (RootInstruction c m) = RootInstruction (f c) m"
| "on_variables f (ParentDerivationInstruction u v) = ParentDerivationInstruction (f u) (f v)"
| "on_variables f (ChildDerivationInstruction u v) = ChildDerivationInstruction (f u) (f v)"
| "on_variables f (EnumDerivationInstruction u v) = EnumDerivationInstruction (f u) (f v)"
| "on_variables f (EnumerationInstruction v ts m) = EnumerationInstruction (f v) ts m"
| "on_variables f FailureInstruction = FailureInstruction"
| "on_variables f EliminationInstruction = EliminationInstruction"
| "on_variables f PruneInstruction = PruneInstruction"
| "on_variables f (DimensionReferenceReadInstruction u v d) = DimensionReferenceReadInstruction (f u) (f v) d"
| "on_variables f (MonomorphicReferenceInstruction u v) = MonomorphicReferenceInstruction (f u) (f v)"
| "on_variables f (PolymorphicReferenceBranchInstruction v) = PolymorphicReferenceBranchInstruction (f v)"
| "on_variables f (PolymorphicCaseInstruction u v) = PolymorphicCaseInstruction (f u) (f v)"
| "on_variables f (CallOperation v i t) = CallOperation (f v) i t"
| "on_variables f (StartOperation v i t) = StartOperation (f v) i t"
| "on_variables f (StopOperation v i t) = StopOperation (f v) i t"
| "on_variables f (PauseOperation v i t) = PauseOperation (f v) i t"
| "on_variables f (ResumeOperation v i t) = ResumeOperation (f v) i t"
| "on_variables f (DoneOperation v i t) = DoneOperation (f v) i t"
| "on_variables f (WaitActionOperation v i t) = WaitActionOperation (f v) i t"
| "on_variables f (WaitDimensionOperation v i t) = WaitDimensionOperation (f v) i t"
| "on_variables f (GetActionOperation v i t) = GetActionOperation (f v) i t"
| "on_variables f (GetDimensionOperation v i t) = GetDimensionOperation (f v) i t"
| "on_variables f (ReadOperation v i t) = ReadOperation (f v) i t"
| "on_variables f (WriteOperation v i t) = WriteOperation (f v) i t"
| "on_variables f (WriteLinkOperation v i t g) = WriteLinkOperation (f v) i t g"
| "on_variables f (RangeOperation v i t r) = RangeOperation (f v) i t r"

fun op_variables :: "instr_op \<Rightarrow> variable list" where
  "op_variables (RootInstruction c m) = [c]"
| "op_variables (ParentDerivationInstruction u v) = [u, v]"
| "op_variables (ChildDerivationInstruction u v) = [u, v]"
| "op_variables (EnumDerivationInstruction u v) = [u, v]"
| "op_variables (EnumerationInstruction v ts m) = [v]"
| "op_variables FailureInstruction = []"
| "op_variables EliminationInstruction = []"
| "op_variables PruneInstruction = []"
| "op_variables (DimensionReferenceReadInstruction u v d) = [u, v]"
| "op_variables (MonomorphicReferenceInstruction u v) = [u, v]"
| "op_variables (PolymorphicReferenceBranchInstruction v) = [v]"
| "op_variables (PolymorphicCaseInstruction u v) = [u, v]"
| "op_variables (CallOperation v i t) = [v]"
| "op_variables (StartOperation v i t) = [v]"
| "op_variables (StopOperation v i t) = [v]"
| "op_variables (PauseOperation v i t) = [v]"
| "op_variables (ResumeOperation v i t) = [v]"
| "op_variables (DoneOperation v i t) = [v]"
| "op_variables (WaitActionOperation v i t) = [v]"
| "op_variables (WaitDimensionOperation v i t) = [v]"
| "op_variables (GetActionOperation v i t) = [v]"
| "op_variables (GetDimensionOperation v i t) = [v]"
| "op_variables (ReadOperation v i t) = [v]"
| "op_variables (WriteOperation v i t) = [v]"
| "op_variables (WriteLinkOperation v i t g) = [v]"
| "op_variables (RangeOperation v i t r) = [v]"

fun reload_tree :: "(nat \<Rightarrow> nat) \<Rightarrow> instruction \<Rightarrow> instruction" where
  "reload_tree \<rho> (Instr op cs) = Instr (on_variables (reload \<rho>) op) (map (reload_tree \<rho>) cs)"

lemma reload_sel [simp]:
  "v_addr (reload \<rho> v) = \<rho> (v_addr v)" "variable_type (reload \<rho> v) = variable_type v"
  "v_parent (reload \<rho> v) = map_option (reload \<rho>) (v_parent v)"
  by (cases v; simp)+

section \<open>Trees that are stored\<close>

text \<open>A variable and those it was derived from.\<close>

function chain :: "variable \<Rightarrow> variable list" where
  "chain v = v # (case v_parent v of None \<Rightarrow> [] | Some p \<Rightarrow> chain p)"
  by pat_completeness auto
termination
  by (relation "measure size") simp_all

declare chain.simps [simp del]

definition idx_ok :: "ObjectType object_table \<Rightarrow> ObjectType list \<Rightarrow> idx \<Rightarrow> bool" where
  "idx_ok files ts i \<longleftrightarrow> i < 2 ^ 31 \<and> find_object files ts MASTER_FILE (of_nat i)"

definition idxs_ok :: "ObjectType object_table \<Rightarrow> ObjectType list \<Rightarrow> idx list \<Rightarrow> bool" where
  "idxs_ok files ts is \<longleftrightarrow> counted is \<and> list_all (idx_ok files ts) is"

fun variable_ok :: "ObjectType object_table \<Rightarrow> variable \<Rightarrow> bool" where
  "variable_ok files (InstanceVariable a p t) \<longleftrightarrow> idx_ok files [eConcreteAction] t"
| "variable_ok files (ReferenceVariable a p ts) \<longleftrightarrow> idxs_ok files concrete_Element ts"
| "variable_ok files (DimensionReferenceVariable a p ts) \<longleftrightarrow> True"
| "variable_ok files (ContextVariable a p ts) \<longleftrightarrow> True"

definition int_ok :: "int \<Rightarrow> bool" where
  "int_ok i \<longleftrightarrow> - (2 ^ 31) \<le> i \<and> i < 2 ^ 31"

definition is_instance :: "variable \<Rightarrow> bool" where
  "is_instance v \<longleftrightarrow> variable_type v = eInstanceVariable"

definition is_reference :: "variable \<Rightarrow> bool" where
  "is_reference v \<longleftrightarrow> variable_type v \<in> set reference_variables"

definition action_ok :: "ObjectType object_table \<Rightarrow> variable \<Rightarrow> idx \<Rightarrow> idx \<Rightarrow> bool" where
  "action_ok files v i t \<longleftrightarrow> is_instance v \<and> idx_ok files interface_Context i \<and> idx_ok files [eConcreteAction] t"

definition dimension_ok :: "ObjectType object_table \<Rightarrow> variable \<Rightarrow> idx \<Rightarrow> idx \<Rightarrow> bool" where
  "dimension_ok files v i t \<longleftrightarrow> is_instance v \<and> idx_ok files [eAbstractDimension] i \<and> idx_ok files [eConcreteDimensionUser] t"

fun op_ok :: "ObjectType object_table \<Rightarrow> instr_op \<Rightarrow> bool" where
  "op_ok files (RootInstruction c m) \<longleftrightarrow> variable_type c = eContextVariable \<and> int_ok m"
| "op_ok files (ParentDerivationInstruction u v) \<longleftrightarrow> is_instance u \<and> is_instance v"
| "op_ok files (ChildDerivationInstruction u v) \<longleftrightarrow> is_instance u \<and> is_instance v"
| "op_ok files (EnumDerivationInstruction u v) \<longleftrightarrow> is_instance u \<and> is_instance v"
| "op_ok files (EnumerationInstruction v ts m) \<longleftrightarrow> is_instance v \<and> idxs_ok files interface_Element ts \<and> int_ok m"
| "op_ok files FailureInstruction \<longleftrightarrow> False"
| "op_ok files EliminationInstruction \<longleftrightarrow> False"
| "op_ok files PruneInstruction \<longleftrightarrow> False"
| "op_ok files (DimensionReferenceReadInstruction u v d) \<longleftrightarrow>
     is_instance u \<and> variable_type v = eDimensionVariable \<and> idx_ok files concrete_Dimension d"
| "op_ok files (MonomorphicReferenceInstruction u v) \<longleftrightarrow> is_reference u \<and> is_instance v"
| "op_ok files (PolymorphicReferenceBranchInstruction v) \<longleftrightarrow> is_reference v"
| "op_ok files (PolymorphicCaseInstruction u v) \<longleftrightarrow> is_reference u \<and> is_instance v"
| "op_ok files (CallOperation v i t) \<longleftrightarrow> action_ok files v i t"
| "op_ok files (StartOperation v i t) \<longleftrightarrow> action_ok files v i t"
| "op_ok files (StopOperation v i t) \<longleftrightarrow> action_ok files v i t"
| "op_ok files (PauseOperation v i t) \<longleftrightarrow> action_ok files v i t"
| "op_ok files (ResumeOperation v i t) \<longleftrightarrow> action_ok files v i t"
| "op_ok files (DoneOperation v i t) \<longleftrightarrow> action_ok files v i t"
| "op_ok files (WaitActionOperation v i t) \<longleftrightarrow> action_ok files v i t"
| "op_ok files (WaitDimensionOperation v i t) \<longleftrightarrow> dimension_ok files v i t"
| "op_ok files (GetActionOperation v i t) \<longleftrightarrow> action_ok files v i t"
| "op_ok files (GetDimensionOperation v i t) \<longleftrightarrow> dimension_ok files v i t"
| "op_ok files (ReadOperation v i t) \<longleftrightarrow> dimension_ok files v i t"
| "op_ok files (WriteOperation v i t) \<longleftrightarrow> dimension_ok files v i t"
| "op_ok files (WriteLinkOperation v i t g) \<longleftrightarrow> dimension_ok files v i t \<and> idx_ok files [eLinkGroup] g"
| "op_ok files (RangeOperation v i t r) \<longleftrightarrow> action_ok files v i t"

fun tree_ok :: "ObjectType object_table \<Rightarrow> instruction \<Rightarrow> bool" where
  "tree_ok files (Instr op cs) \<longleftrightarrow> op_ok files op \<and> counted cs \<and>
     list_all (\<lambda>c. tree_ok files c \<and> op_type (opof c) \<noteq> eRootInstruction) cs"

fun tree_variables :: "instruction \<Rightarrow> variable list" where
  "tree_variables (Instr op cs) = concat (map chain (op_variables op)) @ concat (map tree_variables cs)"

fun tree_size :: "instruction \<Rightarrow> nat" where
  "tree_size (Instr op cs) = Suc (sum_list (map tree_size cs))"

text \<open>The variables of a tree are told apart by their addresses.\<close>

definition addresses_ok :: "instruction \<Rightarrow> bool" where
  "addresses_ok i \<longleftrightarrow> (\<forall>u \<in> set (tree_variables i). \<forall>v \<in> set (tree_variables i). v_addr u = v_addr v \<longrightarrow> u = v)"

section \<open>The writer\<close>

definition grows :: "ast_writer \<Rightarrow> ast_writer \<Rightarrow> bool" where
  "grows w w' \<longleftrightarrow> w_size w \<le> w_size w' \<and> (\<forall>a i. w_address w a = Some i \<longrightarrow> w_address w' a = Some i) \<and>
     (\<forall>a i. w_address w' a = Some i \<longrightarrow> w_address w a = Some i \<or> w_size w \<le> i \<and> i < w_size w')"

lemma grows_refl [simp]: "grows w w"
  by (simp add: grows_def)

lemma grows_trans: "grows w w' \<Longrightarrow> grows w' w'' \<Longrightarrow> grows w w''"
  unfolding grows_def by (metis order_less_le_trans order_trans)

lemma grows_new: "w_address w a = None \<Longrightarrow> grows w (new_variable a w)"
  by (auto simp: grows_def new_variable_def)

lemma grows_Suc: "grows (w\<lparr>w_size := Suc (w_size w)\<rparr>) w' \<Longrightarrow> grows w w'"
  by (fastforce simp: grows_def)

lemma store_variable_grows: "store_variable enc v w = (bs, w') \<Longrightarrow> grows w w'"
proof (induction enc v w arbitrary: bs w' rule: store_variable.induct)
  case (1 enc v w)
  show ?case
  proof (cases "w_address w (v_addr v)")
    case (Some i)
    with "1.prems" show ?thesis by (simp add: store_variable.simps [of enc v])
  next
    case None
    note new = grows_new [OF None]
    show ?thesis
    proof (cases "v_parent v")
      case None
      with "1.prems" \<open>w_address w (v_addr v) = None\<close> new show ?thesis by (auto simp: store_variable.simps [of enc v])
    next
      case (Some p)
      obtain ps w1 where p: "store_variable enc p (new_variable (v_addr v) w) = (ps, w1)" by fastforce
      from "1.IH" [OF None Some p] "1.prems" None Some p grows_trans [OF new] show ?thesis
        by (auto simp: store_variable.simps [of enc v])
    qed
  qed
qed

lemma store_variable_grows' [simp]: "grows w (snd (store_variable enc v w))"
  by (metis store_variable_grows surjective_pairing)

lemma members_store_grows:
  assumes "members_store enc op w = Inr (bs, w')"
  shows "grows w w'"
  using assms
  by (cases op) (auto simp: then_store_def store_two_def store_operation_def split: prod.splits
    dest!: store_variable_grows intro: grows_trans)

lemma store_instruction_grows:
  "store_instruction enc i w = Inr (bs, w') \<Longrightarrow> grows w w'"
  "store_children enc cs w = Inr (bs, w') \<Longrightarrow> grows w w'"
proof (induction enc i w and enc cs w arbitrary: bs w' and bs w' rule: store_instruction_store_children.induct)
  case (1 enc op cs w)
  then show ?case by (auto simp: bindR_eq_Inr dest!: members_store_grows intro: grows_trans)
next
  case (3 enc c cs w)
  from "3.prems" obtain b1 w1 b2 where s: "store_instruction enc c (w\<lparr>w_size := Suc (w_size w)\<rparr>) = Inr (b1, w1)"
    "store_children enc cs w1 = Inr (b2, w')" by (auto simp: bindR_eq_Inr)
  from grows_trans [OF grows_Suc [OF "3.IH"(1) [OF s(1)]]] "3.IH"(2) [OF s(1) refl s(2)] show ?case by blast
qed simp

section \<open>Chains and sizes\<close>

lemma chain_self [simp]: "v \<in> set (chain v)"
  by (subst chain.simps) simp

lemma chain_parent: "v_parent v = Some p \<Longrightarrow> chain v = v # chain p"
  by (subst chain.simps) simp

lemma chain_root: "v_parent v = None \<Longrightarrow> chain v = [v]"
  by (subst chain.simps) simp

lemma chain_size: "u \<in> set (chain v) \<Longrightarrow> size u \<le> size v"
proof (induction v rule: chain.induct)
  case (1 v)
  then show ?case
    by (cases "v_parent v") (auto simp: chain_root chain_parent dest!: v_parent_size)
qed

lemma chain_below: "u \<in> set (chain v) \<Longrightarrow> set (chain u) \<subseteq> set (chain v) \<and> length (chain u) \<le> length (chain v)"
proof (induction v rule: chain.induct)
  case (1 v)
  then show ?case by (cases "v_parent v") (auto simp: chain_root chain_parent)
qed

lemma chain_not_parent: "v_parent v = Some p \<Longrightarrow> v \<notin> set (chain p)"
  using chain_size v_parent_size by fastforce

lemma store_variable_size: "store_variable enc v w = (bs, w') \<Longrightarrow> w_size w' \<le> w_size w + length (chain v)"
proof (induction enc v w arbitrary: bs w' rule: store_variable.induct)
  case (1 enc v w)
  show ?case
  proof (cases "w_address w (v_addr v)")
    case (Some i)
    with "1.prems" show ?thesis by (simp add: store_variable.simps [of enc v])
  next
    case None
    show ?thesis
    proof (cases "v_parent v")
      case (Some p)
      obtain ps w1 where p: "store_variable enc p (new_variable (v_addr v) w) = (ps, w1)" by fastforce
      from "1.IH" [OF None Some p] "1.prems" None Some p show ?thesis
        by (auto simp: store_variable.simps [of enc v] chain_parent new_variable_def)
    qed (use "1.prems" None in \<open>auto simp: store_variable.simps [of enc v] chain_root new_variable_def\<close>)
  qed
qed

lemma members_store_size:
  assumes "members_store enc op w = Inr (bs, w')"
  shows "w_size w' \<le> w_size w + length (concat (map chain (op_variables op)))"
proof -
  have "w_size (snd (store_variable enc v w)) \<le> w_size w + length (chain v)" for v w
    by (metis store_variable_size surjective_pairing)
  with assms show ?thesis
    by (cases op) (fastforce simp: then_store_def store_two_def store_operation_def split: prod.splits dest!: store_variable_size)+
qed

lemma store_instruction_size:
  "store_instruction enc i w = Inr (bs, w') \<Longrightarrow> Suc (w_size w') \<le> w_size w + tree_size i + length (tree_variables i)"
  "store_children enc cs w = Inr (bs, w') \<Longrightarrow>
     w_size w' \<le> w_size w + sum_list (map tree_size cs) + length (concat (map tree_variables cs))"
proof (induction enc i w and enc cs w arbitrary: bs w' and bs w' rule: store_instruction_store_children.induct)
  case (1 enc op cs w)
  then show ?case by (fastforce simp: bindR_eq_Inr dest!: members_store_size)
next
  case (3 enc c cs w)
  from "3.prems" obtain b1 w1 b2 where s: "store_instruction enc c (w\<lparr>w_size := Suc (w_size w)\<rparr>) = Inr (b1, w1)"
    "store_children enc cs w1 = Inr (b2, w')" by (auto simp: bindR_eq_Inr)
  from "3.IH"(1) [OF s(1)] "3.IH"(2) [OF s(1) refl s(2)] show ?case by simp
qed simp

section \<open>Writer and reader\<close>

text \<open>The variables of a tree, and the addresses that its loaded variables get.\<close>

definition universe :: "ObjectType object_table \<Rightarrow> nat \<Rightarrow> variable set \<Rightarrow> bool" where
  "universe files n vs \<longleftrightarrow>
     (\<forall>u \<in> vs. \<forall>v \<in> vs. v_addr u = v_addr v \<longrightarrow> u = v) \<and>
     (\<forall>v \<in> vs. variable_ok files v \<and> set (chain v) \<subseteq> vs \<and> length (chain v) \<le> n)"

definition agrees :: "(nat \<Rightarrow> nat) \<Rightarrow> ast_writer \<Rightarrow> bool" where
  "agrees \<rho> w \<longleftrightarrow> w_size w \<le> 2 ^ 64 \<and> (\<forall>a i. w_address w a = Some i \<longrightarrow> \<rho> a = i)"

text \<open>The numbers that the writer has given are those that the reader knows; the members of the variables with
  the addresses \<open>us\<close> are still being loaded.\<close>

definition in_step :: "(nat \<Rightarrow> nat) \<Rightarrow> variable set \<Rightarrow> nat set \<Rightarrow> ast_writer \<Rightarrow> ast_reader \<Rightarrow> bool" where
  "in_step \<rho> vs us w r \<longleftrightarrow>
     (\<forall>a i. w_address w a = Some i \<longrightarrow> i < w_size w) \<and>
     inj_on (w_address w) (dom (w_address w)) \<and>
     (\<forall>i \<ge> w_size w. r i = None) \<and>
     (\<forall>v \<in> vs. \<forall>i. w_address w (v_addr v) = Some i \<longrightarrow> v_addr v \<notin> us \<longrightarrow> r i = Some (Some (V (reload \<rho> v))))"

lemma agrees_before: "agrees \<rho> w' \<Longrightarrow> grows w w' \<Longrightarrow> agrees \<rho> w"
  by (auto simp: agrees_def grows_def)

lemma in_step_start: "in_step \<rho> vs us new_writer Map.empty"
  by (simp add: in_step_def new_writer_def)

lemma in_step_known:
  assumes "in_step \<rho> vs us w r" and "v \<in> vs" and "v_addr v \<notin> us" and "w_address w (v_addr v) = Some i"
  shows "i < w_size w" and "r i = Some (Some (V (reload \<rho> v)))"
  using assms by (auto simp: in_step_def)

lemma in_step_fresh: "in_step \<rho> vs us w r \<Longrightarrow> r (w_size w) = None"
  by (simp add: in_step_def)

lemma in_step_enter:
  assumes "in_step \<rho> vs us w r" and "w_address w a = None"
  shows "in_step \<rho> vs (insert a us) (new_variable a w) (r(w_size w \<mapsto> None))"
proof -
  have "inj_on (w_address (new_variable a w)) (dom (w_address (new_variable a w)))"
    using assms by (fastforce simp: in_step_def new_variable_def inj_on_def dom_def)
  with assms show ?thesis by (fastforce simp: in_step_def new_variable_def)
qed

lemma in_step_leave:
  assumes step: "in_step \<rho> vs (insert (v_addr v) us) w r" and i: "w_address w (v_addr v) = Some i"
    and v: "v \<in> vs" and vs: "\<forall>u \<in> vs. v_addr u = v_addr v \<longrightarrow> u = v"
  shows "in_step \<rho> vs us w (r(i \<mapsto> Some (V (reload \<rho> v))))"
proof -
  have "(r(i \<mapsto> Some (V (reload \<rho> v)))) j = Some (Some (V (reload \<rho> u)))"
    if "u \<in> vs" "w_address w (v_addr u) = Some j" "v_addr u \<notin> us" for u j
  proof (cases "v_addr u = v_addr v")
    case True
    with that i v vs show ?thesis by auto
  next
    case False
    from step that(2) i False have "j \<noteq> i" by (auto simp: in_step_def inj_on_def dom_def)
    with step that False show ?thesis by (auto simp: in_step_def)
  qed
  moreover from step i have "i < w_size w" by (auto simp: in_step_def)
  ultimately show ?thesis using step by (auto simp: in_step_def)
qed

text \<open>The number of an instruction is no number of a variable.\<close>

lemma in_step_instruction:
  assumes "in_step \<rho> vs us w r"
  shows "in_step \<rho> vs us (w\<lparr>w_size := Suc (w_size w)\<rparr>) (r(w_size w \<mapsto> None))"
proof -
  have "i \<noteq> w_size w \<and> i < Suc (w_size w)" if "w_address w a = Some i" for a i
    using assms that by (fastforce simp: in_step_def)
  with assms show ?thesis by (auto simp: in_step_def)
qed

lemma in_step_instruction_done:
  assumes "in_step \<rho> vs us w' r" and "grows (w\<lparr>w_size := Suc (w_size w)\<rparr>) w'"
    and "\<forall>a i. w_address w a = Some i \<longrightarrow> i < w_size w"
  shows "in_step \<rho> vs us w' (r(w_size w \<mapsto> e))"
proof -
  have "i \<noteq> w_size w" if "w_address w' a = Some i" for a i
    using assms(2,3) that by (fastforce simp: grows_def)
  moreover have "w_size w < w_size w'" using assms(2) by (simp add: grows_def)
  ultimately show ?thesis using assms(1) by (auto simp: in_step_def)
qed

section \<open>Loading what was stored\<close>

text \<open>\<open>yields \<rho> vs us w res f x\<close>: the reader \<open>f\<close> gives \<open>x\<close> for what the writer has written in \<open>res\<close>, and both stay
  in step.\<close>

definition yields ::
  "(nat \<Rightarrow> nat) \<Rightarrow> variable set \<Rightarrow> nat set \<Rightarrow> ast_writer \<Rightarrow> 'b list \<times> ast_writer \<Rightarrow> ('b, 'a) ast_loading \<Rightarrow> 'a \<Rightarrow> bool" where
  "yields \<rho> vs us w res f x \<longleftrightarrow>
     grows w (snd res) \<and>
     (\<forall>r rest. agrees \<rho> (snd res) \<longrightarrow> in_step \<rho> vs us w r \<longrightarrow>
        (\<exists>r'. f (fst res @ rest) r = Inr (x, r', rest) \<and> in_step \<rho> vs us (snd res) r'))"

lemma yieldsE:
  assumes "yields \<rho> vs us w (bs, w') f x" and "agrees \<rho> w'" and "in_step \<rho> vs us w r"
  obtains r' where "f (bs @ rest) r = Inr (x, r', rest)" "in_step \<rho> vs us w' r'"
  using assms by (auto simp: yields_def)

lemma yieldsD:
  assumes "yields \<rho> vs us w res f x" and "agrees \<rho> (snd res)" and "in_step \<rho> vs us w r"
  shows "\<exists>r'. f (fst res @ rest) r = Inr (x, r', rest) \<and> in_step \<rho> vs us (snd res) r'"
  using assms by (simp add: yields_def)

lemma yields_grows: "yields \<rho> vs us w (bs, w') f x \<Longrightarrow> grows w w'"
  by (simp add: yields_def)

lemma yields_bind:
  assumes f: "yields \<rho> vs us w (bs, w1) f x" and g: "yields \<rho> vs us w1 (bs', w') (g x) y"
  shows "yields \<rho> vs us w (bs @ bs', w') (\<lambda>bs r. bindR (f bs r) (\<lambda>(x, r, bs). g x bs r)) y"
  unfolding yields_def
proof (safe, simp_all)
  from grows_trans [OF yields_grows [OF f] yields_grows [OF g]] show "grows w w'" .
  fix r rest assume a: "agrees \<rho> w'" and r: "in_step \<rho> vs us w r"
  from yieldsE [OF f agrees_before [OF a yields_grows [OF g]] r] obtain r1
    where 1: "f (bs @ bs' @ rest) r = Inr (x, r1, bs' @ rest)" "in_step \<rho> vs us w1 r1" .
  from yieldsE [OF g a 1(2)] obtain r' where 2: "g x (bs' @ rest) r1 = Inr (y, r', rest)" "in_step \<rho> vs us w' r'" .
  from 1(1) 2 show "\<exists>r'. bindR (f (bs @ bs' @ rest) r) (\<lambda>(x, r, bs). g x bs r) = Inr (y, r', rest) \<and> in_step \<rho> vs us w' r'"
    by simp
qed

text \<open>Values that are not elements.\<close>

lemma yields_value:
  assumes "\<And>rest. f (bs @ rest) = Inr (x, rest)"
  shows "yields \<rho> vs us w (bs, w) (\<lambda>bs r. bindR (f bs) (\<lambda>(y, bs). Inr (g y, r, bs))) (g x)"
  by (simp add: yields_def assms)

lemma yields_then:
  assumes "yields \<rho> vs us w res f x" and "\<And>rest. h (bs' @ rest) = Inr (y, rest)"
  shows "yields \<rho> vs us w (fst res @ bs', snd res) (\<lambda>bs r. then_load (f bs r) h g) (g x y)"
  unfolding then_load_def
  by (rule yields_bind [of _ _ _ _ "fst res" "snd res", simplified, OF assms(1), where g = "\<lambda>x bs r. bindR (h bs) (\<lambda>(y, bs). Inr (g x y, r, bs))"])
    (rule yields_value [OF assms(2)])

lemma yields_map:
  assumes "yields \<rho> vs us w res f x"
  shows "yields \<rho> vs us w res (\<lambda>bs r. bindR (f bs r) (\<lambda>(x, r, bs). Inr (g x, r, bs))) (g x)"
  unfolding yields_def
proof (intro conjI allI impI)
  fix r rest assume a: "agrees \<rho> (snd res)" "in_step \<rho> vs us w r"
  with assms obtain r' where "f (fst res @ rest) r = Inr (x, r', rest)" "in_step \<rho> vs us (snd res) r'"
    by (auto simp: yields_def)
  then show "\<exists>r'. bindR (f (fst res @ rest) r) (\<lambda>(x, r, bs). Inr (g x, r, bs)) = Inr (g x, r', rest) \<and> in_step \<rho> vs us (snd res) r'"
    by simp
qed (use assms in \<open>simp add: yields_def\<close>)

lemma yields_cong: "yields \<rho> vs us w res f x \<Longrightarrow> (\<And>bs r. f bs r = g bs r) \<Longrightarrow> yields \<rho> vs us w res g x"
  by (simp add: yields_def)

context archive
begin

lemma load_enum_back [simp]: "load_enum dec (enc (PEnum n) @ rest) = Inr (n, rest)"
  by (simp add: load_enum_def load_prim_def read_kind)

lemma load_idx_back:
  assumes "idx_ok files ts i"
  shows "load_idx dec files ts (storeObjectRef enc (pointer_to i) @ rest) = Inr (i, rest)"
proof -
  have "pointer_ok files ts (pointer_to i)"
    using assms by (simp add: pointer_ok_def idx_ok_def pointer_to_def MASTER_FILE_def NO_FILE_def)
  from readsD [OF loadObjectRef_reads this] assms show ?thesis
    by (simp add: load_idx_def pointer_to_def idx_ok_def signed_of_nat signed_take_bit_int_eq_self)
qed

lemma load_idxs_back:
  assumes "idxs_ok files ts is"
  shows "load_idxs dec files ts (storeObjectVector enc (map pointer_to is) @ rest) = Inr (is, rest)"
proof -
  have "reads (load_idx dec files ts) (storeObjectRef enc \<circ> pointer_to) (idx_ok files ts)"
    by (simp add: reads_def load_idx_back)
  from readsD [OF load_counted_reads [OF this], of "is"] assms show ?thesis
    by (simp add: load_idxs_def storeObjectVector_def idxs_ok_def list_all_iff)
qed

lemma load_int_prim_back: "load_int dec (enc (int_prim m) @ rest) = Inr (word_of_int m, rest)"
  by (simp add: int_prim_def)

end

lemma int_of_prim_back: "int_ok m \<Longrightarrow> int_of_prim (word_of_int m) = m"
  by (simp add: int_ok_def int_of_prim_def signed_of_int signed_take_bit_int_eq_self)

lemma range_type_back [simp]: "range_type (range_number r) = r"
  by (cases r) (simp_all add: range_type_def)

subsection \<open>Variables\<close>

lemma variable_type_known [simp]: "variable_type v \<in> set all_variables"
  by (cases v) (simp_all add: all_variables_def reference_variables_def)

declare load_element.simps [simp del]

lemma in_step_bound: "in_step \<rho> vs us w r \<Longrightarrow> w_address w a = Some i \<Longrightarrow> i < w_size w"
  by (simp add: in_step_def)

context archive
begin

lemma load_element_known:
  assumes "i < 2 ^ 64" and "r i = Some (Some e)"
  shows "load_element (Suc n) dec files (store_known enc i @ rest) r = Inr (Some e, r, rest)"
  using assms by (simp add: store_known_def load_size_back load_element.simps)

lemma load_element_null: "load_element (Suc n) dec files (store_null enc @ rest) r = Inr (None, r, rest)"
  by (simp add: store_null_def load_element.simps)

lemma load_element_new:
  assumes "i < 2 ^ 64" and "r i = None"
  shows "load_element (Suc n) dec files (store_new enc i t @ rest) r =
    bindR (load_body (load_element n dec files) dec files t i rest (r(i \<mapsto> None)))
      (\<lambda>(e, r, bs). Inr (Some e, r(i \<mapsto> Some e), bs))"
  using assms by (simp add: store_new_def load_size_back verify_def load_element.simps)

lemma variable_members_back:
  assumes "variable_ok files v"
  shows "variable_members_load dec files (variable_type v) (\<rho> (v_addr v)) (map_option (reload \<rho>) (v_parent v))
      (variable_members_store enc v @ rest) = Inr (reload \<rho> v, rest)"
  using assms by (cases v) (simp_all add: load_idx_back load_idxs_back)

lemma load_variable_body:
  assumes "rec (ps @ variable_members_store enc v @ rest) r =
      Inr (map_option (\<lambda>p. V (reload \<rho> p)) (v_parent v), r', variable_members_store enc v @ rest)"
    and "variable_ok files v"
  shows "load_body rec dec files (variable_type v) (\<rho> (v_addr v)) (ps @ variable_members_store enc v @ rest) r =
    Inr (V (reload \<rho> v), r', rest)"
proof -
  have "load_pointer rec all_variables (ps @ variable_members_store enc v @ rest) r =
      Inr (map_option (reload \<rho>) (v_parent v), r', variable_members_store enc v @ rest)"
    using assms(1) by (cases "v_parent v") (simp_all add: load_pointer_def verify_def)
  then show ?thesis by (simp add: load_body_def variable_members_back [OF assms(2)])
qed

lemma load_element_variable:
  assumes "store_variable enc v w = (bs, w')" and "universe files m vs" and "v \<in> vs"
    and "v_addr ` set (chain v) \<inter> us = {}" and "length (chain v) < n"
    and "agrees \<rho> w'" and "in_step \<rho> vs us w r"
  shows "\<exists>r'. load_element n dec files (bs @ rest) r = Inr (Some (V (reload \<rho> v)), r', rest) \<and> in_step \<rho> vs us w' r'"
  using assms
proof (induction v arbitrary: w bs w' us n r rest rule: chain.induct [case_names step])
  case (step v)
  obtain k where n: "n = Suc k" using step.prems(5) by (cases n) auto
  have v: "v_addr v \<notin> us" using step.prems(4) chain_self by blast
  from step.prems(2,3) have ok: "variable_ok files v" and same: "\<forall>u \<in> vs. v_addr u = v_addr v \<longrightarrow> u = v"
    by (auto simp: universe_def)
  show ?case
  proof (cases "w_address w (v_addr v)")
    case (Some i)
    with step.prems(1) have e: "bs = store_known enc i" "w' = w" by (simp_all add: store_variable.simps [of enc v])
    note known = in_step_known [OF step.prems(7,3) v Some]
    from known(1) step.prems(6) e(2) have "i < 2 ^ 64" by (simp add: agrees_def)
    from load_element_known [where r = r, OF this known(2)] e n step.prems(7) show ?thesis by auto
  next
    case None
    let ?i = "w_size w" and ?w = "new_variable (v_addr v) w" and ?ms = "variable_members_store enc v"
    obtain ps where ps: "bs = store_new enc ?i (variable_type v) @ ps @ ?ms"
      and p: "(ps, w') = (case v_parent v of None \<Rightarrow> (store_null enc, ?w) | Some p \<Rightarrow> store_variable enc p ?w)"
      using step.prems(1) None by (auto simp: store_variable.simps [of enc v] split: prod.splits)
    have grows: "grows ?w w'"
      using p [symmetric] store_variable_grows [of enc _ ?w ps w'] by (cases "v_parent v") simp_all
    then have i: "w_address w' (v_addr v) = Some ?i" "?i < w_size w'" by (auto simp: grows_def new_variable_def)
    with step.prems(6) have i': "?i < 2 ^ 64" "\<rho> (v_addr v) = ?i" by (auto simp: agrees_def)
    note inner = in_step_enter [OF step.prems(7) None]
    have "\<exists>r'. load_element k dec files (ps @ ?ms @ rest) (r(?i \<mapsto> None)) =
        Inr (map_option (\<lambda>p. V (reload \<rho> p)) (v_parent v), r', ?ms @ rest) \<and> in_step \<rho> vs (insert (v_addr v) us) w' r'"
    proof (cases "v_parent v")
      case None
      from step.prems(5) n None obtain j where k: "k = Suc j" by (cases k) (simp_all add: chain_root)
      from p None have e: "ps = store_null enc" "w' = ?w" by simp_all
      show ?thesis unfolding k e None using inner by (simp add: load_element_null)
    next
      case (Some q)
      have vs: "set (chain v) \<subseteq> vs" using step.prems(2,3) by (auto simp: universe_def)
      have "v_addr v \<notin> v_addr ` set (chain q)"
      proof
        assume "v_addr v \<in> v_addr ` set (chain q)"
        then obtain u where u: "u \<in> set (chain q)" "v_addr u = v_addr v" by force
        with same vs have "u = v" by (auto simp only: chain_parent [OF Some] set_simps)
        with u(1) chain_not_parent [OF Some] show False by simp
      qed
      then have 1: "v_addr ` set (chain q) \<inter> insert (v_addr v) us = {}"
        using step.prems(4) by (auto simp: chain_parent [OF Some])
      from vs Some have 2: "q \<in> vs" by (auto simp: chain_parent)
      from step.prems(5) n Some have 3: "length (chain q) < k" by (simp add: chain_parent)
      from p Some have 4: "store_variable enc q ?w = (ps, w')" by simp
      show ?thesis
        unfolding Some option.map by (rule step.IH [OF Some 4 step.prems(2) 2 1 3 step.prems(6) inner])
    qed
    then obtain r' where r': "load_element k dec files (ps @ ?ms @ rest) (r(?i \<mapsto> None)) =
        Inr (map_option (\<lambda>p. V (reload \<rho> p)) (v_parent v), r', ?ms @ rest)"
      "in_step \<rho> vs (insert (v_addr v) us) w' r'" by blast
    from load_variable_body [where rec = "load_element k dec files", OF r'(1) ok] i'(2)
    have "load_body (load_element k dec files) dec files (variable_type v) ?i (ps @ ?ms @ rest) (r(?i \<mapsto> None)) =
      Inr (V (reload \<rho> v), r', rest)" by simp
    with load_element_new [where r = r, OF i'(1) in_step_fresh [OF step.prems(7)]] ps n in_step_leave [OF r'(2) i(1) step.prems(3) same]
    show ?thesis by simp
  qed
qed

lemma load_variable_yields:
  assumes vs: "universe files m vs" "v \<in> vs" and n: "m < n" and t: "variable_type v \<in> set cls"
  shows "yields \<rho> vs {} w (store_variable enc v w) (load_variable (load_element n dec files) cls) (reload \<rho> v)"
  unfolding yields_def
proof (intro conjI allI impI store_variable_grows')
  fix r rest
  obtain bs w' where s: "store_variable enc v w = (bs, w')" by fastforce
  assume a: "agrees \<rho> (snd (store_variable enc v w))" "in_step \<rho> vs {} w r"
  from vs n have "length (chain v) < n" by (fastforce simp: universe_def)
  with load_element_variable [OF s vs _ _ _ a(2)] a(1) s obtain r'
    where "load_element n dec files (bs @ rest) r = Inr (Some (V (reload \<rho> v)), r', rest)" "in_step \<rho> vs {} w' r'" by fastforce
  with s t show "\<exists>r'. load_variable (load_element n dec files) cls (fst (store_variable enc v w) @ rest) r =
      Inr (reload \<rho> v, r', rest) \<and> in_step \<rho> vs {} (snd (store_variable enc v w)) r'"
    by (simp add: load_variable_def load_pointer_def verify_def of_option_def)
qed

lemma load_two_yields:
  assumes "universe files m vs" and "u \<in> vs" and "v \<in> vs" and "m < n"
    and "variable_type u \<in> set cls" and "variable_type v \<in> set cls'"
  shows "yields \<rho> vs {} w (store_two enc u v w) (load_two (load_element n dec files) cls cls' h) (h (reload \<rho> u) (reload \<rho> v))"
proof -
  obtain us w1 vs' w2 where s: "store_variable enc u w = (us, w1)" "store_variable enc v w1 = (vs', w2)" by fastforce
  have 1: "yields \<rho> vs {} w (us, w1) (load_variable (load_element n dec files) cls) (reload \<rho> u)"
    using load_variable_yields [OF assms(1,2,4,5), of \<rho> w] s(1) by simp
  have 2: "yields \<rho> vs {} w1 (vs', w2) (load_variable (load_element n dec files) cls') (reload \<rho> v)"
    using load_variable_yields [OF assms(1,3,4,6), of \<rho> w1] s(2) by simp
  have "yields \<rho> vs {} w (us @ vs', w2) (load_two (load_element n dec files) cls cls' h) (h (reload \<rho> u) (reload \<rho> v))"
    unfolding load_two_def
    by (rule yields_bind [where g = "\<lambda>u bs r. bindR (load_variable (load_element n dec files) cls' bs r) (\<lambda>(v, r, bs). Inr (h u v, r, bs))"])
      (rule 1, rule yields_map [OF 2])
  with s show ?thesis by (simp add: store_two_def)
qed

subsection \<open>Members\<close>

lemma load_operation_yields:
  assumes "universe files m vs" and "v \<in> vs" and "m < n" and "is_instance v"
    and "idx_ok files its i" and "idx_ok files tts t"
  shows "yields \<rho> vs {} w (store_operation enc v [i, t] w) (load_operation (load_element n dec files) dec files its tts f)
    (f (reload \<rho> v) i t)"
proof -
  let ?f = "load_pair (load_idx dec files its) (load_idx dec files tts)"
  let ?bs = "storeObjectRef enc (pointer_to i) @ storeObjectRef enc (pointer_to t)"
  have "?f (?bs @ rest) = Inr ((i, t), rest)" for rest
    by (simp add: load_pair_def load_idx_back assms(5,6))
  from yields_then [OF load_variable_yields [OF assms(1-3), of "[eInstanceVariable]" \<rho> w] this, of "\<lambda>v (i, t). f v i t"] assms(4)
  show ?thesis by (simp add: is_instance_def load_operation_def [abs_def] store_operation_def split_def Let_def)
qed

lemma action_yields:
  assumes "universe files m vs" and "v \<in> vs" and "m < n" and "action_ok files v i t"
  shows "yields \<rho> vs {} w (store_operation enc v [i, t] w)
    (load_operation (load_element n dec files) dec files interface_Context [eConcreteAction] h) (h (reload \<rho> v) i t)"
  using assms(4) by (auto simp: action_ok_def intro!: load_operation_yields [OF assms(1-3)])

lemma dimension_yields:
  assumes "universe files m vs" and "v \<in> vs" and "m < n" and "dimension_ok files v i t"
  shows "yields \<rho> vs {} w (store_operation enc v [i, t] w)
    (load_operation (load_element n dec files) dec files [eAbstractDimension] [eConcreteDimensionUser] h) (h (reload \<rho> v) i t)"
  using assms(4) by (auto simp: dimension_ok_def intro!: load_operation_yields [OF assms(1-3)])

lemma members_yields:
  assumes "universe files m vs" and "m < n" and "op_ok files op" and "set (op_variables op) \<subseteq> vs"
  shows "\<exists>res. members_store enc op w = Inr res \<and>
    yields \<rho> vs {} w res (members_load (load_element n dec files) dec files (op_type op)) (on_variables (reload \<rho>) op)"
proof -
  let ?rec = "load_element n dec files"
  have action: "yields \<rho> vs {} w (store_operation enc v [i, t] w) g (h (reload \<rho> v) i t)"
    if "v \<in> vs" "action_ok files v i t" "\<And>bs r. g bs r = load_operation ?rec dec files interface_Context [eConcreteAction] h bs r"
    for v i t g and h :: "variable \<Rightarrow> idx \<Rightarrow> idx \<Rightarrow> instr_op"
    by (rule yields_cong [OF action_yields [OF assms(1) that(1) assms(2) that(2)]]) (rule that(3) [symmetric])
  have dimension: "yields \<rho> vs {} w (store_operation enc v [i, t] w) g (h (reload \<rho> v) i t)"
    if "v \<in> vs" "dimension_ok files v i t"
      "\<And>bs r. g bs r = load_operation ?rec dec files [eAbstractDimension] [eConcreteDimensionUser] h bs r"
    for v i t g and h :: "variable \<Rightarrow> idx \<Rightarrow> idx \<Rightarrow> instr_op"
    by (rule yields_cong [OF dimension_yields [OF assms(1) that(1) assms(2) that(2)]]) (rule that(3) [symmetric])
  have two: "yields \<rho> vs {} w (store_two enc u v w) g (h (reload \<rho> u) (reload \<rho> v))"
    if "u \<in> vs" "v \<in> vs" "variable_type u \<in> set cls" "variable_type v \<in> set cls'" "\<And>bs r. g bs r = load_two ?rec cls cls' h bs r"
    for u v cls cls' g and h :: "variable \<Rightarrow> variable \<Rightarrow> instr_op"
    by (rule yields_cong [OF load_two_yields [OF assms(1) that(1,2) assms(2) that(3,4)]]) (rule that(5) [symmetric])
  note one = load_variable_yields [OF assms(1) _ assms(2)]
  show ?thesis
  proof (cases op)
    case (CallOperation v i t)
    with assms(3,4) show ?thesis by (auto intro!: action [where h = CallOperation])
  next
    case (StartOperation v i t)
    with assms(3,4) show ?thesis by (auto intro!: action [where h = StartOperation])
  next
    case (StopOperation v i t)
    with assms(3,4) show ?thesis by (auto intro!: action [where h = StopOperation])
  next
    case (PauseOperation v i t)
    with assms(3,4) show ?thesis by (auto intro!: action [where h = PauseOperation])
  next
    case (ResumeOperation v i t)
    with assms(3,4) show ?thesis by (auto intro!: action [where h = ResumeOperation])
  next
    case (DoneOperation v i t)
    with assms(3,4) show ?thesis by (auto intro!: action [where h = DoneOperation])
  next
    case (WaitActionOperation v i t)
    with assms(3,4) show ?thesis by (auto intro!: action [where h = WaitActionOperation])
  next
    case (WaitDimensionOperation v i t)
    with assms(3,4) show ?thesis by (auto intro!: dimension [where h = WaitDimensionOperation])
  next
    case (GetActionOperation v i t)
    with assms(3,4) show ?thesis by (auto intro!: action [where h = GetActionOperation])
  next
    case (GetDimensionOperation v i t)
    with assms(3,4) show ?thesis by (auto intro!: dimension [where h = GetDimensionOperation])
  next
    case (ReadOperation v i t)
    with assms(3,4) show ?thesis by (auto intro!: dimension [where h = ReadOperation])
  next
    case (WriteOperation v i t)
    with assms(3,4) show ?thesis by (auto intro!: dimension [where h = WriteOperation])
  next
    case (ParentDerivationInstruction u v)
    with assms(3,4) show ?thesis by (auto simp: is_instance_def intro!: two [where h = ParentDerivationInstruction])
  next
    case (ChildDerivationInstruction u v)
    with assms(3,4) show ?thesis by (auto simp: is_instance_def intro!: two [where h = ChildDerivationInstruction])
  next
    case (EnumDerivationInstruction u v)
    with assms(3,4) show ?thesis by (auto simp: is_instance_def intro!: two [where h = EnumDerivationInstruction])
  next
    case (MonomorphicReferenceInstruction u v)
    with assms(3,4) show ?thesis by (auto simp: is_instance_def is_reference_def intro!: two [where h = MonomorphicReferenceInstruction])
  next
    case (PolymorphicCaseInstruction u v)
    with assms(3,4) show ?thesis by (auto simp: is_instance_def is_reference_def intro!: two [where h = PolymorphicCaseInstruction])
  next
    case (PolymorphicReferenceBranchInstruction v)
    with assms(3,4) yields_map [OF one, of v reference_variables \<rho> w PolymorphicReferenceBranchInstruction] show ?thesis
      by (auto simp: is_reference_def elim!: yields_cong)
  next
    case (RootInstruction c k)
    with assms(3,4) yields_then [OF one [of c "[eContextVariable]" \<rho> w] load_int_prim_back [of k],
        of "\<lambda>c m. RootInstruction c (int_of_prim m)"]
    show ?thesis by (auto simp: then_store_def int_of_prim_back elim!: yields_cong)
  next
    case (EnumerationInstruction c ts k)
    have "load_pair (load_idxs dec files interface_Element) (load_int dec)
        ((storeObjectVector enc (map pointer_to ts) @ enc (int_prim k)) @ rest) = Inr ((ts, word_of_int k), rest)" for rest
      using assms(3) EnumerationInstruction by (simp add: load_pair_def load_idxs_back load_int_prim_back)
    from yields_then [OF one [of c "[eInstanceVariable]" \<rho> w] this,
        of "\<lambda>c (ts, m). EnumerationInstruction c ts (int_of_prim m)"] assms(3,4) EnumerationInstruction
    show ?thesis by (auto simp: then_store_def int_of_prim_back is_instance_def elim!: yields_cong)
  next
    case (DimensionReferenceReadInstruction u v d)
    with assms(3) have d: "idx_ok files concrete_Dimension d" by simp
    from yields_then [OF load_two_yields [OF assms(1) _ _ assms(2), where h = Pair and u = u and v = v and \<rho> = \<rho> and w = w
          and cls = "[eInstanceVariable]" and cls' = "[eDimensionVariable]"] load_idx_back [OF d],
        of "\<lambda>(i, v) d. DimensionReferenceReadInstruction i v d"] assms(3,4) DimensionReferenceReadInstruction
    show ?thesis by (auto simp: then_store_def is_instance_def elim!: yields_cong)
  next
    case (WriteLinkOperation v i t g)
    with assms(3) have g: "idx_ok files [eLinkGroup] g" by simp
    from yields_then [OF dimension_yields [OF assms(1) _ assms(2), where h = "\<lambda>v i t. (v, i, t)" and v = v and i = i and t = t and \<rho> = \<rho> and w = w]
        load_idx_back [OF g], of "\<lambda>(v, i, t) g. WriteLinkOperation v i t g"] assms(3,4) WriteLinkOperation
    show ?thesis by (auto simp: store_operation_def split_def Let_def elim!: yields_cong)
  next
    case (RangeOperation v i t rt)
    from yields_then [OF action_yields [OF assms(1) _ assms(2), where h = "\<lambda>v i t. (v, i, t)" and v = v and i = i and t = t and \<rho> = \<rho> and w = w]
        load_enum_back [of "range_number rt"], of "\<lambda>(v, i, t) n. RangeOperation v i t (range_type n)"] assms(3,4) RangeOperation
    show ?thesis by (auto simp: then_store_def elim!: yields_cong)
  qed (use assms(3) in auto)
qed

subsection \<open>Trees\<close>

lemma load_child_yields:
  assumes x: "yields \<rho> vs {} (w\<lparr>w_size := Suc (w_size w)\<rparr>) res (load_instruction (load_element n dec files) dec files (op_type op)) x"
    and op: "op_ok files op" "op_type op \<noteq> eRootInstruction"
  shows "yields \<rho> vs {} w (store_new enc (w_size w) (op_type op) @ fst res, snd res) (load_element (Suc n) dec files) (Some (I x))"
  unfolding yields_def
proof (intro conjI allI impI)
  let ?w = "w\<lparr>w_size := Suc (w_size w)\<rparr>"
  have grows: "grows ?w (snd res)" using x by (simp add: yields_def)
  from grows_Suc [OF this] show "grows w (snd (store_new enc (w_size w) (op_type op) @ fst res, snd res))" by simp
  fix r rest
  assume "agrees \<rho> (snd (store_new enc (w_size w) (op_type op) @ fst res, snd res))" and r: "in_step \<rho> vs {} w r"
  then have a: "agrees \<rho> (snd res)" by simp
  with grows have i: "w_size w < 2 ^ 64" by (auto simp: grows_def agrees_def)
  obtain r' where r': "load_instruction (load_element n dec files) dec files (op_type op) (fst res @ rest) (r(w_size w \<mapsto> None)) = Inr (x, r', rest)"
    "in_step \<rho> vs {} (snd res) r'"
    using yieldsD [OF x a in_step_instruction [OF r]] by blast
  have t: "op_type op \<notin> set all_variables" "op_type op \<notin> set unreachable_types"
    using op by (cases op; simp add: all_variables_def reference_variables_def unreachable_types_def)+
  have "load_body (load_element n dec files) dec files (op_type op) (w_size w) (fst res @ rest) (r(w_size w \<mapsto> None)) = Inr (I x, r', rest)"
    using t r'(1) by (simp add: load_body_def)
  with load_element_new [where r = r, OF i in_step_fresh [OF r], of n files "op_type op" "fst res @ rest"]
    in_step_instruction_done [OF r'(2) grows] in_step_bound [OF r]
  show "\<exists>r'. load_element (Suc n) dec files (fst (store_new enc (w_size w) (op_type op) @ fst res, snd res) @ rest) r = Inr (Some (I x), r', rest) \<and>
      in_step \<rho> vs {} (snd (store_new enc (w_size w) (op_type op) @ fst res, snd res)) r'"
    by simp
qed

lemma load_instruction_yields:
  assumes "universe files m vs"
  shows "tree_ok files i \<Longrightarrow> set (tree_variables i) \<subseteq> vs \<Longrightarrow> m + tree_size i \<le> n \<Longrightarrow>
    \<exists>res. store_instruction enc i w = Inr res \<and>
      yields \<rho> vs {} w res (load_instruction (load_element n dec files) dec files (op_type (opof i))) (reload_tree \<rho> i)"
proof (induction i arbitrary: w n)
  case (Instr op cs)
  let ?rec = "load_element n dec files"
  have "\<exists>res. store_children enc cs' w = Inr res \<and>
      yields \<rho> vs {} w res (load_children (length cs') ?rec) (map (reload_tree \<rho>) cs')"
    if "set cs' \<subseteq> set cs" for cs' w
    using that
  proof (induction cs' arbitrary: w)
    case Nil
    then show ?case by (simp add: yields_def)
  next
    case (Cons c cs')
    have "c \<in> set cs" using Cons.prems by simp
    then have "tree_size c \<le> sum_list (map tree_size cs)" by (simp add: member_le_sum_list)
    with Instr.prems(3) obtain k where k: "n = Suc k" "m + tree_size c \<le> k" by (cases n) auto
    have c: "tree_ok files c" "op_type (opof c) \<noteq> eRootInstruction" "set (tree_variables c) \<subseteq> vs"
      using Instr.prems(1,2) \<open>c \<in> set cs\<close> by (auto simp: list_all_iff)
    then have op: "op_ok files (opof c)" by (cases c) simp
    from Instr.IH [OF \<open>c \<in> set cs\<close> c(1,3) k(2)] obtain res
      where 1: "store_instruction enc c (w\<lparr>w_size := Suc (w_size w)\<rparr>) = Inr res"
        "yields \<rho> vs {} (w\<lparr>w_size := Suc (w_size w)\<rparr>) res (load_instruction (load_element k dec files) dec files (op_type (opof c))) (reload_tree \<rho> c)"
      by blast
    from Cons.IH [of "snd res"] Cons.prems obtain res'
      where 2: "store_children enc cs' (snd res) = Inr res'"
        "yields \<rho> vs {} (snd res) res' (load_children (length cs') ?rec) (map (reload_tree \<rho>) cs')" by auto
    let ?g = "\<lambda>e bs r. case e of Some (I i) \<Rightarrow> bindR (load_children (length cs') ?rec bs r) (\<lambda>(is, r, bs). Inr (i # is, r, bs))
      | _ \<Rightarrow> Inl (RuntimeError ''verify'')"
    have "yields \<rho> vs {} w ((store_new enc (w_size w) (op_type (opof c)) @ fst res) @ fst res', snd res')
        (\<lambda>bs r. bindR (?rec bs r) (\<lambda>(e, r, bs). ?g e bs r)) (map (reload_tree \<rho>) (c # cs'))"
    proof (rule yields_bind [where g = ?g])
      show "yields \<rho> vs {} w (store_new enc (w_size w) (op_type (opof c)) @ fst res, snd res) ?rec (Some (I (reload_tree \<rho> c)))"
        unfolding k(1) by (rule load_child_yields [OF 1(2) op c(2)])
      show "yields \<rho> vs {} (snd res) (fst res', snd res') (?g (Some (I (reload_tree \<rho> c)))) (map (reload_tree \<rho>) (c # cs'))"
        using yields_map [OF 2(2), of "(#) (reload_tree \<rho> c)"] by simp
    qed
    with 1(1) 2(1) show ?case by (simp add: split_def fun_eq_iff)
  qed
  from this [OF order_refl] obtain res where 1: "store_children enc cs w = Inr res"
    "yields \<rho> vs {} w res (load_children (length cs) ?rec) (map (reload_tree \<rho>) cs)" by blast
  have "op_ok files op" "set (op_variables op) \<subseteq> vs" "m < n"
    using Instr.prems by (auto simp: subset_iff) (metis chain_self)
  with members_yields [OF assms, of n op] obtain res' where 2: "members_store enc op (snd res) = Inr res'"
    "yields \<rho> vs {} (snd res) res' (members_load ?rec dec files (op_type op)) (on_variables (reload \<rho>) op)" by blast
  let ?size = "store_size enc (length cs)"
  have size: "load_size dec (?size @ rest) = Inr (length cs, rest)" for rest
    using Instr.prems(1) by (simp add: load_size_back counted_def)
  have "yields \<rho> vs {} w (fst res @ fst res', snd res')
      (\<lambda>bs r. bindR (load_children (length cs) ?rec bs r) (\<lambda>(cs, r, bs). bindR (members_load ?rec dec files (op_type op) bs r) (\<lambda>(op, r, bs). Inr (Instr op cs, r, bs))))
      (reload_tree \<rho> (Instr op cs))"
  proof (rule yields_bind [where g = "\<lambda>cs bs r. bindR (members_load ?rec dec files (op_type op) bs r) (\<lambda>(op, r, bs). Inr (Instr op cs, r, bs))"])
    from 1(2) show "yields \<rho> vs {} w (fst res, snd res) (load_children (length cs) ?rec) (map (reload_tree \<rho>) cs)" by simp
    from yields_map [OF 2(2), of "\<lambda>op. Instr op (map (reload_tree \<rho>) cs)"]
    show "yields \<rho> vs {} (snd res) (fst res', snd res') (\<lambda>bs r. bindR (members_load ?rec dec files (op_type op) bs r)
        (\<lambda>(op, r, bs). Inr (Instr op (map (reload_tree \<rho>) cs), r, bs))) (reload_tree \<rho> (Instr op cs))" by simp
  qed
  then have "yields \<rho> vs {} w (?size @ fst res @ fst res', snd res') (load_instruction ?rec dec files (op_type op)) (reload_tree \<rho> (Instr op cs))"
    unfolding yields_def load_instruction_def by (simp add: size)
  with 1(1) 2(1) show ?case by (simp add: split_def)
qed

end

section \<open>The round trip\<close>

definition stored_ok :: "ObjectType object_table \<Rightarrow> instruction \<Rightarrow> bool" where
  "stored_ok files i \<longleftrightarrow>
     op_type (opof i) = eRootInstruction \<and> tree_ok files i \<and> addresses_ok i \<and> list_all (variable_ok files) (tree_variables i) \<and>
     tree_size i + length (tree_variables i) \<le> 2 ^ 64"

lemma chain_in_tree: "v \<in> set (tree_variables i) \<Longrightarrow>
    set (chain v) \<subseteq> set (tree_variables i) \<and> length (chain v) \<le> length (tree_variables i)"
proof (induction i)
  case (Instr op cs)
  have part: "length (f x) \<le> length (concat (map f xs))" if "x \<in> set xs" for f :: "'c \<Rightarrow> variable list" and x xs
    using that by (simp add: length_concat member_le_sum_list comp_def)
  from Instr.prems consider
      u where "u \<in> set (op_variables op)" "v \<in> set (chain u)"
    | c where "c \<in> set cs" "v \<in> set (tree_variables c)" by auto
  then show ?case
  proof cases
    case 1
    with chain_below [OF 1(2)] part [OF 1(1), of chain] show ?thesis by auto
  next
    case 2
    with Instr.IH [OF 2] part [OF 2(1), of tree_variables] show ?thesis by auto
  qed
qed

lemma stored_universe: "stored_ok files i \<Longrightarrow> universe files (length (tree_variables i)) (set (tree_variables i))"
  using chain_in_tree [of _ i] by (auto simp: stored_ok_def universe_def addresses_ok_def list_all_iff)

text \<open>The addresses of the loaded variables.\<close>

definition given_address :: "ast_writer \<Rightarrow> nat \<Rightarrow> nat" where
  "given_address w a = (case w_address w a of Some i \<Rightarrow> i | None \<Rightarrow> w_size w + a)"

lemma given_address_inj: "in_step \<rho> vs us w r \<Longrightarrow> inj (given_address w)"
proof (rule injI)
  fix a b assume w: "in_step \<rho> vs us w r" and e: "given_address w a = given_address w b"
  have inj: "a = b" if "w_address w a = Some i" "w_address w b = Some i" for i
    using w that by (auto simp: in_step_def inj_on_def dom_def)
  from in_step_bound [OF w, of a] in_step_bound [OF w, of b] e inj show "a = b"
    by (fastforce simp: given_address_def split: option.splits)
qed

text \<open>C31. What \<open>InvocationSolution::store\<close> writes for a tree of instructions whose variables are told apart by
  their addresses, \<open>InvocationSolution::load\<close> reads back, for every archive that reads back single values, up
  to the types of the dimension and context variables, which are not stored and come back empty: the tree has
  the same instructions, the variables are shared exactly as they were, each keeps its parent, and nothing
  behind the tree in the stream is taken.\<close>

theorem stored_tree_loads:
  assumes "archive enc dec" and "stored_ok files i" and "tree_size i + length (tree_variables i) \<le> fuel"
  shows "\<exists>bs \<rho>. store_root enc i = Inr bs \<and> inj \<rho> \<and> (\<forall>rest. load_root fuel dec files (bs @ rest) = Inr (reload_tree \<rho> i, rest))"
proof -
  let ?vs = "set (tree_variables i)"
  have i: "tree_ok files i" "op_type (opof i) = eRootInstruction" "length (tree_variables i) + tree_size i \<le> fuel"
    using assms(2,3) by (simp_all add: stored_ok_def)
  note yields = archive.load_instruction_yields [OF assms(1) stored_universe [OF assms(2)] i(1) order_refl i(3), unfolded i(2)]
  obtain bs w where s: "store_instruction enc i new_writer = Inr (bs, w)" using yields [of new_writer id] by auto
  let ?\<rho> = "given_address w"
  have y: "yields ?\<rho> ?vs {} new_writer (bs, w) (load_instruction (load_element fuel dec files) dec files eRootInstruction) (reload_tree ?\<rho> i)"
    using yields [of new_writer ?\<rho>] s by simp
  have "agrees ?\<rho> w"
    using store_instruction_size(1) [OF s] assms(2) by (simp add: agrees_def stored_ok_def given_address_def new_writer_def)
  note loaded = yieldsD [OF y, unfolded fst_conv snd_conv, OF this in_step_start]
  from loaded given_address_inj have "inj ?\<rho>" by blast
  moreover have "load_root fuel dec files (bs @ rest) = Inr (reload_tree ?\<rho> i, rest)" for rest
    using loaded [of rest] by (auto simp: load_root_def)
  moreover have "store_root enc i = Inr bs" using s by (simp add: store_root_def)
  ultimately show ?thesis by blast
qed

text \<open>An archive whose stream is the list of the values.\<close>

definition token_encoder :: "prim encoder" where
  "token_encoder v = [v]"

fun token_decoder :: "prim decoder" where
  "token_decoder k [] = None"
| "token_decoder k (v # bs) = (if kind_of v = k then Some (v, bs) else None)"

interpretation tokens: archive token_encoder token_decoder
  by unfold_locales (simp add: token_encoder_def)

definition demo_files :: "ObjectType object_table" where
  "demo_files f = (if f = MASTER_FILE then Some [Some eConcreteAction, Some eAbstractAction] else None)"

definition demo_tree :: instruction where
  "demo_tree =
     (let c = ContextVariable 5 None [1]; v = InstanceVariable 9 (Some c) 0 in
      Instr (RootInstruction c 1)
        [Instr (PolymorphicReferenceBranchInstruction c)
          [Instr (PolymorphicCaseInstruction c v) [Instr (StartOperation v 1 0) []]]])"

theorem stored_tree_loads_witness:
  "\<exists>bs \<rho>. store_root token_encoder demo_tree = Inr bs \<and> inj \<rho> \<and>
     (\<forall>rest. load_root 20 token_decoder demo_files (bs @ rest) = Inr (reload_tree \<rho> demo_tree, rest))"
proof (rule stored_tree_loads)
  show "stored_ok demo_files demo_tree"
    by (auto simp: stored_ok_def demo_tree_def addresses_ok_def chain.simps counted_def is_instance_def is_reference_def
        reference_variables_def int_ok_def action_ok_def idx_ok_def find_object_def demo_files_def interface_Context_def Let_def concrete_Element_def)
  show "tree_size demo_tree + length (tree_variables demo_tree) \<le> 20" by code_simp
qed (rule tokens.archive_axioms)

end
