(* ===== verification/ObjectFields.thy ===== *)
theory ObjectFields
  imports InstructionRoundTrip
begin

text \<open>
  The \<open>load\<close> and \<open>store\<close> members of the classes of indexed objects (\<open>src/eg/input.cpp\<close>,
  \<open>src/eg/interface.cpp\<close>, \<open>src/eg/concrete.cpp\<close>, \<open>src/eg/allocator.cpp\<close>, \<open>src/eg/derivation.cpp\<close>,
  \<open>src/eg/identifiers.cpp\<close>, \<open>src/eg/link.cpp\<close>, \<open>src/eg/layout.cpp\<close>, \<open>src/eg/translation_unit.cpp\<close> and
  \<open>src/eg/invocation.cpp\<close>). A member of an object is named by a string. For every class there is the list of
  what \<open>load\<close> reads into which member and the list of what \<open>store\<close> writes, in the order of the code; a cast
  of a member to a more derived class, as the interface elements make it, is a step of its own.
\<close>

section \<open>Members\<close>

type_synonym object_class = "ObjectType list"

text \<open>The templates that load and store a member, with the classes of the pointers in it.\<close>

datatype field_kind =
    FPrim kind
  | FOptional kind
  | FRef object_class
  | FVector object_class
  | FVectorVector object_class
  | FSet object_class
  | FMap object_class object_class
  | FMultimap object_class object_class
  | FKeyMap kind object_class
  | FIdentifierMap object_class object_class
  | FIdentifierMultimap object_class object_class
  | FCompatibility
  | FPairs object_class object_class
  | FPairsVector object_class object_class
  | FTree

datatype field_value =
    VPrim prim
  | VOptional "prim option"
  | VRef pointer
  | VRefs "pointer list"
  | VRefss "pointer list list"
  | VPairs "(pointer \<times> pointer) list"
  | VPairss "(pointer \<times> pointer) list list"
  | VKeyMap "(prim \<times> pointer) list"
  | VCompatibility "(pointer \<times> pointer list list) list"
  | VTree instruction

type_synonym members = "string \<rightharpoonup> field_value"

text \<open>The sets of a \<open>Compatibility\<close>, in their order.\<close>

definition compatibility_sets :: "object_class list" where
  "compatibility_sets = [interface_Context, interface_Context, [eConcreteAction], [eConcreteAction], [eConcreteAction]]"

definition store_counted :: "'b encoder \<Rightarrow> ('a \<Rightarrow> 'b list) \<Rightarrow> 'a list \<Rightarrow> 'b list" where
  "store_counted enc g xs = store_size enc (length xs) @ concat (map g xs)"

definition store_compatibility :: "'b encoder \<Rightarrow> pointer \<times> pointer list list \<Rightarrow> 'b list" where
  "store_compatibility enc e = storeObjectRef enc (fst e) @ concat (map (storeObjectSet enc) (snd e))"

fun store_field :: "'b encoder \<Rightarrow> field_kind \<Rightarrow> field_value \<Rightarrow> 'b list result" where
  "store_field enc (FPrim k) v = (case v of VPrim x \<Rightarrow> Inr (enc x) | _ \<Rightarrow> Inl UndefinedBehaviour)"
| "store_field enc (FOptional k) v = (case v of VOptional x \<Rightarrow> Inr (storeOptional enc x) | _ \<Rightarrow> Inl UndefinedBehaviour)"
| "store_field enc (FRef c) v = (case v of VRef p \<Rightarrow> Inr (storeObjectRef enc p) | _ \<Rightarrow> Inl UndefinedBehaviour)"
| "store_field enc (FVector c) v = (case v of VRefs ps \<Rightarrow> Inr (storeObjectVector enc ps) | _ \<Rightarrow> Inl UndefinedBehaviour)"
| "store_field enc (FVectorVector c) v = (case v of VRefss pss \<Rightarrow> Inr (storeObjectVectorVector enc pss) | _ \<Rightarrow> Inl UndefinedBehaviour)"
| "store_field enc (FSet c) v = (case v of VRefs ps \<Rightarrow> Inr (storeObjectSet enc ps) | _ \<Rightarrow> Inl UndefinedBehaviour)"
| "store_field enc (FMap c d) v = (case v of VPairs m \<Rightarrow> Inr (storeObjectMap enc m) | _ \<Rightarrow> Inl UndefinedBehaviour)"
| "store_field enc (FMultimap c d) v = (case v of VPairs m \<Rightarrow> Inr (storeObjectMap enc m) | _ \<Rightarrow> Inl UndefinedBehaviour)"
| "store_field enc (FKeyMap k c) v = (case v of VKeyMap m \<Rightarrow> Inr (storeKeyObjectMap enc m) | _ \<Rightarrow> Inl UndefinedBehaviour)"
| "store_field enc (FIdentifierMap c d) v = (case v of VPairs m \<Rightarrow> Inr (storeObjectMap enc m) | _ \<Rightarrow> Inl UndefinedBehaviour)"
| "store_field enc (FIdentifierMultimap c d) v = (case v of VPairs m \<Rightarrow> Inr (storeObjectMap enc m) | _ \<Rightarrow> Inl UndefinedBehaviour)"
| "store_field enc FCompatibility v = (case v of VCompatibility m \<Rightarrow> Inr (store_counted enc (store_compatibility enc) m) | _ \<Rightarrow> Inl UndefinedBehaviour)"
| "store_field enc (FPairs c d) v = (case v of VPairs m \<Rightarrow> Inr (storeObjectMap enc m) | _ \<Rightarrow> Inl UndefinedBehaviour)"
| "store_field enc (FPairsVector c d) v = (case v of VPairss ms \<Rightarrow> Inr (store_counted enc (storeObjectMap enc) ms) | _ \<Rightarrow> Inl UndefinedBehaviour)"
| "store_field enc FTree v = (case v of VTree i \<Rightarrow> store_root enc i | _ \<Rightarrow> Inl UndefinedBehaviour)"

fun load_sets :: "'b decoder \<Rightarrow> ObjectType object_table \<Rightarrow> object_class list \<Rightarrow> ('b, pointer list list) loading" where
  "load_sets dec files [] bs = Inr ([], bs)"
| "load_sets dec files (c # cs) bs =
     bindR (loadObjectSet dec files c bs) (\<lambda>(s, bs). bindR (load_sets dec files cs bs) (\<lambda>(ss, bs). Inr (s # ss, bs)))"

definition load_compatibility :: "'b decoder \<Rightarrow> ObjectType object_table \<Rightarrow> ('b, (pointer \<times> pointer list list) list) loading" where
  "load_compatibility dec files =
     loading_into insert_map
       (load_counted dec (load_pair (loadObjectRef dec files interface_Context) (load_sets dec files compatibility_sets)))"

text \<open>\<open>CompareIdentifiers\<close> asks the elements for their identifiers, so what is loaded depends on the objects that
  are loaded already: \<open>ident\<close> is what \<open>getIdentifier\<close> gives at that moment.\<close>

type_synonym identifier_of = "pointer \<Rightarrow> string result"

definition ident_key :: "identifier_of \<Rightarrow> pointer \<Rightarrow> string" where
  "ident_key ident p = (case ident p of Inl e \<Rightarrow> [] | Inr s \<Rightarrow> s)"

definition ident_insert ::
  "identifier_of \<Rightarrow> ((pointer \<times> pointer) list \<Rightarrow> (pointer \<times> pointer) list) \<Rightarrow> pointer \<Rightarrow> (pointer \<times> pointer) list \<Rightarrow>
   (pointer \<times> pointer) list result" where
  "ident_insert ident ins p m =
     bindR (if m = [] then Inr [] else mapR ident (p # map fst m)) (\<lambda>_. Inr (ins m))"

definition insert_ident_map :: "identifier_of \<Rightarrow> pointer \<times> pointer \<Rightarrow> (pointer \<times> pointer) list \<Rightarrow> (pointer \<times> pointer) list result" where
  "insert_ident_map ident e m = ident_insert ident (map_insert_new (ident_key ident) (fst e) (snd e)) (fst e) m"

definition insert_ident_multimap :: "identifier_of \<Rightarrow> pointer \<times> pointer \<Rightarrow> (pointer \<times> pointer) list \<Rightarrow> (pointer \<times> pointer) list result" where
  "insert_ident_multimap ident e m = ident_insert ident (mm_insert (ident_key ident) (fst e) (snd e)) (fst e) m"

definition loaded :: "('a \<Rightarrow> field_value) \<Rightarrow> ('b, 'a) loading \<Rightarrow> ('b, field_value) loading" where
  "loaded c f bs = bindR (f bs) (\<lambda>(x, bs). Inr (c x, bs))"

fun load_field ::
  "nat \<Rightarrow> 'b decoder \<Rightarrow> ObjectType object_table \<Rightarrow> identifier_of \<Rightarrow> field_kind \<Rightarrow> ('b, field_value) loading" where
  "load_field n dec files ident (FPrim k) = loaded VPrim (load_prim dec k)"
| "load_field n dec files ident (FOptional k) = loaded VOptional (loadOptional dec k)"
| "load_field n dec files ident (FRef c) = loaded VRef (loadObjectRef dec files c)"
| "load_field n dec files ident (FVector c) = loaded VRefs (loadObjectVector dec files c)"
| "load_field n dec files ident (FVectorVector c) = loaded VRefss (loadObjectVectorVector dec files c)"
| "load_field n dec files ident (FSet c) = loaded VRefs (loadObjectSet dec files c)"
| "load_field n dec files ident (FMap c d) = loaded VPairs (loadObjectMap dec files c d)"
| "load_field n dec files ident (FMultimap c d) = loaded VPairs (loadObjectMultimap dec files c d)"
| "load_field n dec files ident (FKeyMap k c) = loaded VKeyMap (loadKeyObjectMap dec files k c)"
| "load_field n dec files ident (FIdentifierMap c d) = loaded VPairs (loading_into (insert_ident_map ident) (load_pairs dec files c d))"
| "load_field n dec files ident (FIdentifierMultimap c d) = loaded VPairs (loading_into (insert_ident_multimap ident) (load_pairs dec files c d))"
| "load_field n dec files ident FCompatibility = loaded VCompatibility (load_compatibility dec files)"
| "load_field n dec files ident (FPairs c d) = loaded VPairs (load_pairs dec files c d)"
| "load_field n dec files ident (FPairsVector c d) = loaded VPairss (load_counted dec (load_pairs dec files c d))"
| "load_field n dec files ident FTree = loaded VTree (load_root n dec files)"

section \<open>The members of the classes\<close>

text \<open>\<open>CastField target source c\<close>: when the member \<open>source\<close> is not null it must be an object of a class \<open>c\<close> and
  is assigned to \<open>target\<close>.\<close>

datatype load_step = LoadField string field_kind | CastField string string object_class

type_synonym store_step = "string \<times> field_kind"

definition HasIdentifier_load :: "load_step list" where
  "HasIdentifier_load =
     [LoadField ''m_strIdentifier'' (FPrim KString)]"

definition HasIdentifier_store :: "store_step list" where
  "HasIdentifier_store =
     [(''m_strIdentifier'', FPrim KString)]"

definition HasConst_load :: "load_step list" where
  "HasConst_load =
     [LoadField ''m_bIsConst'' (FPrim KBool)]"

definition HasConst_store :: "store_step list" where
  "HasConst_store =
     [(''m_bIsConst'', FPrim KBool)]"

definition HasChildren_load :: "load_step list" where
  "HasChildren_load =
     [LoadField ''m_elements'' (FVector input_Element)]"

definition HasChildren_store :: "store_step list" where
  "HasChildren_store =
     [(''m_elements'', FVector input_Element)]"

definition HasDomain_load :: "load_step list" where
  "HasDomain_load =
     [LoadField ''m_pSize'' (FRef [eInputOpaque])]"

definition HasDomain_store :: "store_step list" where
  "HasDomain_store =
     [(''m_pSize'', FRef [eInputOpaque])]"

definition HasParameters_load :: "load_step list" where
  "HasParameters_load =
     [LoadField ''m_pReturnType'' (FRef [eInputOpaque]), LoadField ''m_pParams'' (FRef [eInputOpaque])]"

definition HasParameters_store :: "store_step list" where
  "HasParameters_store =
     [(''m_pReturnType'', FRef [eInputOpaque]), (''m_pParams'', FRef [eInputOpaque])]"

definition HasDefinition_load :: "load_step list" where
  "HasDefinition_load =
     [LoadField ''m_sourceFile'' (FOptional KString), LoadField ''m_definitionFile'' (FOptional KString)]"

definition HasDefinition_store :: "store_step list" where
  "HasDefinition_store =
     [(''m_sourceFile'', FOptional KString), (''m_definitionFile'', FOptional KString)]"

definition HasInheritance_load :: "load_step list" where
  "HasInheritance_load =
     [LoadField ''m_inheritance'' (FVector [eInputOpaque])]"

definition HasInheritance_store :: "store_step list" where
  "HasInheritance_store =
     [(''m_inheritance'', FVector [eInputOpaque])]"

definition HasVisibility_load :: "load_step list" where
  "HasVisibility_load =
     [LoadField ''m_visibility'' (FPrim KEnum)]"

definition HasVisibility_store :: "store_step list" where
  "HasVisibility_store =
     [(''m_visibility'', FPrim KEnum)]"

definition input_Opaque_load :: "load_step list" where
  "input_Opaque_load =
     [LoadField ''m_bSemantic'' (FPrim KBool), LoadField ''m_str'' (FPrim KString)]"

definition input_Opaque_store :: "store_step list" where
  "input_Opaque_store =
     [(''m_bSemantic'', FPrim KBool), (''m_str'', FPrim KString)]"

definition input_Dimension_load :: "load_step list" where
  "input_Dimension_load =
     HasIdentifier_load @ HasConst_load @ [LoadField ''m_pType'' (FRef [eInputOpaque])]"

definition input_Dimension_store :: "store_step list" where
  "input_Dimension_store =
     HasIdentifier_store @ HasConst_store @ [(''m_pType'', FRef [eInputOpaque])]"

definition input_Include_load :: "load_step list" where
  "input_Include_load =
     HasIdentifier_load @ [LoadField ''m_path'' (FPrim KString), LoadField ''m_bIsEGInclude'' (FPrim KBool),
     LoadField ''m_bIsSystemInclude'' (FPrim KBool)]"

definition input_Include_store :: "store_step list" where
  "input_Include_store =
     HasIdentifier_store @ [(''m_path'', FPrim KString), (''m_bIsEGInclude'', FPrim KBool),
     (''m_bIsSystemInclude'', FPrim KBool)]"

definition input_Using_load :: "load_step list" where
  "input_Using_load =
     HasIdentifier_load @ [LoadField ''m_pType'' (FRef [eInputOpaque])]"

definition input_Using_store :: "store_step list" where
  "input_Using_store =
     HasIdentifier_store @ [(''m_pType'', FRef [eInputOpaque])]"

definition input_Export_load :: "load_step list" where
  "input_Export_load =
     HasIdentifier_load @ [LoadField ''m_pReturnType'' (FRef [eInputOpaque]),
     LoadField ''m_pParameters'' (FRef [eInputOpaque])]"

definition input_Export_store :: "store_step list" where
  "input_Export_store =
     HasIdentifier_store @ [(''m_pReturnType'', FRef [eInputOpaque]), (''m_pParameters'', FRef [eInputOpaque])]"

definition input_Visibility_load :: "load_step list" where
  "input_Visibility_load =
     HasVisibility_load"

definition input_Visibility_store :: "store_step list" where
  "input_Visibility_store =
     HasVisibility_store"

definition input_Context_load :: "load_step list" where
  "input_Context_load =
     HasIdentifier_load @ HasChildren_load @ HasDomain_load @ HasDefinition_load @ HasParameters_load @ HasInheritance_load @
     [LoadField ''m_contextType'' (FPrim KEnum)]"

definition input_Context_store :: "store_step list" where
  "input_Context_store =
     HasIdentifier_store @ HasChildren_store @ HasDomain_store @ HasDefinition_store @ HasParameters_store @ HasInheritance_store @
     [(''m_contextType'', FPrim KEnum)]"

definition input_Root_load :: "load_step list" where
  "input_Root_load =
     input_Context_load @ [LoadField ''m_includePath'' (FOptional KString),
     LoadField ''m_rootType'' (FPrim KEnum)]"

definition input_Root_store :: "store_step list" where
  "input_Root_store =
     input_Context_store @ [(''m_includePath'', FOptional KString), (''m_rootType'', FPrim KEnum)]"

definition Element_load :: "load_step list" where
  "Element_load =
     [LoadField ''m_pElement'' (FRef input_Element), LoadField ''m_pParent'' (FRef interface_Element),
     LoadField ''m_visibility'' (FPrim KEnum), LoadField ''pIncludeIdentifier'' (FRef [eInputInclude]),
     LoadField ''m_children'' (FVector interface_Element)]"

definition Element_store :: "store_step list" where
  "Element_store =
     [(''m_pElement'', FRef input_Element), (''m_pParent'', FRef interface_Element),
     (''m_visibility'', FPrim KEnum), (''pIncludeIdentifier'', FRef [eInputInclude]),
     (''m_children'', FVector interface_Element)]"

definition Opaque_load :: "load_step list" where
  "Opaque_load =
     Element_load @ [CastField ''m_pOpaque'' ''m_pElement'' [eInputOpaque]]"

definition Opaque_store :: "store_step list" where
  "Opaque_store =
     Element_store"

definition Dimension_load :: "load_step list" where
  "Dimension_load =
     Element_load @ [CastField ''m_pDimension'' ''m_pElement'' [eInputDimension],
     LoadField ''m_contextTypes'' (FVector interface_Context), LoadField ''m_canonicalType'' (FPrim KString),
     LoadField ''m_size'' (FPrim KSize), LoadField ''m_simple'' (FPrim KSize)]"

definition Dimension_store :: "store_step list" where
  "Dimension_store =
     Element_store @ [(''m_contextTypes'', FVector interface_Context), (''m_canonicalType'', FPrim KString),
     (''m_size'', FPrim KSize), (''m_simple'', FPrim KSize)]"

definition Using_load :: "load_step list" where
  "Using_load =
     Element_load @ [CastField ''m_pUsing'' ''m_pElement'' [eInputUsing],
     LoadField ''m_canonicalType'' (FPrim KString)]"

definition Using_store :: "store_step list" where
  "Using_store =
     Element_store @ [(''m_canonicalType'', FPrim KString)]"

definition Export_load :: "load_step list" where
  "Export_load =
     Element_load @ [CastField ''m_pExport'' ''m_pElement'' [eInputExport]]"

definition Export_store :: "store_step list" where
  "Export_store =
     Element_store"

definition Include_load :: "load_step list" where
  "Include_load =
     Element_load @ [CastField ''m_pInclude'' ''m_pElement'' [eInputInclude]]"

definition Include_store :: "store_step list" where
  "Include_store =
     Element_store"

definition Context_load :: "load_step list" where
  "Context_load =
     Element_load @ [CastField ''m_pContext'' ''m_pElement'' input_Context,
     LoadField ''m_baseContexts'' (FVector interface_Context), LoadField ''m_parameterTypes'' (FPrim KStrings),
     LoadField ''m_size'' (FPrim KSize), LoadField ''m_definitionFile'' (FOptional KString),
     LoadField ''m_bIndirectlyAbstract'' (FOptional KBool)]"

definition Context_store :: "store_step list" where
  "Context_store =
     Element_store @ [(''m_baseContexts'', FVector interface_Context), (''m_parameterTypes'', FPrim KStrings),
     (''m_size'', FPrim KSize), (''m_definitionFile'', FOptional KString),
     (''m_bIndirectlyAbstract'', FOptional KBool)]"

definition Abstract_load :: "load_step list" where
  "Abstract_load =
     Context_load"

definition Abstract_store :: "store_step list" where
  "Abstract_store =
     Context_store"

definition Event_load :: "load_step list" where
  "Event_load =
     Context_load"

definition Event_store :: "store_step list" where
  "Event_store =
     Context_store"

definition Function_load :: "load_step list" where
  "Function_load =
     Context_load @ [LoadField ''m_strReturnType'' (FPrim KString)]"

definition Function_store :: "store_step list" where
  "Function_store =
     Context_store @ [(''m_strReturnType'', FPrim KString)]"

definition Action_load :: "load_step list" where
  "Action_load =
     Context_load"

definition Action_store :: "store_step list" where
  "Action_store =
     Context_store"

definition Object_load :: "load_step list" where
  "Object_load =
     Context_load"

definition Object_store :: "store_step list" where
  "Object_store =
     Context_store"

definition Link_load :: "load_step list" where
  "Link_load =
     Context_load"

definition Link_store :: "store_step list" where
  "Link_store =
     Context_store"

definition Root_load :: "load_step list" where
  "Root_load =
     Object_load @ [CastField ''m_pRoot'' ''m_pElement'' [eInputRoot], LoadField ''m_rootType'' (FPrim KEnum)]"

definition Root_store :: "store_step list" where
  "Root_store =
     Object_store @ [(''m_rootType'', FPrim KEnum)]"

definition Inheritance_Node_load :: "load_step list" where
  "Inheritance_Node_load =
     [LoadField ''m_pRootConcreteAction'' (FRef [eConcreteAction]),
     LoadField ''m_pContext'' (FRef interface_Context), LoadField ''m_pParent'' (FRef [eInheritanceNode]),
     LoadField ''m_children'' (FVector [eInheritanceNode]), LoadField ''m_actions'' (FVector [eConcreteAction]),
     LoadField ''m_dimensions'' (FVector concrete_Dimension)]"

definition Inheritance_Node_store :: "store_step list" where
  "Inheritance_Node_store =
     [(''m_pRootConcreteAction'', FRef [eConcreteAction]), (''m_pContext'', FRef interface_Context),
     (''m_pParent'', FRef [eInheritanceNode]), (''m_children'', FVector [eInheritanceNode]),
     (''m_actions'', FVector [eConcreteAction]), (''m_dimensions'', FVector concrete_Dimension)]"

definition concrete_Element_load :: "load_step list" where
  "concrete_Element_load =
     [LoadField ''m_pParent'' (FRef concrete_Element), LoadField ''m_pElement'' (FRef interface_Element),
     LoadField ''m_children'' (FVector concrete_Element)]"

definition concrete_Element_store :: "store_step list" where
  "concrete_Element_store =
     [(''m_pParent'', FRef concrete_Element), (''m_pElement'', FRef interface_Element),
     (''m_children'', FVector concrete_Element)]"

definition concrete_Dimension_load :: "load_step list" where
  "concrete_Dimension_load =
     concrete_Element_load"

definition concrete_Dimension_store :: "store_step list" where
  "concrete_Dimension_store =
     concrete_Element_store"

definition Dimension_User_load :: "load_step list" where
  "Dimension_User_load =
     concrete_Dimension_load @ [LoadField ''m_pLinkGroup'' (FRef [eLinkGroup])]"

definition Dimension_User_store :: "store_step list" where
  "Dimension_User_store =
     concrete_Dimension_store @ [(''m_pLinkGroup'', FRef [eLinkGroup])]"

definition Dimension_Generated_load :: "load_step list" where
  "Dimension_Generated_load =
     concrete_Dimension_load @ [LoadField ''m_type'' (FPrim KEnum),
     LoadField ''m_pContext'' (FRef [eConcreteAction]), LoadField ''m_pLinkGroup'' (FRef [eLinkGroup])]"

definition Dimension_Generated_store :: "store_step list" where
  "Dimension_Generated_store =
     concrete_Dimension_store @ [(''m_type'', FPrim KEnum), (''m_pContext'', FRef [eConcreteAction]),
     (''m_pLinkGroup'', FRef [eLinkGroup])]"

definition concrete_Action_load :: "load_step list" where
  "concrete_Action_load =
     concrete_Element_load @ [LoadField ''m_pObject'' (FRef [eConcreteAction]),
     LoadField ''m_inheritance'' (FRef [eInheritanceNode]), LoadField ''m_pAllocator'' (FRef concrete_Allocator),
     LoadField ''m_strName'' (FPrim KString), LoadField ''m_totalDomainSize'' (FPrim KInt),
     LoadField ''m_pStopCycle'' (FRef [eConcreteDimensionGenerated]),
     LoadField ''m_pState'' (FRef [eConcreteDimensionGenerated]),
     LoadField ''m_pReference'' (FRef [eConcreteDimensionGenerated]),
     LoadField ''m_pLinkRefCount'' (FRef [eConcreteDimensionGenerated]),
     LoadField ''m_allocators'' (FMap [eConcreteAction] concrete_Allocator),
     LoadField ''m_links'' (FKeyMap KString [eConcreteDimensionGenerated])]"

definition concrete_Action_store :: "store_step list" where
  "concrete_Action_store =
     concrete_Element_store @ [(''m_pObject'', FRef [eConcreteAction]),
     (''m_inheritance'', FRef [eInheritanceNode]), (''m_pAllocator'', FRef concrete_Allocator),
     (''m_strName'', FPrim KString), (''m_totalDomainSize'', FPrim KInt),
     (''m_pStopCycle'', FRef [eConcreteDimensionGenerated]), (''m_pState'', FRef [eConcreteDimensionGenerated]),
     (''m_pReference'', FRef [eConcreteDimensionGenerated]),
     (''m_pLinkRefCount'', FRef [eConcreteDimensionGenerated]),
     (''m_allocators'', FMap [eConcreteAction] concrete_Allocator),
     (''m_links'', FKeyMap KString [eConcreteDimensionGenerated])]"

definition Allocator_load :: "load_step list" where
  "Allocator_load =
     [LoadField ''m_pContext_Allocated'' (FRef [eConcreteAction]),
     LoadField ''m_pContext_Allocating'' (FRef [eConcreteAction])]"

definition Allocator_store :: "store_step list" where
  "Allocator_store =
     [(''m_pContext_Allocated'', FRef [eConcreteAction]), (''m_pContext_Allocating'', FRef [eConcreteAction])]"

definition NothingAllocator_load :: "load_step list" where
  "NothingAllocator_load =
     Allocator_load"

definition NothingAllocator_store :: "store_step list" where
  "NothingAllocator_store =
     Allocator_store"

definition SingletonAllocator_load :: "load_step list" where
  "SingletonAllocator_load =
     Allocator_load"

definition SingletonAllocator_store :: "store_step list" where
  "SingletonAllocator_store =
     Allocator_store"

definition RangeAllocator_load :: "load_step list" where
  "RangeAllocator_load =
     Allocator_load @ [LoadField ''m_pAllocatorData'' (FRef [eConcreteDimensionGenerated])]"

definition RangeAllocator_store :: "store_step list" where
  "RangeAllocator_store =
     Allocator_store @ [(''m_pAllocatorData'', FRef [eConcreteDimensionGenerated])]"

definition DerivationAnalysis_load :: "load_step list" where
  "DerivationAnalysis_load =
     [LoadField ''m_instanceMap'' (FMultimap interface_Element concrete_Element),
     LoadField ''m_inheritanceMap'' (FMultimap interface_Context [eInheritanceNode]),
     LoadField ''m_compatibility'' FCompatibility]"

definition DerivationAnalysis_store :: "store_step list" where
  "DerivationAnalysis_store =
     [(''m_instanceMap'', FMultimap interface_Element concrete_Element),
     (''m_inheritanceMap'', FMultimap interface_Context [eInheritanceNode]),
     (''m_compatibility'', FCompatibility)]"

definition Identifiers_load :: "load_step list" where
  "Identifiers_load =
     [LoadField ''m_identifierMap'' (FKeyMap KString interface_Element),
     LoadField ''m_identifierGroups'' (FIdentifierMultimap interface_Element interface_Element),
     LoadField ''m_identifierGroupsBack'' (FIdentifierMap interface_Element interface_Element)]"

definition Identifiers_store :: "store_step list" where
  "Identifiers_store =
     [(''m_identifierMap'', FKeyMap KString interface_Element),
     (''m_identifierGroups'', FIdentifierMultimap interface_Element interface_Element),
     (''m_identifierGroupsBack'', FIdentifierMap interface_Element interface_Element)]"

definition LinkGroup_load :: "load_step list" where
  "LinkGroup_load =
     [LoadField ''m_name'' (FPrim KString), LoadField ''m_links'' (FVector [eAbstractLink]),
     LoadField ''m_interfaceTargets'' (FVector interface_Context),
     LoadField ''m_concreteTargets'' (FVector [eConcreteAction]),
     LoadField ''m_concreteLinks'' (FVector [eConcreteAction]),
     LoadField ''m_dimensionMap'' (FMap [eConcreteAction] [eConcreteDimensionGenerated])]"

definition LinkGroup_store :: "store_step list" where
  "LinkGroup_store =
     [(''m_name'', FPrim KString), (''m_links'', FVector [eAbstractLink]),
     (''m_interfaceTargets'', FVector interface_Context), (''m_concreteTargets'', FVector [eConcreteAction]),
     (''m_concreteLinks'', FVector [eConcreteAction]),
     (''m_dimensionMap'', FMap [eConcreteAction] [eConcreteDimensionGenerated])]"

definition LinkAnalysis_load :: "load_step list" where
  "LinkAnalysis_load =
     [LoadField ''m_groups'' (FVector [eLinkGroup])]"

definition LinkAnalysis_store :: "store_step list" where
  "LinkAnalysis_store =
     [(''m_groups'', FVector [eLinkGroup])]"

definition TranslationUnit_load :: "load_step list" where
  "TranslationUnit_load =
     [LoadField ''pCoordinator'' (FRef [eAbstractRoot]), LoadField ''pHostName'' (FRef [eAbstractRoot]),
     LoadField ''definitionFile'' (FOptional KString), LoadField ''m_strName'' (FPrim KString),
     LoadField ''m_databaseFileID'' (FPrim KInt), LoadField ''m_actions'' (FSet interface_Context)]"

definition TranslationUnit_store :: "store_step list" where
  "TranslationUnit_store =
     [(''pCoordinator'', FRef [eAbstractRoot]), (''pHostName'', FRef [eAbstractRoot]),
     (''definitionFile'', FOptional KString), (''m_strName'', FPrim KString), (''m_databaseFileID'', FPrim KInt),
     (''m_actions'', FSet interface_Context)]"

definition TranslationUnitAnalysis_load :: "load_step list" where
  "TranslationUnitAnalysis_load =
     [LoadField ''m_translationUnits'' (FVector [eTranslationUnit]),
     LoadField ''m_actionTUMap'' (FMap interface_Context [eTranslationUnit])]"

definition TranslationUnitAnalysis_store :: "store_step list" where
  "TranslationUnitAnalysis_store =
     [(''m_translationUnits'', FVector [eTranslationUnit]),
     (''m_actionTUMap'', FMap interface_Context [eTranslationUnit])]"

definition InvocationSolution_load :: "load_step list" where
  "InvocationSolution_load =
     [LoadField ''Context'' (FVector interface_Element), LoadField ''TypePath'' (FVectorVector interface_Element),
     LoadField ''OperationID'' (FPrim KEnum), LoadField ''m_implicitTypePath'' (FPrim KInts),
     LoadField ''m_context'' (FPairs interface_Element concrete_Element),
     LoadField ''m_typePath'' (FPairsVector interface_Element concrete_Element),
     LoadField ''m_returnTypes'' (FVector interface_Element),
     LoadField ''m_parameterTypes'' (FVector interface_Element), LoadField ''m_bDimensions'' (FPrim KBool),
     LoadField ''m_bHomogeneousDimensions'' (FPrim KBool), LoadField ''m_explicitOperation'' (FPrim KEnum),
     LoadField ''m_pRoot'' FTree]"

definition InvocationSolution_store :: "store_step list" where
  "InvocationSolution_store =
     [(''Context'', FVector interface_Element), (''TypePath'', FVectorVector interface_Element),
     (''OperationID'', FPrim KEnum), (''m_implicitTypePath'', FPrim KInts),
     (''m_context'', FPairs interface_Element concrete_Element),
     (''m_typePath'', FPairsVector interface_Element concrete_Element),
     (''m_returnTypes'', FVector interface_Element), (''m_parameterTypes'', FVector interface_Element),
     (''m_bDimensions'', FPrim KBool), (''m_bHomogeneousDimensions'', FPrim KBool),
     (''m_explicitOperation'', FPrim KEnum), (''m_pRoot'', FTree)]"

definition DataMember_load :: "load_step list" where
  "DataMember_load =
     [LoadField ''m_pDimension'' (FRef concrete_Dimension), LoadField ''m_name'' (FPrim KString),
     LoadField ''m_pBuffer'' (FRef [eBuffer])]"

definition DataMember_store :: "store_step list" where
  "DataMember_store =
     [(''m_pDimension'', FRef concrete_Dimension), (''m_name'', FPrim KString), (''m_pBuffer'', FRef [eBuffer])]"

definition Buffer_load :: "load_step list" where
  "Buffer_load =
     [LoadField ''m_pContext'' (FRef [eConcreteAction]), LoadField ''m_size'' (FPrim KSize),
     LoadField ''m_name'' (FPrim KString), LoadField ''m_variable'' (FPrim KString),
     LoadField ''m_simple'' (FPrim KBool), LoadField ''m_dataMembers'' (FVector [eDataMember])]"

definition Buffer_store :: "store_step list" where
  "Buffer_store =
     [(''m_pContext'', FRef [eConcreteAction]), (''m_size'', FPrim KSize), (''m_name'', FPrim KString),
     (''m_variable'', FPrim KString), (''m_simple'', FPrim KBool), (''m_dataMembers'', FVector [eDataMember])]"

definition Layout_load :: "load_step list" where
  "Layout_load =
     [LoadField ''m_buffers'' (FVector [eBuffer]),
     LoadField ''m_dimensionMap'' (FMap concrete_Dimension [eDataMember])]"

definition Layout_store :: "store_step list" where
  "Layout_store =
     [(''m_buffers'', FVector [eBuffer]), (''m_dimensionMap'', FMap concrete_Dimension [eDataMember])]"

text \<open>The member that a call of \<open>load\<close> or \<open>store\<close> on an object of a type reaches.\<close>

fun load_steps :: "ObjectType \<Rightarrow> load_step list" where
  "load_steps eInputOpaque = input_Opaque_load"
| "load_steps eInputDimension = input_Dimension_load"
| "load_steps eInputInclude = input_Include_load"
| "load_steps eInputUsing = input_Using_load"
| "load_steps eInputExport = input_Export_load"
| "load_steps eInputVisibility = input_Visibility_load"
| "load_steps eInputContext = input_Context_load"
| "load_steps eInputRoot = input_Root_load"
| "load_steps eAbstractOpaque = Opaque_load"
| "load_steps eAbstractDimension = Dimension_load"
| "load_steps eAbstractInclude = Include_load"
| "load_steps eAbstractUsing = Using_load"
| "load_steps eAbstractExport = Export_load"
| "load_steps eAbstractAbstract = Abstract_load"
| "load_steps eAbstractEvent = Event_load"
| "load_steps eAbstractFunction = Function_load"
| "load_steps eAbstractAction = Action_load"
| "load_steps eAbstractObject = Object_load"
| "load_steps eAbstractLink = Link_load"
| "load_steps eAbstractRoot = Root_load"
| "load_steps eInheritanceNode = Inheritance_Node_load"
| "load_steps eConcreteAction = concrete_Action_load"
| "load_steps eConcreteDimensionUser = Dimension_User_load"
| "load_steps eConcreteDimensionGenerated = Dimension_Generated_load"
| "load_steps eConcreteAllocator_Nothing = NothingAllocator_load"
| "load_steps eConcreteAllocator_Singleton = SingletonAllocator_load"
| "load_steps eConcreteAllocator_Range = RangeAllocator_load"
| "load_steps eIdentifiers = Identifiers_load"
| "load_steps eDerivationAnalysis = DerivationAnalysis_load"
| "load_steps eLinkGroup = LinkGroup_load"
| "load_steps eLinkAnalysis = LinkAnalysis_load"
| "load_steps eTranslationUnit = TranslationUnit_load"
| "load_steps eTranslationUnitAnalysis = TranslationUnitAnalysis_load"
| "load_steps eInvocationSolution = InvocationSolution_load"
| "load_steps eDataMember = DataMember_load"
| "load_steps eBuffer = Buffer_load"
| "load_steps eLayout = Layout_load"

fun store_steps :: "ObjectType \<Rightarrow> store_step list" where
  "store_steps eInputOpaque = input_Opaque_store"
| "store_steps eInputDimension = input_Dimension_store"
| "store_steps eInputInclude = input_Include_store"
| "store_steps eInputUsing = input_Using_store"
| "store_steps eInputExport = input_Export_store"
| "store_steps eInputVisibility = input_Visibility_store"
| "store_steps eInputContext = input_Context_store"
| "store_steps eInputRoot = input_Root_store"
| "store_steps eAbstractOpaque = Opaque_store"
| "store_steps eAbstractDimension = Dimension_store"
| "store_steps eAbstractInclude = Include_store"
| "store_steps eAbstractUsing = Using_store"
| "store_steps eAbstractExport = Export_store"
| "store_steps eAbstractAbstract = Abstract_store"
| "store_steps eAbstractEvent = Event_store"
| "store_steps eAbstractFunction = Function_store"
| "store_steps eAbstractAction = Action_store"
| "store_steps eAbstractObject = Object_store"
| "store_steps eAbstractLink = Link_store"
| "store_steps eAbstractRoot = Root_store"
| "store_steps eInheritanceNode = Inheritance_Node_store"
| "store_steps eConcreteAction = concrete_Action_store"
| "store_steps eConcreteDimensionUser = Dimension_User_store"
| "store_steps eConcreteDimensionGenerated = Dimension_Generated_store"
| "store_steps eConcreteAllocator_Nothing = NothingAllocator_store"
| "store_steps eConcreteAllocator_Singleton = SingletonAllocator_store"
| "store_steps eConcreteAllocator_Range = RangeAllocator_store"
| "store_steps eIdentifiers = Identifiers_store"
| "store_steps eDerivationAnalysis = DerivationAnalysis_store"
| "store_steps eLinkGroup = LinkGroup_store"
| "store_steps eLinkAnalysis = LinkAnalysis_store"
| "store_steps eTranslationUnit = TranslationUnit_store"
| "store_steps eTranslationUnitAnalysis = TranslationUnitAnalysis_store"
| "store_steps eInvocationSolution = InvocationSolution_store"
| "store_steps eDataMember = DataMember_store"
| "store_steps eBuffer = Buffer_store"
| "store_steps eLayout = Layout_store"

lemmas class_steps =
  HasIdentifier_load_def HasIdentifier_store_def HasConst_load_def HasConst_store_def
  HasChildren_load_def HasChildren_store_def HasDomain_load_def HasDomain_store_def
  HasParameters_load_def HasParameters_store_def HasDefinition_load_def HasDefinition_store_def
  HasInheritance_load_def HasInheritance_store_def HasVisibility_load_def HasVisibility_store_def
  input_Opaque_load_def input_Opaque_store_def input_Dimension_load_def input_Dimension_store_def
  input_Include_load_def input_Include_store_def input_Using_load_def input_Using_store_def
  input_Export_load_def input_Export_store_def input_Visibility_load_def input_Visibility_store_def
  input_Context_load_def input_Context_store_def input_Root_load_def input_Root_store_def
  Element_load_def Element_store_def Opaque_load_def Opaque_store_def Dimension_load_def
  Dimension_store_def Using_load_def Using_store_def Export_load_def Export_store_def
  Include_load_def Include_store_def Context_load_def Context_store_def Abstract_load_def
  Abstract_store_def Event_load_def Event_store_def Function_load_def Function_store_def
  Action_load_def Action_store_def Object_load_def Object_store_def Link_load_def Link_store_def
  Root_load_def Root_store_def Inheritance_Node_load_def Inheritance_Node_store_def
  concrete_Element_load_def concrete_Element_store_def concrete_Dimension_load_def
  concrete_Dimension_store_def Dimension_User_load_def Dimension_User_store_def
  Dimension_Generated_load_def Dimension_Generated_store_def concrete_Action_load_def
  concrete_Action_store_def Allocator_load_def Allocator_store_def NothingAllocator_load_def
  NothingAllocator_store_def SingletonAllocator_load_def SingletonAllocator_store_def
  RangeAllocator_load_def RangeAllocator_store_def DerivationAnalysis_load_def
  DerivationAnalysis_store_def Identifiers_load_def Identifiers_store_def LinkGroup_load_def
  LinkGroup_store_def LinkAnalysis_load_def LinkAnalysis_store_def TranslationUnit_load_def
  TranslationUnit_store_def TranslationUnitAnalysis_load_def TranslationUnitAnalysis_store_def
  InvocationSolution_load_def InvocationSolution_store_def DataMember_load_def DataMember_store_def
  Buffer_load_def Buffer_store_def Layout_load_def Layout_store_def

section \<open>Loading and storing an object\<close>

definition cast_field :: "ObjectType object_table \<Rightarrow> object_class \<Rightarrow> field_value option \<Rightarrow> field_value result" where
  "cast_field files c v =
     (case v of
        Some (VRef None) \<Rightarrow> Inr (VRef None)
      | Some (VRef (Some (f, i))) \<Rightarrow> bindR (verify (find_object files c f i)) (\<lambda>_. Inr (VRef (Some (f, i))))
      | _ \<Rightarrow> Inl UndefinedBehaviour)"

fun run_load ::
  "nat \<Rightarrow> 'b decoder \<Rightarrow> ObjectType object_table \<Rightarrow> identifier_of \<Rightarrow> load_step list \<Rightarrow> members \<Rightarrow> ('b, members) loading" where
  "run_load n dec files ident [] o' bs = Inr (o', bs)"
| "run_load n dec files ident (LoadField x k # ss) o' bs =
     bindR (load_field n dec files ident k bs) (\<lambda>(v, bs). run_load n dec files ident ss (o'(x \<mapsto> v)) bs)"
| "run_load n dec files ident (CastField x y c # ss) o' bs =
     bindR (cast_field files c (o' y)) (\<lambda>v. run_load n dec files ident ss (o'(x \<mapsto> v)) bs)"

text \<open>A member that was never assigned is not there: to store it is undefined.\<close>

fun run_store :: "'b encoder \<Rightarrow> store_step list \<Rightarrow> members \<Rightarrow> 'b list result" where
  "run_store enc [] o' = Inr []"
| "run_store enc ((x, k) # ss) o' =
     bindR (of_option UndefinedBehaviour (o' x)) (\<lambda>v. bindR (store_field enc k v) (\<lambda>bs.
     bindR (run_store enc ss o') (\<lambda>bs'. Inr (bs @ bs'))))"

text \<open>The calls of \<open>load\<close> and \<open>store\<close> on an object of a type.\<close>

definition load_members ::
  "nat \<Rightarrow> 'b decoder \<Rightarrow> ObjectType object_table \<Rightarrow> identifier_of \<Rightarrow> ObjectType \<Rightarrow> ('b, members) loading" where
  "load_members n dec files ident t = run_load n dec files ident (load_steps t) Map.empty"

definition store_members :: "'b encoder \<Rightarrow> ObjectType \<Rightarrow> members \<Rightarrow> 'b list result" where
  "store_members enc t = run_store enc (store_steps t)"

section \<open>Load and store agree\<close>

text \<open>The fields that \<open>load\<close> reads are those that \<open>store\<close> writes, in the same order and with the same classes, and
  no member is read twice.\<close>

fun fields_of :: "load_step list \<Rightarrow> store_step list" where
  "fields_of [] = []"
| "fields_of (LoadField x k # ss) = (x, k) # fields_of ss"
| "fields_of (CastField x y c # ss) = fields_of ss"

fun targets_of :: "load_step list \<Rightarrow> string list" where
  "targets_of [] = []"
| "targets_of (LoadField x k # ss) = x # targets_of ss"
| "targets_of (CastField x y c # ss) = x # targets_of ss"

lemma fields_of_append [simp]: "fields_of (ss @ ss') = fields_of ss @ fields_of ss'"
  by (induction ss rule: fields_of.induct) simp_all

lemma targets_of_append [simp]: "targets_of (ss @ ss') = targets_of ss @ targets_of ss'"
  by (induction ss rule: targets_of.induct) simp_all

lemma store_steps_fields: "store_steps t = fields_of (load_steps t)"
  by (cases t; simp only: load_steps.simps store_steps.simps; simp add: class_steps)

lemma load_steps_distinct: "distinct (targets_of (load_steps t))"
  by (cases t; simp only: load_steps.simps; simp add: class_steps)

section \<open>The round trip of a member\<close>

definition class_ok :: "ObjectType object_table \<Rightarrow> object_class \<Rightarrow> pointer list \<Rightarrow> bool" where
  "class_ok files c ps \<longleftrightarrow> counted ps \<and> list_all (pointer_ok files c) ps"

definition pairs_ok :: "ObjectType object_table \<Rightarrow> object_class \<Rightarrow> object_class \<Rightarrow> (pointer \<times> pointer) list \<Rightarrow> bool" where
  "pairs_ok files c d m \<longleftrightarrow> counted m \<and> list_all (\<lambda>(p, q). pointer_ok files c p \<and> pointer_ok files d q) m"

definition set_ok :: "ObjectType object_table \<Rightarrow> object_class \<Rightarrow> pointer list \<Rightarrow> bool" where
  "set_ok files c ps \<longleftrightarrow> class_ok files c ps \<and> map_sorted pointer_key (map (\<lambda>p. (p, ())) ps) \<and> pointers_set (map (\<lambda>p. (p, ())) ps)"

definition identifiers_known :: "identifier_of \<Rightarrow> (pointer \<times> pointer) list \<Rightarrow> bool" where
  "identifiers_known ident m \<longleftrightarrow> list_all (\<lambda>e. \<exists>s. ident (fst e) = Inr s) m"

fun field_ok :: "nat \<Rightarrow> ObjectType object_table \<Rightarrow> identifier_of \<Rightarrow> field_kind \<Rightarrow> field_value \<Rightarrow> bool" where
  "field_ok n files ident (FPrim k) v = (case v of VPrim x \<Rightarrow> kind_of x = k | _ \<Rightarrow> False)"
| "field_ok n files ident (FOptional k) v = (case v of VOptional x \<Rightarrow> pred_option (\<lambda>x. kind_of x = k) x | _ \<Rightarrow> False)"
| "field_ok n files ident (FRef c) v = (case v of VRef p \<Rightarrow> pointer_ok files c p | _ \<Rightarrow> False)"
| "field_ok n files ident (FVector c) v = (case v of VRefs ps \<Rightarrow> class_ok files c ps | _ \<Rightarrow> False)"
| "field_ok n files ident (FVectorVector c) v = (case v of VRefss pss \<Rightarrow> counted pss \<and> list_all (class_ok files c) pss | _ \<Rightarrow> False)"
| "field_ok n files ident (FSet c) v = (case v of VRefs ps \<Rightarrow> set_ok files c ps | _ \<Rightarrow> False)"
| "field_ok n files ident (FMap c d) v =
     (case v of VPairs m \<Rightarrow> pairs_ok files c d m \<and> map_sorted pointer_key m \<and> pointers_set m | _ \<Rightarrow> False)"
| "field_ok n files ident (FMultimap c d) v =
     (case v of VPairs m \<Rightarrow> pairs_ok files c d m \<and> mm_sorted pointer_key m \<and> pointers_set m | _ \<Rightarrow> False)"
| "field_ok n files ident (FKeyMap k c) v =
     (case v of VKeyMap m \<Rightarrow> counted m \<and> list_all (\<lambda>(x, q). kind_of x = k \<and> pointer_ok files c q) m \<and> map_sorted prim_key m | _ \<Rightarrow> False)"
| "field_ok n files ident (FIdentifierMap c d) v =
     (case v of VPairs m \<Rightarrow> pairs_ok files c d m \<and> identifiers_known ident m \<and> map_sorted (ident_key ident) m | _ \<Rightarrow> False)"
| "field_ok n files ident (FIdentifierMultimap c d) v =
     (case v of VPairs m \<Rightarrow> pairs_ok files c d m \<and> identifiers_known ident m \<and> mm_sorted (ident_key ident) m | _ \<Rightarrow> False)"
| "field_ok n files ident FCompatibility v =
     (case v of VCompatibility m \<Rightarrow>
        counted m \<and> list_all (\<lambda>(p, ss). pointer_ok files interface_Context p \<and> list_all2 (set_ok files) compatibility_sets ss) m \<and>
        map_sorted pointer_key m \<and> pointers_set m
      | _ \<Rightarrow> False)"
| "field_ok n files ident (FPairs c d) v = (case v of VPairs m \<Rightarrow> pairs_ok files c d m | _ \<Rightarrow> False)"
| "field_ok n files ident (FPairsVector c d) v = (case v of VPairss ms \<Rightarrow> counted ms \<and> list_all (pairs_ok files c d) ms | _ \<Rightarrow> False)"
| "field_ok n files ident FTree v =
     (case v of VTree i \<Rightarrow> stored_ok files i \<and> tree_size i + length (tree_variables i) \<le> n | _ \<Rightarrow> False)"

text \<open>A loaded member is the stored one; the variables of a loaded tree have new addresses.\<close>

fun same_field :: "field_value \<Rightarrow> field_value \<Rightarrow> bool" where
  "same_field (VTree i) v = (\<exists>\<rho>. inj \<rho> \<and> v = VTree (reload_tree \<rho> i))"
| "same_field u v = (v = u)"

lemma foldR_insert_ident_map:
  assumes "map_sorted (ident_key ident) es" and "identifiers_known ident es"
  shows "foldR (insert_ident_map ident) es [] = Inr es"
proof (rule foldR_append_last)
  fix m e m' assume e: "es = m @ e # m'"
  have "map_insert_new (ident_key ident) (fst e) (snd e) m = m @ [e]"
    using map_insert_new_last [of "ident_key ident" m "fst e" "snd e" m'] assms(1) e by simp
  moreover have "\<exists>ss. mapR ident (fst e # map fst m) = Inr ss"
    using assms(2) e by (intro mapR_total) (auto simp: identifiers_known_def list_all_iff)
  ultimately show "insert_ident_map ident e m = Inr (m @ [e])" by (auto simp: insert_ident_map_def ident_insert_def)
qed

lemma foldR_insert_ident_multimap:
  assumes "mm_sorted (ident_key ident) es" and "identifiers_known ident es"
  shows "foldR (insert_ident_multimap ident) es [] = Inr es"
proof (rule foldR_append_last)
  fix m e m' assume e: "es = m @ e # m'"
  have "\<forall>x \<in> set m. ident_key ident (fst x) \<le> ident_key ident (fst e)"
    using assms(1) e by (auto simp: mm_sorted_def sorted_append)
  from mm_insert_last [OF this] have "mm_insert (ident_key ident) (fst e) (snd e) m = m @ [e]" by simp
  moreover have "\<exists>ss. mapR ident (fst e # map fst m) = Inr ss"
    using assms(2) e by (intro mapR_total) (auto simp: identifiers_known_def list_all_iff)
  ultimately show "insert_ident_multimap ident e m = Inr (m @ [e])" by (auto simp: insert_ident_multimap_def ident_insert_def)
qed

lemma loaded_reads: "reads f g P \<Longrightarrow> P x \<Longrightarrow> loaded c f (g x @ rest) = Inr (c x, rest)"
  by (simp add: loaded_def readsD)

context archive
begin

lemma load_sets_back:
  assumes "list_all2 (set_ok files) cs ss"
  shows "load_sets dec files cs (concat (map (storeObjectSet enc) ss) @ rest) = Inr (ss, rest)"
  using assms
proof (induction cs ss rule: list_all2_induct)
  case (Cons c cs s ss)
  then have "loadObjectSet dec files c (storeObjectSet enc s @ rest') = Inr (s, rest')" for rest'
    by (intro readsD [OF loadObjectSet_reads]) (simp add: set_ok_def class_ok_def list_all_iff)
  with Cons.IH show ?case by simp
qed simp

lemma load_compatibility_back:
  assumes "field_ok n files ident FCompatibility (VCompatibility m)"
  shows "load_compatibility dec files (store_counted enc (store_compatibility enc) m @ rest) = Inr (m, rest)"
proof -
  let ?P = "\<lambda>(p, ss). pointer_ok files interface_Context p \<and> list_all2 (set_ok files) compatibility_sets ss"
  have "reads (load_pair (loadObjectRef dec files interface_Context) (load_sets dec files compatibility_sets))
      (\<lambda>(p, ss). storeObjectRef enc p @ concat (map (storeObjectSet enc) ss)) ?P"
    by (rule load_pair_reads [OF loadObjectRef_reads]) (simp add: reads_def load_sets_back)
  from readsD [OF load_counted_reads [OF this], of m rest] assms show ?thesis
    by (simp add: load_compatibility_def loading_into_def foldR_insert_map store_counted_def store_compatibility_def [abs_def]
        list_all_iff split_def)
qed

lemma load_pairs_back: "pairs_ok files c d m \<Longrightarrow> load_pairs dec files c d (storeObjectMap enc m @ rest) = Inr (m, rest)"
  by (rule readsD [OF load_pairs_reads]) (simp add: pairs_ok_def list_all_iff)

lemma load_pairs_vector_back:
  assumes "counted ms" and "list_all (pairs_ok files c d) ms"
  shows "load_counted dec (load_pairs dec files c d) (store_counted enc (storeObjectMap enc) ms @ rest) = Inr (ms, rest)"
proof -
  have "reads (load_pairs dec files c d) (storeObjectMap enc) (pairs_ok files c d)"
    by (simp add: reads_def load_pairs_back)
  from readsD [OF load_counted_reads [OF this]] assms show ?thesis by (simp add: store_counted_def list_all_iff)
qed

lemma field_back:
  assumes "field_ok n files ident k v" and "k \<noteq> FTree"
  shows "\<exists>bs. store_field enc k v = Inr bs \<and> (\<forall>rest. load_field n dec files ident k (bs @ rest) = Inr (v, rest))"
proof (cases k)
  case (FPrim k')
  with assms show ?thesis by (auto simp: loaded_def readsD [OF load_prim_reads] split: field_value.splits)
next
  case (FOptional k')
  with assms show ?thesis by (auto simp: loaded_def readsD [OF loadOptional_reads] option.pred_set split: field_value.splits option.splits)
next
  case (FRef c)
  with assms show ?thesis by (auto simp: loaded_def readsD [OF loadObjectRef_reads] split: field_value.splits)
next
  case (FVector c)
  with assms show ?thesis by (auto simp: loaded_def readsD [OF loadObjectVector_reads] class_ok_def list_all_iff split: field_value.splits)
next
  case (FVectorVector c)
  with assms show ?thesis by (auto simp: loaded_def readsD [OF loadObjectVectorVector_reads] class_ok_def list_all_iff split: field_value.splits)
next
  case (FSet c)
  with assms show ?thesis by (auto simp: loaded_def readsD [OF loadObjectSet_reads] set_ok_def class_ok_def list_all_iff split: field_value.splits)
next
  case (FMap c d)
  with assms show ?thesis by (auto simp: loaded_def readsD [OF loadObjectMap_reads] pairs_ok_def list_all_iff split: field_value.splits)
next
  case (FMultimap c d)
  with assms show ?thesis by (auto simp: loaded_def readsD [OF loadObjectMultimap_reads] pairs_ok_def list_all_iff split: field_value.splits)
next
  case (FKeyMap k' c)
  with assms show ?thesis by (auto simp: loaded_def readsD [OF loadKeyObjectMap_reads] list_all_iff split: field_value.splits)
next
  case (FIdentifierMap c d)
  with assms show ?thesis
    by (auto simp: loaded_def loading_into_def load_pairs_back foldR_insert_ident_map split: field_value.splits)
next
  case (FIdentifierMultimap c d)
  with assms show ?thesis
    by (auto simp: loaded_def loading_into_def load_pairs_back foldR_insert_ident_multimap split: field_value.splits)
next
  case FCompatibility
  with assms load_compatibility_back [of n files ident] show ?thesis by (auto simp: loaded_def split: field_value.splits)
next
  case (FPairs c d)
  with assms show ?thesis by (auto simp: loaded_def load_pairs_back split: field_value.splits)
next
  case (FPairsVector c d)
  with assms show ?thesis by (auto simp: loaded_def load_pairs_vector_back split: field_value.splits)
qed (use assms(2) in simp)

lemma same_field_refl: "k \<noteq> FTree \<Longrightarrow> field_ok n files ident k v \<Longrightarrow> same_field v v"
  by (cases v; cases k) simp_all

lemma field_round_trip:
  assumes "field_ok n files ident k v"
  shows "\<exists>bs v'. store_field enc k v = Inr bs \<and> same_field v v' \<and>
    (\<forall>rest. load_field n dec files ident k (bs @ rest) = Inr (v', rest))"
proof (cases "k = FTree")
  case True
  with assms obtain i where i: "v = VTree i" "stored_ok files i" "tree_size i + length (tree_variables i) \<le> n"
    by (auto split: field_value.splits)
  from stored_tree_loads [OF archive_axioms i(2,3)] True i(1) show ?thesis by (fastforce simp: loaded_def)
next
  case False
  from field_back [OF assms False] same_field_refl [OF False assms] show ?thesis by blast
qed

end


section \<open>The round trip of an object\<close>

fun casts_of :: "load_step list \<Rightarrow> (string \<times> string \<times> object_class) list" where
  "casts_of [] = []"
| "casts_of (LoadField x k # ss) = casts_of ss"
| "casts_of (CastField x y c # ss) = (x, y, c) # casts_of ss"

text \<open>A cast is of a member that is loaded before.\<close>

fun casts_follow :: "string set \<Rightarrow> load_step list \<Rightarrow> bool" where
  "casts_follow xs [] \<longleftrightarrow> True"
| "casts_follow xs (LoadField x k # ss) \<longleftrightarrow> casts_follow (insert x xs) ss"
| "casts_follow xs (CastField x y c # ss) \<longleftrightarrow> y \<in> xs \<and> casts_follow (insert x xs) ss"

lemma load_steps_casts: "casts_follow {} (load_steps t)"
  by (cases t; simp only: load_steps.simps; simp add: class_steps)

definition member_ok :: "nat \<Rightarrow> ObjectType object_table \<Rightarrow> identifier_of \<Rightarrow> members \<Rightarrow> string \<times> field_kind \<Rightarrow> bool" where
  "member_ok n files ident o' e \<longleftrightarrow> pred_option (field_ok n files ident (snd e)) (o' (fst e)) \<and> o' (fst e) \<noteq> None"

definition cast_ok :: "ObjectType object_table \<Rightarrow> members \<Rightarrow> string \<times> string \<times> object_class \<Rightarrow> bool" where
  "cast_ok files o' e = (case e of (x, y, c) \<Rightarrow> o' x = o' y \<and> (case o' y of Some (VRef p) \<Rightarrow> pointer_ok files c p | _ \<Rightarrow> False))"

text \<open>The members of an object of a type: those that \<open>load\<close> assigns, each with a value of its kind.\<close>

definition members_ok :: "nat \<Rightarrow> ObjectType object_table \<Rightarrow> identifier_of \<Rightarrow> ObjectType \<Rightarrow> members \<Rightarrow> bool" where
  "members_ok n files ident t o' \<longleftrightarrow>
     list_all (member_ok n files ident o') (fields_of (load_steps t)) \<and>
     list_all (cast_ok files o') (casts_of (load_steps t)) \<and>
     (\<forall>x. x \<notin> set (targets_of (load_steps t)) \<longrightarrow> o' x = None)"

definition same_members :: "members \<Rightarrow> members \<Rightarrow> bool" where
  "same_members u v \<longleftrightarrow> (\<forall>x. rel_option same_field (u x) (v x))"

lemma same_field_ref: "same_field (VRef p) v \<longleftrightarrow> v = VRef p"
  by simp

lemma cast_back:
  assumes "cast_ok files u (x, y, c)" and "rel_option same_field (u y) (v y)"
  shows "\<exists>w. cast_field files c (v y) = Inr w \<and> rel_option same_field (u x) (Some w)"
proof -
  from assms(1) obtain p where p: "u x = Some (VRef p)" "u y = Some (VRef p)" "pointer_ok files c p"
    by (auto simp: cast_ok_def split: option.splits field_value.splits)
  with assms(2) have "v y = Some (VRef p)" by (cases "v y") simp_all
  with p show ?thesis by (auto simp: cast_field_def pointer_ok_def split: option.splits)
qed

context archive
begin

lemma run_round_trip:
  assumes "list_all (member_ok n files ident u) (fields_of ss)" and "list_all (cast_ok files u) (casts_of ss)"
    and "casts_follow xs ss" and "\<forall>x \<in> xs. rel_option same_field (u x) (v x)"
  shows "\<exists>bs v'. run_store enc (fields_of ss) u = Inr bs \<and> (\<forall>rest. run_load n dec files ident ss v (bs @ rest) = Inr (v', rest)) \<and>
    (\<forall>x \<in> xs \<union> set (targets_of ss). rel_option same_field (u x) (v' x)) \<and>
    (\<forall>x. x \<notin> set (targets_of ss) \<longrightarrow> v' x = v x)"
  using assms
proof (induction ss arbitrary: xs v)
  case (Cons s ss)
  show ?case
  proof (cases s)
    case (LoadField x k)
    with Cons.prems(1) obtain w where w: "u x = Some w" "field_ok n files ident k w"
      by (auto simp: member_ok_def)
    from field_round_trip [OF w(2)] obtain bs w' where f: "store_field enc k w = Inr bs" "same_field w w'"
      "\<And>rest. load_field n dec files ident k (bs @ rest) = Inr (w', rest)" by blast
    from Cons.prems LoadField f(2) w(1) have "\<exists>bs v'. run_store enc (fields_of ss) u = Inr bs \<and>
        (\<forall>rest. run_load n dec files ident ss (v(x \<mapsto> w')) (bs @ rest) = Inr (v', rest)) \<and>
        (\<forall>y \<in> insert x xs \<union> set (targets_of ss). rel_option same_field (u y) (v' y)) \<and>
        (\<forall>y. y \<notin> set (targets_of ss) \<longrightarrow> v' y = (v(x \<mapsto> w')) y)"
      by (intro Cons.IH) simp_all
    with LoadField f(1,3) w(1) show ?thesis by fastforce
  next
    case (CastField x y c)
    with Cons.prems(2-4) cast_back [of files u x y c v] obtain w
      where w: "cast_field files c (v y) = Inr w" "rel_option same_field (u x) (Some w)" by auto
    from Cons.prems CastField w(2) have "\<exists>bs v'. run_store enc (fields_of ss) u = Inr bs \<and>
        (\<forall>rest. run_load n dec files ident ss (v(x \<mapsto> w)) (bs @ rest) = Inr (v', rest)) \<and>
        (\<forall>y \<in> insert x xs \<union> set (targets_of ss). rel_option same_field (u y) (v' y)) \<and>
        (\<forall>y. y \<notin> set (targets_of ss) \<longrightarrow> v' y = (v(x \<mapsto> w)) y)"
      by (intro Cons.IH) simp_all
    with CastField w(1) show ?thesis by fastforce
  qed
qed simp

lemma members_round_trip:
  assumes "members_ok n files ident t u"
  shows "\<exists>bs v. store_members enc t u = Inr bs \<and> same_members u v \<and>
    (\<forall>rest. load_members n dec files ident t (bs @ rest) = Inr (v, rest))"
proof -
  from assms have "list_all (member_ok n files ident u) (fields_of (load_steps t))"
    "list_all (cast_ok files u) (casts_of (load_steps t))" and out: "\<forall>x. x \<notin> set (targets_of (load_steps t)) \<longrightarrow> u x = None"
    by (simp_all add: members_ok_def)
  from run_round_trip [OF this(1,2) load_steps_casts, of Map.empty] obtain bs v where
    1: "run_store enc (fields_of (load_steps t)) u = Inr bs"
    and 2: "\<And>rest. run_load n dec files ident (load_steps t) Map.empty (bs @ rest) = Inr (v, rest)"
    and 3: "\<forall>x \<in> set (targets_of (load_steps t)). rel_option same_field (u x) (v x)"
    and 4: "\<forall>x. x \<notin> set (targets_of (load_steps t)) \<longrightarrow> v x = None" by auto
  have "same_members u v"
    unfolding same_members_def
  proof
    fix x show "rel_option same_field (u x) (v x)"
      using 3 4 out by (cases "x \<in> set (targets_of (load_steps t))") simp_all
  qed
  with 1 2 show ?thesis by (auto simp: store_members_def load_members_def store_steps_fields)
qed

end

end
