(* ===== verification/IndexedFiles.thy ===== *)
theory IndexedFiles
  imports ObjectFields
begin

text \<open>
  The files of indexed objects (\<open>src/io/indexed_object.cpp\<close>, \<open>src/io/loader.cpp\<close>) and the sessions that load
  and store them (\<open>src/eg/sessions/session.cpp\<close>). A file starts with its id, the table of the files it refers
  to and the headers of its objects; the members of the objects follow. Loading first creates the objects of a
  file and of all files it refers to, then loads the members of all of them. The file system is a map from
  paths to what the archive of a file holds.
\<close>

section \<open>Objects in memory\<close>

record indexed_object =
  o_type :: ObjectType
  o_header :: object_header
  o_members :: members

type_synonym heap = "FileID \<Rightarrow> indexed_object option list option"

definition types_of :: "heap \<Rightarrow> ObjectType object_table" where
  "types_of h f = map_option (map (map_option o_type)) (h f)"

definition object_at :: "heap \<Rightarrow> FileID \<times> Index \<Rightarrow> indexed_object option" where
  "object_at h p =
     (case h (fst p) of
        None \<Rightarrow> None
      | Some objs \<Rightarrow> if 0 \<le> sint (snd p) \<and> nat (sint (snd p)) < length objs then objs ! nat (sint (snd p)) else None)"

definition member_of :: "heap \<Rightarrow> pointer \<Rightarrow> string \<Rightarrow> field_value option" where
  "member_of h p x = Option.bind (Option.bind p (object_at h)) (\<lambda>ob. o_members ob x)"

definition ref_member :: "heap \<Rightarrow> pointer \<Rightarrow> string \<Rightarrow> pointer result" where
  "ref_member h p x = (case member_of h p x of Some (VRef q) \<Rightarrow> Inr q | _ \<Rightarrow> Inl UndefinedBehaviour)"

text \<open>\<open>HasIdentifier::getIdentifier\<close> of an object of the input tree.\<close>

definition input_identifier :: "heap \<Rightarrow> pointer \<Rightarrow> string result" where
  "input_identifier h p =
     (case member_of h p ''m_strIdentifier'' of Some (VPrim (PString s)) \<Rightarrow> Inr s | _ \<Rightarrow> Inl UndefinedBehaviour)"

text \<open>\<open>interface::Element::getIdentifier\<close>.\<close>

definition getIdentifier :: "heap \<Rightarrow> pointer \<Rightarrow> string result" where
  "getIdentifier h p =
     bindR (ref_member h p ''pIncludeIdentifier'') (\<lambda>inc.
     if inc \<noteq> None then input_identifier h inc
     else bindR (ref_member h p ''m_pElement'') (\<lambda>el.
       if el = None then Inr []
       else bindR (of_option UndefinedBehaviour (Option.bind el (object_at h))) (\<lambda>ob.
         if o_type ob \<in> {eInputDimension, eInputInclude, eInputUsing, eInputExport, eInputRoot, eInputContext}
         then input_identifier h el
         else if o_type ob = eInputVisibility then Inl (RuntimeError ''Invalid attempt to obtain visibility identifier'')
         else Inl (RuntimeError ''Unsupported type''))))"

section \<open>Files\<close>

record 'b indexed_file =
  m_filePath :: string
  m_file :: FileID
  m_files :: "(string \<times> FileID) list"
  m_objects :: "indexed_object option list"
  m_pLoader :: "'b list option"

text \<open>The map from ids to files, in the order of the ids.\<close>

type_synonym 'b file_map = "(FileID \<times> 'b indexed_file) list"

type_synonym 'b disk = "string \<rightharpoonup> 'b list"

definition heap_of :: "'b file_map \<Rightarrow> heap" where
  "heap_of m f = map_option m_objects (map_of m f)"

definition update_file :: "FileID \<Rightarrow> ('b indexed_file \<Rightarrow> 'b indexed_file) \<Rightarrow> 'b file_map \<Rightarrow> 'b file_map" where
  "update_file f g = map (\<lambda>(k, file). (k, if k = f then g file else file))"

definition set_object :: "FileID \<Rightarrow> nat \<Rightarrow> indexed_object \<Rightarrow> 'b file_map \<Rightarrow> 'b file_map" where
  "set_object f i ob = update_file f (\<lambda>file. file\<lparr>m_objects := (m_objects file)[i := Some ob]\<rparr>)"

section \<open>Storing\<close>

text \<open>\<open>Storer::storeObject\<close> and the members of the objects: a null pointer is refused.\<close>

definition store_header :: "'b encoder \<Rightarrow> indexed_object option \<Rightarrow> 'b list result" where
  "store_header enc ob = bindR (verify (ob \<noteq> None)) (\<lambda>_. Inr (IndexedObject_store enc (o_header (the ob))))"

definition store_body :: "'b encoder \<Rightarrow> indexed_object option \<Rightarrow> 'b list result" where
  "store_body enc ob = bindR (of_option UndefinedBehaviour ob) (\<lambda>ob. store_members enc (o_type ob) (o_members ob))"

definition store_file_entry :: "'b encoder \<Rightarrow> FileID \<times> string \<Rightarrow> 'b list" where
  "store_file_entry enc e = enc (PInt (fst e)) @ enc (PString (snd e))"

definition IndexedFile_store ::
  "'b encoder \<Rightarrow> FileID \<Rightarrow> (FileID \<times> string) list \<Rightarrow> indexed_object option list \<Rightarrow> 'b list result" where
  "IndexedFile_store enc f files objs =
     bindR (mapR (store_header enc) objs) (\<lambda>hs. bindR (mapR (store_body enc) objs) (\<lambda>bs.
       Inr (enc (PInt f) @ store_counted enc (store_file_entry enc) files @ store_size enc (length objs) @ concat hs @ concat bs)))"

section \<open>Loading\<close>

text \<open>\<open>Loader::loadObject\<close>\<close>

definition loadObject :: "'b decoder \<Rightarrow> 'b file_map \<Rightarrow> ('b, 'b file_map) loading" where
  "loadObject dec m bs =
     bindR (IndexedObject_load dec bs) (\<lambda>(h, bs).
     bindR (verify (map_of m (m_fileID h) \<noteq> None)) (\<lambda>_.
     let objs = m_objects (the (map_of m (m_fileID h))); i = nat (sint (m_index h)) in
     bindR (verify (0 \<le> sint (m_index h) \<and> i < length objs)) (\<lambda>_.
     bindR (verify (objs ! i = None)) (\<lambda>_.
     bindR (create_object (m_type h)) (\<lambda>t.
       Inr (set_object (m_fileID h) i \<lparr>o_type = t, o_header = h, o_members = Map.empty\<rparr> m, bs))))))"

fun load_headers :: "nat \<Rightarrow> 'b decoder \<Rightarrow> 'b file_map \<Rightarrow> ('b, 'b file_map) loading" where
  "load_headers 0 dec m bs = Inr (m, bs)"
| "load_headers (Suc n) dec m bs = bindR (loadObject dec m bs) (\<lambda>(m, bs). load_headers n dec m bs)"

definition load_file_entry :: "'b decoder \<Rightarrow> ('b, string \<times> FileID) loading" where
  "load_file_entry dec bs = bindR (load_int dec bs) (\<lambda>(f, bs). bindR (load_string dec bs) (\<lambda>(p, bs). Inr ((p, f), bs)))"

text \<open>The part of \<open>IndexedFile::beginLoad\<close> that reads the file; the rest of the archive stays with its loader.\<close>

definition begin_load :: "'b decoder \<Rightarrow> FileID \<Rightarrow> 'b file_map \<Rightarrow> 'b list \<Rightarrow> 'b file_map result" where
  "begin_load dec f m bs =
     bindR (load_int dec bs) (\<lambda>(k, bs).
     bindR (verify (k = f)) (\<lambda>_.
     bindR (load_counted dec (load_file_entry dec) bs) (\<lambda>(files, bs).
     bindR (load_size dec bs) (\<lambda>(n, bs).
     bindR (load_headers n dec (update_file f (\<lambda>file. file\<lparr>m_files := files, m_objects := replicate n None\<rparr>) m) bs) (\<lambda>(m, bs).
       Inr (update_file f (\<lambda>file. file\<lparr>m_pLoader := Some bs\<rparr>) m))))))"

text \<open>\<open>IndexedFile::beginLoadingFile\<close> with the loop of \<open>beginLoad\<close> over the file table. The depth of the
  recursion is bounded by the number of files.\<close>

fun beginLoadingFile :: "nat \<Rightarrow> 'b decoder \<Rightarrow> 'b disk \<Rightarrow> string \<times> FileID \<Rightarrow> 'b file_map \<Rightarrow> 'b file_map result" where
  "beginLoadingFile 0 dec disk e m = Inl OutOfFuel"
| "beginLoadingFile (Suc n) dec disk e m =
     (if map_of m (snd e) \<noteq> None then Inr m
      else
        let new = \<lparr>m_filePath = fst e, m_file = snd e, m_files = [], m_objects = [], m_pLoader = None\<rparr> in
        bindR (of_option ArchiveError (disk (fst e))) (\<lambda>bs.
        bindR (begin_load dec (snd e) (map_insert_new sint (snd e) new m) bs) (\<lambda>m.
          foldR (beginLoadingFile n dec disk) (m_files (the (map_of m (snd e)))) m)))"

text \<open>\<open>IndexedFile::endLoad\<close>\<close>

fun load_bodies :: "nat \<Rightarrow> 'b decoder \<Rightarrow> FileID \<Rightarrow> nat list \<Rightarrow> 'b file_map \<Rightarrow> ('b, 'b file_map) loading" where
  "load_bodies n dec f [] m bs = Inr (m, bs)"
| "load_bodies n dec f (i # is) m bs =
     bindR (of_option UndefinedBehaviour (m_objects (the (map_of m f)) ! i)) (\<lambda>ob.
     bindR (load_members n dec (types_of (heap_of m)) (getIdentifier (heap_of m)) (o_type ob) bs) (\<lambda>(u, bs).
       load_bodies n dec f is (set_object f i (ob\<lparr>o_members := u\<rparr>) m) bs))"

definition endLoad :: "nat \<Rightarrow> 'b decoder \<Rightarrow> FileID \<Rightarrow> 'b file_map \<Rightarrow> 'b file_map result" where
  "endLoad n dec f m =
     (case m_pLoader (the (map_of m f)) of
        None \<Rightarrow> Inr m
      | Some bs \<Rightarrow>
          bindR (load_bodies n dec f [0..<length (m_objects (the (map_of m f)))] m bs) (\<lambda>(m, bs).
            Inr (update_file f (\<lambda>file. file\<lparr>m_pLoader := None\<rparr>) m)))"

text \<open>\<open>IndexedFile::load\<close>: \<open>k\<close> bounds the depth of the files and \<open>n\<close> the depth of the instruction trees.\<close>

definition IndexedFile_load :: "nat \<Rightarrow> nat \<Rightarrow> 'b decoder \<Rightarrow> 'b disk \<Rightarrow> string \<times> FileID \<Rightarrow> 'b file_map \<Rightarrow> 'b file_map result" where
  "IndexedFile_load k n dec disk e m =
     bindR (beginLoadingFile k dec disk e m) (\<lambda>m. foldR (endLoad n dec) (map fst m) m)"

section \<open>Sessions\<close>

text \<open>The constructors of \<open>Session\<close>: from one file, and from a map of files.\<close>

definition Session_of_file :: "nat \<Rightarrow> nat \<Rightarrow> 'b decoder \<Rightarrow> 'b disk \<Rightarrow> string \<times> FileID \<Rightarrow> 'b file_map result" where
  "Session_of_file k n dec disk e = IndexedFile_load k n dec disk e []"

definition Session_of_files :: "nat \<Rightarrow> nat \<Rightarrow> 'b decoder \<Rightarrow> 'b disk \<Rightarrow> (FileID \<times> string) list \<Rightarrow> 'b file_map result" where
  "Session_of_files k n dec disk files = foldR (\<lambda>(f, path). IndexedFile_load k n dec disk (path, f)) files []"

definition file_table :: "'b file_map \<Rightarrow> (FileID \<times> string) list" where
  "file_table m = map (\<lambda>(k, file). (m_file file, m_filePath file)) m"

text \<open>\<open>AppendingSession::store\<close> writes every file, \<open>CreatingSession::store\<close> the new one.\<close>

definition AppendingSession_store :: "'b encoder \<Rightarrow> 'b file_map \<Rightarrow> 'b disk \<Rightarrow> 'b disk result" where
  "AppendingSession_store enc m disk =
     foldR (\<lambda>(k, file) disk.
       bindR (IndexedFile_store enc (m_file file) (file_table m) (m_objects file)) (\<lambda>bs. Inr (disk(m_filePath file \<mapsto> bs)))) m disk"

definition CreatingSession_store ::
  "'b encoder \<Rightarrow> 'b file_map \<Rightarrow> FileID \<Rightarrow> indexed_object option list \<Rightarrow> string \<Rightarrow> 'b disk \<Rightarrow> 'b disk result" where
  "CreatingSession_store enc m f objs path disk =
     bindR (IndexedFile_store enc f (map_insert_new sint f path (file_table m)) objs) (\<lambda>bs. Inr (disk(path \<mapsto> bs)))"

text \<open>\<open>construct\<close> of a session: the new object gets the next index of the new file, or of the master file.\<close>

definition new_object :: "FileID \<Rightarrow> ObjectType \<Rightarrow> members \<Rightarrow> nat \<Rightarrow> indexed_object option" where
  "new_object f t u i = Some \<lparr>o_type = t, o_header = \<lparr>m_type = type_number t, m_fileID = f, m_index = of_nat i\<rparr>, o_members = u\<rparr>"

definition CreatingSession_construct ::
  "FileID \<Rightarrow> ObjectType \<Rightarrow> members \<Rightarrow> indexed_object option list \<Rightarrow> indexed_object option list" where
  "CreatingSession_construct f t u objs = objs @ [new_object f t u (length objs)]"

definition AppendingSession_construct :: "ObjectType \<Rightarrow> members \<Rightarrow> 'b file_map \<Rightarrow> 'b file_map result" where
  "AppendingSession_construct t u m =
     bindR (verify (map_of m MASTER_FILE \<noteq> None)) (\<lambda>_.
       Inr (update_file MASTER_FILE (\<lambda>file. file\<lparr>m_objects :=
         m_objects file @ [new_object MASTER_FILE t u (length (m_objects file))]\<rparr>) m))"

text \<open>\<open>IndexedFile::readFileID\<close>\<close>

definition readFileID :: "'b decoder \<Rightarrow> 'b list \<Rightarrow> FileID result" where
  "readFileID dec bs = bindR (load_int dec bs) (\<lambda>(f, bs). Inr f)"

end
