(* ===== verification/DatabaseRoundTrip.thy ===== *)
theory DatabaseRoundTrip
  imports IndexedFiles
begin

text \<open>
  The round trip of the database: what the sessions store, they load again, with every object of every file. The
  objects are related member by member; the loading order matters, since the groups of \<open>Identifiers\<close> ask
  elements for their identifiers while they are loaded.
\<close>

section \<open>Maps of files\<close>

lemma map_of_update [simp]: "map_of (update_file f g m) k = map_option (if k = f then g else id) (map_of m k)"
  by (induction m) (auto simp: update_file_def)

lemma update_update [simp]: "update_file f g (update_file f g' m) = update_file f (g \<circ> g') m"
  by (induction m) (auto simp: update_file_def)

lemma fst_update [simp]: "map fst (update_file f g m) = map fst m"
  by (induction m) (auto simp: update_file_def)

lemma map_of_sorted_unique: "map_sorted sint m \<Longrightarrow> distinct (map fst m)"
proof -
  assume "map_sorted sint m"
  then have "distinct (map (\<lambda>e. sint (fst e)) m)"
    by (simp add: map_sorted_def strict_sorted_iff)
  then show ?thesis by (auto simp: distinct_map inj_on_def)
qed

lemma map_of_insert_new:
  assumes "map_of m f = None"
  shows "map_of (map_insert_new sint f x m) = (map_of m)(f \<mapsto> x)"
proof -
  have ins: "f \<notin> fst ` set m \<Longrightarrow> map_of (mm_insert sint f x m) = (map_of m)(f \<mapsto> x)"
    by (induction m) (auto simp: fun_upd_twist)
  from assms have "f \<notin> fst ` set m" by (simp add: map_of_eq_None_iff)
  then have "mm_lookup sint (sint f) m = []" by (auto simp: mm_lookup_Nil_iff simp flip: word_eq_iff_signed)
  with ins [OF \<open>f \<notin> fst ` set m\<close>] show ?thesis by (simp add: map_insert_new_def)
qed

lemma mm_insert_strict:
  "map_sorted key m \<Longrightarrow> \<forall>e \<in> set m. key (fst e) \<noteq> key k \<Longrightarrow> map_sorted key (mm_insert key k v m)"
proof (induction m)
  case (Cons e m)
  obtain a b where e: "e = (a, b)" by (cases e)
  with Cons.prems have m: "\<forall>x \<in> set m. key a < key (fst x)" "map_sorted key m" "key a \<noteq> key k"
    by (simp_all add: map_sorted_def)
  show ?case
  proof (cases "key k < key a")
    case True
    with m have "\<forall>x \<in> set m. key k < key (fst x)" by (auto intro: less_trans)
    with True Cons.prems e show ?thesis by (simp add: map_sorted_def)
  next
    case False
    with m Cons e show ?thesis by (simp add: map_sorted_def)
  qed
qed (simp add: map_sorted_def)

lemma map_insert_new_strict: "map_sorted key m \<Longrightarrow> map_sorted key (map_insert_new key k v m)"
  by (simp add: map_insert_new_def mm_lookup_Nil_iff mm_insert_strict)

lemma map_sorted_update [simp]: "map_sorted sint (update_file f g m) \<longleftrightarrow> map_sorted sint m"
proof -
  have "map (\<lambda>e. sint (fst e)) (update_file f g m) = map (\<lambda>e. sint (fst e)) m"
    by (induction m) (auto simp: update_file_def)
  then show ?thesis by (simp add: map_sorted_def)
qed

text \<open>Sorted maps with the same keys have them in the same order.\<close>

lemma map_sorted_same_keys:
  assumes "map_sorted sint m" and "map_sorted sint m'" and "fst ` set m = fst ` set m'"
  shows "map fst m = map fst m'"
proof -
  have "(sint \<circ> fst) ` set m = (sint \<circ> fst) ` set m'" using assms(3) by (metis image_comp)
  then have "map (\<lambda>e. sint (fst e)) m = map (\<lambda>e. sint (fst e)) m'"
    using assms(1,2) by (intro strict_sorted_equal) (simp_all add: map_sorted_def comp_def)
  then have "map sint (map fst m) = map sint (map fst m')" by (simp add: comp_def)
  then show ?thesis by (rule map_injective) (simp add: inj_def flip: word_eq_iff_signed)
qed

section \<open>Related objects\<close>

definition same_object :: "indexed_object \<Rightarrow> indexed_object \<Rightarrow> bool" where
  "same_object a b \<longleftrightarrow> o_type a = o_type b \<and> o_header a = o_header b \<and> same_members (o_members a) (o_members b)"

definition same_heap :: "heap \<Rightarrow> heap \<Rightarrow> bool" where
  "same_heap h h' \<longleftrightarrow> (\<forall>f. rel_option (list_all2 (rel_option same_object)) (h f) (h' f))"

lemma same_heap_types: "same_heap h h' \<Longrightarrow> types_of h = types_of h'"
proof (rule ext)
  fix f assume "same_heap h h'"
  then have "rel_option (list_all2 (rel_option same_object)) (h f) (h' f)" by (simp add: same_heap_def)
  then show "types_of h f = types_of h' f"
  proof (cases "h f"; cases "h' f"; simp add: types_of_def)
    fix xs ys assume "list_all2 (rel_option same_object) xs ys"
    then show "map (map_option o_type) xs = map (map_option o_type) ys"
      by (induction rule: list_all2_induct) (auto simp: option_rel_Some1 option_rel_Some2 same_object_def elim!: option.rel_cases)
  qed
qed

lemma same_heap_object_at:
  assumes "same_heap h h'"
  shows "rel_option same_object (object_at h p) (object_at h' p)"
proof -
  from assms have "rel_option (list_all2 (rel_option same_object)) (h (fst p)) (h' (fst p))" by (simp add: same_heap_def)
  then show ?thesis
    by (auto simp: object_at_def list_all2_lengthD list_all2_nthD elim!: option.rel_cases)
qed

lemma same_heap_member:
  assumes "same_heap h h'"
  shows "rel_option same_field (member_of h p x) (member_of h' p x)"
proof (cases p)
  case (Some q)
  from same_heap_object_at [OF assms, of q] show ?thesis
    by (auto simp: member_of_def Some same_object_def same_members_def elim!: option.rel_cases)
qed (simp add: member_of_def)

lemma same_field_cases: "same_field v w \<Longrightarrow> v = w \<or> (\<exists>i j. v = VTree i \<and> w = VTree j)"
  by (cases v) auto

lemma same_heap_ref: "same_heap h h' \<Longrightarrow> ref_member h p x = ref_member h' p x"
  using same_heap_member [of h h' p x]
  by (auto simp: ref_member_def elim!: option.rel_cases dest!: same_field_cases)

lemma same_heap_input: "same_heap h h' \<Longrightarrow> input_identifier h p = input_identifier h' p"
  using same_heap_member [of h h' p "''m_strIdentifier''"]
  by (auto simp: input_identifier_def elim!: option.rel_cases dest!: same_field_cases)

lemma same_heap_identifier:
  assumes "same_heap h h'"
  shows "getIdentifier h = getIdentifier h'"
proof
  fix p
  let ?F = "\<lambda>h el. bindR (of_option UndefinedBehaviour (Option.bind el (object_at h))) (\<lambda>ob.
         if o_type ob \<in> {eInputDimension, eInputInclude, eInputUsing, eInputExport, eInputRoot, eInputContext}
         then input_identifier h' el
         else if o_type ob = eInputVisibility then Inl (RuntimeError ''Invalid attempt to obtain visibility identifier'')
         else Inl (RuntimeError ''Unsupported type''))"
  have "?F h el = ?F h' el" for el
  proof (cases el)
    case (Some q)
    from same_heap_object_at [OF assms, of q] show ?thesis
      by (cases rule: option.rel_cases) (auto simp: Some same_object_def)
  qed simp
  then show "getIdentifier h p = getIdentifier h' p"
    unfolding getIdentifier_def same_heap_ref [OF assms] same_heap_input [OF assms] by (simp only:)
qed

section \<open>Databases that are stored\<close>

text \<open>An object whose members are not loaded yet, and the heap in which exactly the objects in \<open>L\<close> are loaded.\<close>

definition fresh :: "indexed_object \<Rightarrow> indexed_object" where
  "fresh ob = ob\<lparr>o_members := Map.empty\<rparr>"

definition loaded_part :: "(nat \<Rightarrow> bool) \<Rightarrow> indexed_object option list \<Rightarrow> indexed_object option list" where
  "loaded_part L objs = map (\<lambda>j. if L j then objs ! j else map_option fresh (objs ! j)) [0..<length objs]"

definition heap_with :: "(FileID \<Rightarrow> nat \<Rightarrow> bool) \<Rightarrow> heap \<Rightarrow> heap" where
  "heap_with L h f = map_option (loaded_part (L f)) (h f)"

lemma length_loaded_part [simp]: "length (loaded_part L objs) = length objs"
  by (simp add: loaded_part_def)

lemma nth_loaded_part [simp]:
  "j < length objs \<Longrightarrow> loaded_part L objs ! j = (if L j then objs ! j else map_option fresh (objs ! j))"
  by (cases "L j") (simp_all add: loaded_part_def)

text \<open>The objects that are loaded before the object \<open>i\<close> of the file \<open>f\<close>.\<close>

definition before :: "FileID \<Rightarrow> nat \<Rightarrow> FileID \<Rightarrow> nat \<Rightarrow> bool" where
  "before f i g j \<longleftrightarrow> sint g < sint f \<or> g = f \<and> j < i"

definition header_ok :: "FileID \<Rightarrow> nat \<Rightarrow> indexed_object \<Rightarrow> bool" where
  "header_ok f i ob \<longleftrightarrow> o_header ob = \<lparr>m_type = type_number (o_type ob), m_fileID = f, m_index = of_nat i\<rparr>"

definition body_ok :: "nat \<Rightarrow> heap \<Rightarrow> FileID \<Rightarrow> nat \<Rightarrow> indexed_object \<Rightarrow> bool" where
  "body_ok n h f i ob \<longleftrightarrow>
     members_ok n (types_of h) (getIdentifier (heap_with (before f i) h)) (o_type ob) (o_members ob)"

definition objects_ok :: "nat \<Rightarrow> heap \<Rightarrow> FileID \<Rightarrow> indexed_object option list \<Rightarrow> bool" where
  "objects_ok n h f objs \<longleftrightarrow>
     length objs \<le> 2 ^ 31 \<and>
     list_all (\<lambda>i. case objs ! i of None \<Rightarrow> False | Some ob \<Rightarrow> header_ok f i ob \<and> body_ok n h f i ob) [0..<length objs]"

definition database_ok :: "nat \<Rightarrow> 'b file_map \<Rightarrow> bool" where
  "database_ok n m \<longleftrightarrow>
     map_sorted sint m \<and> distinct (map (\<lambda>e. m_filePath (snd e)) m) \<and> counted m \<and>
     list_all (\<lambda>(k, file). m_file file = k \<and> objects_ok n (heap_of m) k (m_objects file)) m"

lemma file_objectsD:
  assumes "objects_ok n h f objs" and "i < length objs"
  obtains ob where "objs ! i = Some ob" "header_ok f i ob" "body_ok n h f i ob"
proof -
  have "case objs ! i of None \<Rightarrow> False | Some ob \<Rightarrow> header_ok f i ob \<and> body_ok n h f i ob"
    using assms by (simp add: objects_ok_def list_all_iff)
  with that show ?thesis by (simp split: option.splits)
qed

lemma objects_ok_Some: "objects_ok n h f objs \<Longrightarrow> x \<in> set objs \<Longrightarrow> \<exists>ob. x = Some ob"
  by (metis in_set_conv_nth file_objectsD)

lemma objects_ok_index: "objects_ok n h f objs \<Longrightarrow> i < length objs \<Longrightarrow> sint (of_nat i :: Index) = int i"
  by (simp add: objects_ok_def signed_of_nat signed_take_bit_int_eq_self)

definition stored_header :: "'b encoder \<Rightarrow> indexed_object option \<Rightarrow> 'b list" where
  "stored_header enc ob = IndexedObject_store enc (o_header (the ob))"

lemma store_headers: "objects_ok n h f objs \<Longrightarrow> mapR (store_header enc) objs = Inr (map (stored_header enc) objs)"
proof -
  assume "objects_ok n h f objs"
  then have "\<forall>x \<in> set objs. store_header enc x = Inr (stored_header enc x)"
    using objects_ok_Some by (force simp: store_header_def stored_header_def)
  then show ?thesis by (induction objs) simp_all
qed

section \<open>Reading the headers\<close>

lemma set_object_update:
  "set_object f i ob (update_file f g m) = update_file f (\<lambda>file. (g file)\<lparr>m_objects := (m_objects (g file))[i := Some ob]\<rparr>) m"
  by (simp add: set_object_def comp_def)

context archive
begin

lemma load_file_table_reads:
  "reads (load_counted dec (load_file_entry dec)) (\<lambda>tbl. store_counted enc (store_file_entry enc) (map prod.swap tbl)) counted"
proof -
  have "reads (load_file_entry dec) (store_file_entry enc \<circ> prod.swap) (\<lambda>_. True)"
    by (simp add: reads_def load_file_entry_def store_file_entry_def split_def)
  from load_counted_reads [OF this] show ?thesis by (simp add: store_counted_def)
qed

lemma loadObject_back:
  assumes objs: "objects_ok n h f objs" and i: "i < length objs" "objs ! i = Some ob"
    and m: "map_of m f = Some file" "length (m_objects file) = length objs" "m_objects file ! i = None"
  shows "loadObject dec m (stored_header enc (Some ob) @ rest) = Inr (set_object f i (fresh ob) m, rest)"
proof -
  have hd: "o_header ob = \<lparr>m_type = type_number (o_type ob), m_fileID = f, m_index = of_nat i\<rparr>"
    using file_objectsD [OF objs i(1)] i(2) by (auto simp: header_ok_def)
  have "fresh ob = \<lparr>o_type = o_type ob, o_header = o_header ob, o_members = Map.empty\<rparr>"
    by (simp add: fresh_def)
  with hd m i(1) objects_ok_index [OF objs i(1)] show ?thesis
    by (simp add: loadObject_def stored_header_def readsD [OF IndexedObject_reads] verify_def)
qed

lemma load_headers_back:
  assumes objs: "objects_ok n h f objs" and m: "map_of m f \<noteq> None" and "i \<le> length objs"
  shows "load_headers (length objs - i) dec
      (update_file f (\<lambda>file. file\<lparr>m_objects := map (map_option fresh) (take i objs) @ replicate (length objs - i) None\<rparr>) m)
      (concat (map (stored_header enc) (drop i objs)) @ rest) =
    Inr (update_file f (\<lambda>file. file\<lparr>m_objects := map (map_option fresh) objs\<rparr>) m, rest)"
  using assms(3)
proof (induction "length objs - i" arbitrary: i)
  case (Suc k)
  let ?m = "\<lambda>i. update_file f (\<lambda>file. file\<lparr>m_objects := map (map_option fresh) (take i objs) @ replicate (length objs - i) None\<rparr>) m"
  from Suc have i: "i < length objs" and k: "length objs - i = Suc (length objs - Suc i)" by simp_all
  from file_objectsD [OF objs i] obtain ob where ob: "objs ! i = Some ob" by blast
  have d: "drop i objs = Some ob # drop (Suc i) objs" using i ob by (simp add: Cons_nth_drop_Suc [symmetric])
  from m obtain fl where "map_of m f = Some fl" by blast
  with loadObject_back [OF objs i ob, of "?m i"] i
  have "loadObject dec (?m i) (stored_header enc (Some ob) @ rest') = Inr (set_object f i (fresh ob) (?m i), rest')" for rest'
    by (simp add: nth_append)
  moreover have "set_object f i (fresh ob) (?m i) = ?m (Suc i)"
    unfolding set_object_update using i ob k by (simp add: list_update_append take_Suc_conv_app_nth)
  moreover have "load_headers (length objs - Suc i) dec (?m (Suc i)) (concat (map (stored_header enc) (drop (Suc i) objs)) @ rest) =
      Inr (update_file f (\<lambda>file. file\<lparr>m_objects := map (map_option fresh) objs\<rparr>) m, rest)"
    using Suc.hyps(2) i by (intro Suc.hyps(1)) simp_all
  ultimately show ?case by (simp add: k d)
qed simp

lemma begin_load_back:
  assumes objs: "objects_ok n h f objs" and m: "map_of m f \<noteq> None" and tbl: "counted tbl"
    and st: "IndexedFile_store enc f tbl objs = Inr bs" and body: "mapR (store_body enc) objs = Inr bss"
  shows "begin_load dec f m bs = Inr (update_file f (\<lambda>file. file\<lparr>m_files := map prod.swap tbl,
    m_objects := map (map_option fresh) objs, m_pLoader := Some (concat bss)\<rparr>) m)"
proof -
  let ?new = "update_file f (\<lambda>file. file\<lparr>m_files := map prod.swap tbl, m_objects := replicate (length objs) None\<rparr>) m"
  have bs: "bs = enc (PInt f) @ store_counted enc (store_file_entry enc) tbl @ store_size enc (length objs) @
      concat (map (stored_header enc) objs) @ concat bss"
    using st by (simp add: IndexedFile_store_def store_headers [OF objs] body)
  have "load_counted dec (load_file_entry dec) (store_counted enc (store_file_entry enc) tbl @ rest) = Inr (map prod.swap tbl, rest)" for rest
    using readsD [OF load_file_table_reads, of "map prod.swap tbl"] tbl by (simp add: comp_def counted_def)
  moreover have "load_size dec (store_size enc (length objs) @ rest) = Inr (length objs, rest)" for rest
    using objs by (intro load_size_back) (simp add: objects_ok_def)
  moreover have "load_headers (length objs) dec ?new (concat (map (stored_header enc) objs) @ rest) =
      Inr (update_file f (\<lambda>file. file\<lparr>m_objects := map (map_option fresh) objs\<rparr>) (update_file f (\<lambda>file. file\<lparr>m_files := map prod.swap tbl\<rparr>) m), rest)" for rest
    using load_headers_back [OF objs, of "update_file f (\<lambda>file. file\<lparr>m_files := map prod.swap tbl\<rparr>) m" 0 rest] m
    by (simp add: comp_def)
  ultimately show ?thesis by (simp add: begin_load_def bs verify_def comp_def)
qed

end

section \<open>Opening the files\<close>

text \<open>Every file of the database is on the disk, with a table of files of the database.\<close>

definition on_disk :: "'b encoder \<Rightarrow> 'b disk \<Rightarrow> (FileID \<Rightarrow> (FileID \<times> string) list) \<Rightarrow> 'b file_map \<Rightarrow> bool" where
  "on_disk enc disk tables m \<longleftrightarrow>
     (\<forall>(k, fl) \<in> set m. counted (tables k) \<and> set (tables k) \<subseteq> set (file_table m) \<and>
        (\<exists>bs. disk (m_filePath fl) = Some bs \<and> IndexedFile_store enc k (tables k) (m_objects fl) = Inr bs))"

text \<open>A file whose objects are created and not loaded.\<close>

definition begun :: "'b encoder \<Rightarrow> 'b file_map \<Rightarrow> FileID \<Rightarrow> 'b indexed_file \<Rightarrow> bool" where
  "begun enc m k fl' \<longleftrightarrow>
     (\<exists>fl bss. map_of m k = Some fl \<and> m_filePath fl' = m_filePath fl \<and> m_file fl' = k \<and>
        m_objects fl' = map (map_option fresh) (m_objects fl) \<and>
        mapR (store_body enc) (m_objects fl) = Inr bss \<and> m_pLoader fl' = Some (concat bss))"

definition opened :: "'b encoder \<Rightarrow> 'b file_map \<Rightarrow> 'b file_map \<Rightarrow> bool" where
  "opened enc m c \<longleftrightarrow> map_sorted sint c \<and> (\<forall>k fl. map_of c k = Some fl \<longrightarrow> begun enc m k fl)"

lemma database_okD:
  assumes "database_ok n m" and "map_of m k = Some fl"
  shows "m_file fl = k" and "objects_ok n (heap_of m) k (m_objects fl)"
  using assms by (auto simp: database_ok_def list_all_iff dest: map_of_SomeD)

lemma file_table_entry:
  assumes "database_ok n m"
  shows "(k, p) \<in> set (file_table m) \<longleftrightarrow> (\<exists>fl. map_of m k = Some fl \<and> m_filePath fl = p)"
proof -
  have "distinct (map fst m)" using assms by (simp add: database_ok_def map_of_sorted_unique)
  moreover have "m_file fl = k" if "(k, fl) \<in> set m" for k fl using assms that by (auto simp: database_ok_def list_all_iff)
  ultimately show ?thesis by (force simp: file_table_def)
qed

lemma opened_keys: "opened enc m c \<Longrightarrow> dom (map_of c) \<subseteq> dom (map_of m)"
  by (auto simp: opened_def begun_def)

context archive
begin

lemma open_file:
  assumes db: "database_ok n m" and disk: "on_disk enc disk tables m" and c: "opened enc m c"
    and f: "map_of m f = Some fl" "map_of c f = None"
  shows "\<exists>bs c'. disk (m_filePath fl) = Some bs \<and>
    begin_load dec f (map_insert_new sint f
      \<lparr>m_filePath = m_filePath fl, m_file = f, m_files = [], m_objects = [], m_pLoader = None\<rparr> c) bs = Inr c' \<and>
    opened enc m c' \<and> dom (map_of c') = insert f (dom (map_of c)) \<and> m_files (the (map_of c' f)) = map prod.swap (tables f)"
proof -
  let ?new = "\<lparr>m_filePath = m_filePath fl, m_file = f, m_files = [], m_objects = [], m_pLoader = None\<rparr>"
  let ?c = "map_insert_new sint f ?new c"
  from disk f(1) obtain bs where bs: "disk (m_filePath fl) = Some bs" "counted (tables f)"
    "IndexedFile_store enc f (tables f) (m_objects fl) = Inr bs"
    by (fastforce simp: on_disk_def dest: map_of_SomeD)
  from bs(3) obtain bss where bss: "mapR (store_body enc) (m_objects fl) = Inr bss"
    by (auto simp: IndexedFile_store_def bindR_eq_Inr)
  have new: "map_of ?c = (map_of c)(f \<mapsto> ?new)" by (rule map_of_insert_new [OF f(2)])
  let ?c' = "update_file f (\<lambda>file. file\<lparr>m_files := map prod.swap (tables f),
    m_objects := map (map_option fresh) (m_objects fl), m_pLoader := Some (concat bss)\<rparr>) ?c"
  have "begin_load dec f ?c bs = Inr ?c'"
    by (rule begin_load_back [OF database_okD(2) [OF db f(1)] _ bs(2,3) bss]) (simp add: new)
  moreover have "opened enc m ?c'"
    using c f(1) bss by (auto simp: opened_def new begun_def map_insert_new_strict)
  moreover have "dom (map_of ?c') = insert f (dom (map_of c))"
    by (auto simp: dom_def new)
  moreover have "m_files (the (map_of ?c' f)) = map prod.swap (tables f)" by (simp add: new)
  ultimately show ?thesis using bs(1) by blast
qed

lemma beginLoadingFile_back:
  assumes db: "database_ok n m" and disk: "on_disk enc disk tables m"
  shows "opened enc m c \<Longrightarrow> (f, p) \<in> set (file_table m) \<Longrightarrow> card (dom (map_of m) - dom (map_of c)) < d \<Longrightarrow>
    \<exists>c'. beginLoadingFile d dec disk (p, f) c = Inr c' \<and> opened enc m c' \<and> insert f (dom (map_of c)) \<subseteq> dom (map_of c') \<and>
      (map_of c f = None \<longrightarrow> fst ` set (tables f) \<subseteq> dom (map_of c'))"
proof (induction d arbitrary: c f p)
  case (Suc d)
  show ?case
  proof (cases "map_of c f")
    case None
    from Suc.prems(2) obtain fl where f: "map_of m f = Some fl" "m_filePath fl = p"
      by (auto simp: file_table_entry [OF db])
    from open_file [OF db disk Suc.prems(1) f(1) None] obtain bs c1 where c1: "disk p = Some bs"
      "begin_load dec f (map_insert_new sint f \<lparr>m_filePath = p, m_file = f, m_files = [], m_objects = [], m_pLoader = None\<rparr> c) bs = Inr c1"
      "opened enc m c1" "dom (map_of c1) = insert f (dom (map_of c))" "m_files (the (map_of c1 f)) = map prod.swap (tables f)"
      unfolding f(2) by blast
    have "dom (map_of m) - dom (map_of c1) \<subset> dom (map_of m) - dom (map_of c)" using c1(4) f(1) None by auto
    then have "card (dom (map_of m) - dom (map_of c1)) < card (dom (map_of m) - dom (map_of c))"
      by (intro psubset_card_mono) (simp_all add: finite_dom_map_of)
    with Suc.prems(3) have d: "card (dom (map_of m) - dom (map_of c1)) < d" by simp
    have "\<exists>c'. foldR (beginLoadingFile d dec disk) (map prod.swap tbl) c = Inr c' \<and> opened enc m c' \<and>
        dom (map_of c) \<union> fst ` set tbl \<subseteq> dom (map_of c')"
      if "opened enc m c" "set tbl \<subseteq> set (file_table m)" "card (dom (map_of m) - dom (map_of c)) < d" for tbl c
      using that
    proof (induction tbl arbitrary: c)
      case (Cons e tbl)
      obtain g q where e: "e = (g, q)" by (cases e)
      with Cons.prems(2) have "(g, q) \<in> set (file_table m)" by simp
      from Suc.IH [OF Cons.prems(1) this Cons.prems(3)] obtain c2 where c2: "beginLoadingFile d dec disk (q, g) c = Inr c2"
        "opened enc m c2" "insert g (dom (map_of c)) \<subseteq> dom (map_of c2)" by blast
      have "card (dom (map_of m) - dom (map_of c2)) \<le> card (dom (map_of m) - dom (map_of c))"
        using c2(3) by (intro card_mono) (auto simp: finite_dom_map_of)
      with Cons.prems(3) have "card (dom (map_of m) - dom (map_of c2)) < d" by simp
      from Cons.IH [OF c2(2) _ this] Cons.prems(2) obtain c3 where "foldR (beginLoadingFile d dec disk) (map prod.swap tbl) c2 = Inr c3"
        "opened enc m c3" "dom (map_of c2) \<union> fst ` set tbl \<subseteq> dom (map_of c3)" by auto
      with c2 e show ?case by auto
    qed simp
    moreover have "set (tables f) \<subseteq> set (file_table m)"
      using disk map_of_SomeD [OF f(1)] by (auto simp: on_disk_def)
    ultimately obtain c' where "foldR (beginLoadingFile d dec disk) (map prod.swap (tables f)) c1 = Inr c'" "opened enc m c'"
      "dom (map_of c1) \<union> fst ` set (tables f) \<subseteq> dom (map_of c')" using c1(3) d by blast
    with None c1 show ?thesis by auto
  qed (use Suc.prems(1) in auto)
qed simp

lemma all_opened:
  assumes db: "database_ok n m" and disk: "on_disk enc disk tables m" and f: "(f, p) \<in> set (file_table m)"
    and all: "fst ` set m \<subseteq> fst ` set (tables f)" and d: "length m < d"
  shows "\<exists>c. beginLoadingFile d dec disk (p, f) [] = Inr c \<and> opened enc m c \<and> map fst c = map fst m"
proof -
  have "opened enc m []" by (simp add: opened_def map_sorted_def)
  moreover have "card (dom (map_of m) - dom (map_of [])) < d"
    using d card_image_le [of "set m" fst] card_length [of m] by (simp add: dom_map_of_conv_image_fst)
  ultimately obtain c where c: "beginLoadingFile d dec disk (p, f) [] = Inr c" "opened enc m c"
    "fst ` set (tables f) \<subseteq> dom (map_of c)" using beginLoadingFile_back [OF db disk _ f] by fastforce
  have "fst ` set c = fst ` set m"
    using opened_keys [OF c(2)] c(3) all by (auto simp: dom_map_of_conv_image_fst)
  with c(2) db have "map fst c = map fst m"
    by (intro map_sorted_same_keys) (simp_all add: opened_def database_ok_def)
  with c show ?thesis by blast
qed

end

section \<open>Loading the objects\<close>

lemma heap_with_cong:
  assumes "\<And>g objs j. h g = Some objs \<Longrightarrow> j < length objs \<Longrightarrow> L g j = L' g j"
  shows "heap_with L h = heap_with L' h"
proof
  fix g
  have "loaded_part (L g) objs = loaded_part (L' g) objs" if "h g = Some objs" for objs
    using assms [OF that] by (intro nth_equalityI) simp_all
  then show "heap_with L h g = heap_with L' h g" by (cases "h g") (simp_all add: heap_with_def)
qed

lemma heap_with_all: "heap_with (\<lambda>_ _. True) h = h"
proof
  fix g
  have "loaded_part (\<lambda>_. True) objs = objs" for objs by (intro nth_equalityI) simp_all
  then show "heap_with (\<lambda>_ _. True) h g = h g" by (cases "h g") (simp_all add: heap_with_def)
qed

lemma types_of_heap_with [simp]: "types_of (heap_with L h) = types_of h"
proof
  fix g
  have "map_option o_type (map_option fresh ob) = map_option o_type ob" for ob
    by (cases ob) (simp_all add: fresh_def)
  then have "map (map_option o_type) (loaded_part (L g) objs) = map (map_option o_type) objs" for objs
    by (intro nth_equalityI) simp_all
  then show "types_of (heap_with L h) g = types_of h g" by (cases "h g") (simp_all add: types_of_def heap_with_def)
qed

definition in_loading :: "'b file_map \<Rightarrow> 'b file_map \<Rightarrow> (FileID \<Rightarrow> nat \<Rightarrow> bool) \<Rightarrow> bool" where
  "in_loading m c L \<longleftrightarrow>
     map fst c = map fst m \<and>
     (\<forall>k. map_option (\<lambda>fl. (m_filePath fl, m_file fl)) (map_of c k) = map_option (\<lambda>fl. (m_filePath fl, m_file fl)) (map_of m k)) \<and>
     same_heap (heap_with L (heap_of m)) (heap_of c)"

lemma in_loading_objects:
  assumes "in_loading m c L" and "map_of m f = Some fl"
  shows "\<exists>fl'. map_of c f = Some fl' \<and> length (m_objects fl') = length (m_objects fl) \<and>
    (\<forall>j < length (m_objects fl). rel_option same_object
       (if L f j then m_objects fl ! j else map_option fresh (m_objects fl ! j)) (m_objects fl' ! j))"
proof -
  have "rel_option (list_all2 (rel_option same_object)) (heap_with L (heap_of m) f) (heap_of c f)"
    using assms(1) by (simp add: in_loading_def same_heap_def)
  with assms(2) obtain fl' where c: "map_of c f = Some fl'"
    and r: "list_all2 (rel_option same_object) (loaded_part (L f) (m_objects fl)) (m_objects fl')"
    by (auto simp: heap_of_def heap_with_def option_rel_Some1)
  from list_all2_lengthD [OF r, symmetric] list_all2_nthD [OF r] c show ?thesis by auto
qed

lemma in_loading_set:
  assumes "in_loading m c (before f i)" and "map_of m f = Some fl" and "i < length (m_objects fl)"
    and "rel_option same_object (m_objects fl ! i) (Some ob)"
  shows "in_loading m (set_object f i ob c) (before f (Suc i))"
proof -
  let ?c = "set_object f i ob c"
  obtain fl' where fl': "map_of c f = Some fl'" "length (m_objects fl') = length (m_objects fl)"
    "\<And>j. j < length (m_objects fl) \<Longrightarrow> rel_option same_object
       (if before f i f j then m_objects fl ! j else map_option fresh (m_objects fl ! j)) (m_objects fl' ! j)"
    using in_loading_objects [OF assms(1,2)] by auto
  have "rel_option (list_all2 (rel_option same_object)) (heap_with (before f (Suc i)) (heap_of m) g) (heap_of ?c g)" for g
  proof (cases "g = f")
    case True
    have "list_all2 (rel_option same_object) (loaded_part (before f (Suc i) f) (m_objects fl)) ((m_objects fl')[i := Some ob])"
    proof (rule list_all2_all_nthI)
      fix j assume "j < length (loaded_part (before f (Suc i) f) (m_objects fl))"
      then have j: "j < length (m_objects fl)" by simp
      show "rel_option same_object (loaded_part (before f (Suc i) f) (m_objects fl) ! j) ((m_objects fl')[i := Some ob] ! j)"
        using fl'(3) [OF j] assms(3,4) fl'(2) j
        by (cases "j = i") (auto simp: before_def less_Suc_eq nth_list_update split: if_splits)
    qed (simp add: fl'(2))
    with True assms(2) fl' show ?thesis by (simp add: heap_of_def heap_with_def set_object_def)
  next
    case False
    then have "before f (Suc i) g = before f i g" by (auto simp: before_def fun_eq_iff)
    then have "heap_with (before f (Suc i)) (heap_of m) g = heap_with (before f i) (heap_of m) g"
      by (simp add: heap_with_def)
    moreover have "heap_of ?c g = heap_of c g" using False by (simp add: heap_of_def set_object_def option.map_id0)
    ultimately show ?thesis using assms(1) by (simp add: in_loading_def same_heap_def)
  qed
  moreover have "map_option (\<lambda>fl. (m_filePath fl, m_file fl)) (map_of ?c k) = map_option (\<lambda>fl. (m_filePath fl, m_file fl)) (map_of c k)" for k
    by (simp add: set_object_def option.map_comp comp_def)
  ultimately show ?thesis using assms(1) by (simp add: in_loading_def same_heap_def set_object_def)
qed

context archive
begin

lemma load_bodies_back:
  assumes db: "database_ok n m" and f: "map_of m f = Some fl" and bss: "mapR (store_body enc) (m_objects fl) = Inr bss"
    and i: "i \<le> length (m_objects fl)"
  shows "in_loading m c (before f i) \<Longrightarrow>
    \<exists>c'. load_bodies n dec f [i..<length (m_objects fl)] c (concat (drop i bss) @ rest) = Inr (c', rest) \<and>
      in_loading m c' (before f (length (m_objects fl))) \<and>
      (\<forall>k. map_option m_pLoader (map_of c' k) = map_option m_pLoader (map_of c k))"
  using i
proof (induction "length (m_objects fl) - i" arbitrary: i c)
  case 0
  then have "i = length (m_objects fl)" "drop i bss = []" using mapR_length [OF bss] by simp_all
  with 0 show ?case by auto
next
  case (Suc k)
  then have i: "i < length (m_objects fl)" by simp
  have len: "length bss = length (m_objects fl)" by (rule mapR_length [OF bss])
  from file_objectsD [OF database_okD(2) [OF db f] i] obtain ob
    where ob: "m_objects fl ! i = Some ob" "body_ok n (heap_of m) f i ob" by blast
  from in_loading_objects [OF Suc.prems(1) f] i ob(1) obtain fl' ob' where ob': "map_of c f = Some fl'"
    "m_objects fl' ! i = Some ob'" "same_object (fresh ob) ob'"
    by (fastforce simp: before_def option_rel_Some1)
  from Suc.prems(1) have h: "same_heap (heap_with (before f i) (heap_of m)) (heap_of c)" by (simp add: in_loading_def)
  have same: "types_of (heap_of c) = types_of (heap_of m)" "o_type ob' = o_type ob" "o_header ob' = o_header ob"
    "getIdentifier (heap_of c) = getIdentifier (heap_with (before f i) (heap_of m))"
    using same_heap_types [OF h] same_heap_identifier [OF h] ob'(3) by (simp_all add: same_object_def fresh_def)
  from members_round_trip [OF ob(2) [unfolded body_ok_def]] obtain bs v where
    bs: "store_members enc (o_type ob) (o_members ob) = Inr bs" and v: "same_members (o_members ob) v"
    and load: "\<And>rest. load_members n dec (types_of (heap_of m)) (getIdentifier (heap_with (before f i) (heap_of m))) (o_type ob) (bs @ rest) = Inr (v, rest)"
    by blast
  have "store_body enc (m_objects fl ! i) = Inr (bss ! i)" by (rule list_all2_nthD [OF bss [unfolded mapR_Inr_conv] i])
  with ob(1) bs have "bss ! i = bs" by (simp add: store_body_def)
  with len i have d: "drop i bss = bs # drop (Suc i) bss" by (metis Cons_nth_drop_Suc)
  let ?c = "set_object f i (ob'\<lparr>o_members := v\<rparr>) c"
  have step: "in_loading m ?c (before f (Suc i))"
    by (rule in_loading_set [OF Suc.prems(1) f i]) (use same ob(1) v in \<open>simp add: same_object_def\<close>)
  have "k = length (m_objects fl) - Suc i" using Suc.hyps(2) by simp
  from Suc.hyps(1) [OF this step Suc_leI [OF i]] obtain c'
    where c': "load_bodies n dec f [Suc i..<length (m_objects fl)] ?c (concat (drop (Suc i) bss) @ rest) = Inr (c', rest)"
    "in_loading m c' (before f (length (m_objects fl)))"
    "\<And>k. map_option m_pLoader (map_of c' k) = map_option m_pLoader (map_of ?c k)" by blast
  have "map_option m_pLoader (map_of ?c k) = map_option m_pLoader (map_of c k)" for k
    by (simp add: set_object_def option.map_comp comp_def)
  with c' ob' d load same i show ?case by (simp add: upt_conv_Cons)
qed

end

definition loader_of :: "'b file_map \<Rightarrow> FileID \<Rightarrow> 'b list option" where
  "loader_of c f = Option.bind (map_of c f) m_pLoader"

context archive
begin

lemma endLoad_back:
  assumes db: "database_ok n m" and f: "map_of m f = Some fl" and bss: "mapR (store_body enc) (m_objects fl) = Inr bss"
    and c: "in_loading m c (before f 0)" and loader: "loader_of c f = Some (concat bss)"
  shows "\<exists>c'. endLoad n dec f c = Inr c' \<and> in_loading m c' (before f (length (m_objects fl))) \<and>
    loader_of c' = (loader_of c)(f := None)"
proof -
  from in_loading_objects [OF c f] obtain fl' where fl': "map_of c f = Some fl'" "length (m_objects fl') = length (m_objects fl)" by blast
  from load_bodies_back [OF db f bss le0 c, of "[]"] obtain c' where
    c': "load_bodies n dec f [0..<length (m_objects fl)] c (concat bss) = Inr (c', [])"
      "in_loading m c' (before f (length (m_objects fl)))"
      "\<And>k. map_option m_pLoader (map_of c' k) = map_option m_pLoader (map_of c k)" by auto
  let ?c = "update_file f (\<lambda>file. file\<lparr>m_pLoader := None\<rparr>) c'"
  have "heap_of ?c = heap_of c'" by (rule ext) (simp add: heap_of_def option.map_comp comp_def)
  moreover have "map_option (\<lambda>fl. (m_filePath fl, m_file fl)) (map_of ?c k) = map_option (\<lambda>fl. (m_filePath fl, m_file fl)) (map_of c' k)" for k
    by (simp add: option.map_comp comp_def)
  ultimately have "in_loading m ?c (before f (length (m_objects fl)))" using c'(2) by (simp add: in_loading_def)
  moreover have "loader_of ?c k = ((loader_of c)(f := None)) k" for k
    using c'(3) [of k] by (cases "map_of c k"; cases "map_of c' k") (simp_all add: loader_of_def)
  moreover have "endLoad n dec f c = Inr ?c"
    using loader fl' c'(1) by (simp add: endLoad_def loader_of_def)
  ultimately show ?thesis by blast
qed

text \<open>The files are loaded in the order of their ids.\<close>

lemma before_first:
  assumes "map_sorted sint (pre @ (f, fl) # post)" and "g \<in> fst ` set (pre @ (f, fl) # post)"
  shows "before f 0 g j \<longleftrightarrow> g \<in> fst ` set pre"
  using assms by (auto simp: before_def map_sorted_def sorted_wrt_append)

lemma before_last:
  assumes "map_sorted sint (pre @ (f, fl) # post)" and "g \<in> fst ` set (pre @ (f, fl) # post)" and "g = f \<longrightarrow> j < len"
  shows "before f len g j \<longleftrightarrow> g \<in> fst ` set (pre @ [(f, fl)])"
  using before_first [OF assms(1,2)] assms(3) by (auto simp: before_def)

lemma in_loading_cong:
  assumes "in_loading m c L"
    and "\<And>g fl j. map_of m g = Some fl \<Longrightarrow> j < length (m_objects fl) \<Longrightarrow> L g j = L' g j"
  shows "in_loading m c L'"
proof -
  have "heap_with L (heap_of m) = heap_with L' (heap_of m)"
    using assms(2) by (intro heap_with_cong) (auto simp: heap_of_def)
  with assms(1) show ?thesis by (simp add: in_loading_def)
qed

lemma endLoads_back:
  assumes db: "database_ok n m"
  shows "m = pre @ post \<Longrightarrow> in_loading m c (\<lambda>g j. g \<in> fst ` set pre) \<Longrightarrow>
    \<forall>(f, fl) \<in> set post. \<exists>bss. mapR (store_body enc) (m_objects fl) = Inr bss \<and> loader_of c f = Some (concat bss) \<Longrightarrow>
    \<exists>c'. foldR (endLoad n dec) (map fst post) c = Inr c' \<and> in_loading m c' (\<lambda>_ _. True) \<and>
      (\<forall>g. loader_of c' g = (if g \<in> fst ` set post then None else loader_of c g))"
proof (induction post arbitrary: pre c)
  case Nil
  then have "in_loading m c (\<lambda>_ _. True)"
    by (intro in_loading_cong [OF Nil.prems(2)]) (auto dest: map_of_SomeD intro: rev_image_eqI)
  then show ?case by simp
next
  case (Cons e post)
  obtain f fl where e: "e = (f, fl)" by (cases e)
  have sorted: "map_sorted sint (pre @ (f, fl) # post)" using db Cons.prems(1) e by (simp add: database_ok_def)
  have dist: "distinct (map fst m)" using db by (simp add: database_ok_def map_of_sorted_unique)
  have f: "map_of m f = Some fl" using Cons.prems(1) e by (intro map_of_is_SomeI [OF dist]) simp
  have key: "g \<in> fst ` set (pre @ (f, fl) # post)" if "map_of m g = Some x" for g x
    using imageI [OF map_of_SomeD [OF that], of fst] Cons.prems(1) e by simp
  from Cons.prems(3) e obtain bss where bss: "mapR (store_body enc) (m_objects fl) = Inr bss" "loader_of c f = Some (concat bss)" by auto
  have "in_loading m c (before f 0)"
    by (rule in_loading_cong [OF Cons.prems(2)]) (simp add: before_first [OF sorted key])
  from endLoad_back [OF db f bss(1) this bss(2)] obtain c1 where c1: "endLoad n dec f c = Inr c1"
    "in_loading m c1 (before f (length (m_objects fl)))" "loader_of c1 = (loader_of c)(f := None)" by blast
  have "in_loading m c1 (\<lambda>g j. g \<in> fst ` set (pre @ [e]))"
  proof (rule in_loading_cong [OF c1(2)])
    fix g fl' j assume g: "map_of m g = Some fl'" "j < length (m_objects fl')"
    then have "g = f \<longrightarrow> j < length (m_objects fl)" using f by auto
    from before_last [OF sorted key [OF g(1)] this] e
    show "before f (length (m_objects fl)) g j = (g \<in> fst ` set (pre @ [e]))" by simp
  qed
  moreover have "\<forall>(k, fl) \<in> set post. \<exists>bss. mapR (store_body enc) (m_objects fl) = Inr bss \<and> loader_of c1 k = Some (concat bss)"
    using Cons.prems(1,3) c1(3) dist e by (fastforce intro: rev_image_eqI)
  ultimately obtain c' where "foldR (endLoad n dec) (map fst post) c1 = Inr c'" "in_loading m c' (\<lambda>_ _. True)"
    "\<forall>g. loader_of c' g = (if g \<in> fst ` set post then None else loader_of c1 g)"
    using Cons.IH [of "pre @ [e]" c1] Cons.prems(1) by auto
  with c1 e show ?case by auto
qed

end

text \<open>A loaded database: the same files, with related objects and without loaders.\<close>

definition same_file :: "'b indexed_file \<Rightarrow> 'b indexed_file \<Rightarrow> bool" where
  "same_file a b \<longleftrightarrow> m_filePath a = m_filePath b \<and> m_file a = m_file b \<and> m_pLoader b = None \<and>
     list_all2 (rel_option same_object) (m_objects a) (m_objects b)"

definition same_database :: "'b file_map \<Rightarrow> 'b file_map \<Rightarrow> bool" where
  "same_database m c \<longleftrightarrow> list_all2 (\<lambda>(k, a) (k', b). k = k' \<and> same_file a b) m c"

lemma opened_in_loading:
  assumes db: "database_ok n m" and c: "opened enc m c" "map fst c = map fst m"
  shows "in_loading m c (\<lambda>_ _. False)"
proof -
  have "\<exists>fl fl'. map_of m k = Some fl \<and> map_of c k = Some fl' \<and> begun enc m k fl'" if "map_of m k \<noteq> None" for k
  proof -
    from that have "k \<in> fst ` set c" using c(2) by (metis dom_map_of_conv_image_fst domIff set_map)
    then obtain fl' where "map_of c k = Some fl'" by (metis dom_map_of_conv_image_fst domD)
    with c(1) that show ?thesis by (auto simp: opened_def)
  qed
  note both = this
  have none: "map_of c k = None" if "map_of m k = None" for k
    using opened_keys [OF c(1)] that by auto
  have "map_option (\<lambda>fl. (m_filePath fl, m_file fl)) (map_of c k) = map_option (\<lambda>fl. (m_filePath fl, m_file fl)) (map_of m k)" for k
    using both [of k] none [of k] database_okD(1) [OF db, of k] by (cases "map_of m k") (auto simp: begun_def)
  moreover have "rel_option (list_all2 (rel_option same_object)) (heap_with (\<lambda>_ _. False) (heap_of m) k) (heap_of c k)" for k
  proof (cases "map_of m k")
    case (Some fl)
    with both [of k] obtain fl' where fl': "map_of c k = Some fl'" "m_objects fl' = map (map_option fresh) (m_objects fl)"
      by (auto simp: begun_def)
    have "rel_option same_object (map_option fresh ob) (map_option fresh ob)" for ob
      by (cases ob) (simp_all add: same_object_def same_members_def fresh_def)
    then have "list_all2 (rel_option same_object) (loaded_part (\<lambda>_. False) (m_objects fl)) (m_objects fl')"
      using fl'(2) by (intro list_all2_all_nthI) simp_all
    with Some fl'(1) show ?thesis by (simp add: heap_of_def heap_with_def)
  next
    case None
    with none show ?thesis by (simp add: heap_of_def heap_with_def)
  qed
  ultimately show ?thesis using c(2) by (simp add: in_loading_def same_heap_def)
qed

lemma same_database_loaded:
  assumes db: "database_ok n m" and c: "in_loading m c (\<lambda>_ _. True)" and loaders: "\<forall>g. loader_of c g = None"
  shows "same_database m c"
proof -
  have keys: "map fst c = map fst m" using c by (simp add: in_loading_def)
  have dist: "distinct (map fst m)" using db by (simp add: database_ok_def map_of_sorted_unique)
  have "length m = length c" using keys by (metis length_map)
  then show ?thesis
    unfolding same_database_def
  proof (rule list_all2_all_nthI)
    fix i assume i: "i < length m"
    obtain k a where a: "m ! i = (k, a)" by (cases "m ! i")
    obtain k' b where b: "c ! i = (k', b)" by (cases "c ! i")
    from a b keys i \<open>length m = length c\<close> have "k' = k" by (metis fst_conv nth_map)
    have ma: "map_of m k = Some a" using a i by (intro map_of_is_SomeI [OF dist]) (metis nth_mem)
    have mb: "map_of c k = Some b"
      using b i \<open>k' = k\<close> \<open>length m = length c\<close> keys dist by (intro map_of_is_SomeI) (metis, metis nth_mem)
    from c have "(m_filePath b, m_file b) = (m_filePath a, m_file a)"
      using ma mb by (fastforce simp: in_loading_def dest: spec [of _ k])
    moreover have "list_all2 (rel_option same_object) (m_objects a) (m_objects b)"
      using c ma mb by (auto simp: in_loading_def same_heap_def heap_with_all heap_of_def dest: spec [of _ k])
    moreover have "m_pLoader b = None" using loaders mb by (auto simp: loader_of_def dest: spec [of _ k])
    ultimately show "(case m ! i of (k, a) \<Rightarrow> \<lambda>(k', b). k = k' \<and> same_file a b) (c ! i)"
      using a b \<open>k' = k\<close> by (simp add: same_file_def)
  qed
qed

context archive
begin

lemma load_database:
  assumes db: "database_ok n m" and disk: "on_disk enc disk tables m" and f: "(f, p) \<in> set (file_table m)"
    and all: "fst ` set m \<subseteq> fst ` set (tables f)" and d: "length m < d"
  shows "\<exists>c. IndexedFile_load d n dec disk (p, f) [] = Inr c \<and> same_database m c"
proof -
  from all_opened [OF assms] obtain c0 where c0: "beginLoadingFile d dec disk (p, f) [] = Inr c0" "opened enc m c0"
    "map fst c0 = map fst m" by blast
  have start: "in_loading m c0 (\<lambda>g j. g \<in> fst ` set [])" using opened_in_loading [OF db c0(2,3)] by simp
  have dist: "distinct (map fst m)" using db by (simp add: database_ok_def map_of_sorted_unique)
  have "\<exists>bss. mapR (store_body enc) (m_objects fl) = Inr bss \<and> loader_of c0 k = Some (concat bss)" if "(k, fl) \<in> set m" for k fl
  proof -
    have m: "map_of m k = Some fl" by (rule map_of_is_SomeI [OF dist that])
    from in_loading_objects [OF start m] obtain fl' where c: "map_of c0 k = Some fl'" by blast
    with c0(2) have "begun enc m k fl'" by (simp add: opened_def)
    with m c show ?thesis by (auto simp: begun_def loader_of_def)
  qed
  then obtain c where c: "foldR (endLoad n dec) (map fst m) c0 = Inr c" "in_loading m c (\<lambda>_ _. True)"
    "\<forall>g. loader_of c g = (if g \<in> fst ` set m then None else loader_of c0 g)"
    using endLoads_back [OF db _ start, of m] by auto
  have "loader_of c g = None" for g
  proof (cases "g \<in> fst ` set m")
    case False
    then have "map_of c0 g = None" using c0(3) by (metis map_of_eq_None_iff set_map)
    with c(3) False show ?thesis by (simp add: loader_of_def)
  qed (use c(3) in simp)
  with same_database_loaded [OF db c(2)] c0 c(1) show ?thesis by (simp add: IndexedFile_load_def)
qed

lemma IndexedFile_stores:
  assumes "objects_ok n h f objs"
  shows "\<exists>bs. IndexedFile_store enc f tbl objs = Inr bs"
proof -
  have "\<exists>bs. store_body enc x = Inr bs" if "x \<in> set objs" for x
  proof -
    from that obtain i where i: "i < length objs" "objs ! i = x" by (auto simp: in_set_conv_nth)
    from file_objectsD [OF assms i(1)] obtain ob where "x = Some ob" "body_ok n h f i ob" using i(2) by metis
    with members_round_trip [of n "types_of h"] show ?thesis by (fastforce simp: store_body_def body_ok_def)
  qed
  then obtain bss where "mapR (store_body enc) objs = Inr bss" using mapR_total by blast
  with store_headers [OF assms, of enc] show ?thesis by (simp add: IndexedFile_store_def)
qed

lemma AppendingSession_stores:
  assumes db: "database_ok n m"
  shows "\<exists>disk'. AppendingSession_store enc m disk = Inr disk' \<and> on_disk enc disk' (\<lambda>_. file_table m) m"
proof -
  let ?step = "\<lambda>(k, fl) disk. bindR (IndexedFile_store enc (m_file fl) (file_table m) (m_objects fl)) (\<lambda>bs. Inr (disk(m_filePath fl \<mapsto> bs)))"
  let ?on = "\<lambda>disk (k, fl). \<exists>bs. disk (m_filePath fl) = Some bs \<and> IndexedFile_store enc k (file_table m) (m_objects fl) = Inr bs"
  have "m = pre @ post \<Longrightarrow> \<forall>e \<in> set pre. ?on disk e \<Longrightarrow> \<exists>disk'. foldR ?step post disk = Inr disk' \<and> (\<forall>e \<in> set m. ?on disk' e)" for pre post disk
  proof (induction post arbitrary: pre disk)
    case (Cons e post)
    obtain k fl where e: "e = (k, fl)" by (cases e)
    with Cons.prems(1) db have k: "m_file fl = k" "objects_ok n (heap_of m) k (m_objects fl)"
      by (auto simp: database_ok_def list_all_iff)
    from IndexedFile_stores [OF k(2)] obtain bs where bs: "IndexedFile_store enc k (file_table m) (m_objects fl) = Inr bs" by blast
    have "m_filePath fl \<notin> (\<lambda>e. m_filePath (snd e)) ` set pre"
      using db Cons.prems(1) e by (simp add: database_ok_def)
    then have "\<forall>e' \<in> set pre. m_filePath (snd e') \<noteq> m_filePath fl" by (metis image_eqI)
    with Cons.prems(2) bs e have "\<forall>e \<in> set (pre @ [e]). ?on (disk(m_filePath fl \<mapsto> bs)) e" by fastforce
    from Cons.IH [OF _ this] Cons.prems(1) e k(1) bs show ?case by simp
  qed simp
  from this [of "[]" m disk] obtain disk' where "AppendingSession_store enc m disk = Inr disk'" "\<forall>e \<in> set m. ?on disk' e"
    by (auto simp: AppendingSession_store_def)
  moreover have "counted (file_table m)" using db by (simp add: database_ok_def file_table_def counted_def)
  ultimately show ?thesis by (auto simp: on_disk_def)
qed

end

section \<open>A session with a new file\<close>

text \<open>The database with the new file of a session in it.\<close>

definition with_new_file :: "'b file_map \<Rightarrow> FileID \<Rightarrow> indexed_object option list \<Rightarrow> string \<Rightarrow> 'b file_map" where
  "with_new_file m f objs path =
     map_insert_new sint f \<lparr>m_filePath = path, m_file = f, m_files = [], m_objects = objs, m_pLoader = None\<rparr> m"

lemma file_table_with_new:
  assumes "\<forall>(k, fl) \<in> set m. m_file fl = k"
  shows "file_table (with_new_file m f objs path) = map_insert_new sint f path (file_table m)"
proof -
  have "mm_lookup sint x (file_table m) = [] \<longleftrightarrow> mm_lookup sint x m = []" for x
    using assms by (induction m) (auto simp: file_table_def split: if_splits)
  moreover have "file_table (mm_insert sint f \<lparr>m_filePath = path, m_file = f, m_files = [], m_objects = objs, m_pLoader = None\<rparr> m) =
      mm_insert sint f path (file_table m)"
    using assms by (induction m) (auto simp: file_table_def)
  ultimately show ?thesis by (simp add: with_new_file_def map_insert_new_def)
qed

lemma with_new_file_entries:
  assumes "map_of m f = None"
  shows "set (with_new_file m f objs path) =
    insert (f, \<lparr>m_filePath = path, m_file = f, m_files = [], m_objects = objs, m_pLoader = None\<rparr>) (set m)"
proof -
  from assms have "f \<notin> fst ` set m" by (simp add: map_of_eq_None_iff)
  then have "mm_lookup sint (sint f) m = []" by (force simp: mm_lookup_Nil_iff simp flip: word_eq_iff_signed)
  then show ?thesis by (simp add: with_new_file_def map_insert_new_def)
qed

section \<open>A sample\<close>

text \<open>A type alias of the input tree in the master file; its interface element and the identifiers in a new file.\<close>

definition demo_object :: "FileID \<Rightarrow> Index \<Rightarrow> ObjectType \<Rightarrow> members \<Rightarrow> indexed_object option" where
  "demo_object f i t u = Some \<lparr>o_type = t, o_header = \<lparr>m_type = type_number t, m_fileID = f, m_index = i\<rparr>, o_members = u\<rparr>"

definition demo_master :: "prim file_map" where
  "demo_master =
     [(0, \<lparr>m_filePath = ''tree.db'', m_file = 0, m_files = [], m_objects =
        [demo_object 0 0 eInputOpaque [''m_bSemantic'' \<mapsto> VPrim (PBool False), ''m_str'' \<mapsto> VPrim (PString ''int'')],
         demo_object 0 1 eInputUsing [''m_strIdentifier'' \<mapsto> VPrim (PString ''Count''), ''m_pType'' \<mapsto> VRef (Some (0, 0))]],
       m_pLoader = None\<rparr>)]"

definition demo_new :: "indexed_object option list" where
  "demo_new =
     (let element = Some (1, 0) in
      [demo_object 1 0 eAbstractUsing
         [''m_pElement'' \<mapsto> VRef (Some (0, 1)), ''m_pParent'' \<mapsto> VRef None, ''m_visibility'' \<mapsto> VPrim (PEnum 0),
          ''pIncludeIdentifier'' \<mapsto> VRef None, ''m_children'' \<mapsto> VRefs [], ''m_pUsing'' \<mapsto> VRef (Some (0, 1)),
          ''m_canonicalType'' \<mapsto> VPrim (PString ''int'')],
       demo_object 1 1 eIdentifiers
         [''m_identifierMap'' \<mapsto> VKeyMap [(PString ''Count'', element)],
          ''m_identifierGroups'' \<mapsto> VPairs [(element, element)],
          ''m_identifierGroupsBack'' \<mapsto> VPairs [(element, element)]]])"

definition demo_database :: "prim file_map" where
  "demo_database = with_new_file demo_master 1 demo_new ''index.db''"

definition demo_disk :: "prim disk" where
  "demo_disk = [''tree.db'' \<mapsto>
     case IndexedFile_store token_encoder 0 (file_table demo_master) (m_objects (snd (hd demo_master))) of Inl e \<Rightarrow> [] | Inr bs \<Rightarrow> bs]"

lemmas demo_database_defs =
  demo_database_def with_new_file_def demo_master_def demo_new_def demo_object_def Let_def map_insert_new_def

lemma demo_heap: "heap_of demo_database = (\<lambda>f. if f = 0 then Some (m_objects (snd (hd demo_master))) else if f = 1 then Some demo_new else None)"
  by (rule ext) (simp add: heap_of_def demo_database_defs)

lemmas demo_ok_simps =
  header_ok_def body_ok_def members_ok_def member_ok_def cast_ok_def class_ok_def pairs_ok_def counted_def pointer_ok_def
  find_object_def types_of_def class_steps input_Element_def interface_Element_def map_sorted_def identifiers_known_def
  NO_FILE_def mm_sorted_def

lemma demo_identifier: "getIdentifier (heap_with (before 1 1) (heap_of demo_database)) (Some (1, 0)) = Inr ''Count''"
  unfolding demo_heap by (simp add: getIdentifier_def ref_member_def member_of_def object_at_def input_identifier_def heap_with_def
      loaded_part_def before_def demo_database_defs)

lemma demo_objects_ok:
  "objects_ok n (heap_of demo_database) 0 (m_objects (snd (hd demo_master)))"
  "objects_ok n (heap_of demo_database) 1 demo_new"
  using demo_identifier
  by (auto simp: objects_ok_def demo_ok_simps demo_heap demo_master_def demo_new_def demo_object_def Let_def)

lemma demo_database_list:
  "demo_database = [hd demo_master, (1, \<lparr>m_filePath = ''index.db'', m_file = 1, m_files = [], m_objects = demo_new, m_pLoader = None\<rparr>)]"
  by (simp add: demo_database_def with_new_file_def map_insert_new_def demo_master_def)

lemma demo_database_ok: "database_ok n demo_database"
proof -
  have "list_all (\<lambda>(k, fl). m_file fl = k \<and> objects_ok n h k (m_objects fl)) demo_database" if "h = heap_of demo_database" for h
    unfolding demo_database_list using demo_objects_ok that by (simp add: demo_master_def)
  moreover have "map_sorted sint demo_database" "distinct (map (\<lambda>e. m_filePath (snd e)) demo_database)" "counted demo_database"
    by (simp_all add: demo_database_list demo_master_def map_sorted_def counted_def)
  ultimately show ?thesis by (simp add: database_ok_def)
qed

lemma demo_on_disk: "on_disk token_encoder demo_disk (\<lambda>_. file_table demo_master) demo_master"
proof -
  from tokens.IndexedFile_stores [OF demo_objects_ok(1)] obtain bs where
    "IndexedFile_store token_encoder 0 (file_table demo_master) (m_objects (snd (hd demo_master))) = Inr bs" by blast
  then show ?thesis by (simp add: on_disk_def demo_disk_def demo_master_def file_table_def counted_def)
qed

section \<open>New objects\<close>

text \<open>The objects that a session constructs carry the header of their place.\<close>

lemma CreatingSession_construct_headers:
  assumes "\<forall>i < length objs. \<exists>ob. objs ! i = Some ob \<and> header_ok f i ob"
  shows "\<forall>i < length (CreatingSession_construct f t u objs).
    \<exists>ob. CreatingSession_construct f t u objs ! i = Some ob \<and> header_ok f i ob"
  using assms by (auto simp: CreatingSession_construct_def new_object_def header_ok_def nth_append less_Suc_eq)

text \<open>The id at the start of a stored file is the one it was stored with.\<close>

lemma readFileID_back:
  assumes "archive enc dec" and "IndexedFile_store enc f tbl objs = Inr bs"
  shows "readFileID dec bs = Inr f"
  using assms(2) archive.load_int_back [OF assms(1)]
  by (auto simp: IndexedFile_store_def readFileID_def bindR_eq_Inr)

section \<open>The round trips\<close>

text \<open>C29. After \<open>AppendingSession::store\<close> of a well-formed database, every file that a session is constructed
  from brings all files of the database back, each with the same objects, although the tables of the files
  refer to each other in cycles: the objects have the same types, headers and members, with the variables of
  the instruction trees at other addresses. This holds for every archive that reads back single values.\<close>

theorem AppendingSession_round_trip:
  assumes "archive enc dec" and "database_ok n m" and "(f, path) \<in> set (file_table m)" and "length m < d"
  shows "\<exists>disk' c. AppendingSession_store enc m disk = Inr disk' \<and>
    Session_of_file d n dec disk' (path, f) = Inr c \<and> same_database m c"
proof -
  from archive.AppendingSession_stores [OF assms(1,2)] obtain disk' where
    1: "AppendingSession_store enc m disk = Inr disk'" "on_disk enc disk' (\<lambda>_. file_table m) m" by blast
  have "fst ` set m \<subseteq> fst ` set (file_table m)"
    using assms(2) by (force simp: database_ok_def list_all_iff file_table_def)
  from archive.load_database [OF assms(1,2) 1(2) assms(3) this assms(4)] 1(1) show ?thesis
    by (auto simp: Session_of_file_def)
qed

theorem AppendingSession_round_trip_witness:
  "\<exists>disk' c. AppendingSession_store token_encoder demo_database Map.empty = Inr disk' \<and>
     Session_of_file 3 0 token_decoder disk' (''index.db'', 1) = Inr c \<and> same_database demo_database c"
  by (rule AppendingSession_round_trip [OF tokens.archive_axioms demo_database_ok])
    (simp_all add: demo_database_list demo_master_def file_table_def)

text \<open>The disk after the new file is stored.\<close>

lemma on_disk_with_new:
  fixes m :: "'b file_map"
  assumes disk: "on_disk enc disk tables m" and f: "map_of m f = None" and db: "database_ok n (with_new_file m f objs path)"
    and bs: "IndexedFile_store enc f (file_table (with_new_file m f objs path)) objs = Inr bs"
  shows "on_disk enc (disk(path \<mapsto> bs)) (tables(f := file_table (with_new_file m f objs path))) (with_new_file m f objs path)"
proof -
  let ?m = "with_new_file m f objs path"
    and ?new = "(f, \<lparr>m_filePath = path, m_file = f, m_files = [], m_objects = objs, m_pLoader = None\<rparr>) :: FileID \<times> 'b indexed_file"
  note entries = with_new_file_entries [OF f, of objs path]
  have old: "k \<noteq> f" if "(k, fl) \<in> set m" for k fl using that f by (force simp: map_of_eq_None_iff)
  have path: "m_filePath fl \<noteq> path" if "(k, fl) \<in> set m" for k fl
  proof
    assume "m_filePath fl = path"
    then have "m_filePath (snd (k, fl)) = m_filePath (snd ?new)" by simp
    moreover have "inj_on (\<lambda>e. m_filePath (snd e)) (set ?m)" using db by (simp add: database_ok_def distinct_map)
    moreover have "(k, fl) \<in> set ?m" "?new \<in> set ?m" using that entries by simp_all
    ultimately have "(k, fl) = ?new" by (metis (no_types, lifting) inj_onD)
    with old [OF that] show False by simp
  qed
  have sub: "set (file_table m) \<subseteq> set (file_table ?m)" using entries by (auto simp: file_table_def)
  have counted: "counted (file_table ?m)" using db by (simp add: database_ok_def file_table_def counted_def)
  let ?tables = "tables(f := file_table ?m)" and ?disk = "disk(path \<mapsto> bs)"
  have "counted (?tables k) \<and> set (?tables k) \<subseteq> set (file_table ?m) \<and>
      (\<exists>bs. ?disk (m_filePath fl) = Some bs \<and> IndexedFile_store enc k (?tables k) (m_objects fl) = Inr bs)"
    if e: "(k, fl) \<in> set ?m" for k fl
  proof (cases "(k, fl) \<in> set m")
    case True
    with disk have "counted (tables k) \<and> set (tables k) \<subseteq> set (file_table m) \<and>
        (\<exists>bs. disk (m_filePath fl) = Some bs \<and> IndexedFile_store enc k (tables k) (m_objects fl) = Inr bs)"
      by (auto simp: on_disk_def)
    with old [OF True] path [OF True] sub show ?thesis by auto
  next
    case False
    with e entries have "k = f" "m_filePath fl = path" "m_objects fl = objs" by simp_all
    with counted bs show ?thesis by simp
  qed
  then show ?thesis unfolding on_disk_def by blast
qed

lemma length_with_new: "map_of m f = None \<Longrightarrow> length (with_new_file m f objs path) = Suc (length m)"
proof -
  assume "map_of m f = None"
  then have "mm_lookup sint (sint f) m = []"
    by (force simp: map_of_eq_None_iff mm_lookup_Nil_iff simp flip: word_eq_iff_signed)
  moreover have "length (mm_insert sint f x m) = Suc (length m)" for x by (induction m) auto
  ultimately show ?thesis by (simp add: with_new_file_def map_insert_new_def)
qed

text \<open>C30. When the files of a database are on the disk, \<open>CreatingSession::store\<close> of a new file writes a file from
  which a session loads the whole database together with the new objects, also those that refer to objects
  of the older files.\<close>

theorem CreatingSession_round_trip:
  assumes "archive enc dec" and "on_disk enc disk tables m"
    and "map_of m f = None" and "database_ok n (with_new_file m f objs path)" and "Suc (length m) < d"
  shows "\<exists>disk' c. CreatingSession_store enc m f objs path disk = Inr disk' \<and>
    Session_of_file d n dec disk' (path, f) = Inr c \<and> same_database (with_new_file m f objs path) c"
proof -
  let ?m = "with_new_file m f objs path"
  note entries = with_new_file_entries [OF assms(3), of objs path]
  have keys: "\<forall>(k, fl) \<in> set ?m. m_file fl = k" using assms(4) by (auto simp: database_ok_def list_all_iff)
  then have table: "file_table ?m = map_insert_new sint f path (file_table m)"
    using entries by (intro file_table_with_new) auto
  from assms(4) entries have "objects_ok n (heap_of ?m) f objs" by (auto simp: database_ok_def list_all_iff)
  from archive.IndexedFile_stores [OF assms(1) this] obtain bs where
    bs: "IndexedFile_store enc f (file_table ?m) objs = Inr bs" by blast
  note disk = on_disk_with_new [OF assms(2-4) bs]
  have "(f, path) \<in> set (file_table ?m)" using entries by (force simp: file_table_def)
  moreover have "fst ` set ?m \<subseteq> fst ` set ((tables(f := file_table ?m)) f)" using keys by (force simp: file_table_def)
  ultimately have "\<exists>c. IndexedFile_load d n dec (disk(path \<mapsto> bs)) (path, f) [] = Inr c \<and> same_database ?m c"
    using assms(5) length_with_new [OF assms(3), of objs path] by (intro archive.load_database [OF assms(1,4) disk]) simp_all
  with bs table show ?thesis by (auto simp: CreatingSession_store_def Session_of_file_def)
qed

theorem CreatingSession_round_trip_witness:
  "\<exists>disk' c. CreatingSession_store token_encoder demo_master 1 demo_new ''index.db'' demo_disk = Inr disk' \<and>
     Session_of_file 3 0 token_decoder disk' (''index.db'', 1) = Inr c \<and>
     same_database (with_new_file demo_master 1 demo_new ''index.db'') c"
  by (rule CreatingSession_round_trip [OF tokens.archive_axioms demo_on_disk _ demo_database_ok [unfolded demo_database_def]])
    (simp_all add: demo_master_def)

end
