(* ===== verification/InterfaceSession.thy ===== *)
theory InterfaceSession
  imports Derivation
begin

text \<open>
  The instance analysis of \<open>src/eg/sessions/interface_session.cpp\<close>, which unfolds the tree of interface
  contexts into the tree of concrete actions: every action gets a tree of inheritance nodes, one for
  each inherited context, and the members of the inherited contexts become its children, a member of a
  more derived context taking the place of one with the same identifier in its bases. A session
  appends every object it constructs to the array of the master file (\<open>AppendingSession::construct\<close> in
  \<open>eg_compiler/sessions/session.hpp\<close>).
\<close>

section \<open>The session\<close>

text \<open>The members of \<open>concrete::Action\<close> besides those of \<open>concrete::Element\<close>.\<close>

datatype allocator_kind = NothingAllocator | SingletonAllocator | RangeAllocator "idx option"

record allocator =
  al_kind :: allocator_kind
  al_allocating :: "idx option"
  al_allocated :: idx

record action_data =
  ac_object :: "idx option"
  ac_inheritance :: "idx option"
  ac_allocator :: "idx option"
  ac_name :: string
  ac_stopCycle :: "idx option"
  ac_state :: "idx option"
  ac_reference :: "idx option"
  ac_linkRefCount :: "idx option"
  ac_allocators :: "idx \<rightharpoonup> idx"

definition new_action_data :: action_data where
  "new_action_data =
     \<lparr>ac_object = None, ac_inheritance = None, ac_allocator = None, ac_name = [], ac_stopCycle = None,
      ac_state = None, ac_reference = None, ac_linkRefCount = None, ac_allocators = \<lambda>_. None\<rparr>"

record session =
  ss_objects :: database
  ss_derivation :: derivation_analysis
  ss_action :: "idx \<Rightarrow> action_data"
  ss_allocator :: "idx \<Rightarrow> allocator option"

definition construct :: "indexed_object \<Rightarrow> session \<Rightarrow> idx \<times> session" where
  "construct object s = (length (ss_objects s), s\<lparr>ss_objects := ss_objects s @ [object]\<rparr>)"

definition update_element :: "idx \<Rightarrow> (concrete_element \<Rightarrow> concrete_element) \<Rightarrow> session \<Rightarrow> session result" where
  "update_element i f s =
     bindR (conc (ss_objects s) i) (\<lambda>e.
       Inr (s\<lparr>ss_objects := (ss_objects s)[i := ConcreteElement (f e)]\<rparr>))"

definition update_node :: "idx \<Rightarrow> (inheritance_node \<Rightarrow> inheritance_node) \<Rightarrow> session \<Rightarrow> session result" where
  "update_node i f s =
     bindR (inh (ss_objects s) i) (\<lambda>N.
       Inr (s\<lparr>ss_objects := (ss_objects s)[i := InheritanceNode (f N)]\<rparr>))"

definition update_action :: "idx \<Rightarrow> (action_data \<Rightarrow> action_data) \<Rightarrow> session \<Rightarrow> session" where
  "update_action i f s = s\<lparr>ss_action := (ss_action s)(i := f (ss_action s i))\<rparr>"

definition add_instance :: "idx \<Rightarrow> idx \<Rightarrow> session \<Rightarrow> session" where
  "add_instance e c s =
     s\<lparr>ss_derivation := (ss_derivation s)\<lparr>m_instanceMap := m_instanceMap (ss_derivation s) @ [(e, c)]\<rparr>\<rparr>"

definition ident :: "database \<Rightarrow> idx \<Rightarrow> string" where
  "ident db i = (case interface_at db i of Some e \<Rightarrow> if_identifier e | None \<Rightarrow> [])"

section \<open>The children of a context\<close>

text \<open>\<open>collateChildren\<close>: the contexts and the dimensions among the children, objects left out. \<open>Root\<close> has
  the type \<open>eAbstractRoot\<close> and is a context.\<close>

fun collateChildren_loop :: "database \<Rightarrow> idx list \<Rightarrow> idx list \<Rightarrow> idx list \<Rightarrow> (idx list \<times> idx list) result" where
  "collateChildren_loop db [] actions dimensions = Inr (actions, dimensions)"
| "collateChildren_loop db (x # xs) actions dimensions =
     (case interface_at db x of
        None \<Rightarrow> Inl UndefinedBehaviour
      | Some e \<Rightarrow>
          (case if_class e of
             Opaque \<Rightarrow> collateChildren_loop db xs actions dimensions
           | Include \<Rightarrow> collateChildren_loop db xs actions dimensions
           | Using \<Rightarrow> collateChildren_loop db xs actions dimensions
           | Export \<Rightarrow> collateChildren_loop db xs actions dimensions
           | Dimension \<Rightarrow> collateChildren_loop db xs actions (dimensions @ [x])
           | Object \<Rightarrow> collateChildren_loop db xs actions dimensions
           | _ \<Rightarrow> collateChildren_loop db xs (actions @ [x]) dimensions))"

definition collateChildren :: "database \<Rightarrow> idx \<Rightarrow> (idx list \<times> idx list) result" where
  "collateChildren db c =
     (case context_at db c of
        None \<Rightarrow> Inl UndefinedBehaviour
      | Some e \<Rightarrow> collateChildren_loop db (if_children e) [] [])"

section \<open>The inheritance tree of an action\<close>

definition constructInheritanceNode :: "idx \<Rightarrow> idx option \<Rightarrow> idx \<Rightarrow> session \<Rightarrow> (idx \<times> session) result" where
  "constructInheritanceNode action parent context s =
     (case construct (InheritanceNode \<lparr>in_rootConcreteAction = action, in_context = context, in_parent = parent,
         in_children = [], in_actions = [], in_dimensions = []\<rparr>) s of (n, s) \<Rightarrow>
      bindR (case parent of
               None \<Rightarrow> Inr s
             | Some p \<Rightarrow> update_node p (\<lambda>P. P\<lparr>in_children := in_children P @ [n]\<rparr>) s) (\<lambda>s.
      Inr (n, s\<lparr>ss_derivation := (ss_derivation s)
        \<lparr>m_inheritanceMap := m_inheritanceMap (ss_derivation s) @ [(context, n)]\<rparr>\<rparr>)))"

text \<open>The context types that inherit nothing.\<close>

definition inherits_bases :: "database \<Rightarrow> idx \<Rightarrow> bool" where
  "inherits_bases db c =
     (case interface_at db c of Some e \<Rightarrow> if_class e \<noteq> Link \<and> if_class e \<noteq> Function | None \<Rightarrow> False)"

fun constructInheritanceTree :: "nat \<Rightarrow> idx \<Rightarrow> idx option \<Rightarrow> idx \<Rightarrow> session \<Rightarrow> (idx \<times> session) result" where
  "constructInheritanceTree 0 action parent context s = Inl OutOfFuel"
| "constructInheritanceTree (Suc k) action parent context s =
     bindR (constructInheritanceNode action parent context s) (\<lambda>(n, s).
     bindR (if inherits_bases (ss_objects s) context then
              foldR (\<lambda>b s.
                if is_Link (ss_objects s) b
                then Inl (RuntimeError ''Invalid use of link type in inheritance list'')
                else bindR (constructInheritanceTree k action (Some n) b s) (\<lambda>(m, s). Inr s))
                (getBaseContexts (ss_objects s) context) s
            else Inr s) (\<lambda>s.
     Inr (n, s)))"

section \<open>The members of an action\<close>

definition calculateInstanceActionName :: "idx \<Rightarrow> session \<Rightarrow> session result" where
  "calculateInstanceActionName a s =
     (case parent_of (ss_objects s) a of
        None \<Rightarrow> Inr s
      | Some p \<Rightarrow>
          if \<not> is_action (ss_objects s) p then Inl UndefinedBehaviour
          else (case getContext (ss_objects s) a of
                  None \<Rightarrow> Inl UndefinedBehaviour
                | Some c \<Rightarrow>
                    (let parent = ac_name (ss_action s p); name = ident (ss_objects s) c in
                     Inr (update_action a (\<lambda>d. d\<lparr>ac_name :=
                       (if parent = [] then name else parent @ ''_'' @ name)\<rparr>) s))))"

text \<open>The construction of a child, for a context, for a dimension or for a dimension that the compiler
  generates, which has no interface element.\<close>

definition construct_child :: "concrete_class \<Rightarrow> idx \<Rightarrow> idx option \<Rightarrow> session \<Rightarrow> (idx \<times> session) result" where
  "construct_child class act element s =
     (case construct (ConcreteElement \<lparr>ce_class = class, ce_parent = Some act, ce_element = element,
         ce_children = []\<rparr>) s of (c, s) \<Rightarrow>
      bindR (update_element act (\<lambda>e. e\<lparr>ce_children := ce_children e @ [c]\<rparr>) s) (\<lambda>s. Inr (c, s)))"

definition construct_action :: "idx \<Rightarrow> idx \<Rightarrow> session \<Rightarrow> (idx \<times> session) result" where
  "construct_action act context s =
     bindR (construct_child ConcreteAction act (Some context) s) (\<lambda>(c, s).
     bindR (calculateInstanceActionName c (update_action c (\<lambda>_. new_action_data) s)) (\<lambda>s.
     Inr (c, add_instance context c s)))"

definition construct_dimension :: "idx \<Rightarrow> idx \<Rightarrow> session \<Rightarrow> (idx \<times> session) result" where
  "construct_dimension act dimension s =
     bindR (construct_child (Dimension_User None) act (Some dimension) s) (\<lambda>(c, s).
     Inr (c, add_instance dimension c s))"

definition record_action :: "idx \<Rightarrow> idx \<Rightarrow> session \<Rightarrow> session result" where
  "record_action n c s = update_node n (\<lambda>N. N\<lparr>in_actions := in_actions N @ [c]\<rparr>) s"

definition record_dimension :: "idx \<Rightarrow> idx \<Rightarrow> session \<Rightarrow> session result" where
  "record_dimension n c s = update_node n (\<lambda>N. N\<lparr>in_dimensions := in_dimensions N @ [c]\<rparr>) s"

text \<open>The two override maps are ordered by the identifiers of their keys (\<open>CompareNodeIdentity\<close>), so they
  are maps from identifiers, and \<open>insert\<close> keeps the entry that is there.\<close>

record collation =
  co_session :: session
  co_actions :: "string \<rightharpoonup> idx"
  co_dimensions :: "string \<rightharpoonup> idx"
  co_constructed :: "idx set"

definition db_of :: "collation \<Rightarrow> database" where
  "db_of co = ss_objects (co_session co)"

text \<open>The loop that follows the parents of an object to the root of the file.\<close>

fun found_parent :: "nat \<Rightarrow> database \<Rightarrow> idx option \<Rightarrow> idx \<Rightarrow> bool result" where
  "found_parent 0 db p r = Inl OutOfFuel"
| "found_parent (Suc k) db None r = Inr False"
| "found_parent (Suc k) db (Some i) r =
     (if i = r then Inr True
      else (case interface_at db i of
              None \<Rightarrow> Inl UndefinedBehaviour
            | Some e \<Rightarrow>
                found_parent k db
                  (case if_parent e of
                     None \<Rightarrow> None
                   | Some p \<Rightarrow> if context_at db p \<noteq> None then Some p else None) r))"

definition collate_object :: "nat \<Rightarrow> idx \<Rightarrow> idx \<Rightarrow> idx \<Rightarrow> idx \<Rightarrow> collation \<Rightarrow> collation result" where
  "collate_object k r act n obj co =
     bindR (found_parent k (db_of co) (Some obj) r) (\<lambda>found.
       if found then
         bindR (verify (obj \<notin> co_constructed co)) (\<lambda>_.
         bindR (construct_action act obj (co_session co)) (\<lambda>(c, s).
         bindR (record_action n c s) (\<lambda>s.
         Inr (co\<lparr>co_session := s, co_constructed := insert obj (co_constructed co),
              co_actions := map_insert (ident (ss_objects s) obj) c (co_actions co)\<rparr>))))
       else Inr co)"

definition isAbstract :: "database \<Rightarrow> idx \<Rightarrow> bool" where
  "isAbstract db c = (case interface_at db c of Some e \<Rightarrow> if_class e = Abstract | None \<Rightarrow> False)"

definition collate_action :: "idx \<Rightarrow> idx \<Rightarrow> idx \<Rightarrow> collation \<Rightarrow> collation result" where
  "collate_action act n child co =
     (if isAbstract (db_of co) child then Inr co
      else (case co_actions co (ident (db_of co) child) of
              None \<Rightarrow>
                bindR (construct_action act child (co_session co)) (\<lambda>(c, s).
                bindR (record_action n c s) (\<lambda>s.
                Inr (co\<lparr>co_session := s,
                     co_actions := map_insert (ident (ss_objects s) child) c (co_actions co)\<rparr>)))
            | Some c \<Rightarrow>
                bindR (record_action n c (co_session co)) (\<lambda>s. Inr (co\<lparr>co_session := s\<rparr>))))"

definition collate_dimension :: "idx \<Rightarrow> idx \<Rightarrow> idx \<Rightarrow> collation \<Rightarrow> collation result" where
  "collate_dimension act n child co =
     (case co_dimensions co (ident (db_of co) child) of
        None \<Rightarrow>
          bindR (construct_dimension act child (co_session co)) (\<lambda>(c, s).
          bindR (record_dimension n c s) (\<lambda>s.
          Inr (co\<lparr>co_session := s,
               co_dimensions := map_insert (ident (ss_objects s) child) c (co_dimensions co)\<rparr>)))
      | Some c \<Rightarrow>
          bindR (record_dimension n c (co_session co)) (\<lambda>s. Inr (co\<lparr>co_session := s\<rparr>)))"

text \<open>A root of a file or of a project takes all objects below it.\<close>

definition takes_objects :: "database \<Rightarrow> idx \<Rightarrow> idx option" where
  "takes_objects db act =
     (case getContext db act of
        None \<Rightarrow> None
      | Some c \<Rightarrow>
          (case interface_at db c of
             None \<Rightarrow> None
           | Some e \<Rightarrow> if if_class e = Root eFileRoot \<or> if_class e = Root eProjectName then Some c else None))"

definition collate_objects :: "nat \<Rightarrow> idx \<Rightarrow> idx \<Rightarrow> idx list \<Rightarrow> collation \<Rightarrow> collation result" where
  "collate_objects k act n objects co =
     (case takes_objects (db_of co) act of
        None \<Rightarrow> Inr co
      | Some r \<Rightarrow> foldR (collate_object k r act n) objects co)"

text \<open>\<open>m\<close> bounds the length of a path in the interface tree and \<open>k\<close> the depth of the recursion.\<close>

fun collateOverrides :: "nat \<Rightarrow> nat \<Rightarrow> idx list \<Rightarrow> idx \<Rightarrow> idx \<Rightarrow> collation \<Rightarrow> collation result" where
  "collateOverrides m 0 objects act n co = Inl OutOfFuel"
| "collateOverrides m (Suc k) objects act n co =
     bindR (inh (db_of co) n) (\<lambda>N.
     bindR (collateChildren (db_of co) (in_context N)) (\<lambda>(actions, dimensions).
     bindR (collate_objects m act n objects co) (\<lambda>co.
     bindR (foldR (collate_action act n) actions co) (\<lambda>co.
     bindR (foldR (collate_dimension act n) dimensions co) (\<lambda>co.
     bindR (inh (db_of co) n) (\<lambda>N.
       foldR (collateOverrides m k objects act) (in_children N) co))))))"

section \<open>The tree of actions\<close>

fun constructInstance :: "nat \<Rightarrow> nat \<Rightarrow> idx list \<Rightarrow> idx \<Rightarrow> session \<times> idx set \<Rightarrow> (session \<times> idx set) result" where
  "constructInstance m 0 objects act sc = Inl OutOfFuel"
| "constructInstance m (Suc k) objects act (s, constructed) =
     (case getContext (ss_objects s) act of
        None \<Rightarrow> Inl UndefinedBehaviour
      | Some context \<Rightarrow>
          bindR (constructInheritanceTree (Suc k) act None context s) (\<lambda>(n, s).
          bindR (collateOverrides m (Suc k) objects act n
            \<lparr>co_session = update_action act (\<lambda>d. d\<lparr>ac_inheritance := Some n\<rparr>) s, co_actions = \<lambda>_. None,
             co_dimensions = \<lambda>_. None, co_constructed = constructed\<rparr>) (\<lambda>co.
          bindR (conc (db_of co) act) (\<lambda>e.
            foldR (\<lambda>c sc. if is_action (ss_objects (fst sc)) c then constructInstance m k objects c sc else Inr sc)
              (ce_children e) (co_session co, co_constructed co)))))"

section \<open>Lookups in the array\<close>

text \<open>\<open>many\<close> and \<open>root\<close> of \<open>eg_compiler/io/indexed_object.hpp\<close>, for a class given by a test and its
  \<open>getParent\<close>.\<close>

definition many :: "(idx \<Rightarrow> bool) \<Rightarrow> database \<Rightarrow> idx list" where
  "many is_class db = filter is_class [0..<length db]"

fun root_loop :: "(idx \<Rightarrow> bool) \<Rightarrow> (idx \<Rightarrow> idx option) \<Rightarrow> idx list \<Rightarrow> idx option \<Rightarrow> idx option result" where
  "root_loop is_class parent [] found = Inr found"
| "root_loop is_class parent (i # is) found =
     (if is_class i \<and> parent i = None then
        bindR (verify (found = None)) (\<lambda>_. root_loop is_class parent is (Some i))
      else root_loop is_class parent is found)"

definition root :: "(idx \<Rightarrow> bool) \<Rightarrow> (idx \<Rightarrow> idx option) \<Rightarrow> database \<Rightarrow> idx result" where
  "root is_class parent db =
     bindR (root_loop is_class parent [0..<length db] None) (\<lambda>found.
       of_option (RuntimeError ''verify'') found)"

definition is_object_at :: "database \<Rightarrow> idx \<Rightarrow> bool" where
  "is_object_at db i = (case interface_at db i of Some e \<Rightarrow> is_Object (if_class e) | None \<Rightarrow> False)"

definition interface_parent :: "database \<Rightarrow> idx \<Rightarrow> idx option" where
  "interface_parent db i = (case interface_at db i of Some e \<Rightarrow> if_parent e | None \<Rightarrow> None)"

definition collate_all_objects :: "database \<Rightarrow> idx \<Rightarrow> idx list" where
  "collate_all_objects db r =
     filter (\<lambda>i. i \<noteq> r \<and> (case interface_at db i of Some e \<Rightarrow> if_class e = Object | None \<Rightarrow> False))
       (many (is_object_at db) db)"

text \<open>\<open>instanceAnalysis\<close> up to the construction of the allocators.\<close>

definition construct_root :: "session \<Rightarrow> (idx \<times> session) result" where
  "construct_root s =
     bindR (root (is_object_at (ss_objects s)) (interface_parent (ss_objects s)) (ss_objects s)) (\<lambda>r.
     case construct (ConcreteElement \<lparr>ce_class = ConcreteAction, ce_parent = None, ce_element = Some r,
         ce_children = []\<rparr>) s of (a, s) \<Rightarrow>
     bindR (calculateInstanceActionName a (update_action a (\<lambda>_. new_action_data) s)) (\<lambda>s.
     Inr (a, add_instance r a s)))"

definition construct_instances :: "nat \<Rightarrow> session \<Rightarrow> (idx \<times> session) result" where
  "construct_instances k s =
     bindR (construct_root s) (\<lambda>(a, s).
     case getContext (ss_objects s) a of
       None \<Rightarrow> Inl UndefinedBehaviour
     | Some r \<Rightarrow>
         (let objects = collate_all_objects (ss_objects s) r in
          bindR (constructInstance k k objects a (s, {})) (\<lambda>(s, constructed).
          bindR (verify (length objects = card constructed)) (\<lambda>_. Inr (a, s)))))"

end
