(* ===== verification/InstanceTrees.thy ===== *)
theory InstanceTrees
  imports InterfaceSession
begin

text \<open>
  The trees that the instance analysis of \<open>InterfaceSession\<close> builds: what every step does to the array
  of objects, the well-formedness of the trees that every step keeps, and the children of an action
  against their specification by the order of inheritance.
\<close>

section \<open>Views of the array\<close>

text \<open>A step is described by what it does to the three kinds of objects.\<close>

lemma concrete_at_append:
  "concrete_at (db @ [x]) = (case x of ConcreteElement e \<Rightarrow> (concrete_at db)(length db \<mapsto> e) | _ \<Rightarrow> concrete_at db)"
  by (rule ext) (auto simp: concrete_at_def nth_opt_def nth_append split: indexed_object.splits)

lemma interface_at_append:
  "interface_at (db @ [x]) = (case x of InterfaceElement e \<Rightarrow> (interface_at db)(length db \<mapsto> e) | _ \<Rightarrow> interface_at db)"
  by (rule ext) (auto simp: interface_at_def nth_opt_def nth_append split: indexed_object.splits)

lemma inheritance_at_append:
  "inheritance_at (db @ [x]) = (case x of InheritanceNode e \<Rightarrow> (inheritance_at db)(length db \<mapsto> e) | _ \<Rightarrow> inheritance_at db)"
  by (rule ext) (auto simp: inheritance_at_def nth_opt_def nth_append split: indexed_object.splits)

lemma at_update_element:
  assumes "concrete_at db i = Some e"
  shows "concrete_at (db[i := ConcreteElement e']) = (concrete_at db)(i \<mapsto> e')"
    and "interface_at (db[i := ConcreteElement e']) = interface_at db"
    and "inheritance_at (db[i := ConcreteElement e']) = inheritance_at db"
  by (rule ext, use assms in \<open>auto simp: concrete_at_def interface_at_def inheritance_at_def nth_opt_def
      nth_list_update split: indexed_object.splits if_splits\<close>)+

lemma at_update_node:
  assumes "inheritance_at db i = Some e"
  shows "concrete_at (db[i := InheritanceNode e']) = concrete_at db"
    and "interface_at (db[i := InheritanceNode e']) = interface_at db"
    and "inheritance_at (db[i := InheritanceNode e']) = (inheritance_at db)(i \<mapsto> e')"
  by (rule ext, use assms in \<open>auto simp: concrete_at_def interface_at_def inheritance_at_def nth_opt_def
      nth_list_update split: indexed_object.splits if_splits\<close>)+

lemmas at_append [simp] = concrete_at_append interface_at_append inheritance_at_append

lemma concrete_at_less: "concrete_at db i = Some e \<Longrightarrow> i < length db"
  by (simp add: concrete_at_Some)

lemma inheritance_at_less: "inheritance_at db i = Some e \<Longrightarrow> i < length db"
  by (simp add: inheritance_at_Some)

lemma at_length [simp]: "concrete_at db (length db) = None" "inheritance_at db (length db) = None"
  by (simp_all add: concrete_at_def inheritance_at_def nth_opt_def)

text \<open>What depends on the interface elements only.\<close>

lemma same_interface:
  assumes "interface_at db' = interface_at db"
  shows "context_at db' = context_at db" "is_Link db' = is_Link db" "getBaseContexts db' = getBaseContexts db"
    "ident db' = ident db" "isAbstract db' = isAbstract db" "inherits_bases db' = inherits_bases db"
    "dimension_at db' = dimension_at db" "is_object_at db' = is_object_at db" "interface_parent db' = interface_parent db"
  by (simp_all add: fun_eq_iff context_at_def is_Link_def getBaseContexts_def ident_def isAbstract_def
      inherits_bases_def dimension_at_def is_object_at_def interface_parent_def assms)

lemma same_collateChildren_loop:
  "interface_at db' = interface_at db \<Longrightarrow> collateChildren_loop db' xs as ds = collateChildren_loop db xs as ds"
proof (induction xs arbitrary: as ds)
  case (Cons x xs)
  show ?case
  proof (cases "interface_at db x")
    case (Some e)
    then show ?thesis by (cases "if_class e") (simp_all add: Cons)
  qed (simp add: Cons.prems)
qed simp

lemma same_collateChildren:
  assumes "interface_at db' = interface_at db" shows "collateChildren db' c = collateChildren db c"
  by (simp add: collateChildren_def same_interface(1) [OF assms] same_collateChildren_loop [OF assms] split: option.split)

lemma same_found_parent: "interface_at db' = interface_at db \<Longrightarrow> found_parent k db' p r = found_parent k db p r"
proof (induction k arbitrary: p)
  case (Suc k)
  show ?case by (cases p) (simp_all add: Suc.IH [OF Suc.prems] Suc.prems same_interface(1) [OF Suc.prems] split: option.split)
qed simp

text \<open>What depends on the concrete elements.\<close>

definition element_of :: "database \<Rightarrow> idx \<Rightarrow> idx option" where
  "element_of db c = (case concrete_at db c of Some e \<Rightarrow> ce_element e | None \<Rightarrow> None)"

definition children_of :: "database \<Rightarrow> idx \<Rightarrow> idx list" where
  "children_of db a = (case concrete_at db a of Some e \<Rightarrow> ce_children e | None \<Rightarrow> [])"

definition child_actions :: "database \<Rightarrow> idx \<Rightarrow> idx list" where
  "child_actions db a = filter (is_action db) (children_of db a)"

definition child_dimensions :: "database \<Rightarrow> idx \<Rightarrow> idx list" where
  "child_dimensions db a = filter (\<lambda>c. user_dimension_at db c \<noteq> None) (children_of db a)"

section \<open>Well-formed trees\<close>

definition parents_ok :: "database \<Rightarrow> bool" where
  "parents_ok db \<longleftrightarrow>
     (\<forall>i e. concrete_at db i = Some e \<longrightarrow>
        (\<forall>p. ce_parent e = Some p \<longrightarrow> p < i \<and> is_action db p \<and> i \<in> set (children_of db p)) \<and>
        distinct (ce_children e) \<and> (\<forall>c \<in> set (ce_children e). parent_of db c = Some i))"

definition contexts_ok :: "database \<Rightarrow> bool" where
  "contexts_ok db \<longleftrightarrow>
     (\<forall>i e. concrete_at db i = Some e \<longrightarrow> ce_class e = ConcreteAction \<longrightarrow>
        (\<exists>x c. ce_element e = Some x \<and> context_at db x = Some c))"

definition nodes_ok :: "database \<Rightarrow> bool" where
  "nodes_ok db \<longleftrightarrow>
     (\<forall>n N. inheritance_at db n = Some N \<longrightarrow>
        is_action db (in_rootConcreteAction N) \<and> context_at db (in_context N) \<noteq> None \<and>
        (\<forall>p. in_parent N = Some p \<longrightarrow> p < n \<and> (\<exists>P. inheritance_at db p = Some P \<and> n \<in> set (in_children P))) \<and>
        (\<forall>c \<in> set (in_children N). n < c \<and>
           (\<exists>C. inheritance_at db c = Some C \<and> in_parent C = Some n \<and>
              in_rootConcreteAction C = in_rootConcreteAction N)))"

text \<open>The pointers of the interface are typed and the size of a context is a positive \<open>int\<close>.\<close>

definition sizes_ok :: "database \<Rightarrow> bool" where
  "sizes_ok db \<longleftrightarrow>
     (\<forall>i e. context_at db i = Some e \<longrightarrow> 0 < int_of_size_t (if_size e)) \<and>
     (\<forall>i. \<forall>b \<in> set (getBaseContexts db i). context_at db b \<noteq> None)"

definition wf_trees :: "database \<Rightarrow> bool" where
  "wf_trees db \<longleftrightarrow> parents_ok db \<and> contexts_ok db \<and> nodes_ok db \<and> sizes_ok db"

text \<open>The trees are well formed in the sense of the analyses that use them.\<close>

lemma wf_trees_concrete:
  assumes "wf_trees db" shows "wf_concrete db"
  unfolding wf_concrete_def
proof (intro allI impI)
  fix i assume i: "i < length db"
  show "case db ! i of
          ConcreteElement e \<Rightarrow>
            (case ce_parent e of None \<Rightarrow> True | Some p \<Rightarrow> p < i \<and> is_action db p) \<and>
            (ce_class e = ConcreteAction \<longrightarrow>
               (case getLocalDomainSize db i of Inl _ \<Rightarrow> False | Inr l \<Rightarrow> 0 < l))
        | _ \<Rightarrow> True"
  proof (cases "db ! i")
    case (ConcreteElement e)
    with i have e: "concrete_at db i = Some e" by (simp add: concrete_at_Some)
    have "case ce_parent e of None \<Rightarrow> True | Some p \<Rightarrow> p < i \<and> is_action db p"
      using assms e unfolding wf_trees_def parents_ok_def by (simp split: option.splits)
    moreover have "case getLocalDomainSize db i of Inl _ \<Rightarrow> False | Inr l \<Rightarrow> 0 < l" if is_act: "ce_class e = ConcreteAction"
    proof -
      obtain x c where "ce_element e = Some x" "context_at db x = Some c"
        using assms e is_act unfolding wf_trees_def contexts_ok_def by blast
      moreover from this have "0 < int_of_size_t (if_size c)"
        using assms unfolding wf_trees_def sizes_ok_def by blast
      ultimately show ?thesis using e by (simp add: getLocalDomainSize_def getContext_def)
    qed
    ultimately show ?thesis using ConcreteElement by simp
  qed simp_all
qed

lemma wf_trees_inheritance:
  assumes "wf_trees db" shows "wf_inheritance db"
  unfolding wf_inheritance_def
proof (intro allI impI)
  fix n assume n: "n < length db"
  have ok: "nodes_ok db" using assms by (simp add: wf_trees_def)
  show "case db ! n of
          InheritanceNode N \<Rightarrow>
            (case in_parent N of None \<Rightarrow> True
             | Some p \<Rightarrow> p < n \<and> (case inheritance_at db p of None \<Rightarrow> False | Some P \<Rightarrow> n \<in> set (in_children P))) \<and>
            (\<forall>c \<in> set (in_children N). n < c \<and>
               (case inheritance_at db c of None \<Rightarrow> False
                | Some C \<Rightarrow> in_parent C = Some n \<and> in_rootConcreteAction C = in_rootConcreteAction N))
        | _ \<Rightarrow> True"
  proof (cases "db ! n")
    case (InheritanceNode N)
    with n have N: "inheritance_at db n = Some N" by (simp add: inheritance_at_Some)
    have "case in_parent N of None \<Rightarrow> True
         | Some p \<Rightarrow> p < n \<and> (case inheritance_at db p of None \<Rightarrow> False | Some P \<Rightarrow> n \<in> set (in_children P))"
      using ok N unfolding nodes_ok_def by (fastforce split: option.splits)
    moreover have "n < c \<and> (case inheritance_at db c of None \<Rightarrow> False
        | Some C \<Rightarrow> in_parent C = Some n \<and> in_rootConcreteAction C = in_rootConcreteAction N)"
      if "c \<in> set (in_children N)" for c
      using ok N that unfolding nodes_ok_def by fastforce
    ultimately show ?thesis using InheritanceNode by simp
  qed simp_all
qed

section \<open>What the steps do\<close>

definition child_added :: "concrete_class \<Rightarrow> idx \<Rightarrow> idx option \<Rightarrow> database \<Rightarrow> database \<Rightarrow> bool" where
  "child_added k act el db db' \<longleftrightarrow>
     (\<exists>e. concrete_at db act = Some e \<and>
        concrete_at db' = (concrete_at db)
          (length db \<mapsto> \<lparr>ce_class = k, ce_parent = Some act, ce_element = el, ce_children = []\<rparr>,
           act \<mapsto> e\<lparr>ce_children := ce_children e @ [length db]\<rparr>)) \<and>
     interface_at db' = interface_at db \<and> inheritance_at db' = inheritance_at db \<and> length db' = Suc (length db)"

definition noted :: "idx \<Rightarrow> database \<Rightarrow> database \<Rightarrow> bool" where
  "noted n db db' \<longleftrightarrow>
     concrete_at db' = concrete_at db \<and> interface_at db' = interface_at db \<and> length db' = length db \<and>
     (\<exists>N acts dims. inheritance_at db n = Some N \<and>
        inheritance_at db' = (inheritance_at db)(n \<mapsto> N\<lparr>in_actions := acts, in_dimensions := dims\<rparr>))"

lemma construct_child_effect:
  assumes "construct_child k act el s = Inr (c, s')" and act: "is_action (ss_objects s) act"
  shows "child_added k act el (ss_objects s) (ss_objects s')" "c = length (ss_objects s)"
    "ss_derivation s' = ss_derivation s" "ss_action s' = ss_action s" "ss_allocator s' = ss_allocator s"
proof -
  let ?db = "ss_objects s"
  let ?new = "\<lparr>ce_class = k, ce_parent = Some act, ce_element = el, ce_children = []\<rparr>"
  obtain e where e: "concrete_at ?db act = Some e" using is_action_concrete [OF act] by blast
  then have ne: "act \<noteq> length ?db" by auto
  then have e': "concrete_at (?db @ [ConcreteElement ?new]) act = Some e" using e by simp
  have r: "c = length ?db \<and>
     s' = s\<lparr>ss_objects := (?db @ [ConcreteElement ?new])[act := ConcreteElement (e\<lparr>ce_children := ce_children e @ [length ?db]\<rparr>)]\<rparr>"
    using assms(1) e' by (auto simp: construct_child_def construct_def update_element_def conc_def simp del: at_append)
  note [simp] = at_update_element [OF e']
  show "c = length ?db" "ss_derivation s' = ss_derivation s" "ss_action s' = ss_action s" "ss_allocator s' = ss_allocator s"
    using r by simp_all
  show "child_added k act el ?db (ss_objects s')"
    using r e ne by (simp add: child_added_def)
qed

lemma update_node_effect:
  assumes "update_node n f s = Inr s'"
  obtains N where "inheritance_at (ss_objects s) n = Some N"
    "concrete_at (ss_objects s') = concrete_at (ss_objects s)"
    "interface_at (ss_objects s') = interface_at (ss_objects s)"
    "inheritance_at (ss_objects s') = (inheritance_at (ss_objects s))(n \<mapsto> f N)"
    "length (ss_objects s') = length (ss_objects s)"
    "ss_derivation s' = ss_derivation s" "ss_action s' = ss_action s" "ss_allocator s' = ss_allocator s"
proof -
  obtain N where N: "inheritance_at (ss_objects s) n = Some N"
      "s' = s\<lparr>ss_objects := (ss_objects s)[n := InheritanceNode (f N)]\<rparr>"
    using assms by (auto simp: update_node_def bindR_eq_Inr)
  show thesis by (rule that [OF N(1)]) (simp_all add: N at_update_node [OF N(1)])
qed

lemma update_node_noted:
  assumes "update_node n f s = Inr s'"
    and "\<And>N. \<exists>acts dims. f N = N\<lparr>in_actions := acts, in_dimensions := dims\<rparr>"
  shows "noted n (ss_objects s) (ss_objects s') \<and> ss_derivation s' = ss_derivation s"
proof (rule update_node_effect [OF assms(1)])
  fix N
  assume N: "inheritance_at (ss_objects s) n = Some N"
    "concrete_at (ss_objects s') = concrete_at (ss_objects s)"
    "interface_at (ss_objects s') = interface_at (ss_objects s)"
    "inheritance_at (ss_objects s') = (inheritance_at (ss_objects s))(n \<mapsto> f N)"
    "length (ss_objects s') = length (ss_objects s)" "ss_derivation s' = ss_derivation s"
  obtain acts dims where f: "f N = N\<lparr>in_actions := acts, in_dimensions := dims\<rparr>" using assms(2) by blast
  have "\<exists>N acts dims. inheritance_at (ss_objects s) n = Some N \<and>
      inheritance_at (ss_objects s') = (inheritance_at (ss_objects s))(n \<mapsto> N\<lparr>in_actions := acts, in_dimensions := dims\<rparr>)"
    using N(1,4) f by (metis (no_types))
  then show ?thesis using N by (simp add: noted_def)
qed

lemma record_effect:
  "record_action n c s = Inr s' \<Longrightarrow> noted n (ss_objects s) (ss_objects s') \<and> ss_derivation s' = ss_derivation s"
  "record_dimension n c s = Inr s' \<Longrightarrow> noted n (ss_objects s) (ss_objects s') \<and> ss_derivation s' = ss_derivation s"
proof -
  have 1: "\<exists>acts dims. N\<lparr>in_actions := in_actions N @ [c]\<rparr> = N\<lparr>in_actions := acts, in_dimensions := dims\<rparr>"
    and 2: "\<exists>acts dims. N\<lparr>in_dimensions := in_dimensions N @ [c]\<rparr> = N\<lparr>in_actions := acts, in_dimensions := dims\<rparr>"
    for N :: inheritance_node
    by (rule exI [of _ "in_actions N @ [c]"], rule exI [of _ "in_dimensions N"], simp,
        rule exI [of _ "in_actions N"], rule exI [of _ "in_dimensions N @ [c]"], simp)
  show "record_action n c s = Inr s' \<Longrightarrow> noted n (ss_objects s) (ss_objects s') \<and> ss_derivation s' = ss_derivation s"
    unfolding record_action_def by (erule update_node_noted) (rule 1)
  show "record_dimension n c s = Inr s' \<Longrightarrow> noted n (ss_objects s) (ss_objects s') \<and> ss_derivation s' = ss_derivation s"
    unfolding record_dimension_def by (erule update_node_noted) (rule 2)
qed

lemma name_effect:
  "calculateInstanceActionName c s = Inr u \<Longrightarrow> ss_objects u = ss_objects s \<and> ss_derivation u = ss_derivation s"
  by (auto simp: calculateInstanceActionName_def update_action_def Let_def split: option.splits if_splits)

lemma construct_action_effect:
  assumes "construct_action act x s = Inr (c, s')" and act: "is_action (ss_objects s) act"
  shows "child_added ConcreteAction act (Some x) (ss_objects s) (ss_objects s')" "c = length (ss_objects s)"
    "m_instanceMap (ss_derivation s') = m_instanceMap (ss_derivation s) @ [(x, c)]"
proof -
  obtain t u where t: "construct_child ConcreteAction act (Some x) s = Inr (c, t)"
    and u: "calculateInstanceActionName c (update_action c (\<lambda>_. new_action_data) t) = Inr u"
    and s': "s' = add_instance x c u"
    using assms(1) by (auto simp: construct_action_def bindR_eq_Inr)
  have ou: "ss_objects u = ss_objects t \<and> ss_derivation u = ss_derivation t"
    using name_effect [OF u] by (simp add: update_action_def)
  note t' = construct_child_effect [OF t act]
  show "child_added ConcreteAction act (Some x) (ss_objects s) (ss_objects s')" "c = length (ss_objects s)"
    "m_instanceMap (ss_derivation s') = m_instanceMap (ss_derivation s) @ [(x, c)]"
    using t' ou s' by (simp_all add: add_instance_def)
qed

lemma construct_dimension_effect:
  assumes "construct_dimension act x s = Inr (c, s')" and act: "is_action (ss_objects s) act"
  shows "child_added (Dimension_User None) act (Some x) (ss_objects s) (ss_objects s')" "c = length (ss_objects s)"
    "m_instanceMap (ss_derivation s') = m_instanceMap (ss_derivation s) @ [(x, c)]"
proof -
  obtain t where t: "construct_child (Dimension_User None) act (Some x) s = Inr (c, t)" and s': "s' = add_instance x c t"
    using assms(1) by (auto simp: construct_dimension_def bindR_eq_Inr)
  note t' = construct_child_effect [OF t act]
  show "child_added (Dimension_User None) act (Some x) (ss_objects s) (ss_objects s')" "c = length (ss_objects s)"
    "m_instanceMap (ss_derivation s') = m_instanceMap (ss_derivation s) @ [(x, c)]"
    using t' s' by (simp_all add: add_instance_def)
qed

section \<open>The steps keep the trees well formed\<close>

lemma child_added_actions:
  assumes "child_added k act x db db'" and "is_action db act"
  shows "is_action db' i \<longleftrightarrow> is_action db i \<or> i = length db \<and> k = ConcreteAction"
    and "user_dimension_at db' i \<noteq> None \<longleftrightarrow> user_dimension_at db i \<noteq> None \<or> i = length db \<and> (\<exists>g. k = Dimension_User g)"
  using assms
  by (auto simp: child_added_def is_action_def user_dimension_at_def split: option.splits concrete_class.splits)

lemma child_added_children:
  assumes "child_added k act x db db'" and "is_action db act"
  shows "children_of db' i = (if i = act then children_of db i @ [length db] else children_of db i)"
    and "parent_of db' i = (if i = length db then Some act else parent_of db i)"
    and "element_of db' i = (if i = length db then x else element_of db i)"
  using assms by (auto simp: child_added_def children_of_def parent_of_def element_of_def)

lemma wf_trees_child:
  assumes wf: "wf_trees db" and act: "is_action db act" and added: "child_added k act x db db'"
    and x: "k = ConcreteAction \<longrightarrow> (\<exists>y c. x = Some y \<and> context_at db y = Some c)"
  shows "wf_trees db'"
proof -
  obtain e where e: "concrete_at db act = Some e"
    and db': "concrete_at db' = (concrete_at db)
          (length db \<mapsto> \<lparr>ce_class = k, ce_parent = Some act, ce_element = x, ce_children = []\<rparr>,
           act \<mapsto> e\<lparr>ce_children := ce_children e @ [length db]\<rparr>)"
    and same: "interface_at db' = interface_at db" "inheritance_at db' = inheritance_at db"
    using added unfolding child_added_def by blast
  note ctx = same_interface(1) [OF same(1)]
  note c = child_added_children [OF added act] and a = child_added_actions [OF added act]
  have par: "\<And>i f p. concrete_at db i = Some f \<Longrightarrow> ce_parent f = Some p \<Longrightarrow> p < i \<and> is_action db p \<and> i \<in> set (children_of db p)"
    and chi: "\<And>i f. concrete_at db i = Some f \<Longrightarrow> distinct (ce_children f) \<and> (\<forall>c \<in> set (ce_children f). parent_of db c = Some i)"
    using wf unfolding wf_trees_def parents_ok_def by blast+
  have fresh: "j < length db" if "concrete_at db i = Some f" "j \<in> set (ce_children f)" for i f j
    using chi [OF that(1)] that(2) by (auto simp: parent_of_def concrete_at_Some split: option.splits)
  have "parents_ok db'"
    unfolding parents_ok_def
  proof (intro allI impI)
    fix i f assume f: "concrete_at db' i = Some f"
    consider "i = act" "f = e\<lparr>ce_children := ce_children e @ [length db]\<rparr>"
      | "i = length db" "i \<noteq> act" "f = \<lparr>ce_class = k, ce_parent = Some act, ce_element = x, ce_children = []\<rparr>"
      | "i \<noteq> act" "i \<noteq> length db" "concrete_at db i = Some f"
      using f db' by (auto split: if_splits)
    then show "(\<forall>p. ce_parent f = Some p \<longrightarrow> p < i \<and> is_action db' p \<and> i \<in> set (children_of db' p)) \<and>
        distinct (ce_children f) \<and> (\<forall>c \<in> set (ce_children f). parent_of db' c = Some i)"
    proof cases
      case 1
      then show ?thesis
        using par [OF e] chi [OF e] fresh [OF e] a c by fastforce
    next
      case 2
      have "act < length db" using act by (rule is_action_less)
      then show ?thesis using 2 a c act by simp
    next
      case 3
      show ?thesis using par [OF 3(3)] chi [OF 3(3)] fresh [OF 3(3)] a c by fastforce
    qed
  qed
  moreover have "contexts_ok db'"
    using wf x e unfolding wf_trees_def contexts_ok_def by (auto simp: db' ctx)
  moreover have "nodes_ok db'"
    using wf unfolding wf_trees_def nodes_ok_def by (auto simp: ctx same a(1))
  ultimately show ?thesis using wf by (simp add: wf_trees_def sizes_ok_def ctx same_interface(3) [OF same(1)])
qed

lemma noted_actions:
  assumes "noted n db db'"
  shows "is_action db' = is_action db" "user_dimension_at db' = user_dimension_at db"
    "children_of db' = children_of db" "parent_of db' = parent_of db" "element_of db' = element_of db"
  using assms by (simp_all add: fun_eq_iff noted_def is_action_def user_dimension_at_def children_of_def
      parent_of_def element_of_def)

lemma wf_trees_noted:
  assumes wf: "wf_trees db" and n: "noted n db db'"
  shows "wf_trees db'"
proof -
  have same: "interface_at db' = interface_at db" and conc: "concrete_at db' = concrete_at db"
    using n by (simp_all add: noted_def)
  note [simp] = noted_actions [OF n] same_interface(1,3) [OF same]
  have "parents_ok db'" "contexts_ok db'" "sizes_ok db'"
    using wf by (simp_all add: wf_trees_def parents_ok_def contexts_ok_def sizes_ok_def conc)
  moreover have "nodes_ok db'"
  proof -
    obtain N acts dims where N: "inheritance_at db n = Some N"
      and i: "inheritance_at db' = (inheritance_at db)(n \<mapsto> N\<lparr>in_actions := acts, in_dimensions := dims\<rparr>)"
      using n unfolding noted_def by blast
    have ok: "nodes_ok db" using wf by (simp add: wf_trees_def)
    show ?thesis
      unfolding nodes_ok_def
    proof (intro allI impI)
      fix m M assume M: "inheritance_at db' m = Some M"
      obtain M0 where M0: "inheritance_at db m = Some M0" "in_rootConcreteAction M = in_rootConcreteAction M0"
          "in_context M = in_context M0" "in_parent M = in_parent M0" "in_children M = in_children M0"
        using M N i by (auto split: if_splits)
      have keep: "\<exists>C'. inheritance_at db' c = Some C' \<and> in_parent C' = in_parent C \<and> in_children C' = in_children C \<and>
          in_rootConcreteAction C' = in_rootConcreteAction C" if "inheritance_at db c = Some C" for c C
        using that N i by auto
      show "is_action db' (in_rootConcreteAction M) \<and> context_at db' (in_context M) \<noteq> None \<and>
        (\<forall>p. in_parent M = Some p \<longrightarrow> p < m \<and> (\<exists>P. inheritance_at db' p = Some P \<and> m \<in> set (in_children P))) \<and>
        (\<forall>c\<in>set (in_children M). m < c \<and> (\<exists>C. inheritance_at db' c = Some C \<and> in_parent C = Some m \<and>
          in_rootConcreteAction C = in_rootConcreteAction M))"
        using ok [unfolded nodes_ok_def, rule_format, OF M0(1)] M0(2-) keep by simp metis
    qed
  qed
  ultimately show ?thesis by (simp add: wf_trees_def)
qed

section \<open>The inheritance tree of an action\<close>

text \<open>The contexts an action inherits, in the order in which their members are taken: a context comes
  before its bases. The same order of the nodes of an inheritance tree.\<close>

inductive inheritance_order :: "database \<Rightarrow> idx \<Rightarrow> idx list \<Rightarrow> bool" for db where
  order: "list_all2 (inheritance_order db) (if inherits_bases db c then getBaseContexts db c else []) css \<Longrightarrow>
    inheritance_order db c (c # concat css)"
monos list_all2_mono

inductive node_order :: "database \<Rightarrow> idx \<Rightarrow> idx list \<Rightarrow> bool" for db where
  order: "inheritance_at db n = Some N \<Longrightarrow> \<forall>c \<in> set (in_children N). n < c \<Longrightarrow>
    list_all2 (node_order db) (in_children N) css \<Longrightarrow> node_order db n (in_context N # concat css)"
monos list_all2_mono

lemma foldR_prefix_invariant:
  assumes "foldR f xs s = Inr s'" and "P [] s"
    and "\<And>ys x zs t t'. xs = ys @ x # zs \<Longrightarrow> P ys t \<Longrightarrow> f x t = Inr t' \<Longrightarrow> P (ys @ [x]) t'"
  shows "P xs s'"
proof -
  have "P (ys @ zs) s'" if "xs = ys @ zs" "foldR f zs t = Inr s'" "P ys t" for ys zs t
    using that
  proof (induction zs arbitrary: ys t)
    case (Cons z zs)
    from Cons.prems(2) obtain u where u: "f z t = Inr u" "foldR f zs u = Inr s'" by (auto simp: bindR_eq_Inr)
    have "P (ys @ [z]) u" using assms(3) [OF Cons.prems(1,3) u(1)] .
    with Cons.IH [of "ys @ [z]" u] Cons.prems(1) u(2) show ?case by simp
  qed simp
  from this [of "[]" xs s] assms(1,2) show ?thesis by simp
qed

text \<open>Nodes below a node are not touched by steps that change only nodes before it.\<close>

lemma node_order_keep:
  assumes "node_order db n cs" and "\<forall>i N. n \<le> i \<longrightarrow> inheritance_at db i = Some N \<longrightarrow>
    (\<exists>N'. inheritance_at db' i = Some N' \<and> in_context N' = in_context N \<and> in_children N' = in_children N)"
  shows "node_order db' n cs"
  using assms
proof (induction n cs rule: node_order.induct)
  case (order n N css)
  obtain N' where N': "inheritance_at db' n = Some N'" "in_context N' = in_context N" "in_children N' = in_children N"
    using order.prems order.hyps(1) by blast
  have "list_all2 (node_order db') (in_children N) css"
    using order.IH
  proof (rule list.rel_mono_strong)
    fix c cs assume "c \<in> set (in_children N)" and *: "node_order db c cs \<and>
      ((\<forall>i N. c \<le> i \<longrightarrow> inheritance_at db i = Some N \<longrightarrow>
        (\<exists>N'. inheritance_at db' i = Some N' \<and> in_context N' = in_context N \<and> in_children N' = in_children N)) \<longrightarrow>
       node_order db' c cs)"
    then have "n < c" using order.hyps(2) by blast
    then show "node_order db' c cs" using * order.prems by (meson less_imp_le order_trans)
  qed
  then show ?case using node_order.order [OF N'(1)] N' order.hyps(2) by simp
qed

text \<open>The construction of one node.\<close>

definition parent_root :: "database \<Rightarrow> idx option \<Rightarrow> idx \<Rightarrow> bool" where
  "parent_root db p act \<longleftrightarrow>
     (\<forall>q. p = Some q \<longrightarrow> (\<exists>Q. inheritance_at db q = Some Q \<and> in_rootConcreteAction Q = act))"

definition with_child :: "idx option \<Rightarrow> idx \<Rightarrow> (idx \<rightharpoonup> inheritance_node) \<Rightarrow> (idx \<rightharpoonup> inheritance_node)" where
  "with_child p n m =
     (case p of None \<Rightarrow> m
      | Some q \<Rightarrow> m(q := map_option (\<lambda>Q. Q\<lparr>in_children := in_children Q @ [n]\<rparr>) (m q)))"

lemma constructInheritanceNode_effect:
  assumes "constructInheritanceNode act p ctx s = Inr (n, s')" and "parent_root (ss_objects s) p act"
  shows "n = length (ss_objects s)" "length (ss_objects s') = Suc n"
    "concrete_at (ss_objects s') = concrete_at (ss_objects s)"
    "interface_at (ss_objects s') = interface_at (ss_objects s)"
    "inheritance_at (ss_objects s') = (with_child p n (inheritance_at (ss_objects s)))
       (n \<mapsto> \<lparr>in_rootConcreteAction = act, in_context = ctx, in_parent = p, in_children = [], in_actions = [], in_dimensions = []\<rparr>)"
    "m_instanceMap (ss_derivation s') = m_instanceMap (ss_derivation s)"
    "m_inheritanceMap (ss_derivation s') = m_inheritanceMap (ss_derivation s) @ [(ctx, n)]"
proof -
  let ?db = "ss_objects s"
  let ?N = "\<lparr>in_rootConcreteAction = act, in_context = ctx, in_parent = p, in_children = [], in_actions = [], in_dimensions = []\<rparr>"
  let ?s = "s\<lparr>ss_objects := ?db @ [InheritanceNode ?N]\<rparr>"
  obtain t where t: "(case p of None \<Rightarrow> Inr ?s
             | Some p \<Rightarrow> update_node p (\<lambda>P. P\<lparr>in_children := in_children P @ [length ?db]\<rparr>) ?s) = Inr t"
      and n: "n = length ?db" and s': "s' = t\<lparr>ss_derivation := (ss_derivation t)
        \<lparr>m_inheritanceMap := m_inheritanceMap (ss_derivation t) @ [(ctx, length ?db)]\<rparr>\<rparr>"
    using assms(1) by (auto simp: constructInheritanceNode_def construct_def bindR_eq_Inr simp del: at_append)
  have "concrete_at (ss_objects t) = concrete_at ?db \<and> interface_at (ss_objects t) = interface_at ?db \<and>
     inheritance_at (ss_objects t) = (with_child p n (inheritance_at ?db))(n \<mapsto> ?N) \<and>
     ss_derivation t = ss_derivation s \<and> length (ss_objects t) = Suc n"
  proof (cases p)
    case None
    then show ?thesis using t n by (auto simp: with_child_def)
  next
    case (Some q)
    obtain Q where Q: "inheritance_at ?db q = Some Q" using assms(2) Some by (auto simp: parent_root_def)
    then have ne: "q \<noteq> n" using n by auto
    from t Some have "update_node q (\<lambda>P. P\<lparr>in_children := in_children P @ [length ?db]\<rparr>) ?s = Inr t" by simp
    then show ?thesis
    proof (rule update_node_effect)
      fix P
      assume "inheritance_at (ss_objects ?s) q = Some P"
        "concrete_at (ss_objects t) = concrete_at (ss_objects ?s)"
        "interface_at (ss_objects t) = interface_at (ss_objects ?s)"
        "inheritance_at (ss_objects t) = (inheritance_at (ss_objects ?s))(q \<mapsto> P\<lparr>in_children := in_children P @ [length ?db]\<rparr>)"
        "length (ss_objects t) = length (ss_objects ?s)"
        "ss_derivation t = ss_derivation ?s"
      then show ?thesis using Some Q ne n by (auto simp: with_child_def fun_upd_twist)
    qed
  qed
  then show "n = length ?db" "length (ss_objects s') = Suc n" "concrete_at (ss_objects s') = concrete_at ?db"
    "interface_at (ss_objects s') = interface_at ?db"
    "inheritance_at (ss_objects s') = (with_child p n (inheritance_at ?db))(n \<mapsto> ?N)"
    "m_instanceMap (ss_derivation s') = m_instanceMap (ss_derivation s)"
    "m_inheritanceMap (ss_derivation s') = m_inheritanceMap (ss_derivation s) @ [(ctx, n)]"
    using n s' by simp_all
qed

lemma with_child_at:
  "with_child p n m i = Some N \<longleftrightarrow>
     (\<exists>N0. m i = Some N0 \<and> N = (if p = Some i then N0\<lparr>in_children := in_children N0 @ [n]\<rparr> else N0))"
  by (auto simp: with_child_def split: option.splits)

lemma wf_trees_node:
  assumes wf: "wf_trees db" and act: "is_action db act" and ctx: "context_at db ctx \<noteq> None"
    and p: "parent_root db p act"
    and same: "concrete_at db' = concrete_at db" "interface_at db' = interface_at db"
    and inh: "inheritance_at db' = (with_child p (length db) (inheritance_at db))
       (length db \<mapsto> \<lparr>in_rootConcreteAction = act, in_context = ctx, in_parent = p, in_children = [], in_actions = [], in_dimensions = []\<rparr>)"
  shows "wf_trees db'"
proof -
  have [simp]: "is_action db' = is_action db" "children_of db' = children_of db" "parent_of db' = parent_of db"
    "element_of db' = element_of db"
    using same by (simp_all add: fun_eq_iff is_action_def children_of_def parent_of_def element_of_def)
  note [simp] = same_interface(1,3) [OF same(2)]
  have "parents_ok db'" "contexts_ok db'" "sizes_ok db'"
    using wf by (simp_all add: wf_trees_def parents_ok_def contexts_ok_def sizes_ok_def same)
  moreover have "nodes_ok db'"
    unfolding nodes_ok_def
  proof (intro allI impI)
    fix m M assume M: "inheritance_at db' m = Some M"
    let ?n = "length db"
    have ok: "nodes_ok db" using wf by (simp add: wf_trees_def)
    have keep: "\<exists>C'. inheritance_at db' c = Some C' \<and> in_parent C' = in_parent C \<and> set (in_children C) \<subseteq> set (in_children C') \<and>
          in_rootConcreteAction C' = in_rootConcreteAction C" if "inheritance_at db c = Some C" for c C
      using that inheritance_at_less [OF that] by (auto simp: inh with_child_def split: option.splits)
    show "is_action db' (in_rootConcreteAction M) \<and> context_at db' (in_context M) \<noteq> None \<and>
        (\<forall>q. in_parent M = Some q \<longrightarrow> q < m \<and> (\<exists>P. inheritance_at db' q = Some P \<and> m \<in> set (in_children P))) \<and>
        (\<forall>c\<in>set (in_children M). m < c \<and> (\<exists>C. inheritance_at db' c = Some C \<and> in_parent C = Some m \<and>
          in_rootConcreteAction C = in_rootConcreteAction M))"
    proof (cases "m = ?n")
      case True
      have M': "M = \<lparr>in_rootConcreteAction = act, in_context = ctx, in_parent = p, in_children = [], in_actions = [], in_dimensions = []\<rparr>"
        using M True by (simp add: inh)
      have "q < m \<and> (\<exists>P. inheritance_at db' q = Some P \<and> m \<in> set (in_children P))" if q: "p = Some q" for q
      proof -
        obtain Q where Q: "inheritance_at db q = Some Q" using p q by (auto simp: parent_root_def)
        then show ?thesis using inheritance_at_less [OF Q] True q by (auto simp: inh with_child_def)
      qed
      then show ?thesis using act ctx M' by simp
    next
      case False
      then obtain M0 where M0: "inheritance_at db m = Some M0"
          "M = (if p = Some m then M0\<lparr>in_children := in_children M0 @ [?n]\<rparr> else M0)"
        using M by (auto simp: inh with_child_at)
      note ok0 = ok [unfolded nodes_ok_def, rule_format, OF M0(1)]
      have root: "p = Some m \<Longrightarrow> in_rootConcreteAction M0 = act" using p M0(1) by (auto simp: parent_root_def)
      have new: "\<exists>C. inheritance_at db' ?n = Some C \<and> in_parent C = p \<and> in_rootConcreteAction C = act" by (simp add: inh)
      have less: "m < ?n" using inheritance_at_less [OF M0(1)] .
      have old: "\<forall>c\<in>set (in_children M0). m < c \<and> (\<exists>C. inheritance_at db' c = Some C \<and> in_parent C = Some m \<and>
          in_rootConcreteAction C = in_rootConcreteAction M0)"
        using ok0 keep by metis
      have up: "\<forall>q. in_parent M0 = Some q \<longrightarrow> q < m \<and> (\<exists>P. inheritance_at db' q = Some P \<and> m \<in> set (in_children P))"
        using ok0 keep by blast
      show ?thesis using ok0 old up new root less M0(2) by (cases "p = Some m") auto
    qed
  qed
  ultimately show ?thesis by (simp add: wf_trees_def)
qed

lemma inheritance_order_same:
  assumes "inheritance_order db c cs" and "interface_at db' = interface_at db"
  shows "inheritance_order db' c cs"
  using assms(1)
proof (induction c cs rule: inheritance_order.induct)
  case (order c css)
  show ?case
  proof (rule inheritance_order.order)
    show "list_all2 (inheritance_order db') (if inherits_bases db' c then getBaseContexts db' c else []) css"
      unfolding same_interface(3,6) [OF assms(2)] using order.IH by (rule list.rel_mono_strong) simp
  qed
qed

definition tree_built :: "idx \<Rightarrow> idx option \<Rightarrow> idx \<Rightarrow> database \<Rightarrow> idx \<Rightarrow> database \<Rightarrow> bool" where
  "tree_built act p ctx db n db' \<longleftrightarrow>
     n = length db \<and> n < length db' \<and> concrete_at db' = concrete_at db \<and> interface_at db' = interface_at db \<and>
     wf_trees db' \<and> (\<forall>i < n. inheritance_at db' i = with_child p n (inheritance_at db) i) \<and>
     (\<exists>N. inheritance_at db' n = Some N \<and> in_rootConcreteAction N = act \<and> in_context N = ctx) \<and>
     (\<exists>cs. inheritance_order db ctx cs \<and> node_order db' n cs)"

text \<open>What the loop over the bases keeps: \<open>bs\<close> are the bases whose trees hang below the node.\<close>

definition bases_built :: "idx \<Rightarrow> idx option \<Rightarrow> idx \<Rightarrow> database \<Rightarrow> idx \<Rightarrow> idx list \<Rightarrow> database \<Rightarrow> bool" where
  "bases_built act p ctx db n bs t \<longleftrightarrow>
     n < length t \<and> concrete_at t = concrete_at db \<and> interface_at t = interface_at db \<and> wf_trees t \<and>
     (\<forall>i < n. inheritance_at t i = with_child p n (inheritance_at db) i) \<and>
     (\<exists>N css. inheritance_at t n = Some N \<and> in_rootConcreteAction N = act \<and> in_context N = ctx \<and>
        (\<forall>c \<in> set (in_children N). n < c) \<and>
        list_all2 (inheritance_order db) bs css \<and> list_all2 (node_order t) (in_children N) css)"

lemma bases_built_step:
  assumes inv: "bases_built act p ctx db n bs t" and tree: "tree_built act (Some n) b t m t'"
  shows "bases_built act p ctx db n (bs @ [b]) t'"
proof -
  obtain N css where N: "inheritance_at t n = Some N" "in_rootConcreteAction N = act" "in_context N = ctx"
      and after: "\<forall>c \<in> set (in_children N). n < c"
      and orders: "list_all2 (inheritance_order db) bs css" "list_all2 (node_order t) (in_children N) css"
    using inv unfolding bases_built_def by blast
  obtain cs where cs: "inheritance_order t b cs" "node_order t' m cs"
    using tree unfolding tree_built_def by blast
  have n: "n < length t" and same: "interface_at t = interface_at db" "concrete_at t = concrete_at db"
    using inv by (simp_all add: bases_built_def)
  have m: "m = length t" and keep: "\<forall>i < m. inheritance_at t' i = with_child (Some n) m (inheritance_at t) i"
    using tree by (simp_all add: tree_built_def)
  have N': "inheritance_at t' n = Some (N\<lparr>in_children := in_children N @ [m]\<rparr>)"
    using keep n m N(1) by (simp add: with_child_def)
  have "list_all2 (node_order t') (in_children N) css"
    using orders(2)
  proof (rule list.rel_mono_strong)
    fix c cs assume "c \<in> set (in_children N)" and c: "node_order t c cs"
    then have nc: "n < c" using after by blast
    show "node_order t' c cs"
      using c by (rule node_order_keep)
        (use keep nc m in \<open>auto simp: with_child_def dest: inheritance_at_less\<close>)
  qed
  moreover have "inheritance_order db b cs" using inheritance_order_same [OF cs(1)] same(1) by simp
  ultimately have "\<exists>N css. inheritance_at t' n = Some N \<and> in_rootConcreteAction N = act \<and> in_context N = ctx \<and>
        (\<forall>c \<in> set (in_children N). n < c) \<and>
        list_all2 (inheritance_order db) (bs @ [b]) css \<and> list_all2 (node_order t') (in_children N) css"
    using N N' n m after orders(1) cs(2)
    by (intro exI [of _ "N\<lparr>in_children := in_children N @ [m]\<rparr>"] exI [of _ "css @ [cs]"])
      (auto intro: list_all2_appendI)
  moreover have "\<forall>i < n. inheritance_at t' i = with_child p n (inheritance_at db) i"
    using inv keep n m by (simp add: bases_built_def with_child_def)
  ultimately show ?thesis
    using tree n m same by (simp add: bases_built_def tree_built_def)
qed

lemma constructInheritanceTree_built:
  assumes "constructInheritanceTree k act p ctx s = Inr (n, s')"
    and "wf_trees (ss_objects s)" and "is_action (ss_objects s) act" and "context_at (ss_objects s) ctx \<noteq> None"
    and "parent_root (ss_objects s) p act"
  shows "tree_built act p ctx (ss_objects s) n (ss_objects s') \<and>
    m_instanceMap (ss_derivation s') = m_instanceMap (ss_derivation s)"
  using assms
proof (induction k arbitrary: p ctx s n s')
  case (Suc k)
  let ?db = "ss_objects s"
  obtain u where u: "constructInheritanceNode act p ctx s = Inr (n, u)"
    and loop: "(if inherits_bases (ss_objects u) ctx then
              foldR (\<lambda>b s.
                if is_Link (ss_objects s) b
                then Inl (RuntimeError ''Invalid use of link type in inheritance list'')
                else bindR (constructInheritanceTree k act (Some n) b s) (\<lambda>(m, s). Inr s))
                (getBaseContexts (ss_objects u) ctx) u
            else Inr u) = Inr s'"
    using Suc.prems(1) by (auto simp: bindR_eq_Inr)
  note e = constructInheritanceNode_effect [OF u Suc.prems(5)]
  let ?bs = "if inherits_bases ?db ctx then getBaseContexts ?db ctx else []"
  have start: "bases_built act p ctx ?db n [] (ss_objects u)"
  proof -
    have "wf_trees (ss_objects u)"
      using Suc.prems(2-5) e(3,4) e(5) [unfolded e(1)] by (rule wf_trees_node)
    then show ?thesis using e by (simp add: bases_built_def)
  qed
  have loop': "foldR (\<lambda>b s.
                if is_Link (ss_objects s) b
                then Inl (RuntimeError ''Invalid use of link type in inheritance list'')
                else bindR (constructInheritanceTree k act (Some n) b s) (\<lambda>(m, s). Inr s)) ?bs u = Inr s'"
    using loop same_interface(3,6) [OF e(4)] by (auto split: if_splits)
  have "bases_built act p ctx ?db n ?bs (ss_objects s') \<and> m_instanceMap (ss_derivation s') = m_instanceMap (ss_derivation s)"
    using loop'
  proof (rule foldR_prefix_invariant
      [where P = "\<lambda>bs t. bases_built act p ctx ?db n bs (ss_objects t) \<and> m_instanceMap (ss_derivation t) = m_instanceMap (ss_derivation s)"])
    show "bases_built act p ctx ?db n [] (ss_objects u) \<and> m_instanceMap (ss_derivation u) = m_instanceMap (ss_derivation s)"
      using start e(6) by simp
    fix bs b zs t t'
    assume bs: "?bs = bs @ b # zs"
      and inv: "bases_built act p ctx ?db n bs (ss_objects t) \<and> m_instanceMap (ss_derivation t) = m_instanceMap (ss_derivation s)"
      and step: "(if is_Link (ss_objects t) b
                then Inl (RuntimeError ''Invalid use of link type in inheritance list'')
                else bindR (constructInheritanceTree k act (Some n) b t) (\<lambda>(m, s). Inr s)) = Inr t'"
    then obtain m where m: "constructInheritanceTree k act (Some n) b t = Inr (m, t')"
      by (auto simp: bindR_eq_Inr split: if_splits)
    have t: "wf_trees (ss_objects t)" "concrete_at (ss_objects t) = concrete_at ?db" "interface_at (ss_objects t) = interface_at ?db"
      using inv by (simp_all add: bases_built_def)
    have "b \<in> set (getBaseContexts ?db ctx)" using bs by (metis in_set_conv_decomp list.distinct(1) append_is_Nil_conv)
    then have b: "context_at (ss_objects t) b \<noteq> None"
      using Suc.prems(2) same_interface(1) [OF t(3)] by (simp add: wf_trees_def sizes_ok_def)
    have act: "is_action (ss_objects t) act" using Suc.prems(3) t(2) by (simp add: is_action_def)
    have pr: "parent_root (ss_objects t) (Some n) act" using inv by (auto simp: bases_built_def parent_root_def)
    from Suc.IH [OF m t(1) act b pr]
    have "tree_built act (Some n) b (ss_objects t) m (ss_objects t')"
      "m_instanceMap (ss_derivation t') = m_instanceMap (ss_derivation t)" by simp_all
    with inv show "bases_built act p ctx ?db n (bs @ [b]) (ss_objects t') \<and> m_instanceMap (ss_derivation t') = m_instanceMap (ss_derivation s)"
      using bases_built_step by metis
  qed
  moreover from this obtain N css where N: "inheritance_at (ss_objects s') n = Some N" "in_context N = ctx"
      "\<forall>c \<in> set (in_children N). n < c" "in_rootConcreteAction N = act"
      and css: "list_all2 (inheritance_order ?db) ?bs css" "list_all2 (node_order (ss_objects s')) (in_children N) css"
    unfolding bases_built_def by blast
  ultimately show ?case
    using inheritance_order.order [OF css(1)] node_order.order [OF N(1,3) css(2)] e(1)
    by (auto simp: tree_built_def bases_built_def)
qed simp

section \<open>The members of an action\<close>

text \<open>The specification of overriding: of the elements with the same key only the first one counts.\<close>

fun first_by :: "('a \<Rightarrow> 'b) \<Rightarrow> 'a list \<Rightarrow> 'b set \<Rightarrow> 'a list" where
  "first_by f [] seen = []"
| "first_by f (x # xs) seen =
     (if f x \<in> seen then first_by f xs seen else x # first_by f xs (insert (f x) seen))"

lemma first_by_keys [simp]: "f ` set (first_by f xs seen) \<union> seen = f ` set xs \<union> seen"
  by (induction f xs seen rule: first_by.induct) auto

lemma first_by_append: "first_by f (xs @ ys) seen = first_by f xs seen @ first_by f ys (seen \<union> f ` set xs)"
  by (induction f xs seen rule: first_by.induct) (auto simp: insert_absorb)

lemma first_by_distinct: "distinct (map f (first_by f xs seen)) \<and> f ` set (first_by f xs seen) \<inter> seen = {}"
  by (induction f xs seen rule: first_by.induct) auto

definition member_actions :: "database \<Rightarrow> idx \<Rightarrow> idx list" where
  "member_actions db c =
     (case collateChildren db c of Inr (as, ds) \<Rightarrow> filter (\<lambda>x. \<not> isAbstract db x) as | Inl _ \<Rightarrow> [])"

definition member_dimensions :: "database \<Rightarrow> idx \<Rightarrow> idx list" where
  "member_dimensions db c = (case collateChildren db c of Inr (as, ds) \<Rightarrow> ds | Inl _ \<Rightarrow> [])"

lemma collateChildren_loop_contexts:
  "collateChildren_loop db xs as ds = Inr (as', ds') \<Longrightarrow> (\<And>a. a \<in> set as \<Longrightarrow> context_at db a \<noteq> None \<and> \<not> (\<exists>e. interface_at db a = Some e \<and> if_class e = Object)) \<Longrightarrow>
   a \<in> set as' \<Longrightarrow> context_at db a \<noteq> None \<and> \<not> (\<exists>e. interface_at db a = Some e \<and> if_class e = Object)"
proof (induction xs arbitrary: as ds)
  case (Cons x xs)
  show ?case
  proof (cases "interface_at db x")
    case (Some e)
    show ?thesis
    proof (cases "is_Context (if_class e) \<and> if_class e \<noteq> Object")
      case True
      then have step: "collateChildren_loop db (x # xs) as ds = collateChildren_loop db xs (as @ [x]) ds"
        using Some by (cases "if_class e") simp_all
      have "context_at db y \<noteq> None \<and> \<not> (\<exists>e. interface_at db y = Some e \<and> if_class e = Object)" if "y \<in> set (as @ [x])" for y
        using that Cons.prems(2) True Some by (auto simp: context_at_def)
      then show ?thesis using Cons.IH [of "as @ [x]" ds] Cons.prems(1,3) step by simp
    next
      case False
      then obtain ds2 where "collateChildren_loop db (x # xs) as ds = collateChildren_loop db xs as ds2"
        using Some by (cases "if_class e") simp_all
      then show ?thesis using Cons.IH [of as ds2] Cons.prems by simp
    qed
  qed (use Cons.prems in simp)
qed simp

text \<open>What a step may change: the children of the action and the members noted at inheritance nodes; new
  elements have no children.\<close>

definition skeleton :: "inheritance_node \<Rightarrow> idx \<times> idx \<times> idx option \<times> idx list" where
  "skeleton N = (in_rootConcreteAction N, in_context N, in_parent N, in_children N)"

definition frame :: "idx \<Rightarrow> database \<Rightarrow> database \<Rightarrow> bool" where
  "frame act db db' \<longleftrightarrow>
     interface_at db' = interface_at db \<and> length db \<le> length db' \<and>
     (\<forall>i. i < length db \<longrightarrow> i \<noteq> act \<longrightarrow> concrete_at db' i = concrete_at db i) \<and>
     (\<forall>i e. length db \<le> i \<longrightarrow> concrete_at db' i = Some e \<longrightarrow> ce_children e = [] \<and> ce_parent e = Some act) \<and>
     element_of db' act = element_of db act \<and> is_action db' act = is_action db act \<and>
     (\<forall>i. map_option skeleton (inheritance_at db' i) = map_option skeleton (inheritance_at db i))"

lemma frame_refl [simp]: "frame act db db"
  by (auto simp: frame_def dest: concrete_at_less)

lemma frame_trans:
  assumes "frame act db db'" and "frame act db' db''" and "act < length db"
  shows "frame act db db''"
  unfolding frame_def
proof (intro conjI allI impI)
  fix i e assume i: "length db \<le> i" and e: "concrete_at db'' i = Some e"
  have "ce_children e = [] \<and> ce_parent e = Some act"
  proof (cases "length db' \<le> i")
    case False
    then have "concrete_at db'' i = concrete_at db' i" using assms i by (simp add: frame_def)
    then show ?thesis using assms(1) i e by (simp add: frame_def)
  qed (use assms e in \<open>simp add: frame_def\<close>)
  then show "ce_children e = []" "ce_parent e = Some act" by simp_all
qed (use assms in \<open>auto simp: frame_def\<close>)

lemma frame_child_added:
  assumes "child_added k act x db db'" and "is_action db act"
  shows "frame act db db'"
proof -
  have none: "length db \<le> i \<Longrightarrow> concrete_at db i = None" for i
    by (cases "concrete_at db i") (auto dest: concrete_at_less)
  show ?thesis
    using assms is_action_less [OF assms(2)] child_added_actions(1) [OF assms] child_added_children(3) [OF assms]
    by (auto simp: frame_def child_added_def none split: if_splits)
qed

lemma frame_noted:
  assumes "noted n db db'"
  shows "frame act db db'"
proof -
  have "map_option skeleton (inheritance_at db' i) = map_option skeleton (inheritance_at db i)" for i
    using assms by (auto simp: noted_def skeleton_def)
  then show ?thesis
    using assms noted_actions(1,5) [OF assms] by (auto simp: frame_def noted_def dest: concrete_at_less)
qed

definition instance_map :: "session \<Rightarrow> (idx \<times> idx) list" where
  "instance_map s = m_instanceMap (ss_derivation s)"

definition instances_ok :: "session \<Rightarrow> bool" where
  "instances_ok s \<longleftrightarrow> distinct (map snd (instance_map s)) \<and>
     (\<forall>x c. (x, c) \<in> set (instance_map s) \<longleftrightarrow> element_of (ss_objects s) c = Some x)"

lemma dom_map_insert [simp]: "dom (map_insert k v m) = insert k (dom m)"
  by (auto simp: map_insert_def)

lemma children_less:
  assumes "wf_trees db" and "c \<in> set (children_of db act)"
  shows "c < length db"
proof -
  obtain e where e: "concrete_at db act = Some e" "c \<in> set (ce_children e)"
    using assms(2) by (cases "concrete_at db act") (auto simp: children_of_def)
  then have "parent_of db c = Some act" using assms(1) by (auto simp: wf_trees_def parents_ok_def)
  then show ?thesis by (auto simp: parent_of_def dest: concrete_at_less split: option.splits)
qed

lemma child_added_lists:
  assumes added: "child_added k act x db db'" and act: "is_action db act" and wf: "wf_trees db"
  shows "child_actions db' act = child_actions db act @ (if k = ConcreteAction then [length db] else [])"
    and "child_dimensions db' act = child_dimensions db act @ (if \<exists>g. k = Dimension_User g then [length db] else [])"
proof -
  note c = child_added_children(1) [OF added act] and a = child_added_actions [OF added act]
  have ne: "\<forall>i \<in> set (children_of db act). i \<noteq> length db" using children_less [OF wf] by blast
  have none: "\<not> is_action db (length db)" "user_dimension_at db (length db) = None"
    by (simp_all add: is_action_def user_dimension_at_def)
  have "filter (is_action db') (children_of db act) = filter (is_action db) (children_of db act)"
    by (rule filter_cong [OF refl]) (use a(1) ne in auto)
  then show "child_actions db' act = child_actions db act @ (if k = ConcreteAction then [length db] else [])"
    using c a(1) none by (simp add: child_actions_def)
  have "filter (\<lambda>i. user_dimension_at db' i \<noteq> None) (children_of db act) = filter (\<lambda>i. user_dimension_at db i \<noteq> None) (children_of db act)"
    by (rule filter_cong [OF refl]) (use a(2) ne in auto)
  then show "child_dimensions db' act = child_dimensions db act @ (if \<exists>g. k = Dimension_User g then [length db] else [])"
    using c a(2) [of "length db"] none by (simp add: child_dimensions_def)
qed

text \<open>The elements of the children.\<close>

definition action_elements :: "database \<Rightarrow> idx \<Rightarrow> idx option list" where
  "action_elements db act = map (element_of db) (child_actions db act)"

definition dimension_elements :: "database \<Rightarrow> idx \<Rightarrow> idx option list" where
  "dimension_elements db act = map (element_of db) (child_dimensions db act)"

lemma child_added_elements:
  assumes added: "child_added k act x db db'" and act: "is_action db act" and wf: "wf_trees db"
  shows "action_elements db' act = action_elements db act @ (if k = ConcreteAction then [x] else [])"
    and "dimension_elements db' act = dimension_elements db act @ (if \<exists>g. k = Dimension_User g then [x] else [])"
proof -
  note lists = child_added_lists [OF added act wf] and el = child_added_children(3) [OF added act]
  have "map (element_of db') (child_actions db act) = map (element_of db) (child_actions db act)"
    "map (element_of db') (child_dimensions db act) = map (element_of db) (child_dimensions db act)"
    by (rule map_cong [OF refl], use children_less [OF wf] in \<open>fastforce simp: el child_actions_def child_dimensions_def\<close>)+
  then show "action_elements db' act = action_elements db act @ (if k = ConcreteAction then [x] else [])"
    "dimension_elements db' act = dimension_elements db act @ (if \<exists>g. k = Dimension_User g then [x] else [])"
    using lists el by (simp_all add: action_elements_def dimension_elements_def)
qed

lemma noted_elements:
  assumes "noted n db db'"
  shows "action_elements db' = action_elements db" "dimension_elements db' = dimension_elements db"
  by (simp_all add: noted_actions [OF assms] action_elements_def [abs_def] dimension_elements_def [abs_def]
      child_actions_def [abs_def] child_dimensions_def [abs_def])

text \<open>The children of the action are instances of \<open>EA\<close> and \<open>ED\<close>, whose identifiers the override maps hold.\<close>

definition collating :: "idx \<Rightarrow> idx list \<Rightarrow> idx list \<Rightarrow> collation \<Rightarrow> bool" where
  "collating act EA ED co \<longleftrightarrow>
     wf_trees (db_of co) \<and> is_action (db_of co) act \<and>
     action_elements (db_of co) act = map Some EA \<and> dimension_elements (db_of co) act = map Some ED \<and>
     dom (co_actions co) = ident (db_of co) ` set EA \<and>
     dom (co_dimensions co) = ident (db_of co) ` set ED"

lemma instances_ok_child:
  assumes "child_added k act (Some x) (ss_objects s) (ss_objects s')" and "is_action (ss_objects s) act"
    and "instance_map s' = instance_map s @ [(x, length (ss_objects s))]" and "instances_ok s"
  shows "instances_ok s'"
proof -
  note el = child_added_children(3) [OF assms(1,2)]
  have none: "element_of (ss_objects s) (length (ss_objects s)) = None" by (simp add: element_of_def)
  have ok: "(y, c) \<in> set (instance_map s) \<longleftrightarrow> element_of (ss_objects s) c = Some y" for y c
    using assms(4) by (simp add: instances_ok_def)
  then have "length (ss_objects s) \<notin> snd ` set (instance_map s)" using none by auto
  then show ?thesis
    using assms(3,4) el ok none by (auto simp: instances_ok_def)
qed

lemma instances_ok_noted:
  assumes "noted n (ss_objects s) (ss_objects s')" and "ss_derivation s' = ss_derivation s" and "instances_ok s"
  shows "instances_ok s'"
  using assms noted_actions(5) [OF assms(1)] by (simp add: instances_ok_def instance_map_def)

text \<open>How often an object was constructed is what the set of the constructed objects says.\<close>

definition plain_object :: "database \<Rightarrow> idx \<Rightarrow> bool" where
  "plain_object db x \<longleftrightarrow> (\<exists>e. interface_at db x = Some e \<and> if_class e = Object)"

definition count_instances :: "idx \<Rightarrow> session \<Rightarrow> nat" where
  "count_instances x s = length (filter (\<lambda>p. fst p = x) (instance_map s))"

definition counted :: "session \<times> idx set \<Rightarrow> session \<times> idx set \<Rightarrow> bool" where
  "counted sc sc' \<longleftrightarrow> snd sc \<subseteq> snd sc' \<and>
     (\<forall>x. plain_object (ss_objects (fst sc)) x \<longrightarrow>
        count_instances x (fst sc') + (if x \<in> snd sc then 1 else 0) =
        count_instances x (fst sc) + (if x \<in> snd sc' then 1 else 0))"

lemma counted_refl [simp]: "counted sc sc"
  by (simp add: counted_def)

lemma counted_trans:
  assumes "counted a b" and "counted b c" and "interface_at (ss_objects (fst b)) = interface_at (ss_objects (fst a))"
  shows "counted a c"
proof -
  have "count_instances x (fst c) + (if x \<in> snd a then 1 else 0) = count_instances x (fst a) + (if x \<in> snd c then 1 else 0)"
    if "plain_object (ss_objects (fst a)) x" for x
  proof -
    have "plain_object (ss_objects (fst b)) x" using that assms(3) by (simp add: plain_object_def)
    then have "count_instances x (fst c) + (if x \<in> snd b then 1 else 0) = count_instances x (fst b) + (if x \<in> snd c then 1 else 0)"
      "count_instances x (fst b) + (if x \<in> snd a then 1 else 0) = count_instances x (fst a) + (if x \<in> snd b then 1 else 0)"
      using assms(1,2) that unfolding counted_def by blast+
    then show ?thesis by linarith
  qed
  then show ?thesis using assms(1,2) by (auto simp: counted_def)
qed

text \<open>What every step of the collation does, the children of the action apart.\<close>

definition advances :: "idx \<Rightarrow> collation \<Rightarrow> collation \<Rightarrow> bool" where
  "advances act co co' \<longleftrightarrow>
     frame act (db_of co) (db_of co') \<and>
     counted (co_session co, co_constructed co) (co_session co', co_constructed co') \<and>
     (instances_ok (co_session co) \<longrightarrow> instances_ok (co_session co'))"

lemma advances_refl [simp]: "advances act co co"
  by (simp add: advances_def)

lemma advances_trans: "advances act a b \<Longrightarrow> advances act b c \<Longrightarrow> is_action (db_of a) act \<Longrightarrow> advances act a c"
  unfolding advances_def
  by (metis counted_trans db_of_def frame_def frame_trans fst_conv is_action_less)

text \<open>The construction of a child action: \<open>co'\<close> is the collation after the override map is updated.\<close>

lemma action_step:
  assumes inv: "collating act EA ED co" and x: "context_at (db_of co) x \<noteq> None"
    and con: "construct_action act x (co_session co) = Inr (c, s)" and rec: "record_action n c s = Inr s'"
    and co': "co_session co' = s'" "co_actions co' = map_insert (ident (ss_objects s') x) c (co_actions co)"
      "co_dimensions co' = co_dimensions co"
    and cons: "co_constructed co' = (if plain_object (db_of co) x then insert x (co_constructed co) else co_constructed co)"
      "plain_object (db_of co) x \<Longrightarrow> x \<notin> co_constructed co"
  shows "collating act (EA @ [x]) ED co' \<and> advances act co co'"
proof -
  let ?db = "ss_objects (co_session co)"
  have wf: "wf_trees ?db" and act: "is_action ?db act" using inv by (simp_all add: collating_def db_of_def)
  note c = construct_action_effect [OF con act]
  note r = record_effect(1) [OF rec]
  note same = noted_actions [OF conjunct1 [OF r]]
  have iface: "interface_at (ss_objects s') = interface_at ?db"
    using c(1) r by (simp add: child_added_def noted_def)
  note [simp] = same_interface(4) [OF iface]
  have wf': "wf_trees (ss_objects s')"
    by (rule wf_trees_noted [OF wf_trees_child [OF wf act c(1)] conjunct1 [OF r]]) (use x in \<open>simp add: db_of_def\<close>)
  have fr: "frame act ?db (ss_objects s')"
    using frame_trans [OF frame_child_added [OF c(1) act] frame_noted [OF conjunct1 [OF r]] is_action_less [OF act]] .
  note els = child_added_elements [OF c(1) act wf] noted_elements [OF conjunct1 [OF r]]
  have "is_action (ss_objects s') act" using act child_added_actions(1) [OF c(1) act] same by simp
  then have coll: "collating act (EA @ [x]) ED co'"
    using inv wf' co' els by (simp add: collating_def db_of_def image_Un)
  have im: "instance_map s' = instance_map (co_session co) @ [(x, length ?db)]"
    using c(2,3) r by (simp add: instance_map_def)
  have "counted (co_session co, co_constructed co) (s', co_constructed co')"
    using cons by (auto simp: counted_def count_instances_def im db_of_def)
  moreover have "instances_ok (co_session co) \<longrightarrow> instances_ok s'"
    using instances_ok_child [OF c(1) act] instances_ok_noted [OF conjunct1 [OF r] conjunct2 [OF r]] im r c(2,3)
    by (simp add: instance_map_def)
  ultimately show ?thesis using coll fr co' by (simp add: advances_def db_of_def)
qed

lemma dimension_step:
  assumes inv: "collating act EA ED co" and plain: "\<not> plain_object (db_of co) x"
    and con: "construct_dimension act x (co_session co) = Inr (c, s)" and rec: "record_dimension n c s = Inr s'"
    and co': "co_session co' = s'" "co_dimensions co' = map_insert (ident (ss_objects s') x) c (co_dimensions co)"
      "co_actions co' = co_actions co" "co_constructed co' = co_constructed co"
  shows "collating act EA (ED @ [x]) co' \<and> advances act co co'"
proof -
  let ?db = "ss_objects (co_session co)"
  have wf: "wf_trees ?db" and act: "is_action ?db act" using inv by (simp_all add: collating_def db_of_def)
  note c = construct_dimension_effect [OF con act]
  note r = record_effect(2) [OF rec]
  note same = noted_actions [OF conjunct1 [OF r]]
  have iface: "interface_at (ss_objects s') = interface_at ?db"
    using c(1) r by (simp add: child_added_def noted_def)
  note [simp] = same_interface(4) [OF iface]
  have wf': "wf_trees (ss_objects s')"
    by (rule wf_trees_noted [OF wf_trees_child [OF wf act c(1)] conjunct1 [OF r]]) simp
  have fr: "frame act ?db (ss_objects s')"
    using frame_trans [OF frame_child_added [OF c(1) act] frame_noted [OF conjunct1 [OF r]] is_action_less [OF act]] .
  note els = child_added_elements [OF c(1) act wf] noted_elements [OF conjunct1 [OF r]]
  have "is_action (ss_objects s') act" using act child_added_actions(1) [OF c(1) act] same by simp
  then have coll: "collating act EA (ED @ [x]) co'"
    using inv wf' co' els by (simp add: collating_def db_of_def image_Un)
  have im: "instance_map s' = instance_map (co_session co) @ [(x, length ?db)]"
    using c(2,3) r by (simp add: instance_map_def)
  have "counted (co_session co, co_constructed co) (s', co_constructed co')"
    using plain co' by (auto simp: counted_def count_instances_def im db_of_def)
  moreover have "instances_ok (co_session co) \<longrightarrow> instances_ok s'"
    using instances_ok_child [OF c(1) act] instances_ok_noted [OF conjunct1 [OF r] conjunct2 [OF r]] im r c(2,3)
    by (simp add: instance_map_def)
  ultimately show ?thesis using coll fr co' by (simp add: advances_def db_of_def)
qed

lemma note_step:
  assumes inv: "collating act EA ED co" and r: "noted n (db_of co) (ss_objects s') \<and> ss_derivation s' = ss_derivation (co_session co)"
  shows "collating act EA ED (co\<lparr>co_session := s'\<rparr>) \<and> advances act co (co\<lparr>co_session := s'\<rparr>)"
proof -
  note same = noted_actions [OF conjunct1 [OF r]]
  have iface: "interface_at (ss_objects s') = interface_at (db_of co)" using r by (simp add: noted_def)
  have "collating act EA ED (co\<lparr>co_session := s'\<rparr>)"
    using inv wf_trees_noted [OF _ conjunct1 [OF r]] same noted_elements [OF conjunct1 [OF r]]
    by (simp add: collating_def db_of_def same_interface(4) [OF iface [unfolded db_of_def]])
  moreover have "counted (co_session co, co_constructed co) (s', co_constructed co)"
    using r by (simp add: counted_def count_instances_def instance_map_def)
  ultimately show ?thesis
    using frame_noted [OF conjunct1 [OF r]] instances_ok_noted [OF conjunct1 [OF r, unfolded db_of_def] conjunct2 [OF r]]
    by (simp add: advances_def db_of_def)
qed

lemma collate_action_step:
  assumes inv: "collating act EA ED co" and step: "collate_action act n x co = Inr co'"
    and x: "context_at (db_of co) x \<noteq> None" "\<not> plain_object (db_of co) x"
  shows "collating act (EA @ first_by (ident (db_of co)) (filter (\<lambda>x. \<not> isAbstract (db_of co) x) [x])
        (ident (db_of co) ` set EA)) ED co' \<and> advances act co co' \<and> co_constructed co' = co_constructed co"
proof (cases "isAbstract (db_of co) x")
  case True
  then show ?thesis using assms by (simp add: collate_action_def)
next
  case False
  have dom: "dom (co_actions co) = ident (db_of co) ` set EA" using inv by (simp add: collating_def)
  show ?thesis
  proof (cases "co_actions co (ident (db_of co) x)")
    case None
    then have new: "ident (db_of co) x \<notin> ident (db_of co) ` set EA" using dom by blast
    obtain c s s' where con: "construct_action act x (co_session co) = Inr (c, s)" and rec: "record_action n c s = Inr s'"
      and co': "co' = co\<lparr>co_session := s', co_actions := map_insert (ident (ss_objects s') x) c (co_actions co)\<rparr>"
      using step False None by (auto simp: collate_action_def bindR_eq_Inr)
    have "collating act (EA @ [x]) ED co' \<and> advances act co co'"
      by (rule action_step [OF inv x(1) con rec]) (use co' x(2) in simp_all)
    then show ?thesis using False new co' by simp
  next
    case (Some c)
    then have old: "ident (db_of co) x \<in> ident (db_of co) ` set EA" using dom by blast
    obtain s' where "record_action n c (co_session co) = Inr s'" "co' = co\<lparr>co_session := s'\<rparr>"
      using step False Some by (auto simp: collate_action_def bindR_eq_Inr)
    then show ?thesis using note_step [OF inv, of n s'] record_effect(1) [of n c "co_session co" s'] old
      by (simp add: db_of_def)
  qed
qed

lemma collate_dimension_step:
  assumes inv: "collating act EA ED co" and step: "collate_dimension act n x co = Inr co'"
    and x: "\<not> plain_object (db_of co) x"
  shows "collating act EA (ED @ first_by (ident (db_of co)) [x] (ident (db_of co) ` set ED)) co' \<and>
    advances act co co' \<and> co_constructed co' = co_constructed co"
proof -
  have dom: "dom (co_dimensions co) = ident (db_of co) ` set ED" using inv by (simp add: collating_def)
  show ?thesis
  proof (cases "co_dimensions co (ident (db_of co) x)")
    case None
    then have new: "ident (db_of co) x \<notin> ident (db_of co) ` set ED" using dom by blast
    obtain c s s' where con: "construct_dimension act x (co_session co) = Inr (c, s)" and rec: "record_dimension n c s = Inr s'"
      and co': "co' = co\<lparr>co_session := s', co_dimensions := map_insert (ident (ss_objects s') x) c (co_dimensions co)\<rparr>"
      using step None by (auto simp: collate_dimension_def bindR_eq_Inr)
    have "collating act EA (ED @ [x]) co' \<and> advances act co co'"
      by (rule dimension_step [OF inv x con rec]) (use co' in simp_all)
    then show ?thesis using new co' by simp
  next
    case (Some c)
    then have old: "ident (db_of co) x \<in> ident (db_of co) ` set ED" using dom by blast
    obtain s' where "record_dimension n c (co_session co) = Inr s'" "co' = co\<lparr>co_session := s'\<rparr>"
      using step Some by (auto simp: collate_dimension_def bindR_eq_Inr)
    then show ?thesis using note_step [OF inv, of n s'] record_effect(2) [of n c "co_session co" s'] old
      by (simp add: db_of_def)
  qed
qed

text \<open>The objects that a root of a file or project takes.\<close>

definition objects_below :: "nat \<Rightarrow> database \<Rightarrow> idx list \<Rightarrow> idx \<Rightarrow> idx list" where
  "objects_below k db objects r = filter (\<lambda>x. found_parent k db (Some x) r = Inr True) objects"

lemma collate_object_step:
  assumes inv: "collating act EA ED co" and step: "collate_object k r act n x co = Inr co'"
    and x: "plain_object (db_of co) x"
  shows "collating act (EA @ objects_below k (db_of co) [x] r) ED co' \<and> advances act co co' \<and>
    co_constructed co' = co_constructed co \<union> set (objects_below k (db_of co) [x] r) \<and>
    set (objects_below k (db_of co) [x] r) \<inter> co_constructed co = {}"
proof -
  obtain found where found: "found_parent k (db_of co) (Some x) r = Inr found"
    using step by (auto simp: collate_object_def bindR_eq_Inr)
  show ?thesis
  proof (cases found)
    case True
    obtain c s s' where new: "x \<notin> co_constructed co" and con: "construct_action act x (co_session co) = Inr (c, s)"
      and rec: "record_action n c s = Inr s'"
      and co': "co' = co\<lparr>co_session := s', co_constructed := insert x (co_constructed co),
          co_actions := map_insert (ident (ss_objects s') x) c (co_actions co)\<rparr>"
      using step found True by (auto simp: collate_object_def bindR_eq_Inr)
    have ctx: "context_at (db_of co) x \<noteq> None" using x by (auto simp: plain_object_def context_at_def)
    have "collating act (EA @ [x]) ED co' \<and> advances act co co'"
      by (rule action_step [OF inv ctx con rec]) (use co' x new in simp_all)
    then show ?thesis using True found new co' by (simp add: objects_below_def)
  next
    case False
    then show ?thesis using found step inv by (simp add: collate_object_def objects_below_def)
  qed
qed

lemma advances_interface:
  assumes "advances act co co'"
  shows "interface_at (db_of co') = interface_at (db_of co)"
  using assms by (simp add: advances_def frame_def)

lemma plain_object_same: "interface_at db' = interface_at db \<Longrightarrow> plain_object db' x = plain_object db x"
  by (simp add: plain_object_def)

lemma collating_act: "collating act EA ED co \<Longrightarrow> is_action (db_of co) act"
  by (simp add: collating_def)

lemma collate_actions_loop:
  assumes "foldR (collate_action act n) xs co = Inr co'" and "collating act EA ED co"
    and "\<And>x. x \<in> set xs \<Longrightarrow> context_at (db_of co) x \<noteq> None \<and> \<not> plain_object (db_of co) x"
  shows "collating act (EA @ first_by (ident (db_of co)) (filter (\<lambda>x. \<not> isAbstract (db_of co) x) xs)
        (ident (db_of co) ` set EA)) ED co' \<and> advances act co co' \<and> co_constructed co' = co_constructed co"
  using assms
proof (induction xs arbitrary: co EA)
  case (Cons x xs)
  obtain u where u: "collate_action act n x co = Inr u" "foldR (collate_action act n) xs u = Inr co'"
    using Cons.prems(1) by (auto simp: bindR_eq_Inr)
  let ?id = "ident (db_of co)"
  let ?new = "first_by ?id (filter (\<lambda>x. \<not> isAbstract (db_of co) x) [x]) (?id ` set EA)"
  have 1: "collating act (EA @ ?new) ED u" "advances act co u" "co_constructed u = co_constructed co"
    using collate_action_step [OF Cons.prems(2) u(1)] Cons.prems(3) by simp_all
  note iface = advances_interface [OF 1(2)]
  note same = same_interface(1,4,5) [OF iface] plain_object_same [OF iface]
  have 2: "collating act ((EA @ ?new) @ first_by ?id (filter (\<lambda>x. \<not> isAbstract (db_of co) x) xs) (?id ` set (EA @ ?new))) ED co' \<and>
      advances act u co' \<and> co_constructed co' = co_constructed u"
    using Cons.IH [OF u(2) 1(1)] Cons.prems(3) by (simp add: same)
  have "first_by ?id (filter (\<lambda>x. \<not> isAbstract (db_of co) x) (x # xs)) (?id ` set EA) =
      ?new @ first_by ?id (filter (\<lambda>x. \<not> isAbstract (db_of co) x) xs) (?id ` set (EA @ ?new))"
    by (simp add: image_Un)
  then show ?case
    using 1 2 advances_trans [OF 1(2)] collating_act [OF Cons.prems(2)] by simp
qed simp

lemma collate_dimensions_loop:
  assumes "foldR (collate_dimension act n) xs co = Inr co'" and "collating act EA ED co"
    and "\<And>x. x \<in> set xs \<Longrightarrow> \<not> plain_object (db_of co) x"
  shows "collating act EA (ED @ first_by (ident (db_of co)) xs (ident (db_of co) ` set ED)) co' \<and>
    advances act co co' \<and> co_constructed co' = co_constructed co"
  using assms
proof (induction xs arbitrary: co ED)
  case (Cons x xs)
  obtain u where u: "collate_dimension act n x co = Inr u" "foldR (collate_dimension act n) xs u = Inr co'"
    using Cons.prems(1) by (auto simp: bindR_eq_Inr)
  let ?id = "ident (db_of co)"
  let ?new = "first_by ?id [x] (?id ` set ED)"
  have 1: "collating act EA (ED @ ?new) u" "advances act co u" "co_constructed u = co_constructed co"
    using collate_dimension_step [OF Cons.prems(2) u(1)] Cons.prems(3) by simp_all
  note iface = advances_interface [OF 1(2)]
  have 2: "collating act EA ((ED @ ?new) @ first_by ?id xs (?id ` set (ED @ ?new))) co' \<and>
      advances act u co' \<and> co_constructed co' = co_constructed u"
    using Cons.IH [OF u(2) 1(1)] Cons.prems(3) by (simp add: same_interface(4) [OF iface] plain_object_same [OF iface])
  have "first_by ?id (x # xs) (?id ` set ED) = ?new @ first_by ?id xs (?id ` set (ED @ ?new))"
    by (simp add: image_Un)
  then show ?case
    using 1 2 advances_trans [OF 1(2)] collating_act [OF Cons.prems(2)] by simp
qed simp

lemma objects_below_same:
  assumes "interface_at db' = interface_at db" shows "objects_below k db' objects r = objects_below k db objects r"
  by (simp add: objects_below_def same_found_parent [OF assms])

lemma collate_objects_loop:
  assumes "foldR (collate_object k r act n) xs co = Inr co'" and "collating act EA ED co"
    and "\<And>x. x \<in> set xs \<Longrightarrow> plain_object (db_of co) x"
  shows "collating act (EA @ objects_below k (db_of co) xs r) ED co' \<and> advances act co co' \<and>
    co_constructed co' = co_constructed co \<union> set (objects_below k (db_of co) xs r) \<and>
    set (objects_below k (db_of co) xs r) \<inter> co_constructed co = {}"
  using assms
proof (induction xs arbitrary: co EA)
  case (Cons x xs)
  obtain u where u: "collate_object k r act n x co = Inr u" "foldR (collate_object k r act n) xs u = Inr co'"
    using Cons.prems(1) by (auto simp: bindR_eq_Inr)
  let ?new = "objects_below k (db_of co) [x] r"
  have 1: "collating act (EA @ ?new) ED u" "advances act co u" "co_constructed u = co_constructed co \<union> set ?new"
      "set ?new \<inter> co_constructed co = {}"
    using collate_object_step [OF Cons.prems(2) u(1)] Cons.prems(3) by simp_all
  note iface = advances_interface [OF 1(2)]
  have 2: "collating act ((EA @ ?new) @ objects_below k (db_of co) xs r) ED co' \<and> advances act u co' \<and>
      co_constructed co' = co_constructed u \<union> set (objects_below k (db_of co) xs r) \<and>
      set (objects_below k (db_of co) xs r) \<inter> co_constructed u = {}"
    using Cons.IH [OF u(2) 1(1)] Cons.prems(3)
    by (simp add: objects_below_same [OF iface] plain_object_same [OF iface])
  have "objects_below k (db_of co) (x # xs) r = ?new @ objects_below k (db_of co) xs r"
    by (simp add: objects_below_def)
  then show ?case
    using 1 2 advances_trans [OF 1(2)] collating_act [OF Cons.prems(2)] by auto
qed (simp add: objects_below_def)

lemma getContext_element:
  "getContext db act = (case element_of db act of Some x \<Rightarrow> if context_at db x \<noteq> None then Some x else None | None \<Rightarrow> None)"
  by (simp add: getContext_def element_of_def split: option.splits)

lemma frame_context:
  assumes "frame act db db'"
  shows "getContext db' act = getContext db act" "takes_objects db' act = takes_objects db act"
proof -
  have iface: "interface_at db' = interface_at db" and el: "element_of db' act = element_of db act"
    using assms by (simp_all add: frame_def)
  show 1: "getContext db' act = getContext db act" by (simp add: getContext_element el same_interface(1) [OF iface] split: option.split)
  show "takes_objects db' act = takes_objects db act" by (simp add: takes_objects_def 1 iface split: option.split)
qed

lemma member_actions_same:
  assumes "interface_at db' = interface_at db"
  shows "member_actions db' = member_actions db" "member_dimensions db' = member_dimensions db"
  by (simp_all add: fun_eq_iff member_actions_def member_dimensions_def same_collateChildren [OF assms] same_interface(5) [OF assms]
      split: sum.split)

lemma node_order_frame:
  assumes "frame act db db'" and "node_order db n cs"
  shows "node_order db' n cs"
  using assms(2)
proof (rule node_order_keep, intro allI impI)
  fix i N assume "inheritance_at db i = Some N"
  moreover have "map_option skeleton (inheritance_at db' i) = map_option skeleton (inheritance_at db i)"
    using assms(1) by (simp add: frame_def)
  ultimately show "\<exists>N'. inheritance_at db' i = Some N' \<and> in_context N' = in_context N \<and> in_children N' = in_children N"
    by (auto simp: skeleton_def)
qed

text \<open>The objects that an action takes.\<close>

definition taken_objects :: "nat \<Rightarrow> database \<Rightarrow> idx list \<Rightarrow> idx \<Rightarrow> idx list" where
  "taken_objects m db objects act =
     (case takes_objects db act of None \<Rightarrow> [] | Some r \<Rightarrow> objects_below m db objects r)"

lemma collate_objects_step:
  assumes "collate_objects m act n objects co = Inr co'" and "collating act EA ED co"
    and "\<And>x. x \<in> set objects \<Longrightarrow> plain_object (db_of co) x"
  shows "collating act (EA @ taken_objects m (db_of co) objects act) ED co' \<and> advances act co co' \<and>
    co_constructed co' = co_constructed co \<union> set (taken_objects m (db_of co) objects act) \<and>
    set (taken_objects m (db_of co) objects act) \<inter> co_constructed co = {}"
proof (cases "takes_objects (db_of co) act")
  case None
  then show ?thesis using assms by (simp add: collate_objects_def taken_objects_def)
next
  case (Some r)
  then have "foldR (collate_object m r act n) objects co = Inr co'" using assms(1) by (simp add: collate_objects_def)
  from collate_objects_loop [OF this assms(2,3)] Some show ?thesis by (simp add: taken_objects_def)
qed

lemma taken_objects_frame:
  assumes "frame act db db'"
  shows "taken_objects m db' objects act = taken_objects m db objects act"
proof -
  have iface: "interface_at db' = interface_at db" using assms by (simp add: frame_def)
  show ?thesis by (simp add: taken_objects_def frame_context(2) [OF assms] objects_below_same [OF iface] split: option.split)
qed

text \<open>The members of one node.\<close>

definition members_step :: "nat \<Rightarrow> idx list \<Rightarrow> idx \<Rightarrow> idx list \<Rightarrow> idx list \<Rightarrow> idx list \<Rightarrow> collation \<Rightarrow> collation \<Rightarrow> bool" where
  "members_step m objects act EA ED cs co co' \<longleftrightarrow>
     (let db = db_of co; objs = taken_objects m db objects act in
      collating act
        (EA @ objs @ first_by (ident db) (concat (map (member_actions db) cs)) (ident db ` set (EA @ objs)))
        (ED @ first_by (ident db) (concat (map (member_dimensions db) cs)) (ident db ` set ED)) co' \<and>
      advances act co co' \<and> co_constructed co' = co_constructed co \<union> set objs \<and> set objs \<inter> co_constructed co = {})"

lemma collateChildren_members:
  assumes "collateChildren db c = Inr (as, ds)"
  shows "filter (\<lambda>x. \<not> isAbstract db x) as = member_actions db c" "ds = member_dimensions db c"
    and "x \<in> set as \<Longrightarrow> context_at db x \<noteq> None \<and> \<not> plain_object db x"
    and "x \<in> set ds \<Longrightarrow> \<not> plain_object db x"
proof -
  show "filter (\<lambda>x. \<not> isAbstract db x) as = member_actions db c" "ds = member_dimensions db c"
    using assms by (simp_all add: member_actions_def member_dimensions_def)
  obtain e :: interface_element where loop: "collateChildren_loop db (if_children e) [] [] = Inr (as, ds)"
    using assms by (cases "context_at db c") (auto simp: collateChildren_def)
  show "x \<in> set as \<Longrightarrow> context_at db x \<noteq> None \<and> \<not> plain_object db x"
    using collateChildren_loop_contexts [OF loop] by (simp add: plain_object_def)
  have "\<exists>e. interface_at db x = Some e \<and> if_class e = Dimension"
    if "collateChildren_loop db xs as0 ds0 = Inr (as, ds)" "x \<in> set ds"
      "\<And>y. y \<in> set ds0 \<Longrightarrow> \<exists>e. interface_at db y = Some e \<and> if_class e = Dimension" for xs as0 ds0
    using that
  proof (induction xs arbitrary: as0 ds0)
    case (Cons y xs)
    show ?case
    proof (cases "interface_at db y")
      case (Some e)
      show ?thesis
      proof (cases "if_class e = Dimension")
        case True
        then show ?thesis using Cons.IH [of as0 "ds0 @ [y]"] Cons.prems Some by auto
      next
        case False
        then obtain as1 where "collateChildren_loop db (y # xs) as0 ds0 = collateChildren_loop db xs as1 ds0"
          using Some by (cases "if_class e") simp_all
        then show ?thesis using Cons.IH [of as1 ds0] Cons.prems by simp
      qed
    qed (use Cons.prems in simp)
  qed simp
  from this [OF loop] show "x \<in> set ds \<Longrightarrow> \<not> plain_object db x" by (auto simp: plain_object_def)
qed

lemma collate_node:
  assumes inv: "collating act EA ED co" and objects: "\<And>x. x \<in> set objects \<Longrightarrow> plain_object (db_of co) x"
    and kids: "collateChildren (db_of co) c = Inr (as, ds)"
    and objs: "collate_objects m act n objects co = Inr co1"
    and acts: "foldR (collate_action act n) as co1 = Inr co2"
    and dims: "foldR (collate_dimension act n) ds co2 = Inr co3"
  shows "members_step m objects act EA ED [c] co co3"
proof -
  let ?db = "db_of co"
  let ?objs = "taken_objects m ?db objects act"
  note kids' = collateChildren_members [OF kids]
  have 1: "collating act (EA @ ?objs) ED co1" "advances act co co1" "co_constructed co1 = co_constructed co \<union> set ?objs"
      "set ?objs \<inter> co_constructed co = {}"
    using collate_objects_step [OF objs inv objects] by simp_all
  note i1 = advances_interface [OF 1(2)]
  have 2: "collating act ((EA @ ?objs) @ first_by (ident ?db) (member_actions ?db c) (ident ?db ` set (EA @ ?objs))) ED co2"
      "advances act co1 co2" "co_constructed co2 = co_constructed co1"
    using collate_actions_loop [OF acts 1(1)] kids'(1,3)
    by (simp_all add: same_interface(1,4,5) [OF i1] plain_object_same [OF i1])
  have i2: "interface_at (db_of co2) = interface_at ?db" using advances_interface [OF 2(2)] i1 by simp
  have 3: "collating act ((EA @ ?objs) @ first_by (ident ?db) (member_actions ?db c) (ident ?db ` set (EA @ ?objs)))
      (ED @ first_by (ident ?db) (member_dimensions ?db c) (ident ?db ` set ED)) co3"
      "advances act co2 co3" "co_constructed co3 = co_constructed co2"
    using collate_dimensions_loop [OF dims 2(1)] kids'(2,4)
    by (simp_all add: same_interface(4) [OF i2] plain_object_same [OF i2])
  have "advances act co co3"
    using advances_trans [OF 1(2) 2(2)] advances_trans [OF _ 3(2)] collating_act [OF inv] by blast
  then show ?thesis using 1 2(3) 3 by (simp add: members_step_def Let_def)
qed

lemma collateOverrides_members:
  assumes "collateOverrides m k objects act n co = Inr co'" and "collating act EA ED co"
    and "node_order (db_of co) n cs" and "\<And>x. x \<in> set objects \<Longrightarrow> plain_object (db_of co) x"
  shows "members_step m objects act EA ED cs co co'"
  using assms
proof (induction k arbitrary: n co co' EA ED cs)
  case (Suc k)
  let ?db = "db_of co"
  let ?objs = "taken_objects m ?db objects act"
  obtain N css where N: "inheritance_at ?db n = Some N" and cs: "cs = in_context N # concat css"
    and css: "list_all2 (node_order ?db) (in_children N) css"
    using Suc.prems(3) by (auto elim: node_order.cases)
  obtain as ds co1 co2 co3 N3 where kids: "collateChildren ?db (in_context N) = Inr (as, ds)"
    and steps: "collate_objects m act n objects co = Inr co1" "foldR (collate_action act n) as co1 = Inr co2"
      "foldR (collate_dimension act n) ds co2 = Inr co3"
    and N3: "inheritance_at (db_of co3) n = Some N3" and loop: "foldR (collateOverrides m k objects act) (in_children N3) co3 = Inr co'"
    using Suc.prems(1) N by (auto simp: bindR_eq_Inr)
  have node: "members_step m objects act EA ED [in_context N] co co3"
    by (rule collate_node [OF Suc.prems(2,4) kids steps])
  then have adv: "advances act co co3" by (simp add: members_step_def Let_def)
  then have fr: "frame act ?db (db_of co3)" by (simp add: advances_def)
  have "map_option skeleton (inheritance_at (db_of co3) n) = map_option skeleton (inheritance_at ?db n)"
    using fr by (simp add: frame_def)
  then have kids3: "in_children N3 = in_children N" using N N3 by (simp add: skeleton_def)
  have "members_step m objects act EA ED (in_context N # concat (take (length (in_children N3)) css)) co co'"
    using loop
  proof (rule foldR_prefix_invariant
      [where P = "\<lambda>ys. members_step m objects act EA ED (in_context N # concat (take (length ys) css)) co"])
    show "members_step m objects act EA ED (in_context N # concat (take (length []) css)) co co3" using node by simp
    fix ys x zs t t'
    assume kids4: "in_children N3 = ys @ x # zs"
      and inv: "members_step m objects act EA ED (in_context N # concat (take (length ys) css)) co t"
      and step: "collateOverrides m k objects act x t = Inr t'"
    let ?pre = "in_context N # concat (take (length ys) css)"
    let ?EA = "EA @ ?objs @ first_by (ident ?db) (concat (map (member_actions ?db) ?pre)) (ident ?db ` set (EA @ ?objs))"
    let ?ED = "ED @ first_by (ident ?db) (concat (map (member_dimensions ?db) ?pre)) (ident ?db ` set ED)"
    have t: "collating act ?EA ?ED t" "advances act co t" "co_constructed t = co_constructed co \<union> set ?objs"
        "set ?objs \<inter> co_constructed co = {}"
      using inv by (simp_all add: members_step_def Let_def)
    note iface = advances_interface [OF t(2)]
    have frt: "frame act ?db (db_of t)" using t(2) by (simp add: advances_def)
    have kids5: "in_children N = ys @ x # zs" using kids3 kids4 by simp
    then have len: "length ys < length css" using list_all2_lengthD [OF css] by simp
    have "node_order ?db x (css ! length ys)"
      using list_all2_nthD [OF css, of "length ys"] kids5 by simp
    then have x: "node_order (db_of t) x (css ! length ys)" by (rule node_order_frame [OF frt])
    have "members_step m objects act ?EA ?ED (css ! length ys) t t'"
      by (rule Suc.IH [OF step t(1) x]) (use Suc.prems(4) plain_object_same [OF iface] in simp)
    then have r: "collating act
        (?EA @ ?objs @ first_by (ident ?db) (concat (map (member_actions ?db) (css ! length ys))) (ident ?db ` set (?EA @ ?objs)))
        (?ED @ first_by (ident ?db) (concat (map (member_dimensions ?db) (css ! length ys))) (ident ?db ` set ?ED)) t'"
        "advances act t t'" "co_constructed t' = co_constructed t \<union> set ?objs" "set ?objs \<inter> co_constructed t = {}"
      by (simp_all only: members_step_def Let_def taken_objects_frame [OF frt] same_interface(4) [OF iface] member_actions_same [OF iface])
    have none: "?objs = []" using r(4) t(3) by (cases ?objs) auto
    have pre: "in_context N # concat (take (length (ys @ [x])) css) = ?pre @ css ! length ys"
      using len by (simp add: take_Suc_conv_app_nth)
    have fb: "?EA @ ?objs @ first_by (ident ?db) (concat (map (member_actions ?db) (css ! length ys))) (ident ?db ` set (?EA @ ?objs)) =
        EA @ ?objs @ first_by (ident ?db) (concat (map (member_actions ?db) (?pre @ css ! length ys))) (ident ?db ` set (EA @ ?objs))"
      unfolding none map_append concat_append first_by_append using first_by_keys [of "ident ?db"]
      by (simp add: image_Un Un_ac)
    have fd: "?ED @ first_by (ident ?db) (concat (map (member_dimensions ?db) (css ! length ys))) (ident ?db ` set ?ED) =
        ED @ first_by (ident ?db) (concat (map (member_dimensions ?db) (?pre @ css ! length ys))) (ident ?db ` set ED)"
      unfolding map_append concat_append first_by_append using first_by_keys [of "ident ?db"]
      by (simp add: image_Un Un_ac)
    have "advances act co t'" using advances_trans [OF t(2) r(2)] collating_act [OF Suc.prems(2)] .
    then show "members_step m objects act EA ED (in_context N # concat (take (length (ys @ [x])) css)) co t'"
      unfolding pre members_step_def Let_def using r(1) fb fd t(3,4) r(3) none by simp
  qed
  then show ?case using cs css kids3 by (simp add: list_all2_lengthD)
qed simp

section \<open>The tree of actions\<close>

text \<open>An action is complete when its children are the objects it takes and the members of the contexts it
  inherits, of which the first with an identifier counts.\<close>

definition complete :: "nat \<Rightarrow> idx list \<Rightarrow> database \<Rightarrow> idx \<Rightarrow> bool" where
  "complete m objects db c \<longleftrightarrow>
     (\<exists>x cs. element_of db c = Some x \<and> inheritance_order db x cs \<and>
        action_elements db c = map Some (taken_objects m db objects c @
          first_by (ident db) (concat (map (member_actions db) cs)) (ident db ` set (taken_objects m db objects c))) \<and>
        dimension_elements db c = map Some (first_by (ident db) (concat (map (member_dimensions db) cs)) {}))"

text \<open>What the construction of an instance keeps: it touches the children of \<open>act\<close> and what it constructs.\<close>

definition keeps :: "idx set \<Rightarrow> database \<Rightarrow> database \<Rightarrow> bool" where
  "keeps acts db db' \<longleftrightarrow>
     interface_at db' = interface_at db \<and> length db \<le> length db' \<and>
     (\<forall>i < length db. element_of db' i = element_of db i \<and> is_action db' i = is_action db i \<and>
        (user_dimension_at db' i \<noteq> None) = (user_dimension_at db i \<noteq> None) \<and>
        (i \<notin> acts \<longrightarrow> children_of db' i = children_of db i))"

lemma keeps_refl [simp]: "keeps acts db db"
  by (simp add: keeps_def)

lemma keeps_trans:
  assumes "keeps acts db db'" and "keeps acts' db' db''" and "\<And>i. i \<in> acts' \<Longrightarrow> i < length db \<Longrightarrow> i \<in> acts"
  shows "keeps acts db db''"
proof -
  have *: "i < length db \<Longrightarrow> i \<notin> acts \<Longrightarrow> i \<notin> acts'" for i using assms(3) by blast
  show ?thesis using assms(1,2) * by (simp add: keeps_def)
qed

lemma keeps_mono: "keeps acts db db' \<Longrightarrow> acts \<subseteq> acts' \<Longrightarrow> keeps acts' db db'"
  by (auto simp: keeps_def)

lemma wf_children:
  assumes "c \<in> set (children_of db act)" and "wf_trees db"
  shows "parent_of db c = Some act" and "act < c"
proof -
  obtain e where "concrete_at db act = Some e" "c \<in> set (ce_children e)"
    using assms(1) by (cases "concrete_at db act") (auto simp: children_of_def)
  then show 1: "parent_of db c = Some act" using assms(2) by (auto simp: wf_trees_def parents_ok_def)
  then obtain f where f: "concrete_at db c = Some f" "ce_parent f = Some act" by (auto simp: parent_of_def split: option.splits)
  then show "act < c" using assms(2) unfolding wf_trees_def parents_ok_def by blast
qed

lemma wf_parent:
  assumes "parent_of db c = Some act" and "wf_trees db"
  shows "c \<in> set (children_of db act)"
proof -
  obtain f where "concrete_at db c = Some f" "ce_parent f = Some act" using assms(1) by (auto simp: parent_of_def split: option.splits)
  then show ?thesis using assms(2) unfolding wf_trees_def parents_ok_def by blast
qed

lemma frame_keeps:
  assumes "frame act db db'" and "is_action db act"
  shows "keeps {act} db db'"
proof -
  have "element_of db' i = element_of db i \<and> is_action db' i = is_action db i \<and>
      (user_dimension_at db' i \<noteq> None) = (user_dimension_at db i \<noteq> None) \<and>
      (i \<notin> {act} \<longrightarrow> children_of db' i = children_of db i)" if "i < length db" for i
  proof (cases "i = act")
    case True
    have no: "user_dimension_at d act = None" if "is_action d act" for d
      using that by (auto simp: is_action_def user_dimension_at_def split: option.splits)
    show ?thesis using True assms no [OF assms(2)] no [of db'] by (simp add: frame_def)
  next
    case False
    then have "concrete_at db' i = concrete_at db i" using assms(1) that by (simp add: frame_def)
    then show ?thesis by (simp add: element_of_def is_action_def user_dimension_at_def children_of_def)
  qed
  then show ?thesis using assms(1) by (simp add: keeps_def frame_def)
qed

lemma complete_keeps:
  assumes "complete m objects db c" and "keeps acts db db'" and "c < length db" and "c \<notin> acts" and "wf_trees db"
  shows "complete m objects db' c"
proof -
  have iface: "interface_at db' = interface_at db" using assms(2) by (simp add: keeps_def)
  have el: "element_of db' c = element_of db c" and kids: "children_of db' c = children_of db c"
    using assms(2-4) by (simp_all add: keeps_def)
  have less: "i < length db" if "i \<in> set (children_of db c)" for i by (rule children_less [OF assms(5) that])
  have "filter (is_action db') (children_of db c) = filter (is_action db) (children_of db c)"
    by (rule filter_cong [OF refl]) (use assms(2) less in \<open>simp add: keeps_def\<close>)
  then have acts: "action_elements db' c = action_elements db c"
    using assms(2) less by (simp add: action_elements_def child_actions_def kids keeps_def)
  have "filter (\<lambda>i. user_dimension_at db' i \<noteq> None) (children_of db c) = filter (\<lambda>i. user_dimension_at db i \<noteq> None) (children_of db c)"
    by (rule filter_cong [OF refl]) (use assms(2) less in \<open>simp add: keeps_def\<close>)
  then have dims: "dimension_elements db' c = dimension_elements db c"
    using assms(2) less by (simp add: dimension_elements_def child_dimensions_def kids keeps_def)
  have "getContext db' c = getContext db c"
    by (simp add: getContext_element el same_interface(1) [OF iface] split: option.split)
  then have taken: "taken_objects m db' objects c = taken_objects m db objects c"
    by (simp add: taken_objects_def takes_objects_def iface objects_below_same [OF iface] split: option.split)
  obtain x cs where "element_of db c = Some x" "inheritance_order db x cs"
        "action_elements db c = map Some (taken_objects m db objects c @
          first_by (ident db) (concat (map (member_actions db) cs)) (ident db ` set (taken_objects m db objects c)))"
        "dimension_elements db c = map Some (first_by (ident db) (concat (map (member_dimensions db) cs)) {})"
    using assms(1) unfolding complete_def by blast
  then show ?thesis
    unfolding complete_def using el acts dims taken inheritance_order_same [OF _ iface] member_actions_same [OF iface]
      same_interface(4) [OF iface] by metis
qed

definition constructed_tree :: "nat \<Rightarrow> idx list \<Rightarrow> idx set \<Rightarrow> database \<Rightarrow> session \<times> idx set \<Rightarrow> session \<times> idx set \<Rightarrow> bool" where
  "constructed_tree m objects acts db sc sc' \<longleftrightarrow>
     keeps acts (ss_objects (fst sc)) (ss_objects (fst sc')) \<and> wf_trees (ss_objects (fst sc')) \<and>
     instances_ok (fst sc') \<and> counted sc sc' \<and>
     (\<forall>c. is_action (ss_objects (fst sc')) c \<longrightarrow> c \<in> acts \<or> length db \<le> c \<longrightarrow> complete m objects (ss_objects (fst sc')) c)"

text \<open>The action gets its inheritance tree and its children.\<close>

lemma constructInstance_members:
  assumes tree: "constructInheritanceTree k act None x s = Inr (n, t)"
    and over: "collateOverrides m k objects act n
            \<lparr>co_session = update_action act f t, co_actions = \<lambda>_. None,
             co_dimensions = \<lambda>_. None, co_constructed = constructed\<rparr> = Inr co"
    and wf: "wf_trees (ss_objects s)" and act: "is_action (ss_objects s) act" and x: "getContext (ss_objects s) act = Some x"
    and leaf: "children_of (ss_objects s) act = []" and ok: "instances_ok s"
    and objects: "\<forall>y \<in> set objects. plain_object (ss_objects s) y"
  shows "keeps {act} (ss_objects s) (db_of co)" "wf_trees (db_of co)" "instances_ok (co_session co)"
    "counted (s, constructed) (co_session co, co_constructed co)" "complete m objects (db_of co) act"
    "\<And>i e. length (ss_objects s) \<le> i \<Longrightarrow> concrete_at (db_of co) i = Some e \<Longrightarrow> ce_children e = [] \<and> ce_parent e = Some act"
    "\<And>i. i \<in> set (children_of (db_of co) act) \<Longrightarrow> length (ss_objects s) \<le> i"
proof -
  let ?db = "ss_objects s"
  let ?co = "\<lparr>co_session = update_action act f t, co_actions = \<lambda>_. None,
             co_dimensions = \<lambda>_. None, co_constructed = constructed\<rparr>"
  have ctx: "context_at ?db x \<noteq> None" and el: "element_of ?db act = Some x"
    using x by (auto simp: getContext_element split: option.splits if_splits)
  have "tree_built act None x ?db n (ss_objects t) \<and> m_instanceMap (ss_derivation t) = m_instanceMap (ss_derivation s)"
    by (rule constructInheritanceTree_built [OF tree wf act ctx]) (simp add: parent_root_def)
  then obtain cs where t: "concrete_at (ss_objects t) = concrete_at ?db" "interface_at (ss_objects t) = interface_at ?db"
      "length ?db < length (ss_objects t)" "wf_trees (ss_objects t)" "inheritance_order ?db x cs" "node_order (ss_objects t) n cs"
      "m_instanceMap (ss_derivation t) = m_instanceMap (ss_derivation s)"
    unfolding tree_built_def by blast
  have same: "is_action (ss_objects t) = is_action ?db" "children_of (ss_objects t) = children_of ?db"
      "element_of (ss_objects t) = element_of ?db" "user_dimension_at (ss_objects t) = user_dimension_at ?db"
    using t(1) by (simp_all add: fun_eq_iff is_action_def children_of_def element_of_def user_dimension_at_def)
  have db [simp]: "db_of ?co = ss_objects t" by (simp add: db_of_def update_action_def)
  have start: "collating act [] [] ?co"
    using t(4) act same leaf
    by (simp add: collating_def action_elements_def dimension_elements_def child_actions_def child_dimensions_def)
  have "members_step m objects act [] [] cs ?co co"
    by (rule collateOverrides_members [OF over start]) (use t objects plain_object_same [OF t(2)] in simp_all)
  then have co: "collating act (taken_objects m (ss_objects t) objects act @
        first_by (ident (ss_objects t)) (concat (map (member_actions (ss_objects t)) cs))
          (ident (ss_objects t) ` set (taken_objects m (ss_objects t) objects act)))
        (first_by (ident (ss_objects t)) (concat (map (member_dimensions (ss_objects t)) cs)) {}) co" "advances act ?co co"
    by (simp_all add: members_step_def Let_def)
  have fr: "frame act (ss_objects t) (db_of co)" using co(2) by (simp add: advances_def)
  have iface: "interface_at (db_of co) = interface_at ?db" using fr t(2) by (simp add: frame_def)
  have kt: "keeps {act} ?db (ss_objects t)" using t(2,3) same by (simp add: keeps_def)
  show "keeps {act} ?db (db_of co)"
    by (rule keeps_trans [OF kt frame_keeps [OF fr]]) (use act same in simp_all)
  show "wf_trees (db_of co)" using co(1) by (simp add: collating_def)
  have "instances_ok (update_action act f t)"
    using ok same t(7) by (simp add: instances_ok_def instance_map_def update_action_def)
  then show "instances_ok (co_session co)" using co(2) by (simp add: advances_def)
  have "counted (s, constructed) (update_action act f t, constructed)"
    using t(7) by (simp add: counted_def count_instances_def instance_map_def update_action_def)
  then show "counted (s, constructed) (co_session co, co_constructed co)"
    by (rule counted_trans) (use co(2) t(2) in \<open>simp_all add: advances_def update_action_def\<close>)
  have "element_of (db_of co) act = Some x" using fr same el by (simp add: frame_def)
  moreover have "inheritance_order (db_of co) x cs" by (rule inheritance_order_same [OF t(5) iface])
  moreover have "taken_objects m (db_of co) objects act = taken_objects m (ss_objects t) objects act" by (rule taken_objects_frame [OF fr])
  moreover have "interface_at (db_of co) = interface_at (ss_objects t)" using fr by (simp add: frame_def)
  ultimately show "complete m objects (db_of co) act"
    using co(1) member_actions_same [of "db_of co" "ss_objects t"] same_interface(4) [of "db_of co" "ss_objects t"]
    unfolding complete_def collating_def by metis
  show "ce_children e = [] \<and> ce_parent e = Some act"
    if i: "length ?db \<le> i" and e: "concrete_at (db_of co) i = Some e" for i e
  proof (cases "length (ss_objects t) \<le> i")
    case True
    then show ?thesis using fr e by (auto simp: frame_def)
  next
    case False
    have "i \<noteq> act" using is_action_less [OF act] i by simp
    then have "concrete_at ?db i = Some e" using False fr e t(1) by (simp add: frame_def)
    then show ?thesis using concrete_at_less i by fastforce
  qed
  show "length ?db \<le> i" if i: "i \<in> set (children_of (db_of co) act)" for i
  proof (rule ccontr)
    assume less: "\<not> length ?db \<le> i"
    have "parent_of (db_of co) i = Some act" "act < i"
      using i \<open>wf_trees (db_of co)\<close> by (rule wf_children)+
    then have "i \<noteq> act" "concrete_at (db_of co) i = concrete_at ?db i"
      using fr t(1) less t(3) by (simp_all add: frame_def)
    then have "parent_of ?db i = Some act" using \<open>parent_of (db_of co) i = Some act\<close> by (simp add: parent_of_def)
    from wf_parent [OF this wf] leaf show False by simp
  qed
qed

lemma constructInstance_built:
  assumes "constructInstance m k objects act sc = Inr sc'"
    and "wf_trees (ss_objects (fst sc))" and "is_action (ss_objects (fst sc)) act"
    and "children_of (ss_objects (fst sc)) act = []" and "instances_ok (fst sc)"
    and "\<And>y. y \<in> set objects \<Longrightarrow> plain_object (ss_objects (fst sc)) y"
  shows "constructed_tree m objects {act} (ss_objects (fst sc)) sc sc'"
  using assms
proof (induction k arbitrary: act sc sc')
  case (Suc k)
  obtain s constructed where sc: "sc = (s, constructed)" by (cases sc)
  let ?db = "ss_objects s"
  obtain x n t co e where x: "getContext ?db act = Some x"
    and tree: "constructInheritanceTree (Suc k) act None x s = Inr (n, t)"
    and over: "collateOverrides m (Suc k) objects act n
            \<lparr>co_session = update_action act (\<lambda>d. d\<lparr>ac_inheritance := Some n\<rparr>) t, co_actions = \<lambda>_. None,
             co_dimensions = \<lambda>_. None, co_constructed = constructed\<rparr> = Inr co"
    and e: "concrete_at (db_of co) act = Some e"
    and loop: "foldR (\<lambda>c sc. if is_action (ss_objects (fst sc)) c then constructInstance m k objects c sc else Inr sc)
              (ce_children e) (co_session co, co_constructed co) = Inr sc'"
    using Suc.prems(1) unfolding sc
    by (auto simp: bindR_eq_Inr split: option.splits simp del: constructInheritanceTree.simps collateOverrides.simps)
  have objects0: "\<forall>y \<in> set objects. plain_object ?db y" using Suc.prems(6) sc by simp
  note mem = constructInstance_members [OF tree over Suc.prems(2,3) [unfolded sc fst_conv] x
      Suc.prems(4,5) [unfolded sc fst_conv] objects0]
  let ?sc1 = "(co_session co, co_constructed co)"
  have db1: "ss_objects (fst ?sc1) = db_of co" by (simp add: db_of_def)
  have kids: "ce_children e = children_of (db_of co) act" using e by (simp add: children_of_def)
  have objects1: "y \<in> set objects \<Longrightarrow> plain_object (db_of co) y" for y
    using Suc.prems(6) [of y] mem(1) plain_object_same [of "db_of co" ?db] sc by (simp add: keeps_def)
  have dist: "distinct (ce_children e)" using mem(2) e by (simp add: wf_trees_def parents_ok_def)
  have "constructed_tree m objects (set (ce_children e)) (db_of co) ?sc1 sc'"
    using loop
  proof (rule foldR_prefix_invariant [where P = "\<lambda>ys. constructed_tree m objects (set ys) (db_of co) ?sc1"])
    have none: "\<not> is_action (db_of co) c" if "length (db_of co) \<le> c" for c
      using that is_action_less [of "db_of co" c] by auto
    show "constructed_tree m objects (set []) (db_of co) ?sc1 ?sc1"
      using mem(2,3) none by (auto simp: constructed_tree_def db_of_def)
  next
    fix ys y zs u u'
    assume ys: "ce_children e = ys @ y # zs" and inv: "constructed_tree m objects (set ys) (db_of co) ?sc1 u"
      and step: "(if is_action (ss_objects (fst u)) y then constructInstance m k objects y u else Inr u) = Inr u'"
    have u: "keeps (set ys) (db_of co) (ss_objects (fst u))" "wf_trees (ss_objects (fst u))" "instances_ok (fst u)" "counted ?sc1 u"
        "\<And>c. is_action (ss_objects (fst u)) c \<Longrightarrow> c \<in> set ys \<or> length (db_of co) \<le> c \<Longrightarrow> complete m objects (ss_objects (fst u)) c"
      using inv unfolding constructed_tree_def db_of_def by auto
    have y: "y \<notin> set ys" "y \<in> set (children_of (db_of co) act)" using dist ys kids by auto
    then have less: "y < length (db_of co)" using children_less [OF mem(2)] by blast
    have ifu: "interface_at (ss_objects (fst u)) = interface_at (db_of co)" using u(1) by (simp add: keeps_def)
    show "constructed_tree m objects (set (ys @ [y])) (db_of co) ?sc1 u'"
    proof (cases "is_action (ss_objects (fst u)) y")
      case False
      then have "u' = u" using step by simp
      then show ?thesis using u False keeps_mono [OF u(1), of "set (ys @ [y])"]
        by (auto simp: constructed_tree_def db_of_def)
    next
      case True
      have "children_of (db_of co) y = []"
        using mem(6) [OF mem(7) [OF y(2)]] by (simp add: children_of_def split: option.split)
      then have leaf: "children_of (ss_objects (fst u)) y = []" using u(1) less y(1) by (simp add: keeps_def)
      have "constructed_tree m objects {y} (ss_objects (fst u)) u u'"
        by (rule Suc.IH [OF _ u(2) True leaf u(3)])
          (use step True objects1 plain_object_same [OF ifu] in simp_all)
      then have u': "keeps {y} (ss_objects (fst u)) (ss_objects (fst u'))" "wf_trees (ss_objects (fst u'))" "instances_ok (fst u')"
          "counted u u'"
          "\<And>c. is_action (ss_objects (fst u')) c \<Longrightarrow> c = y \<or> length (ss_objects (fst u)) \<le> c \<Longrightarrow> complete m objects (ss_objects (fst u')) c"
        unfolding constructed_tree_def by auto
      have "complete m objects (ss_objects (fst u')) c"
        if c: "is_action (ss_objects (fst u')) c" "c \<in> set (ys @ [y]) \<or> length (db_of co) \<le> c" for c
      proof (cases "c = y \<or> length (ss_objects (fst u)) \<le> c")
        case True
        then show ?thesis using u'(5) [OF c(1)] by blast
      next
        case False
        then have "is_action (ss_objects (fst u)) c" using c(1) u'(1) by (simp add: keeps_def)
        then have "complete m objects (ss_objects (fst u)) c" using u(5) c(2) False by simp
        then show ?thesis by (rule complete_keeps [OF _ u'(1) _ _ u(2)]) (use False in simp_all)
      qed
      moreover have "keeps (set (ys @ [y])) (db_of co) (ss_objects (fst u'))"
        by (rule keeps_trans [OF keeps_mono [OF u(1)] u'(1)]) auto
      moreover have "counted ?sc1 u'"
        by (rule counted_trans [OF u(4) u'(4)]) (use ifu in \<open>simp add: db_of_def\<close>)
      ultimately show ?thesis using u'(2,3) by (simp add: constructed_tree_def db_of_def)
    qed
  qed
  then have r: "keeps (set (ce_children e)) (db_of co) (ss_objects (fst sc'))" "wf_trees (ss_objects (fst sc'))" "instances_ok (fst sc')"
      "counted ?sc1 sc'"
      "\<And>c. is_action (ss_objects (fst sc')) c \<Longrightarrow> c \<in> set (ce_children e) \<or> length (db_of co) \<le> c \<Longrightarrow> complete m objects (ss_objects (fst sc')) c"
    unfolding constructed_tree_def db_of_def by auto
  have new: "length ?db \<le> c" if "c \<in> set (ce_children e)" for c using mem(7) that kids by simp
  have act: "act < length ?db" using is_action_less Suc.prems(3) sc by simp
  have "keeps {act} ?db (ss_objects (fst sc'))"
    by (rule keeps_trans [OF mem(1) r(1)]) (use new in fastforce)
  moreover have "counted sc sc'"
    unfolding sc by (rule counted_trans [OF mem(4) r(4)]) (use mem(1) in \<open>simp add: keeps_def db_of_def\<close>)
  moreover have "complete m objects (ss_objects (fst sc')) c"
    if c: "is_action (ss_objects (fst sc')) c" "c = act \<or> length ?db \<le> c" for c
  proof -
    consider "c = act" | "length (db_of co) \<le> c" | "length ?db \<le> c" "c < length (db_of co)" using c(2) by linarith
    then show ?thesis
    proof cases
      case 1
      show ?thesis unfolding 1
        by (rule complete_keeps [OF mem(5) r(1) _ _ mem(2)]) (use act new [of act] mem(1) in \<open>auto simp: keeps_def\<close>)
    next
      case 2
      then show ?thesis using r(5) c(1) by blast
    next
      case 3
      then have "is_action (db_of co) c" using c(1) r(1) by (simp add: keeps_def)
      then obtain f where f: "concrete_at (db_of co) c = Some f" using is_action_concrete by blast
      then have "parent_of (db_of co) c = Some act" using mem(6) [OF 3(1) f] by (simp add: parent_of_def)
      then have "c \<in> set (ce_children e)" using wf_parent [OF _ mem(2)] kids by simp
      then show ?thesis using r(5) c(1) by blast
    qed
  qed
  ultimately show ?case using r(2,3) sc by (simp add: constructed_tree_def)
qed simp

text \<open>Only objects of the list are constructed as objects.\<close>

lemma collate_only:
  "collate_object k r act n x co = Inr co' \<Longrightarrow> co_constructed co' \<subseteq> insert x (co_constructed co)"
  "collate_action act n x co = Inr co' \<Longrightarrow> co_constructed co' = co_constructed co"
  "collate_dimension act n x co = Inr co' \<Longrightarrow> co_constructed co' = co_constructed co"
  by (auto simp: collate_object_def collate_action_def collate_dimension_def bindR_eq_Inr split: if_splits option.splits)

lemma collateOverrides_only:
  "collateOverrides m k objects act n co = Inr co' \<Longrightarrow> co_constructed co \<subseteq> X \<Longrightarrow> set objects \<subseteq> X \<Longrightarrow> co_constructed co' \<subseteq> X"
proof (induction k arbitrary: n co co')
  case (Suc k)
  obtain as ds ns co1 co2 co3 where steps: "collate_objects m act n objects co = Inr co1"
      "foldR (collate_action act n) as co1 = Inr co2" "foldR (collate_dimension act n) ds co2 = Inr co3"
      "foldR (collateOverrides m k objects act) ns co3 = Inr co'"
    using Suc.prems(1) by (auto simp: bindR_eq_Inr)
  have "co_constructed co1 \<subseteq> X"
  proof (cases "takes_objects (db_of co) act")
    case None
    then show ?thesis using steps(1) Suc.prems(2) by (simp add: collate_objects_def)
  next
    case (Some r)
    then have "foldR (collate_object m r act n) objects co = Inr co1" using steps(1) by (simp add: collate_objects_def)
    then show ?thesis using Suc.prems(2)
      by (rule foldR_invariant [where P = "\<lambda>co. co_constructed co \<subseteq> X"]) (use collate_only(1) Suc.prems(3) in blast)
  qed
  with steps(2) have "co_constructed co2 \<subseteq> X"
    by (rule foldR_invariant [where P = "\<lambda>co. co_constructed co \<subseteq> X"]) (use collate_only(2) in blast)
  with steps(3) have "co_constructed co3 \<subseteq> X"
    by (rule foldR_invariant [where P = "\<lambda>co. co_constructed co \<subseteq> X"]) (use collate_only(3) in blast)
  with steps(4) show ?case
    by (rule foldR_invariant [where P = "\<lambda>co. co_constructed co \<subseteq> X"]) (use Suc.IH Suc.prems(3) in blast)
qed simp

lemma constructInstance_only:
  "constructInstance m k objects act sc = Inr sc' \<Longrightarrow> snd sc' \<subseteq> snd sc \<union> set objects"
proof (induction k arbitrary: act sc sc')
  case (Suc k)
  obtain s constructed where sc: "sc = (s, constructed)" by (cases sc)
  obtain n t co kids where over: "collateOverrides m (Suc k) objects act n
            \<lparr>co_session = t, co_actions = \<lambda>_. None, co_dimensions = \<lambda>_. None, co_constructed = constructed\<rparr> = Inr co"
    and loop: "foldR (\<lambda>c sc. if is_action (ss_objects (fst sc)) c then constructInstance m k objects c sc else Inr sc)
              kids (co_session co, co_constructed co) = Inr sc'"
    using Suc.prems(1) unfolding sc
    by (auto simp: bindR_eq_Inr split: option.splits simp del: constructInheritanceTree.simps collateOverrides.simps)
  have "snd (co_session co, co_constructed co) \<subseteq> snd sc \<union> set objects" using collateOverrides_only [OF over] sc by simp
  with loop show ?case
    by (rule foldR_invariant [where P = "\<lambda>u. snd u \<subseteq> snd sc \<union> set objects"])
       (use Suc.IH in \<open>fastforce split: if_splits\<close>)
qed simp

section \<open>The whole tree\<close>

text \<open>The database that the instance analysis starts from: the interface, no concrete element and no allocator.\<close>

definition interface_only :: "session \<Rightarrow> bool" where
  "interface_only s \<longleftrightarrow>
     (\<forall>i. concrete_at (ss_objects s) i = None) \<and> (\<forall>i. inheritance_at (ss_objects s) i = None) \<and>
     sizes_ok (ss_objects s) \<and> instance_map s = [] \<and> (\<forall>i. ss_allocator s i = None)"

lemma root_loop_found:
  "root_loop is_class parent is found = Inr (Some r) \<Longrightarrow> found = Some r \<or> r \<in> set is \<and> is_class r \<and> parent r = None"
  by (induction "is" arbitrary: found) (auto simp: bindR_eq_Inr split: if_splits)

lemma root_found:
  assumes "root is_class parent db = Inr r"
  shows "r < length db" "is_class r" "parent r = None"
  using assms root_loop_found [of is_class parent "[0..<length db]" None r]
  by (auto simp: root_def bindR_eq_Inr)

lemma construct_root_effect:
  assumes "construct_root s = Inr (a, s')" and only: "interface_only s"
  obtains r where "wf_trees (ss_objects s')" "is_action (ss_objects s') a" "element_of (ss_objects s') a = Some r"
    "children_of (ss_objects s') a = []" "instances_ok s'" "interface_at (ss_objects s') = interface_at (ss_objects s)"
    "is_object_at (ss_objects s) r" "interface_parent (ss_objects s) r = None" "instance_map s' = [(r, a)]"
    "\<And>c. is_action (ss_objects s') c \<longleftrightarrow> c = a" "parent_of (ss_objects s') a = None"
    "length (ss_objects s') = Suc a" "a = length (ss_objects s)"
proof -
  let ?db = "ss_objects s"
  obtain r where r: "root (is_object_at ?db) (interface_parent ?db) ?db = Inr r"
    using assms(1) by (auto simp: construct_root_def bindR_eq_Inr)
  let ?new = "\<lparr>ce_class = ConcreteAction, ce_parent = None, ce_element = Some r, ce_children = []\<rparr>"
  have a: "a = length ?db" and obj: "ss_objects s' = ?db @ [ConcreteElement ?new]"
    and im: "instance_map s' = instance_map s @ [(r, a)]"
    using assms(1) r
    by (auto simp: construct_root_def bindR_eq_Inr construct_def update_action_def add_instance_def instance_map_def
        dest!: name_effect)
  have conc: "concrete_at (ss_objects s') = (\<lambda>i. if i = a then Some ?new else None)"
    using only obj a by (auto simp: fun_eq_iff interface_only_def)
  have inh: "inheritance_at (ss_objects s') i = None" for i using only obj by (auto simp: interface_only_def)
  have iface: "interface_at (ss_objects s') = interface_at ?db" using obj by simp
  have obj_r: "is_object_at ?db r" using root_found [OF r] by simp
  then have ctx: "context_at (ss_objects s') r \<noteq> None"
    by (auto simp: is_object_at_def context_at_def iface split: option.splits interface_class.splits elim!: is_Object.elims)
  have wf: "wf_trees (ss_objects s')"
    using only ctx by (auto simp: wf_trees_def parents_ok_def contexts_ok_def nodes_ok_def conc inh interface_only_def
        sizes_ok_def same_interface(1,3) [OF iface] split: if_splits)
  show thesis
    by (rule that [of r])
      (use wf root_found [OF r] im only iface obj a in \<open>auto simp: is_action_def element_of_def children_of_def parent_of_def conc
         instances_ok_def interface_only_def split: option.splits if_splits\<close>)
qed

theorem construct_instances_built:
  assumes "construct_instances k s = Inr (a, s')" and only: "interface_only s"
  obtains r where "wf_trees (ss_objects s')" "instances_ok s'" "interface_at (ss_objects s') = interface_at (ss_objects s)"
    "is_action (ss_objects s') a" "element_of (ss_objects s') a = Some r" "interface_parent (ss_objects s) r = None"
    "\<forall>c. is_action (ss_objects s') c \<longrightarrow> complete k (collate_all_objects (ss_objects s) r) (ss_objects s') c"
    "\<forall>x. plain_object (ss_objects s) x \<longrightarrow> x \<noteq> r \<longrightarrow> count_instances x s' = 1"
proof -
  obtain t r sc where root: "construct_root s = Inr (a, t)" and r: "getContext (ss_objects t) a = Some r"
    and built: "constructInstance k k (collate_all_objects (ss_objects t) r) a (t, {}) = Inr sc"
    and n: "length (collate_all_objects (ss_objects t) r) = card (snd sc)" and s': "s' = fst sc"
    using assms(1) by (auto simp: construct_instances_def bindR_eq_Inr Let_def split: option.splits)
  from root only show thesis
  proof (rule construct_root_effect)
    fix r'
    assume t: "wf_trees (ss_objects t)" "is_action (ss_objects t) a" "element_of (ss_objects t) a = Some r'"
    "children_of (ss_objects t) a = []" "instances_ok t" "interface_at (ss_objects t) = interface_at (ss_objects s)"
    "is_object_at (ss_objects s) r'" "interface_parent (ss_objects s) r' = None" "instance_map t = [(r', a)]"
    "\<And>c. is_action (ss_objects t) c \<longleftrightarrow> c = a" "parent_of (ss_objects t) a = None"
    "length (ss_objects t) = Suc a" "a = length (ss_objects s)"
    have rr: "r' = r" using r t(3) by (simp add: getContext_element split: if_splits)
    let ?os = "collate_all_objects (ss_objects t) r"
    have lt: "x < length (ss_objects s)" if "interface_at (ss_objects s) x = Some e" for x e
      using that by (auto simp: interface_at_def nth_opt_def split: if_splits)
    have os: "set ?os = {x. plain_object (ss_objects s) x \<and> x \<noteq> r}"
      using lt t(12,13)
      by (fastforce simp: collate_all_objects_def many_def plain_object_def t(6) is_object_at_def split: option.splits)
    have dist: "distinct ?os" by (simp add: collate_all_objects_def many_def)
    have os': "collate_all_objects (ss_objects t) r = collate_all_objects (ss_objects s) r"
    proof -
      have "is_object_at (ss_objects s) a = False" using t(13) by (simp add: is_object_at_def interface_at_def nth_opt_def)
      then show ?thesis
        using same_interface(8) [OF t(6)] t(6,12,13) by (simp add: collate_all_objects_def many_def)
    qed
    have tree: "constructed_tree k ?os {a} (ss_objects t) (t, {}) sc"
      using constructInstance_built [OF built, unfolded fst_conv, OF t(1,2,4,5)] os plain_object_same [OF t(6)] by simp
    then have sc: "keeps {a} (ss_objects t) (ss_objects s')" "wf_trees (ss_objects s')" "instances_ok s'" "counted (t, {}) sc"
        "\<And>c. is_action (ss_objects s') c \<Longrightarrow> c = a \<or> Suc a \<le> c \<Longrightarrow> complete k ?os (ss_objects s') c"
      unfolding constructed_tree_def s' using t(12) by auto
    have iface: "interface_at (ss_objects s') = interface_at (ss_objects s)" using sc(1) t(6) by (simp add: keeps_def)
    have all: "complete k ?os (ss_objects s') c" if c: "is_action (ss_objects s') c" for c
    proof (cases "Suc a \<le> c")
      case False
      then have "is_action (ss_objects t) c" using sc(1) c t(12) by (simp add: keeps_def)
      then show ?thesis using sc(5) c t(10) by blast
    qed (use sc(5) c in blast)
    have one: "count_instances x s' = 1" if x: "plain_object (ss_objects s) x" "x \<noteq> r" for x
    proof -
      have "snd sc \<subseteq> set ?os" using constructInstance_only [OF built] by simp
      then have "snd sc = set ?os" using n dist by (simp add: card_subset_eq distinct_card)
      then have "x \<in> snd sc" using os x by simp
      then show ?thesis
        using sc(4) x t(9) rr plain_object_same [OF t(6)] by (simp add: counted_def s' count_instances_def)
    qed
    show thesis
      by (rule that [of r]) (use sc iface all one os' rr t s' in \<open>simp_all add: keeps_def\<close>)
  qed
qed

end
