(* ===== verification/InstanceEnds.thy ===== *)
theory InstanceEnds
  imports InstanceTrees
begin

text \<open>
  The instance analysis of \<open>InterfaceSession\<close> ends: an action is a proper member of the contexts its
  parent inherits, so the tree of actions is no deeper than the tree of interface contexts with their
  bases, as long as no context contains or inherits itself.
\<close>

text \<open>A rank that falls from a context to its children and its bases.\<close>

definition ranked :: "(idx \<Rightarrow> nat) \<Rightarrow> nat \<Rightarrow> database \<Rightarrow> bool" where
  "ranked rank bound db \<longleftrightarrow>
     (\<forall>i. rank i < bound) \<and>
     (\<forall>c e. interface_at db c = Some e \<longrightarrow>
        (\<forall>x \<in> set (if_children e) \<union> set (if_baseContexts e). rank x < rank c) \<and>
        (\<forall>p. if_parent e = Some p \<longrightarrow> rank c < rank p))"

lemma ranked_same: "interface_at db' = interface_at db \<Longrightarrow> ranked rank bound db' = ranked rank bound db"
  by (simp add: ranked_def)

lemma foldR_ends:
  assumes "P s" and "\<And>x t. x \<in> set xs \<Longrightarrow> P t \<Longrightarrow> f x t \<noteq> Inl e \<and> (\<forall>t'. f x t = Inr t' \<longrightarrow> P t')"
  shows "foldR f xs s \<noteq> Inl e \<and> (\<forall>s'. foldR f xs s = Inr s' \<longrightarrow> P s')"
  using assms
proof (induction xs arbitrary: s)
  case (Cons x xs)
  have 1: "f x s \<noteq> Inl e \<and> (\<forall>t'. f x s = Inr t' \<longrightarrow> P t')" using Cons.prems(2) [of x s] Cons.prems(1) by simp
  show ?case
  proof (cases "f x s")
    case (Inr t)
    then have Pt: "P t" using 1 by simp
    have tail: "x' \<in> set xs \<Longrightarrow> P t' \<Longrightarrow> f x' t' \<noteq> Inl e \<and> (\<forall>u. f x' t' = Inr u \<longrightarrow> P u)" for x' t'
      using Cons.prems(2) [of x' t'] by simp
    show ?thesis using Cons.IH [OF Pt tail] Inr by simp
  qed (use 1 in simp)
qed simp

section \<open>The steps\<close>

lemma steps_no_fuel:
  "update_node n f s \<noteq> Inl OutOfFuel" "update_element n g s \<noteq> Inl OutOfFuel"
  "calculateInstanceActionName a s \<noteq> Inl OutOfFuel"
  by (auto simp: update_node_def update_element_def inh_def conc_def of_option_def calculateInstanceActionName_def Let_def
      bindR_def split: option.splits)

lemma construct_no_fuel:
  "construct_child k act x s \<noteq> Inl OutOfFuel" "construct_action act y s \<noteq> Inl OutOfFuel"
  "construct_dimension act y s \<noteq> Inl OutOfFuel" "record_action n c s \<noteq> Inl OutOfFuel" "record_dimension n c s \<noteq> Inl OutOfFuel"
  by (auto simp: construct_child_def construct_action_def construct_dimension_def record_action_def record_dimension_def
      construct_def bindR_eq_Inl steps_no_fuel split: prod.splits)

lemma collateChildren_no_fuel: "collateChildren db c \<noteq> Inl OutOfFuel"
proof -
  have "collateChildren_loop db xs as ds \<noteq> Inl OutOfFuel" for xs as ds
  proof (induction xs arbitrary: as ds)
    case (Cons x xs)
    show ?case
    proof (cases "interface_at db x")
      case (Some e)
      then show ?thesis by (cases "if_class e") (simp_all add: Cons.IH)
    qed simp
  qed simp
  then show ?thesis by (simp add: collateChildren_def split: option.split)
qed

lemma found_parent_ends:
  assumes "ranked rank bound db"
  shows "case p of None \<Rightarrow> 0 < k | Some i \<Rightarrow> bound < k + rank i \<Longrightarrow> found_parent k db p r \<noteq> Inl OutOfFuel"
proof (induction k arbitrary: p)
  case 0
  then show ?case using assms by (cases p) (auto simp: ranked_def dest: less_not_sym)
next
  case (Suc k)
  show ?case
  proof (cases p)
    case p: (Some i)
    show ?thesis
    proof (cases "interface_at db i")
      case (Some e)
      have up: "if_parent e = Some q \<Longrightarrow> rank i < rank q" for q using assms Some unfolding ranked_def by blast
      have "rank i < bound" using assms by (simp add: ranked_def)
      moreover have "bound < k + rank q" if "if_parent e = Some q" for q using up [OF that] Suc.prems p by simp
      ultimately show ?thesis using Suc.prems Suc.IH p Some by (simp split: option.splits)
    qed (use p in simp)
  qed simp
qed

text \<open>The nodes of the inheritance trees.\<close>

definition nodes_ranked :: "(idx \<Rightarrow> nat) \<Rightarrow> database \<Rightarrow> bool" where
  "nodes_ranked rank db \<longleftrightarrow>
     (\<forall>n N p P. inheritance_at db n = Some N \<longrightarrow> in_parent N = Some p \<longrightarrow> inheritance_at db p = Some P \<longrightarrow>
        rank (in_context N) < rank (in_context P))"

lemma nodes_ranked_skeleton:
  assumes "nodes_ranked rank db" and "\<And>i. map_option skeleton (inheritance_at db' i) = map_option skeleton (inheritance_at db i)"
  shows "nodes_ranked rank db'"
  unfolding nodes_ranked_def
proof (intro allI impI)
  fix n N p P assume N: "inheritance_at db' n = Some N" "in_parent N = Some p" and P: "inheritance_at db' p = Some P"
  obtain N0 P0 where "inheritance_at db n = Some N0" "in_parent N0 = Some p" "in_context N0 = in_context N"
      "inheritance_at db p = Some P0" "in_context P0 = in_context P"
    using assms(2) [of n] assms(2) [of p] N P
    by (cases "inheritance_at db n"; cases "inheritance_at db p") (auto simp: skeleton_def)
  then show "rank (in_context N) < rank (in_context P)" using assms(1) unfolding nodes_ranked_def by metis
qed

lemma constructInheritanceNode_ends:
  "constructInheritanceNode act p ctx s \<noteq> Inl OutOfFuel"
  by (auto simp: constructInheritanceNode_def construct_def bindR_eq_Inl steps_no_fuel split: option.splits)

text \<open>The parent of a new node has a context of higher rank.\<close>

definition parent_above :: "(idx \<Rightarrow> nat) \<Rightarrow> database \<Rightarrow> idx option \<Rightarrow> idx \<Rightarrow> bool" where
  "parent_above rank db p ctx \<longleftrightarrow>
     (\<forall>q Q. p = Some q \<longrightarrow> inheritance_at db q = Some Q \<longrightarrow> rank ctx < rank (in_context Q))"

lemma nodes_ranked_node:
  assumes node: "constructInheritanceNode act p ctx s = Inr (n, s')" and root: "parent_root (ss_objects s) p act"
    and ranked: "nodes_ranked rank (ss_objects s)" and above: "parent_above rank (ss_objects s) p ctx"
    and wf: "wf_trees (ss_objects s)"
  shows "nodes_ranked rank (ss_objects s')"
  unfolding nodes_ranked_def
proof (intro allI impI)
  let ?db = "ss_objects s"
  note e = constructInheritanceNode_effect [OF node root]
  fix m M q Q assume M: "inheritance_at (ss_objects s') m = Some M" "in_parent M = Some q" and Q: "inheritance_at (ss_objects s') q = Some Q"
  have old: "\<exists>R. inheritance_at ?db i = Some R \<and> in_context R = in_context I \<and> in_parent R = in_parent I"
    if "inheritance_at (ss_objects s') i = Some I" "i \<noteq> n" for i I
    using that e(5) by (auto simp: with_child_at)
  show "rank (in_context M) < rank (in_context Q)"
  proof (cases "m = n")
    case True
    then have "M = \<lparr>in_rootConcreteAction = act, in_context = ctx, in_parent = p, in_children = [], in_actions = [], in_dimensions = []\<rparr>"
      using M(1) e(5) by simp
    then have "p = Some q" "in_context M = ctx" using M(2) by simp_all
    moreover from this obtain Q0 where Q0: "inheritance_at ?db q = Some Q0" using root by (auto simp: parent_root_def)
    then have "q \<noteq> n" using e(1) by auto
    ultimately show ?thesis using above old [OF Q] by (auto simp: parent_above_def)
  next
    case False
    then obtain R where R: "inheritance_at ?db m = Some R" "in_context R = in_context M" "in_parent R = Some q"
      using old [OF M(1)] M(2) by auto
    then have "q < m" "\<exists>P. inheritance_at ?db q = Some P" using wf unfolding wf_trees_def nodes_ok_def by blast+
    then have "q \<noteq> n" using e(1) by auto
    then show ?thesis using ranked R old [OF Q] unfolding nodes_ranked_def by metis
  qed
qed

lemma constructInheritanceTree_ends:
  assumes "ranked rank bound (ss_objects s)" and "rank ctx < k"
    and "wf_trees (ss_objects s)" and "is_action (ss_objects s) act" and "context_at (ss_objects s) ctx \<noteq> None"
    and "parent_root (ss_objects s) p act" and "nodes_ranked rank (ss_objects s)" and "parent_above rank (ss_objects s) p ctx"
  shows "constructInheritanceTree k act p ctx s \<noteq> Inl OutOfFuel \<and>
    (\<forall>n s'. constructInheritanceTree k act p ctx s = Inr (n, s') \<longrightarrow> nodes_ranked rank (ss_objects s'))"
  using assms
proof (induction k arbitrary: p ctx s)
  case (Suc k)
  let ?db = "ss_objects s"
  show ?case
  proof (cases "constructInheritanceNode act p ctx s")
    case (Inl e)
    then show ?thesis using constructInheritanceNode_ends [of act p ctx s] by simp
  next
    case (Inr nu)
    then obtain n u where u: "constructInheritanceNode act p ctx s = Inr (n, u)" by (cases nu) simp
    note e = constructInheritanceNode_effect [OF u Suc.prems(6)]
    let ?f = "\<lambda>b s. if is_Link (ss_objects s) b
                then Inl (RuntimeError ''Invalid use of link type in inheritance list'')
                else bindR (constructInheritanceTree k act (Some n) b s) (\<lambda>(m, s). Inr s)"
    let ?P = "\<lambda>t. wf_trees (ss_objects t) \<and> concrete_at (ss_objects t) = concrete_at ?db \<and> interface_at (ss_objects t) = interface_at ?db \<and>
        nodes_ranked rank (ss_objects t) \<and>
        (\<exists>N. inheritance_at (ss_objects t) n = Some N \<and> in_rootConcreteAction N = act \<and> in_context N = ctx)"
    have wfu: "wf_trees (ss_objects u)"
      using Suc.prems(3-6) e(3,4) e(5) [unfolded e(1)] by (rule wf_trees_node)
    have start: "?P u"
      using wfu e nodes_ranked_node [OF u Suc.prems(6,7,8,3)] by simp
    have loop: "foldR ?f (getBaseContexts ?db ctx) u \<noteq> Inl OutOfFuel \<and>
        (\<forall>t. foldR ?f (getBaseContexts ?db ctx) u = Inr t \<longrightarrow> ?P t)"
    proof (rule foldR_ends [where P = ?P, OF start])
      fix b and t :: session assume b: "b \<in> set (getBaseContexts ?db ctx)" and inv: "?P t"
      have iface: "interface_at (ss_objects t) = interface_at ?db" using inv by simp
      obtain c :: interface_element where c: "interface_at ?db ctx = Some c" "b \<in> set (if_baseContexts c)"
        using b by (cases "interface_at ?db ctx") (auto simp: getBaseContexts_def)
      then have less: "rank b < rank ctx" using Suc.prems(1) unfolding ranked_def by blast
      have ctx: "context_at (ss_objects t) b \<noteq> None"
        using Suc.prems(3) b same_interface(1) [OF iface] by (simp add: wf_trees_def sizes_ok_def)
      have act: "is_action (ss_objects t) act" using Suc.prems(4) inv by (simp add: is_action_def)
      have pr: "parent_root (ss_objects t) (Some n) act" and pa: "parent_above rank (ss_objects t) (Some n) b"
        using inv less by (auto simp: parent_root_def parent_above_def)
      have r: "ranked rank bound (ss_objects t)" using Suc.prems(1) ranked_same [OF iface] by simp
      have ih: "constructInheritanceTree k act (Some n) b t \<noteq> Inl OutOfFuel"
          "\<And>m t'. constructInheritanceTree k act (Some n) b t = Inr (m, t') \<Longrightarrow> nodes_ranked rank (ss_objects t')"
        using Suc.IH [OF r _ _ act ctx pr _ pa] less Suc.prems(2) inv by auto
      have "?P t'" if m: "constructInheritanceTree k act (Some n) b t = Inr (m, t')" for m t'
      proof -
        have built: "tree_built act (Some n) b (ss_objects t) m (ss_objects t')"
          using constructInheritanceTree_built [OF m _ act ctx pr] inv by simp
        obtain N where N: "inheritance_at (ss_objects t) n = Some N" "in_rootConcreteAction N = act" "in_context N = ctx"
          using inv by blast
        have "n < m" using built inheritance_at_less [OF N(1)] by (simp add: tree_built_def)
        then have "inheritance_at (ss_objects t') n = with_child (Some n) m (inheritance_at (ss_objects t)) n"
          using built by (simp add: tree_built_def)
        then show ?thesis using built inv N ih(2) [OF m] by (simp add: tree_built_def with_child_def)
      qed
      then show "?f b t \<noteq> Inl OutOfFuel \<and> (\<forall>t'. ?f b t = Inr t' \<longrightarrow> ?P t')"
        using ih(1) by (auto simp: bindR_eq_Inl bindR_eq_Inr)
    qed
    show ?thesis
      using u start loop same_interface(3,6) [OF e(4)] by (auto simp: bindR_eq_Inl bindR_eq_Inr split: if_splits)
  qed
qed simp

section \<open>The collation\<close>

lemma collate_object_ends:
  assumes "ranked rank bound (db_of co)" and "bound < m"
  shows "collate_object m r act n x co \<noteq> Inl OutOfFuel"
proof -
  have "found_parent m (db_of co) (Some x) r \<noteq> Inl OutOfFuel"
    by (rule found_parent_ends [OF assms(1)]) (use assms(2) in simp)
  then show ?thesis
    by (auto simp: collate_object_def bindR_eq_Inl construct_no_fuel verify_def split: if_splits)
qed

lemma collate_step_ends:
  "collate_action act n x co \<noteq> Inl OutOfFuel"
  "collate_dimension act n x co \<noteq> Inl OutOfFuel"
  by (auto simp: collate_action_def collate_dimension_def bindR_eq_Inl construct_no_fuel split: if_splits option.splits)

lemma node_order_exists:
  assumes "wf_trees db" and "inheritance_at db n = Some N"
  shows "\<exists>cs. node_order db n cs"
  using assms(2)
proof (induction "length db - n" arbitrary: n N rule: less_induct)
  case less
  have kids: "n < c \<and> (\<exists>C. inheritance_at db c = Some C)" if "c \<in> set (in_children N)" for c
    using assms(1) less.prems that unfolding wf_trees_def nodes_ok_def by blast
  have "\<exists>cs. node_order db c cs" if c: "c \<in> set (in_children N)" for c
  proof -
    obtain C where "n < c" "inheritance_at db c = Some C" using kids [OF c] by blast
    moreover from this have "c < length db" using inheritance_at_less by blast
    ultimately show ?thesis using less.hyps [of c C] by simp
  qed
  then have "list_all2 (node_order db) (in_children N) (map (\<lambda>c. SOME cs. node_order db c cs) (in_children N))"
    by (auto simp: list_all2_conv_all_nth intro: someI_ex)
  then show ?case using node_order.order [OF less.prems] kids by blast
qed

lemma members_stepD:
  assumes "members_step m objects act EA ED cs co co'"
  shows "\<exists>EA ED. collating act EA ED co'" "advances act co co'"
  using assms by (auto simp: members_step_def Let_def)

lemma collateOverrides_ends:
  assumes "ranked rank bound (db_of co)" and "bound < m" and "collating act EA ED co"
    and "inheritance_at (db_of co) n = Some N" and "rank (in_context N) < k" and "nodes_ranked rank (db_of co)"
    and "\<And>x. x \<in> set objects \<Longrightarrow> plain_object (db_of co) x"
  shows "collateOverrides m k objects act n co \<noteq> Inl OutOfFuel"
  using assms
proof (induction k arbitrary: n N co EA ED)
  case (Suc k)
  let ?db = "db_of co"
  show ?case
  proof (cases "collateChildren ?db (in_context N)")
    case (Inl e)
    then show ?thesis using collateChildren_no_fuel [of ?db "in_context N"] Suc.prems(4) by (simp add: inh_def)
  next
    case (Inr ads)
    then obtain as ds where kids: "collateChildren ?db (in_context N) = Inr (as, ds)" by (cases ads) simp
    note kids' = collateChildren_members [OF kids]
    have objs: "collate_objects m act n objects co \<noteq> Inl OutOfFuel"
    proof (cases "takes_objects ?db act")
      case (Some r)
      have "foldR (collate_object m r act n) objects co \<noteq> Inl OutOfFuel \<and>
          (\<forall>co'. foldR (collate_object m r act n) objects co = Inr co' \<longrightarrow> interface_at (db_of co') = interface_at ?db \<and> (\<exists>EA ED. collating act EA ED co'))"
      proof (rule foldR_ends)
        fix x t assume x: "x \<in> set objects" and "interface_at (db_of t) = interface_at ?db \<and> (\<exists>EA ED. collating act EA ED t)"
        then obtain EA' ED' where t: "interface_at (db_of t) = interface_at ?db" "collating act EA' ED' t" by blast
        have "collate_object m r act n x t \<noteq> Inl OutOfFuel"
          using collate_object_ends [of rank bound t m] Suc.prems(1,2) ranked_same [OF t(1)] by simp
        moreover have "interface_at (db_of t') = interface_at ?db \<and> (\<exists>EA ED. collating act EA ED t')"
          if "collate_object m r act n x t = Inr t'" for t'
          using collate_object_step [OF t(2) that] Suc.prems(7) [OF x] plain_object_same [OF t(1)] t(1) advances_interface by metis
        ultimately show "collate_object m r act n x t \<noteq> Inl OutOfFuel \<and> (\<forall>t'. collate_object m r act n x t = Inr t' \<longrightarrow>
            interface_at (db_of t') = interface_at ?db \<and> (\<exists>EA ED. collating act EA ED t'))" by blast
      qed (use Suc.prems(3) in blast)
      then show ?thesis using Some by (simp add: collate_objects_def)
    qed (simp add: collate_objects_def)
    have acts: "foldR (collate_action act n) xs t \<noteq> Inl OutOfFuel" "foldR (collate_dimension act n) xs t \<noteq> Inl OutOfFuel" for xs t
      using foldR_ends [of "\<lambda>_. True" t xs "collate_action act n"] foldR_ends [of "\<lambda>_. True" t xs "collate_dimension act n"]
        collate_step_ends by blast+
    have rest: "foldR (collateOverrides m k objects act) (in_children N3) co3 \<noteq> Inl OutOfFuel"
      if steps: "collate_objects m act n objects co = Inr co1" "foldR (collate_action act n) as co1 = Inr co2"
        "foldR (collate_dimension act n) ds co2 = Inr co3" and N3: "inheritance_at (db_of co3) n = Some N3" for co1 co2 co3 N3
    proof -
      have node: "members_step m objects act EA ED [in_context N] co co3"
        by (rule collate_node [OF Suc.prems(3,7) kids steps])
      note step = members_stepD [OF node]
      let ?P = "\<lambda>t. (\<exists>EA ED. collating act EA ED t) \<and> advances act co t"
      have "foldR (collateOverrides m k objects act) (in_children N3) co3 \<noteq> Inl OutOfFuel \<and>
          (\<forall>t. foldR (collateOverrides m k objects act) (in_children N3) co3 = Inr t \<longrightarrow> ?P t)"
      proof (rule foldR_ends)
        show "?P co3" using step by blast
        fix x t assume x: "x \<in> set (in_children N3)" and "?P t"
        then obtain EA' ED' where t: "collating act EA' ED' t" "advances act co t" by blast
        have skel: "map_option skeleton (inheritance_at (db_of u) i) = map_option skeleton (inheritance_at ?db i)"
          if "advances act co u" for u i using that by (simp add: advances_def frame_def)
        note iface = advances_interface [OF t(2)]
        have "in_children N3 = in_children N" using skel [OF step(2), of n] N3 Suc.prems(4) by (simp add: skeleton_def)
        then have x0: "x \<in> set (in_children N)" using x by simp
        have wf: "wf_trees ?db" using Suc.prems(3) by (simp add: collating_def)
        obtain X where X: "inheritance_at ?db x = Some X" "in_parent X = Some n"
          using wf x0 Suc.prems(4) unfolding wf_trees_def nodes_ok_def by blast
        have lt: "rank (in_context X) < rank (in_context N)"
          using Suc.prems(6,4) X unfolding nodes_ranked_def by blast
        obtain X' where X': "inheritance_at (db_of t) x = Some X'" "in_context X' = in_context X"
          using skel [OF t(2), of x] X(1) by (cases "inheritance_at (db_of t) x") (auto simp: skeleton_def)
        have nr: "nodes_ranked rank (db_of t)" by (rule nodes_ranked_skeleton [OF Suc.prems(6) skel [OF t(2)]])
        have plain: "\<And>y. y \<in> set objects \<Longrightarrow> plain_object (db_of t) y" using Suc.prems(7) plain_object_same [OF iface] by simp
        have "collateOverrides m k objects act x t \<noteq> Inl OutOfFuel"
          by (rule Suc.IH [OF _ Suc.prems(2) t(1) X'(1) _ nr])
            (use Suc.prems(1) ranked_same [OF iface] lt Suc.prems(5) X'(2) plain in simp_all)
        moreover have "?P t'" if r: "collateOverrides m k objects act x t = Inr t'" for t'
        proof -
          have "wf_trees (db_of t)" using t(1) by (simp add: collating_def)
          then obtain cs where cs: "node_order (db_of t) x cs" using node_order_exists X'(1) by blast
          have "members_step m objects act EA' ED' cs t t'"
            by (rule collateOverrides_members [OF r t(1) cs]) (use plain in simp)
          note st = members_stepD [OF this]
          show ?thesis using st(1) advances_trans [OF t(2) st(2)] collating_act [OF Suc.prems(3)] by blast
        qed
        ultimately show "collateOverrides m k objects act x t \<noteq> Inl OutOfFuel \<and>
            (\<forall>t'. collateOverrides m k objects act x t = Inr t' \<longrightarrow> ?P t')" by blast
      qed
      then show ?thesis by blast
    qed
    show ?thesis
      using kids Suc.prems(4) objs acts rest
      by (auto simp: bindR_eq_Inl inh_def of_option_def split: option.splits)
  qed
qed simp

section \<open>The tree of actions\<close>

lemma foldR_prefix_ends:
  assumes "P [] s" and "\<And>ys x zs t. xs = ys @ x # zs \<Longrightarrow> P ys t \<Longrightarrow> f x t \<noteq> Inl e \<and> (\<forall>t'. f x t = Inr t' \<longrightarrow> P (ys @ [x]) t')"
  shows "foldR f xs s \<noteq> Inl e \<and> (\<forall>s'. foldR f xs s = Inr s' \<longrightarrow> P xs s')"
proof -
  have "foldR f zs t \<noteq> Inl e \<and> (\<forall>s'. foldR f zs t = Inr s' \<longrightarrow> P (ys @ zs) s')" if "xs = ys @ zs" "P ys t" for ys zs t
    using that
  proof (induction zs arbitrary: ys t)
    case (Cons z zs)
    have 1: "f z t \<noteq> Inl e \<and> (\<forall>t'. f z t = Inr t' \<longrightarrow> P (ys @ [z]) t')" using assms(2) [OF Cons.prems] .
    show ?case
    proof (cases "f z t")
      case (Inr u)
      then show ?thesis using Cons.IH [of "ys @ [z]" u] Cons.prems(1) 1 by simp
    qed (use 1 in simp)
  qed simp
  from this [of "[]" xs s] assms(1) show ?thesis by simp
qed

lemma found_parent_rank:
  assumes "ranked rank bound db"
  shows "found_parent k db (Some i) r = Inr True \<Longrightarrow> i = r \<or> rank i < rank r"
proof (induction k arbitrary: i)
  case (Suc k)
  show ?case
  proof (cases "i = r")
    case False
    then obtain e p where e: "interface_at db i = Some e" "if_parent e = Some p" and p: "found_parent k db (Some p) r = Inr True"
      using Suc.prems by (cases k) (auto split: option.splits if_splits)
    have "rank i < rank p" using assms e unfolding ranked_def by blast
    then show ?thesis using Suc.IH [OF p] by auto
  qed simp
qed simp

lemma collateChildren_loop_subset:
  "collateChildren_loop db xs as ds = Inr (as', ds') \<Longrightarrow> set as' \<subseteq> set as \<union> set xs"
proof (induction xs arbitrary: as ds)
  case (Cons x xs)
  show ?case
  proof (cases "interface_at db x")
    case (Some e)
    then obtain as1 ds1 where "collateChildren_loop db (x # xs) as ds = collateChildren_loop db xs as1 ds1" "set as1 \<subseteq> insert x (set as)"
      by (cases "if_class e") auto
    then show ?thesis using Cons.IH [of as1 ds1] Cons.prems by auto
  qed (use Cons.prems in simp)
qed simp

lemma member_actions_rank:
  assumes "ranked rank bound db" and "z \<in> set (member_actions db c)"
  shows "rank z < rank c"
proof -
  obtain as ds where kids: "collateChildren db c = Inr (as, ds)" "z \<in> set as"
    using assms(2) by (cases "collateChildren db c") (auto simp: member_actions_def)
  obtain e :: interface_element where e: "context_at db c = Some e" "collateChildren_loop db (if_children e) [] [] = Inr (as, ds)"
    using kids by (cases "context_at db c") (auto simp: collateChildren_def)
  then have "z \<in> set (if_children e)" using collateChildren_loop_subset [OF e(2)] kids(2) by auto
  moreover have "interface_at db c = Some e" using e(1) by (auto simp: context_at_def split: option.splits if_splits)
  ultimately show ?thesis using assms(1) unfolding ranked_def by blast
qed

lemma inheritance_order_rank:
  assumes "inheritance_order db x cs" and "ranked rank bound db" and "c \<in> set cs"
  shows "rank c \<le> rank x"
  using assms
proof (induction x cs rule: inheritance_order.induct)
  case (order x css)
  show ?case
  proof (cases "c = x")
    case False
    then obtain cs where "cs \<in> set css" "c \<in> set cs" using order.prems(2) by auto
    then obtain i where i: "i < length css" "c \<in> set (css ! i)" by (auto simp: in_set_conv_nth)
    let ?bs = "if inherits_bases db x then getBaseContexts db x else []"
    have len: "length ?bs = length css" using order.IH by (rule list_all2_lengthD)
    have ih: "rank c \<le> rank (?bs ! i)" using list_all2_nthD2 [OF order.IH i(1)] order.prems(1) i(2) by simp
    have "?bs ! i \<in> set ?bs" by (rule nth_mem) (use i(1) len in simp)
    then have b: "?bs ! i \<in> set (getBaseContexts db x)" by (auto split: if_splits)
    obtain e :: interface_element where "interface_at db x = Some e" "?bs ! i \<in> set (if_baseContexts e)"
      using b by (cases "interface_at db x") (auto simp: getBaseContexts_def)
    then have "rank (?bs ! i) < rank x" using order.prems(1) unfolding ranked_def by blast
    then show ?thesis using ih by simp
  qed simp
qed

lemma wf_action_context:
  assumes "wf_trees db" and "is_action db y"
  shows "\<exists>z. getContext db y = Some z"
proof -
  obtain e where e: "concrete_at db y = Some e" "ce_class e = ConcreteAction"
    using assms(2) by (auto simp: is_action_def split: option.splits)
  then obtain x c where "ce_element e = Some x" "context_at db x = Some c"
    using assms(1) unfolding wf_trees_def contexts_ok_def by blast
  then show ?thesis using e by (simp add: getContext_def)
qed

lemma first_by_subset: "set (first_by f xs seen) \<subseteq> set xs"
  by (induction f xs seen rule: first_by.induct) auto

lemma complete_rank:
  assumes "complete m objects db act" and "ranked rank bound db" and "getContext db act = Some x"
    and "y \<in> set (child_actions db act)" and "element_of db y = Some z" and "\<And>o'. o' \<in> set objects \<Longrightarrow> plain_object db o'"
  shows "rank z < rank x"
proof -
  have el: "element_of db act = Some x" using assms(3) by (auto simp: getContext_element split: option.splits if_splits)
  then obtain cs where cs: "inheritance_order db x cs"
      and acts: "action_elements db act = map Some (taken_objects m db objects act @
          first_by (ident db) (concat (map (member_actions db) cs)) (ident db ` set (taken_objects m db objects act)))"
    using assms(1) unfolding complete_def by auto
  have "Some z \<in> set (action_elements db act)" using assms(4,5) by (force simp: action_elements_def)
  then consider "z \<in> set (taken_objects m db objects act)"
    | "z \<in> set (first_by (ident db) (concat (map (member_actions db) cs)) (ident db ` set (taken_objects m db objects act)))"
    unfolding acts by auto
  then show ?thesis
  proof cases
    case 1
    then obtain r where r: "takes_objects db act = Some r" "z \<in> set objects" "found_parent m db (Some z) r = Inr True"
      by (cases "takes_objects db act") (auto simp: taken_objects_def objects_below_def)
    have "r = x" "\<exists>e t. interface_at db r = Some e \<and> if_class e = Root t"
      using r(1) assms(3) by (auto simp: takes_objects_def split: option.splits if_splits)
    then have "z \<noteq> x" using assms(6) [OF r(2)] by (auto simp: plain_object_def)
    then show ?thesis using found_parent_rank [OF assms(2) r(3)] \<open>r = x\<close> by simp
  next
    case 2
    then obtain c where "c \<in> set cs" "z \<in> set (member_actions db c)" using first_by_subset by fastforce
    then show ?thesis using member_actions_rank [OF assms(2)] inheritance_order_rank [OF cs assms(2)] by fastforce
  qed
qed

lemma constructInstance_ends:
  assumes "ranked rank bound (ss_objects (fst sc))" and "bound < m" and "\<And>x. getContext (ss_objects (fst sc)) act = Some x \<Longrightarrow> rank x < k"
    and "0 < k" and "wf_trees (ss_objects (fst sc))" and "is_action (ss_objects (fst sc)) act"
    and "children_of (ss_objects (fst sc)) act = []" and "instances_ok (fst sc)"
    and "\<And>y. y \<in> set objects \<Longrightarrow> plain_object (ss_objects (fst sc)) y" and "nodes_ranked rank (ss_objects (fst sc))"
  shows "constructInstance m k objects act sc \<noteq> Inl OutOfFuel \<and>
    (\<forall>sc'. constructInstance m k objects act sc = Inr sc' \<longrightarrow> nodes_ranked rank (ss_objects (fst sc')))"
  using assms
proof (induction k arbitrary: act sc)
  case (Suc k)
  obtain s constructed where sc: "sc = (s, constructed)" by (cases sc)
  let ?db = "ss_objects s"
  show ?case
  proof (cases "getContext ?db act")
    case None
    then show ?thesis using sc by simp
  next
    case x: (Some x)
    have rx: "rank x < Suc k" using Suc.prems(3) x sc by simp
    have ctx: "context_at ?db x \<noteq> None" using x by (auto simp: getContext_element split: option.splits if_splits)
    have "constructInheritanceTree (Suc k) act None x s \<noteq> Inl OutOfFuel \<and>
        (\<forall>n t. constructInheritanceTree (Suc k) act None x s = Inr (n, t) \<longrightarrow> nodes_ranked rank (ss_objects t))"
      by (rule constructInheritanceTree_ends [OF Suc.prems(1) [unfolded sc fst_conv] rx Suc.prems(5,6) [unfolded sc fst_conv] ctx])
        (use Suc.prems(10) sc in \<open>simp_all add: parent_root_def parent_above_def\<close>)
    then have tree_ends: "constructInheritanceTree (Suc k) act None x s \<noteq> Inl OutOfFuel"
        "\<And>n t. constructInheritanceTree (Suc k) act None x s = Inr (n, t) \<Longrightarrow> nodes_ranked rank (ss_objects t)"
      by blast+
    let ?co = "\<lambda>n t. \<lparr>co_session = update_action act (\<lambda>d. d\<lparr>ac_inheritance := Some n\<rparr>) t, co_actions = \<lambda>_. None,
             co_dimensions = \<lambda>_. None, co_constructed = constructed\<rparr>"
    let ?f = "\<lambda>c sc. if is_action (ss_objects (fst sc)) c then constructInstance m k objects c sc else Inr sc"
    have over_ends: "collateOverrides m (Suc k) objects act n (?co n t) \<noteq> Inl OutOfFuel"
      if tree: "constructInheritanceTree (Suc k) act None x s = Inr (n, t)" for n t
    proof -
      have "tree_built act None x ?db n (ss_objects t) \<and> m_instanceMap (ss_derivation t) = m_instanceMap (ss_derivation s)"
        by (rule constructInheritanceTree_built [OF tree]) (use Suc.prems ctx sc in \<open>simp_all add: parent_root_def\<close>)
      then obtain N where t: "concrete_at (ss_objects t) = concrete_at ?db" "interface_at (ss_objects t) = interface_at ?db"
          "wf_trees (ss_objects t)" "inheritance_at (ss_objects t) n = Some N" "in_context N = x"
        unfolding tree_built_def by blast
      have db: "db_of (?co n t) = ss_objects t" by (simp add: db_of_def update_action_def)
      have same: "is_action (ss_objects t) = is_action ?db" "children_of (ss_objects t) = children_of ?db"
        using t(1) by (simp_all add: fun_eq_iff is_action_def children_of_def)
      have "collating act [] [] (?co n t)"
        using t(3) Suc.prems(6,7) sc same
        by (simp add: collating_def db action_elements_def dimension_elements_def child_actions_def child_dimensions_def)
      then show ?thesis
        by (rule collateOverrides_ends [where N = N and rank = rank and bound = bound, rotated 2])
          (use Suc.prems sc db t ranked_same [OF t(2)] rx tree_ends(2) [OF tree] plain_object_same [OF t(2)] in simp_all)
    qed
    have nodes_over: "nodes_ranked rank (db_of co)"
      if tree: "constructInheritanceTree (Suc k) act None x s = Inr (n, t)"
        and over: "collateOverrides m (Suc k) objects act n (?co n t) = Inr co" for n t co
    proof -
      have "tree_built act None x ?db n (ss_objects t) \<and> m_instanceMap (ss_derivation t) = m_instanceMap (ss_derivation s)"
        by (rule constructInheritanceTree_built [OF tree]) (use Suc.prems ctx sc in \<open>simp_all add: parent_root_def\<close>)
      then obtain cs where t: "concrete_at (ss_objects t) = concrete_at ?db" "interface_at (ss_objects t) = interface_at ?db"
          "wf_trees (ss_objects t)" "node_order (ss_objects t) n cs"
        unfolding tree_built_def by blast
      have db: "db_of (?co n t) = ss_objects t" by (simp add: db_of_def update_action_def)
      have same: "is_action (ss_objects t) = is_action ?db" "children_of (ss_objects t) = children_of ?db"
        using t(1) by (simp_all add: fun_eq_iff is_action_def children_of_def)
      have start: "collating act [] [] (?co n t)"
        using t(3) Suc.prems(6,7) sc same
        by (simp add: collating_def db action_elements_def dimension_elements_def child_actions_def child_dimensions_def)
      have "members_step m objects act [] [] cs (?co n t) co"
        by (rule collateOverrides_members [OF over start]) (use t db Suc.prems(9) sc plain_object_same [OF t(2)] in simp_all)
      then have "frame act (ss_objects t) (db_of co)" by (simp add: members_step_def Let_def advances_def db)
      then show ?thesis using nodes_ranked_skeleton [OF tree_ends(2) [OF tree]] by (simp add: frame_def)
    qed
    have loop_ends: "foldR ?f (ce_children e) (co_session co, co_constructed co) \<noteq> Inl OutOfFuel \<and>
        (\<forall>sc'. foldR ?f (ce_children e) (co_session co, co_constructed co) = Inr sc' \<longrightarrow> nodes_ranked rank (ss_objects (fst sc')))"
      if tree: "constructInheritanceTree (Suc k) act None x s = Inr (n, t)"
        and over: "collateOverrides m (Suc k) objects act n (?co n t) = Inr co" and e: "concrete_at (db_of co) act = Some e" for n t co e
    proof -
      have objects0: "\<forall>y \<in> set objects. plain_object ?db y" using Suc.prems(9) sc by simp
      note mem = constructInstance_members [OF tree over Suc.prems(5,6) [unfolded sc fst_conv] x
          Suc.prems(7,8) [unfolded sc fst_conv] objects0]
      let ?sc1 = "(co_session co, co_constructed co)"
      have iface: "interface_at (db_of co) = interface_at ?db" using mem(1) by (simp add: keeps_def)
      have kids: "ce_children e = children_of (db_of co) act" using e by (simp add: children_of_def)
      have dist: "distinct (ce_children e)" using mem(2) e by (simp add: wf_trees_def parents_ok_def)
      have r1: "ranked rank bound (db_of co)" using Suc.prems(1) sc ranked_same [OF iface] by simp
      have x1: "getContext (db_of co) act = Some x"
        using x mem(1) is_action_less Suc.prems(6) sc same_interface(1) [OF iface]
        by (auto simp: getContext_element keeps_def split: option.splits if_splits)
      have plain1: "\<And>y. y \<in> set objects \<Longrightarrow> plain_object (db_of co) y" using objects0 plain_object_same [OF iface] by simp
      let ?P = "\<lambda>ys u. keeps (set ys) (db_of co) (ss_objects (fst u)) \<and> wf_trees (ss_objects (fst u)) \<and> instances_ok (fst u) \<and>
          nodes_ranked rank (ss_objects (fst u))"
      have "foldR ?f (ce_children e) ?sc1 \<noteq> Inl OutOfFuel \<and> (\<forall>u. foldR ?f (ce_children e) ?sc1 = Inr u \<longrightarrow> ?P (ce_children e) u)"
      proof (rule foldR_prefix_ends [where P = ?P])
        show "?P [] ?sc1" using mem(2,3) nodes_over [OF tree over] by (simp add: db_of_def)
        fix ys y zs and u :: "session \<times> idx set" assume ys: "ce_children e = ys @ y # zs" and inv: "?P ys u"
        have y: "y \<notin> set ys" "y \<in> set (children_of (db_of co) act)" using dist ys kids by auto
        then have less: "y < length (db_of co)" using children_less [OF mem(2)] by blast
        have ifu: "interface_at (ss_objects (fst u)) = interface_at (db_of co)" using inv by (simp add: keeps_def)
        have keepu: "keeps (set ys) (db_of co) (ss_objects (fst u))" using inv by simp
        show "?f y u \<noteq> Inl OutOfFuel \<and> (\<forall>u'. ?f y u = Inr u' \<longrightarrow> ?P (ys @ [y]) u')"
        proof (cases "is_action (ss_objects (fst u)) y")
          case False
          then show ?thesis using inv keeps_mono [OF keepu, of "set (ys @ [y])"] by auto
        next
          case True
          have "children_of (db_of co) y = []"
            using mem(6) [OF mem(7) [OF y(2)]] by (simp add: children_of_def split: option.split)
          then have leaf: "children_of (ss_objects (fst u)) y = []" using keepu less y(1) by (simp add: keeps_def)
          have "is_action (db_of co) y" using True keepu less by (simp add: keeps_def)
          then have yc: "y \<in> set (child_actions (db_of co) act)" using y(2) by (simp add: child_actions_def)
          have ry: "rank z < rank x" if z: "getContext (ss_objects (fst u)) y = Some z" for z
          proof -
            have "element_of (ss_objects (fst u)) y = Some z" using z by (auto simp: getContext_element split: option.splits if_splits)
            then have "element_of (db_of co) y = Some z" using keepu less by (simp add: keeps_def)
            then show ?thesis by (rule complete_rank [OF mem(5) r1 x1 yc _ plain1])
          qed
          obtain z where "getContext (ss_objects (fst u)) y = Some z"
            using wf_action_context [OF _ True] inv by blast
          then have k0: "0 < k" using ry rx by fastforce
          have "?f y u = constructInstance m k objects y u" using True by simp
          moreover have "constructInstance m k objects y u \<noteq> Inl OutOfFuel \<and>
              (\<forall>u'. constructInstance m k objects y u = Inr u' \<longrightarrow> nodes_ranked rank (ss_objects (fst u')))"
            by (rule Suc.IH [OF _ Suc.prems(2) _ k0 _ True leaf])
              (use r1 ranked_same [OF ifu] inv plain1 plain_object_same [OF ifu] ry rx in fastforce)+
          moreover have "?P (ys @ [y]) u'" if u': "constructInstance m k objects y u = Inr u'" "nodes_ranked rank (ss_objects (fst u'))" for u'
          proof -
            have built: "constructed_tree m objects {y} (ss_objects (fst u)) u u'"
              by (rule constructInstance_built [OF u'(1) _ True leaf]) (use inv plain1 plain_object_same [OF ifu] in simp_all)
            then have "keeps {y} (ss_objects (fst u)) (ss_objects (fst u'))" by (simp add: constructed_tree_def)
            note tr = keeps_trans [OF keeps_mono [OF keepu] this]
            have "keeps (set (ys @ [y])) (db_of co) (ss_objects (fst u'))" by (rule tr) auto
            then show ?thesis using built u'(2) by (simp add: constructed_tree_def)
          qed
          ultimately show ?thesis by auto
        qed
      qed
      then show ?thesis by blast
    qed
    show ?thesis
    proof (cases "constructInheritanceTree (Suc k) act None x s")
      case (Inl e)
      then show ?thesis using x sc tree_ends(1) by (simp del: constructInheritanceTree.simps collateOverrides.simps)
    next
      case (Inr nt)
      then obtain n t where tree: "constructInheritanceTree (Suc k) act None x s = Inr (n, t)" by (cases nt) simp
      show ?thesis
      proof (cases "collateOverrides m (Suc k) objects act n (?co n t)")
        case (Inl e)
        then show ?thesis using x sc tree over_ends [OF tree] by (simp del: constructInheritanceTree.simps collateOverrides.simps)
      next
        case over: (Inr co)
        show ?thesis
        proof (cases "concrete_at (db_of co) act")
          case None
          then show ?thesis using x sc tree over
            by (simp add: conc_def del: constructInheritanceTree.simps collateOverrides.simps)
        next
          case (Some e)
          then show ?thesis using x sc tree over loop_ends [OF tree over Some]
            by (simp add: conc_def del: constructInheritanceTree.simps collateOverrides.simps)
        qed
      qed
    qed
  qed
qed simp

section \<open>The whole tree\<close>

lemma root_no_fuel: "root is_class parent db \<noteq> Inl OutOfFuel"
proof -
  have "root_loop is_class parent xs found \<noteq> Inl OutOfFuel" for xs found
    by (induction xs arbitrary: found) (auto simp: bindR_eq_Inl verify_def)
  then show ?thesis by (auto simp: root_def bindR_eq_Inl of_option_def split: option.splits)
qed

lemma construct_root_no_fuel: "construct_root s \<noteq> Inl OutOfFuel"
  by (auto simp: construct_root_def bindR_eq_Inl root_no_fuel steps_no_fuel construct_def)

lemma construct_instances_no_fuel:
  assumes only: "interface_only s" and ranked: "ranked rank bound (ss_objects s)" and k: "bound < k"
  shows "construct_instances k s \<noteq> Inl OutOfFuel"
proof (cases "construct_root s")
  case (Inl e)
  then show ?thesis using construct_root_no_fuel [of s] by (simp add: construct_instances_def)
next
  case (Inr at)
  then obtain a t where root: "construct_root s = Inr (a, t)" by (cases at) simp
  from root only show ?thesis
  proof (rule construct_root_effect)
    fix r
    assume t: "wf_trees (ss_objects t)" "is_action (ss_objects t) a" "children_of (ss_objects t) a = []" "instances_ok t"
      "interface_at (ss_objects t) = interface_at (ss_objects s)" "length (ss_objects t) = Suc a" "a = length (ss_objects s)"
    have inh: "nodes_ranked rank (ss_objects t)"
    proof -
      have "ss_objects t = ss_objects s @ [ConcreteElement \<lparr>ce_class = ConcreteAction, ce_parent = None, ce_element = Some r, ce_children = []\<rparr>]
          \<or> inheritance_at (ss_objects t) i = None" for i
        using root only
        by (auto simp: construct_root_def bindR_eq_Inr construct_def interface_only_def add_instance_def update_action_def dest!: name_effect)
      then show ?thesis
        using root only
        by (auto simp: nodes_ranked_def construct_root_def bindR_eq_Inr construct_def interface_only_def add_instance_def
            update_action_def dest!: name_effect)
    qed
    let ?os = "\<lambda>x. collate_all_objects (ss_objects t) x"
    have plain: "plain_object (ss_objects t) y" if "y \<in> set (?os x)" for x y
      using that by (auto simp: collate_all_objects_def plain_object_def split: option.splits)
    have "constructInstance k k (?os x) a (t, {}) \<noteq> Inl OutOfFuel" if x: "getContext (ss_objects t) a = Some x" for x
    proof -
      have "rank x < k" using ranked k by (meson less_trans ranked_def)
      then show ?thesis
        using constructInstance_ends [of rank bound "(t, {})" k a k "?os x"] ranked ranked_same [OF t(5)] k t inh plain x by simp
    qed
    then show ?thesis
      using root by (auto simp: construct_instances_def bindR_eq_Inl Let_def verify_def split: option.splits if_splits)
  qed
qed

end
