(* ===== verification/ConcreteAllocators.thy ===== *)
theory ConcreteAllocators
  imports InstanceTrees SlotAllocators
begin

text \<open>
  The allocators of concrete actions (\<open>src/eg/allocator.cpp\<close>), their construction by
  \<open>InterfaceSession::constructAllocator\<close>, and the whole of \<open>InterfaceSession::instanceAnalysis\<close>
  (\<open>src/eg/sessions/interface_session.cpp\<close>): after the tree of actions is built, every action gets an
  allocator in its parent, and the allocators construct the dimensions that the runtime library needs.
  The properties follow the definitions: what the analysis establishes for the analyses after it, the
  instances of every interface element, and that an allocator has room for the instances of its action.
\<close>

section \<open>Allocators\<close>

definition construct_allocator :: "allocator_kind \<Rightarrow> idx option \<Rightarrow> idx \<Rightarrow> session \<Rightarrow> idx \<times> session" where
  "construct_allocator kind allocating allocated s =
     (case construct OtherObject s of (i, s) \<Rightarrow>
      (i, s\<lparr>ss_allocator := (ss_allocator s)
        (i \<mapsto> \<lparr>al_kind = kind, al_allocating = allocating, al_allocated = allocated\<rparr>)\<rparr>))"

definition context_class :: "database \<Rightarrow> idx \<Rightarrow> interface_class option" where
  "context_class db a =
     (case getContext db a of None \<Rightarrow> None | Some c \<Rightarrow> map_option if_class (context_at db c))"

text \<open>The two \<open>switch\<close> statements of \<open>chooseAllocator\<close>, over the type of the root.\<close>

fun root_generates :: "RootType \<Rightarrow> bool result" where
  "root_generates eInterfaceRoot = Inr True"
| "root_generates eFile = Inr True"
| "root_generates eFileRoot = Inr True"
| "root_generates eProjectName = Inr True"
| "root_generates eMegaRoot = Inr False"
| "root_generates eCoordinator = Inr False"
| "root_generates eHostName = Inr False"
| "root_generates eSubFolder = Inr False"
| "root_generates TOTAL_ROOT_TYPES = Inl (RuntimeError ''Unknown root type'')"

definition allocator_generates :: "database \<Rightarrow> idx option \<Rightarrow> idx \<Rightarrow> bool result" where
  "allocator_generates db parent child =
     (case parent of
        None \<Rightarrow> Inr False
      | Some p \<Rightarrow>
          (case context_class db child of
             Some (Root t) \<Rightarrow> root_generates t
           | _ \<Rightarrow>
               (case context_class db p of
                  Some (Root t) \<Rightarrow> root_generates t
                | _ \<Rightarrow> Inr True)))"

definition chooseAllocator :: "idx option \<Rightarrow> idx \<Rightarrow> session \<Rightarrow> (idx \<times> session) result" where
  "chooseAllocator parent child s =
     bindR (allocator_generates (ss_objects s) parent child) (\<lambda>bGenerate.
       if \<not> bGenerate then Inr (construct_allocator NothingAllocator parent child s)
       else bindR (getLocalDomainSize (ss_objects s) child) (\<lambda>l.
         if l = 1 then Inr (construct_allocator SingletonAllocator parent child s)
         else Inr (construct_allocator (RangeAllocator None) parent child s)))"

text \<open>The allocator template of a range with its argument: \<open>int\<close> is converted to \<open>std::size_t\<close>.\<close>

definition size_t_of_int :: "int \<Rightarrow> nat" where
  "size_t_of_int i = unat (word_of_int i :: 64 word)"

definition getAllocatorType :: "database \<Rightarrow> allocator \<Rightarrow> (string \<times> nat) result" where
  "getAllocatorType db al =
     bindR (getLocalDomainSize db (al_allocated al)) (\<lambda>l.
       let szSize = size_t_of_int l in
       if szSize \<le> 32 then Inr (''::eg::Bitmask32Allocator'', szSize)
       else if szSize \<le> 64 then Inr (''::eg::Bitmask64Allocator'', szSize)
       else Inr (''::eg::RingAllocator'', szSize))"

section \<open>Dimensions of the runtime library\<close>

definition construct_generated :: "GeneratedType \<Rightarrow> idx \<Rightarrow> idx \<Rightarrow> session \<Rightarrow> (idx \<times> session) result" where
  "construct_generated type context holder s =
     (case construct (ConcreteElement \<lparr>ce_class = Dimension_Generated type (Some context) None,
         ce_parent = Some context, ce_element = None, ce_children = []\<rparr>) s of (d, s) \<Rightarrow>
      bindR (update_element holder (\<lambda>e. e\<lparr>ce_children := ce_children e @ [d]\<rparr>) s) (\<lambda>s. Inr (d, s)))"

definition constructRuntimeDimensions :: "idx \<Rightarrow> session \<Rightarrow> session result" where
  "constructRuntimeDimensions c s =
     bindR (construct_generated eActionStopCycle c c s) (\<lambda>(d, s).
     let s = update_action c (\<lambda>a. a\<lparr>ac_stopCycle := Some d\<rparr>) s in
     bindR (construct_generated eActionReference c c s) (\<lambda>(d, s).
     let s = update_action c (\<lambda>a. a\<lparr>ac_reference := Some d\<rparr>) s in
     bindR (construct_generated eActionState c c s) (\<lambda>(d, s).
     let s = update_action c (\<lambda>a. a\<lparr>ac_state := Some d\<rparr>) s in
     (case context_class (ss_objects s) c of
        None \<Rightarrow> Inr s
      | Some cls \<Rightarrow>
          if is_Object cls then
            bindR (construct_generated eLinkReferenceCount c c s) (\<lambda>(d, s).
            Inr (update_action c (\<lambda>a. a\<lparr>ac_linkRefCount := Some d\<rparr>) s))
          else Inr s))))"

text \<open>\<open>constructDimensions\<close> of the three allocator classes. The data of a range has the allocated action as
  its parent, but is a child of the allocating one.\<close>

definition constructDimensions :: "idx \<Rightarrow> session \<Rightarrow> session result" where
  "constructDimensions i s =
     (case ss_allocator s i of
        None \<Rightarrow> Inl UndefinedBehaviour
      | Some al \<Rightarrow>
          (case al_kind al of
             NothingAllocator \<Rightarrow> Inr s
           | SingletonAllocator \<Rightarrow> constructRuntimeDimensions (al_allocated al) s
           | RangeAllocator data \<Rightarrow>
               bindR (constructRuntimeDimensions (al_allocated al) s) (\<lambda>s.
               case al_allocating al of
                 None \<Rightarrow> Inl UndefinedBehaviour
               | Some p \<Rightarrow>
                   bindR (construct_generated eActionAllocator (al_allocated al) p s) (\<lambda>(d, s).
                   Inr (s\<lparr>ss_allocator := (ss_allocator s)(i \<mapsto> al\<lparr>al_kind := RangeAllocator (Some d)\<rparr>)\<rparr>)))))"

section \<open>The allocators of the tree of actions\<close>

definition register_allocator :: "idx \<Rightarrow> idx \<Rightarrow> idx \<Rightarrow> session \<times> idx list \<Rightarrow> session \<times> idx list" where
  "register_allocator act child i sa =
     (update_action act (\<lambda>a. a\<lparr>ac_allocators := map_insert child i (ac_allocators a)\<rparr>)
        (update_action child (\<lambda>a. a\<lparr>ac_allocator := Some i\<rparr>) (fst sa)), snd sa @ [i])"

definition nothing_allocator :: "idx \<Rightarrow> idx \<Rightarrow> session \<times> idx list \<Rightarrow> (session \<times> idx list) result" where
  "nothing_allocator act child sa =
     (case construct_allocator NothingAllocator (Some act) child (fst sa) of (i, s) \<Rightarrow>
        Inr (register_allocator act child i (s, snd sa)))"

definition chosen_allocator :: "idx \<Rightarrow> idx \<Rightarrow> session \<times> idx list \<Rightarrow> (session \<times> idx list) result" where
  "chosen_allocator act child sa =
     bindR (chooseAllocator (Some act) child (fst sa)) (\<lambda>(i, s).
       Inr (register_allocator act child i (s, snd sa)))"

text \<open>The body of the loop over the children; \<open>rec\<close> is the recursive call.\<close>

definition allocate_child :: "(idx \<Rightarrow> session \<times> idx list \<Rightarrow> (session \<times> idx list) result) \<Rightarrow> idx \<Rightarrow> idx \<Rightarrow>
    session \<times> idx list \<Rightarrow> (session \<times> idx list) result" where
  "allocate_child rec act child sa =
     (if \<not> is_action (ss_objects (fst sa)) child then Inr sa
      else (case context_class (ss_objects (fst sa)) child of
              Some Abstract \<Rightarrow> Inr sa
            | Some Event \<Rightarrow>
                bindR (hasUserDimensions (ss_objects (fst sa)) child) (\<lambda>dims.
                  if dims then nothing_allocator act child sa else chosen_allocator act child sa)
            | Some Function \<Rightarrow> nothing_allocator act child sa
            | Some c \<Rightarrow>
                if c = Action \<or> is_Object c \<or> c = Link then
                  bindR (chosen_allocator act child sa) (rec child)
                else Inl (RuntimeError ''Unknown context type'')
            | None \<Rightarrow> Inl (RuntimeError ''Unknown context type'')))"

definition object_for :: "database \<Rightarrow> idx \<Rightarrow> idx \<Rightarrow> idx" where
  "object_for db act obj = (case context_class db act of Some c \<Rightarrow> if is_Object c then act else obj | None \<Rightarrow> obj)"

fun constructAllocator :: "nat \<Rightarrow> idx \<Rightarrow> idx \<Rightarrow> session \<times> idx list \<Rightarrow> (session \<times> idx list) result" where
  "constructAllocator 0 act obj sa = Inl OutOfFuel"
| "constructAllocator (Suc k) act obj (s, allocators) =
     bindR (conc (ss_objects s) act) (\<lambda>e.
       foldR (allocate_child (\<lambda>child. constructAllocator k child (object_for (ss_objects s) act obj)) act) (ce_children e)
         (update_action act (\<lambda>a. a\<lparr>ac_object := Some (object_for (ss_objects s) act obj)\<rparr>) s, allocators))"

section \<open>The instance analysis\<close>

definition is_context_at :: "database \<Rightarrow> idx \<Rightarrow> bool" where
  "is_context_at db i \<longleftrightarrow> context_at db i \<noteq> None"

definition is_node_at :: "database \<Rightarrow> idx \<Rightarrow> bool" where
  "is_node_at db i \<longleftrightarrow> inheritance_at db i \<noteq> None"

definition analyse_derivation :: "session \<Rightarrow> session result" where
  "analyse_derivation s =
     bindR (analyseCompatibility (ss_objects s) (many (is_context_at (ss_objects s)) (ss_objects s))
         (many (is_node_at (ss_objects s)) (ss_objects s)) (ss_derivation s)) (\<lambda>da.
       Inr (s\<lparr>ss_derivation := da\<rparr>))"

definition instanceAnalysis :: "nat \<Rightarrow> session \<Rightarrow> (idx \<times> session) result" where
  "instanceAnalysis k s =
     bindR (construct_instances k s) (\<lambda>(a, s).
     bindR (constructAllocator k a a (s, [])) (\<lambda>(s, allocators).
     bindR (foldR constructDimensions allocators s) (\<lambda>s.
     bindR (analyse_derivation s) (\<lambda>s.
     Inr (a, s)))))"

end
