(* ===== verification/InstanceAnalysis.thy ===== *)
theory InstanceAnalysis
  imports InstanceEnds ConcreteAllocators
begin

text \<open>
  The properties of \<open>InterfaceSession::instanceAnalysis\<close>: the construction of the allocators and of the
  dimensions of the runtime library leaves the trees that \<open>InstanceTrees\<close> describes as they are, so that
  the database has the shape the later analyses rely on, every interface element has its instances in
  the instance map, and overriding is exact.
\<close>

section \<open>Steps that only add allocators and generated dimensions\<close>

definition extends_db :: "database \<Rightarrow> database \<Rightarrow> bool" where
  "extends_db db db' \<longleftrightarrow>
     interface_at db' = interface_at db \<and> inheritance_at db' = inheritance_at db \<and> length db \<le> length db' \<and>
     is_action db' = is_action db \<and> element_of db' = element_of db \<and>
     child_actions db' = child_actions db \<and> child_dimensions db' = child_dimensions db \<and>
     (wf_concrete db \<longrightarrow> wf_concrete db') \<and>
     (\<forall>i e. concrete_at db i = Some e \<longrightarrow> (\<exists>e'. concrete_at db' i = Some e' \<and> ce_class e' = ce_class e))"

lemma extends_db_refl [simp]: "extends_db db db"
  by (simp add: extends_db_def)

lemma extends_db_trans: "extends_db db db' \<Longrightarrow> extends_db db' db'' \<Longrightarrow> extends_db db db''"
  unfolding extends_db_def by (metis order_trans)

lemma extends_db_context:
  assumes "extends_db db db'"
  shows "getContext db' = getContext db" "context_class db' = context_class db" "getLocalDomainSize db' = getLocalDomainSize db"
proof -
  have iface: "interface_at db' = interface_at db" and el: "element_of db' = element_of db"
    using assms by (simp_all add: extends_db_def)
  show 1: "getContext db' = getContext db"
    by (simp add: fun_eq_iff getContext_element el same_interface(1) [OF iface] split: option.split)
  show "context_class db' = context_class db"
    by (simp add: fun_eq_iff context_class_def 1 same_interface(1) [OF iface] split: option.split)
  show "getLocalDomainSize db' = getLocalDomainSize db"
    by (simp add: fun_eq_iff getLocalDomainSize_def 1 same_interface(1) [OF iface] split: option.split)
qed

lemma wf_concrete_iff:
  "wf_concrete db \<longleftrightarrow>
     (\<forall>i e. concrete_at db i = Some e \<longrightarrow>
        (\<forall>p. ce_parent e = Some p \<longrightarrow> p < i \<and> is_action db p) \<and>
        (ce_class e = ConcreteAction \<longrightarrow> (\<exists>l. getLocalDomainSize db i = Inr l \<and> 0 < l)))"
proof -
  have 1: "(case p of None \<Rightarrow> True | Some q \<Rightarrow> P q) \<longleftrightarrow> (\<forall>q. p = Some q \<longrightarrow> P q)" for p and P :: "idx \<Rightarrow> bool"
    by (cases p) simp_all
  have 2: "(case r of Inl _ \<Rightarrow> False | Inr l \<Rightarrow> 0 < l) \<longleftrightarrow> (\<exists>l. r = Inr l \<and> 0 < l)" for r :: "int result"
    by (cases r) simp_all
  show ?thesis
    unfolding wf_concrete_def 1 2 by (auto simp: concrete_at_Some split: indexed_object.splits)
qed

lemma extends_db_other: "extends_db db (db @ [OtherObject])"
proof -
  have c: "concrete_at (db @ [OtherObject]) = concrete_at db" "interface_at (db @ [OtherObject]) = interface_at db"
      "inheritance_at (db @ [OtherObject]) = inheritance_at db" by simp_all
  have s: "is_action (db @ [OtherObject]) = is_action db" "element_of (db @ [OtherObject]) = element_of db"
      "children_of (db @ [OtherObject]) = children_of db" "user_dimension_at (db @ [OtherObject]) = user_dimension_at db"
    by (simp_all add: fun_eq_iff is_action_def element_of_def children_of_def user_dimension_at_def)
  have g: "getLocalDomainSize (db @ [OtherObject]) = getLocalDomainSize db"
    by (simp add: fun_eq_iff getLocalDomainSize_def getContext_element s same_interface(1) [OF c(2)] split: option.split)
  show ?thesis
    unfolding extends_db_def
    by (simp add: c s g wf_concrete_iff child_actions_def [abs_def] child_dimensions_def [abs_def])
qed

lemma construct_generated_effect:
  assumes "construct_generated type c h s = Inr (d, s')" and c: "is_action (ss_objects s) c" and h: "is_action (ss_objects s) h"
  shows "extends_db (ss_objects s) (ss_objects s')" "d = length (ss_objects s)" "length (ss_objects s') = Suc d"
    "\<exists>e. concrete_at (ss_objects s') d = Some e \<and> ce_class e = Dimension_Generated type (Some c) None"
    "ss_derivation s' = ss_derivation s" "ss_action s' = ss_action s" "ss_allocator s' = ss_allocator s"
proof -
  let ?db = "ss_objects s"
  let ?new = "\<lparr>ce_class = Dimension_Generated type (Some c) None, ce_parent = Some c, ce_element = None, ce_children = []\<rparr>"
  obtain e where e: "concrete_at ?db h = Some e" using is_action_concrete [OF h] by blast
  then have ne: "h \<noteq> length ?db" by auto
  then have e': "concrete_at (?db @ [ConcreteElement ?new]) h = Some e" using e by simp
  have r: "d = length ?db \<and>
     s' = s\<lparr>ss_objects := (?db @ [ConcreteElement ?new])[h := ConcreteElement (e\<lparr>ce_children := ce_children e @ [length ?db]\<rparr>)]\<rparr>"
    using assms(1) e' by (auto simp: construct_generated_def construct_def update_element_def conc_def simp del: at_append)
  note [simp] = at_update_element [OF e']
  let ?db' = "ss_objects s'"
  have conc: "concrete_at ?db' = (concrete_at ?db)(length ?db \<mapsto> ?new, h \<mapsto> e\<lparr>ce_children := ce_children e @ [length ?db]\<rparr>)"
    and same: "interface_at ?db' = interface_at ?db" "inheritance_at ?db' = inheritance_at ?db"
    using r by simp_all
  show len: "length ?db' = Suc d" and d: "d = length ?db" and "ss_derivation s' = ss_derivation s" "ss_action s' = ss_action s"
    "ss_allocator s' = ss_allocator s"
    using r by simp_all
  show "\<exists>e. concrete_at ?db' d = Some e \<and> ce_class e = Dimension_Generated type (Some c) None"
    using conc d ne by simp
  have act: "is_action ?db' = is_action ?db" using e ne by (simp add: fun_eq_iff is_action_def conc)
  have el: "element_of ?db' = element_of ?db" using e ne by (simp add: fun_eq_iff element_of_def conc)
  have ud: "user_dimension_at ?db' i \<noteq> None \<longleftrightarrow> user_dimension_at ?db i \<noteq> None" for i
    using e ne by (cases "ce_class e") (simp_all add: user_dimension_at_def conc)
  have kids: "children_of ?db' i = (if i = h then children_of ?db i @ [length ?db] else children_of ?db i)" for i
    using e ne by (simp add: children_of_def conc)
  have none: "\<not> is_action ?db (length ?db)" "user_dimension_at ?db (length ?db) = None"
    by (simp_all add: is_action_def user_dimension_at_def)
  have lists: "child_actions ?db' = child_actions ?db" "child_dimensions ?db' = child_dimensions ?db"
    using none ud by (simp_all add: fun_eq_iff child_actions_def child_dimensions_def kids act)
  have ctx: "getLocalDomainSize ?db' i = getLocalDomainSize ?db i" for i
    by (simp add: getLocalDomainSize_def getContext_element el same_interface(1) [OF same(1)] split: option.split)
  have "wf_concrete ?db'" if wf: "wf_concrete ?db"
    unfolding wf_concrete_iff
  proof (intro allI impI)
    fix i f assume f: "concrete_at ?db' i = Some f"
    consider "i = h" "f = e\<lparr>ce_children := ce_children e @ [length ?db]\<rparr>" | "i = length ?db" "i \<noteq> h" "f = ?new"
      | "concrete_at ?db i = Some f"
      using f unfolding conc by (cases "i = h"; cases "i = length ?db"; simp)
    then show "(\<forall>p. ce_parent f = Some p \<longrightarrow> p < i \<and> is_action ?db' p) \<and>
        (ce_class f = ConcreteAction \<longrightarrow> (\<exists>l. getLocalDomainSize ?db' i = Inr l \<and> 0 < l))"
    proof cases
      case 1
      then show ?thesis using wf e unfolding wf_concrete_iff act ctx by simp
    next
      case 2
      then show ?thesis using is_action_less [OF c] c act by simp
    next
      case 3
      then show ?thesis using wf unfolding wf_concrete_iff act ctx by blast
    qed
  qed
  moreover have "\<exists>f'. concrete_at ?db' i = Some f' \<and> ce_class f' = ce_class f" if "concrete_at ?db i = Some f" for i f
    using that e ne by (auto simp: conc)
  ultimately show "extends_db ?db ?db'"
    using same len d act el lists by (simp add: extends_db_def)
qed

section \<open>The dimensions of the runtime library\<close>

text \<open>The order the code asks for: the reference of an action is constructed before its state.\<close>

definition runtime_ok :: "session \<Rightarrow> idx \<Rightarrow> bool" where
  "runtime_ok s c \<longleftrightarrow>
     (\<exists>p r t. ac_stopCycle (ss_action s c) = Some p \<and> ac_reference (ss_action s c) = Some r \<and> ac_state (ss_action s c) = Some t \<and>
        p < r \<and> r < t \<and>
        map_option ce_class (concrete_at (ss_objects s) p) = Some (Dimension_Generated eActionStopCycle (Some c) None) \<and>
        map_option ce_class (concrete_at (ss_objects s) r) = Some (Dimension_Generated eActionReference (Some c) None) \<and>
        map_option ce_class (concrete_at (ss_objects s) t) = Some (Dimension_Generated eActionState (Some c) None))"

definition same_runtime :: "action_data \<Rightarrow> action_data \<Rightarrow> bool" where
  "same_runtime a b \<longleftrightarrow> ac_stopCycle a = ac_stopCycle b \<and> ac_reference a = ac_reference b \<and> ac_state a = ac_state b"

lemma extends_db_class:
  assumes "extends_db db db'" and "map_option ce_class (concrete_at db i) = Some k"
  shows "map_option ce_class (concrete_at db' i) = Some k"
proof -
  obtain e where e: "concrete_at db i = Some e" "ce_class e = k" using assms(2) by auto
  then show ?thesis using assms(1) unfolding extends_db_def by fastforce
qed

lemma runtime_ok_extends:
  assumes "runtime_ok s c" and "extends_db (ss_objects s) (ss_objects s')" and "same_runtime (ss_action s' c) (ss_action s c)"
  shows "runtime_ok s' c"
  using assms extends_db_class [OF assms(2)] unfolding runtime_ok_def same_runtime_def by metis

lemma update_action_simps [simp]:
  "ss_objects (update_action i f s) = ss_objects s" "ss_derivation (update_action i f s) = ss_derivation s"
  "ss_allocator (update_action i f s) = ss_allocator s"
  "ss_action (update_action i f s) j = (if j = i then f (ss_action s i) else ss_action s j)"
  by (simp_all add: update_action_def)

lemma constructRuntimeDimensions_effect:
  assumes "constructRuntimeDimensions c s = Inr s'" and c: "is_action (ss_objects s) c"
  shows "extends_db (ss_objects s) (ss_objects s')" "ss_derivation s' = ss_derivation s" "ss_allocator s' = ss_allocator s"
    "runtime_ok s' c" "\<And>j. j \<noteq> c \<Longrightarrow> ss_action s' j = ss_action s j"
proof -
  obtain p s1 r s2 t s3 where
      1: "construct_generated eActionStopCycle c c s = Inr (p, s1)"
    and 2: "construct_generated eActionReference c c (update_action c (\<lambda>a. a\<lparr>ac_stopCycle := Some p\<rparr>) s1) = Inr (r, s2)"
    and 3: "construct_generated eActionState c c (update_action c (\<lambda>a. a\<lparr>ac_reference := Some r\<rparr>) s2) = Inr (t, s3)"
    and last: "(case context_class (ss_objects s3) c of
        None \<Rightarrow> Inr (update_action c (\<lambda>a. a\<lparr>ac_state := Some t\<rparr>) s3)
      | Some cls \<Rightarrow>
          if is_Object cls then
            bindR (construct_generated eLinkReferenceCount c c (update_action c (\<lambda>a. a\<lparr>ac_state := Some t\<rparr>) s3)) (\<lambda>(d, s).
            Inr (update_action c (\<lambda>a. a\<lparr>ac_linkRefCount := Some d\<rparr>) s))
          else Inr (update_action c (\<lambda>a. a\<lparr>ac_state := Some t\<rparr>) s3)) = Inr s'"
    using assms(1) by (auto simp: constructRuntimeDimensions_def Let_def bindR_eq_Inr)
  have keep: "is_action (ss_objects u) c \<Longrightarrow> extends_db (ss_objects u) (ss_objects v) \<Longrightarrow> is_action (ss_objects v) c" for u v
    by (simp add: extends_db_def)
  note e1 = construct_generated_effect [OF 1 c c]
  have c1: "is_action (ss_objects (update_action c (\<lambda>a. a\<lparr>ac_stopCycle := Some p\<rparr>) s1)) c" using keep [OF c e1(1)] by simp
  note e2 = construct_generated_effect [OF 2 c1 c1, simplified]
  have c2: "is_action (ss_objects (update_action c (\<lambda>a. a\<lparr>ac_reference := Some r\<rparr>) s2)) c" using keep [of s1 s2] c1 e2(1) by simp
  note e3 = construct_generated_effect [OF 3 c2 c2, simplified]
  let ?s3 = "update_action c (\<lambda>a. a\<lparr>ac_state := Some t\<rparr>) s3"
  have c3: "is_action (ss_objects ?s3) c" using keep [of s2 s3] c2 e3(1) by simp
  have ext: "extends_db (ss_objects s) (ss_objects s3)"
    using extends_db_trans [OF extends_db_trans [OF e1(1) e2(1)] e3(1)] .
  have ok: "runtime_ok ?s3 c"
  proof -
    have "map_option ce_class (concrete_at (ss_objects s3) p) = Some (Dimension_Generated eActionStopCycle (Some c) None)"
      by (rule extends_db_class [OF extends_db_trans [OF e2(1) e3(1)]]) (use e1(4) in auto)
    moreover have "map_option ce_class (concrete_at (ss_objects s3) r) = Some (Dimension_Generated eActionReference (Some c) None)"
      by (rule extends_db_class [OF e3(1)]) (use e2(4) in auto)
    moreover have "map_option ce_class (concrete_at (ss_objects s3) t) = Some (Dimension_Generated eActionState (Some c) None)"
      using e3(4) by auto
    moreover have "ac_stopCycle (ss_action s3 c) = Some p" "ac_reference (ss_action s3 c) = Some r" "p < r" "r < t"
      using e1(2,3,6) e2(2,3,6) e3(2,6) by simp_all
    ultimately show ?thesis by (simp add: runtime_ok_def)
  qed
  have others: "\<And>j. j \<noteq> c \<Longrightarrow> ss_action ?s3 j = ss_action s j" using e1(6) e2(6) e3(6) by simp
  have rest: "ss_derivation ?s3 = ss_derivation s" "ss_allocator ?s3 = ss_allocator s" using e1 e2 e3 by simp_all
  consider "s' = ?s3" | d s4 where "construct_generated eLinkReferenceCount c c ?s3 = Inr (d, s4)"
      "s' = update_action c (\<lambda>a. a\<lparr>ac_linkRefCount := Some d\<rparr>) s4"
    using last by (auto simp: bindR_eq_Inr split: option.splits if_splits)
  then have "extends_db (ss_objects s) (ss_objects s') \<and> ss_derivation s' = ss_derivation s \<and> ss_allocator s' = ss_allocator s \<and>
    runtime_ok s' c \<and> (\<forall>j. j \<noteq> c \<longrightarrow> ss_action s' j = ss_action s j)"
  proof cases
    case 1
    then show ?thesis using ext ok others rest by simp
  next
    case 2
    note e4 = construct_generated_effect [OF 2(1) c3 c3, simplified]
    have "runtime_ok s' c"
      by (rule runtime_ok_extends [OF ok]) (use 2(2) e4(1,6) in \<open>simp_all add: same_runtime_def\<close>)
    then show ?thesis using 2(2) e4 extends_db_trans [OF ext e4(1)] others rest by simp
  qed
  then show "extends_db (ss_objects s) (ss_objects s')" "ss_derivation s' = ss_derivation s" "ss_allocator s' = ss_allocator s"
    "runtime_ok s' c" "\<And>j. j \<noteq> c \<Longrightarrow> ss_action s' j = ss_action s j" by blast+
qed

text \<open>An allocator of the session: its actions are actions.\<close>

definition allocator_ok :: "session \<Rightarrow> idx \<Rightarrow> bool" where
  "allocator_ok s i \<longleftrightarrow>
     (\<exists>al p. ss_allocator s i = Some al \<and> al_allocating al = Some p \<and> is_action (ss_objects s) p \<and>
        is_action (ss_objects s) (al_allocated al))"

definition generates_at :: "session \<Rightarrow> idx \<Rightarrow> bool" where
  "generates_at s i \<longleftrightarrow> (\<exists>al. ss_allocator s i = Some al \<and> al_kind al \<noteq> NothingAllocator)"

definition allocated_at :: "session \<Rightarrow> idx \<Rightarrow> idx" where
  "allocated_at s i = (case ss_allocator s i of Some al \<Rightarrow> al_allocated al | None \<Rightarrow> 0)"

lemma constructDimensions_effect:
  assumes "constructDimensions i s = Inr s'" and ok: "allocator_ok s i"
  shows "extends_db (ss_objects s) (ss_objects s')" "ss_derivation s' = ss_derivation s"
    "\<And>j. allocator_ok s j \<Longrightarrow> allocator_ok s' j" "\<And>j. generates_at s' j = generates_at s j" "\<And>j. allocated_at s' j = allocated_at s j"
    "generates_at s i \<Longrightarrow> runtime_ok s' (allocated_at s i)" "\<And>c. runtime_ok s c \<Longrightarrow> runtime_ok s' c"
proof -
  obtain al p where al: "ss_allocator s i = Some al" "al_allocating al = Some p" "is_action (ss_objects s) p"
      "is_action (ss_objects s) (al_allocated al)"
    using ok unfolding allocator_ok_def by blast
  have "extends_db (ss_objects s) (ss_objects s') \<and> ss_derivation s' = ss_derivation s \<and>
    (\<forall>j. allocator_ok s j \<longrightarrow> allocator_ok s' j) \<and> (\<forall>j. generates_at s' j = generates_at s j) \<and>
    (\<forall>j. allocated_at s' j = allocated_at s j) \<and> (generates_at s i \<longrightarrow> runtime_ok s' (allocated_at s i)) \<and>
    (\<forall>c. runtime_ok s c \<longrightarrow> runtime_ok s' c)"
  proof (cases "al_kind al")
    case NothingAllocator
    then have "s' = s" using assms(1) al(1) by (simp add: constructDimensions_def)
    then show ?thesis using NothingAllocator al(1) by (simp add: generates_at_def)
  next
    case SingletonAllocator
    then have run: "constructRuntimeDimensions (al_allocated al) s = Inr s'" using assms(1) al(1) by (simp add: constructDimensions_def)
    note e = constructRuntimeDimensions_effect [OF run al(4)]
    have "runtime_ok s' c" if "runtime_ok s c" for c
      using e(4) runtime_ok_extends [OF that e(1)] e(5) by (cases "c = al_allocated al") (simp_all add: same_runtime_def)
    moreover have "allocator_ok s' j" if "allocator_ok s j" for j
      using that e(1,3) by (simp add: allocator_ok_def extends_db_def)
    ultimately show ?thesis using e al(1) by (simp add: generates_at_def allocated_at_def)
  next
    case (RangeAllocator data)
    then obtain s1 d s2 where run: "constructRuntimeDimensions (al_allocated al) s = Inr s1"
        and gen: "construct_generated eActionAllocator (al_allocated al) p s1 = Inr (d, s2)"
        and s': "s' = s2\<lparr>ss_allocator := (ss_allocator s2)(i \<mapsto> al\<lparr>al_kind := RangeAllocator (Some d)\<rparr>)\<rparr>"
      using assms(1) al by (auto simp: constructDimensions_def bindR_eq_Inr)
    note e = constructRuntimeDimensions_effect [OF run al(4)]
    have act: "is_action (ss_objects s1) (al_allocated al)" "is_action (ss_objects s1) p" using e(1) al by (simp_all add: extends_db_def)
    note g = construct_generated_effect [OF gen act]
    have ext: "extends_db (ss_objects s) (ss_objects s')" using extends_db_trans [OF e(1) g(1)] s' by simp
    have ext1: "extends_db (ss_objects s1) (ss_objects s')" using g(1) s' by simp
    have run1: "runtime_ok s' c" if "runtime_ok s1 c" for c
      by (rule runtime_ok_extends [OF that ext1]) (simp add: s' g(6) same_runtime_def)
    have "runtime_ok s' c" if "runtime_ok s c" for c
      using run1 e(4) runtime_ok_extends [OF that e(1)] e(5) by (cases "c = al_allocated al") (simp_all add: same_runtime_def)
    moreover have "allocator_ok s' j" if "allocator_ok s j" for j
      using that ext s' g(7) e(3) al by (cases "j = i") (auto simp: allocator_ok_def extends_db_def)
    ultimately show ?thesis
      using ext s' g e run1 al(1) RangeAllocator by (auto simp: generates_at_def allocated_at_def)
  qed
  then show "extends_db (ss_objects s) (ss_objects s')" "ss_derivation s' = ss_derivation s"
    "\<And>j. allocator_ok s j \<Longrightarrow> allocator_ok s' j" "\<And>j. generates_at s' j = generates_at s j" "\<And>j. allocated_at s' j = allocated_at s j"
    "generates_at s i \<Longrightarrow> runtime_ok s' (allocated_at s i)" "\<And>c. runtime_ok s c \<Longrightarrow> runtime_ok s' c"
    by blast+
qed

section \<open>The allocators of the tree\<close>

definition allocators_ok :: "session \<times> idx list \<Rightarrow> bool" where
  "allocators_ok sa \<longleftrightarrow>
     (\<forall>i \<in> set (snd sa). allocator_ok (fst sa) i) \<and> (\<forall>i. ss_allocator (fst sa) i \<noteq> None \<longrightarrow> i \<in> set (snd sa)) \<and>
     (\<forall>i. ss_allocator (fst sa) i \<noteq> None \<longrightarrow> i < length (ss_objects (fst sa)))"

definition allocators_grow :: "session \<times> idx list \<Rightarrow> session \<times> idx list \<Rightarrow> bool" where
  "allocators_grow sa sa' \<longleftrightarrow>
     extends_db (ss_objects (fst sa)) (ss_objects (fst sa')) \<and> ss_derivation (fst sa') = ss_derivation (fst sa) \<and>
     (allocators_ok sa \<longrightarrow> allocators_ok sa')"

lemma allocators_grow_refl [simp]: "allocators_grow sa sa"
  by (simp add: allocators_grow_def)

lemma allocators_grow_trans: "allocators_grow a b \<Longrightarrow> allocators_grow b c \<Longrightarrow> allocators_grow a c"
  unfolding allocators_grow_def using extends_db_trans by metis

lemma register_new_grows:
  assumes act: "is_action (ss_objects (fst sa)) act" "is_action (ss_objects (fst sa)) child"
    and new: "construct_allocator kind (Some act) child (fst sa) = (i, s)"
  shows "allocators_grow sa (register_allocator act child i (s, snd sa))"
proof -
  let ?db = "ss_objects (fst sa)"
  have r: "i = length ?db" "ss_objects s = ?db @ [OtherObject]" "ss_derivation s = ss_derivation (fst sa)"
      "ss_allocator s = (ss_allocator (fst sa))(i \<mapsto> \<lparr>al_kind = kind, al_allocating = Some act, al_allocated = child\<rparr>)"
    using new by (auto simp: construct_allocator_def construct_def)
  have ext: "extends_db ?db (ss_objects s)" using extends_db_other r by simp
  then have is_act: "is_action (ss_objects s) = is_action ?db" by (simp add: extends_db_def)
  have "allocators_ok (register_allocator act child i (s, snd sa))" if ok: "allocators_ok sa"
  proof -
    have old: "\<forall>j \<in> set (snd sa). allocator_ok (fst sa) j" "\<forall>j. ss_allocator (fst sa) j \<noteq> None \<longrightarrow> j \<in> set (snd sa)"
        "\<forall>j. ss_allocator (fst sa) j \<noteq> None \<longrightarrow> j < length ?db"
      using ok by (simp_all add: allocators_ok_def)
    show ?thesis
      using old r act is_act by (auto simp: allocators_ok_def register_allocator_def allocator_ok_def less_SucI)
  qed
  then show ?thesis using ext r by (simp add: allocators_grow_def register_allocator_def)
qed

lemma nothing_allocator_grows:
  assumes "nothing_allocator act child sa = Inr sa'" and "is_action (ss_objects (fst sa)) act" "is_action (ss_objects (fst sa)) child"
  shows "allocators_grow sa sa'"
proof -
  obtain i s where new: "construct_allocator NothingAllocator (Some act) child (fst sa) = (i, s)"
    by (cases "construct_allocator NothingAllocator (Some act) child (fst sa)") simp
  then show ?thesis using register_new_grows [OF assms(2,3) new] assms(1) by (simp add: nothing_allocator_def)
qed

lemma chosen_allocator_grows:
  assumes "chosen_allocator act child sa = Inr sa'" and "is_action (ss_objects (fst sa)) act" "is_action (ss_objects (fst sa)) child"
  shows "allocators_grow sa sa'"
proof -
  obtain kind i s where new: "construct_allocator kind (Some act) child (fst sa) = (i, s)"
      and sa': "sa' = register_allocator act child i (s, snd sa)"
    using assms(1) by (auto simp: chosen_allocator_def chooseAllocator_def bindR_eq_Inr split: if_splits)
  then show ?thesis using register_new_grows [OF assms(2,3) new] by simp
qed

text \<open>Either the child gets an allocator and that is all, or the recursion goes on below it.\<close>

lemma allocate_child_cases:
  assumes "allocate_child rec act child sa = Inr sa'" and act: "is_action (ss_objects (fst sa)) act"
  shows "allocators_grow sa sa' \<or>
    (\<exists>u. allocators_grow sa u \<and> rec child u = Inr sa' \<and> is_action (ss_objects (fst u)) child \<and> is_action (ss_objects (fst sa)) child)"
proof (cases "is_action (ss_objects (fst sa)) child")
  case False
  then show ?thesis using assms(1) by (simp add: allocate_child_def)
next
  case True
  note grows = nothing_allocator_grows [OF _ act True] chosen_allocator_grows [OF _ act True]
  have below: ?thesis if b: "bindR (chosen_allocator act child sa) (rec child) = Inr sa'"
  proof -
    obtain u where u: "chosen_allocator act child sa = Inr u" "rec child u = Inr sa'" using b by (auto simp: bindR_eq_Inr)
    have "allocators_grow sa u" by (rule grows(2) [OF u(1)])
    moreover from this have "is_action (ss_objects (fst u)) child" using True by (simp add: allocators_grow_def extends_db_def)
    ultimately show ?thesis using u(2) True by blast
  qed
  obtain c where c: "context_class (ss_objects (fst sa)) child = Some c"
    using assms(1) True by (cases "context_class (ss_objects (fst sa)) child") (simp_all add: allocate_child_def)
  show ?thesis
  proof (cases c)
    case Event
    then have "nothing_allocator act child sa = Inr sa' \<or> chosen_allocator act child sa = Inr sa'"
      using assms(1) True c by (auto simp: allocate_child_def bindR_eq_Inr split: if_splits)
    then show ?thesis using grows by blast
  qed (use assms(1) True c grows below in \<open>auto simp: allocate_child_def\<close>)
qed

lemma constructAllocator_grows:
  "constructAllocator k act obj sa = Inr sa' \<Longrightarrow> is_action (ss_objects (fst sa)) act \<Longrightarrow> allocators_grow sa sa'"
proof (induction k arbitrary: act obj sa sa')
  case (Suc k)
  obtain s as where sa: "sa = (s, as)" by (cases sa)
  let ?o = "object_for (ss_objects s) act obj"
  let ?s = "update_action act (\<lambda>a. a\<lparr>ac_object := Some ?o\<rparr>) s"
  obtain e :: concrete_element where loop: "foldR (allocate_child (\<lambda>child. constructAllocator k child ?o) act) (ce_children e) (?s, as) = Inr sa'"
    using Suc.prems(1) unfolding sa by (auto simp: bindR_eq_Inr)
  have start: "allocators_grow sa (?s, as)"
    by (simp add: sa allocators_grow_def allocators_ok_def allocator_ok_def)
  have "allocators_grow sa sa'"
    using loop start
  proof (rule foldR_invariant [where P = "allocators_grow sa"])
    fix child t t' assume t: "allocators_grow sa t" and step: "allocate_child (\<lambda>child. constructAllocator k child ?o) act child t = Inr t'"
    have act: "is_action (ss_objects (fst t)) act" using t Suc.prems(2) by (simp add: allocators_grow_def extends_db_def)
    from allocate_child_cases [OF step act] show "allocators_grow sa t'"
      using Suc.IH allocators_grow_trans t by meson
  qed
  then show ?case .
qed simp

section \<open>The tree of actions is constructed without allocators\<close>

lemma steps_no_allocator:
  "update_node n f s = Inr s' \<Longrightarrow> ss_allocator s' = ss_allocator s"
  "update_element n g s = Inr s' \<Longrightarrow> ss_allocator s' = ss_allocator s"
  "calculateInstanceActionName a s = Inr s' \<Longrightarrow> ss_allocator s' = ss_allocator s"
  by (auto simp: update_node_def update_element_def calculateInstanceActionName_def Let_def bindR_eq_Inr
      split: option.splits if_splits)

lemma construct_no_allocator:
  "construct_child k act x s = Inr (c, s') \<Longrightarrow> ss_allocator s' = ss_allocator s"
  "construct_action act y s = Inr (c, s') \<Longrightarrow> ss_allocator s' = ss_allocator s"
  "construct_dimension act y s = Inr (c, s') \<Longrightarrow> ss_allocator s' = ss_allocator s"
  "record_action n d s = Inr s' \<Longrightarrow> ss_allocator s' = ss_allocator s"
  "record_dimension n d s = Inr s' \<Longrightarrow> ss_allocator s' = ss_allocator s"
proof -
  show 1: "construct_child k act x s = Inr (c, s') \<Longrightarrow> ss_allocator s' = ss_allocator s" for k act x s c s'
    by (auto simp: construct_child_def construct_def bindR_eq_Inr dest: steps_no_allocator)
  show "construct_action act y s = Inr (c, s') \<Longrightarrow> ss_allocator s' = ss_allocator s"
    by (auto simp: construct_action_def add_instance_def bindR_eq_Inr dest!: 1 steps_no_allocator)
  show "construct_dimension act y s = Inr (c, s') \<Longrightarrow> ss_allocator s' = ss_allocator s"
    by (auto simp: construct_dimension_def add_instance_def bindR_eq_Inr dest!: 1)
  show "record_action n d s = Inr s' \<Longrightarrow> ss_allocator s' = ss_allocator s"
    "record_dimension n d s = Inr s' \<Longrightarrow> ss_allocator s' = ss_allocator s"
    by (auto simp: record_action_def record_dimension_def dest: steps_no_allocator)
qed

lemma constructInheritanceTree_no_allocator:
  "constructInheritanceTree k act p ctx s = Inr (n, s') \<Longrightarrow> ss_allocator s' = ss_allocator s"
proof (induction k arbitrary: p ctx s n s')
  case (Suc k)
  obtain u where u: "constructInheritanceNode act p ctx s = Inr (n, u)"
    and loop: "(if inherits_bases (ss_objects u) ctx then
              foldR (\<lambda>b s.
                if is_Link (ss_objects s) b
                then Inl (RuntimeError ''Invalid use of link type in inheritance list'')
                else bindR (constructInheritanceTree k act (Some n) b s) (\<lambda>(m, s). Inr s))
                (getBaseContexts (ss_objects u) ctx) u
            else Inr u) = Inr s'"
    using Suc.prems(1) by (auto simp: bindR_eq_Inr)
  have 1: "ss_allocator u = ss_allocator s"
    using u by (auto simp: constructInheritanceNode_def construct_def bindR_eq_Inr dest!: steps_no_allocator split: option.splits)
  show ?case
  proof (cases "inherits_bases (ss_objects u) ctx")
    case False
    then show ?thesis using loop 1 by simp
  next
    case True
    then have "foldR (\<lambda>b s.
                if is_Link (ss_objects s) b
                then Inl (RuntimeError ''Invalid use of link type in inheritance list'')
                else bindR (constructInheritanceTree k act (Some n) b s) (\<lambda>(m, s). Inr s))
                (getBaseContexts (ss_objects u) ctx) u = Inr s'" using loop by simp
    then show ?thesis
      by (rule foldR_invariant [where P = "\<lambda>t. ss_allocator t = ss_allocator s"])
        (use 1 Suc.IH in \<open>auto simp: bindR_eq_Inr split: if_splits\<close>)
  qed
qed simp

lemma collate_no_allocator:
  "collate_object k r act n x co = Inr co' \<Longrightarrow> ss_allocator (co_session co') = ss_allocator (co_session co)"
  "collate_action act n x co = Inr co' \<Longrightarrow> ss_allocator (co_session co') = ss_allocator (co_session co)"
  "collate_dimension act n x co = Inr co' \<Longrightarrow> ss_allocator (co_session co') = ss_allocator (co_session co)"
  by (auto simp: collate_object_def collate_action_def collate_dimension_def bindR_eq_Inr
      dest!: construct_no_allocator split: if_splits option.splits)

lemma collateOverrides_no_allocator:
  "collateOverrides m k objects act n co = Inr co' \<Longrightarrow> ss_allocator (co_session co') = ss_allocator (co_session co)"
proof (induction k arbitrary: n co co')
  case (Suc k)
  obtain as ds ns co1 co2 co3 where steps: "collate_objects m act n objects co = Inr co1"
      "foldR (collate_action act n) as co1 = Inr co2" "foldR (collate_dimension act n) ds co2 = Inr co3"
      "foldR (collateOverrides m k objects act) ns co3 = Inr co'"
    using Suc.prems(1) by (auto simp: bindR_eq_Inr)
  let ?P = "\<lambda>c. ss_allocator (co_session c) = ss_allocator (co_session co)"
  have "?P co1"
  proof (cases "takes_objects (db_of co) act")
    case (Some r)
    then have "foldR (collate_object m r act n) objects co = Inr co1" using steps(1) by (simp add: collate_objects_def)
    then show ?thesis by (rule foldR_invariant [where P = ?P]) (simp_all add: collate_no_allocator)
  qed (use steps(1) in \<open>simp add: collate_objects_def\<close>)
  with steps(2) have "?P co2" by (rule foldR_invariant [where P = ?P]) (simp_all add: collate_no_allocator)
  with steps(3) have "?P co3" by (rule foldR_invariant [where P = ?P]) (simp_all add: collate_no_allocator)
  with steps(4) show ?case by (rule foldR_invariant [where P = ?P]) (simp_all add: Suc.IH)
qed simp

lemma constructInstance_no_allocator:
  "constructInstance m k objects act sc = Inr sc' \<Longrightarrow> ss_allocator (fst sc') = ss_allocator (fst sc)"
proof (induction k arbitrary: act sc sc')
  case (Suc k)
  obtain s constructed where sc: "sc = (s, constructed)" by (cases sc)
  obtain x n t co kids where tree: "constructInheritanceTree (Suc k) act None x s = Inr (n, t)"
    and over: "collateOverrides m (Suc k) objects act n
            \<lparr>co_session = update_action act (\<lambda>d. d\<lparr>ac_inheritance := Some n\<rparr>) t, co_actions = \<lambda>_. None,
             co_dimensions = \<lambda>_. None, co_constructed = constructed\<rparr> = Inr co"
    and loop: "foldR (\<lambda>c sc. if is_action (ss_objects (fst sc)) c then constructInstance m k objects c sc else Inr sc)
              kids (co_session co, co_constructed co) = Inr sc'"
    using Suc.prems(1) unfolding sc
    by (auto simp: bindR_eq_Inr split: option.splits simp del: constructInheritanceTree.simps collateOverrides.simps)
  have "ss_allocator (fst (co_session co, co_constructed co)) = ss_allocator (fst sc)"
    using collateOverrides_no_allocator [OF over] constructInheritanceTree_no_allocator [OF tree] sc by simp
  with loop show ?case
    by (rule foldR_invariant [where P = "\<lambda>u. ss_allocator (fst u) = ss_allocator (fst sc)"])
      (use Suc.IH in \<open>auto split: if_splits\<close>)
qed simp

lemma construct_instances_no_allocator:
  "construct_instances k s = Inr (a, s') \<Longrightarrow> ss_allocator s' = ss_allocator s"
proof -
  assume r: "construct_instances k s = Inr (a, s')"
  then obtain t os sc where root: "construct_root s = Inr (a, t)" and built: "constructInstance k k os a (t, {}) = Inr sc" and s': "s' = fst sc"
    by (auto simp: construct_instances_def bindR_eq_Inr Let_def split: option.splits)
  have "ss_allocator t = ss_allocator s"
    using root by (auto simp: construct_root_def bindR_eq_Inr construct_def add_instance_def dest!: steps_no_allocator)
  then show ?thesis using constructInstance_no_allocator [OF built] s' by simp
qed

section \<open>The whole analysis\<close>

lemma wf_inheritance_same:
  assumes "wf_inheritance db" and inh: "inheritance_at db' = inheritance_at db"
  shows "wf_inheritance db'"
  unfolding wf_inheritance_def
proof (intro allI impI)
  fix n assume "n < length db'"
  show "case db' ! n of
    InheritanceNode N \<Rightarrow>
      (case in_parent N of None \<Rightarrow> True
       | Some p \<Rightarrow> p < n \<and> (case inheritance_at db' p of None \<Rightarrow> False | Some P \<Rightarrow> n \<in> set (in_children P))) \<and>
      (\<forall>c \<in> set (in_children N). n < c \<and>
         (case inheritance_at db' c of None \<Rightarrow> False
          | Some C \<Rightarrow> in_parent C = Some n \<and> in_rootConcreteAction C = in_rootConcreteAction N))
  | _ \<Rightarrow> True"
  proof (cases "db' ! n")
    case (InheritanceNode N)
    then have "inheritance_at db n = Some N"
      using \<open>n < length db'\<close> inh inheritance_at_Some [of db' n N] by simp
    from wf_inheritance_at [OF assms(1) this] show ?thesis unfolding inh [symmetric] using InheritanceNode by simp
  qed simp_all
qed

lemma complete_extends:
  assumes "complete m objects db c" and ext: "extends_db db db'"
  shows "complete m objects db' c"
proof -
  have iface: "interface_at db' = interface_at db" and el: "element_of db' = element_of db"
    and lists: "child_actions db' = child_actions db" "child_dimensions db' = child_dimensions db"
    using ext by (simp_all add: extends_db_def)
  have acts: "action_elements db' c = action_elements db c" "dimension_elements db' c = dimension_elements db c"
    by (simp_all add: action_elements_def dimension_elements_def el lists)
  have taken: "taken_objects m db' objects c = taken_objects m db objects c"
    by (simp add: taken_objects_def takes_objects_def extends_db_context(1) [OF ext] iface objects_below_same [OF iface] split: option.split)
  obtain x cs where "element_of db c = Some x" "inheritance_order db x cs"
        "action_elements db c = map Some (taken_objects m db objects c @
          first_by (ident db) (concat (map (member_actions db) cs)) (ident db ` set (taken_objects m db objects c)))"
        "dimension_elements db c = map Some (first_by (ident db) (concat (map (member_dimensions db) cs)) {})"
    using assms(1) unfolding complete_def by blast
  then show ?thesis
    unfolding complete_def using el acts taken inheritance_order_same [OF _ iface] member_actions_same [OF iface]
      same_interface(4) [OF iface] by metis
qed

lemma dimensions_loop:
  assumes "foldR constructDimensions as s = Inr s'" and ok: "\<forall>i \<in> set as. allocator_ok s i"
  shows "extends_db (ss_objects s) (ss_objects s') \<and> ss_derivation s' = ss_derivation s \<and>
    (\<forall>i. generates_at s' i = generates_at s i) \<and> (\<forall>i. allocated_at s' i = allocated_at s i) \<and>
    (\<forall>i \<in> set as. generates_at s i \<longrightarrow> runtime_ok s' (allocated_at s i))"
proof -
  let ?P = "\<lambda>ys t. extends_db (ss_objects s) (ss_objects t) \<and> ss_derivation t = ss_derivation s \<and>
    (\<forall>i. generates_at t i = generates_at s i) \<and> (\<forall>i. allocated_at t i = allocated_at s i) \<and>
    (\<forall>i \<in> set ys. generates_at s i \<longrightarrow> runtime_ok t (allocated_at s i)) \<and> (\<forall>i \<in> set as. allocator_ok t i)"
  have "?P as s'"
    using assms(1)
  proof (rule foldR_prefix_invariant [where P = ?P])
    show "?P [] s" using ok by simp
    fix ys i zs t t' assume split: "as = ys @ i # zs" and inv: "?P ys t" and step: "constructDimensions i t = Inr t'"
    have "allocator_ok t i" using inv split by simp
    note e = constructDimensions_effect [OF step this]
    show "?P (ys @ [i]) t'"
      using inv e extends_db_trans [OF _ e(1)] by auto
  qed
  then show ?thesis by blast
qed

definition analysed :: "nat \<Rightarrow> idx \<Rightarrow> session \<Rightarrow> session \<Rightarrow> bool" where
  "analysed k a s s' \<longleftrightarrow>
     wf_concrete (ss_objects s') \<and> wf_inheritance (ss_objects s') \<and> interface_at (ss_objects s') = interface_at (ss_objects s) \<and>
     instances_ok s' \<and> is_action (ss_objects s') a \<and>
     (\<exists>r. element_of (ss_objects s') a = Some r \<and> interface_parent (ss_objects s) r = None \<and>
        (\<forall>c. is_action (ss_objects s') c \<longrightarrow> complete k (collate_all_objects (ss_objects s) r) (ss_objects s') c) \<and>
        (\<forall>x. plain_object (ss_objects s) x \<longrightarrow> x \<noteq> r \<longrightarrow> count_instances x s' = 1)) \<and>
     (\<forall>i. generates_at s' i \<longrightarrow> runtime_ok s' (allocated_at s' i))"

lemma instanceAnalysis_analysed:
  assumes "instanceAnalysis k s = Inr (a, s')" and only: "interface_only s"
  shows "analysed k a s s'"
proof -
  obtain t u as v da where t: "construct_instances k s = Inr (a, t)" and u: "constructAllocator k a a (t, []) = Inr (u, as)"
    and v: "foldR constructDimensions as u = Inr v"
    and da: "analyseCompatibility (ss_objects v) (many (is_context_at (ss_objects v)) (ss_objects v))
         (many (is_node_at (ss_objects v)) (ss_objects v)) (ss_derivation v) = Inr da"
    and s': "s' = v\<lparr>ss_derivation := da\<rparr>"
    using assms(1) by (auto simp: instanceAnalysis_def analyse_derivation_def bindR_eq_Inr)
  have none: "ss_allocator t i = None" for i
    using construct_instances_no_allocator [OF t] only by (simp add: interface_only_def)
  from t only show ?thesis
  proof (rule construct_instances_built)
    fix r
    assume r: "wf_trees (ss_objects t)" "instances_ok t" "interface_at (ss_objects t) = interface_at (ss_objects s)"
      "is_action (ss_objects t) a" "element_of (ss_objects t) a = Some r" "interface_parent (ss_objects s) r = None"
      "\<forall>c. is_action (ss_objects t) c \<longrightarrow> complete k (collate_all_objects (ss_objects s) r) (ss_objects t) c"
      "\<forall>x. plain_object (ss_objects s) x \<longrightarrow> x \<noteq> r \<longrightarrow> count_instances x t = 1"
    have "allocators_grow (t, []) (u, as)" using constructAllocator_grows [OF u] r(4) by simp
    then have gu: "extends_db (ss_objects t) (ss_objects u)" "ss_derivation u = ss_derivation t" "allocators_ok (u, as)"
      using none by (simp_all add: allocators_grow_def allocators_ok_def)
    have ok: "\<forall>i \<in> set as. allocator_ok u i" using gu(3) by (simp add: allocators_ok_def)
    note gv = dimensions_loop [OF v ok]
    have ext: "extends_db (ss_objects t) (ss_objects v)" using extends_db_trans gu(1) gv by blast
    have wfc: "wf_concrete (ss_objects v)" using ext wf_trees_concrete [OF r(1)] by (simp add: extends_db_def)
    have wfi: "wf_inheritance (ss_objects v)"
      using wf_inheritance_same [OF wf_trees_inheritance [OF r(1)]] ext by (simp add: extends_db_def)
    have "\<forall>n \<in> set (many (is_node_at (ss_objects v)) (ss_objects v)). inheritance_at (ss_objects v) n \<noteq> None"
      by (simp add: many_def is_node_at_def)
    from analyseCompatibility_entries [OF wfi this] da
    have im: "m_instanceMap da = m_instanceMap (ss_derivation t)" using gv gu(2) by auto
    have obj: "ss_objects s' = ss_objects v" and im': "instance_map s' = instance_map t"
      using s' im by (simp_all add: instance_map_def)
    have inst: "instances_ok s'" using r(2) ext by (simp add: instances_ok_def im' obj extends_db_def)
    have run: "runtime_ok s' (allocated_at s' i)" if "generates_at s' i" for i
    proof -
      have same: "generates_at s' i = generates_at v i" "allocated_at s' i = allocated_at v i" using s' by (simp_all add: generates_at_def allocated_at_def)
      then have g: "generates_at u i" using that gv by simp
      then have "i \<in> set as" using gu(3) by (auto simp: generates_at_def allocators_ok_def)
      then have "runtime_ok v (allocated_at u i)" using gv g by blast
      then show ?thesis using same gv s' by (simp add: runtime_ok_def)
    qed
    have comp: "complete k (collate_all_objects (ss_objects s) r) (ss_objects s') c" if "is_action (ss_objects s') c" for c
    proof -
      have "is_action (ss_objects t) c" using that ext obj by (simp add: extends_db_def)
      then show ?thesis using complete_extends [OF _ ext] r(7) obj by simp
    qed
    have facts: "interface_at (ss_objects s') = interface_at (ss_objects s)" "is_action (ss_objects s') a" "element_of (ss_objects s') a = Some r"
      using ext obj r(3-5) by (simp_all add: extends_db_def)
    have "\<forall>x. plain_object (ss_objects s) x \<longrightarrow> x \<noteq> r \<longrightarrow> count_instances x s' = 1"
      using r(8) by (simp add: count_instances_def im')
    then show ?thesis
      unfolding analysed_def using wfc wfi obj inst facts r(6) comp run by auto
  qed
qed

section \<open>The analysis ends\<close>

definition context_rank :: "(idx \<Rightarrow> nat) \<Rightarrow> database \<Rightarrow> idx \<Rightarrow> nat" where
  "context_rank rank db c = (case getContext db c of Some x \<Rightarrow> rank x | None \<Rightarrow> 0)"

definition falling :: "(idx \<Rightarrow> nat) \<Rightarrow> database \<Rightarrow> bool" where
  "falling rank db \<longleftrightarrow>
     (\<forall>c y. is_action db c \<longrightarrow> y \<in> set (child_actions db c) \<longrightarrow> context_rank rank db y < context_rank rank db c)"

lemma complete_falling:
  assumes wf: "wf_trees db" and rk: "ranked rank bound db" and comp: "\<And>c. is_action db c \<Longrightarrow> complete m objects db c"
    and plain: "\<And>y. y \<in> set objects \<Longrightarrow> plain_object db y"
  shows "falling rank db"
  unfolding falling_def
proof (intro allI impI)
  fix c y assume c: "is_action db c" and y: "y \<in> set (child_actions db c)"
  obtain x where x: "getContext db c = Some x" using wf_action_context [OF wf c] by blast
  have "is_action db y" using y by (simp add: child_actions_def)
  then obtain z where z: "getContext db y = Some z" using wf_action_context [OF wf] by blast
  then have el: "element_of db y = Some z" by (auto simp: getContext_element split: option.splits if_splits)
  have "rank z < rank x" by (rule complete_rank [OF comp [OF c] rk x y el plain])
  then show "context_rank rank db y < context_rank rank db c" using x z by (simp add: context_rank_def)
qed

lemma falling_extends:
  assumes "falling rank db" and "extends_db db db'"
  shows "falling rank db'"
proof -
  have "context_rank rank db' = context_rank rank db"
    by (simp add: fun_eq_iff context_rank_def extends_db_context(1) [OF assms(2)])
  then show ?thesis using assms by (simp add: falling_def extends_db_def)
qed

lemma allocator_steps_no_fuel:
  "nothing_allocator act child sa \<noteq> Inl OutOfFuel" "chosen_allocator act child sa \<noteq> Inl OutOfFuel"
  "hasUserDimensions db c \<noteq> Inl OutOfFuel"
proof -
  show "nothing_allocator act child sa \<noteq> Inl OutOfFuel" by (simp add: nothing_allocator_def split: prod.split)
  have gen: "allocator_generates db p c \<noteq> Inl OutOfFuel" for db p c
    by (auto simp: allocator_generates_def split: option.splits interface_class.splits elim: root_generates.elims)
  have size: "getLocalDomainSize db c \<noteq> Inl OutOfFuel" for db c
    by (simp add: getLocalDomainSize_def split: option.splits)
  show "chosen_allocator act child sa \<noteq> Inl OutOfFuel"
    using gen size by (auto simp: chosen_allocator_def chooseAllocator_def bindR_eq_Inl split: if_splits)
  have "hasUserDimensions_loop db xs \<noteq> Inl OutOfFuel" for xs
    by (induction xs) (auto simp: bindR_eq_Inl conc_def of_option_def split: option.splits concrete_class.splits)
  then show "hasUserDimensions db c \<noteq> Inl OutOfFuel"
    by (auto simp: hasUserDimensions_def bindR_eq_Inl conc_def of_option_def split: option.splits)
qed

lemma allocate_child_no_fuel:
  assumes "\<And>u. allocators_grow sa u \<Longrightarrow> is_action (ss_objects (fst u)) child \<Longrightarrow> rec child u \<noteq> Inl OutOfFuel"
    and act: "is_action (ss_objects (fst sa)) act"
  shows "allocate_child rec act child sa \<noteq> Inl OutOfFuel"
proof (cases "is_action (ss_objects (fst sa)) child")
  case False
  then show ?thesis by (simp add: allocate_child_def)
next
  case True
  have rec: "bindR (chosen_allocator act child sa) (rec child) \<noteq> Inl OutOfFuel"
  proof (cases "chosen_allocator act child sa")
    case (Inr u)
    then have "allocators_grow sa u" by (rule chosen_allocator_grows [OF _ act True])
    moreover from this have "is_action (ss_objects (fst u)) child" using True by (simp add: allocators_grow_def extends_db_def)
    ultimately show ?thesis using Inr assms(1) by simp
  qed (use allocator_steps_no_fuel(2) [of act child sa] in simp)
  show ?thesis
  proof (cases "context_class (ss_objects (fst sa)) child")
    case (Some c)
    then show ?thesis
      using True rec allocator_steps_no_fuel by (cases c) (simp_all add: allocate_child_def bindR_eq_Inl)
  qed (use True in \<open>simp add: allocate_child_def\<close>)
qed

lemma constructAllocator_no_fuel:
  assumes "falling rank (ss_objects (fst sa))" and "is_action (ss_objects (fst sa)) act"
    and "context_rank rank (ss_objects (fst sa)) act < k"
  shows "constructAllocator k act obj sa \<noteq> Inl OutOfFuel"
  using assms
proof (induction k arbitrary: act obj sa)
  case (Suc k)
  obtain s as where sa: "sa = (s, as)" by (cases sa)
  let ?o = "object_for (ss_objects s) act obj"
  let ?s = "update_action act (\<lambda>a. a\<lparr>ac_object := Some ?o\<rparr>) s"
  obtain e where e: "concrete_at (ss_objects s) act = Some e" using is_action_concrete Suc.prems(2) sa by fastforce
  have start: "allocators_grow sa (?s, as)"
    by (simp add: sa allocators_grow_def allocators_ok_def allocator_ok_def)
  let ?f = "allocate_child (\<lambda>child. constructAllocator k child ?o) act"
  have "foldR ?f (ce_children e) (?s, as) \<noteq> Inl OutOfFuel \<and>
      (\<forall>t. foldR ?f (ce_children e) (?s, as) = Inr t \<longrightarrow> allocators_grow sa t)"
  proof (rule foldR_ends [where P = "allocators_grow sa", OF start])
    fix child t assume child: "child \<in> set (ce_children e)" and t: "allocators_grow sa t"
    have act: "is_action (ss_objects (fst t)) act" using t Suc.prems(2) by (simp add: allocators_grow_def extends_db_def)
    have "?f child t \<noteq> Inl OutOfFuel"
    proof (rule allocate_child_no_fuel [OF _ act])
      fix u assume u: "allocators_grow t u" "is_action (ss_objects (fst u)) child"
      have ext: "extends_db (ss_objects (fst sa)) (ss_objects (fst u))"
        using allocators_grow_trans [OF t u(1)] by (simp add: allocators_grow_def)
      have "child \<in> set (child_actions (ss_objects (fst sa)) act)"
        using child e u(2) ext sa by (simp add: child_actions_def children_of_def extends_db_def)
      then have "context_rank rank (ss_objects (fst sa)) child < context_rank rank (ss_objects (fst sa)) act"
        using Suc.prems(1,2) by (simp add: falling_def)
      moreover have "context_rank rank (ss_objects (fst u)) child = context_rank rank (ss_objects (fst sa)) child"
        by (simp add: context_rank_def extends_db_context(1) [OF ext])
      ultimately have "context_rank rank (ss_objects (fst u)) child < k" using Suc.prems(3) by simp
      then show "constructAllocator k child ?o u \<noteq> Inl OutOfFuel"
        using Suc.IH [OF falling_extends [OF Suc.prems(1) ext] u(2)] by blast
    qed
    moreover have "allocators_grow sa t'" if "?f child t = Inr t'" for t'
      using allocate_child_cases [OF that act] constructAllocator_grows allocators_grow_trans t by meson
    ultimately show "?f child t \<noteq> Inl OutOfFuel \<and> (\<forall>t'. ?f child t = Inr t' \<longrightarrow> allocators_grow sa t')" by blast
  qed
  then show ?case using e sa by (simp add: conc_def)
qed simp

lemma constructDimensions_no_fuel: "constructDimensions i s \<noteq> Inl OutOfFuel"
proof -
  have gen: "construct_generated type c h s \<noteq> Inl OutOfFuel" for type c h s
    by (auto simp: construct_generated_def construct_def bindR_eq_Inl steps_no_fuel)
  have "constructRuntimeDimensions c s \<noteq> Inl OutOfFuel" for c s
    by (auto simp: constructRuntimeDimensions_def Let_def bindR_eq_Inl gen split: option.splits if_splits)
  then show ?thesis
    by (auto simp: constructDimensions_def bindR_eq_Inl gen split: option.splits allocator_kind.splits)
qed

lemma instanceAnalysis_no_fuel:
  assumes only: "interface_only s" and ranked: "ranked rank bound (ss_objects s)" and k: "bound < k"
  shows "instanceAnalysis k s \<noteq> Inl OutOfFuel"
proof (cases "construct_instances k s")
  case (Inl e)
  then show ?thesis using construct_instances_no_fuel [OF assms] by (simp add: instanceAnalysis_def)
next
  case (Inr at)
  then obtain a t where t: "construct_instances k s = Inr (a, t)" by (cases at) simp
  from t only show ?thesis
  proof (rule construct_instances_built)
    fix r
    assume r: "wf_trees (ss_objects t)" "interface_at (ss_objects t) = interface_at (ss_objects s)" "is_action (ss_objects t) a"
      "\<forall>c. is_action (ss_objects t) c \<longrightarrow> complete k (collate_all_objects (ss_objects s) r) (ss_objects t) c"
    have rk: "ranked rank bound (ss_objects t)" using ranked ranked_same [OF r(2)] by simp
    have plain: "plain_object (ss_objects t) y" if "y \<in> set (collate_all_objects (ss_objects s) r)" for y
      using that by (auto simp: collate_all_objects_def plain_object_def r(2) split: option.splits)
    have fall: "falling rank (ss_objects t)" by (rule complete_falling [OF r(1) rk _ plain]) (use r(4) in blast)
    have "context_rank rank (ss_objects t) a < k"
    proof -
      obtain x where "getContext (ss_objects t) a = Some x" using wf_action_context [OF r(1,3)] by blast
      then show ?thesis using ranked k by (simp add: context_rank_def ranked_def) (meson less_trans)
    qed
    then have alloc: "constructAllocator k a a (t, []) \<noteq> Inl OutOfFuel"
      by (intro constructAllocator_no_fuel [where rank = rank]) (use fall r(3) in simp_all)
    have dims: "foldR constructDimensions as u \<noteq> Inl OutOfFuel" for as u
      using foldR_ends [of "\<lambda>_. True" u as constructDimensions] constructDimensions_no_fuel by blast
    have ana: "analyse_derivation v \<noteq> Inl OutOfFuel"
      if u: "constructAllocator k a a (t, []) = Inr (u, as)" and v: "foldR constructDimensions as u = Inr v" for u as v
    proof -
      have none: "ss_allocator t i = None" for i
        using construct_instances_no_allocator [OF t] only by (simp add: interface_only_def)
      have "allocators_grow (t, []) (u, as)" using constructAllocator_grows [OF u] r(3) by simp
      then have gu: "extends_db (ss_objects t) (ss_objects u)" "allocators_ok (u, as)"
        using none by (simp_all add: allocators_grow_def allocators_ok_def)
      have "\<forall>i \<in> set as. allocator_ok u i" using gu(2) by (simp add: allocators_ok_def)
      then have "extends_db (ss_objects t) (ss_objects v)" using dimensions_loop [OF v] extends_db_trans gu(1) by blast
      then have wfi: "wf_inheritance (ss_objects v)"
        using wf_inheritance_same [OF wf_trees_inheritance [OF r(1)]] by (simp add: extends_db_def)
      have "\<forall>n \<in> set (many (is_node_at (ss_objects v)) (ss_objects v)). inheritance_at (ss_objects v) n \<noteq> None"
        by (simp add: many_def is_node_at_def)
      from analyseCompatibility_entries [OF wfi this] show ?thesis by (simp add: analyse_derivation_def)
    qed
    show ?thesis
      using t alloc dims ana by (auto simp: instanceAnalysis_def bindR_eq_Inl)
  qed
qed

end
