(* ===== verification/InstanceReturns.thy ===== *)
theory InstanceReturns
  imports InstanceAnalysis
begin

text \<open>
  Once the tree of actions is built, the rest of the instance analysis cannot fail: every action has a
  context and a domain size, so it gets its allocator, and every allocator finds the actions whose
  dimensions it constructs.
\<close>

section \<open>Steps on a database that does not change\<close>

definition same_concrete :: "session \<times> idx list \<Rightarrow> session \<times> idx list \<Rightarrow> bool" where
  "same_concrete sa sa' \<longleftrightarrow>
     concrete_at (ss_objects (fst sa')) = concrete_at (ss_objects (fst sa)) \<and>
     interface_at (ss_objects (fst sa')) = interface_at (ss_objects (fst sa))"

lemma same_concrete_refl [simp]: "same_concrete sa sa"
  by (simp add: same_concrete_def)

lemma same_concrete_trans: "same_concrete a b \<Longrightarrow> same_concrete b c \<Longrightarrow> same_concrete a c"
  by (simp add: same_concrete_def)

lemma same_concrete_queries:
  assumes "same_concrete sa sa'"
  shows "is_action (ss_objects (fst sa')) = is_action (ss_objects (fst sa))"
    "context_class (ss_objects (fst sa')) = context_class (ss_objects (fst sa))"
    "getLocalDomainSize (ss_objects (fst sa')) = getLocalDomainSize (ss_objects (fst sa))"
    "context_rank rank (ss_objects (fst sa')) = context_rank rank (ss_objects (fst sa))"
proof -
  have conc: "concrete_at (ss_objects (fst sa')) = concrete_at (ss_objects (fst sa))"
    and iface: "interface_at (ss_objects (fst sa')) = interface_at (ss_objects (fst sa))"
    using assms by (simp_all add: same_concrete_def)
  note ctx = same_interface(1) [OF iface]
  have get: "getContext (ss_objects (fst sa')) = getContext (ss_objects (fst sa))"
    by (simp add: fun_eq_iff getContext_def conc ctx split: option.split)
  show "is_action (ss_objects (fst sa')) = is_action (ss_objects (fst sa))" by (simp add: fun_eq_iff is_action_def conc)
  show "context_class (ss_objects (fst sa')) = context_class (ss_objects (fst sa))"
    by (simp add: fun_eq_iff context_class_def get ctx split: option.split)
  show "getLocalDomainSize (ss_objects (fst sa')) = getLocalDomainSize (ss_objects (fst sa))"
    by (simp add: fun_eq_iff getLocalDomainSize_def get ctx split: option.split)
  show "context_rank rank (ss_objects (fst sa')) = context_rank rank (ss_objects (fst sa))"
    by (simp add: fun_eq_iff context_rank_def get)
qed

lemma register_same_concrete:
  assumes "construct_allocator kind p child (fst sa) = (i, s)"
  shows "same_concrete sa (register_allocator act child i (s, snd sa))"
  using assms by (auto simp: construct_allocator_def construct_def same_concrete_def register_allocator_def)

text \<open>What the allocation relies on.\<close>

definition allocatable :: "(idx \<Rightarrow> nat) \<Rightarrow> database \<Rightarrow> bool" where
  "allocatable rank db \<longleftrightarrow>
     (\<forall>c e. concrete_at db c = Some e \<longrightarrow> (\<forall>y \<in> set (ce_children e). concrete_at db y \<noteq> None)) \<and>
     (\<forall>c. is_action db c \<longrightarrow> (\<exists>l. getLocalDomainSize db c = Inr l) \<and>
        (\<exists>k. context_class db c = Some k \<and> is_Context k \<and> k \<noteq> Root TOTAL_ROOT_TYPES)) \<and>
     falling rank db"

lemma chosen_allocator_returns:
  assumes ok: "allocatable rank (ss_objects (fst sa))" and act: "is_action (ss_objects (fst sa)) act"
    and child: "is_action (ss_objects (fst sa)) child"
  shows "\<exists>sa'. chosen_allocator act child sa = Inr sa' \<and> same_concrete sa sa'"
proof -
  let ?db = "ss_objects (fst sa)"
  obtain l where l: "getLocalDomainSize ?db child = Inr l" using ok child unfolding allocatable_def by blast
  obtain k m where k: "context_class ?db child = Some k" "k \<noteq> Root TOTAL_ROOT_TYPES"
      and m: "context_class ?db act = Some m" "m \<noteq> Root TOTAL_ROOT_TYPES"
    using ok act child unfolding allocatable_def by meson
  have root: "\<exists>b. root_generates t = Inr b" if "t \<noteq> TOTAL_ROOT_TYPES" for t using that by (cases t) auto
  have "\<exists>b. allocator_generates ?db (Some act) child = Inr b"
  proof (cases "\<exists>t. k = Root t")
    case True
    then obtain t where t: "k = Root t" ..
    then show ?thesis using k root [of t] by (auto simp: allocator_generates_def)
  next
    case no: False
    then have "allocator_generates ?db (Some act) child =
        (case context_class ?db act of Some (Root t) \<Rightarrow> root_generates t | _ \<Rightarrow> Inr True)"
      using k by (cases k) (simp_all add: allocator_generates_def)
    moreover have "\<exists>b. (case Some m of Some (Root t) \<Rightarrow> root_generates t | _ \<Rightarrow> Inr True) = Inr b"
      using m(2) root by (cases m) auto
    ultimately show ?thesis using m(1) by simp
  qed
  then obtain b where b: "allocator_generates ?db (Some act) child = Inr b" ..
  obtain kind where "chooseAllocator (Some act) child (fst sa) = Inr (construct_allocator kind (Some act) child (fst sa))"
    using b l by (cases b; cases "l = 1") (auto simp: chooseAllocator_def)
  moreover obtain i s where new: "construct_allocator kind (Some act) child (fst sa) = (i, s)"
    by (cases "construct_allocator kind (Some act) child (fst sa)") simp
  ultimately show ?thesis using register_same_concrete [OF new] by (simp add: chosen_allocator_def)
qed

lemma nothing_allocator_returns: "\<exists>sa'. nothing_allocator act child sa = Inr sa' \<and> same_concrete sa sa'"
proof -
  obtain i s where new: "construct_allocator NothingAllocator (Some act) child (fst sa) = (i, s)"
    by (cases "construct_allocator NothingAllocator (Some act) child (fst sa)") simp
  then show ?thesis using register_same_concrete [OF new] by (simp add: nothing_allocator_def)
qed

lemma hasUserDimensions_returns:
  assumes ok: "allocatable rank db" and c: "is_action db c"
  shows "\<exists>b. hasUserDimensions db c = Inr b"
proof -
  have "\<exists>b. hasUserDimensions_loop db xs = Inr b" if "\<forall>y \<in> set xs. concrete_at db y \<noteq> None" for xs
    using that
  proof (induction xs)
    case (Cons x xs)
    then obtain e where "concrete_at db x = Some e" by auto
    then show ?case using Cons by (cases "ce_class e") (auto simp: conc_def)
  qed auto
  moreover obtain e where "concrete_at db c = Some e" using is_action_concrete [OF c] by blast
  ultimately show ?thesis using ok unfolding allocatable_def by (simp add: hasUserDimensions_def conc_def)
qed

lemma allocate_child_returns:
  assumes ok: "allocatable rank (ss_objects (fst sa))" and act: "is_action (ss_objects (fst sa)) act"
    and rec: "\<And>u. same_concrete sa u \<Longrightarrow> is_action (ss_objects (fst sa)) child \<Longrightarrow> \<exists>u'. rec child u = Inr u' \<and> same_concrete u u'"
  shows "\<exists>sa'. allocate_child rec act child sa = Inr sa' \<and> same_concrete sa sa'"
proof (cases "is_action (ss_objects (fst sa)) child")
  case False
  then show ?thesis by (simp add: allocate_child_def)
next
  case True
  obtain k where k: "context_class (ss_objects (fst sa)) child = Some k" "is_Context k" "k \<noteq> Root TOTAL_ROOT_TYPES"
    using ok True unfolding allocatable_def by blast
  note idle = nothing_allocator_returns [of act child sa]
  note chosen = chosen_allocator_returns [OF ok act True]
  have below: "\<exists>sa'. bindR (chosen_allocator act child sa) (rec child) = Inr sa' \<and> same_concrete sa sa'"
    using chosen rec True same_concrete_trans by (metis bindR_Inr)
  obtain b where b: "hasUserDimensions (ss_objects (fst sa)) child = Inr b" using hasUserDimensions_returns [OF ok True] by blast
  show ?thesis
  proof (cases k)
    case Event
    then have "allocate_child rec act child sa = (if b then nothing_allocator act child sa else chosen_allocator act child sa)"
      using True k b by (simp add: allocate_child_def)
    then show ?thesis using idle chosen by presburger
  qed (use True k idle below in \<open>simp_all add: allocate_child_def\<close>)
qed

lemma allocatable_same: "allocatable rank (ss_objects (fst sa)) \<Longrightarrow> same_concrete sa u \<Longrightarrow> allocatable rank (ss_objects (fst u))"
  unfolding allocatable_def falling_def using same_concrete_queries(1-3) [of sa u] same_concrete_queries(4) [of sa u rank]
  by (simp add: same_concrete_def child_actions_def children_of_def)

lemma constructAllocator_returns:
  assumes "allocatable rank (ss_objects (fst sa))" and "is_action (ss_objects (fst sa)) act"
    and "context_rank rank (ss_objects (fst sa)) act < k"
  shows "\<exists>sa'. constructAllocator k act obj sa = Inr sa' \<and> same_concrete sa sa'"
  using assms
proof (induction k arbitrary: act obj sa)
  case (Suc k)
  obtain s as where sa: "sa = (s, as)" by (cases sa)
  let ?o = "object_for (ss_objects s) act obj"
  let ?s = "update_action act (\<lambda>a. a\<lparr>ac_object := Some ?o\<rparr>) s"
  obtain e where e: "concrete_at (ss_objects s) act = Some e" using is_action_concrete Suc.prems(2) sa by fastforce
  let ?f = "allocate_child (\<lambda>child. constructAllocator k child ?o) act"
  have "\<exists>t. foldR ?f (ce_children e) (?s, as) = Inr t \<and> same_concrete sa t"
  proof (rule foldR_total [where P = "same_concrete sa"])
    show "same_concrete sa (?s, as)" by (simp add: sa same_concrete_def)
    fix child t assume child: "child \<in> set (ce_children e)" and t: "same_concrete sa t"
    note q = same_concrete_queries [OF t]
    have "\<exists>t'. ?f child t = Inr t' \<and> same_concrete t t'"
    proof (rule allocate_child_returns [OF allocatable_same [OF Suc.prems(1) t]])
      show "is_action (ss_objects (fst t)) act" using Suc.prems(2) q by simp
      fix u assume u: "same_concrete t u" "is_action (ss_objects (fst t)) child"
      have "child \<in> set (child_actions (ss_objects (fst sa)) act)"
        using child e u(2) q sa by (simp add: child_actions_def children_of_def)
      then have "context_rank rank (ss_objects (fst sa)) child < k"
        using Suc.prems unfolding allocatable_def falling_def by (meson less_le_trans less_Suc_eq_le)
      then show "\<exists>u'. constructAllocator k child ?o u = Inr u' \<and> same_concrete u u'"
        using Suc.IH [OF allocatable_same [OF Suc.prems(1) same_concrete_trans [OF t u(1)]]] u(2)
          same_concrete_queries(4) [OF same_concrete_trans [OF t u(1)], of rank]
          same_concrete_queries(1) [OF u(1)] by simp
    qed
    then show "\<exists>t'. ?f child t = Inr t' \<and> same_concrete sa t'" using same_concrete_trans [OF t] by blast
  qed
  then show ?case using e sa by (simp add: conc_def)
qed simp

section \<open>The dimensions\<close>

lemma construct_generated_returns:
  assumes "is_action (ss_objects s) h"
  shows "\<exists>d s'. construct_generated type c h s = Inr (d, s')"
proof -
  obtain e where "concrete_at (ss_objects s) h = Some e" using is_action_concrete [OF assms] by blast
  then have "concrete_at (ss_objects s @ [ConcreteElement \<lparr>ce_class = Dimension_Generated type (Some c) None,
         ce_parent = Some c, ce_element = None, ce_children = []\<rparr>]) h = Some e" by (auto dest: concrete_at_less)
  then show ?thesis by (simp add: construct_generated_def construct_def update_element_def conc_def del: at_append)
qed

lemma constructRuntimeDimensions_returns:
  assumes c: "is_action (ss_objects s) c"
  shows "\<exists>s'. constructRuntimeDimensions c s = Inr s'"
proof -
  have keep: "is_action (ss_objects v) c" if "construct_generated type c c u = Inr (d, v)" "is_action (ss_objects u) c" for type u d v
    using construct_generated_effect(1) [OF that(1) that(2) that(2)] that(2) by (simp add: extends_db_def)
  obtain p s1 where 1: "construct_generated eActionStopCycle c c s = Inr (p, s1)" using construct_generated_returns [OF c] by blast
  let ?s1 = "update_action c (\<lambda>a. a\<lparr>ac_stopCycle := Some p\<rparr>) s1"
  have c1: "is_action (ss_objects ?s1) c" using keep [OF 1 c] by simp
  obtain r s2 where 2: "construct_generated eActionReference c c ?s1 = Inr (r, s2)" using construct_generated_returns [OF c1] by blast
  let ?s2 = "update_action c (\<lambda>a. a\<lparr>ac_reference := Some r\<rparr>) s2"
  have c2: "is_action (ss_objects ?s2) c" using keep [OF 2 c1] by simp
  obtain t s3 where 3: "construct_generated eActionState c c ?s2 = Inr (t, s3)" using construct_generated_returns [OF c2] by blast
  let ?s3 = "update_action c (\<lambda>a. a\<lparr>ac_state := Some t\<rparr>) s3"
  have c3: "is_action (ss_objects ?s3) c" using keep [OF 3 c2] by simp
  obtain d s4 where 4: "construct_generated eLinkReferenceCount c c ?s3 = Inr (d, s4)" using construct_generated_returns [OF c3] by blast
  show ?thesis
    using 1 2 3 4 by (cases "context_class (ss_objects s3) c") (simp_all add: constructRuntimeDimensions_def Let_def)
qed

lemma constructDimensions_returns:
  assumes "allocator_ok s i"
  shows "\<exists>s'. constructDimensions i s = Inr s'"
proof -
  obtain al p where al: "ss_allocator s i = Some al" "al_allocating al = Some p" "is_action (ss_objects s) p"
      "is_action (ss_objects s) (al_allocated al)"
    using assms unfolding allocator_ok_def by blast
  obtain u where u: "constructRuntimeDimensions (al_allocated al) s = Inr u" using constructRuntimeDimensions_returns [OF al(4)] by blast
  have "is_action (ss_objects u) p" using constructRuntimeDimensions_effect(1) [OF u al(4)] al(3) by (simp add: extends_db_def)
  then obtain d v where "construct_generated eActionAllocator (al_allocated al) p u = Inr (d, v)"
    using construct_generated_returns by blast
  then show ?thesis using al u by (cases "al_kind al") (simp_all add: constructDimensions_def)
qed

section \<open>The rest of the analysis\<close>

definition root_types_ok :: "database \<Rightarrow> bool" where
  "root_types_ok db \<longleftrightarrow> (\<forall>i e. interface_at db i = Some e \<longrightarrow> if_class e \<noteq> Root TOTAL_ROOT_TYPES)"

lemma built_allocatable:
  assumes wf: "wf_trees db" and fall: "falling rank db" and roots: "root_types_ok db"
  shows "allocatable rank db"
proof -
  have "concrete_at db y \<noteq> None" if "concrete_at db c = Some e" "y \<in> set (ce_children e)" for c e y
    using wf that unfolding wf_trees_def parents_ok_def by (fastforce simp: parent_of_def split: option.splits)
  moreover have "\<exists>l. getLocalDomainSize db c = Inr l" if "is_action db c" for c
  proof -
    obtain e where "concrete_at db c = Some e" "ce_class e = ConcreteAction"
      using \<open>is_action db c\<close> by (auto simp: is_action_def split: option.splits)
    then show ?thesis using wf_trees_concrete [OF wf] unfolding wf_concrete_iff by blast
  qed
  moreover have "\<exists>k. context_class db c = Some k \<and> is_Context k \<and> k \<noteq> Root TOTAL_ROOT_TYPES" if c: "is_action db c" for c
  proof -
    obtain x where x: "getContext db c = Some x" using wf_action_context [OF wf c] by blast
    then have "context_at db x \<noteq> None" by (auto simp: getContext_element split: option.splits if_splits)
    then obtain e where "context_at db x = Some e" "interface_at db x = Some e" "is_Context (if_class e)"
      by (auto simp: context_at_def split: option.splits if_splits)
    then show ?thesis using x roots by (simp add: context_class_def root_types_ok_def)
  qed
  ultimately show ?thesis using fall unfolding allocatable_def by blast
qed

lemma dimensions_return:
  assumes "\<forall>i \<in> set as. allocator_ok s i"
  shows "\<exists>s'. foldR constructDimensions as s = Inr s'"
proof -
  have "\<exists>s'. foldR constructDimensions as s = Inr s' \<and> (\<forall>i \<in> set as. allocator_ok s' i)"
  proof (rule foldR_total [where P = "\<lambda>s. \<forall>i \<in> set as. allocator_ok s i"])
    fix i t assume i: "i \<in> set as" and t: "\<forall>i \<in> set as. allocator_ok t i"
    then obtain t' where t': "constructDimensions i t = Inr t'" using constructDimensions_returns by blast
    then show "\<exists>t'. constructDimensions i t = Inr t' \<and> (\<forall>i \<in> set as. allocator_ok t' i)"
      using constructDimensions_effect(3) [OF t'] i t by blast
  qed (rule assms)
  then show ?thesis by blast
qed

lemma instanceAnalysis_returns_if:
  assumes t: "construct_instances k s = Inr (a, t)" and only: "interface_only s" and ranked: "ranked rank bound (ss_objects s)"
    and k: "bound < k" and roots: "root_types_ok (ss_objects s)"
  shows "\<exists>s'. instanceAnalysis k s = Inr (a, s')"
  using t only
proof (rule construct_instances_built)
  fix r
  assume r: "wf_trees (ss_objects t)" "interface_at (ss_objects t) = interface_at (ss_objects s)" "is_action (ss_objects t) a"
    "\<forall>c. is_action (ss_objects t) c \<longrightarrow> complete k (collate_all_objects (ss_objects s) r) (ss_objects t) c"
  have rk: "ranked rank bound (ss_objects t)" using ranked ranked_same [OF r(2)] by simp
  have plain: "plain_object (ss_objects t) y" if "y \<in> set (collate_all_objects (ss_objects s) r)" for y
    using that by (auto simp: collate_all_objects_def plain_object_def r(2) split: option.splits)
  have fall: "falling rank (ss_objects t)" by (rule complete_falling [OF r(1) rk _ plain]) (use r(4) in blast)
  have ok: "allocatable rank (ss_objects t)"
    by (rule built_allocatable [OF r(1) fall]) (use roots r(2) in \<open>simp add: root_types_ok_def\<close>)
  obtain x where "getContext (ss_objects t) a = Some x" using wf_action_context [OF r(1,3)] by blast
  then have "context_rank rank (ss_objects t) a < bound" using ranked by (simp add: context_rank_def ranked_def)
  then obtain u as where u: "constructAllocator k a a (t, []) = Inr (u, as)"
    using constructAllocator_returns [of rank "(t, [])" a k a] ok r(3) k by auto
  have none: "ss_allocator t i = None" for i
    using construct_instances_no_allocator [OF t] only by (simp add: interface_only_def)
  have "allocators_grow (t, []) (u, as)" using constructAllocator_grows [OF u] r(3) by simp
  then have gu: "extends_db (ss_objects t) (ss_objects u)" "allocators_ok (u, as)"
    using none by (simp_all add: allocators_grow_def allocators_ok_def)
  have al: "\<forall>i \<in> set as. allocator_ok u i" using gu(2) by (simp add: allocators_ok_def)
  then obtain v where v: "foldR constructDimensions as u = Inr v" using dimensions_return by blast
  have "extends_db (ss_objects t) (ss_objects v)" using dimensions_loop [OF v al] extends_db_trans gu(1) by blast
  then have wfi: "wf_inheritance (ss_objects v)"
    using wf_inheritance_same [OF wf_trees_inheritance [OF r(1)]] by (simp add: extends_db_def)
  have "\<forall>n \<in> set (many (is_node_at (ss_objects v)) (ss_objects v)). inheritance_at (ss_objects v) n \<noteq> None"
    by (simp add: many_def is_node_at_def)
  from analyseCompatibility_entries [OF wfi this] show ?thesis
    using t u v by (simp add: instanceAnalysis_def analyse_derivation_def)
qed

end
