(* ===== verification/InstanceProperties.thy ===== *)
theory InstanceProperties
  imports InstanceReturns
begin

text \<open>
  The properties of the instance analysis, with a small interface on which they are evaluated: a file
  with an object that inherits an abstract context and overrides one of its two members.
\<close>

section \<open>A small interface\<close>

definition sample_context :: "interface_class \<Rightarrow> string \<Rightarrow> idx option \<Rightarrow> idx list \<Rightarrow> idx list \<Rightarrow> nat \<Rightarrow> indexed_object" where
  "sample_context cls name parent children bases n = InterfaceElement \<lparr>if_class = cls, if_identifier = name,
     if_parent = parent, if_children = children, if_baseContexts = bases, if_size = n, if_contextTypes = [],
     if_canonicalType = []\<rparr>"

definition sample_interface :: database where
  "sample_interface =
    [sample_context (Root eMegaRoot) ''root'' None [1] [] 1,
     sample_context (Root eFileRoot) ''file'' (Some 0) [2, 3] [] 1,
     sample_context Abstract ''Base'' (Some 1) [5, 6] [] 1,
     sample_context Object ''Thing'' (Some 1) [4] [2] 100,
     sample_context Action ''run'' (Some 3) [] [] 1,
     sample_context Action ''run'' (Some 2) [] [] 1,
     sample_context Dimension ''x'' (Some 2) [] [] 0]"

definition sample_session :: session where
  "sample_session = \<lparr>ss_objects = sample_interface, ss_derivation = no_analysis, ss_action = \<lambda>_. new_action_data,
     ss_allocator = \<lambda>_. None\<rparr>"

definition sample_result :: session where
  "sample_result = snd (projr (instanceAnalysis 6 sample_session))"

lemma sample_instances: "\<not> isl (construct_instances 6 sample_session)"
  by code_simp

lemma sample_at:
  "interface_at sample_interface i = Some e \<longleftrightarrow> i < 7 \<and> sample_interface ! i = InterfaceElement e"
  "concrete_at sample_interface i = None" "inheritance_at sample_interface i = None"
proof -
  have len: "length sample_interface = 7" by (simp add: sample_interface_def)
  have el: "\<exists>e. sample_interface ! i = InterfaceElement e" if "i < 7" for i
  proof -
    have "\<forall>x \<in> set sample_interface. \<exists>e. x = InterfaceElement e" by (simp add: sample_interface_def sample_context_def)
    then show ?thesis using that len by (metis nth_mem)
  qed
  show "interface_at sample_interface i = Some e \<longleftrightarrow> i < 7 \<and> sample_interface ! i = InterfaceElement e"
    using el [of i] len by (auto simp: interface_at_def nth_opt_def)
  show "concrete_at sample_interface i = None" "inheritance_at sample_interface i = None"
    using el [of i] len by (auto simp: concrete_at_def inheritance_at_def nth_opt_def)
qed

text \<open>Conditions on every interface element are checked index by index.\<close>

lemma interface_all:
  "(\<forall>i e. interface_at db i = Some e \<longrightarrow> P i e) \<longleftrightarrow>
     list_all (\<lambda>i. case interface_at db i of Some e \<Rightarrow> P i e | None \<Rightarrow> True) [0..<length db]"
proof -
  have "i < length db" if "interface_at db i = Some e" for i e
    using that by (auto simp: interface_at_def nth_opt_def split: if_splits)
  then have "(\<forall>i e. interface_at db i = Some e \<longrightarrow> P i e) = (\<forall>i < length db. \<forall>e. interface_at db i = Some e \<longrightarrow> P i e)"
    by blast
  also have "\<dots> \<longleftrightarrow> list_all (\<lambda>i. case interface_at db i of Some e \<Rightarrow> P i e | None \<Rightarrow> True) [0..<length db]"
    by (auto simp: list_all_iff split: option.split)
  finally show ?thesis .
qed

definition interface_ok :: "database \<Rightarrow> bool" where
  "interface_ok db \<longleftrightarrow>
     list_all (\<lambda>i. case interface_at db i of
         Some e \<Rightarrow> (is_Context (if_class e) \<longrightarrow> 0 < int_of_size_t (if_size e)) \<and>
           list_all (\<lambda>b. context_at db b \<noteq> None) (if_baseContexts e) \<and> if_class e \<noteq> Root TOTAL_ROOT_TYPES
       | None \<Rightarrow> True) [0..<length db]"

lemma interface_ok_sizes:
  assumes "interface_ok db" shows "sizes_ok db" "root_types_ok db"
proof -
  have *: "\<forall>i e. interface_at db i = Some e \<longrightarrow>
      (is_Context (if_class e) \<longrightarrow> 0 < int_of_size_t (if_size e)) \<and>
      list_all (\<lambda>b. context_at db b \<noteq> None) (if_baseContexts e) \<and> if_class e \<noteq> Root TOTAL_ROOT_TYPES"
    unfolding interface_all using assms by (simp add: interface_ok_def)
  then show "root_types_ok db" by (simp add: root_types_ok_def)
  have "0 < int_of_size_t (if_size e)" if "context_at db i = Some e" for i e
    using * that by (auto simp: context_at_def split: option.splits if_splits)
  moreover have "context_at db b \<noteq> None" if "b \<in> set (getBaseContexts db i)" for b i
    using * that by (cases "interface_at db i") (auto simp: getBaseContexts_def list_all_iff)
  ultimately show "sizes_ok db" by (simp add: sizes_ok_def)
qed

definition sample_rank :: "idx \<Rightarrow> nat" where
  "sample_rank i = (if i = 0 then 4 else if i = 1 then 3 else if i = 2 then 1 else if i = 3 then 2 else 0)"

lemma sample_interface_only: "interface_only sample_session"
proof -
  have "interface_ok sample_interface" by code_simp
  then show ?thesis
    using interface_ok_sizes(1) sample_at(2,3)
    by (simp add: interface_only_def sample_session_def instance_map_def no_analysis_def)
qed

lemma sample_ranked: "ranked sample_rank 5 sample_interface"
proof -
  have "list_all (\<lambda>i. case interface_at sample_interface i of
      Some e \<Rightarrow> list_all (\<lambda>x. sample_rank x < sample_rank i) (if_children e @ if_baseContexts e) \<and>
        (case if_parent e of Some p \<Rightarrow> sample_rank i < sample_rank p | None \<Rightarrow> True)
    | None \<Rightarrow> True) [0..<length sample_interface]"
    by code_simp
  then have "\<forall>c e. interface_at sample_interface c = Some e \<longrightarrow>
      list_all (\<lambda>x. sample_rank x < sample_rank c) (if_children e @ if_baseContexts e) \<and>
      (case if_parent e of Some p \<Rightarrow> sample_rank c < sample_rank p | None \<Rightarrow> True)"
    unfolding interface_all .
  moreover have "sample_rank i < 5" for i by (simp add: sample_rank_def)
  ultimately show ?thesis unfolding ranked_def list_all_iff by fastforce
qed

lemma sample_root_types: "root_types_ok (ss_objects sample_session)"
proof -
  have "interface_ok sample_interface" by code_simp
  then show ?thesis using interface_ok_sizes(2) by (simp add: sample_session_def)
qed

lemma sample_returns: "\<exists>a. instanceAnalysis 6 sample_session = Inr (a, sample_result)"
proof -
  obtain at where "construct_instances 6 sample_session = Inr at"
    using sample_instances by (cases "construct_instances 6 sample_session") simp_all
  then obtain a t where t: "construct_instances 6 sample_session = Inr (a, t)" by (cases at) simp
  have "\<exists>s'. instanceAnalysis 6 sample_session = Inr (a, s')"
    by (rule instanceAnalysis_returns_if [OF t sample_interface_only, of sample_rank 5])
      (use sample_ranked sample_root_types in \<open>simp_all add: sample_session_def\<close>)
  then show ?thesis by (auto simp: sample_result_def)
qed

text \<open>The allocators that generate are those that \<open>constructAllocator\<close> left behind.\<close>

lemma instanceAnalysis_generates:
  assumes "instanceAnalysis k s = Inr (a, s')" and "interface_only s"
    and t: "construct_instances k s = Inr (a0, t)" and u: "constructAllocator k a0 a0 (t, []) = Inr (u, as)"
  shows "generates_at s' i = generates_at u i"
proof -
  obtain v da where v: "foldR constructDimensions as u = Inr v" and s': "s' = v\<lparr>ss_derivation := da\<rparr>"
    using assms(1) t u by (auto simp: instanceAnalysis_def analyse_derivation_def bindR_eq_Inr)
  have none: "ss_allocator t i = None" for i
    using construct_instances_no_allocator [OF t] assms(2) by (simp add: interface_only_def)
  from t assms(2) have "is_action (ss_objects t) a0" by (rule construct_instances_built)
  then have "allocators_grow (t, []) (u, as)" using constructAllocator_grows [OF u] by simp
  then have "\<forall>i \<in> set as. allocator_ok u i"
    using none by (simp add: allocators_grow_def allocators_ok_def)
  from dimensions_loop [OF v this] show ?thesis using s' by (simp add: generates_at_def)
qed

text \<open>A file with one action.\<close>

definition small_session :: session where
  "small_session = sample_session\<lparr>ss_objects :=
    [sample_context (Root eFileRoot) ''file'' None [1] [] 1, sample_context Action ''run'' (Some 0) [] [] 1]\<rparr>"

definition small_result :: session where
  "small_result = snd (projr (instanceAnalysis 3 small_session))"

lemma small_allocators:
  "case construct_instances 3 small_session of
     Inl _ \<Rightarrow> False
   | Inr (a, t) \<Rightarrow>
       (case constructAllocator 3 a a (t, []) of
          Inl _ \<Rightarrow> False
        | Inr (u, as) \<Rightarrow> (case ss_allocator u 6 of Some al \<Rightarrow> al_kind al = SingletonAllocator | None \<Rightarrow> False))"
  by code_simp

lemma small_at:
  "concrete_at (ss_objects small_session) i = None" "inheritance_at (ss_objects small_session) i = None"
  "interface_ok (ss_objects small_session)"
proof -
  show "concrete_at (ss_objects small_session) i = None" "inheritance_at (ss_objects small_session) i = None"
    by (simp_all add: small_session_def sample_context_def concrete_at_def inheritance_at_def nth_opt_def nth_Cons split: nat.split)
  show "interface_ok (ss_objects small_session)" by code_simp
qed

lemma small_interface_only: "interface_only small_session"
  using small_at interface_ok_sizes
  by (simp add: interface_only_def small_session_def sample_session_def instance_map_def no_analysis_def)

lemma small_ranked: "ranked (\<lambda>i. if i = 0 then 1 else 0) 2 (ss_objects small_session)"
  by (auto simp: ranked_def small_session_def sample_context_def interface_at_def nth_opt_def nth_Cons
      split: nat.splits if_splits)

lemma small_returns: "\<exists>a. instanceAnalysis 3 small_session = Inr (a, small_result)"
  and small_generates: "\<exists>al. ss_allocator small_result 6 = Some al \<and> al_kind al \<noteq> NothingAllocator"
proof -
  obtain a t where t: "construct_instances 3 small_session = Inr (a, t)"
    using small_allocators by (cases "construct_instances 3 small_session") auto
  obtain u as al where u: "constructAllocator 3 a a (t, []) = Inr (u, as)" "ss_allocator u 6 = Some al" "al_kind al = SingletonAllocator"
    using small_allocators t by (auto split: sum.splits option.splits)
  have "\<exists>s'. instanceAnalysis 3 small_session = Inr (a, s')"
    by (rule instanceAnalysis_returns_if [OF t small_interface_only small_ranked])
      (use interface_ok_sizes(2) small_at(3) in simp_all)
  then have r: "instanceAnalysis 3 small_session = Inr (a, small_result)" by (auto simp: small_result_def)
  then show "\<exists>a. instanceAnalysis 3 small_session = Inr (a, small_result)" ..
  have "generates_at small_result 6" using instanceAnalysis_generates [OF r small_interface_only t u(1)] u by (simp add: generates_at_def)
  then show "\<exists>al. ss_allocator small_result 6 = Some al \<and> al_kind al \<noteq> NothingAllocator" by (simp add: generates_at_def)
qed

section \<open>The properties\<close>

text \<open>C20. The instance analysis turns an interface into well-typed trees, the trees that the derivation
  analysis, the name resolution and the invocation compiler rely on: every concrete element is
  constructed after its parent, which is an action, every action has a context with a positive domain
  size, and inheritance nodes and their children refer to each other and to one action. The interface
  stays as it was.\<close>

theorem instanceAnalysis_types:
  assumes "interface_only s" and "instanceAnalysis k s = Inr (a, s')"
  shows "wf_concrete (ss_objects s') \<and> wf_inheritance (ss_objects s') \<and> is_action (ss_objects s') a \<and>
    interface_at (ss_objects s') = interface_at (ss_objects s)"
  using instanceAnalysis_analysed [OF assms(2,1)] by (simp add: analysed_def)

theorem instanceAnalysis_types_witness:
  "\<exists>a. wf_concrete (ss_objects sample_result) \<and> wf_inheritance (ss_objects sample_result) \<and>
    is_action (ss_objects sample_result) a \<and> interface_at (ss_objects sample_result) = interface_at (ss_objects sample_session)"
  using sample_returns instanceAnalysis_types [OF sample_interface_only] by blast

text \<open>C19. Overriding is exact. Below every action, the children that are actions are instances of the
  objects that the action takes (a root of a file or of a project takes the objects below it), and then
  of the members of the contexts it inherits, from the most derived one on and each context before its
  bases, where of the members with one identifier only the first counts and abstract contexts do not;
  the children that are user dimensions are instances of the dimensions of these contexts in the same
  way.\<close>

theorem overriding_exact:
  assumes "interface_only s" and "instanceAnalysis k s = Inr (a, s')" and "is_action (ss_objects s') c"
  shows "\<exists>r x cs objs. element_of (ss_objects s') a = Some r \<and> getContext (ss_objects s') c = Some x \<and>
    inheritance_order (ss_objects s) x cs \<and> objs = taken_objects k (ss_objects s') (collate_all_objects (ss_objects s) r) c \<and>
    map (element_of (ss_objects s')) (child_actions (ss_objects s') c) =
      map Some (objs @ first_by (ident (ss_objects s)) (concat (map (member_actions (ss_objects s)) cs)) (ident (ss_objects s) ` set objs)) \<and>
    map (element_of (ss_objects s')) (child_dimensions (ss_objects s') c) =
      map Some (first_by (ident (ss_objects s)) (concat (map (member_dimensions (ss_objects s)) cs)) {})"
proof -
  have an: "analysed k a s s'" by (rule instanceAnalysis_analysed [OF assms(2,1)])
  then obtain r where r: "element_of (ss_objects s') a = Some r"
      "complete k (collate_all_objects (ss_objects s) r) (ss_objects s') c"
    using assms(3) unfolding analysed_def by blast
  have iface: "interface_at (ss_objects s) = interface_at (ss_objects s')" using an by (simp add: analysed_def)
  obtain x cs where x: "element_of (ss_objects s') c = Some x" "inheritance_order (ss_objects s') x cs"
      "action_elements (ss_objects s') c = map Some (taken_objects k (ss_objects s') (collate_all_objects (ss_objects s) r) c @
          first_by (ident (ss_objects s')) (concat (map (member_actions (ss_objects s')) cs))
            (ident (ss_objects s') ` set (taken_objects k (ss_objects s') (collate_all_objects (ss_objects s) r) c)))"
      "dimension_elements (ss_objects s') c = map Some (first_by (ident (ss_objects s')) (concat (map (member_dimensions (ss_objects s')) cs)) {})"
    using r(2) unfolding complete_def by blast
  obtain e where "concrete_at (ss_objects s') c = Some e" "ce_class e = ConcreteAction"
    using assms(3) by (auto simp: is_action_def split: option.splits)
  moreover have "wf_concrete (ss_objects s')" using an by (simp add: analysed_def)
  ultimately have "\<exists>l. getLocalDomainSize (ss_objects s') c = Inr l" unfolding wf_concrete_iff by blast
  then have "getContext (ss_objects s') c = Some x" using x(1) by (auto simp: getLocalDomainSize_def getContext_element split: option.splits if_splits)
  let ?objs = "taken_objects k (ss_objects s') (collate_all_objects (ss_objects s) r) c"
  show ?thesis
  proof (intro exI conjI)
    show "element_of (ss_objects s') a = Some r" by (rule r(1))
    show "getContext (ss_objects s') c = Some x" by fact
    show "inheritance_order (ss_objects s) x cs" by (rule inheritance_order_same [OF x(2) iface])
    show "?objs = ?objs" ..
    show "map (element_of (ss_objects s')) (child_actions (ss_objects s') c) =
      map Some (?objs @ first_by (ident (ss_objects s)) (concat (map (member_actions (ss_objects s)) cs)) (ident (ss_objects s) ` set ?objs))"
      using x(3) unfolding same_interface(4) [OF iface] member_actions_same [OF iface] action_elements_def .
    show "map (element_of (ss_objects s')) (child_dimensions (ss_objects s') c) =
      map Some (first_by (ident (ss_objects s)) (concat (map (member_dimensions (ss_objects s)) cs)) {})"
      using x(4) unfolding same_interface(4) [OF iface] member_actions_same [OF iface] dimension_elements_def .
  qed
qed

theorem overriding_exact_witness:
  "\<exists>a c r x cs objs. element_of (ss_objects sample_result) a = Some r \<and> getContext (ss_objects sample_result) c = Some x \<and>
    inheritance_order (ss_objects sample_session) x cs \<and>
    objs = taken_objects 6 (ss_objects sample_result) (collate_all_objects (ss_objects sample_session) r) c \<and>
    map (element_of (ss_objects sample_result)) (child_actions (ss_objects sample_result) c) =
      map Some (objs @ first_by (ident (ss_objects sample_session)) (concat (map (member_actions (ss_objects sample_session)) cs))
        (ident (ss_objects sample_session) ` set objs)) \<and>
    map (element_of (ss_objects sample_result)) (child_dimensions (ss_objects sample_result) c) =
      map Some (first_by (ident (ss_objects sample_session)) (concat (map (member_dimensions (ss_objects sample_session)) cs)) {})"
proof -
  obtain a where a: "instanceAnalysis 6 sample_session = Inr (a, sample_result)" using sample_returns by blast
  then have "is_action (ss_objects sample_result) a"
    using instanceAnalysis_analysed [OF _ sample_interface_only] unfolding analysed_def by blast
  from overriding_exact [OF sample_interface_only a this] show ?thesis by blast
qed




text \<open>C22. The instance analysis ends when no context contains or inherits itself, that is, when a rank
  falls from every context to its children and its bases: fuel above the bound of the ranks is never
  used up. Once the tree of actions is built it does not fail either: every action gets its allocator
  and every allocator its dimensions.\<close>

theorem instanceAnalysis_ends:
  assumes "interface_only s" and "ranked rank bound (ss_objects s)" and "root_types_ok (ss_objects s)" and "bound < k"
  shows "case construct_instances k s of
      Inl e \<Rightarrow> e \<noteq> OutOfFuel \<and> instanceAnalysis k s = Inl e
    | Inr (a, t) \<Rightarrow> (\<exists>s'. instanceAnalysis k s = Inr (a, s'))"
proof (cases "construct_instances k s")
  case (Inl e)
  then show ?thesis
    using construct_instances_no_fuel [OF assms(1,2,4)] by (auto simp: instanceAnalysis_def)
next
  case (Inr at)
  then obtain a t where "construct_instances k s = Inr (a, t)" by (cases at) simp
  then show ?thesis using instanceAnalysis_returns_if [OF _ assms(1,2,4,3)] by simp
qed

theorem instanceAnalysis_ends_witness:
  "case construct_instances 6 sample_session of
      Inl e \<Rightarrow> e \<noteq> OutOfFuel \<and> instanceAnalysis 6 sample_session = Inl e
    | Inr (a, t) \<Rightarrow> (\<exists>s'. instanceAnalysis 6 sample_session = Inr (a, s'))"
  by (rule instanceAnalysis_ends [OF sample_interface_only, of sample_rank 5])
    (use sample_ranked sample_root_types in \<open>simp_all add: sample_session_def\<close>)

text \<open>C23. Every action whose allocator is a singleton or a range has the dimensions the runtime library
  needs, of the right types and for that action, in the order \<open>constructRuntimeDimensions\<close> asks for: the
  stop cycle, then the reference, and the reference before the state.\<close>

theorem runtime_dimensions_ordered:
  assumes "interface_only s" and "instanceAnalysis k s = Inr (a, s')" and "ss_allocator s' i = Some al"
    and "al_kind al \<noteq> NothingAllocator"
  shows "\<exists>p r t. ac_stopCycle (ss_action s' (al_allocated al)) = Some p \<and> ac_reference (ss_action s' (al_allocated al)) = Some r \<and>
    ac_state (ss_action s' (al_allocated al)) = Some t \<and> p < r \<and> r < t \<and>
    map_option ce_class (concrete_at (ss_objects s') p) = Some (Dimension_Generated eActionStopCycle (Some (al_allocated al)) None) \<and>
    map_option ce_class (concrete_at (ss_objects s') r) = Some (Dimension_Generated eActionReference (Some (al_allocated al)) None) \<and>
    map_option ce_class (concrete_at (ss_objects s') t) = Some (Dimension_Generated eActionState (Some (al_allocated al)) None)"
proof -
  have an: "analysed k a s s'" by (rule instanceAnalysis_analysed [OF assms(2,1)])
  have "generates_at s' i" using assms(3,4) by (simp add: generates_at_def)
  then have "runtime_ok s' (allocated_at s' i)" using an by (simp add: analysed_def)
  then show ?thesis using assms(3) by (simp add: runtime_ok_def allocated_at_def)
qed

theorem runtime_dimensions_ordered_witness:
  "\<exists>c p r t. ac_stopCycle (ss_action small_result c) = Some p \<and> ac_reference (ss_action small_result c) = Some r \<and>
    ac_state (ss_action small_result c) = Some t \<and> p < r \<and> r < t \<and>
    map_option ce_class (concrete_at (ss_objects small_result) p) = Some (Dimension_Generated eActionStopCycle (Some c) None) \<and>
    map_option ce_class (concrete_at (ss_objects small_result) r) = Some (Dimension_Generated eActionReference (Some c) None) \<and>
    map_option ce_class (concrete_at (ss_objects small_result) t) = Some (Dimension_Generated eActionState (Some c) None)"
proof -
  obtain a where a: "instanceAnalysis 3 small_session = Inr (a, small_result)" using small_returns by blast
  obtain al where al: "ss_allocator small_result 6 = Some al" "al_kind al \<noteq> NothingAllocator" using small_generates by blast
  show ?thesis by (rule exI, rule runtime_dimensions_ordered [OF small_interface_only a al])
qed

text \<open>The allocators of the runtime library that the generated code names, run on a sequence of
  acquisitions and releases.\<close>

definition run_allocator :: "string \<times> nat \<Rightarrow> slot_op list \<Rightarrow> nat list result" where
  "run_allocator t ops =
     (if fst t = ''::eg::Bitmask32Allocator'' then
        bindR (slot_run ba_size Bitmask32_nextFree Bitmask_allocate Bitmask_free ops (Bitmask_construct (snd t)) []) (\<lambda>(a, held). Inr held)
      else if fst t = ''::eg::Bitmask64Allocator'' then
        bindR (slot_run ba_size Bitmask64_nextFree Bitmask_allocate Bitmask_free ops (Bitmask_construct (snd t)) []) (\<lambda>(a, held). Inr held)
      else bindR (slot_run ra_size Ring_nextFree Ring_allocate Ring_free ops (Ring_construct (snd t)) []) (\<lambda>(a, held). Inr held))"

lemma int_of_size_t_less: "int_of_size_t n < 2147483648"
  unfolding int_of_size_t_def using sint_lt [of "word_of_nat n :: 32 word"] by simp

lemma size_t_of_int_pos: "0 < l \<Longrightarrow> l < 2147483648 \<Longrightarrow> size_t_of_int l = nat l"
  by (simp add: size_t_of_int_def unat_eq_nat_uint uint_word_of_int)

text \<open>C24. The compiler chooses an allocator with room for the instances of the action: the template that
  \<open>RangeAllocator::getAllocatorType\<close> names has the local domain size as its argument, which is within
  the width of the bitmask where it is a bitmask, and the allocator of the runtime library it names
  serves every sequence of acquisitions and releases without ever handing out an instance twice or one
  outside the domain.\<close>

theorem allocator_has_room:
  assumes "wf_concrete db" and "is_action db (al_allocated al)"
  shows "\<exists>name n held. getLocalDomainSize db (al_allocated al) = Inr (int n) \<and> getAllocatorType db al = Inr (name, n) \<and>
    0 < n \<and> n < 2147483648 \<and> (name = ''::eg::Bitmask32Allocator'' \<longleftrightarrow> n \<le> 32) \<and>
    (name = ''::eg::Bitmask64Allocator'' \<longleftrightarrow> 32 < n \<and> n \<le> 64) \<and>
    run_allocator (name, n) ops = Inr held \<and> distinct held \<and> set held \<subseteq> {..<n}"
proof -
  obtain l where l: "getLocalDomainSize db (al_allocated al) = Inr l" "0 < l" using wf_local_size [OF assms] by blast
  have "l < 2147483648"
    using l(1) int_of_size_t_less by (auto simp: getLocalDomainSize_def split: option.splits)
  then have n: "size_t_of_int l = nat l" "0 < nat l" "nat l < 2147483648" "int (nat l) = l"
    using l(2) size_t_of_int_pos by auto
  consider "nat l \<le> 32" | "32 < nat l" "nat l \<le> 64" | "64 < nat l" by linarith
  then show ?thesis
  proof cases
    case 1
    from bm32.run_exclusive [OF Bitmask_construct_invar [OF 1] Bitmask_construct_empty, of ops]
    obtain b held where "slot_run ba_size Bitmask32_nextFree Bitmask_allocate Bitmask_free ops (Bitmask_construct (nat l)) [] = Inr (b, held)"
        "distinct held" "set held \<subseteq> {..<nat l}" unfolding Bitmask_construct_size by blast
    then show ?thesis
      using l n 1 by (intro exI [of _ "''::eg::Bitmask32Allocator''"] exI [of _ "nat l"] exI [of _ held])
        (simp add: getAllocatorType_def run_allocator_def)
  next
    case 2
    from bm64.run_exclusive [OF Bitmask_construct_invar [OF 2(2)] Bitmask_construct_empty, of ops]
    obtain b held where "slot_run ba_size Bitmask64_nextFree Bitmask_allocate Bitmask_free ops (Bitmask_construct (nat l)) [] = Inr (b, held)"
        "distinct held" "set held \<subseteq> {..<nat l}" unfolding Bitmask_construct_size by blast
    then show ?thesis
      using l n 2 by (intro exI [of _ "''::eg::Bitmask64Allocator''"] exI [of _ "nat l"] exI [of _ held])
        (simp add: getAllocatorType_def run_allocator_def)
  next
    case 3
    from ring.run_exclusive [OF Ring_construct_invar [OF n(2)] Ring_construct_empty, of ops]
    obtain b held where "slot_run ra_size Ring_nextFree Ring_allocate Ring_free ops (Ring_construct (nat l)) [] = Inr (b, held)"
        "distinct held" "set held \<subseteq> {..<nat l}" unfolding Ring_construct_size by blast
    then show ?thesis
      using l n 3 by (intro exI [of _ "''::eg::RingAllocator''"] exI [of _ "nat l"] exI [of _ held])
        (simp add: getAllocatorType_def run_allocator_def)
  qed
qed

theorem allocator_has_room_witness:
  "\<exists>name n held. getLocalDomainSize sample_db 6 = Inr (int n) \<and>
    getAllocatorType sample_db \<lparr>al_kind = RangeAllocator None, al_allocating = Some 5, al_allocated = 6\<rparr> = Inr (name, n) \<and>
    0 < n \<and> n < 2147483648 \<and> (name = ''::eg::Bitmask32Allocator'' \<longleftrightarrow> n \<le> 32) \<and>
    (name = ''::eg::Bitmask64Allocator'' \<longleftrightarrow> 32 < n \<and> n \<le> 64) \<and>
    run_allocator (name, n) [Acquire, Acquire, Release 0] = Inr held \<and> distinct held \<and> set held \<subseteq> {..<n}"
  using allocator_has_room [of sample_db "\<lparr>al_kind = RangeAllocator None, al_allocating = Some 5, al_allocated = 6\<rparr>"
    "[Acquire, Acquire, Release 0]"] sample_db_facts by simp

end
