(* ===== verification/LinkDimensions.thy ===== *)
theory LinkDimensions
  imports LinkSets InstanceAnalysis
begin

text \<open>
  \<open>InterfaceSession::linkAnalysis\<close> (\<open>src/eg/sessions/interface_session.cpp\<close>): the link groups become objects
  of the master file, every concrete action that a link of a pGroup can refer to gets a dimension for the
  pGroup, and the base dimension of every link is marked with its pGroup. \<open>LinkSets\<close> computes the groups.
\<close>

section \<open>The base dimension of a link\<close>

definition EG_LINK_DIMENSION :: string where
  "EG_LINK_DIMENSION = ''base''"

text \<open>\<open>Context::getLinkBaseDimension\<close> of \<open>src/eg/interface.cpp\<close>.\<close>

fun base_dimension_loop :: "database \<Rightarrow> idx list \<Rightarrow> idx option \<Rightarrow> idx option result" where
  "base_dimension_loop db [] pDimension = Inr pDimension"
| "base_dimension_loop db (x # xs) pDimension =
     (case interface_at db x of
        None \<Rightarrow> Inl UndefinedBehaviour
      | Some e \<Rightarrow>
          if if_class e = Dimension \<and> if_identifier e = EG_LINK_DIMENSION then
            bindR (verify (pDimension = None)) (\<lambda>_. base_dimension_loop db xs (Some x))
          else base_dimension_loop db xs pDimension)"

definition getLinkBaseDimension :: "database \<Rightarrow> idx \<Rightarrow> idx option result" where
  "getLinkBaseDimension db l =
     bindR (of_option UndefinedBehaviour (context_at db l)) (\<lambda>e. base_dimension_loop db (if_children e) None)"

section \<open>The dimensions of the groups\<close>

text \<open>\<open>lk_links\<close> has the map \<open>m_links\<close> of every concrete action, \<open>lk_dimensionMap\<close> the map
  \<open>m_dimensionMap\<close> of every pGroup.\<close>

record link_state =
  lk_session :: session
  lk_links :: "idx \<Rightarrow> string \<rightharpoonup> idx"
  lk_dimensionMap :: "idx \<Rightarrow> idx \<rightharpoonup> idx"

definition new_link_dimension :: "idx \<Rightarrow> idx \<Rightarrow> concrete_element" where
  "new_link_dimension pGroup target =
     \<lparr>ce_class = Dimension_Generated eLinkReference None (Some pGroup), ce_parent = Some target, ce_element = None,
      ce_children = []\<rparr>"

definition add_link_dimension :: "idx \<Rightarrow> string \<Rightarrow> idx \<Rightarrow> link_state \<Rightarrow> link_state result" where
  "add_link_dimension pGroup name target st =
     (case construct (ConcreteElement (new_link_dimension pGroup target)) (lk_session st) of (d, s) \<Rightarrow>
      bindR (update_element target (\<lambda>e. e\<lparr>ce_children := ce_children e @ [d]\<rparr>) s) (\<lambda>s.
      Inr \<lparr>lk_session = s,
           lk_links = (lk_links st)(target := map_insert name d (lk_links st target)),
           lk_dimensionMap = (lk_dimensionMap st)(pGroup := map_insert target d (lk_dimensionMap st pGroup))\<rparr>))"

definition set_user_group :: "idx \<Rightarrow> idx \<Rightarrow> link_state \<Rightarrow> link_state result" where
  "set_user_group pGroup c st =
     bindR (verify (user_dimension_at (ss_objects (lk_session st)) c \<noteq> None)) (\<lambda>_.
     bindR (update_element c (\<lambda>e. e\<lparr>ce_class := Dimension_User (Some pGroup)\<rparr>) (lk_session st)) (\<lambda>s.
       Inr (st\<lparr>lk_session := s\<rparr>)))"

definition mark_link :: "idx \<Rightarrow> idx \<Rightarrow> link_state \<Rightarrow> link_state result" where
  "mark_link pGroup l st =
     bindR (getLinkBaseDimension (ss_objects (lk_session st)) l) (\<lambda>d.
     bindR (of_option (RuntimeError ''verify'') d) (\<lambda>d.
     bindR (getInstances (ss_objects (lk_session st)) (ss_derivation (lk_session st)) d False) (\<lambda>instances.
       foldR (set_user_group pGroup) instances st)))"

definition analyse_group :: "idx \<times> link_group \<Rightarrow> link_state \<Rightarrow> link_state result" where
  "analyse_group g st =
     bindR (foldR (add_link_dimension (fst g) (lg_name (snd g))) (lg_concreteTargets (snd g)) st)
       (foldR (mark_link (fst g)) (lg_links (snd g)))"

text \<open>The groups are constructed one after the other while they are computed; the other objects do not
  depend on them.\<close>

definition construct_groups :: "link_group list \<Rightarrow> session \<Rightarrow> (idx \<times> link_group) list \<times> session" where
  "construct_groups groups s =
     (zip [length (ss_objects s)..<length (ss_objects s) + length groups] groups,
      s\<lparr>ss_objects := ss_objects s @ replicate (length groups) OtherObject\<rparr>)"

definition linkAnalysis :: "(nat \<Rightarrow> nat) \<Rightarrow> session \<Rightarrow> ((idx \<times> link_group) list \<times> link_state) result" where
  "linkAnalysis addr s =
     (let db = ss_objects s; contexts = many (is_context_at db) db
      in bindR (calculateSets db addr contexts) (\<lambda>sets.
         bindR (calculateGroups db addr (ss_derivation s) sets contexts) (\<lambda>groups.
         case construct_groups groups s of (gs, s) \<Rightarrow>
         bindR (foldR analyse_group gs \<lparr>lk_session = s, lk_links = \<lambda>_ _. None, lk_dimensionMap = \<lambda>_ _. None\<rparr>) (\<lambda>st.
         bindR (analyseLinkCompatibility (ss_objects (lk_session st)) (map (lg_links \<circ> snd) gs) (ss_derivation (lk_session st))) (\<lambda>da.
           Inr (gs, st\<lparr>lk_session := (lk_session st)\<lparr>ss_derivation := da\<rparr>\<rparr>))))))"

section \<open>What the steps do\<close>

definition no_link_dimensions :: "database \<Rightarrow> bool" where
  "no_link_dimensions db \<longleftrightarrow>
     (\<forall>i e. concrete_at db i = Some e \<longrightarrow>
        (\<forall>c g. ce_class e \<noteq> Dimension_Generated eLinkReference c g) \<and> (\<forall>g. ce_class e \<noteq> Dimension_User (Some g)))"

definition is_base_instance :: "session \<Rightarrow> idx \<Rightarrow> idx \<Rightarrow> bool" where
  "is_base_instance s l c \<longleftrightarrow>
     (\<exists>d is. getLinkBaseDimension (ss_objects s) l = Inr (Some d) \<and>
        getInstances (ss_objects s) (ss_derivation s) d False = Inr is \<and> c \<in> set is)"

definition marked :: "database \<Rightarrow> idx \<Rightarrow> idx \<Rightarrow> bool" where
  "marked db pGroup c \<longleftrightarrow> (\<exists>e. concrete_at db c = Some e \<and> ce_class e = Dimension_User (Some pGroup))"

text \<open>\<open>P\<close> are the pairs of a pGroup and a target processed so far, \<open>Q\<close> the pairs of a pGroup and an instance.\<close>

definition links_ok :: "session \<Rightarrow> (idx \<times> idx) set \<Rightarrow> (idx \<times> idx) set \<Rightarrow> link_state \<Rightarrow> bool" where
  "links_ok s P Q st \<longleftrightarrow>
     wf_concrete (ss_objects (lk_session st)) \<and>
     interface_at (ss_objects (lk_session st)) = interface_at (ss_objects s) \<and>
     ss_derivation (lk_session st) = ss_derivation s \<and>
     is_action (ss_objects (lk_session st)) = is_action (ss_objects s) \<and>
     (\<forall>g t. (\<exists>d. lk_dimensionMap st g t = Some d) \<longleftrightarrow> (g, t) \<in> P) \<and>
     (\<forall>g t d. lk_dimensionMap st g t = Some d \<longleftrightarrow>
        concrete_at (ss_objects (lk_session st)) d = Some (new_link_dimension g t)) \<and>
     (\<forall>g t d. lk_dimensionMap st g t = Some d \<longrightarrow> d \<in> set (children_of (ss_objects (lk_session st)) t)) \<and>
     (\<forall>g c. marked (ss_objects (lk_session st)) g c \<longrightarrow> (g, c) \<in> Q) \<and>
     (\<forall>g c. (g, c) \<in> Q \<longrightarrow> (\<exists>g'. marked (ss_objects (lk_session st)) g' c)) \<and>
     (\<forall>i e c g. concrete_at (ss_objects (lk_session st)) i = Some e \<longrightarrow>
        ce_class e = Dimension_Generated eLinkReference c g \<longrightarrow> (\<exists>g' t. e = new_link_dimension g' t))"


lemma same_element_facts:
  assumes "interface_at db' = interface_at db" and "element_of db' = element_of db"
  shows "getLocalDomainSize db' = getLocalDomainSize db"
  by (simp add: fun_eq_iff getLocalDomainSize_def getContext_element assms(2) same_interface(1) [OF assms(1)] split: option.split)

lemma other_class: "ce_class e \<noteq> Dimension_Generated eLinkReference None (Some g) \<Longrightarrow> e \<noteq> new_link_dimension g t"
  by (auto simp: new_link_dimension_def)

lemma add_link_dimension_ok:
  assumes "add_link_dimension pGroup name target st = Inr st'" and ok: "links_ok s P Q st"
    and new: "(pGroup, target) \<notin> P" and act: "is_action (ss_objects s) target"
  shows "links_ok s (insert (pGroup, target) P) Q st'"
proof -
  let ?db = "ss_objects (lk_session st)" and ?db' = "ss_objects (lk_session st')"
  let ?new = "new_link_dimension pGroup target" and ?d = "length (ss_objects (lk_session st))"
  note o = ok [unfolded links_ok_def]
  have wf0: "wf_concrete ?db" using o by blast
  have act': "is_action ?db target" using o act by simp
  obtain e where e: "concrete_at ?db target = Some e" using is_action_concrete [OF act'] by blast
  then have ne: "target \<noteq> ?d" by auto
  then have e': "concrete_at (?db @ [ConcreteElement ?new]) target = Some e" using e by simp
  have st': "st' = \<lparr>lk_session = (lk_session st)\<lparr>ss_objects :=
        (?db @ [ConcreteElement ?new])[target := ConcreteElement (e\<lparr>ce_children := ce_children e @ [?d]\<rparr>)]\<rparr>,
      lk_links = (lk_links st)(target := map_insert name ?d (lk_links st target)),
      lk_dimensionMap = (lk_dimensionMap st)(pGroup := map_insert target ?d (lk_dimensionMap st pGroup))\<rparr>"
    using assms(1) e' by (auto simp: add_link_dimension_def construct_def update_element_def conc_def simp del: at_append)
  note [simp] = at_update_element [OF e']
  have conc: "concrete_at ?db' = (concrete_at ?db)(?d \<mapsto> ?new, target \<mapsto> e\<lparr>ce_children := ce_children e @ [?d]\<rparr>)"
    and iface: "interface_at ?db' = interface_at ?db" and der: "ss_derivation (lk_session st') = ss_derivation (lk_session st)"
    using st' by simp_all
  have none: "lk_dimensionMap st pGroup target = None" using o new by (metis not_None_eq)
  then have map: "lk_dimensionMap st' = (lk_dimensionMap st)(pGroup := (lk_dimensionMap st pGroup)(target \<mapsto> ?d))"
    using st' by (simp add: map_insert_def)
  have is_act: "is_action ?db' = is_action ?db" using e ne by (simp add: fun_eq_iff is_action_def conc new_link_dimension_def)
  have el: "element_of ?db' = element_of ?db" using e ne by (simp add: fun_eq_iff element_of_def conc new_link_dimension_def)
  note size = same_element_facts [OF iface el]
  have fresh: "concrete_at ?db ?d = None" by simp
  have cls: "ce_class e = ConcreteAction" using act' e by (simp add: is_action_def)
  have wf: "wf_concrete ?db'"
    unfolding wf_concrete_iff
  proof (intro allI impI)
    fix i f assume f: "concrete_at ?db' i = Some f"
    consider "i = target" "f = e\<lparr>ce_children := ce_children e @ [?d]\<rparr>" | "i = ?d" "i \<noteq> target" "f = ?new" | "concrete_at ?db i = Some f"
      using f unfolding conc by (cases "i = target"; cases "i = ?d"; simp)
    then show "(\<forall>p. ce_parent f = Some p \<longrightarrow> p < i \<and> is_action ?db' p) \<and>
        (ce_class f = ConcreteAction \<longrightarrow> (\<exists>l. getLocalDomainSize ?db' i = Inr l \<and> 0 < l))"
    proof cases
      case 1
      then show ?thesis using wf0 e unfolding wf_concrete_iff is_act size by simp
    next
      case 2
      then show ?thesis using is_action_less [OF act'] act' is_act by (simp add: new_link_dimension_def)
    next
      case 3
      then show ?thesis using wf0 unfolding wf_concrete_iff is_act size by blast
    qed
  qed
  have map_iff: "lk_dimensionMap st' g t = Some d \<longleftrightarrow> concrete_at ?db' d = Some (new_link_dimension g t)" for g t d
  proof (cases "d = ?d")
    case True
    have "lk_dimensionMap st g t \<noteq> Some ?d" using o fresh by (metis option.distinct(1))
    then show ?thesis using True ne by (auto simp: map conc new_link_dimension_def)
  next
    case False
    have "e\<lparr>ce_children := ce_children e @ [?d]\<rparr> \<noteq> new_link_dimension g t" "e \<noteq> new_link_dimension g t"
      using cls by (auto intro!: other_class)
    then have "concrete_at ?db' d = Some (new_link_dimension g t) \<longleftrightarrow> concrete_at ?db d = Some (new_link_dimension g t)"
      using False e by (auto simp: conc)
    moreover have "lk_dimensionMap st' g t = Some d \<longleftrightarrow> lk_dimensionMap st g t = Some d"
      using False none by (auto simp: map)
    ultimately show ?thesis using o by simp
  qed
  have child: "d \<in> set (children_of ?db' t)" if "lk_dimensionMap st' g t = Some d" for g t d
  proof (cases "g = pGroup \<and> t = target")
    case True
    then show ?thesis using that e by (simp add: map children_of_def conc)
  next
    case False
    then have "lk_dimensionMap st g t = Some d" using that by (auto simp: map split: if_splits)
    then have "d \<in> set (children_of ?db t)" using o by blast
    then show ?thesis using e by (auto simp: children_of_def conc new_link_dimension_def split: if_splits option.splits)
  qed
  have mark: "marked ?db' g c \<longleftrightarrow> marked ?db g c" for g c
    using e ne cls by (auto simp: marked_def conc new_link_dimension_def)
  have gen: "\<exists>g' t. f = new_link_dimension g' t"
    if "concrete_at ?db' i = Some f" "ce_class f = Dimension_Generated eLinkReference c g" for i f c g
  proof -
    have "f = ?new \<or> concrete_at ?db i = Some f" using that cls by (auto simp: conc split: if_splits)
    then show ?thesis using o that(2) by blast
  qed
  have dom: "(\<exists>d. lk_dimensionMap st' g t = Some d) \<longleftrightarrow> (g, t) \<in> insert (pGroup, target) P" for g t
  proof (cases "g = pGroup \<and> t = target")
    case True
    then show ?thesis by (simp add: map)
  next
    case False
    then have "lk_dimensionMap st' g t = lk_dimensionMap st g t" by (auto simp: map)
    moreover have "(\<exists>d. lk_dimensionMap st g t = Some d) \<longleftrightarrow> (g, t) \<in> P" using o by blast
    ultimately show ?thesis using False by auto
  qed
  show ?thesis unfolding links_ok_def using o wf iface der is_act dom map_iff child mark gen by simp
qed

lemma set_user_group_ok:
  assumes "set_user_group pGroup c st = Inr st'" and ok: "links_ok s P Q st"
  shows "links_ok s P (insert (pGroup, c) Q) st'"
proof -
  let ?db = "ss_objects (lk_session st)" and ?db' = "ss_objects (lk_session st')"
  note o = ok [unfolded links_ok_def]
  have wf0: "wf_concrete ?db" using o by blast
  from assms(1) obtain e where u: "user_dimension_at ?db c \<noteq> None" and e: "concrete_at ?db c = Some e"
      and st': "st' = st\<lparr>lk_session := (lk_session st)\<lparr>ss_objects := ?db[c := ConcreteElement (e\<lparr>ce_class := Dimension_User (Some pGroup)\<rparr>)]\<rparr>\<rparr>"
    by (auto simp: set_user_group_def update_element_def bindR_eq_Inr conc_def)
  obtain g0 where cls: "ce_class e = Dimension_User g0" using u e by (auto simp: user_dimension_at_def split: concrete_class.splits)
  note [simp] = at_update_element [OF e]
  have conc: "concrete_at ?db' = (concrete_at ?db)(c \<mapsto> e\<lparr>ce_class := Dimension_User (Some pGroup)\<rparr>)"
    and iface: "interface_at ?db' = interface_at ?db" and der: "ss_derivation (lk_session st') = ss_derivation (lk_session st)"
    and map: "lk_dimensionMap st' = lk_dimensionMap st"
    using st' by simp_all
  have is_act: "is_action ?db' = is_action ?db" using e cls by (simp add: fun_eq_iff is_action_def conc)
  have el: "element_of ?db' = element_of ?db" using e by (simp add: fun_eq_iff element_of_def conc)
  note size = same_element_facts [OF iface el]
  have wf: "wf_concrete ?db'"
    using wf0 e cls unfolding wf_concrete_iff is_act size by (auto simp: conc)
  have kids: "children_of ?db' = children_of ?db" using e by (simp add: fun_eq_iff children_of_def conc)
  have dims: "concrete_at ?db' d = Some (new_link_dimension g t) \<longleftrightarrow> concrete_at ?db d = Some (new_link_dimension g t)" for d g t
  proof -
    have "e\<lparr>ce_class := Dimension_User (Some pGroup)\<rparr> \<noteq> new_link_dimension g t"
      by (rule other_class) simp
    then show ?thesis using e cls by (auto simp: conc new_link_dimension_def)
  qed
  have gen: "\<exists>g' t. f = new_link_dimension g' t"
    if "concrete_at ?db' i = Some f" "ce_class f = Dimension_Generated eLinkReference x g" for i f x g
    using that o by (auto simp: conc split: if_splits)
  have mark: "marked ?db' g i \<longleftrightarrow> (if i = c then g = pGroup else marked ?db g i)" for g i
    by (auto simp: marked_def conc)
  have "(g, i) \<in> insert (pGroup, c) Q" if "marked ?db' g i" for g i using that o unfolding mark by (auto split: if_splits)
  moreover have "\<exists>g'. marked ?db' g' i" if "(g, i) \<in> insert (pGroup, c) Q" for g i
  proof (cases "i = c")
    case False
    then have "(g, i) \<in> Q" using that by simp
    then obtain g' where "marked ?db g' i" using o by blast
    then show ?thesis using False unfolding mark by auto
  qed (simp add: mark)
  moreover have dom: "(\<exists>d. lk_dimensionMap st' g t = Some d) \<longleftrightarrow> (g, t) \<in> P" for g t unfolding map using o by blast
  moreover have map_iff: "lk_dimensionMap st' g t = Some d \<longleftrightarrow> concrete_at ?db' d = Some (new_link_dimension g t)" for g t d
    unfolding map dims using o by blast
  moreover have "d \<in> set (children_of ?db' t)" if "lk_dimensionMap st' g t = Some d" for g t d
    using that o unfolding map kids by blast
  moreover have "interface_at ?db' = interface_at (ss_objects s)" "ss_derivation (lk_session st') = ss_derivation s"
      "is_action ?db' = is_action (ss_objects s)"
    using o iface der is_act by simp_all
  ultimately show ?thesis unfolding links_ok_def using wf gen by blast
qed


section \<open>What the loops do\<close>

lemma base_instances:
  assumes "interface_at db = interface_at (ss_objects s)" and "ss_derivation t = ss_derivation s"
  shows "getLinkBaseDimension db l = getLinkBaseDimension (ss_objects s) l"
    and "getInstances db (ss_derivation t) d False = getInstances (ss_objects s) (ss_derivation s) d False"
proof -
  have "base_dimension_loop db xs r = base_dimension_loop (ss_objects s) xs r" for xs r
    by (induction xs arbitrary: r) (simp_all add: assms(1) fun_eq_iff split: option.split)
  then show "getLinkBaseDimension db l = getLinkBaseDimension (ss_objects s) l"
    by (simp add: getLinkBaseDimension_def same_interface [OF assms(1)])
  show "getInstances db (ss_derivation t) d False = getInstances (ss_objects s) (ss_derivation s) d False"
    by (simp add: getInstances_def assms(2) cong: option.case_cong)
qed

lemma target_loop:
  "foldR (add_link_dimension p n) ts st = Inr st' \<Longrightarrow> links_ok s P Q st \<Longrightarrow> distinct ts \<Longrightarrow>
   \<forall>t \<in> set ts. is_action (ss_objects s) t \<and> (p, t) \<notin> P \<Longrightarrow> links_ok s (P \<union> {p} \<times> set ts) Q st'"
proof (induction ts arbitrary: P st)
  case (Cons t ts)
  then obtain st1 where st1: "add_link_dimension p n t st = Inr st1" "foldR (add_link_dimension p n) ts st1 = Inr st'"
    by (auto simp: bindR_eq_Inr)
  have "links_ok s (insert (p, t) P) Q st1" using add_link_dimension_ok [OF st1(1) Cons.prems(2)] Cons.prems by simp
  from Cons.IH [OF st1(2) this] Cons.prems have "links_ok s (insert (p, t) P \<union> {p} \<times> set ts) Q st'" by auto
  moreover have "insert (p, t) P \<union> {p} \<times> set ts = P \<union> {p} \<times> set (t # ts)" by auto
  ultimately show ?case by simp
qed simp

lemma instance_loop:
  "foldR (set_user_group p) cs st = Inr st' \<Longrightarrow> links_ok s P Q st \<Longrightarrow> links_ok s P (Q \<union> {p} \<times> set cs) st'"
proof (induction cs arbitrary: Q st)
  case (Cons c cs)
  then obtain st1 where st1: "set_user_group p c st = Inr st1" "foldR (set_user_group p) cs st1 = Inr st'"
    by (auto simp: bindR_eq_Inr)
  from Cons.IH [OF st1(2) set_user_group_ok [OF st1(1) Cons.prems(2)]]
  have "links_ok s P (insert (p, c) Q \<union> {p} \<times> set cs) st'" .
  moreover have "insert (p, c) Q \<union> {p} \<times> set cs = Q \<union> {p} \<times> set (c # cs)" by auto
  ultimately show ?case by simp
qed simp

definition base_pairs :: "session \<Rightarrow> idx \<Rightarrow> idx list \<Rightarrow> (idx \<times> idx) set" where
  "base_pairs s p ls = {(q, c). q = p \<and> (\<exists>l \<in> set ls. is_base_instance s l c)}"

lemma link_loop:
  "foldR (mark_link p) ls st = Inr st' \<Longrightarrow> links_ok s P Q st \<Longrightarrow> links_ok s P (Q \<union> base_pairs s p ls) st'"
proof (induction ls arbitrary: Q st)
  case (Cons l ls)
  note bases = base_instances [of "ss_objects (lk_session st)" s "lk_session st"]
  have same: "interface_at (ss_objects (lk_session st)) = interface_at (ss_objects s)"
    "ss_derivation (lk_session st) = ss_derivation s"
    using Cons.prems(2) by (simp_all add: links_ok_def)
  from Cons.prems(1) obtain st1 where m: "mark_link p l st = Inr st1" and r: "foldR (mark_link p) ls st1 = Inr st'"
    by (auto simp: bindR_eq_Inr)
  from m obtain d cs where d: "getLinkBaseDimension (ss_objects s) l = Inr (Some d)"
    and cs: "getInstances (ss_objects s) (ss_derivation s) d False = Inr cs"
    and st1: "foldR (set_user_group p) cs st = Inr st1"
    by (auto simp: bindR_eq_Inr mark_link_def bases [OF same] of_option_def split: option.splits)
  from Cons.IH [OF r instance_loop [OF st1 Cons.prems(2)]]
  have "links_ok s P (Q \<union> {p} \<times> set cs \<union> base_pairs s p ls) st'" .
  moreover have "Q \<union> {p} \<times> set cs \<union> base_pairs s p ls = Q \<union> base_pairs s p (l # ls)"
    using d cs by (auto simp: base_pairs_def is_base_instance_def)
  ultimately show ?case by simp
qed (simp add: base_pairs_def)

definition target_pairs :: "(idx \<times> link_group) list \<Rightarrow> (idx \<times> idx) set" where
  "target_pairs gs = {(p, t). \<exists>g. (p, g) \<in> set gs \<and> t \<in> set (lg_concreteTargets g)}"

definition instance_pairs :: "session \<Rightarrow> (idx \<times> link_group) list \<Rightarrow> (idx \<times> idx) set" where
  "instance_pairs s gs = {(p, c). \<exists>g l. (p, g) \<in> set gs \<and> l \<in> set (lg_links g) \<and> is_base_instance s l c}"

definition group_ok :: "database \<Rightarrow> link_group \<Rightarrow> bool" where
  "group_ok db g \<longleftrightarrow> distinct (lg_concreteTargets g) \<and> (\<forall>t \<in> set (lg_concreteTargets g). is_action db t)"

lemma group_loop:
  "foldR analyse_group gs st = Inr st' \<Longrightarrow> links_ok s P Q st \<Longrightarrow> distinct (map fst gs) \<Longrightarrow>
   \<forall>(p, g) \<in> set gs. group_ok (ss_objects s) g \<and> p \<notin> fst ` P \<Longrightarrow>
   links_ok s (P \<union> target_pairs gs) (Q \<union> instance_pairs s gs) st'"
proof (induction gs arbitrary: P Q st)
  case (Cons pg gs)
  obtain p g where pg: "pg = (p, g)" by fastforce
  from Cons.prems(1) obtain st2 where m: "analyse_group (p, g) st = Inr st2" and rest: "foldR analyse_group gs st2 = Inr st'"
    by (auto simp: bindR_eq_Inr pg)
  from m obtain st1 where st1: "foldR (add_link_dimension p (lg_name g)) (lg_concreteTargets g) st = Inr st1"
    and st2: "foldR (mark_link p) (lg_links g) st1 = Inr st2"
    by (auto simp: bindR_eq_Inr analyse_group_def)
  have ok: "group_ok (ss_objects s) g" and p: "p \<notin> fst ` P" and p': "p \<notin> fst ` set gs" and d: "distinct (map fst gs)"
    using Cons.prems pg by auto
  have "links_ok s (P \<union> {p} \<times> set (lg_concreteTargets g)) Q st1"
    using target_loop [OF st1 Cons.prems(2)] ok p by (force simp: group_ok_def)
  from Cons.IH [OF rest link_loop [OF st2 this] d] Cons.prems(4) p'
  have "links_ok s (P \<union> {p} \<times> set (lg_concreteTargets g) \<union> target_pairs gs) (Q \<union> base_pairs s p (lg_links g) \<union> instance_pairs s gs) st'"
    by (force simp: pg)
  moreover have "P \<union> {p} \<times> set (lg_concreteTargets g) \<union> target_pairs gs = P \<union> target_pairs (pg # gs)"
    by (auto simp: target_pairs_def pg)
  moreover have "Q \<union> base_pairs s p (lg_links g) \<union> instance_pairs s gs = Q \<union> instance_pairs s (pg # gs)"
    by (auto simp: instance_pairs_def base_pairs_def pg)
  ultimately show ?case by simp
qed (simp add: target_pairs_def instance_pairs_def)

section \<open>The groups are well formed\<close>

lemma make_group_ok: "make_group db da ls k links = Inr g \<Longrightarrow> group_ok db g"
  by (auto simp: make_group_def bindR_eq_Inr Let_def concrete_actions_def group_ok_def uniquify_distinct)

lemma collate_ok: "collate db da ls m = Inr gs \<Longrightarrow> g \<in> set gs \<Longrightarrow> group_ok db g"
  by (induction db da ls m arbitrary: gs rule: collate.induct) (auto simp: bindR_eq_Inr dest: make_group_ok)

lemma replicate_other:
  "concrete_at (db @ replicate n OtherObject) = concrete_at db"
  "interface_at (db @ replicate n OtherObject) = interface_at db"
  by (auto simp: fun_eq_iff concrete_at_def interface_at_def nth_opt_def nth_append
      split: option.splits indexed_object.splits)

lemma construct_groups_facts:
  assumes "construct_groups groups s = (gs, s')"
  shows "map snd gs = groups" "distinct (map fst gs)" "concrete_at (ss_objects s') = concrete_at (ss_objects s)"
    "interface_at (ss_objects s') = interface_at (ss_objects s)" "ss_derivation s' = ss_derivation s"
  using assms by (auto simp: construct_groups_def replicate_other)

lemma same_concrete:
  assumes "concrete_at db' = concrete_at db" and "interface_at db' = interface_at db"
  shows "is_action db' = is_action db" "marked db' = marked db" "children_of db' = children_of db"
    "wf_concrete db' = wf_concrete db" "no_link_dimensions db' = no_link_dimensions db"
proof -
  show act: "is_action db' = is_action db" "marked db' = marked db" "children_of db' = children_of db"
      "no_link_dimensions db' = no_link_dimensions db"
    using assms(1) by (simp_all add: fun_eq_iff is_action_def marked_def children_of_def no_link_dimensions_def)
  have "element_of db' = element_of db" using assms(1) by (simp add: fun_eq_iff element_of_def)
  then show "wf_concrete db' = wf_concrete db"
    unfolding wf_concrete_iff same_element_facts [OF assms(2) \<open>element_of db' = element_of db\<close>] act assms(1) by simp
qed

lemma links_ok_start:
  assumes "wf_concrete (ss_objects s)" and "no_link_dimensions (ss_objects s)"
  shows "links_ok s {} {} \<lparr>lk_session = s, lk_links = \<lambda>_ _. None, lk_dimensionMap = \<lambda>_ _. None\<rparr>"
  using assms unfolding links_ok_def no_link_dimensions_def marked_def
  by (fastforce simp: new_link_dimension_def)

section \<open>The property\<close>

lemma linkAnalysis_links:
  assumes "wf_concrete (ss_objects s)" and "no_link_dimensions (ss_objects s)"
    and "linkAnalysis addr s = Inr (gs, st)"
  shows "\<exists>s1 st1. links_ok s1 (target_pairs gs) (instance_pairs s gs) st1 \<and>
    ss_objects (lk_session st) = ss_objects (lk_session st1) \<and> lk_dimensionMap st = lk_dimensionMap st1"
proof -
  from assms(3) obtain sets groups where
      groups: "calculateGroups (ss_objects s) addr (ss_derivation s) sets (many (is_context_at (ss_objects s)) (ss_objects s)) = Inr groups"
      and rest: "(case construct_groups groups s of (gs, s) \<Rightarrow>
         bindR (foldR analyse_group gs \<lparr>lk_session = s, lk_links = \<lambda>_ _. None, lk_dimensionMap = \<lambda>_ _. None\<rparr>) (\<lambda>st.
         bindR (analyseLinkCompatibility (ss_objects (lk_session st)) (map (lg_links \<circ> snd) gs) (ss_derivation (lk_session st))) (\<lambda>da.
           Inr (gs, st\<lparr>lk_session := (lk_session st)\<lparr>ss_derivation := da\<rparr>\<rparr>)))) = Inr (gs, st)"
    unfolding linkAnalysis_def Let_def bindR_eq_Inr by blast
  obtain gs' s1 where con': "construct_groups groups s = (gs', s1)" by fastforce
  from rest obtain st1 da where con: "construct_groups groups s = (gs, s1)"
      and st1: "foldR analyse_group gs \<lparr>lk_session = s1, lk_links = \<lambda>_ _. None, lk_dimensionMap = \<lambda>_ _. None\<rparr> = Inr st1"
      and st: "st = st1\<lparr>lk_session := (lk_session st1)\<lparr>ss_derivation := da\<rparr>\<rparr>"
    unfolding con' prod.case bindR_eq_Inr by auto
  note con = construct_groups_facts [OF con]
  note same = same_concrete [OF con(3,4)]
  have "\<forall>g \<in> set groups. group_ok (ss_objects s) g"
    using groups by (auto simp: calculateGroups_def bindR_eq_Inr dest: collate_ok)
  then have ok: "\<forall>(p, g) \<in> set gs. group_ok (ss_objects s1) g \<and> p \<notin> fst ` {}"
    using con(1) by (force simp: group_ok_def same)
  have base: "is_base_instance s1 = is_base_instance s"
    by (simp add: fun_eq_iff is_base_instance_def base_instances [OF con(4,5)])
  have "links_ok s1 ({} \<union> target_pairs gs) ({} \<union> instance_pairs s1 gs) st1"
    using group_loop [OF st1 links_ok_start con(2) ok] assms(1,2) by (simp add: same)
  then have o: "links_ok s1 (target_pairs gs) (instance_pairs s gs) st1" by (simp add: instance_pairs_def base)
  then show ?thesis unfolding st by (intro exI [of _ s1] exI [of _ st1]) simp
qed

text \<open>C25. After \<open>linkAnalysis\<close> every target of a pGroup has one dimension for the pGroup, which is the one in
  \<open>m_dimensionMap\<close> and a child of the target; there are no other link dimensions, the tree of
  concrete elements is still well formed, and the instances of the base dimensions of the links, and no
  other user dimensions, carry a pGroup, each one of those its links are in.\<close>

theorem link_dimensions_exact:
  assumes "wf_concrete (ss_objects s)" and "no_link_dimensions (ss_objects s)"
    and "linkAnalysis addr s = Inr (gs, st)"
  shows "wf_concrete (ss_objects (lk_session st)) \<and>
    (\<forall>p t. (\<exists>g. (p, g) \<in> set gs \<and> t \<in> set (lg_concreteTargets g)) \<longleftrightarrow>
        (\<exists>d. d \<in> set (children_of (ss_objects (lk_session st)) t) \<and>
           concrete_at (ss_objects (lk_session st)) d = Some (new_link_dimension p t))) \<and>
    (\<forall>p t d. lk_dimensionMap st p t = Some d \<longleftrightarrow>
        concrete_at (ss_objects (lk_session st)) d = Some (new_link_dimension p t)) \<and>
    (\<forall>c. (\<exists>p. marked (ss_objects (lk_session st)) p c) \<longleftrightarrow>
        (\<exists>p g l. (p, g) \<in> set gs \<and> l \<in> set (lg_links g) \<and> is_base_instance s l c)) \<and>
    (\<forall>p c. marked (ss_objects (lk_session st)) p c \<longrightarrow>
        (\<exists>g l. (p, g) \<in> set gs \<and> l \<in> set (lg_links g) \<and> is_base_instance s l c))"
proof -
  from linkAnalysis_links [OF assms] obtain s1 st1 where o: "links_ok s1 (target_pairs gs) (instance_pairs s gs) st1"
    and eq: "ss_objects (lk_session st) = ss_objects (lk_session st1)" "lk_dimensionMap st = lk_dimensionMap st1" by blast
  note o = o [unfolded links_ok_def, folded eq]
  have wf: "wf_concrete (ss_objects (lk_session st))"
    and dom: "(\<exists>d. lk_dimensionMap st p t = Some d) \<longleftrightarrow> (p, t) \<in> target_pairs gs"
    and map: "lk_dimensionMap st p t = Some d \<longleftrightarrow> concrete_at (ss_objects (lk_session st)) d = Some (new_link_dimension p t)"
    and kid: "lk_dimensionMap st p t = Some d \<Longrightarrow> d \<in> set (children_of (ss_objects (lk_session st)) t)"
    and mark: "marked (ss_objects (lk_session st)) p c \<Longrightarrow> (p, c) \<in> instance_pairs s gs"
    and mark': "(p, c) \<in> instance_pairs s gs \<Longrightarrow> \<exists>p'. marked (ss_objects (lk_session st)) p' c" for p t d c
    using o by blast+
  have "(\<exists>g. (p, g) \<in> set gs \<and> t \<in> set (lg_concreteTargets g)) \<longleftrightarrow>
      (\<exists>d. d \<in> set (children_of (ss_objects (lk_session st)) t) \<and>
         concrete_at (ss_objects (lk_session st)) d = Some (new_link_dimension p t))" for p t
  proof -
    have "(\<exists>g. (p, g) \<in> set gs \<and> t \<in> set (lg_concreteTargets g)) \<longleftrightarrow> (\<exists>d. lk_dimensionMap st p t = Some d)"
      unfolding dom by (simp add: target_pairs_def)
    also have "\<dots> \<longleftrightarrow> (\<exists>d. d \<in> set (children_of (ss_objects (lk_session st)) t) \<and> lk_dimensionMap st p t = Some d)"
      using kid by blast
    finally show ?thesis unfolding map .
  qed
  moreover have "(\<exists>p. marked (ss_objects (lk_session st)) p c) \<longleftrightarrow>
      (\<exists>p g l. (p, g) \<in> set gs \<and> l \<in> set (lg_links g) \<and> is_base_instance s l c)" for c
    using mark mark' unfolding instance_pairs_def by blast
  moreover have "\<exists>g l. (p, g) \<in> set gs \<and> l \<in> set (lg_links g) \<and> is_base_instance s l c"
    if "marked (ss_objects (lk_session st)) p c" for p c
    using mark [OF that] unfolding instance_pairs_def by blast
  ultimately show ?thesis using wf map by blast
qed

text \<open>An action \<open>A\<close> (1) and a link \<open>L\<close> (2) to it with its base dimension (3), their concrete actions
  (4 and 5), the instance of the dimension (6) and the inheritance nodes of the two contexts.\<close>

definition linked_program :: database where
  "linked_program = [OtherObject, action_element ''A'' [],
     InterfaceElement \<lparr>if_class = Link, if_identifier = ''L'', if_parent = None, if_children = [3],
       if_baseContexts = [1], if_size = 1, if_contextTypes = [], if_canonicalType = []\<rparr>,
     InterfaceElement \<lparr>if_class = Dimension, if_identifier = ''base'', if_parent = Some 2, if_children = [],
       if_baseContexts = [], if_size = 0, if_contextTypes = [], if_canonicalType = []\<rparr>,
     ConcreteElement \<lparr>ce_class = ConcreteAction, ce_parent = None, ce_element = Some 1, ce_children = []\<rparr>,
     ConcreteElement \<lparr>ce_class = ConcreteAction, ce_parent = None, ce_element = Some 2, ce_children = [6]\<rparr>,
     ConcreteElement \<lparr>ce_class = Dimension_User None, ce_parent = Some 5, ce_element = Some 3, ce_children = []\<rparr>,
     InheritanceNode \<lparr>in_rootConcreteAction = 4, in_context = 1, in_parent = None, in_children = [],
       in_actions = [], in_dimensions = []\<rparr>,
     InheritanceNode \<lparr>in_rootConcreteAction = 5, in_context = 2, in_parent = None, in_children = [],
       in_actions = [], in_dimensions = []\<rparr>]"

definition linked_session :: session where
  "linked_session = \<lparr>ss_objects = linked_program,
     ss_derivation = \<lparr>m_compatibility = [1 \<mapsto> no_compatibility, 2 \<mapsto> no_compatibility],
       m_instanceMap = [(3, 6)], m_inheritanceMap = [(1, 7), (2, 8)]\<rparr>,
     ss_action = \<lambda>_. new_action_data, ss_allocator = \<lambda>_. None\<rparr>"

lemmas linked_eval = linked_session_def linked_program_def action_element_def interface_at_def concrete_at_def inheritance_at_def
  nth_opt_def

lemma linked_wf: "wf_concrete linked_program" "no_link_dimensions linked_program"
proof -
  have "concrete_at linked_program i = Some e \<longleftrightarrow>
      i = 4 \<and> e = \<lparr>ce_class = ConcreteAction, ce_parent = None, ce_element = Some 1, ce_children = []\<rparr> \<or>
      i = 5 \<and> e = \<lparr>ce_class = ConcreteAction, ce_parent = None, ce_element = Some 2, ce_children = [6]\<rparr> \<or>
      i = 6 \<and> e = \<lparr>ce_class = Dimension_User None, ce_parent = Some 5, ce_element = Some 3, ce_children = []\<rparr>" for i e
    by (auto simp: concrete_at_Some linked_program_def action_element_def less_Suc_eq numeral_eq_Suc nth_Cons split: nat.splits)
  note c = this
  have "is_action linked_program 5" by (simp add: is_action_def linked_eval)
  moreover have "getLocalDomainSize linked_program 4 = Inr 1" "getLocalDomainSize linked_program 5 = Inr 1"
    by (simp_all add: getLocalDomainSize_def getContext_def linked_eval context_at_def int_of_size_t_def)
  ultimately show "wf_concrete linked_program" unfolding wf_concrete_iff c by auto
  show "no_link_dimensions linked_program" unfolding no_link_dimensions_def c by auto
qed

lemma linked_many: "many (is_context_at linked_program) linked_program = [1, 2]"
  by code_simp

lemma linked_sets:
  "calculateSets linked_program id [1, 2] = Inr \<lparr>cs_heap = (\<lambda>_. {})(0 := {1}), cs_sets = [0], cs_next = 1\<rparr>"
  by (simp add: calculateSets_def addAction_def no_sets_def linked_eval is_Link_def getBaseContexts_def find_set_def)

definition linked_group :: link_group where
  "linked_group = \<lparr>lg_name = ''L'', lg_links = [2], lg_interfaceTargets = [1], lg_concreteTargets = [4], lg_concreteLinks = [5]\<rparr>"

lemma linked_groups:
  "calculateGroups linked_program id (ss_derivation linked_session)
     \<lparr>cs_heap = (\<lambda>_. {})(0 := {1}), cs_sets = [0], cs_next = 1\<rparr> [1, 2] = Inr [linked_group]"
  by (simp add: calculateGroups_def enter_link_def make_group_def concrete_actions_def Let_def linked_eval is_Link_def
      group_key_def getLinkTarget_def find_set_def getInstances_def context_at_def inh_def uniquify_without_reorder_def
      is_action_def getIdentifier_def linked_group_def)

lemma linked_analysis: "\<exists>st. linkAnalysis id linked_session = Inr ([(9, linked_group)], st)"
proof -
  let ?s = "linked_session\<lparr>ss_objects := linked_program @ [OtherObject]\<rparr>"
  have g: "construct_groups [linked_group] linked_session = ([(9, linked_group)], ?s)"
    by (simp add: construct_groups_def linked_session_def linked_program_def)
  have "\<exists>st da. foldR analyse_group [(9, linked_group)] \<lparr>lk_session = ?s, lk_links = \<lambda>_ _. None, lk_dimensionMap = \<lambda>_ _. None\<rparr> = Inr st \<and>
      analyseLinkCompatibility (ss_objects (lk_session st)) [[2]] (ss_derivation (lk_session st)) = Inr da"
    by (simp add: analyse_group_def add_link_dimension_def mark_link_def set_user_group_def linked_eval linked_group_def
        construct_def update_element_def conc_def new_link_dimension_def getLinkBaseDimension_def context_at_def
        EG_LINK_DIMENSION_def getInstances_def user_dimension_at_def analyseLinkCompatibility_def link_compatibility_def
        getCompatibility_def update_compatibility_def getLinkTarget_def no_compatibility_def)
  moreover have "ss_objects linked_session = linked_program" by (simp add: linked_session_def)
  moreover have "lg_links linked_group = [2]" by (simp add: linked_group_def)
  ultimately show ?thesis
    using g by (auto simp: linkAnalysis_def Let_def linked_many linked_sets [simplified] linked_groups [simplified])
qed

theorem link_dimensions_exact_witness:
  "\<exists>st d. linkAnalysis id linked_session = Inr ([(9, linked_group)], st) \<and>
     wf_concrete (ss_objects (lk_session st)) \<and> d \<in> set (children_of (ss_objects (lk_session st)) 4) \<and>
     concrete_at (ss_objects (lk_session st)) d = Some (new_link_dimension 9 4) \<and> lk_dimensionMap st 9 4 = Some d \<and>
     marked (ss_objects (lk_session st)) 9 6"
proof -
  obtain st where st: "linkAnalysis id linked_session = Inr ([(9, linked_group)], st)" using linked_analysis by blast
  have db: "ss_objects linked_session = linked_program" by (simp add: linked_session_def)
  have base: "is_base_instance linked_session 2 6"
    by (simp add: is_base_instance_def linked_eval getLinkBaseDimension_def context_at_def EG_LINK_DIMENSION_def getInstances_def)
  note x = link_dimensions_exact [of linked_session id "[(9, linked_group)]" st, unfolded db, OF linked_wf st]
  obtain p where p: "marked (ss_objects (lk_session st)) p 6"
    using x base by (force simp: linked_group_def)
  moreover have "p = 9" using x p by (auto simp: linked_group_def)
  ultimately have "marked (ss_objects (lk_session st)) 9 6" by simp
  moreover have "\<exists>d. d \<in> set (children_of (ss_objects (lk_session st)) 4) \<and>
      concrete_at (ss_objects (lk_session st)) d = Some (new_link_dimension 9 4)"
    using x by (force simp: linked_group_def)
  ultimately show ?thesis using st x by blast
qed

end
