(* ===== verification/TranslationUnits.thy ===== *)
theory TranslationUnits
  imports ConcreteAllocators OrderedMultimap
begin

text \<open>
  The translation units of \<open>src/eg/sessions/interface_session.cpp\<close> (\<open>translationUnitAnalysis\<close>) and
  \<open>eg_compiler/translation_unit.hpp\<close>: the concrete actions are grouped by the coordinator, the host and
  the definition file of their contexts, every group becomes a translation unit, and every unit gets
  the file of its database, the one it had before or a new one. Paths are values of a linear order, which
  is what boost documents of their comparison.
\<close>

section \<open>Coordinator, host and definition file\<close>

record 'p chd =
  chd_coordinator :: "idx option"
  chd_host :: "idx option"
  chd_definitionFile :: "'p option"

text \<open>The order of \<open>std::optional\<close>.\<close>

fun optional_less :: "'p :: linorder option \<Rightarrow> 'p option \<Rightarrow> bool" where
  "optional_less p None = False"
| "optional_less None (Some q) = True"
| "optional_less (Some p) (Some q) = (p < q)"

text \<open>\<open>operator<\<close>; all contexts are objects of the master file, which \<open>CompareIndexedObjects\<close> orders by
  their indices.\<close>

definition chd_less :: "'p :: linorder chd \<Rightarrow> 'p chd \<Rightarrow> bool" where
  "chd_less x y =
     (case (chd_coordinator x, chd_coordinator y) of
        (Some c, Some d) \<Rightarrow> if c \<noteq> d then c < d else
          (case (chd_host x, chd_host y) of
             (Some h, Some i) \<Rightarrow> if h \<noteq> i then h < i else optional_less (chd_definitionFile x) (chd_definitionFile y)
           | _ \<Rightarrow> optional_less (chd_definitionFile x) (chd_definitionFile y))
      | _ \<Rightarrow>
          (case (chd_host x, chd_host y) of
             (Some h, Some i) \<Rightarrow> if h \<noteq> i then h < i else optional_less (chd_definitionFile x) (chd_definitionFile y)
           | _ \<Rightarrow> optional_less (chd_definitionFile x) (chd_definitionFile y)))"

text \<open>The loop of \<open>Context::getCoordinatorHostname\<close> (\<open>src/eg/interface.cpp\<close>).\<close>

fun enter_root :: "interface_class \<Rightarrow> idx \<Rightarrow> idx option \<times> idx option \<Rightarrow> idx option \<times> idx option" where
  "enter_root (Root eCoordinator) i ch = (Some i, snd ch)"
| "enter_root (Root eHostName) i ch = (fst ch, Some i)"
| "enter_root _ i ch = ch"

fun coordinator_loop :: "nat \<Rightarrow> database \<Rightarrow> idx option \<Rightarrow> idx option \<times> idx option \<Rightarrow> (idx option \<times> idx option) result" where
  "coordinator_loop 0 db iter ch = Inl OutOfFuel"
| "coordinator_loop (Suc k) db None ch = Inr ch"
| "coordinator_loop (Suc k) db (Some i) ch =
     (if fst ch \<noteq> None \<and> snd ch \<noteq> None then Inr ch
      else (case context_at db i of
              None \<Rightarrow> Inl UndefinedBehaviour
            | Some e \<Rightarrow>
                coordinator_loop k db
                  (case if_parent e of
                     None \<Rightarrow> None
                   | Some p \<Rightarrow> if context_at db p \<noteq> None then Some p else None)
                  (enter_root (if_class e) i ch)))"

definition getCoordinatorHostname :: "database \<Rightarrow> idx \<Rightarrow> (idx option \<times> idx option) result" where
  "getCoordinatorHostname db i = coordinator_loop (Suc (Suc (length db))) db (Some i) (None, None)"

definition chd_of :: "(idx \<Rightarrow> 'p option) \<Rightarrow> database \<Rightarrow> idx \<Rightarrow> 'p chd result" where
  "chd_of getDefinitionFile db i =
     bindR (getCoordinatorHostname db i) (\<lambda>(c, h).
       Inr \<lparr>chd_coordinator = c, chd_host = h, chd_definitionFile = getDefinitionFile i\<rparr>)"

section \<open>The map of the units\<close>

text \<open>A \<open>std::map\<close> requires that its comparison is a strict weak order on the keys it compares; without
  that its operations are undefined. \<open>tm_seen\<close> holds the keys that were looked up.\<close>

definition equivalent :: "('k \<Rightarrow> 'k \<Rightarrow> bool) \<Rightarrow> 'k \<Rightarrow> 'k \<Rightarrow> bool" where
  "equivalent lt x y \<longleftrightarrow> \<not> lt x y \<and> \<not> lt y x"

definition strict_weak_order :: "('k \<Rightarrow> 'k \<Rightarrow> bool) \<Rightarrow> 'k list \<Rightarrow> bool" where
  "strict_weak_order lt ks \<longleftrightarrow>
     list_all (\<lambda>x. \<not> lt x x \<and> list_all (\<lambda>y. list_all (\<lambda>z.
       (lt x y \<and> lt y z \<longrightarrow> lt x z) \<and>
       (equivalent lt x y \<and> equivalent lt y z \<longrightarrow> equivalent lt x z)) ks) ks) ks"

type_synonym ActionSet = "idx list"

record 'p unit_map =
  tm_entries :: "('p chd \<times> ActionSet) list"
  tm_seen :: "'p chd list"

fun insert_entry :: "'p :: linorder chd \<Rightarrow> ActionSet \<Rightarrow> ('p chd \<times> ActionSet) list \<Rightarrow> ('p chd \<times> ActionSet) list" where
  "insert_entry k v [] = [(k, v)]"
| "insert_entry k v (e # m) = (if chd_less k (fst e) then (k, v) # e # m else e # insert_entry k v m)"

definition enter_action :: "'p :: linorder chd \<Rightarrow> idx \<Rightarrow> 'p unit_map \<Rightarrow> 'p unit_map result" where
  "enter_action k x m =
     (if \<not> strict_weak_order chd_less (k # tm_seen m) then Inl UndefinedBehaviour
      else Inr (m\<lparr>tm_seen := k # tm_seen m,
        tm_entries :=
          (if list_ex (\<lambda>e. equivalent chd_less (fst e) k) (tm_entries m)
           then map (\<lambda>e. if equivalent chd_less (fst e) k then (fst e, insort_insert x (snd e)) else e) (tm_entries m)
           else insert_entry k [x] (tm_entries m))\<rparr>))"

fun translationUnitAnalysis_recurse :: "nat \<Rightarrow> (idx \<Rightarrow> 'p :: linorder option) \<Rightarrow> database \<Rightarrow> idx \<Rightarrow> 'p unit_map \<Rightarrow> 'p unit_map result" where
  "translationUnitAnalysis_recurse 0 getDefinitionFile db act m = Inl OutOfFuel"
| "translationUnitAnalysis_recurse (Suc k) getDefinitionFile db act m =
     (case getContext db act of
        None \<Rightarrow> Inl UndefinedBehaviour
      | Some x \<Rightarrow>
          bindR (chd_of getDefinitionFile db x) (\<lambda>key.
          bindR (enter_action key x m) (\<lambda>m.
          bindR (conc db act) (\<lambda>e.
            foldR (\<lambda>c m. if is_action db c then translationUnitAnalysis_recurse k getDefinitionFile db c m else Inr m)
              (ce_children e) m))))"

section \<open>The units\<close>

text \<open>\<open>relative\<close> stands for the path of a definition file relative to the project folder, without its
  extension, as a string (\<open>edsInclude\<close>, \<open>replace_extension\<close> and \<open>generic_string\<close> of boost).\<close>

definition eds_isalnum :: "char \<Rightarrow> bool" where
  "eds_isalnum c \<longleftrightarrow>
     (let n = of_char c :: nat in 48 \<le> n \<and> n \<le> 57 \<or> 65 \<le> n \<and> n \<le> 90 \<or> 97 \<le> n \<and> n \<le> 122)"

definition style_replace_non_alpha_numeric :: "string \<Rightarrow> char \<Rightarrow> string" where
  "style_replace_non_alpha_numeric str r = map (\<lambda>c. if \<not> eds_isalnum c then r else c) str"

definition identifier_prefix :: "database \<Rightarrow> idx option \<Rightarrow> string" where
  "identifier_prefix db r = (case r of None \<Rightarrow> [] | Some i \<Rightarrow> ident db i @ ''_'')"

definition TUNameFromEGSource :: "('p \<Rightarrow> string) \<Rightarrow> database \<Rightarrow> 'p chd \<Rightarrow> string" where
  "TUNameFromEGSource relative db k =
     (case chd_definitionFile k of
        Some f \<Rightarrow> style_replace_non_alpha_numeric (relative f) (CHR ''_'')
      | None \<Rightarrow> identifier_prefix db (chd_coordinator k) @ identifier_prefix db (chd_host k) @ ''definition'')"

record 'p translation_unit =
  tu_chd :: "'p chd"
  tu_name :: string
  tu_databaseFileID :: int
  tu_actions :: ActionSet

record 'p unit_state =
  us_session :: session
  us_translationUnits :: "(idx \<times> 'p translation_unit) list"
  us_actionTUMap :: "(idx \<times> idx) list"
  us_used :: "int list"
  us_unassigned :: "idx list"

abbreviation no_file :: int where
  "no_file \<equiv> - 1"

abbreviation TU_FILES_BEGIN :: int where
  "TU_FILES_BEGIN \<equiv> 2"

text \<open>The key of the map from contexts to units.\<close>

definition idx_key :: "idx \<Rightarrow> nat" where
  "idx_key i = i"

text \<open>The body of the loop over the map. \<open>pTUFileIDIfExists\<close> is given by the caller; the set of the units
  without a file is ordered by their addresses.\<close>

definition construct_unit :: "('p \<Rightarrow> string) \<Rightarrow> (string \<Rightarrow> int) \<Rightarrow> (idx \<Rightarrow> nat) \<Rightarrow> 'p chd \<times> ActionSet \<Rightarrow>
    'p unit_state \<Rightarrow> 'p unit_state" where
  "construct_unit relative pTUFileIDIfExists addr e st =
     (let name = TUNameFromEGSource relative (ss_objects (us_session st)) (fst e);
          fileID = pTUFileIDIfExists name
      in case construct OtherObject (us_session st) of (i, s) \<Rightarrow>
         \<lparr>us_session = s,
          us_translationUnits = us_translationUnits st @
            [(i, \<lparr>tu_chd = fst e, tu_name = name, tu_databaseFileID = fileID, tu_actions = snd e\<rparr>)],
          us_actionTUMap = fold (\<lambda>x m. map_insert_new idx_key x i m) (snd e) (us_actionTUMap st),
          us_used = (if fileID \<noteq> no_file then insort_insert fileID (us_used st) else us_used st),
          us_unassigned = (if fileID \<noteq> no_file then us_unassigned st else insort_insert_key addr i (us_unassigned st))\<rparr>)"

text \<open>The assignment of new files: \<open>++nextLogicalID\<close> on an \<open>int\<close> must not overflow.\<close>

definition next_id :: "int \<Rightarrow> int result" where
  "next_id n = (if n < 2147483647 then Inr (n + 1) else Inl UndefinedBehaviour)"

fun skip_used :: "int list \<Rightarrow> int \<Rightarrow> (int list \<times> int) result" where
  "skip_used [] n = Inr ([], n)"
| "skip_used (i # is) n = (if n = i then bindR (next_id n) (skip_used is) else Inr (i # is, n))"

definition set_file :: "idx \<Rightarrow> int \<Rightarrow> (idx \<times> 'p translation_unit) list \<Rightarrow> (idx \<times> 'p translation_unit) list" where
  "set_file t n us = map (\<lambda>(i, u). if i = t then (i, u\<lparr>tu_databaseFileID := n\<rparr>) else (i, u)) us"

fun assign_files :: "int list \<Rightarrow> int \<Rightarrow> idx list \<Rightarrow> (idx \<times> 'p translation_unit) list \<Rightarrow> (idx \<times> 'p translation_unit) list result" where
  "assign_files used n [] us = Inr us"
| "assign_files used n (t # ts) us =
     bindR (skip_used used n) (\<lambda>(used, n).
     bindR (next_id n) (\<lambda>n'. assign_files used n' ts (set_file t n us)))"

definition translationUnitAnalysis :: "nat \<Rightarrow> (idx \<Rightarrow> 'p :: linorder option) \<Rightarrow> ('p \<Rightarrow> string) \<Rightarrow> (string \<Rightarrow> int) \<Rightarrow>
    (idx \<Rightarrow> nat) \<Rightarrow> session \<Rightarrow> ((idx \<times> 'p translation_unit) list \<times> (idx \<times> idx) list \<times> session) result" where
  "translationUnitAnalysis k getDefinitionFile relative pTUFileIDIfExists addr s =
     bindR (root (is_action (ss_objects s)) (parent_of (ss_objects s)) (ss_objects s)) (\<lambda>r.
     bindR (translationUnitAnalysis_recurse k getDefinitionFile (ss_objects s) r \<lparr>tm_entries = [], tm_seen = []\<rparr>) (\<lambda>m.
     let st = fold (construct_unit relative pTUFileIDIfExists addr) (tm_entries m)
           \<lparr>us_session = s, us_translationUnits = [], us_actionTUMap = [], us_used = [], us_unassigned = []\<rparr>
     in bindR (assign_files (us_used st) TU_FILES_BEGIN (us_unassigned st) (us_translationUnits st)) (\<lambda>us.
        Inr (us, us_actionTUMap st, us_session st))))"

text \<open>The lookups of \<open>TranslationUnitAnalysis\<close>; \<open>canonical\<close> stands for \<open>edsCannonicalise\<close> and \<open>absolute\<close>.\<close>

definition getActionTU :: "(idx \<times> idx) list \<Rightarrow> idx \<Rightarrow> idx option" where
  "getActionTU m x = (case mm_lookup idx_key x m of [] \<Rightarrow> None | t # _ \<Rightarrow> Some t)"

definition getTU :: "('p \<Rightarrow> 'q) \<Rightarrow> (idx \<times> 'p translation_unit) list \<Rightarrow> 'p \<Rightarrow> idx option" where
  "getTU canonical us f =
     map_option fst (find (\<lambda>(i, u). case chd_definitionFile (tu_chd u) of
       None \<Rightarrow> False | Some g \<Rightarrow> canonical g = canonical f) us)"


section \<open>The files\<close>

lemma skip_used_ok:
  assumes "skip_used used n = Inr (used', n')" and "sorted used" "distinct used" "\<forall>i \<in> set used. n \<le> i"
  shows "n \<le> n' \<and> n' \<notin> set used \<and> sorted used' \<and> distinct used' \<and> (\<forall>i \<in> set used'. n' < i) \<and>
    set used' \<subseteq> set used \<and> (\<forall>i \<in> set used - set used'. i < n')"
  using assms
proof (induction used arbitrary: n)
  case (Cons i used)
  show ?case
  proof (cases "n = i")
    case True
    with Cons.prems have s: "skip_used used (n + 1) = Inr (used', n')"
      by (auto simp: bindR_eq_Inr next_id_def split: if_splits)
    have "n + 1 \<le> j" if "j \<in> set used" for j
    proof -
      have "i \<le> j" "i \<noteq> j" using Cons.prems(2,3) that by auto
      then show ?thesis using True by linarith
    qed
    then have "\<forall>j \<in> set used. n + 1 \<le> j" by blast
    from Cons.IH [OF s _ _ this] Cons.prems(2,3) show ?thesis using True by auto
  next
    case False
    with Cons.prems have "used' = i # used" "n' = n" by auto
    then show ?thesis using Cons.prems False by force
  qed
qed simp

definition with_file :: "(idx \<rightharpoonup> int) \<Rightarrow> idx \<times> 'p translation_unit \<Rightarrow> idx \<times> 'p translation_unit" where
  "with_file f p = (fst p, case f (fst p) of None \<Rightarrow> snd p | Some d \<Rightarrow> (snd p)\<lparr>tu_databaseFileID := d\<rparr>)"

lemma with_file_Some: "f (fst p) = Some d \<Longrightarrow> with_file f p = (fst p, (snd p)\<lparr>tu_databaseFileID := d\<rparr>)"
  by (simp add: with_file_def)

lemma set_file_with: "set_file t n us = map (with_file [t \<mapsto> n]) us"
  by (auto simp: set_file_def with_file_def)

lemma with_file_comp: "t \<notin> dom f \<Longrightarrow> with_file f (with_file [t \<mapsto> n] p) = with_file (f(t \<mapsto> n)) p"
  by (auto simp: with_file_def split: option.split)

lemma assign_files_ok:
  assumes "assign_files used n ts us = Inr us'" and "sorted used" "distinct used" "\<forall>i \<in> set used. n \<le> i" and "distinct ts"
  shows "\<exists>f. us' = map (with_file f) us \<and> dom f = set ts \<and> inj_on f (dom f) \<and>
    (\<forall>t d. f t = Some d \<longrightarrow> n \<le> d \<and> d \<notin> set used)"
  using assms
proof (induction ts arbitrary: used n us)
  case Nil
  have "map (with_file Map.empty) us = us" by (rule map_idI) (simp add: with_file_def)
  with Nil show ?case by (intro exI [of _ Map.empty]) simp
next
  case (Cons t ts)
  then obtain used1 n1 n2 where s: "skip_used used n = Inr (used1, n1)" "next_id n1 = Inr n2"
      "assign_files used1 n2 ts (set_file t n1 us) = Inr us'"
    by (auto simp: bindR_eq_Inr)
  note k = skip_used_ok [OF s(1) Cons.prems(2-4)]
  have n2: "n2 = n1 + 1" using s(2) by (auto simp: next_id_def split: if_splits)
  have "\<forall>i \<in> set used1. n2 \<le> i" using k n2 by force
  from Cons.IH [OF s(3) _ _ this] k Cons.prems(5) have "\<exists>f. us' = map (with_file f) (set_file t n1 us) \<and> dom f = set ts \<and>
      inj_on f (dom f) \<and> (\<forall>t d. f t = Some d \<longrightarrow> n2 \<le> d \<and> d \<notin> set used1)" by simp
  then obtain f where f: "us' = map (with_file f) (set_file t n1 us)" "dom f = set ts"
      "inj_on f (dom f)" "\<forall>t d. f t = Some d \<longrightarrow> n2 \<le> d \<and> d \<notin> set used1" by blast
  have t: "t \<notin> dom f" using f(2) Cons.prems(5) by simp
  let ?g = "f(t \<mapsto> n1)"
  have new: "n1 < d" if "f x = Some d" for x d using f(4) that n2 by force
  have "us' = map (with_file ?g) us" using f(1) t by (simp add: set_file_with with_file_comp)
  moreover have "inj_on ?g (dom ?g)"
  proof (rule inj_onI)
    fix x y assume "x \<in> dom ?g" "y \<in> dom ?g" "?g x = ?g y"
    then show "x = y"
    proof (cases "x = t \<or> y = t")
      case True
      with \<open>?g x = ?g y\<close> \<open>x \<in> dom ?g\<close> \<open>y \<in> dom ?g\<close> show ?thesis using new [of x n1] new [of y n1] by (auto split: if_splits)
    next
      case False
      with \<open>?g x = ?g y\<close> \<open>x \<in> dom ?g\<close> \<open>y \<in> dom ?g\<close> show ?thesis using inj_onD [OF f(3), of x y] by auto
    qed
  qed
  moreover have "n \<le> d \<and> d \<notin> set used" if "?g x = Some d" for x d
  proof (cases "x = t")
    case False
    then have d: "f x = Some d" using that by simp
    then have "n1 < d" "d \<notin> set used1" using new f(4) by auto
    then have "d \<notin> set used" using k by (metis DiffI less_asym)
    moreover have "n \<le> d" using k \<open>n1 < d\<close> by linarith
    ultimately show ?thesis by blast
  qed (use that k in simp)
  moreover have "dom ?g = set (t # ts)" using f(2) by simp
  ultimately show ?case by blast
qed

text \<open>What the loop over the map builds.\<close>

lemma ident_construct [simp]: "ident (ss_objects (snd (construct OtherObject s))) i = ident (ss_objects s) i"
  by (auto simp: construct_def ident_def interface_at_def nth_opt_def nth_append split: option.splits)

lemma TUName_construct [simp]:
  "TUNameFromEGSource relative (ss_objects (snd (construct OtherObject s))) k = TUNameFromEGSource relative (ss_objects s) k"
  by (simp add: TUNameFromEGSource_def identifier_prefix_def split: option.split)

definition unit_for :: "('p \<Rightarrow> string) \<Rightarrow> (string \<Rightarrow> int) \<Rightarrow> database \<Rightarrow> 'p chd \<times> ActionSet \<Rightarrow> 'p translation_unit" where
  "unit_for relative existing db e =
     \<lparr>tu_chd = fst e, tu_name = TUNameFromEGSource relative db (fst e),
      tu_databaseFileID = existing (TUNameFromEGSource relative db (fst e)), tu_actions = snd e\<rparr>"

definition new_units :: "('p \<Rightarrow> string) \<Rightarrow> (string \<Rightarrow> int) \<Rightarrow> session \<Rightarrow> ('p chd \<times> ActionSet) list \<Rightarrow> (idx \<times> 'p translation_unit) list" where
  "new_units relative existing s es =
     map (\<lambda>j. (length (ss_objects s) + j, unit_for relative existing (ss_objects s) (es ! j))) [0..<length es]"

definition state_ok :: "('p \<Rightarrow> string) \<Rightarrow> (string \<Rightarrow> int) \<Rightarrow> session \<Rightarrow> ('p chd \<times> ActionSet) list \<Rightarrow> 'p unit_state \<Rightarrow> bool" where
  "state_ok relative existing s es st \<longleftrightarrow>
     us_translationUnits st = new_units relative existing s es \<and>
     length (ss_objects (us_session st)) = length (ss_objects s) + length es \<and>
     (\<forall>i. ident (ss_objects (us_session st)) i = ident (ss_objects s) i) \<and>
     sorted (us_used st) \<and> distinct (us_used st) \<and>
     set (us_used st) = (\<lambda>p. existing (tu_name (snd p))) ` set (us_translationUnits st) - {no_file} \<and>
     distinct (us_unassigned st) \<and>
     set (us_unassigned st) = {i. \<exists>u. (i, u) \<in> set (us_translationUnits st) \<and> existing (tu_name u) = no_file} \<and>
     mm_sorted idx_key (us_actionTUMap st) \<and>
     (\<forall>x t. getActionTU (us_actionTUMap st) x = Some t \<longleftrightarrow>
        (\<exists>j < length es. x \<in> set (snd (es ! j)) \<and> t = length (ss_objects s) + j \<and> (\<forall>i < j. x \<notin> set (snd (es ! i)))))"


lemma new_units_snoc:
  "new_units relative existing s (es @ [e]) =
     new_units relative existing s es @ [(length (ss_objects s) + length es, unit_for relative existing (ss_objects s) e)]"
  by (auto simp: new_units_def nth_append)

lemma TUName_ident:
  "(\<And>i. ident db i = ident db' i) \<Longrightarrow> TUNameFromEGSource relative db k = TUNameFromEGSource relative db' k"
  by (simp add: TUNameFromEGSource_def identifier_prefix_def split: option.split)

lemma construct_other: "construct OtherObject s = (length (ss_objects s), s\<lparr>ss_objects := ss_objects s @ [OtherObject]\<rparr>)"
  by (simp add: construct_def)

lemma fold_map_insert_new:
  "mm_sorted idx_key m \<Longrightarrow> mm_sorted idx_key (fold (\<lambda>x m. map_insert_new idx_key x i m) A m) \<and>
     getActionTU (fold (\<lambda>x m. map_insert_new idx_key x i m) A m) x =
     (case getActionTU m x of Some t \<Rightarrow> Some t | None \<Rightarrow> if x \<in> set A then Some i else None)"
proof (induction A arbitrary: m)
  case Nil
  then show ?case by (simp split: option.split)
next
  case (Cons a A)
  have "getActionTU (map_insert_new idx_key a i m) x =
      (case getActionTU m x of Some t \<Rightarrow> Some t | None \<Rightarrow> if x = a then Some i else None)"
    unfolding getActionTU_def mm_lookup_map_insert_new [OF Cons.prems]
    by (auto simp: idx_key_def split: list.split)
  with Cons.IH [of "map_insert_new idx_key a i m"] Cons.prems show ?case by (simp split: option.split)
qed

lemma construct_unit_ok:
  assumes "state_ok relative existing s es st" and "inj addr"
  shows "state_ok relative existing s (es @ [e]) (construct_unit relative existing addr e st)"
proof -
  note ok = assms(1) [unfolded state_ok_def]
  let ?s = "us_session st" and ?st = "construct_unit relative existing addr e st"
  let ?n = "TUNameFromEGSource relative (ss_objects s) (fst e)" and ?i = "length (ss_objects s) + length es"
  have n: "TUNameFromEGSource relative (ss_objects ?s) (fst e) = ?n"
    by (rule TUName_ident) (use ok in simp)
  have st: "?st = \<lparr>us_session = ?s\<lparr>ss_objects := ss_objects ?s @ [OtherObject]\<rparr>,
      us_translationUnits = us_translationUnits st @ [(?i, unit_for relative existing (ss_objects s) e)],
      us_actionTUMap = fold (\<lambda>x m. map_insert_new idx_key x ?i m) (snd e) (us_actionTUMap st),
      us_used = (if existing ?n \<noteq> no_file then insort_insert (existing ?n) (us_used st) else us_used st),
      us_unassigned = (if existing ?n \<noteq> no_file then us_unassigned st else insort_insert_key addr ?i (us_unassigned st))\<rparr>"
    using ok by (simp add: construct_unit_def construct_other n Let_def unit_for_def)
  have units: "us_translationUnits ?st = new_units relative existing s (es @ [e])"
    using ok by (simp add: st new_units_snoc)
  have fresh: "?i \<notin> set (us_unassigned st)" using ok by (auto simp: new_units_def)
  have ident: "ident (ss_objects ?s @ [OtherObject]) i = ident (ss_objects s) i" for i
    using ok ident_construct [of ?s i] by (simp add: construct_other)
  have un: "set (insort_insert_key addr ?i (us_unassigned st)) = insert ?i (set (us_unassigned st))"
      "distinct (insort_insert_key addr ?i (us_unassigned st))"
    using fresh ok by (auto simp: insort_insert_key_def set_insort_key distinct_insort inj_eq [OF assms(2)])
  have old: "getActionTU (us_actionTUMap st) x = Some t \<longleftrightarrow>
      (\<exists>j < length es. x \<in> set (snd (es ! j)) \<and> t = length (ss_objects s) + j \<and> (\<forall>i < j. x \<notin> set (snd (es ! i))))" for x t
    using ok by simp
  have tu: "getActionTU (us_actionTUMap ?st) x = Some t \<longleftrightarrow>
      (\<exists>j < length (es @ [e]). x \<in> set (snd ((es @ [e]) ! j)) \<and> t = length (ss_objects s) + j \<and>
        (\<forall>i < j. x \<notin> set (snd ((es @ [e]) ! i))))" for x t
  proof -
    have "getActionTU (us_actionTUMap ?st) x = (case getActionTU (us_actionTUMap st) x of Some t \<Rightarrow> Some t
        | None \<Rightarrow> if x \<in> set (snd e) then Some ?i else None)"
      using ok by (simp add: st fold_map_insert_new)
    moreover have "getActionTU (us_actionTUMap st) x = None \<longleftrightarrow> (\<forall>j < length es. x \<notin> set (snd (es ! j)))"
    proof
      assume none: "getActionTU (us_actionTUMap st) x = None"
      show "\<forall>j < length es. x \<notin> set (snd (es ! j))"
      proof (rule ccontr)
        assume "\<not> ?thesis"
        then obtain j where "j < length es \<and> x \<in> set (snd (es ! j))" "\<forall>i < j. \<not> (i < length es \<and> x \<in> set (snd (es ! i)))"
          using exists_least_iff [of "\<lambda>j. j < length es \<and> x \<in> set (snd (es ! j))"] by auto
        then have "getActionTU (us_actionTUMap st) x = Some (length (ss_objects s) + j)"
          unfolding old by (intro exI [of _ j]) auto
        then show False using none by simp
      qed
    next
      assume "\<forall>j < length es. x \<notin> set (snd (es ! j))"
      then show "getActionTU (us_actionTUMap st) x = None" 
        using old [of x] by (metis not_None_eq)
    qed
    moreover have "(\<exists>j < length (es @ [e]). P j ((es @ [e]) ! j) \<and> (\<forall>i < j. Q ((es @ [e]) ! i))) \<longleftrightarrow>
        (\<exists>j < length es. P j (es ! j) \<and> (\<forall>i < j. Q (es ! i))) \<or> P (length es) e \<and> (\<forall>i < length es. Q (es ! i))" for P Q
      by (auto simp: less_Suc_eq nth_append)
    note this [of "\<lambda>j e. x \<in> set (snd e) \<and> t = length (ss_objects s) + j" "\<lambda>e. x \<notin> set (snd e)"]
    moreover have "getActionTU (us_actionTUMap st) x = Some t \<longleftrightarrow>
        (\<exists>j < length es. (x \<in> set (snd (es ! j)) \<and> t = length (ss_objects s) + j) \<and> (\<forall>i < j. x \<notin> set (snd (es ! i))))"
      unfolding old by (simp add: conj_assoc)
    ultimately show ?thesis
      by (cases "getActionTU (us_actionTUMap st) x") (auto simp: conj_assoc)
  qed
  show ?thesis
    unfolding state_ok_def
  proof (intro conjI)
    show "us_translationUnits ?st = new_units relative existing s (es @ [e])" by (rule units)
    show "length (ss_objects (us_session ?st)) = length (ss_objects s) + length (es @ [e])" using ok by (simp add: st)
    show "\<forall>i. ident (ss_objects (us_session ?st)) i = ident (ss_objects s) i" by (simp add: st ident)
    show "sorted (us_used ?st)" "distinct (us_used ?st)"
      using ok by (simp_all add: st sorted_insort_insert distinct_insort_insert)
    show "set (us_used ?st) = (\<lambda>p. existing (tu_name (snd p))) ` set (us_translationUnits ?st) - {no_file}"
      using ok by (auto simp: st set_insort_insert unit_for_def)
    show "distinct (us_unassigned ?st)" using ok un by (simp add: st)
    show "set (us_unassigned ?st) = {i. \<exists>u. (i, u) \<in> set (us_translationUnits ?st) \<and> existing (tu_name u) = no_file}"
      using ok un by (auto simp: st unit_for_def)
    show "mm_sorted idx_key (us_actionTUMap ?st)" using ok by (simp add: st fold_map_insert_new)
    show "\<forall>x t. getActionTU (us_actionTUMap ?st) x = Some t \<longleftrightarrow>
        (\<exists>j < length (es @ [e]). x \<in> set (snd ((es @ [e]) ! j)) \<and> t = length (ss_objects s) + j \<and>
          (\<forall>i < j. x \<notin> set (snd ((es @ [e]) ! i))))"
      using tu by blast
  qed
qed

lemma construct_units_ok:
  assumes "inj addr"
  shows "state_ok relative existing s es st \<Longrightarrow>
    state_ok relative existing s (es @ es') (fold (construct_unit relative existing addr) es' st)"
proof (induction es' arbitrary: es st)
  case (Cons e es')
  from Cons.IH [OF construct_unit_ok [OF Cons.prems assms]] show ?case by simp
qed simp

section \<open>The groups\<close>

lemma equivalent_sym: "equivalent lt x y \<Longrightarrow> equivalent lt y x"
  by (simp add: equivalent_def)

lemma equivalent_trans:
  assumes "strict_weak_order lt ks" and "x \<in> set ks" "y \<in> set ks" "z \<in> set ks"
    and "equivalent lt x y" "equivalent lt y z"
  shows "equivalent lt x z"
  using assms unfolding strict_weak_order_def list_all_iff by blast

lemma equivalent_refl: "strict_weak_order lt ks \<Longrightarrow> x \<in> set ks \<Longrightarrow> equivalent lt x x"
  unfolding strict_weak_order_def list_all_iff equivalent_def by blast

text \<open>The entries of the map: the keys are apart, and every action stands under a key that is equivalent
  to its own.\<close>

definition entries_ok :: "(idx \<Rightarrow> 'p :: linorder chd result) \<Rightarrow> 'p unit_map \<Rightarrow> bool" where
  "entries_ok key m \<longleftrightarrow>
     (tm_seen m = [] \<or> strict_weak_order chd_less (tm_seen m)) \<and>
     sorted_wrt (\<lambda>k l. \<not> equivalent chd_less k l) (map fst (tm_entries m)) \<and>
     (\<forall>e \<in> set (tm_entries m). fst e \<in> set (tm_seen m) \<and>
        (\<forall>x \<in> set (snd e). \<exists>k \<in> set (tm_seen m). key x = Inr k \<and> equivalent chd_less (fst e) k))"

definition covers :: "'p unit_map \<Rightarrow> idx \<Rightarrow> bool" where
  "covers m x \<longleftrightarrow> (\<exists>e \<in> set (tm_entries m). x \<in> set (snd e))"

lemma set_insert_entry [simp]: "set (insert_entry k v m) = insert (k, v) (set m)"
  by (induction m) auto

lemma insert_entry_apart:
  assumes "sorted_wrt (\<lambda>k l. \<not> equivalent chd_less k l) (map fst m)" and "\<forall>e \<in> set m. \<not> equivalent chd_less (fst e) k"
  shows "sorted_wrt (\<lambda>k l. \<not> equivalent chd_less k l) (map fst (insert_entry k v m))"
  using assms
proof (induction m)
  case (Cons e m)
  have k: "\<not> equivalent chd_less k (fst d)" if "d \<in> set (e # m)" for d
    using Cons.prems(2) that equivalent_sym [of chd_less k "fst d"] by auto
  have IH: "sorted_wrt (\<lambda>k l. \<not> equivalent chd_less k l) (map fst (insert_entry k v m))"
    by (rule Cons.IH) (use Cons.prems in simp_all)
  show ?case
  proof (cases "chd_less k (fst e)")
    case True
    then show ?thesis using Cons.prems(1) k by simp
  next
    case False
    then show ?thesis using Cons.prems IH by simp
  qed
qed simp

lemma enter_action_ok:
  assumes "enter_action k x m = Inr m'" and "entries_ok key m" and "key x = Inr k"
  shows "entries_ok key m' \<and> covers m' x \<and> (\<forall>y. covers m y \<longrightarrow> covers m' y)"
proof -
  let ?eq = "equivalent chd_less" and ?es = "tm_entries m"
  let ?seen = "k # tm_seen m"
  from assms(1) have sw: "strict_weak_order chd_less ?seen" and m': "m' = m\<lparr>tm_seen := ?seen,
      tm_entries := (if list_ex (\<lambda>e. ?eq (fst e) k) ?es
        then map (\<lambda>e. if ?eq (fst e) k then (fst e, insort_insert x (snd e)) else e) ?es else insert_entry k [x] ?es)\<rparr>"
    by (auto simp: enter_action_def split: if_splits)
  have old: "fst e \<in> set ?seen \<and> (\<forall>x \<in> set (snd e). \<exists>k \<in> set ?seen. key x = Inr k \<and> ?eq (fst e) k)" if "e \<in> set ?es" for e
    using assms(2) that unfolding entries_ok_def by (meson list.set_intros(2))
  show ?thesis
  proof (cases "list_ex (\<lambda>e. ?eq (fst e) k) ?es")
    case True
    let ?f = "\<lambda>e. if ?eq (fst e) k then (fst e, insort_insert x (snd e)) else e"
    have es: "tm_entries m' = map ?f ?es" "tm_seen m' = ?seen" using True m' by simp_all
    have "map fst (tm_entries m') = map fst ?es" by (simp add: es comp_def if_distrib cong: if_cong)
    moreover have "fst e' \<in> set ?seen \<and> (\<forall>y \<in> set (snd e'). \<exists>l \<in> set ?seen. key y = Inr l \<and> ?eq (fst e') l)"
      if "e' \<in> set (tm_entries m')" for e'
    proof -
      obtain e where e: "e \<in> set ?es" "e' = ?f e" using \<open>e' \<in> set (tm_entries m')\<close> unfolding es(1) set_map by blast
      show ?thesis using old [OF e(1)] e(2) assms(3) by (auto simp: set_insort_insert)
    qed
    ultimately have "entries_ok key m'" using assms(2) sw es(2) by (simp add: entries_ok_def)
    moreover have "covers m' x"
    proof -
      obtain e where "e \<in> set ?es" "?eq (fst e) k" using True by (auto simp: list_ex_iff)
      then have "(fst e, insort_insert x (snd e)) \<in> set (tm_entries m')" using es by force
      then show ?thesis unfolding covers_def by (intro bexI) (auto simp: set_insort_insert)
    qed
    moreover have "covers m' y" if y: "covers m y" for y
    proof -
      obtain e where "e \<in> set ?es" "y \<in> set (snd e)" using y by (auto simp: covers_def)
      then have "?f e \<in> set (tm_entries m')" "y \<in> set (snd (?f e))" using es by (auto simp: set_insort_insert)
      then show ?thesis unfolding covers_def by blast
    qed
    ultimately show ?thesis by blast
  next
    case False
    then have es: "tm_entries m' = insert_entry k [x] ?es" "tm_seen m' = ?seen" using m' by simp_all
    have "\<forall>e \<in> set ?es. \<not> ?eq (fst e) k" using False by (auto simp: list_ex_iff)
    then have "sorted_wrt (\<lambda>k l. \<not> ?eq k l) (map fst (tm_entries m'))"
      using assms(2) es(1) insert_entry_apart unfolding entries_ok_def by metis
    moreover have "?eq k k" by (rule equivalent_refl [OF sw]) simp
    ultimately have "entries_ok key m'" using sw es old assms(3) by (auto simp: entries_ok_def)
    then show ?thesis using es by (auto simp: covers_def)
  qed
qed

text \<open>The walk over the tree of actions.\<close>

definition action_child :: "database \<Rightarrow> idx \<Rightarrow> idx \<Rightarrow> bool" where
  "action_child db p c \<longleftrightarrow> (\<exists>e. concrete_at db p = Some e \<and> c \<in> set (ce_children e) \<and> is_action db c)"

definition in_tree :: "database \<Rightarrow> idx \<Rightarrow> idx \<Rightarrow> bool" where
  "in_tree db r c \<longleftrightarrow> (action_child db)\<^sup>*\<^sup>* r c"

lemma foldR_visited:
  assumes "foldR f xs s = Inr s'" and "I s"
    and step: "\<And>x t t'. x \<in> set xs \<Longrightarrow> I t \<Longrightarrow> f x t = Inr t' \<Longrightarrow> I t' \<and> R t t' \<and> D x t'"
    and mono: "\<And>x t t'. D x t \<Longrightarrow> R t t' \<Longrightarrow> D x t'" and "\<And>t. R t t" and trans: "\<And>t u v. R t u \<Longrightarrow> R u v \<Longrightarrow> R t v"
  shows "I s' \<and> R s s' \<and> (\<forall>x \<in> set xs. D x s')"
  using assms(1,2) step
proof (induction xs arbitrary: s)
  case Nil
  then show ?case using assms(5) by simp
next
  case (Cons x xs)
  from Cons.prems(1) obtain t where t: "f x s = Inr t" "foldR f xs t = Inr s'" by (auto simp: bindR_eq_Inr)
  have 1: "I t \<and> R s t \<and> D x t" using Cons.prems(2) Cons.prems(3) [of x s t] t(1) by simp
  have "I s' \<and> R t s' \<and> (\<forall>x \<in> set xs. D x s')"
  proof (rule Cons.IH [OF t(2)])
    show "I t" using 1 by blast
  next
    fix y u u' assume "y \<in> set xs" "I u" "f y u = Inr u'"
    then show "I u' \<and> R u u' \<and> D y u'" using Cons.prems(3) [of y u u'] by simp
  qed
  with 1 mono trans show ?case by (metis set_ConsD)
qed

lemma recurse_covers:
  "translationUnitAnalysis_recurse k df db act m = Inr m' \<Longrightarrow> entries_ok (chd_of df db) m \<Longrightarrow>
     entries_ok (chd_of df db) m' \<and> (\<forall>y. covers m y \<longrightarrow> covers m' y) \<and>
     (\<forall>c. in_tree db act c \<longrightarrow> (\<exists>x. getContext db c = Some x \<and> covers m' x))"
proof (induction k arbitrary: act m m')
  case (Suc k)
  let ?f = "\<lambda>c m. if is_action db c then translationUnitAnalysis_recurse k df db c m else Inr m"
  from Suc.prems(1) obtain x key m1 e where x: "getContext db act = Some x" "chd_of df db x = Inr key"
      "enter_action key x m = Inr m1" "concrete_at db act = Some e" "foldR ?f (ce_children e) m1 = Inr m'"
    by (auto simp: bindR_eq_Inr conc_def split: option.splits)
  have m1: "entries_ok (chd_of df db) m1 \<and> covers m1 x \<and> (\<forall>y. covers m y \<longrightarrow> covers m1 y)"
    by (rule enter_action_ok [OF x(3) Suc.prems(2) x(2)])
  have *: "entries_ok (chd_of df db) m' \<and> (\<forall>y. covers m1 y \<longrightarrow> covers m' y) \<and>
      (\<forall>d \<in> set (ce_children e). is_action db d \<longrightarrow> (\<forall>c. in_tree db d c \<longrightarrow> (\<exists>x. getContext db c = Some x \<and> covers m' x)))"
  proof (rule foldR_visited [OF x(5), where I = "entries_ok (chd_of df db)" and R = "\<lambda>m m'. \<forall>y. covers m y \<longrightarrow> covers m' y"
      and D = "\<lambda>d m'. is_action db d \<longrightarrow> (\<forall>c. in_tree db d c \<longrightarrow> (\<exists>x. getContext db c = Some x \<and> covers m' x))"])
    show "entries_ok (chd_of df db) m1" using m1 by blast
  next
    fix d t t'
    assume "entries_ok (chd_of df db) t" "?f d t = Inr t'"
    then show "entries_ok (chd_of df db) t' \<and> (\<forall>y. covers t y \<longrightarrow> covers t' y) \<and>
        (is_action db d \<longrightarrow> (\<forall>c. in_tree db d c \<longrightarrow> (\<exists>x. getContext db c = Some x \<and> covers t' x)))"
      using Suc.IH [of d t t'] by (cases "is_action db d") simp_all
  qed blast+
  have "\<exists>x. getContext db c = Some x \<and> covers m' x" if "in_tree db act c" for c
    using that unfolding in_tree_def
  proof (cases rule: converse_rtranclpE)
    case base
    then show ?thesis using x(1) m1 * by blast
  next
    case (step d)
    then have "d \<in> set (ce_children e)" "is_action db d" "in_tree db d c" using x(4) by (auto simp: action_child_def in_tree_def)
    then show ?thesis using * by blast
  qed
  then show ?case using * m1 by blast
qed simp

section \<open>The properties\<close>

lemma state_okD:
  assumes "state_ok relative existing s es st"
  shows "us_translationUnits st = new_units relative existing s es" "sorted (us_used st)" "distinct (us_used st)"
    "set (us_used st) = (\<lambda>p. existing (tu_name (snd p))) ` set (us_translationUnits st) - {- 1}"
    "distinct (us_unassigned st)" "i \<in> set (us_unassigned st) \<longleftrightarrow> (\<exists>u. (i, u) \<in> set (us_translationUnits st) \<and> existing (tu_name u) = - 1)"
    "getActionTU (us_actionTUMap st) x = Some t \<longleftrightarrow>
       (\<exists>j < length es. x \<in> set (snd (es ! j)) \<and> t = length (ss_objects s) + j \<and> (\<forall>i < j. x \<notin> set (snd (es ! i))))"
  using assms by (simp_all add: state_ok_def)

lemma analysis_state:
  assumes "translationUnitAnalysis k df relative existing addr s = Inr (us, m, s')" and "inj addr"
  obtains r um st where "root (is_action (ss_objects s)) (parent_of (ss_objects s)) (ss_objects s) = Inr r"
    "translationUnitAnalysis_recurse k df (ss_objects s) r \<lparr>tm_entries = [], tm_seen = []\<rparr> = Inr um"
    "state_ok relative existing s (tm_entries um) st" "m = us_actionTUMap st"
    "assign_files (us_used st) TU_FILES_BEGIN (us_unassigned st) (us_translationUnits st) = Inr us"
proof -
  let ?st0 = "\<lparr>us_session = s, us_translationUnits = [], us_actionTUMap = [], us_used = [], us_unassigned = []\<rparr>"
  from assms(1) obtain r um where r: "root (is_action (ss_objects s)) (parent_of (ss_objects s)) (ss_objects s) = Inr r"
      "translationUnitAnalysis_recurse k df (ss_objects s) r \<lparr>tm_entries = [], tm_seen = []\<rparr> = Inr um"
      "assign_files (us_used (fold (construct_unit relative existing addr) (tm_entries um) ?st0)) TU_FILES_BEGIN
         (us_unassigned (fold (construct_unit relative existing addr) (tm_entries um) ?st0))
         (us_translationUnits (fold (construct_unit relative existing addr) (tm_entries um) ?st0)) = Inr us"
      "m = us_actionTUMap (fold (construct_unit relative existing addr) (tm_entries um) ?st0)"
    by (auto simp: translationUnitAnalysis_def bindR_eq_Inr Let_def)
  have "state_ok relative existing s [] ?st0" by (simp add: state_ok_def new_units_def getActionTU_def)
  from construct_units_ok [OF assms(2) this, of "tm_entries um"] show thesis by (intro that) (use r in simp_all)
qed

lemma new_units_at:
  "(i, u) \<in> set (new_units relative existing s es) \<longleftrightarrow>
     (\<exists>j < length es. i = length (ss_objects s) + j \<and> u = unit_for relative existing (ss_objects s) (es ! j))"
  by (auto simp: new_units_def image_iff)

lemma new_units_distinct: "distinct (map fst (new_units relative existing s es))"
proof (induction es rule: rev_induct)
  case (snoc e es)
  have "length (ss_objects s) + length es \<notin> fst ` set (new_units relative existing s es)"
    by (auto simp: new_units_at)
  with snoc show ?case by (simp add: new_units_snoc)
qed (simp add: new_units_def)

lemma with_file_fst [simp]: "fst (with_file f p) = fst p"
  by (simp add: with_file_def)

lemma with_file_members [simp]:
  "tu_name (snd (with_file f p)) = tu_name (snd p)" "tu_actions (snd (with_file f p)) = tu_actions (snd p)"
  "tu_chd (snd (with_file f p)) = tu_chd (snd p)"
  by (simp_all add: with_file_def split: option.split)

lemma assign_files_with: "assign_files used n ts us = Inr us' \<Longrightarrow> \<exists>f. us' = map (with_file f) us"
proof (induction ts arbitrary: used n us)
  case Nil
  have "map (with_file Map.empty) us = us" by (rule map_idI) (simp add: with_file_def)
  with Nil show ?case by (intro exI [of _ Map.empty]) simp
next
  case (Cons t ts)
  then obtain used1 n1 n2 where "assign_files used1 n2 ts (set_file t n1 us) = Inr us'" by (auto simp: bindR_eq_Inr)
  from Cons.IH [OF this] obtain f where f: "us' = map (with_file f) (set_file t n1 us)" by blast
  have "us' = map (with_file (\<lambda>x. case f x of Some d \<Rightarrow> Some d | None \<Rightarrow> [t \<mapsto> n1] x)) us"
    unfolding f set_file_with map_map comp_def by (rule map_cong) (simp_all add: with_file_def split: option.split)
  then show ?case by blast
qed

text \<open>The numbers of the files: \<open>f\<close> has those that were assigned, \<open>used\<close> are those that exist.\<close>

definition files_ok :: "(string \<Rightarrow> int) \<Rightarrow> (idx \<rightharpoonup> int) \<Rightarrow> (idx \<times> 'p translation_unit) list \<Rightarrow> bool" where
  "files_ok existing f U \<longleftrightarrow> distinct (map fst U) \<and> inj_on f (dom f) \<and>
     (\<forall>t d. f t = Some d \<longrightarrow> 2 \<le> d \<and> (\<forall>p \<in> set U. existing (tu_name (snd p)) \<noteq> d)) \<and>
     (\<forall>p \<in> set U. if existing (tu_name (snd p)) = - 1
        then f (fst p) = Some (tu_databaseFileID (snd (with_file f p)))
        else 2 \<le> existing (tu_name (snd p)) \<and> tu_databaseFileID (snd (with_file f p)) = existing (tu_name (snd p)))"

lemma analysis_files_ok:
  assumes "translationUnitAnalysis k df relative existing addr s = Inr (us, m, s')" and "inj addr"
    and "\<forall>(i, u) \<in> set us. existing (tu_name u) = - 1 \<or> 2 \<le> existing (tu_name u)"
  shows "\<exists>f U. us = map (with_file f) U \<and> files_ok existing f U"
proof -
  obtain r um st where "root (is_action (ss_objects s)) (parent_of (ss_objects s)) (ss_objects s) = Inr r"
      "translationUnitAnalysis_recurse k df (ss_objects s) r \<lparr>tm_entries = [], tm_seen = []\<rparr> = Inr um"
      and st: "state_ok relative existing s (tm_entries um) st"
      and "m = us_actionTUMap st"
      and st': "assign_files (us_used st) TU_FILES_BEGIN (us_unassigned st) (us_translationUnits st) = Inr us"
    by (rule analysis_state [OF assms(1,2)])
  note ok = state_okD [OF st]
  let ?U = "us_translationUnits st"
  obtain g where g: "us = map (with_file g) ?U" using assign_files_with [OF st'] by blast
  have ex: "existing (tu_name (snd p)) = - 1 \<or> 2 \<le> existing (tu_name (snd p))" if "p \<in> set ?U" for p
    using bspec [OF assms(3), of "with_file g p"] that g by (auto simp: case_prod_beta)
  have used: "\<forall>d \<in> set (us_used st). 2 \<le> d" unfolding ok(4) using ex by auto
  from assign_files_ok [OF st' ok(2,3) used ok(5)] obtain f where f: "us = map (with_file f) ?U" "dom f = set (us_unassigned st)"
      "inj_on f (dom f)" "\<forall>t d. f t = Some d \<longrightarrow> 2 \<le> d \<and> d \<notin> set (us_used st)" by blast
  have indices: "distinct (map fst ?U)" unfolding ok(1) by (rule new_units_distinct)
  have "2 \<le> d \<and> (\<forall>p \<in> set ?U. existing (tu_name (snd p)) \<noteq> d)" if "f t = Some d" for t d
    using f(4) that unfolding ok(4) by fastforce
  moreover have "if existing (tu_name (snd p)) = - 1 then f (fst p) = Some (tu_databaseFileID (snd (with_file f p)))
      else 2 \<le> existing (tu_name (snd p)) \<and> tu_databaseFileID (snd (with_file f p)) = existing (tu_name (snd p))"
    if p: "p \<in> set ?U" for p
  proof (cases "existing (tu_name (snd p)) = - 1")
    case True
    then have "fst p \<in> dom f" unfolding f(2) ok(6) using p by (intro exI [of _ "snd p"]) simp
    then show ?thesis using True by (auto simp: with_file_def)
  next
    case False
    have "u = snd p" if "(fst p, u) \<in> set ?U" for u
      using indices p that by (metis eq_key_imp_eq_value prod.collapse)
    then have "fst p \<notin> set (us_unassigned st)" using False unfolding ok(6) by blast
    then have "f (fst p) = None" using f(2) by blast
    moreover have "tu_databaseFileID (snd p) = existing (tu_name (snd p))"
      using p unfolding ok(1) new_units_def by (auto simp: unit_for_def)
    ultimately show ?thesis using False ex [OF p] by (simp add: with_file_def)
  qed
  ultimately show ?thesis using f(1,3) indices unfolding files_ok_def by blast
qed

lemma files_ok_one:
  assumes "files_ok existing f U" and "p \<in> set U"
  shows "2 \<le> tu_databaseFileID (snd (with_file f p)) \<and>
    (if existing (tu_name (snd p)) \<noteq> - 1 then tu_databaseFileID (snd (with_file f p)) = existing (tu_name (snd p))
     else \<forall>q \<in> set U. existing (tu_name (snd q)) \<noteq> tu_databaseFileID (snd (with_file f p)))"
  using assms unfolding files_ok_def by (auto split: if_splits)

lemma files_ok_same:
  assumes ok: "files_ok existing f U" and p: "p \<in> set U" and q: "q \<in> set U"
  shows "tu_databaseFileID (snd (with_file f p)) = tu_databaseFileID (snd (with_file f q)) \<longleftrightarrow>
    fst p = fst q \<or> existing (tu_name (snd p)) \<noteq> - 1 \<and> existing (tu_name (snd p)) = existing (tu_name (snd q))"
proof -
  let ?file = "\<lambda>p. tu_databaseFileID (snd (with_file f p))"
  have id: "p = q" if "fst p = fst q"
    using ok p q that unfolding files_ok_def by (metis eq_key_imp_eq_value prod.collapse)
  have fid: "if existing (tu_name (snd x)) = - 1 then f (fst x) = Some (?file x)
      else ?file x = existing (tu_name (snd x))" if "x \<in> set U" for x
    using ok that unfolding files_ok_def by auto
  show ?thesis
  proof (cases "existing (tu_name (snd p)) = - 1 \<and> existing (tu_name (snd q)) = - 1")
    case True
    then have "f (fst p) = Some (?file p)" "f (fst q) = Some (?file q)" using fid [OF p] fid [OF q] by auto
    then have "fst p = fst q" if "?file p = ?file q"
      using ok that inj_onD [of f "dom f" "fst p" "fst q"] unfolding files_ok_def by auto
    then show ?thesis using True id by blast
  next
    case False
    have "existing (tu_name (snd p)) = existing (tu_name (snd q)) \<and> existing (tu_name (snd p)) \<noteq> - 1" if "?file p = ?file q"
      using files_ok_one [OF ok p] files_ok_one [OF ok q] p q that False by (auto split: if_splits)
    moreover have "?file p = ?file q" if "existing (tu_name (snd p)) \<noteq> - 1" "existing (tu_name (snd p)) = existing (tu_name (snd q))"
      using fid [OF p] fid [OF q] that by simp
    ultimately show ?thesis using id by blast
  qed
qed

text \<open>C27. When no existing file has the number of the interface or of the analysis, the files of the
  translation units are these: a unit whose name has a file keeps it, every other unit gets a number that no
  existing file has, no number is below \<open>TU_FILES_BEGIN\<close>, and two units share a file exactly when their
  names have one and the same existing file. Nothing keeps the last case away: units of different definition
  files can have the same name, and the check for used numbers is commented out.\<close>

theorem translation_unit_files:
  assumes "translationUnitAnalysis k df relative existing addr s = Inr (us, m, s')" and "inj addr"
    and "\<forall>(i, u) \<in> set us. existing (tu_name u) = - 1 \<or> 2 \<le> existing (tu_name u)"
  shows "distinct (map fst us) \<and>
    (\<forall>(i, u) \<in> set us. 2 \<le> tu_databaseFileID u \<and>
       (if existing (tu_name u) \<noteq> - 1 then tu_databaseFileID u = existing (tu_name u)
        else \<forall>(j, v) \<in> set us. existing (tu_name v) \<noteq> tu_databaseFileID u)) \<and>
    (\<forall>(i, u) \<in> set us. \<forall>(j, v) \<in> set us. tu_databaseFileID u = tu_databaseFileID v \<longleftrightarrow>
       i = j \<or> existing (tu_name u) \<noteq> - 1 \<and> existing (tu_name u) = existing (tu_name v))"
proof -
  obtain f U where f: "us = map (with_file f) U" and ok: "files_ok existing f U" using analysis_files_ok [OF assms] by blast
  have "map fst us = map fst U" unfolding f by (simp add: comp_def)
  then have "distinct (map fst us)" using ok by (simp add: files_ok_def)
  moreover have "\<forall>(i, u) \<in> set us. 2 \<le> tu_databaseFileID u \<and>
       (if existing (tu_name u) \<noteq> - 1 then tu_databaseFileID u = existing (tu_name u)
        else \<forall>(j, v) \<in> set us. existing (tu_name v) \<noteq> tu_databaseFileID u)"
    using files_ok_one [OF ok] unfolding f by (simp add: case_prod_beta)
  moreover have "\<forall>(i, u) \<in> set us. \<forall>(j, v) \<in> set us. tu_databaseFileID u = tu_databaseFileID v \<longleftrightarrow>
       i = j \<or> existing (tu_name u) \<noteq> - 1 \<and> existing (tu_name u) = existing (tu_name v)"
    using files_ok_same [OF ok] unfolding f by (simp add: case_prod_beta)
  ultimately show ?thesis by blast
qed

text \<open>When two keys are equivalent.\<close>

definition compatible_roots :: "idx option \<Rightarrow> idx option \<Rightarrow> bool" where
  "compatible_roots r q \<longleftrightarrow> r = None \<or> q = None \<or> r = q"

lemma equivalent_chd:
  "equivalent chd_less k l \<longleftrightarrow>
     compatible_roots (chd_coordinator k) (chd_coordinator l) \<and> compatible_roots (chd_host k) (chd_host l) \<and>
     chd_definitionFile k = chd_definitionFile l"
proof -
  have "\<not> optional_less p q \<and> \<not> optional_less q p \<longleftrightarrow> p = q" for p q :: "'a option"
    by (cases p; cases q) (auto simp: not_less_iff_gr_or_eq)
  then show ?thesis
    by (auto simp: equivalent_def chd_less_def compatible_roots_def split: option.splits if_splits)
qed

lemma sorted_wrt_apart:
  assumes "sorted_wrt (\<lambda>k l. \<not> R k l) (map f xs)" and "e \<in> set xs" "d \<in> set xs" and "R (f e) (f d)" "R (f d) (f e)"
  shows "e = d"
proof -
  obtain j l where at: "j < length xs" "xs ! j = e" "l < length xs" "xs ! l = d" using assms(2,3) by (auto simp: in_set_conv_nth)
  have no: "\<not> R (f (xs ! m)) (f (xs ! n))" if "m < n" "n < length xs" for m n
    using assms(1) that by (simp add: sorted_wrt_iff_nth_less)
  show ?thesis
  proof (cases j l rule: linorder_cases)
    case less
    then show ?thesis using no [OF less at(3)] at(2,4) assms(4) by simp
  next
    case equal
    then show ?thesis using at by simp
  next
    case greater
    then show ?thesis using no [OF greater at(1)] at(2,4) assms(5) by simp
  qed
qed

text \<open>The entries of the map have the keys that were entered first.\<close>

definition keeps_entries :: "'p :: linorder unit_map \<Rightarrow> 'p unit_map \<Rightarrow> bool" where
  "keeps_entries m m' \<longleftrightarrow> (\<forall>e \<in> set (tm_entries m). \<exists>e' \<in> set (tm_entries m'). fst e' = fst e \<and> set (snd e) \<subseteq> set (snd e'))"

lemma keeps_entries_refl: "keeps_entries m m"
  by (auto simp: keeps_entries_def)

lemma keeps_entries_trans: "keeps_entries m m' \<Longrightarrow> keeps_entries m' m'' \<Longrightarrow> keeps_entries m m''"
  unfolding keeps_entries_def
proof
  fix e assume a: "\<forall>e \<in> set (tm_entries m). \<exists>e' \<in> set (tm_entries m'). fst e' = fst e \<and> set (snd e) \<subseteq> set (snd e')"
    and b: "\<forall>e \<in> set (tm_entries m'). \<exists>e' \<in> set (tm_entries m''). fst e' = fst e \<and> set (snd e) \<subseteq> set (snd e')"
    and e: "e \<in> set (tm_entries m)"
  from bspec [OF a e] obtain f where f: "f \<in> set (tm_entries m')" "fst f = fst e" "set (snd e) \<subseteq> set (snd f)" by blast
  from bspec [OF b f(1)] obtain g where "g \<in> set (tm_entries m'')" "fst g = fst f" "set (snd f) \<subseteq> set (snd g)" by blast
  with f show "\<exists>e' \<in> set (tm_entries m''). fst e' = fst e \<and> set (snd e) \<subseteq> set (snd e')"
    by (intro bexI [of _ g]) auto
qed

lemma enter_action_keeps:
  assumes "enter_action k x m = Inr m'" shows "keeps_entries m m'"
  unfolding keeps_entries_def
proof
  fix e assume e: "e \<in> set (tm_entries m)"
  let ?f = "\<lambda>e. if equivalent chd_less (fst e) k then (fst e, insort_insert x (snd e)) else e"
  have "tm_entries m' = map ?f (tm_entries m) \<or> tm_entries m' = insert_entry k [x] (tm_entries m)"
    using assms by (auto simp: enter_action_def simp del: map_eq_conv split: if_splits)
  then have "?f e \<in> set (tm_entries m') \<or> e \<in> set (tm_entries m')" using e by (elim disjE) simp_all
  moreover have "fst (?f e) = fst e" "set (snd e) \<subseteq> set (snd (?f e))" by (auto simp: set_insort_insert)
  ultimately show "\<exists>e' \<in> set (tm_entries m'). fst e' = fst e \<and> set (snd e) \<subseteq> set (snd e')" by blast
qed

lemma foldR_related:
  "foldR f xs s = Inr s' \<Longrightarrow> (\<And>x t t'. x \<in> set xs \<Longrightarrow> f x t = Inr t' \<Longrightarrow> R t t') \<Longrightarrow> (\<And>t. R t t) \<Longrightarrow>
   (\<And>t u v. R t u \<Longrightarrow> R u v \<Longrightarrow> R t v) \<Longrightarrow> R s s'"
proof (induction xs arbitrary: s)
  case (Cons x xs)
  from Cons.prems(1) obtain t where t: "f x s = Inr t" "foldR f xs t = Inr s'" by (auto simp: bindR_eq_Inr)
  have "R s t" by (rule Cons.prems(2) [OF _ t(1)]) simp
  moreover have "R t s'" using Cons.IH [OF t(2)] Cons.prems(2-4) by (meson list.set_intros(2))
  ultimately show ?case by (rule Cons.prems(4))
qed simp

lemma recurse_keeps: "translationUnitAnalysis_recurse k df db act m = Inr m' \<Longrightarrow> keeps_entries m m'"
proof (induction k arbitrary: act m m')
  case (Suc k)
  let ?f = "\<lambda>c m. if is_action db c then translationUnitAnalysis_recurse k df db c m else Inr m"
  from Suc.prems(1) obtain y key m1 e where "getContext db act = Some y" "chd_of df db y = Inr key" "concrete_at db act = Some e"
      and x: "enter_action key y m = Inr m1" "foldR ?f (ce_children e) m1 = Inr m'"
    by (auto simp: bindR_eq_Inr conc_def split: option.splits)
  have "keeps_entries m1 m'"
    by (rule foldR_related [OF x(2)])
      (auto simp: keeps_entries_refl split: if_splits intro: Suc.IH keeps_entries_trans)
  with enter_action_keeps [OF x(1)] show ?case by (rule keeps_entries_trans)
qed simp

lemma recurse_root_entry:
  assumes "translationUnitAnalysis_recurse k df db r \<lparr>tm_entries = [], tm_seen = []\<rparr> = Inr um"
    and "getContext db r = Some x" "chd_of df db x = Inr key"
  shows "\<exists>e \<in> set (tm_entries um). fst e = key \<and> x \<in> set (snd e)"
proof -
  obtain n where n: "k = Suc n" using assms(1) by (cases k) simp_all
  let ?f = "\<lambda>c m. if is_action db c then translationUnitAnalysis_recurse n df db c m else Inr m"
  from assms n obtain m1 e where "concrete_at db r = Some e" and x: "enter_action key x \<lparr>tm_entries = [], tm_seen = []\<rparr> = Inr m1" "foldR ?f (ce_children e) m1 = Inr um"
    by (auto simp: bindR_eq_Inr conc_def)
  have "keeps_entries m1 um"
    by (rule foldR_related [OF x(2)])
      (auto simp: keeps_entries_refl split: if_splits intro: recurse_keeps keeps_entries_trans)
  moreover have "(key, [x]) \<in> set (tm_entries m1)" using x(1) by (auto simp: enter_action_def split: if_splits)
  ultimately show ?thesis unfolding keeps_entries_def by force
qed

text \<open>The units and the entries of the map.\<close>

lemma analysis_units:
  assumes "translationUnitAnalysis k df relative existing addr s = Inr (us, m, s')" and "inj addr"
  obtains r um where "root (is_action (ss_objects s)) (parent_of (ss_objects s)) (ss_objects s) = Inr r"
    "translationUnitAnalysis_recurse k df (ss_objects s) r \<lparr>tm_entries = [], tm_seen = []\<rparr> = Inr um"
    "entries_ok (chd_of df (ss_objects s)) um"
    "\<And>c. in_tree (ss_objects s) r c \<Longrightarrow> \<exists>x. getContext (ss_objects s) c = Some x \<and> covers um x"
    "\<And>e. e \<in> set (tm_entries um) \<Longrightarrow> \<exists>i u. (i, u) \<in> set us \<and> tu_chd u = fst e \<and> tu_actions u = snd e"
    "\<And>i u x. (i, u) \<in> set us \<Longrightarrow> x \<in> set (tu_actions u) \<Longrightarrow> getActionTU m x = Some i"
    "\<And>i u j v. (i, u) \<in> set us \<Longrightarrow> (j, v) \<in> set us \<Longrightarrow> equivalent chd_less (tu_chd u) (tu_chd v) \<Longrightarrow> i = j"
    "\<And>i u x. (i, u) \<in> set us \<Longrightarrow> x \<in> set (tu_actions u) \<Longrightarrow>
       \<exists>key. chd_of df (ss_objects s) x = Inr key \<and> equivalent chd_less (tu_chd u) key"
proof -
  obtain r um st where r: "root (is_action (ss_objects s)) (parent_of (ss_objects s)) (ss_objects s) = Inr r"
      "translationUnitAnalysis_recurse k df (ss_objects s) r \<lparr>tm_entries = [], tm_seen = []\<rparr> = Inr um"
      and st: "state_ok relative existing s (tm_entries um) st" "m = us_actionTUMap st"
      "assign_files (us_used st) TU_FILES_BEGIN (us_unassigned st) (us_translationUnits st) = Inr us"
    by (rule analysis_state [OF assms])
  note ok = state_okD [OF st(1)]
  obtain g where g: "us = map (with_file g) (us_translationUnits st)" using assign_files_with [OF st(3)] by blast
  let ?es = "tm_entries um" and ?n = "length (ss_objects s)"
  have at: "(i, u) \<in> set us \<longleftrightarrow> (\<exists>j < length ?es. i = ?n + j \<and> u = snd (with_file g (i, unit_for relative existing (ss_objects s) (?es ! j))))" for i u
  proof -
    have "(i, u) \<in> set us \<longleftrightarrow> (\<exists>v. (i, v) \<in> set (new_units relative existing s ?es) \<and> u = snd (with_file g (i, v)))"
      unfolding g ok(1) by (auto simp: image_iff) (metis fst_conv prod.collapse snd_conv with_file_fst)+
    then show ?thesis by (auto simp: new_units_at)
  qed
  have unit: "\<exists>j < length ?es. i = ?n + j \<and> tu_chd u = fst (?es ! j) \<and> tu_actions u = snd (?es ! j)" if "(i, u) \<in> set us" for i u
    using that unfolding at by (auto simp: unit_for_def)
  have walk: "entries_ok (chd_of df (ss_objects s)) um \<and> (\<forall>c. in_tree (ss_objects s) r c \<longrightarrow> (\<exists>x. getContext (ss_objects s) c = Some x \<and> covers um x))"
    using recurse_covers [OF r(2)] by (simp add: entries_ok_def)
  then have entries: "entries_ok (chd_of df (ss_objects s)) um" by blast
  have apart: "j = l" if "j < length ?es" "l < length ?es" "equivalent chd_less (fst (?es ! j)) (fst (?es ! l))" for j l
  proof -
    have "\<not> equivalent chd_less (fst (?es ! a)) (fst (?es ! b))" if "a < b" "b < length ?es" for a b
      using entries that unfolding entries_ok_def sorted_wrt_map sorted_wrt_iff_nth_less by auto
    with that equivalent_sym [OF that(3)] show ?thesis by (metis linorder_neqE_nat)
  qed
  have one: "j = l" if j: "j < length ?es" "x \<in> set (snd (?es ! j))" and l: "l < length ?es" "x \<in> set (snd (?es ! l))" for j l x
  proof -
    have mem: "?es ! j \<in> set ?es" "?es ! l \<in> set ?es" using j(1) l(1) by simp_all
    obtain key where key: "key \<in> set (tm_seen um)" "chd_of df (ss_objects s) x = Inr key" "equivalent chd_less (fst (?es ! j)) key"
      using entries mem(1) j(2) unfolding entries_ok_def by blast
    obtain key' where key': "chd_of df (ss_objects s) x = Inr key'" "equivalent chd_less (fst (?es ! l)) key'"
      using entries mem(2) l(2) unfolding entries_ok_def by blast
    have seen: "strict_weak_order chd_less (tm_seen um)" "fst (?es ! j) \<in> set (tm_seen um)" "fst (?es ! l) \<in> set (tm_seen um)"
      using entries mem key(1) unfolding entries_ok_def by auto
    have "equivalent chd_less (fst (?es ! j)) (fst (?es ! l))"
      using equivalent_trans [OF seen(1,2) key(1) seen(3) key(3)] equivalent_sym [OF key'(2)] key(2) key'(1) by simp
    then show "j = l" using apart j(1) l(1) by blast
  qed
  show thesis
  proof (rule that [OF r entries])
    show "\<exists>i u. (i, u) \<in> set us \<and> tu_chd u = fst e \<and> tu_actions u = snd e" if e: "e \<in> set ?es" for e
    proof -
      obtain j where j: "j < length ?es" "?es ! j = e" using e by (auto simp: in_set_conv_nth)
      let ?u = "snd (with_file g (?n + j, unit_for relative existing (ss_objects s) (?es ! j)))"
      have "(?n + j, ?u) \<in> set us" using j at by blast
      then show ?thesis using j(2) by (intro exI [of _ "?n + j"] exI [of _ ?u]) (simp add: unit_for_def)
    qed
    show "getActionTU m x = Some i" if iu: "(i, u) \<in> set us" and x: "x \<in> set (tu_actions u)" for i u x
    proof -
      from unit [OF iu] x obtain j where j: "j < length ?es" "i = ?n + j" "x \<in> set (snd (?es ! j))" by auto
      have "x \<notin> set (snd (?es ! l))" if "l < j" for l using one [of l x j] that j by auto
      then show ?thesis unfolding st(2) ok(7) using j by blast
    qed
    show "i = j" if iu: "(i, u) \<in> set us" "(j, v) \<in> set us" "equivalent chd_less (tu_chd u) (tu_chd v)" for i u j v
      using unit [OF iu(1)] unit [OF iu(2)] iu(3) apart by force
    show "\<exists>key. chd_of df (ss_objects s) x = Inr key \<and> equivalent chd_less (tu_chd u) key"
      if iu: "(i, u) \<in> set us" "x \<in> set (tu_actions u)" for i u x
    proof -
      from unit [OF iu(1)] obtain j where "j < length ?es" "tu_chd u = fst (?es ! j)" "tu_actions u = snd (?es ! j)" by blast
      then show ?thesis using entries iu(2) nth_mem unfolding entries_ok_def by metis
    qed
  qed (use walk in blast)
qed

text \<open>C26. The context of every concrete action is among the actions of exactly one translation unit, the
  lookup of the context gives this unit, and the unit has the definition file of the context; it has its
  coordinator and its host too, except that a missing one goes with every other. Different units differ in
  the definition file, or have different coordinators or different hosts.\<close>

theorem translation_units_partition:
  assumes "translationUnitAnalysis k df relative existing addr s = Inr (us, m, s')" and "inj addr"
  shows "(\<exists>r. root (is_action (ss_objects s)) (parent_of (ss_objects s)) (ss_objects s) = Inr r \<and>
    (\<forall>c. in_tree (ss_objects s) r c \<longrightarrow> (\<exists>x key i u. getContext (ss_objects s) c = Some x \<and>
       chd_of df (ss_objects s) x = Inr key \<and> (i, u) \<in> set us \<and> x \<in> set (tu_actions u) \<and>
       chd_definitionFile (tu_chd u) = chd_definitionFile key \<and>
       compatible_roots (chd_coordinator (tu_chd u)) (chd_coordinator key) \<and>
       compatible_roots (chd_host (tu_chd u)) (chd_host key) \<and> getActionTU m x = Some i \<and>
       (\<forall>(j, v) \<in> set us. x \<in> set (tu_actions v) \<longrightarrow> j = i)))) \<and>
    (\<forall>(i, u) \<in> set us. \<forall>(j, v) \<in> set us. i \<noteq> j \<longrightarrow>
       chd_definitionFile (tu_chd u) \<noteq> chd_definitionFile (tu_chd v) \<or>
       \<not> compatible_roots (chd_coordinator (tu_chd u)) (chd_coordinator (tu_chd v)) \<or>
       \<not> compatible_roots (chd_host (tu_chd u)) (chd_host (tu_chd v)))"
proof (rule analysis_units [OF assms], rule conjI)
  fix r um
  assume r: "root (is_action (ss_objects s)) (parent_of (ss_objects s)) (ss_objects s) = Inr r"
    and walk: "\<And>c. in_tree (ss_objects s) r c \<Longrightarrow> \<exists>x. getContext (ss_objects s) c = Some x \<and> covers um x"
    and unit: "\<And>e. e \<in> set (tm_entries um) \<Longrightarrow> \<exists>i u. (i, u) \<in> set us \<and> tu_chd u = fst e \<and> tu_actions u = snd e"
    and look: "\<And>i u x. (i, u) \<in> set us \<Longrightarrow> x \<in> set (tu_actions u) \<Longrightarrow> getActionTU m x = Some i"
    and apart: "\<And>i u j v. (i, u) \<in> set us \<Longrightarrow> (j, v) \<in> set us \<Longrightarrow> equivalent chd_less (tu_chd u) (tu_chd v) \<Longrightarrow> i = j"
    and key: "\<And>i u x. (i, u) \<in> set us \<Longrightarrow> x \<in> set (tu_actions u) \<Longrightarrow>
       \<exists>key. chd_of df (ss_objects s) x = Inr key \<and> equivalent chd_less (tu_chd u) key"
  show "\<forall>(i, u) \<in> set us. \<forall>(j, v) \<in> set us. i \<noteq> j \<longrightarrow>
       chd_definitionFile (tu_chd u) \<noteq> chd_definitionFile (tu_chd v) \<or>
       \<not> compatible_roots (chd_coordinator (tu_chd u)) (chd_coordinator (tu_chd v)) \<or>
       \<not> compatible_roots (chd_host (tu_chd u)) (chd_host (tu_chd v))"
    using apart unfolding equivalent_chd by blast
  have "\<exists>x key i u. getContext (ss_objects s) c = Some x \<and> chd_of df (ss_objects s) x = Inr key \<and> (i, u) \<in> set us \<and>
      x \<in> set (tu_actions u) \<and> chd_definitionFile (tu_chd u) = chd_definitionFile key \<and>
      compatible_roots (chd_coordinator (tu_chd u)) (chd_coordinator key) \<and>
      compatible_roots (chd_host (tu_chd u)) (chd_host key) \<and> getActionTU m x = Some i \<and>
      (\<forall>(j, v) \<in> set us. x \<in> set (tu_actions v) \<longrightarrow> j = i)" if c: "in_tree (ss_objects s) r c" for c
  proof -
    from walk [OF c] obtain x e where x: "getContext (ss_objects s) c = Some x" "e \<in> set (tm_entries um)" "x \<in> set (snd e)"
      unfolding covers_def by blast
    from unit [OF x(2)] x(3) obtain i u where u: "(i, u) \<in> set us" "x \<in> set (tu_actions u)" by auto
    have "j = i" if "(j, v) \<in> set us" "x \<in> set (tu_actions v)" for j v using look [OF that] look [OF u] by simp
    then show ?thesis using x(1) u key [OF u] look [OF u] unfolding equivalent_chd by blast
  qed
  with r show "\<exists>r. root (is_action (ss_objects s)) (parent_of (ss_objects s)) (ss_objects s) = Inr r \<and>
    (\<forall>c. in_tree (ss_objects s) r c \<longrightarrow> (\<exists>x key i u. getContext (ss_objects s) c = Some x \<and>
       chd_of df (ss_objects s) x = Inr key \<and> (i, u) \<in> set us \<and> x \<in> set (tu_actions u) \<and>
       chd_definitionFile (tu_chd u) = chd_definitionFile key \<and>
       compatible_roots (chd_coordinator (tu_chd u)) (chd_coordinator key) \<and>
       compatible_roots (chd_host (tu_chd u)) (chd_host key) \<and> getActionTU m x = Some i \<and>
       (\<forall>(j, v) \<in> set us. x \<in> set (tu_actions v) \<longrightarrow> j = i)))" by blast
qed

text \<open>A context with a coordinator does not get a unit for the coordinator when the root of the
  concrete actions has none: if the two have the same definition file and no different hosts, the context is
  in the unit of the root, whose coordinator is null.\<close>

theorem coordinator_in_root_unit:
  assumes "translationUnitAnalysis k df relative existing addr s = Inr (us, m, s')" and "inj addr"
    and "root (is_action (ss_objects s)) (parent_of (ss_objects s)) (ss_objects s) = Inr r" and "in_tree (ss_objects s) r c"
    and "getContext (ss_objects s) r = Some y" "chd_of df (ss_objects s) y = Inr l"
    and "getContext (ss_objects s) c = Some x" "chd_of df (ss_objects s) x = Inr key"
    and "chd_coordinator l = None" "chd_coordinator key = Some i" "compatible_roots (chd_host l) (chd_host key)"
      "chd_definitionFile l = chd_definitionFile key"
  shows "\<exists>n u. getActionTU m x = Some n \<and> getActionTU m y = Some n \<and> (n, u) \<in> set us \<and> x \<in> set (tu_actions u) \<and> tu_chd u = l"
proof (rule analysis_units [OF assms(1,2)])
  fix r' um
  assume r: "root (is_action (ss_objects s)) (parent_of (ss_objects s)) (ss_objects s) = Inr r'"
    and um: "translationUnitAnalysis_recurse k df (ss_objects s) r' \<lparr>tm_entries = [], tm_seen = []\<rparr> = Inr um"
    and ok: "entries_ok (chd_of df (ss_objects s)) um"
    and walk: "\<And>c. in_tree (ss_objects s) r' c \<Longrightarrow> \<exists>x. getContext (ss_objects s) c = Some x \<and> covers um x"
    and unit: "\<And>e. e \<in> set (tm_entries um) \<Longrightarrow> \<exists>i u. (i, u) \<in> set us \<and> tu_chd u = fst e \<and> tu_actions u = snd e"
    and look: "\<And>i u x. (i, u) \<in> set us \<Longrightarrow> x \<in> set (tu_actions u) \<Longrightarrow> getActionTU m x = Some i"
  have "r' = r" using r assms(3) by simp
  from recurse_root_entry [OF um, unfolded \<open>r' = r\<close>, OF assms(5,6)] obtain e where
    e: "e \<in> set (tm_entries um)" "fst e = l" "y \<in> set (snd e)" by blast
  from walk [unfolded \<open>r' = r\<close>, OF assms(4)] assms(7) obtain d where d: "d \<in> set (tm_entries um)" "x \<in> set (snd d)"
    unfolding covers_def by auto
  from unit [OF e(1)] e(2,3) obtain i u where u: "(i, u) \<in> set us" "tu_chd u = l" "tu_actions u = snd e" by auto
  have seen: "strict_weak_order chd_less (tm_seen um)" "l \<in> set (tm_seen um)" "fst d \<in> set (tm_seen um)" "key \<in> set (tm_seen um)"
    "equivalent chd_less (fst d) key"
    using ok e(1,2) d assms(8) unfolding entries_ok_def by (fastforce)+
  have "equivalent chd_less l key" using assms(9-12) unfolding equivalent_chd by (simp add: compatible_roots_def)
  have same: "equivalent chd_less l (fst d)" by (rule equivalent_trans [OF seen(1,2,4,3) \<open>equivalent chd_less l key\<close> equivalent_sym [OF seen(5)]])
  have "e = d"
    by (rule sorted_wrt_apart [of "equivalent chd_less" fst "tm_entries um"])
      (use ok e(1,2) d(1) same equivalent_sym [OF same] in \<open>simp_all add: entries_ok_def\<close>)
  with d(2) u look [OF u(1)] e(3) show ?thesis by auto
qed

text \<open>The errors of the walk.\<close>

lemma foldR_fails: "foldR f xs s = Inl e \<Longrightarrow> \<exists>x \<in> set xs. \<exists>t. f x t = Inl e"
  by (induction xs arbitrary: s) (auto simp: bindR_eq_Inl)

lemma recurse_errors:
  assumes par: "parents_ok db" and ctx: "contexts_ok db"
    and keys: "\<And>c x. in_tree db r c \<Longrightarrow> getContext db c = Some x \<Longrightarrow> \<exists>key. chd_of df db x = Inr key"
  shows "translationUnitAnalysis_recurse k df db act m = Inl e \<Longrightarrow> is_action db act \<Longrightarrow> in_tree db r act \<Longrightarrow>
    length db - act < k \<Longrightarrow> e = UndefinedBehaviour"
proof (induction k arbitrary: act m)
  case (Suc k)
  let ?f = "\<lambda>c m. if is_action db c then translationUnitAnalysis_recurse k df db c m else Inr m"
  obtain el where el: "concrete_at db act = Some el" "ce_class el = ConcreteAction"
    using is_action_concrete [OF Suc.prems(2)] Suc.prems(2) by (auto simp: is_action_def)
  obtain x where x: "getContext db act = Some x"
    using ctx el unfolding contexts_ok_def by (fastforce simp: getContext_def)
  obtain key where key: "chd_of df db x = Inr key" using keys [OF Suc.prems(3) x] by blast
  have "e = UndefinedBehaviour" if loop: "foldR ?f (ce_children el) m1 = Inl e" for m1
  proof -
    from foldR_fails [OF loop] obtain c t where c: "c \<in> set (ce_children el)" "is_action db c"
        "translationUnitAnalysis_recurse k df db c t = Inl e" by (auto split: if_splits)
    have "parent_of db c = Some act" using par el(1) c(1) unfolding parents_ok_def by blast
    then have less: "act < c" using par unfolding parents_ok_def by (auto simp: parent_of_def split: option.splits)
    have "in_tree db r c"
      using Suc.prems(3) el(1) c(1,2) by (auto simp: in_tree_def action_child_def intro: rtranclp.rtrancl_into_rtrancl)
    moreover have "c < length db" by (rule is_action_less [OF c(2)])
    ultimately show ?thesis using Suc.IH [OF c(3,2)] less Suc.prems(4) by simp
  qed
  then show ?case
    using Suc.prems(1) x key el(1) by (auto simp: bindR_eq_Inl enter_action_def conc_def split: if_splits)
qed simp

text \<open>C28. When the keys of three contexts of the program are a key without a coordinator and two keys with
  different coordinators, with one definition file and no host that differs from the host of the first, the
  order of the keys is not a strict weak order, and the analysis, given fuel for the tree of actions, ends in
  the undefined behaviour of a map with such an order.\<close>

theorem two_coordinators_undefined:
  assumes "parents_ok (ss_objects s)" and "contexts_ok (ss_objects s)" and "length (ss_objects s) < k"
    and "root (is_action (ss_objects s)) (parent_of (ss_objects s)) (ss_objects s) = Inr r"
    and "\<And>c x. in_tree (ss_objects s) r c \<Longrightarrow> getContext (ss_objects s) c = Some x \<Longrightarrow> \<exists>key. chd_of df (ss_objects s) x = Inr key"
    and "in_tree (ss_objects s) r a" "in_tree (ss_objects s) r b" "in_tree (ss_objects s) r c"
    and "getContext (ss_objects s) a = Some x" "getContext (ss_objects s) b = Some y" "getContext (ss_objects s) c = Some z"
    and "chd_of df (ss_objects s) x = Inr kx" "chd_of df (ss_objects s) y = Inr ky" "chd_of df (ss_objects s) z = Inr kz"
    and "chd_coordinator kx = None" "chd_coordinator ky = Some i" "chd_coordinator kz = Some j" "i \<noteq> j"
    and "compatible_roots (chd_host kx) (chd_host ky)" "compatible_roots (chd_host kx) (chd_host kz)"
    and "chd_definitionFile ky = chd_definitionFile kx" "chd_definitionFile kz = chd_definitionFile kx"
  shows "\<not> strict_weak_order chd_less [kx, ky, kz] \<and>
    translationUnitAnalysis k df relative existing addr s = Inl UndefinedBehaviour"
proof -
  have eq: "equivalent chd_less ky kx" "equivalent chd_less kx kz" "\<not> equivalent chd_less ky kz"
    using assms(15-22) unfolding equivalent_chd by (auto simp: compatible_roots_def)
  have bad: "\<not> strict_weak_order chd_less ks" if "{kx, ky, kz} \<subseteq> set ks" for ks
    using equivalent_trans [of chd_less ks ky kx kz] that eq by auto
  let ?run = "translationUnitAnalysis_recurse k df (ss_objects s) r \<lparr>tm_entries = [], tm_seen = []\<rparr>"
  have "?run = Inl UndefinedBehaviour"
  proof (cases ?run)
    case (Inl e)
    have "is_action (ss_objects s) r" using root_found [OF assms(4)] by blast
    moreover have "in_tree (ss_objects s) r r" by (simp add: in_tree_def)
    ultimately show ?thesis using recurse_errors [OF assms(1,2) _ Inl, of r] assms(3,5) Inl by simp
  next
    case (Inr um)
    from recurse_covers [OF Inr] have ok: "entries_ok (chd_of df (ss_objects s)) um"
        "\<And>c. in_tree (ss_objects s) r c \<Longrightarrow> \<exists>x. getContext (ss_objects s) c = Some x \<and> covers um x"
      by (simp_all add: entries_ok_def)
    have seen: "key \<in> set (tm_seen um)"
      if "in_tree (ss_objects s) r c" "getContext (ss_objects s) c = Some x" "chd_of df (ss_objects s) x = Inr key" for c x key
    proof -
      from ok(2) [OF that(1)] that(2) obtain e where "e \<in> set (tm_entries um)" "x \<in> set (snd e)" unfolding covers_def by auto
      with ok(1) that(3) show ?thesis unfolding entries_ok_def by (metis Inr_inject)
    qed
    then have mem: "{kx, ky, kz} \<subseteq> set (tm_seen um)" using assms(6-14) by blast
    then have "strict_weak_order chd_less (tm_seen um)" using ok(1) by (auto simp: entries_ok_def)
    with bad [OF mem] show ?thesis by blast
  qed
  moreover have "\<not> strict_weak_order chd_less [kx, ky, kz]" by (rule bad) simp
  ultimately show ?thesis using assms(4) by (simp add: translationUnitAnalysis_def)
qed

section \<open>Samples\<close>

definition tu_context :: "interface_class \<Rightarrow> string \<Rightarrow> idx option \<Rightarrow> idx list \<Rightarrow> indexed_object" where
  "tu_context cls name parent children = InterfaceElement \<lparr>if_class = cls, if_identifier = name, if_parent = parent,
     if_children = children, if_baseContexts = [], if_size = 1, if_contextTypes = [], if_canonicalType = []\<rparr>"

definition tu_action :: "idx \<Rightarrow> idx option \<Rightarrow> idx list \<Rightarrow> indexed_object" where
  "tu_action x parent children = ConcreteElement \<lparr>ce_class = ConcreteAction, ce_parent = parent, ce_element = Some x,
     ce_children = children\<rparr>"

definition tu_session :: "interface_class \<Rightarrow> interface_class \<Rightarrow> session" where
  "tu_session root_class nested = \<lparr>ss_objects =
     [tu_context root_class ''root'' None [1, 2], tu_context nested ''a'' (Some 0) [], tu_context nested ''b'' (Some 0) [],
      tu_action 0 None [4, 5], tu_action 1 (Some 3) [], tu_action 2 (Some 3) []],
     ss_derivation = no_analysis, ss_action = \<lambda>_. new_action_data, ss_allocator = \<lambda>_. None\<rparr>"

definition tu_file :: "idx \<Rightarrow> nat option" where
  "tu_file i = (if i = 1 then Some 7 else if i = 2 then Some 8 else None)"

definition tu_result :: "((idx \<times> nat translation_unit) list \<times> (idx \<times> idx) list \<times> session) result" where
  "tu_result = translationUnitAnalysis 5 tu_file (\<lambda>p. if p = 7 then ''a/x'' else ''b/x'')
     (\<lambda>name. if name = ''a_x'' then 2 else - 1) (\<lambda>i. i) (tu_session (Root eFileRoot) Object)"

definition tu_units :: "(idx \<times> nat translation_unit) list" where
  "tu_units = fst (projr tu_result)"

lemma tu_units_values: "map (\<lambda>(i, u). (i, tu_name u, tu_databaseFileID u, tu_actions u)) tu_units =
    [(6, ''definition'', 3, [0]), (7, ''a_x'', 2, [1]), (8, ''b_x'', 4, [2])]" "\<not> isl tu_result"
  by code_simp+

lemma tu_returns: "\<exists>m s'. tu_result = Inr (tu_units, m, s')"
  using sum.collapse(2) [OF tu_units_values(2)] unfolding tu_units_def by (metis prod.collapse)

lemma tu_units_all: "(\<forall>(i, u) \<in> set tu_units. P i (tu_name u) (tu_databaseFileID u) (tu_actions u)) \<longleftrightarrow>
    P 6 ''definition'' 3 [0] \<and> P 7 ''a_x'' 2 [1] \<and> P 8 ''b_x'' 4 [2]"
proof -
  have "(\<forall>(i, u) \<in> set tu_units. P i (tu_name u) (tu_databaseFileID u) (tu_actions u)) \<longleftrightarrow>
      list_all (\<lambda>(i, n, d, A). P i n d A) (map (\<lambda>(i, u). (i, tu_name u, tu_databaseFileID u, tu_actions u)) tu_units)"
    by (simp add: list_all_iff case_prod_beta)
  also have "\<dots> \<longleftrightarrow> P 6 ''definition'' 3 [0] \<and> P 7 ''a_x'' 2 [1] \<and> P 8 ''b_x'' 4 [2]"
    unfolding tu_units_values(1) by simp
  finally show ?thesis .
qed

text \<open>Every character of the path that is no letter and no digit becomes an underscore, so two definition files
  can give one name.\<close>

theorem unit_names_collide:
  assumes "relative f = ''a/b.eg''" and "relative g = ''a_b.eg''"
  shows "TUNameFromEGSource relative db \<lparr>chd_coordinator = i, chd_host = h, chd_definitionFile = Some f\<rparr> =
    TUNameFromEGSource relative db \<lparr>chd_coordinator = j, chd_host = k, chd_definitionFile = Some g\<rparr>"
proof -
  have "style_replace_non_alpha_numeric ''a/b.eg'' (CHR ''_'') = style_replace_non_alpha_numeric ''a_b.eg'' (CHR ''_'')" by code_simp
  with assms show ?thesis by (simp add: TUNameFromEGSource_def)
qed

theorem translation_unit_files_witness:
  "\<exists>u v. (6, u) \<in> set tu_units \<and> (7, v) \<in> set tu_units \<and> 2 \<le> tu_databaseFileID u \<and> tu_databaseFileID v = 2 \<and>
     tu_databaseFileID u \<noteq> tu_databaseFileID v"
proof -
  let ?ex = "\<lambda>name. if name = ''a_x'' then 2 else - 1 :: int"
  obtain m s' where r: "tu_result = Inr (tu_units, m, s')" using tu_returns by blast
  have "\<forall>(i, u) \<in> set tu_units. ?ex (tu_name u) = - 1 \<or> 2 \<le> ?ex (tu_name u)"
    using tu_units_all [of "\<lambda>i n d A. ?ex n = - 1 \<or> 2 \<le> ?ex n"] by simp
  moreover have "inj (\<lambda>i :: idx. i)" by simp
  ultimately have files: "\<forall>(i, u) \<in> set tu_units. 2 \<le> tu_databaseFileID u \<and>
       (if ?ex (tu_name u) \<noteq> - 1 then tu_databaseFileID u = ?ex (tu_name u)
        else \<forall>(j, v) \<in> set tu_units. ?ex (tu_name v) \<noteq> tu_databaseFileID u)"
      "\<forall>(i, u) \<in> set tu_units. \<forall>(j, v) \<in> set tu_units. tu_databaseFileID u = tu_databaseFileID v \<longleftrightarrow>
       i = j \<or> ?ex (tu_name u) \<noteq> - 1 \<and> ?ex (tu_name u) = ?ex (tu_name v)"
    using translation_unit_files [OF r [unfolded tu_result_def]] by blast+
  have "map (\<lambda>(i, u). (i, tu_name u)) tu_units = [(6, ''definition''), (7, ''a_x''), (8, ''b_x'')]" by code_simp
  then obtain u v w where eq: "tu_units = [(6, u), (7, v), (8, w)]" and n: "tu_name u = ''definition''" "tu_name v = ''a_x''"
    by (auto simp: map_eq_Cons_conv)
  have uv: "(6, u) \<in> set tu_units" "(7, v) \<in> set tu_units" "tu_name u = ''definition''" "tu_name v = ''a_x''" using n unfolding eq by simp_all
  have "2 \<le> tu_databaseFileID u" "tu_databaseFileID v = 2" "tu_databaseFileID u \<noteq> tu_databaseFileID v"
    using bspec [OF files(1) uv(1)] bspec [OF files(1) uv(2)] bspec [OF bspec [OF files(2) uv(1), unfolded prod.case] uv(2)] uv(3,4)
    by simp_all
  with uv show ?thesis by blast
qed

lemma tu_root: "root (is_action (ss_objects (tu_session a b))) (parent_of (ss_objects (tu_session a b))) (ss_objects (tu_session a b)) = Inr 3"
  by code_simp

theorem translation_units_partition_witness:
  "\<exists>x key i u. x = 1 \<and> chd_of tu_file (ss_objects (tu_session (Root eFileRoot) Object)) x = Inr key \<and> (i, u) \<in> set tu_units \<and>
     x \<in> set (tu_actions u) \<and> chd_definitionFile (tu_chd u) = chd_definitionFile key"
proof -
  let ?db = "ss_objects (tu_session (Root eFileRoot) Object)"
  obtain m s' where r: "tu_result = Inr (tu_units, m, s')" using tu_returns by blast
  have inj: "inj (\<lambda>i :: idx. i)" by simp
  have "action_child ?db 3 4" by (simp add: action_child_def tu_session_def tu_action_def concrete_at_def is_action_def nth_opt_def)
  then have "in_tree ?db 3 4" by (simp add: in_tree_def r_into_rtranclp)
  moreover have "getContext ?db 4 = Some 1" by code_simp
  ultimately show ?thesis
    using translation_units_partition [OF r [unfolded tu_result_def] inj, THEN conjunct1] tu_root by fastforce
qed

lemma tu_trees: "parents_ok (ss_objects (tu_session a b))" "is_Context a \<Longrightarrow> is_Context b \<Longrightarrow> contexts_ok (ss_objects (tu_session a b))"
proof -
  let ?db = "ss_objects (tu_session a b)"
  have c: "concrete_at ?db i = Some e \<longleftrightarrow>
      i = 3 \<and> e = \<lparr>ce_class = ConcreteAction, ce_parent = None, ce_element = Some 0, ce_children = [4, 5]\<rparr> \<or>
      i = 4 \<and> e = \<lparr>ce_class = ConcreteAction, ce_parent = Some 3, ce_element = Some 1, ce_children = []\<rparr> \<or>
      i = 5 \<and> e = \<lparr>ce_class = ConcreteAction, ce_parent = Some 3, ce_element = Some 2, ce_children = []\<rparr>" for i e
    by (auto simp: concrete_at_Some tu_session_def tu_context_def tu_action_def less_Suc_eq numeral_eq_Suc nth_Cons split: nat.splits)
  then have at: "concrete_at ?db 3 = Some \<lparr>ce_class = ConcreteAction, ce_parent = None, ce_element = Some 0, ce_children = [4, 5]\<rparr>"
    "concrete_at ?db 4 = Some \<lparr>ce_class = ConcreteAction, ce_parent = Some 3, ce_element = Some 1, ce_children = []\<rparr>"
    "concrete_at ?db 5 = Some \<lparr>ce_class = ConcreteAction, ce_parent = Some 3, ce_element = Some 2, ce_children = []\<rparr>" by simp_all
  show "parents_ok ?db" unfolding parents_ok_def c by (auto simp: at is_action_def children_of_def parent_of_def)
  assume ab: "is_Context a" "is_Context b"
  have "context_at ?db x \<noteq> None" if "x \<in> {0, 1, 2}" for x
    using that ab by (auto simp: context_at_def interface_at_def nth_opt_def tu_session_def tu_context_def)
  then show "contexts_ok ?db" unfolding contexts_ok_def c by auto
qed

lemma tu_tree: "in_tree (ss_objects (tu_session a b)) 3 c \<longleftrightarrow> c \<in> {3, 4, 5}"
proof
  have child: "action_child (ss_objects (tu_session a b)) p c \<Longrightarrow> c \<in> {4, 5}" for p c
    by (auto simp: action_child_def tu_session_def tu_context_def tu_action_def concrete_at_Some less_Suc_eq numeral_eq_Suc nth_Cons
        split: nat.splits)
  show "in_tree (ss_objects (tu_session a b)) 3 c \<Longrightarrow> c \<in> {3, 4, 5}"
    unfolding in_tree_def by (erule rtranclp.cases) (use child in auto)
  have "action_child (ss_objects (tu_session a b)) 3 4" "action_child (ss_objects (tu_session a b)) 3 5"
    by (simp_all add: action_child_def tu_session_def tu_action_def concrete_at_def is_action_def nth_opt_def)
  then show "c \<in> {3, 4, 5} \<Longrightarrow> in_tree (ss_objects (tu_session a b)) 3 c"
    by (auto simp: in_tree_def r_into_rtranclp)
qed

text \<open>A mega root without, and a context with a coordinator.\<close>

definition tu_merged :: "((idx \<times> nat translation_unit) list \<times> (idx \<times> idx) list \<times> session) result" where
  "tu_merged = translationUnitAnalysis 5 (\<lambda>i. if i = 2 then Some 8 else None) (\<lambda>_. ''b'') (\<lambda>_. - 1) (\<lambda>i. i)
     (tu_session (Root eMegaRoot) (Root eCoordinator))"

theorem coordinator_in_root_unit_witness:
  "\<exists>us m s' n u. tu_merged = Inr (us, m, s') \<and> getActionTU m 1 = Some n \<and> (n, u) \<in> set us \<and>
     chd_coordinator (tu_chd u) = None"
proof -
  let ?s = "tu_session (Root eMegaRoot) (Root eCoordinator)"
  have "\<not> isl tu_merged" by code_simp
  then obtain us m s' where r: "tu_merged = Inr (us, m, s')" by (metis prod_cases3 sum.collapse(2))
  have ctx: "getContext (ss_objects ?s) 3 = Some 0" "getContext (ss_objects ?s) 4 = Some 1" by code_simp+
  have key: "chd_of (\<lambda>i. if i = 2 then Some (8 :: nat) else None) (ss_objects ?s) 0 =
      Inr \<lparr>chd_coordinator = None, chd_host = None, chd_definitionFile = None\<rparr>"
    "chd_of (\<lambda>i. if i = 2 then Some (8 :: nat) else None) (ss_objects ?s) 1 =
      Inr \<lparr>chd_coordinator = Some 1, chd_host = None, chd_definitionFile = None\<rparr>" by code_simp+
  have tree: "in_tree (ss_objects ?s) 3 4" by (simp add: tu_tree)
  obtain n u where "getActionTU m 1 = Some n" "(n, u) \<in> set us" "tu_chd u = \<lparr>chd_coordinator = None, chd_host = None, chd_definitionFile = None\<rparr>"
    using coordinator_in_root_unit [OF r [unfolded tu_merged_def] _ tu_root tree ctx(1) key(1) ctx(2) key(2)]
    by (auto simp: compatible_roots_def)
  with r show ?thesis
    by (intro exI [of _ us] exI [of _ m] exI [of _ s'] exI [of _ n] exI [of _ u]) simp
qed

theorem two_coordinators_undefined_witness:
  "translationUnitAnalysis 7 (\<lambda>_. None :: nat option) (\<lambda>_. []) (\<lambda>_. - 1) (\<lambda>i. i) (tu_session (Root eMegaRoot) (Root eCoordinator)) =
     Inl UndefinedBehaviour"
proof -
  let ?s = "tu_session (Root eMegaRoot) (Root eCoordinator)"
  have ctx: "getContext (ss_objects ?s) 3 = Some 0" "getContext (ss_objects ?s) 4 = Some 1" "getContext (ss_objects ?s) 5 = Some 2"
    by code_simp+
  have key: "chd_of (\<lambda>_. None :: nat option) (ss_objects ?s) 0 = Inr \<lparr>chd_coordinator = None, chd_host = None, chd_definitionFile = None\<rparr>"
    "chd_of (\<lambda>_. None :: nat option) (ss_objects ?s) 1 = Inr \<lparr>chd_coordinator = Some 1, chd_host = None, chd_definitionFile = None\<rparr>"
    "chd_of (\<lambda>_. None :: nat option) (ss_objects ?s) 2 = Inr \<lparr>chd_coordinator = Some 2, chd_host = None, chd_definitionFile = None\<rparr>"
    by code_simp+
  have tree: "in_tree (ss_objects ?s) 3 3" "in_tree (ss_objects ?s) 3 4" "in_tree (ss_objects ?s) 3 5" by (simp_all add: tu_tree)
  have keys: "\<exists>key. chd_of (\<lambda>_. None :: nat option) (ss_objects ?s) x = Inr key"
    if "in_tree (ss_objects ?s) 3 c" "getContext (ss_objects ?s) c = Some x" for c x
    using that ctx key unfolding tu_tree by auto
  have "length (ss_objects ?s) < 7" by (simp add: tu_session_def)
  from two_coordinators_undefined [OF tu_trees this tu_root keys tree ctx key] show ?thesis
    by (simp add: compatible_roots_def)
qed

end
