(* ===== verification/Spec2Isabelle.thy ===== *)
theory Spec2Isabelle
  imports EGPrelude EGCommon SlotAllocators EGObjects Instructions Elimination InstructionEval OrderedMultimap Derivation Identifiers LinkSets ElementVectors NameResolution CommonRoot Invocation InvocationScope Scheduler SchedulerSafety SchedulerRuns SchedulerProperties
    Archive ObjectTypes InstructionSerial InstructionRoundTrip ObjectFields IndexedFiles DatabaseRoundTrip
    InterfaceSession InstanceTrees InstanceEnds ConcreteAllocators InstanceAnalysis InstanceReturns InstanceProperties LinkDimensions TranslationUnits
begin

text \<open>
  A verification development for the EG language: the compiler (\<open>src/eg\<close>, headers in
  \<open>api/eg_compiler\<close>), its database of indexed objects (\<open>src/io\<close>) and the run time library
  (\<open>api/eg\<close>).

  The program. The compiler keeps a database of indexed objects in files. The parser session fills the
  master file with the tree of interface elements; the interface session unfolds this tree into concrete
  actions and dimensions (instance analysis), groups the links and records which types convert to which
  (link and derivation analysis), and cuts the program into translation units; for every call in the
  source of an operation, the clang plugin asks an operations session for an invocation solution, an
  instruction tree found by name resolution and elimination; the implementation session lays out the data
  for the printed code.
  Code generators print the solutions and the layout as C++, or the run time evaluates a solution directly
  (\<open>src/eg_runtime\<close>). The generated program uses the instance allocators and the scheduler of \<open>api/eg\<close>.

  How to read the model. Every theory opens with the files and functions it translates, and definitions
  keep the names of the code. A pointer to an indexed object of the master file is its index; an object
  that is only used by address is an entry of an explicit heap with a counter. Exceptions, failed checks
  (\<open>THROW_RTE\<close>, \<open>VERIFY_RTE\<close>), failed assertions and undefined behaviour (null or dangling pointers,
  iterators that are gone, uninitialised members) are the values of the type \<open>error\<close> of \<open>EGPrelude\<close>, and
  every fallible operation is a function into \<open>error + 'a\<close>, composed by \<open>bindR\<close>. Recursion over pointers
  takes fuel and answers \<open>OutOfFuel\<close>, which no operation of the code catches; the theorems that speak
  about results name the fuel that is enough: the length of the array for paths in a well-formed tree
  (\<open>path_fuel\<close>, \<open>tree_fuel\<close>), twice the number of names for the visitors (\<open>names_fuel\<close>), two passes for
  the expansion of references (\<open>expandReferences_terminates_iff\<close>), the size of the tree and the number of
  its variables for loading a tree (\<open>stored_tree_loads\<close>), and for the instance analysis any number above
  the ranks of its contexts (\<open>instanceAnalysis_ends\<close>).

  Shared vocabulary.
    \<open>EGPrelude\<close>: errors, the error monad, loops over lists; rules for both.
    \<open>EGCommon\<close>: \<open>api/eg/common.hpp\<close>, with the widths of the integers.
    \<open>EGObjects\<close>: the array of indexed objects: \<open>interface.hpp\<close>, \<open>concrete.hpp\<close>, \<open>concrete.cpp\<close>; well-formed
      trees of concrete elements (\<open>wf_concrete\<close>) and of inheritance nodes (\<open>wf_inheritance\<close>), paths and
      domain sizes.
    \<open>OrderedMultimap\<close>: \<open>std::map\<close> and \<open>std::multimap\<close> as lists in the order of iteration.

  Run time library.
    \<open>SlotAllocators\<close>: \<open>api/eg/allocator.hpp\<close>: the bit masks and the ring. The locale \<open>slot_allocator\<close> states
      what an allocator promises, the three classes are its interpretations.
    \<open>Scheduler\<close>: \<open>api/eg/basic_scheduler.cpp\<close>: containers with numbered nodes, calls, \<open>cycle\<close>.
      \<open>SchedulerSafety\<close> states the invariant between actions, iterators and nodes; \<open>SchedulerRuns\<close> that the
      calls and a cycle keep it; \<open>SchedulerProperties\<close> the reachable states, the refinement of an abstract
      machine of three queues, liveness and waking, and the sequences of calls that use an erased node.
      The cycle takes the runs of its coroutines as a list; a list that is too short ends in
      \<open>OutOfFuel\<close>, and \<open>run_loop_ends\<close> says how many runs are enough.

  Analyses of the compiler.
    \<open>Derivation\<close>: \<open>src/eg/derivation.cpp\<close>. \<open>Identifiers\<close>: \<open>src/eg/identifiers.cpp\<close>. \<open>LinkSets\<close>: \<open>src/eg/link.cpp\<close>.
    \<open>InterfaceSession\<close>, \<open>ConcreteAllocators\<close>: the instance analysis of \<open>sessions/interface_session.cpp\<close> and
      \<open>src/eg/allocator.cpp\<close>. \<open>InstanceTrees\<close> shows what every step does to the array and relates the trees
      to a specification of overriding, \<open>InstanceEnds\<close> that the construction ends when no context contains
      or inherits itself, \<open>InstanceAnalysis\<close> and \<open>InstanceReturns\<close> follow the allocators and their dimensions,
      \<open>InstanceProperties\<close> states the results, with a sample program on which they are evaluated.
    \<open>LinkDimensions\<close>: the link analysis of the same session, the dimensions that carry the groups of links.
    \<open>TranslationUnits\<close>: the cut of the program into translation units (\<open>translation_unit.cpp\<close> and the session),
      their keys, names and files; the order of the keys fails to be a strict weak order for two coordinators,
      which the model of the map answers with undefined behaviour.

  Invocation compiler.
    \<open>ElementVectors\<close>: \<open>getElementVector\<close> and \<open>chooseMostDerived\<close>. \<open>NameResolution\<close>: \<open>name_resolution.cpp\<close>.
    \<open>CommonRoot\<close>: the derivation of an instance from another. \<open>Invocation\<close>: the visitors, \<open>build\<close> and the map
      of solutions. \<open>Instructions\<close>, \<open>Elimination\<close>: \<open>instruction.cpp\<close>; elimination against the set of choices
      of a tree. \<open>InstructionEval\<close>: the evaluation of a tree at run time. \<open>InvocationScope\<close>: what is compiled is
      well scoped, so that its evaluation makes one call.

  Files.
    \<open>Archive\<close>: \<open>Storer\<close> and \<open>Loader\<close> over an archive that is a parameter; the locale \<open>archive\<close> states that
      reading gives back what was written. \<open>ObjectTypes\<close>: types and casts. \<open>InstructionSerial\<close>: \<open>ASTSerialiser\<close>,
      \<open>InstructionRoundTrip\<close>: trees load as they were stored. \<open>ObjectFields\<close>: load and store of every class
      as lists of steps. \<open>IndexedFiles\<close>: the files and the sessions that load, append and create them.
      \<open>DatabaseRoundTrip\<close>: a database loads as it was stored.

  Bounds. Instances and time stamps are words of 32 bits and bit masks words of 32 and 64 bits. A type id
  is an integer, on which the code does no arithmetic that could overflow. A product of domain sizes that
  leaves the range of \<open>int\<close> is undefined behaviour (\<open>mul_int\<close>); conversions between \<open>int\<close> and \<open>size_t\<close> go
  through words. Sizes of vectors are natural numbers.

  Not modelled. The parser (\<open>src/parser\<close>) with the parser session that wraps it is a recursive descent over
  the tokens of clang's preprocessor, and the clang plugin a set of callbacks on clang's AST; both are calls
  into a library that is not in the repository. The implementation session names the buffers and members of
  the generated structures, which only the printed code uses. The event log (\<open>src/eventlog\<close>) maps files of
  the operating system into memory. The driver runs processes. Code generation and the generators print
  text. The XML bindings under \<open>src/schema\<close> are generated. Members that print are left out everywhere, and so
  are destructors: a coroutine that stops its own action while it runs, and is destroyed by that, is as one
  that stops another. The archive of boost and the file system are parameters. Iterators into the
  \<open>unordered_map\<close> of the scheduler are taken to survive insertions, although the standard lets a rehash
  invalidate them; its keys are equal when their hashes and the references are.
\<close>

end
